(* ===== verification/ChatPrelude.thy ===== *)
theory ChatPrelude
  imports Main "HOL-Library.Word" "HOL-Library.AList"
begin

text \<open>
  Shared vocabulary of the development: the types of the model (bytes, machine
  sizes, C++ exceptions as values), the members of the C++ standard library the
  sources use (\<^verbatim>\<open>std::string::find\<close>, \<^verbatim>\<open>substr\<close>, \<^verbatim>\<open>find_first_of\<close>, \<^verbatim>\<open>to_string\<close>,
  the C library's \<^verbatim>\<open>atoi\<close> and \<^verbatim>\<open>strncmp\<close>), and the generic lemmas about lists,
  words and association lists that the component theories share.
\<close>

unbundle bit_operations_syntax

named_theorems cpp_defs \<open>definitions of the modelled standard library\<close>
named_theorems unat_bits \<open>bit fields of a byte as arithmetic on its value\<close>

type_synonym byte = "8 word"
type_synonym u16 = "16 word"
type_synonym u32 = "32 word"
type_synonym u64 = "64 word"

section \<open>Exceptions and undefined behaviour as values\<close>

text \<open>
  A C++ function that can throw or run into undefined behaviour returns a value
  of type \<open>exn + 'a\<close>: \<open>Inl\<close> names what went wrong.
\<close>

datatype exn =
    OutOfRange      \<comment> \<open>\<^verbatim>\<open>std::out_of_range\<close> from \<^verbatim>\<open>substr\<close>\<close>
  | JsonError       \<comment> \<open>\<^verbatim>\<open>Json::LogicError\<close> from a conversion of \<^verbatim>\<open>Json::Value\<close>\<close>
  | BadOptional     \<comment> \<open>a null pointer used as a string\<close>
  | OutOfBounds     \<comment> \<open>an access outside an array: undefined behaviour\<close>
  | AssertFailed    \<comment> \<open>an \<^verbatim>\<open>assert\<close> of the source\<close>
  | InvalidArgument \<comment> \<open>\<^verbatim>\<open>std::invalid_argument\<close> from \<^verbatim>\<open>stoi\<close>\<close>
  | Overflow        \<comment> \<open>\<^verbatim>\<open>atoi\<close> on a number outside \<^verbatim>\<open>int\<close>: undefined behaviour\<close>

type_synonym 'a res = "exn + 'a"

definition and_then :: "'e + 'a \<Rightarrow> ('a \<Rightarrow> 'e + 'b) \<Rightarrow> 'e + 'b" where
  "and_then m f = (case m of Inl e \<Rightarrow> Inl e | Inr a \<Rightarrow> f a)"

lemma and_then_simps [simp]:
  "and_then (Inl e) f = Inl e"
  "and_then (Inr a) f = f a"
  by (simp_all add: and_then_def)

lemma and_then_eq_Inr:
  "and_then m f = Inr b \<longleftrightarrow> (\<exists>a. m = Inr a \<and> f a = Inr b)"
  by (cases m) auto

definition cpp_assert :: "bool \<Rightarrow> 'a res \<Rightarrow> 'a res" where
  "cpp_assert c k = (if c then k else Inl AssertFailed)"

lemma cpp_assert_simps [simp]:
  "cpp_assert True k = k"
  "cpp_assert False k = Inl AssertFailed"
  by (simp_all add: cpp_assert_def)

lemma cpp_assert_eq_Inr: "cpp_assert c k = Inr x \<longleftrightarrow> c \<and> k = Inr x"
  by (simp add: cpp_assert_def)

section \<open>Characters and bytes\<close>

definition byte_of :: "char \<Rightarrow> byte" where
  "byte_of c = word_of_nat (of_char c)"

definition char_of_byte :: "byte \<Rightarrow> char" where
  "char_of_byte b = char_of (unat b)"

definition bytes_of :: "string \<Rightarrow> byte list" where
  "bytes_of s = map byte_of s"

definition string_of :: "byte list \<Rightarrow> string" where
  "string_of bs = map char_of_byte bs"

lemma char_of_byte_of [simp]: "char_of_byte (byte_of c) = c"
proof -
  have "of_char c < (256 :: nat)" by (rule nat_of_char_less_256)
  then show ?thesis
    by (simp add: char_of_byte_def byte_of_def unat_of_nat)
qed

lemma byte_of_char_of [simp]: "byte_of (char_of_byte b) = b"
proof -
  have "unat b < 256" using unsigned_less [of b] by simp
  then show ?thesis by (simp add: char_of_byte_def byte_of_def of_char_of)
qed

lemma string_of_bytes_of [simp]: "string_of (bytes_of s) = s"
  by (simp add: string_of_def bytes_of_def o_def)

lemma bytes_of_string_of [simp]: "bytes_of (string_of bs) = bs"
  by (simp add: string_of_def bytes_of_def o_def)

lemma length_bytes_of [simp]: "length (bytes_of s) = length s"
  by (simp add: bytes_of_def)

lemma length_string_of [simp]: "length (string_of bs) = length bs"
  by (simp add: string_of_def)

lemma bytes_of_append [simp]: "bytes_of (s @ t) = bytes_of s @ bytes_of t"
  by (simp add: bytes_of_def)

lemma bytes_of_inject [simp]: "bytes_of s = bytes_of t \<longleftrightarrow> s = t"
  by (metis string_of_bytes_of)

text \<open>A statement about every byte is a statement about 256 values.\<close>

lemma byte_cases_all:
  assumes "\<forall>n\<in>set [0..<256]. P (word_of_nat n :: byte)"
  shows "P b"
proof -
  have "unat b \<in> set [0..<256]" using unsigned_less [of b] by simp
  with assms have "P (word_of_nat (unat b))" by blast
  then show ?thesis by simp
qed

section \<open>Words as numbers\<close>

lemma unat_and_mask: "unat (a AND mask n :: 'a::len word) = unat a mod 2 ^ n"
  unfolding take_bit_eq_mask [symmetric] unsigned_take_bit_eq by (simp add: take_bit_eq_mod)

lemma unat_drop_bit: "unat (drop_bit n a :: 'a::len word) = unat a div 2 ^ n"
  unfolding unsigned_drop_bit_eq by (simp add: drop_bit_eq_div flip: unsigned_take_bit_eq)

lemma unat_push_bit: "unat (push_bit n a :: 'a::len word) = unat a * 2 ^ n mod 2 ^ LENGTH('a)"
proof -
  have "unat (push_bit n a) = take_bit LENGTH('a) (push_bit n (unat a))"
    by (rule unsigned_push_bit_eq)
  then show ?thesis by (simp only: push_bit_eq_mult take_bit_eq_mod)
qed

lemma unat_byte_less [simp]: "unat (a :: byte) < 256"
  using unsigned_less [of a] by simp

lemma unat_add_small:
  "unat a + unat b < 2 ^ LENGTH('a) \<Longrightarrow> unat (a + b :: 'a::len word) = unat a + unat b"
  by (simp add: unat_word_ariths)

lemma unat_word_of_nat:
  "n < 2 ^ LENGTH('a) \<Longrightarrow> unat (word_of_nat n :: 'a::len word) = n"
  by (simp add: unat_of_nat)

section \<open>Searching and slicing strings\<close>

definition starts_with :: "'a list \<Rightarrow> 'a list \<Rightarrow> bool" where
  "starts_with pat s \<longleftrightarrow> take (length pat) s = pat"

text \<open>\<^verbatim>\<open>s.find(pat)\<close>: the position of the first occurrence, \<open>None\<close> for \<^verbatim>\<open>npos\<close>.\<close>

fun str_find :: "'a list \<Rightarrow> 'a list \<Rightarrow> nat option" where
  "str_find pat [] = (if pat = [] then Some 0 else None)"
| "str_find pat (x # xs) =
     (if starts_with pat (x # xs) then Some 0 else map_option Suc (str_find pat xs))"

text \<open>\<^verbatim>\<open>s.find(pat, pos)\<close>.\<close>

definition str_find_from :: "'a list \<Rightarrow> 'a list \<Rightarrow> nat \<Rightarrow> nat option" where
  "str_find_from pat s pos =
     (if pos \<le> length s then map_option (\<lambda>i. pos + i) (str_find pat (drop pos s)) else None)"

text \<open>\<^verbatim>\<open>s.find_first_of(set, pos)\<close>.\<close>

fun find_char :: "('a \<Rightarrow> bool) \<Rightarrow> 'a list \<Rightarrow> nat option" where
  "find_char p [] = None"
| "find_char p (x # xs) = (if p x then Some 0 else map_option Suc (find_char p xs))"

definition find_first_of :: "'a list \<Rightarrow> 'a list \<Rightarrow> nat \<Rightarrow> nat option" where
  "find_first_of cs s pos =
     map_option (\<lambda>i. pos + i) (find_char (\<lambda>c. c \<in> set cs) (drop pos s))"

text \<open>\<^verbatim>\<open>s.substr(pos, n)\<close> throws when \<open>pos\<close> is past the end, and clips \<open>n\<close>.\<close>

definition substr :: "'a list \<Rightarrow> nat \<Rightarrow> nat \<Rightarrow> 'a list res" where
  "substr s pos n = (if pos \<le> length s then Inr (take n (drop pos s)) else Inl OutOfRange)"

text \<open>Subtraction on \<^verbatim>\<open>size_t\<close>: wraps below zero.\<close>

definition size_sub :: "nat \<Rightarrow> nat \<Rightarrow> nat" where
  "size_sub a b = (if b \<le> a then a - b else 2 ^ 64 + a - b)"

lemma starts_with_append [simp]: "starts_with pat (pat @ s)"
  by (simp add: starts_with_def)

lemma starts_with_iff: "starts_with pat s \<longleftrightarrow> (\<exists>t. s = pat @ t)"
  by (metis append_eq_conv_conj append_take_drop_id starts_with_def)

lemma str_find_Some:
  "str_find pat s = Some i \<Longrightarrow>
     i \<le> length s \<and> starts_with pat (drop i s) \<and> (\<forall>j<i. \<not> starts_with pat (drop j s))"
proof (induction s arbitrary: i)
  case Nil
  then show ?case by (auto simp: starts_with_def split: if_splits)
next
  case (Cons x xs)
  show ?case
  proof (cases "starts_with pat (x # xs)")
    case True
    with Cons.prems show ?thesis by simp
  next
    case False
    with Cons.prems obtain k where k: "str_find pat xs = Some k" "i = Suc k" by auto
    from Cons.IH [OF k(1)] False k(2) show ?thesis
      by (auto simp: less_Suc_eq_0_disj)
  qed
qed

lemma all_le_Suc_shift:
  "(\<forall>i\<le>Suc n. P i) \<longleftrightarrow> P 0 \<and> (\<forall>i\<le>n. P (Suc i))"
  by (metis Suc_le_mono le0 not0_implies_Suc)

lemma str_find_None: "str_find pat s = None \<longleftrightarrow> (\<forall>i\<le>length s. \<not> starts_with pat (drop i s))"
proof (induction s)
  case Nil
  then show ?case by (simp add: starts_with_def)
next
  case (Cons x xs)
  then show ?case by (simp add: all_le_Suc_shift)
qed

lemma find_char_Some:
  "find_char p s = Some i \<Longrightarrow> i < length s \<and> p (s ! i) \<and> (\<forall>j<i. \<not> p (s ! j))"
proof (induction s arbitrary: i)
  case (Cons x xs)
  show ?case
  proof (cases "p x")
    case False
    with Cons.prems obtain k where "find_char p xs = Some k" "i = Suc k" by auto
    with Cons.IH [of k] False show ?thesis by (auto simp: less_Suc_eq_0_disj)
  qed (use Cons.prems in auto)
qed simp

lemma find_char_None: "find_char p s = None \<longleftrightarrow> (\<forall>x\<in>set s. \<not> p x)"
  by (induction s) auto

lemma find_char_append:
  "\<forall>x\<in>set s. \<not> p x \<Longrightarrow> find_char p (s @ t) = map_option (\<lambda>i. length s + i) (find_char p t)"
  by (cases "find_char p t"; induction s) auto

lemma take_find_char:
  "(case find_char p s of None \<Rightarrow> s | Some i \<Rightarrow> take i s) = takeWhile (\<lambda>x. \<not> p x) s"
  by (induction s) (auto split: option.splits)

text \<open>The line end of HTTP.\<close>

definition CRLF :: string where
  "CRLF = [CHR 0x0D, CHR 0x0A]"

section \<open>Numbers in decimal\<close>

text \<open>\<^verbatim>\<open>std::to_string\<close> and \<^verbatim>\<open>ostream << n\<close> of an unsigned number.\<close>

definition digit_char :: "nat \<Rightarrow> char" where
  "digit_char d = char_of (48 + d)"

fun dec :: "nat \<Rightarrow> string" where
  "dec n = (if n < 10 then [digit_char n] else dec (n div 10) @ [digit_char (n mod 10)])"

declare dec.simps [simp del]

definition is_digit :: "char \<Rightarrow> bool" where
  "is_digit c \<longleftrightarrow> 48 \<le> (of_char c :: nat) \<and> (of_char c :: nat) \<le> 57"

definition is_space :: "char \<Rightarrow> bool" where
  "is_space c \<longleftrightarrow> of_char c = (32 :: nat) \<or> 9 \<le> (of_char c :: nat) \<and> (of_char c :: nat) \<le> 13"

definition digit_val :: "char \<Rightarrow> nat" where
  "digit_val c = of_char c - 48"

definition dec_val :: "string \<Rightarrow> nat" where
  "dec_val s = foldl (\<lambda>n c. 10 * n + digit_val c) 0 s"

text \<open>
  \<^verbatim>\<open>strtol(s, 0, 10)\<close>: white space, a sign, digits; \<open>None\<close> when there is no digit.
\<close>

definition strtol :: "string \<Rightarrow> int option" where
  "strtol s =
     (let t = dropWhile is_space s;
          neg = (t \<noteq> [] \<and> hd t = CHR ''-'');
          u = (if t \<noteq> [] \<and> (hd t = CHR ''-'' \<or> hd t = CHR ''+'') then tl t else t);
          ds = takeWhile is_digit u in
      if ds = [] then None
      else Some (if neg then - int (dec_val ds) else int (dec_val ds)))"

definition int_range :: "int \<Rightarrow> bool" where
  "int_range i \<longleftrightarrow> - (2 ^ 31) \<le> i \<and> i < 2 ^ 31"

definition atoi :: "string \<Rightarrow> int res" where
  "atoi s = (case strtol s of None \<Rightarrow> Inr 0
             | Some i \<Rightarrow> if int_range i then Inr i else Inl Overflow)"

definition stoi :: "string \<Rightarrow> int res" where
  "stoi s = (case strtol s of None \<Rightarrow> Inl InvalidArgument
             | Some i \<Rightarrow> if int_range i then Inr i else Inl OutOfRange)"

lemma of_char_digit [simp]: "d < 10 \<Longrightarrow> of_char (digit_char d) = 48 + d"
  by (simp add: digit_char_def of_char_of)

lemma digit_char_props [simp]:
  "d < 10 \<Longrightarrow> is_digit (digit_char d)" "d < 10 \<Longrightarrow> digit_val (digit_char d) = d"
  by (simp_all add: is_digit_def digit_val_def)

lemma dec_nonempty [simp]: "dec n \<noteq> []"
  by (subst dec.simps) simp

lemma dec_digits: "list_all is_digit (dec n)"
  by (induction n rule: dec.induct) (subst dec.simps, simp)

lemma dec_val_snoc: "dec_val (s @ [c]) = 10 * dec_val s + digit_val c"
  by (simp add: dec_val_def)

lemma dec_small: "n < 10 \<Longrightarrow> dec n = [digit_char n]"
  and dec_large: "\<not> n < 10 \<Longrightarrow> dec n = dec (n div 10) @ [digit_char (n mod 10)]"
  by (simp_all add: dec.simps)

lemma dec_val_dec [simp]: "dec_val (dec n) = n"
proof (induction n rule: dec.induct)
  case (1 n)
  show ?case
  proof (cases "n < 10")
    case True
    then show ?thesis by (simp add: dec_small dec_val_def)
  next
    case False
    with 1 show ?thesis by (simp add: dec_large dec_val_snoc)
  qed
qed

lemma digit_not_space: "is_digit c \<Longrightarrow> \<not> is_space c"
  by (auto simp: is_digit_def is_space_def)

lemma digit_not_sign: "is_digit c \<Longrightarrow> c \<noteq> CHR ''-'' \<and> c \<noteq> CHR ''+''"
  by (auto simp: is_digit_def)

lemma strtol_digits: "ds \<noteq> [] \<Longrightarrow> list_all is_digit ds \<Longrightarrow> strtol ds = Some (int (dec_val ds))"
proof -
  assume ne: "ds \<noteq> []" and all: "list_all is_digit ds"
  from ne all have hd: "is_digit (hd ds)" by (cases ds) auto
  have drop: "dropWhile is_space ds = ds"
    using ne hd by (cases ds) (simp_all add: digit_not_space)
  have tw: "takeWhile is_digit ds = ds"
    using all by (simp add: takeWhile_eq_all_conv list_all_iff)
  show ?thesis
    using ne digit_not_sign [OF hd] by (simp add: strtol_def drop tw Let_def)
qed

lemma strtol_dec [simp]: "strtol (dec n) = Some (int n)"
  by (simp add: strtol_digits dec_digits)

lemma atoi_dec: "n < 2 ^ 31 \<Longrightarrow> atoi (dec n) = Inr (int n)"
  by (simp add: atoi_def int_range_def)

lemma dec_inject [simp]: "dec m = dec n \<longleftrightarrow> m = n"
  by (metis dec_val_dec)

text \<open>No character that is not a digit occurs in a printed number.\<close>

lemma dec_no_char: "\<not> is_digit c \<Longrightarrow> c \<notin> set (dec n)"
  using dec_digits [of n] by (auto simp: list_all_iff)

end
