(* ===== verification/ConfigFile.thy ===== *)
theory ConfigFile
  imports ChatPrelude "HOL-Library.List_Lexorder" "HOL-Library.Char_ord"
begin

text \<open>
  \<^verbatim>\<open>base/config_file_reader.cc\<close>: the reader of \<^verbatim>\<open>key=value\<close> files that every
  service is configured with. The \<^verbatim>\<open>std::map\<close> is the list of its pairs in key
  order. The file system is what the two calls see of it: the content of the file
  that is opened (\<open>None\<close> when it cannot be), and whether a write succeeds. Shown:
  what a load makes of a file, and that writing a map and loading it again gives
  the map back when every pair fits the line buffer.
\<close>

section \<open>\<^verbatim>\<open>std::map\<close> in key order\<close>

type_synonym config_map = "(string \<times> string) list"

text \<open>\<^verbatim>\<open>insert\<close> keeps a value that is there; \<^verbatim>\<open>it->second = value\<close> replaces it.\<close>

fun map_insert :: "string \<Rightarrow> string \<Rightarrow> config_map \<Rightarrow> config_map" where
  "map_insert k v [] = [(k, v)]"
| "map_insert k v ((k', v') # m) =
     (if k = k' then (k', v') # m
      else if k < k' then (k, v) # (k', v') # m
      else (k', v') # map_insert k v m)"

fun map_assign :: "string \<Rightarrow> string \<Rightarrow> config_map \<Rightarrow> config_map" where
  "map_assign k v [] = []"
| "map_assign k v ((k', v') # m) =
     (if k = k' then (k', v) # m else (k', v') # map_assign k v m)"

definition config_map_ok :: "config_map \<Rightarrow> bool" where
  "config_map_ok m \<longleftrightarrow> sorted_wrt (<) (map fst m)"

section \<open>The reader\<close>

record CConfigFileReader =
  load_ok :: bool
  config_map :: config_map
  config_file :: string

definition is_blank :: "char \<Rightarrow> bool" where
  "is_blank c \<longleftrightarrow> c = CHR 0x20 \<or> c = CHR 0x09"

definition TrimSpace :: "string \<Rightarrow> string option" where
  "TrimSpace name =
     (let start_pos = dropWhile is_blank name in
      if start_pos = [] then None
      else Some (rev (dropWhile is_blank (rev start_pos))))"

definition ParseLine :: "string \<Rightarrow> config_map \<Rightarrow> config_map" where
  "ParseLine line m =
     (case find_char (\<lambda>c. c = CHR ''='') line of
        None \<Rightarrow> m
      | Some p \<Rightarrow>
          (case (TrimSpace (take p line), TrimSpace (drop (p + 1) line)) of
             (Some key, Some val) \<Rightarrow> map_insert key val m
           | _ \<Rightarrow> m))"

text \<open>\<^verbatim>\<open>fgets(buf, 256, fp)\<close>: up to 255 characters, the newline included.\<close>

definition fgets_len :: "string \<Rightarrow> nat" where
  "fgets_len s =
     min 255 (case find_char (\<lambda>c. c = CHR 0x0A) s of None \<Rightarrow> length s | Some i \<Rightarrow> Suc i)"

definition c_str :: "string \<Rightarrow> string" where
  "c_str s = takeWhile (\<lambda>c. c \<noteq> CHR 0x00) s"

text \<open>
  The text of a line that is parsed: without its newline and its comment. A
  buffer that starts with a zero byte has length 0, and \<^verbatim>\<open>buf[len - 1]\<close> is outside it.
\<close>

definition line_text :: "string \<Rightarrow> string res" where
  "line_text buf =
     (let s = c_str buf in
      if s = [] then Inl OutOfBounds
      else Inr (takeWhile (\<lambda>c. c \<noteq> CHR ''#'')
                  (if last s = CHR 0x0A then butlast s else s)))"

function load_lines :: "string \<Rightarrow> config_map \<Rightarrow> config_map res" where
  "load_lines s m =
     (if s = [] then Inr m
      else and_then (line_text (take (fgets_len s) s))
             (\<lambda>line. load_lines (drop (fgets_len s) s)
                        (if line = [] then m else ParseLine line m)))"
  by pat_completeness auto
termination
  by (relation "measure (\<lambda>(s, m). length s)")
    (auto simp: fgets_len_def split: option.splits)

declare load_lines.simps [simp del]

text \<open>
  The constructor. \<open>junk\<close> is the value the uninitialised member \<^verbatim>\<open>load_ok_\<close> happens
  to have, which stays when the file cannot be opened.
\<close>

definition LoadFile :: "bool \<Rightarrow> string \<Rightarrow> string option \<Rightarrow> CConfigFileReader res" where
  "LoadFile junk filename content =
     (case content of
        None \<Rightarrow> Inr \<lparr>load_ok = junk, config_map = [], config_file = filename\<rparr>
      | Some text \<Rightarrow>
          and_then (load_lines text [])
            (\<lambda>m. Inr \<lparr>load_ok = True, config_map = m, config_file = filename\<rparr>))"

definition GetConfigName :: "CConfigFileReader \<Rightarrow> string \<Rightarrow> string option" where
  "GetConfigName r name = (if load_ok r then map_of (config_map r) name else None)"

text \<open>One \<^verbatim>\<open>snprintf\<close> into \<^verbatim>\<open>char szPaire[128]\<close>.\<close>

definition pair_text :: "string \<times> string \<Rightarrow> string" where
  "pair_text kv = take 127 (c_str (fst kv) @ ''='' @ c_str (snd kv) @ [CHR 0x0A])"

text \<open>The result code and what has been written; \<open>fwrite_ok\<close> says which writes succeed.\<close>

fun write_pairs :: "(string \<Rightarrow> bool) \<Rightarrow> config_map \<Rightarrow> string \<Rightarrow> int \<times> string" where
  "write_pairs fwrite_ok [] out = (0, out)"
| "write_pairs fwrite_ok (kv # m) out =
     (if fwrite_ok (pair_text kv) then write_pairs fwrite_ok m (out @ pair_text kv)
      else (- 1, out))"

text \<open>\<open>None\<close> as the new content: the file could not be opened and is as before.\<close>

definition WriteFIle ::
    "bool \<Rightarrow> (string \<Rightarrow> bool) \<Rightarrow> CConfigFileReader \<Rightarrow> int \<times> string option" where
  "WriteFIle fopen_ok fwrite_ok r =
     (if fopen_ok then (let (ret, out) = write_pairs fwrite_ok (config_map r) [] in (ret, Some out))
      else (- 1, None))"

definition SetConfigValue ::
    "bool \<Rightarrow> (string \<Rightarrow> bool) \<Rightarrow> CConfigFileReader \<Rightarrow> string \<Rightarrow> string
       \<Rightarrow> CConfigFileReader \<times> int \<times> string option" where
  "SetConfigValue fopen_ok fwrite_ok r name val =
     (if \<not> load_ok r then (r, - 1, None)
      else
        let r' = r\<lparr>config_map :=
                     (if map_of (config_map r) name \<noteq> None
                      then map_assign name val (config_map r)
                      else map_insert name val (config_map r))\<rparr>
        in (r', WriteFIle fopen_ok fwrite_ok r'))"

text \<open>Pairs that survive a write: trimmed, without the separators, and short enough.\<close>

definition clean_text :: "string \<Rightarrow> bool" where
  "clean_text s \<longleftrightarrow> s \<noteq> [] \<and> \<not> is_blank (hd s) \<and> \<not> is_blank (last s)
     \<and> CHR 0x00 \<notin> set s \<and> CHR 0x0A \<notin> set s \<and> CHR ''#'' \<notin> set s"

definition clean_pair :: "string \<times> string \<Rightarrow> bool" where
  "clean_pair kv \<longleftrightarrow> clean_text (fst kv) \<and> clean_text (snd kv) \<and> CHR ''='' \<notin> set (fst kv)
     \<and> length (fst kv) + length (snd kv) + 2 \<le> 127"

section \<open>Lemmas\<close>

lemma map_of_insert:
  "map_of (map_insert k v m) =
     (if map_of m k = None then (map_of m)(k \<mapsto> v) else map_of m)"
  if "config_map_ok m"
  using that
proof (induction k v m rule: map_insert.induct)
  case (2 k v k' v' m)
  have rest: "config_map_ok m" using 2(2) by (simp add: config_map_ok_def)
  have gt: "k < k' \<Longrightarrow> map_of m k = None"
    using 2(2) by (force simp: config_map_ok_def map_of_eq_None_iff)
  show ?case
  proof (cases "k = k'")
    case False
    then show ?thesis using 2(1) rest gt by (cases "k < k'") (auto simp: fun_eq_iff)
  qed auto
qed (simp add: fun_eq_iff)

lemma map_of_assign:
  "map_of (map_assign k v m) = (if map_of m k = None then map_of m else (map_of m)(k \<mapsto> v))"
  by (induction k v m rule: map_assign.induct) (auto simp: fun_eq_iff)

lemma keys_insert: "fst ` set (map_insert k v m) = insert k (fst ` set m)"
  by (induction k v m rule: map_insert.induct) auto

lemma keys_assign [simp]: "map fst (map_assign k v m) = map fst m"
  by (induction k v m rule: map_assign.induct) auto

lemma config_map_ok_insert: "config_map_ok m \<Longrightarrow> config_map_ok (map_insert k v m)"
proof (induction k v m rule: map_insert.induct)
  case (2 k v k' v' m)
  have IH: "k \<noteq> k' \<Longrightarrow> \<not> k < k' \<Longrightarrow> sorted_wrt (<) (map fst (map_insert k v m))"
    using 2 by (simp add: config_map_ok_def)
  have gt: "\<forall>x \<in> fst ` set m. k' < x" using 2(2) by (simp add: config_map_ok_def)
  show ?case
  proof (cases "k = k'")
    case False
    then show ?thesis
      using 2(2) IH gt keys_insert [of k v m]
      by (cases "k < k'") (auto simp: config_map_ok_def)
  qed (use 2(2) in simp)
qed (simp add: config_map_ok_def)

lemma config_map_ok_assign: "config_map_ok m \<Longrightarrow> config_map_ok (map_assign k v m)"
  by (simp add: config_map_ok_def)

lemma config_map_ok_ParseLine: "config_map_ok m \<Longrightarrow> config_map_ok (ParseLine line m)"
  by (simp add: ParseLine_def config_map_ok_insert split: option.splits)

lemma config_map_ok_load: "load_lines s m = Inr m' \<Longrightarrow> config_map_ok m \<Longrightarrow> config_map_ok m'"
proof (induction s m rule: load_lines.induct)
  case (1 s m)
  show ?case
  proof (cases "s = []")
    case True
    with 1 show ?thesis by (simp add: load_lines.simps)
  next
    case False
    with 1(2) obtain line where l: "line_text (take (fgets_len s) s) = Inr line"
      and r: "load_lines (drop (fgets_len s) s) (if line = [] then m else ParseLine line m) = Inr m'"
      by (subst (asm) load_lines.simps) (auto simp: and_then_eq_Inr)
    show ?thesis by (rule 1(1) [OF False r]) (simp add: 1(3) config_map_ok_ParseLine)
  qed
qed

text \<open>A sorted map is determined by its lookups.\<close>

lemma config_map_eqI:
  assumes "config_map_ok m" "config_map_ok m'" "map_of m = map_of m'"
  shows "m = m'"
proof -
  have d: "distinct (map fst m)" "distinct (map fst m')"
    using assms by (auto simp: config_map_ok_def strict_sorted_iff)
  have s: "set m = set m'" using map_of_inject_set [OF d] assms(3) by simp
  then have keys: "set (map fst m) = set (map fst m')" by simp
  have fst_eq: "map fst m = map fst m'"
    using sorted_distinct_set_unique [OF _ d(1) _ d(2) keys] assms(1,2)
    by (simp add: config_map_ok_def strict_sorted_iff)
  show ?thesis using fst_eq s d(2)
    by (metis inj_on_map_eq_map distinct_map inj_on_Un sup.idem)
qed

lemma TrimSpace_clean: "clean_text s \<Longrightarrow> TrimSpace s = Some s"
proof -
  assume c: "clean_text s"
  then have "dropWhile is_blank s = s" by (cases s) (auto simp: clean_text_def)
  moreover have "dropWhile is_blank (rev s) = rev s"
    using c by (cases s rule: rev_cases) (auto simp: clean_text_def)
  ultimately show ?thesis using c by (simp add: TrimSpace_def clean_text_def)
qed

lemma c_str_id: "CHR 0x00 \<notin> set s \<Longrightarrow> c_str s = s"
  by (auto simp: c_str_def takeWhile_eq_all_conv)

lemma pair_text_clean:
  "clean_pair (k, v) \<Longrightarrow> pair_text (k, v) = k @ ''='' @ v @ [CHR 0x0A]"
  by (auto simp: pair_text_def clean_pair_def clean_text_def c_str_id)

lemma ParseLine_clean:
  assumes "clean_pair (k, v)"
  shows "ParseLine (k @ ''='' @ v) m = map_insert k v m"
proof -
  have "find_char (\<lambda>c. c = CHR ''='') (k @ ''='' @ v) = Some (length k)"
    using assms by (subst find_char_append) (auto simp: clean_pair_def)
  with assms show ?thesis
    by (simp add: ParseLine_def clean_pair_def TrimSpace_clean)
qed

lemma load_pair:
  assumes "clean_pair (k, v)"
  shows "load_lines (pair_text (k, v) @ rest) m = load_lines rest (map_insert k v m)"
proof -
  let ?l = "k @ ''='' @ v"
  have nl: "\<forall>c\<in>set ?l. c \<noteq> CHR 0x0A" and z: "CHR 0x00 \<notin> set (?l @ [CHR 0x0A])"
    and h: "CHR ''#'' \<notin> set ?l" and len: "length ?l \<le> 126"
    using assms by (auto simp: clean_pair_def clean_text_def)
  have eq: "pair_text (k, v) = ?l @ [CHR 0x0A]" using pair_text_clean [OF assms] by simp
  have "find_char (\<lambda>c. c = CHR 0x0A) (?l @ CHR 0x0A # rest) = Some (length ?l)"
    using find_char_append [of ?l "\<lambda>c. c = CHR 0x0A" "CHR 0x0A # rest"] nl by simp
  then have g: "fgets_len (pair_text (k, v) @ rest) = length (?l @ [CHR 0x0A])"
    using len eq by (simp add: fgets_len_def)
  have tw: "takeWhile (\<lambda>c. c \<noteq> CHR ''#'') ?l = ?l"
    using h unfolding takeWhile_eq_all_conv by blast
  have t: "line_text (?l @ [CHR 0x0A]) = Inr ?l"
    unfolding line_text_def c_str_id [OF z] Let_def butlast_snoc last_snoc
    by (simp only: tw if_True refl append_is_Nil_conv list.distinct simp_thms if_False)
  show ?thesis
    using g t ParseLine_clean [OF assms, of m]
    by (subst load_lines.simps) (simp add: eq)
qed

lemma load_pairs:
  "list_all clean_pair ps \<Longrightarrow>
     load_lines (concat (map pair_text ps)) m = Inr (foldl (\<lambda>m (k, v). map_insert k v m) m ps)"
proof (induction ps arbitrary: m)
  case Nil
  then show ?case by (simp add: load_lines.simps)
next
  case (Cons p ps)
  then show ?case by (cases p) (simp add: load_pair)
qed

lemma insert_all_lookup:
  "config_map_ok m \<Longrightarrow>
     config_map_ok (foldl (\<lambda>m (k, v). map_insert k v m) m ps)
     \<and> map_of (foldl (\<lambda>m (k, v). map_insert k v m) m ps) = map_of ps ++ map_of m"
proof (induction ps arbitrary: m)
  case (Cons p ps)
  obtain k v where p: "p = (k, v)" by (cases p)
  have "map_of ps ++ map_of (map_insert k v m) = map_of (p # ps) ++ map_of m"
    by (auto simp: p map_of_insert [OF Cons.prems] map_add_def fun_eq_iff split: option.splits)
  with Cons.IH [of "map_insert k v m"] config_map_ok_insert [OF Cons.prems, of k v]
  show ?case by (simp add: p fun_upd_def)
qed simp

lemma write_pairs_all:
  "(\<forall>p\<in>set m. ok (pair_text p)) \<Longrightarrow> write_pairs ok m out = (0, out @ concat (map pair_text m))"
  by (induction m arbitrary: out) auto

lemma load_written:
  assumes "config_map_ok m" "list_all clean_pair m"
  shows "load_lines (concat (map pair_text m)) [] = Inr m"
proof -
  let ?m' = "foldl (\<lambda>m (k, v). map_insert k v m) [] m"
  have "config_map_ok ?m' \<and> map_of ?m' = map_of m"
    using insert_all_lookup [of "[]" m] by (simp add: config_map_ok_def)
  then have "?m' = m" using assms(1) by (blast intro: config_map_eqI)
  with load_pairs [OF assms(2), of "[]"] show ?thesis by simp
qed

lemma clean_map_change:
  assumes "list_all clean_pair m" "clean_pair (k, v)"
  shows "list_all clean_pair (map_insert k v m)" "list_all clean_pair (map_assign k v m)"
proof -
  show "list_all clean_pair (map_insert k v m)"
    using assms by (induction k v m rule: map_insert.induct) auto
  show "list_all clean_pair (map_assign k v m)"
    using assms by (induction k v m rule: map_assign.induct) auto
qed

section \<open>Properties\<close>

text \<open>
  After \<^verbatim>\<open>SetConfigValue\<close> on a loaded reader the name has the new value and
  every other name its old one; when the writes succeed and every pair is clean,
  the call returns 0 and loading the written file into a new reader gives exactly
  this configuration.
\<close>

theorem config_set_reload:
  assumes "load_ok r" "config_map_ok (config_map r)" "list_all clean_pair (config_map r)"
    and "clean_pair (name, val)"
    and "SetConfigValue True (\<lambda>_. True) r name val = (r', ret, content)"
  shows "ret = 0
    \<and> GetConfigName r' = (\<lambda>k. if k = name then Some val else GetConfigName r k)
    \<and> LoadFile junk (config_file r) content
        = Inr \<lparr>load_ok = True, config_map = config_map r', config_file = config_file r\<rparr>"
proof -
  let ?m = "if map_of (config_map r) name \<noteq> None
            then map_assign name val (config_map r) else map_insert name val (config_map r)"
  have ok: "config_map_ok ?m" "list_all clean_pair ?m"
    using assms by (simp_all add: config_map_ok_insert config_map_ok_assign clean_map_change)
  have r': "r' = r\<lparr>config_map := ?m\<rparr>" "ret = 0" "content = Some (concat (map pair_text ?m))"
    using assms(1,5) write_pairs_all [of ?m "\<lambda>_. True" "[]"]
    by (auto simp: SetConfigValue_def WriteFIle_def Let_def split: if_splits)
  have "map_of ?m = (map_of (config_map r))(name \<mapsto> val)"
    using map_of_insert [OF assms(2)] map_of_assign by auto
  then have "GetConfigName r' = (\<lambda>k. if k = name then Some val else GetConfigName r k)"
    using r'(1) assms(1) by (auto simp: GetConfigName_def fun_eq_iff)
  with r' load_written [OF ok] show ?thesis by (simp add: LoadFile_def)
qed

definition sample_reader :: CConfigFileReader where
  "sample_reader = \<lparr>load_ok = True, config_map = [(''ip'', ''h''), (''port'', ''1'')],
                    config_file = ''c.conf''\<rparr>"

theorem config_set_reload_witness:
  "LoadFile False ''c.conf'' (Some (''ip=h'' @ [CHR 0x0A] @ ''port=2'' @ [CHR 0x0A]))
     = Inr \<lparr>load_ok = True, config_map = [(''ip'', ''h''), (''port'', ''2'')],
            config_file = ''c.conf''\<rparr>"
proof -
  have run: "SetConfigValue True (\<lambda>_. True) sample_reader ''port'' ''2''
      = (sample_reader\<lparr>config_map := [(''ip'', ''h''), (''port'', ''2'')]\<rparr>, 0,
         Some (''ip=h'' @ [CHR 0x0A] @ ''port=2'' @ [CHR 0x0A]))"
    by code_simp
  have "load_ok sample_reader" "config_map_ok (config_map sample_reader)"
    "list_all clean_pair (config_map sample_reader)" "clean_pair (''port'', ''2'')"
    by code_simp+
  from config_set_reload [OF this run, of False] show ?thesis
    by (simp add: sample_reader_def)
qed

text \<open>
  A file of well-formed \<^verbatim>\<open>key=value\<close> lines, in any order and with repeated
  keys, is loaded to the end; the reader then holds its pairs in key order, and of
  two lines with the same key the first one counts.
\<close>

theorem config_load_lines:
  assumes "list_all clean_pair ps"
  shows "\<exists>m. LoadFile junk f (Some (concat (map pair_text ps)))
               = Inr \<lparr>load_ok = True, config_map = m, config_file = f\<rparr>
             \<and> config_map_ok m \<and> map_of m = map_of ps"
proof -
  let ?m = "foldl (\<lambda>m (k, v). map_insert k v m) [] ps"
  have "config_map_ok ?m \<and> map_of ?m = map_of ps"
    using insert_all_lookup [of "[]" ps] by (simp add: config_map_ok_def)
  moreover have "LoadFile junk f (Some (concat (map pair_text ps)))
      = Inr \<lparr>load_ok = True, config_map = ?m, config_file = f\<rparr>"
    using load_pairs [OF assms, of "[]"] by (simp add: LoadFile_def)
  ultimately show ?thesis by blast
qed

theorem config_load_lines_witness:
  "\<exists>m. LoadFile True ''f'' (Some (concat (map pair_text [(''k'', ''1''), (''k'', ''2'')])))
               = Inr \<lparr>load_ok = True, config_map = m, config_file = ''f''\<rparr>
             \<and> config_map_ok m \<and> map_of m = map_of [(''k'', ''1''), (''k'', ''2'')]"
  by (rule config_load_lines) code_simp

text \<open>
  A pair longer than the 128-byte line buffer is cut, newline included, and
  the line that follows it in the file is lost when the file is read again.
\<close>

theorem config_long_pair_lost:
  "(let r = \<lparr>load_ok = True, config_map = [(''a'', replicate 126 CHR ''x''), (''b'', ''y'')],
            config_file = ''f''\<rparr>;
       (ret, content) = WriteFIle True (\<lambda>_. True) r in
    ret = 0 \<and> GetConfigName r ''b'' = Some ''y''
    \<and> (case LoadFile False ''f'' content of Inr r' \<Rightarrow> GetConfigName r' ''b'' = None | _ \<Rightarrow> False))"
  by code_simp

end
