(* ===== verification/Util.thy ===== *)
theory Util
  imports ChatPrelude
begin

text \<open>
  The helpers of \<^verbatim>\<open>base/util.cc\<close>, which the three services share: splitting a
  C string, filling the \<^verbatim>\<open>?\<close> marks of an SQL template, decimal conversion, URL
  encoding and the byte search \<^verbatim>\<open>MemFind\<close>. A C string is the list of its
  characters before the terminating zero. Shown here: what each helper computes,
  that filling marks never touches a mark that came in with a value, that URL
  decoding inverts encoding on every string, and which match the forward search
  of \<^verbatim>\<open>MemFind\<close> cannot see.
\<close>

section \<open>Splitting a string\<close>

text \<open>
  The second loop of the constructor. \<open>cur\<close> is the text between \<^verbatim>\<open>start\<close> and
  \<^verbatim>\<open>pos\<close>; a separator at \<^verbatim>\<open>start\<close> itself does not end an item.
\<close>

fun explode_loop :: "char \<Rightarrow> string \<Rightarrow> string list \<Rightarrow> string \<Rightarrow> string list" where
  "explode_loop sep cur items [] = (if cur \<noteq> [] then items @ [cur] else items)"
| "explode_loop sep cur items (c # cs) =
     (if cur \<noteq> [] \<and> c = sep then explode_loop sep [] (items @ [cur]) cs
      else explode_loop sep (cur @ [c]) items cs)"

text \<open>
  The item count and the item array; \<open>None\<close> is an entry that is never assigned.
  Strings are shorter than \<open>2 ^ 32 - 1\<close>, so that the \<^verbatim>\<open>uint32_t\<close> count is exact.
\<close>

definition CStrExplode :: "string \<Rightarrow> char \<Rightarrow> nat \<times> string option list" where
  "CStrExplode str sep =
     (let cnt = Suc (count_list str sep); items = explode_loop sep [] [] str in
      (cnt, map Some items @ replicate (cnt - length items) None))"

definition GetItem :: "nat \<times> string option list \<Rightarrow> nat \<Rightarrow> string res" where
  "GetItem e idx =
     (if idx < length (snd e)
      then (case snd e ! idx of None \<Rightarrow> Inl OutOfBounds | Some s \<Rightarrow> Inr s)
      else Inl OutOfBounds)"

fun join_with :: "char \<Rightarrow> string list \<Rightarrow> string" where
  "join_with sep [] = []"
| "join_with sep [x] = x"
| "join_with sep (x # y # ys) = x @ sep # join_with sep (y # ys)"

section \<open>Characters, decimal numbers and SQL marks\<close>

definition ReplaceStr :: "string option \<Rightarrow> char \<Rightarrow> char \<Rightarrow> string option" where
  "ReplaceStr src old_char new_char =
     map_option (map (\<lambda>c. if c = old_char then new_char else c)) src"

definition Int2String :: "u32 \<Rightarrow> string" where
  "Int2String user_id = dec (unat user_id)"

definition String2Int :: "string \<Rightarrow> u32 res" where
  "String2Int value = and_then (atoi (takeWhile (\<lambda>c. c \<noteq> CHR 0x00) value)) (\<lambda>i. Inr (word_of_int i))"

text \<open>
  The two overloads of \<^verbatim>\<open>ReplaceMark\<close> differ in the text they insert. The
  position is a \<^verbatim>\<open>uint32_t\<close>, so the new one is taken modulo \<open>2 ^ 32\<close>.
\<close>

definition replace_mark :: "string \<Rightarrow> string \<Rightarrow> u32 \<Rightarrow> string \<times> u32" where
  "replace_mark str value begin_pos =
     (case str_find_from ''?'' str (unat begin_pos) of
        None \<Rightarrow> (str, begin_pos)
      | Some pos \<Rightarrow>
          (take pos str @ value @ drop (pos + 1) str, word_of_nat (pos + length value)))"

definition ReplaceMark :: "string \<Rightarrow> string \<Rightarrow> u32 \<Rightarrow> string \<times> u32" where
  "ReplaceMark str new_value begin_pos =
     replace_mark str (CHR 0x27 # new_value @ [CHR 0x27]) begin_pos"

definition ReplaceMark_uint :: "string \<Rightarrow> u32 \<Rightarrow> u32 \<Rightarrow> string \<times> u32" where
  "ReplaceMark_uint str new_value begin_pos =
     replace_mark str (Int2String new_value) begin_pos"

text \<open>What a template with its marks filled from the left is meant to be.\<close>

fun fill_marks :: "string \<Rightarrow> string list \<Rightarrow> string" where
  "fill_marks t [] = t"
| "fill_marks [] (v # vs) = []"
| "fill_marks (c # t) (v # vs) =
     (if c = CHR ''?'' then CHR 0x27 # v @ CHR 0x27 # fill_marks t vs
      else c # fill_marks t (v # vs))"

section \<open>URL encoding\<close>

definition ToHex :: "byte \<Rightarrow> byte" where
  "ToHex x = (if 9 < x then x - 10 + 65 else x + 48)"

definition FromHex :: "byte \<Rightarrow> byte" where
  "FromHex x = (if 48 \<le> x \<and> x \<le> 57 then x - 48 else x - 65 + 10)"

definition isalnum :: "byte \<Rightarrow> bool" where
  "isalnum b \<longleftrightarrow> 48 \<le> b \<and> b \<le> 57 \<or> 65 \<le> b \<and> b \<le> 90 \<or> 97 \<le> b \<and> b \<le> 122"

definition url_unit :: "byte \<Rightarrow> byte list" where
  "url_unit b = (if isalnum b then [b] else [0x25, ToHex (drop_bit 4 b), ToHex (b mod 16)])"

definition URLEncode :: "byte list \<Rightarrow> byte list" where
  "URLEncode s = concat (map url_unit s)"

text \<open>
  \<^verbatim>\<open>in[in.size()]\<close> is the terminating zero; the byte after it is outside the
  string, and reading it is undefined.
\<close>

fun URLDecode :: "byte list \<Rightarrow> byte list res" where
  "URLDecode [] = Inr []"
| "URLDecode (c # cs) =
     (if c = 0x25 then
        (case cs of
           a # b # rest \<Rightarrow>
             and_then (URLDecode rest)
               (\<lambda>out. Inr ((push_bit 4 (FromHex a) OR FromHex b) # out))
         | [a] \<Rightarrow> Inr [push_bit 4 (FromHex a) OR FromHex 0]
         | [] \<Rightarrow> Inl OutOfBounds)
      else and_then (URLDecode cs) (\<lambda>out. Inr ((if c = 0x2B then 0x20 else c) # out)))"

section \<open>Searching a byte block\<close>

text \<open>
  \<^verbatim>\<open>MemFind\<close> on a block \<open>src\<close> of \<^verbatim>\<open>src_len\<close> bytes; \<open>None\<close> as an argument is a
  null pointer, and the result is an offset. With \<open>sub_len = 0\<close> the pattern is a
  C string whose length is taken instead; a block shorter than such a pattern
  makes \<^verbatim>\<open>src_len - sub_len\<close> wrap, and the forward loop reads outside the block.
  Blocks are shorter than \<open>2 ^ 31\<close> bytes, the range of the loop variable.
\<close>

definition mem_at :: "byte list \<Rightarrow> byte list \<Rightarrow> nat \<Rightarrow> bool" where
  "mem_at src sub i \<longleftrightarrow> take (length sub) (drop i src) = sub"

definition MemFind ::
    "byte list option \<Rightarrow> byte list option \<Rightarrow> nat \<Rightarrow> bool \<Rightarrow> nat option res" where
  "MemFind src_str sub_str sub_len flag =
     (case (src_str, sub_str) of
        (Some src, Some sub_block) \<Rightarrow>
          let src_len = length src in
          if src_len = 0 \<or> src_len < sub_len then Inr None
          else
            let sub = (if sub_len = 0 then takeWhile (\<lambda>b. b \<noteq> 0) sub_block
                       else take sub_len sub_block) in
            if src_len = length sub then Inr (if src = sub then Some 0 else None)
            else if flag then
              (if src_len < length sub then Inl OutOfBounds
               else Inr (find (mem_at src sub) [0..<src_len - length sub]))
            else if src_len < length sub then Inr None
            else Inr (find (mem_at src sub) (rev [0..<Suc (src_len - length sub)]))
      | _ \<Rightarrow> Inr None)"

section \<open>Lemmas\<close>

lemma explode_loop_length:
  "length (explode_loop sep cur items str) \<le> length items + Suc (count_list str sep)"
proof (induction sep cur items str rule: explode_loop.induct)
  case (2 sep cur items c cs)
  then show ?case by (cases "cur \<noteq> [] \<and> c = sep") auto
qed simp

lemma explode_loop_piece:
  "sep \<notin> set xs \<Longrightarrow>
     explode_loop sep cur items (xs @ cs) = explode_loop sep (cur @ xs) items cs"
  by (induction xs arbitrary: cur) auto

lemma explode_loop_join:
  "list_all (\<lambda>p. p \<noteq> [] \<and> sep \<notin> set p) ps \<Longrightarrow>
     explode_loop sep [] items (join_with sep ps) = items @ ps"
proof (induction sep ps arbitrary: items rule: join_with.induct)
  case (2 sep x)
  then show ?case using explode_loop_piece [of sep x "[]" items "[]"] by simp
next
  case (3 sep x y ys)
  have "explode_loop sep [] items (x @ sep # join_with sep (y # ys))
      = explode_loop sep [] (items @ [x]) (join_with sep (y # ys))"
    using 3(2) explode_loop_piece [of sep x "[]" items "sep # join_with sep (y # ys)"] by simp
  with 3 show ?case by simp
qed simp

lemma count_join:
  "list_all (\<lambda>p. p \<noteq> [] \<and> sep \<notin> set p) ps \<Longrightarrow> ps \<noteq> [] \<Longrightarrow>
     Suc (count_list (join_with sep ps) sep) = length ps"
  by (induction sep ps rule: join_with.induct) (auto simp: count_notin)

lemma find_mark:
  "str_find [c] (pre @ c # rest) = Some (length pre)" if "c \<notin> set pre"
  using that by (induction pre) (auto simp: starts_with_def)

lemma find_no_mark: "c \<notin> set s \<Longrightarrow> str_find [c] s = None"
  by (induction s) (auto simp: starts_with_def)

lemma replace_mark_hit:
  assumes "CHR ''?'' \<notin> set pre" "unat p = length don"
  shows "replace_mark (don @ pre @ CHR ''?'' # rest) v p
       = ((don @ pre @ v) @ rest, word_of_nat (length (don @ pre @ v)))"
proof -
  have "str_find_from ''?'' (don @ pre @ CHR ''?'' # rest) (length don)
      = Some (length don + length pre)"
    by (simp add: str_find_from_def find_mark [OF assms(1)])
  with assms(2) show ?thesis by (simp add: replace_mark_def)
qed

lemma replace_mark_miss:
  assumes "CHR ''?'' \<notin> set rest" "unat p = length don"
  shows "replace_mark (don @ rest) v p = (don @ rest, p)"
  using assms by (simp add: replace_mark_def str_find_from_def find_no_mark)

lemma fill_marks_pre:
  "CHR ''?'' \<notin> set pre \<Longrightarrow>
     fill_marks (pre @ rest) vs = pre @ fill_marks rest vs"
  by (induction pre arbitrary: vs) (auto, metis append_Cons fill_marks.simps(1,3) neq_Nil_conv)

lemma fill_marks_none: "CHR ''?'' \<notin> set t \<Longrightarrow> fill_marks t vs = t"
  using fill_marks_pre [of t "[]" vs] by (cases vs) auto

lemma ReplaceMark_fold:
  assumes "unat p = length don" "length don + length (fill_marks t vs) < 2 ^ 32"
  shows "fst (foldl (\<lambda>(s, q) v. ReplaceMark s v q) (don @ t, p) vs) = don @ fill_marks t vs"
  using assms
proof (induction vs arbitrary: t don p)
  case (Cons v vs)
  let ?v = "CHR 0x27 # v @ [CHR 0x27]"
  show ?case
  proof (cases "CHR ''?'' \<in> set t")
    case False
    have "foldl (\<lambda>(s, q) v. ReplaceMark s v q) (don @ t, p) ws = (don @ t, p)" for ws
      by (induction ws) (simp_all add: ReplaceMark_def replace_mark_miss [OF False Cons.prems(1)])
    then have "foldl (\<lambda>(s, q) v. ReplaceMark s v q) (don @ t, p) (v # vs) = (don @ t, p)" .
    then show ?thesis unfolding fill_marks_none [OF False] by simp
  next
    case True
    then obtain pre rest where t: "t = pre @ CHR ''?'' # rest" "CHR ''?'' \<notin> set pre"
      using split_list_first by fastforce
    let ?d = "don @ pre @ ?v"
    have fill: "fill_marks t (v # vs) = pre @ ?v @ fill_marks rest vs"
      using t by (simp add: fill_marks_pre)
    have step: "ReplaceMark (don @ t) v p = (?d @ rest, word_of_nat (length ?d))"
      using replace_mark_hit [OF t(2) Cons.prems(1), of rest ?v] t(1)
      by (simp add: ReplaceMark_def)
    have u: "unat (word_of_nat (length ?d) :: u32) = length ?d"
      using Cons.prems(2) fill by (intro unat_word_of_nat) simp
    have "fst (foldl (\<lambda>(s, q) v. ReplaceMark s v q) (?d @ rest, word_of_nat (length ?d)) vs)
        = ?d @ fill_marks rest vs"
      using Cons.prems(2) fill by (intro Cons.IH [OF u]) simp
    with step fill show ?thesis by simp
  qed
qed simp

lemma hex_roundtrip:
  "push_bit 4 (FromHex (ToHex (drop_bit 4 b))) OR FromHex (ToHex (b mod 16)) = b"
  by (rule byte_cases_all [of "\<lambda>b. push_bit 4 (FromHex (ToHex (drop_bit 4 b)))
        OR FromHex (ToHex (b mod 16)) = b"]) code_simp

lemma isalnum_plain: "isalnum b \<Longrightarrow> b \<noteq> 0x25 \<and> b \<noteq> 0x2B"
  by (auto simp: isalnum_def)

lemma URLDecode_unit:
  "URLDecode (url_unit b @ rest) = and_then (URLDecode rest) (\<lambda>out. Inr (b # out))"
  using isalnum_plain [of b] hex_roundtrip [of b] by (simp add: url_unit_def)

lemma find_rev_max:
  "find P (rev [0..<n]) = Some i \<longleftrightarrow> i < n \<and> P i \<and> (\<forall>j<n. P j \<longrightarrow> j \<le> i)"
proof (induction n)
  case (Suc n)
  then show ?case by (auto simp: less_Suc_eq le_less dest: le_antisym)
qed simp

lemma find_none_range: "find P [0..<n] = None \<longleftrightarrow> (\<forall>j<n. \<not> P j)"
  by (auto simp: find_None_iff)

section \<open>Properties\<close>

text \<open>
  Splitting a string that joins non-empty pieces with the separator gives
  back those pieces and their number, with no entry of the array left unassigned.
\<close>

theorem CStrExplode_join:
  assumes "ps \<noteq> []" "list_all (\<lambda>p. p \<noteq> [] \<and> sep \<notin> set p) ps"
  shows "CStrExplode (join_with sep ps) sep = (length ps, map Some ps)"
  using explode_loop_join [OF assms(2), of "[]"] count_join [OF assms(2,1)]
  by (simp add: CStrExplode_def Let_def)

theorem CStrExplode_join_witness:
  "CStrExplode (join_with CHR '';'' [''ab'', ''c'']) CHR '';'' = (2, [Some ''ab'', Some ''c''])"
  using CStrExplode_join [of "[''ab'', ''c'']" "CHR '';''"] by simp

text \<open>
  A separator at the start of an item is kept in the item, and the count is
  then larger than the number of items: the entry that remains is never assigned,
  and \<^verbatim>\<open>GetItem\<close> and the destructor read it.
\<close>

theorem CStrExplode_unassigned:
  "CStrExplode ''a;;b'' CHR '';'' = (3, [Some ''a'', Some '';b'', None])
   \<and> GetItem (CStrExplode ''a;;b'' CHR '';'') 2 = Inl OutOfBounds"
  by code_simp

text \<open>
  Filling the marks of an SQL template one after the other with
  \<^verbatim>\<open>ReplaceMark\<close> gives the template with each mark replaced by its own value in
  quotes, also when a value itself contains question marks, as long as the result
  stays below the range of the \<^verbatim>\<open>uint32_t\<close> position.
\<close>

theorem ReplaceMark_fills:
  assumes "length (fill_marks t vs) < 2 ^ 32"
  shows "fst (foldl (\<lambda>(s, q) v. ReplaceMark s v q) (t, 0) vs) = fill_marks t vs"
  using ReplaceMark_fold [of 0 "[]" t vs] assms by simp

theorem ReplaceMark_fills_witness:
  "fst (foldl (\<lambda>(s, q) v. ReplaceMark s v q) (''a=? b=?'', 0) [''x?y'', ''z''])
     = fill_marks ''a=? b=?'' [''x?y'', ''z'']"
  by (rule ReplaceMark_fills) simp

text \<open>
  Decoding inverts URL encoding on every byte string, and the encoded text
  never leads the decoder past the end of its input.
\<close>

theorem URLDecode_URLEncode:
  "URLDecode (URLEncode s) = Inr s"
  unfolding URLEncode_def by (induction s) (simp_all add: URLDecode_unit)

text \<open>
  \<^verbatim>\<open>String2Int\<close> inverts \<^verbatim>\<open>Int2String\<close> on the numbers an \<^verbatim>\<open>int\<close> holds; above
  them the conversion is undefined.
\<close>

theorem String2Int_Int2String:
  "String2Int (Int2String n) = (if unat n < 2 ^ 31 then Inr n else Inl Overflow)"
proof -
  have "- (2 ^ 31) \<le> int k \<and> int k < 2 ^ 31 \<longleftrightarrow> k < 2 ^ 31" for k by auto
  from this [of "unat n"]
  have range: "- (2 ^ 31) \<le> uint n \<and> uint n < 2 ^ 31 \<longleftrightarrow> unat n < 2 ^ 31" by simp
  have tw: "takeWhile (\<lambda>c. c \<noteq> CHR 0x00) (dec (unat n)) = dec (unat n)"
    using dec_no_char [of "CHR 0x00"] by (auto simp: takeWhile_eq_all_conv is_digit_def)
  show ?thesis
    using range by (simp add: tw String2Int_def Int2String_def atoi_def int_range_def)
qed

text \<open>
  The backward search finds the last occurrence of a shorter pattern and
  reports none only when there is none; the forward search stops one position
  early, so that a pattern that only ends the block is not found.
\<close>

theorem MemFind_search:
  assumes "0 < length sub" "length sub < length src"
  shows "(MemFind (Some src) (Some sub) (length sub) False = Inr (Some i) \<longleftrightarrow>
           i \<le> length src - length sub \<and> mem_at src sub i
           \<and> (\<forall>j \<le> length src - length sub. mem_at src sub j \<longrightarrow> j \<le> i))
    \<and> (MemFind (Some src) (Some sub) (length sub) True = Inr None \<longleftrightarrow>
           (\<forall>j < length src - length sub. \<not> mem_at src sub j))"
proof -
  have ne: "src \<noteq> []" "length src \<noteq> length sub" "\<not> length src < length sub" using assms by auto
  show ?thesis
    using assms ne by (simp add: MemFind_def Let_def find_rev_max find_none_range less_Suc_eq_le
        del: upt_Suc)
qed

theorem MemFind_search_witness:
  "MemFind (Some [1, 2, 3]) (Some [2, 3]) 2 False = Inr (Some 1)
   \<and> MemFind (Some [1, 2, 3]) (Some [2, 3]) 2 True = Inr None"
  using MemFind_search [of "[2, 3]" "[1, 2, 3]" 1] unfolding numeral_2_eq_2
  by (simp add: mem_at_def le_Suc_eq less_Suc_eq)

end
