(* ===== verification/ConnPool.thy ===== *)
theory ConnPool
  imports ConfigFile Util
begin

text \<open>
  The two connection pools of the logic server, \<^verbatim>\<open>logic/mysql/db_pool.cc\<close>
  (\<^verbatim>\<open>CDBPool\<close>, \<^verbatim>\<open>CDBManager\<close>) and \<^verbatim>\<open>logic/redis/cache_pool.cc\<close> (\<^verbatim>\<open>CachePool\<close>,
  \<^verbatim>\<open>CacheManager\<close>). A connection object is its address, a number; \<open>next_conn\<close> is the
  address of the next object that is allocated. A call that has to wait on the
  condition variable is split where it waits: \<open>enter\<close> runs up to the wait,
  \<open>wake\<close> runs from the return of the wait. Threads that take and give back
  connections interleave these steps; a locale proves once that a connection is
  never handed to two threads and that the pool never exceeds its limit, and both
  pools are instances.
\<close>

section \<open>\<^verbatim>\<open>CDBPool\<close>\<close>

text \<open>How a call continues: with a connection, with \<^verbatim>\<open>NULL\<close>, or waiting.\<close>

datatype acquired = Got nat | NoConn | MustWait

definition MIN_DB_CONN_CNT :: nat where "MIN_DB_CONN_CNT = 1"

record CDBPool =
  pool_name :: string
  db_server_ip :: string
  db_server_port :: u16
  username :: string
  password :: string
  db_name :: string
  db_cur_conn_cnt :: int
  db_max_conn_cnt :: int
  free_list :: "nat list"
  abort_request :: bool
  next_conn :: nat

definition newCDBPool ::
    "string \<Rightarrow> string \<Rightarrow> u16 \<Rightarrow> string \<Rightarrow> string \<Rightarrow> string \<Rightarrow> int \<Rightarrow> nat \<Rightarrow> CDBPool" where
  "newCDBPool name ip port user passw db max_conn_cnt nxt =
     \<lparr>pool_name = name, db_server_ip = ip, db_server_port = port, username = user,
      password = passw, db_name = db, db_cur_conn_cnt = int MIN_DB_CONN_CNT,
      db_max_conn_cnt = max_conn_cnt, free_list = [], abort_request = False, next_conn = nxt\<rparr>"

text \<open>
  The loop of \<^verbatim>\<open>CDBPool::Init\<close>; \<open>init c\<close> is the result of \<^verbatim>\<open>CDBConn::Init\<close> on the
  new connection \<open>c\<close>.
\<close>

fun CDBPool_init_loop :: "(nat \<Rightarrow> int) \<Rightarrow> nat \<Rightarrow> CDBPool \<Rightarrow> int \<times> CDBPool" where
  "CDBPool_init_loop init 0 p = (0, p)"
| "CDBPool_init_loop init (Suc n) p =
     (let c = next_conn p; ret = init c; p1 = p\<lparr>next_conn := Suc c\<rparr> in
      if ret \<noteq> 0 then (ret, p1)
      else CDBPool_init_loop init n (p1\<lparr>free_list := free_list p1 @ [c]\<rparr>))"

definition CDBPool_Init :: "(nat \<Rightarrow> int) \<Rightarrow> CDBPool \<Rightarrow> int \<times> CDBPool" where
  "CDBPool_Init init p = CDBPool_init_loop init (nat (db_cur_conn_cnt p)) p"

definition CDBPool_take :: "CDBPool \<Rightarrow> acquired \<times> CDBPool" where
  "CDBPool_take p = (Got (hd (free_list p)), p\<lparr>free_list := tl (free_list p)\<rparr>)"

text \<open>\<^verbatim>\<open>GetDBConn\<close> up to the wait; \<open>init\<close> as above.\<close>

definition GetDBConn_enter :: "(nat \<Rightarrow> int) \<Rightarrow> CDBPool \<Rightarrow> acquired \<times> CDBPool" where
  "GetDBConn_enter init p =
     (if abort_request p then (NoConn, p)
      else if free_list p = [] then
        (if db_max_conn_cnt p \<le> db_cur_conn_cnt p then (MustWait, p)
         else
           let c = next_conn p; p1 = p\<lparr>next_conn := Suc c\<rparr> in
           if init c \<noteq> 0 then (NoConn, p1)
           else CDBPool_take (p1\<lparr>free_list := free_list p1 @ [c],
                                 db_cur_conn_cnt := db_cur_conn_cnt p1 + 1\<rparr>))
      else CDBPool_take p)"

text \<open>
  The wait ends when its condition holds, or, for a positive timeout, in any
  state. \<open>None\<close>: it does not end in this state.
\<close>

definition GetDBConn_wake :: "int \<Rightarrow> bool \<Rightarrow> CDBPool \<Rightarrow> (acquired \<times> CDBPool) option" where
  "GetDBConn_wake timeout_ms expired p =
     (if free_list p \<noteq> [] \<or> abort_request p \<or> 0 < timeout_ms \<and> expired then
        Some (if 0 < timeout_ms \<and> free_list p = [] then (NoConn, p)
              else if abort_request p then (NoConn, p)
              else CDBPool_take p)
      else None)"

definition RelDBConn :: "nat \<Rightarrow> CDBPool \<Rightarrow> CDBPool" where
  "RelDBConn c p =
     (if c \<in> set (free_list p) then p else p\<lparr>free_list := free_list p @ [c]\<rparr>)"

definition CDBPool_destroy :: "CDBPool \<Rightarrow> CDBPool" where
  "CDBPool_destroy p = p\<lparr>abort_request := True, free_list := []\<rparr>"

section \<open>\<^verbatim>\<open>CachePool\<close>\<close>

definition MIN_CACHE_CONN_CNT :: nat where "MIN_CACHE_CONN_CNT = 2"

record CachePool =
  cpool_name :: string
  server_ip :: string
  server_port :: int
  db_index :: int
  cpassword :: string
  cur_conn_cnt :: int
  max_conn_cnt :: int
  cfree_list :: "nat list"
  cabort_request :: bool
  cnext_conn :: nat

definition newCachePool ::
    "string \<Rightarrow> string \<Rightarrow> int \<Rightarrow> int \<Rightarrow> string \<Rightarrow> int \<Rightarrow> nat \<Rightarrow> CachePool" where
  "newCachePool name ip port idx passw maxcnt nxt =
     \<lparr>cpool_name = name, server_ip = ip, server_port = port, db_index = idx,
      cpassword = passw, cur_conn_cnt = int MIN_CACHE_CONN_CNT, max_conn_cnt = maxcnt,
      cfree_list = [], cabort_request = False, cnext_conn = nxt\<rparr>"

fun CachePool_init_loop :: "(nat \<Rightarrow> int) \<Rightarrow> nat \<Rightarrow> CachePool \<Rightarrow> int \<times> CachePool" where
  "CachePool_init_loop init 0 p = (0, p)"
| "CachePool_init_loop init (Suc n) p =
     (let c = cnext_conn p; p1 = p\<lparr>cnext_conn := Suc c\<rparr> in
      if init c \<noteq> 0 then (1, p1)
      else CachePool_init_loop init n (p1\<lparr>cfree_list := cfree_list p1 @ [c]\<rparr>))"

definition CachePool_Init :: "(nat \<Rightarrow> int) \<Rightarrow> CachePool \<Rightarrow> int \<times> CachePool" where
  "CachePool_Init init p = CachePool_init_loop init (nat (cur_conn_cnt p)) p"

definition CachePool_take :: "CachePool \<Rightarrow> acquired \<times> CachePool" where
  "CachePool_take p = (Got (hd (cfree_list p)), p\<lparr>cfree_list := tl (cfree_list p)\<rparr>)"

definition GetCacheConn_enter :: "(nat \<Rightarrow> int) \<Rightarrow> CachePool \<Rightarrow> acquired \<times> CachePool" where
  "GetCacheConn_enter init p =
     (if cabort_request p then (NoConn, p)
      else if cfree_list p = [] then
        (if max_conn_cnt p \<le> cur_conn_cnt p then (MustWait, p)
         else
           let c = cnext_conn p; p1 = p\<lparr>cnext_conn := Suc c\<rparr> in
           if init c \<noteq> 0 then (NoConn, p1)
           else CachePool_take (p1\<lparr>cfree_list := cfree_list p1 @ [c],
                                   cur_conn_cnt := cur_conn_cnt p1 + 1\<rparr>))
      else CachePool_take p)"

definition GetCacheConn_wake :: "int \<Rightarrow> bool \<Rightarrow> CachePool \<Rightarrow> (acquired \<times> CachePool) option" where
  "GetCacheConn_wake timeout_ms expired p =
     (if cfree_list p \<noteq> [] \<or> cabort_request p \<or> 0 < timeout_ms \<and> expired then
        Some (if 0 < timeout_ms \<and> cfree_list p = [] then (NoConn, p)
              else if cabort_request p then (NoConn, p)
              else CachePool_take p)
      else None)"

definition RelCacheConn :: "nat \<Rightarrow> CachePool \<Rightarrow> CachePool" where
  "RelCacheConn c p =
     (if c \<in> set (cfree_list p) then p else p\<lparr>cfree_list := cfree_list p @ [c]\<rparr>)"

definition CachePool_destroy :: "CachePool \<Rightarrow> CachePool" where
  "CachePool_destroy p = p\<lparr>cabort_request := True, cfree_list := [], cur_conn_cnt := 0\<rparr>"

section \<open>The managers\<close>

text \<open>
  \<^verbatim>\<open>CDBManager::Init\<close>: one pool per name in \<^verbatim>\<open>DBInstances\<close>. \<open>cfg\<close> is
  \<^verbatim>\<open>GetConfigName\<close> of the loaded file. A missing host, port, name, user or password
  is streamed to the log as a null \<^verbatim>\<open>char*\<close> before it is tested; muduo's
  \<^verbatim>\<open>LogStream\<close> prints such a pointer as \<^verbatim>\<open>(null)\<close>, so the test is still reached.
\<close>

definition conf_key :: "string \<Rightarrow> string \<Rightarrow> string" where
  "conf_key pool suffix = take 63 (pool @ suffix)"

definition CDBManager_Init_one ::
    "(string \<Rightarrow> string option) \<Rightarrow> (string \<Rightarrow> nat \<Rightarrow> int) \<Rightarrow> string \<Rightarrow> nat \<Rightarrow> (int + CDBPool) res" where
  "CDBManager_Init_one cfg init pool nxt =
     (case (cfg (conf_key pool ''_host''), cfg (conf_key pool ''_port''),
            cfg (conf_key pool ''_dbname''), cfg (conf_key pool ''_username''),
            cfg (conf_key pool ''_password''), cfg (conf_key pool ''_maxconncnt'')) of
        (Some host, Some port, Some db, Some user, Some passw, Some maxc) \<Rightarrow>
          and_then (atoi port) (\<lambda>db_port. and_then (atoi maxc) (\<lambda>db_maxconncnt.
            let (ret, p) = CDBPool_Init (init pool)
                  (newCDBPool pool host (word_of_int db_port) user passw db db_maxconncnt nxt)
            in Inr (if ret \<noteq> 0 then Inl 3 else Inr p)))
      | _ \<Rightarrow> Inr (Inl 2))"

fun CDBManager_loop ::
    "(string \<Rightarrow> string option) \<Rightarrow> (string \<Rightarrow> nat \<Rightarrow> int) \<Rightarrow> string option list
       \<Rightarrow> (string \<times> CDBPool) list \<Rightarrow> nat \<Rightarrow> (int \<times> (string \<times> CDBPool) list) res" where
  "CDBManager_loop cfg init [] m nxt = Inr (0, m)"
| "CDBManager_loop cfg init (None # names) m nxt = Inl OutOfBounds"
| "CDBManager_loop cfg init (Some pool # names) m nxt =
     and_then (CDBManager_Init_one cfg init pool nxt) (\<lambda>r.
       case r of
         Inl e \<Rightarrow> Inr (e, m)
       | Inr p \<Rightarrow> CDBManager_loop cfg init names
                    (if map_of m pool \<noteq> None then m else m @ [(pool, p)]) (next_conn p))"

definition CDBManager_Init ::
    "(string \<Rightarrow> string option) \<Rightarrow> (string \<Rightarrow> nat \<Rightarrow> int) \<Rightarrow> (int \<times> (string \<times> CDBPool) list) res" where
  "CDBManager_Init cfg init =
     (case cfg ''DBInstances'' of
        None \<Rightarrow> Inr (1, [])
      | Some db_instances \<Rightarrow>
          CDBManager_loop cfg init (snd (CStrExplode db_instances CHR '','')) [] 0)"

definition CacheManager_Init_one ::
    "(string \<Rightarrow> string option) \<Rightarrow> (string \<Rightarrow> nat \<Rightarrow> int) \<Rightarrow> string \<Rightarrow> nat \<Rightarrow> (int + CachePool) res" where
  "CacheManager_Init_one cfg init pool nxt =
     (case (cfg (conf_key pool ''_host''), cfg (conf_key pool ''_port''),
            cfg (conf_key pool ''_db''), cfg (conf_key pool ''_maxconncnt'')) of
        (Some host, Some port, Some db, Some maxc) \<Rightarrow>
          and_then (atoi port) (\<lambda>port'. and_then (atoi db) (\<lambda>db'. and_then (atoi maxc) (\<lambda>maxc'.
            let (ret, p) = CachePool_Init (init pool) (newCachePool pool host port' db' [] maxc' nxt)
            in Inr (if ret \<noteq> 0 then Inl 3 else Inr p))))
      | _ \<Rightarrow> Inr (Inl 2))"

fun CacheManager_loop ::
    "(string \<Rightarrow> string option) \<Rightarrow> (string \<Rightarrow> nat \<Rightarrow> int) \<Rightarrow> string option list
       \<Rightarrow> (string \<times> CachePool) list \<Rightarrow> nat \<Rightarrow> (int \<times> (string \<times> CachePool) list) res" where
  "CacheManager_loop cfg init [] m nxt = Inr (0, m)"
| "CacheManager_loop cfg init (None # names) m nxt = Inl OutOfBounds"
| "CacheManager_loop cfg init (Some pool # names) m nxt =
     and_then (CacheManager_Init_one cfg init pool nxt) (\<lambda>r.
       case r of
         Inl e \<Rightarrow> Inr (e, m)
       | Inr p \<Rightarrow> CacheManager_loop cfg init names
                    (if map_of m pool \<noteq> None then m else m @ [(pool, p)]) (cnext_conn p))"

definition CacheManager_Init ::
    "(string \<Rightarrow> string option) \<Rightarrow> (string \<Rightarrow> nat \<Rightarrow> int) \<Rightarrow> (int \<times> (string \<times> CachePool) list) res" where
  "CacheManager_Init cfg init =
     (case cfg ''CacheInstances'' of
        None \<Rightarrow> Inr (1, [])
      | Some cache_instances \<Rightarrow>
          CacheManager_loop cfg init (snd (CStrExplode cache_instances CHR '','')) [] 0)"

text \<open>
  \<^verbatim>\<open>GetDBConn\<close> and \<^verbatim>\<open>RelDBConn\<close> of the managers: find the pool by name and pass the
  call on (up to the wait, with timeout 0); a null connection is ignored.
\<close>

definition CDBManager_GetDBConn ::
    "(nat \<Rightarrow> int) \<Rightarrow> string \<Rightarrow> (string \<times> CDBPool) list \<Rightarrow> acquired \<times> (string \<times> CDBPool) list" where
  "CDBManager_GetDBConn init name m =
     (case map_of m name of
        None \<Rightarrow> (NoConn, m)
      | Some p \<Rightarrow> let (r, p') = GetDBConn_enter init p in (r, AList.update name p' m))"

definition CDBManager_RelDBConn ::
    "(string \<times> nat) option \<Rightarrow> (string \<times> CDBPool) list \<Rightarrow> (string \<times> CDBPool) list" where
  "CDBManager_RelDBConn conn m =
     (case conn of
        None \<Rightarrow> m
      | Some (pool, c) \<Rightarrow>
          (case map_of m pool of None \<Rightarrow> m | Some p \<Rightarrow> AList.update pool (RelDBConn c p) m))"

definition CacheManager_GetCacheConn ::
    "(nat \<Rightarrow> int) \<Rightarrow> string \<Rightarrow> (string \<times> CachePool) list \<Rightarrow> acquired \<times> (string \<times> CachePool) list" where
  "CacheManager_GetCacheConn init name m =
     (case map_of m name of
        None \<Rightarrow> (NoConn, m)
      | Some p \<Rightarrow> let (r, p') = GetCacheConn_enter init p in (r, AList.update name p' m))"

definition CacheManager_RelCacheConn ::
    "(string \<times> nat) option \<Rightarrow> (string \<times> CachePool) list \<Rightarrow> (string \<times> CachePool) list" where
  "CacheManager_RelCacheConn conn m =
     (case conn of
        None \<Rightarrow> m
      | Some (pool, c) \<Rightarrow>
          (case map_of m pool of None \<Rightarrow> m | Some p \<Rightarrow> AList.update pool (RelCacheConn c p) m))"

section \<open>Threads that share a pool\<close>

datatype tstate = Idle | Waits int | Holds nat

definition holders :: "(nat \<Rightarrow> tstate) \<Rightarrow> nat set" where
  "holders T = {i. \<exists>c. T i = Holds c}"

lemma holders_upd [simp]:
  "holders (T(i := Holds c)) = insert i (holders T)"
  "holders (T(i := Idle)) = holders T - {i}"
  "holders (T(i := Waits t)) = holders T - {i}"
  by (auto simp: holders_def)

text \<open>
  The interface of a pool, over what a thread can observe of it: the free
  connections, the number of open ones, the limit and the next address.
\<close>

locale conn_pool =
  fixes frees :: "'p \<Rightarrow> nat list" and cur :: "'p \<Rightarrow> int" and lim :: "'p \<Rightarrow> int"
    and nxt :: "'p \<Rightarrow> nat" and stopped :: "'p \<Rightarrow> bool" and least :: nat
    and enter :: "(nat \<Rightarrow> int) \<Rightarrow> 'p \<Rightarrow> acquired \<times> 'p"
    and wake :: "int \<Rightarrow> bool \<Rightarrow> 'p \<Rightarrow> (acquired \<times> 'p) option"
    and rel :: "nat \<Rightarrow> 'p \<Rightarrow> 'p"
  assumes enter_free: "\<not> stopped p \<Longrightarrow> frees p \<noteq> [] \<Longrightarrow> enter init p = (r, p') \<Longrightarrow>
      r = Got (hd (frees p)) \<and> frees p' = tl (frees p) \<and> cur p' = cur p \<and> nxt p' = nxt p
      \<and> lim p' = lim p \<and> \<not> stopped p'"
    and enter_new: "\<not> stopped p \<Longrightarrow> frees p = [] \<Longrightarrow> cur p < lim p \<Longrightarrow> enter init p = (r, p') \<Longrightarrow>
      frees p' = [] \<and> nxt p' = Suc (nxt p) \<and> lim p' = lim p \<and> \<not> stopped p'
      \<and> (if init (nxt p) = 0 then r = Got (nxt p) \<and> cur p' = cur p + 1
         else r = NoConn \<and> cur p' = cur p)"
    and enter_full: "\<not> stopped p \<Longrightarrow> frees p = [] \<Longrightarrow> lim p \<le> cur p \<Longrightarrow> enter init p = (MustWait, p)"
    and wake_free: "\<not> stopped p \<Longrightarrow> frees p \<noteq> [] \<Longrightarrow> \<exists>p'. wake t e p = Some (Got (hd (frees p)), p')
      \<and> frees p' = tl (frees p) \<and> cur p' = cur p \<and> nxt p' = nxt p \<and> lim p' = lim p \<and> \<not> stopped p'"
    and wake_empty: "\<not> stopped p \<Longrightarrow> frees p = [] \<Longrightarrow>
      wake t e p = (if 0 < t \<and> e then Some (NoConn, p) else None)"
    and rel_law: "frees (rel c p) = (if c \<in> set (frees p) then frees p else frees p @ [c])
      \<and> cur (rel c p) = cur p \<and> lim (rel c p) = lim p \<and> nxt (rel c p) = nxt p
      \<and> stopped (rel c p) = stopped p"
begin

inductive pstep :: "'p \<times> (nat \<Rightarrow> tstate) \<Rightarrow> 'p \<times> (nat \<Rightarrow> tstate) \<Rightarrow> bool" where
  acquire: "T i = Idle \<Longrightarrow> enter init p = (Got c, p') \<Longrightarrow> pstep (p, T) (p', T(i := Holds c))"
| refuse: "T i = Idle \<Longrightarrow> enter init p = (NoConn, p') \<Longrightarrow> pstep (p, T) (p', T)"
| sleep: "T i = Idle \<Longrightarrow> enter init p = (MustWait, p') \<Longrightarrow> pstep (p, T) (p', T(i := Waits t))"
| awake: "T i = Waits t \<Longrightarrow> wake t e p = Some (Got c, p') \<Longrightarrow> pstep (p, T) (p', T(i := Holds c))"
| expire: "T i = Waits t \<Longrightarrow> wake t e p = Some (NoConn, p') \<Longrightarrow> pstep (p, T) (p', T(i := Idle))"
| release: "T i = Holds c \<Longrightarrow> pstep (p, T) (rel c p, T(i := Idle))"

definition fresh_pool :: "'p \<Rightarrow> bool" where
  "fresh_pool p \<longleftrightarrow> distinct (frees p) \<and> (\<forall>c\<in>set (frees p). c < nxt p) \<and> \<not> stopped p
     \<and> cur p = int (length (frees p)) \<and> cur p = int least"

inductive reachable :: "'p \<times> (nat \<Rightarrow> tstate) \<Rightarrow> bool" where
  init: "fresh_pool p \<Longrightarrow> reachable (p, \<lambda>i. Idle)"
| step: "reachable s \<Longrightarrow> pstep s s' \<Longrightarrow> reachable s'"

definition pool_ok :: "'p \<times> (nat \<Rightarrow> tstate) \<Rightarrow> bool" where
  "pool_ok s = (case s of (p, T) \<Rightarrow>
     \<not> stopped p \<and> distinct (frees p) \<and> (\<forall>c\<in>set (frees p). c < nxt p)
     \<and> (\<forall>i c. T i = Holds c \<longrightarrow> c \<notin> set (frees p) \<and> c < nxt p)
     \<and> (\<forall>i j c. T i = Holds c \<longrightarrow> T j = Holds c \<longrightarrow> i = j)
     \<and> finite (holders T) \<and> cur p = int (length (frees p) + card (holders T))
     \<and> cur p \<le> max (int least) (lim p)
     \<and> (\<forall>i t. T i = Waits t \<longrightarrow> lim p \<le> cur p))"

lemma take_free_ok:
  assumes ok: "pool_ok (p, T)" and i: "\<And>c. T i \<noteq> Holds c" and ne: "frees p \<noteq> []"
    and p': "frees p' = tl (frees p)" "cur p' = cur p" "nxt p' = nxt p" "lim p' = lim p" "\<not> stopped p'"
  shows "pool_ok (p', T(i := Holds (hd (frees p))))"
proof -
  obtain c cs where f: "frees p = c # cs" using ne by (cases "frees p") auto
  have "i \<notin> holders T" using i by (simp add: holders_def)
  then show ?thesis using ok f p' by (auto simp: pool_ok_def)
qed

lemma enter_ok:
  assumes ok: "pool_ok (p, T)" and i: "T i = Idle" and e: "enter init p = (r, p')"
  shows "case r of Got c \<Rightarrow> pool_ok (p', T(i := Holds c)) | NoConn \<Rightarrow> pool_ok (p', T)
         | MustWait \<Rightarrow> pool_ok (p', T(i := Waits t))"
proof (cases "frees p = []")
  case False
  have "\<not> stopped p" using ok by (simp add: pool_ok_def)
  from enter_free [OF this False e] take_free_ok [OF ok _ False, of i p'] i
  show ?thesis by simp
next
  case True
  have st: "\<not> stopped p" using ok by (simp add: pool_ok_def)
  have ih: "i \<notin> holders T" using i by (simp add: holders_def)
  show ?thesis
  proof (cases "cur p < lim p")
    case True': True
    have "cur p + 1 \<le> max (int least) (lim p)" using True' by auto
    with enter_new [OF st True True' e] ok i ih True show ?thesis
      by (auto simp: pool_ok_def less_Suc_eq split: acquired.split if_splits)
  next
    case False
    with enter_full [OF st True, of init] e ok ih i show ?thesis
      by (auto simp: pool_ok_def)
  qed
qed

lemma wake_ok:
  assumes ok: "pool_ok (p, T)" and i: "T i = Waits t" and w: "wake t e p = Some (r, p')"
  shows "case r of Got c \<Rightarrow> pool_ok (p', T(i := Holds c)) | _ \<Rightarrow> r = NoConn \<and> pool_ok (p', T(i := Idle))"
proof (cases "frees p = []")
  case False
  have st: "\<not> stopped p" using ok by (simp add: pool_ok_def)
  from wake_free [OF st False, of t e] take_free_ok [OF ok _ False, of i p'] i w
  show ?thesis by auto
next
  case True
  have st: "\<not> stopped p" and ih: "i \<notin> holders T" using ok i by (simp_all add: pool_ok_def holders_def)
  from wake_empty [OF st True, of t e] w have "r = NoConn" "p' = p" by (auto split: if_splits)
  with ok ih show ?thesis by (auto simp: pool_ok_def)
qed

lemma rel_ok:
  assumes ok: "pool_ok (p, T)" and i: "T i = Holds c"
  shows "pool_ok (rel c p, T(i := Idle))"
proof -
  have c: "c \<notin> set (frees p)" "c < nxt p" and fin: "finite (holders T)" and ih: "i \<in> holders T"
    using ok i by (auto simp: pool_ok_def holders_def)
  from fin ih have "card (holders T) = Suc (card (holders T - {i}))"
    by (metis card.remove)
  with ok c i rel_law [of c p] show ?thesis by (auto simp: pool_ok_def)
qed

lemma step_ok: "pstep s s' \<Longrightarrow> pool_ok s \<Longrightarrow> pool_ok s'"
proof (induction rule: pstep.induct)
  case (acquire T i init p c p')
  from enter_ok [OF acquire(3,1,2)] show ?case by simp
next
  case (refuse T i init p p')
  from enter_ok [OF refuse(3,1,2)] show ?case by simp
next
  case (sleep T i init p p' t)
  from enter_ok [OF sleep(3,1,2), of t] show ?case by simp
next
  case (awake T i t e p c p')
  from wake_ok [OF awake(3,1,2)] show ?case by simp
next
  case (expire T i t e p p')
  from wake_ok [OF expire(3,1,2)] show ?case by simp
next
  case (release T i c p)
  from rel_ok [OF release(2,1)] show ?case .
qed

lemma reachable_ok: "reachable s \<Longrightarrow> pool_ok s"
proof (induction rule: reachable.induct)
  case (init p)
  then show ?case by (auto simp: pool_ok_def fresh_pool_def holders_def)
next
  case (step s s')
  then show ?case by (blast intro: step_ok)
qed

lemma exclusive:
  assumes "reachable (p, T)"
  shows "(\<forall>i j c. T i = Holds c \<longrightarrow> T j = Holds c \<longrightarrow> i = j)
    \<and> (\<forall>i c. T i = Holds c \<longrightarrow> c \<notin> set (frees p)) \<and> distinct (frees p)
    \<and> int (length (frees p) + card (holders T)) \<le> max (int least) (lim p)"
  using reachable_ok [OF assms] by (auto simp: pool_ok_def)

text \<open>A waiting thread is stuck only while the limit of connections is in use.\<close>

lemma waiting:
  assumes "reachable (p, T)" "T i = Waits t"
  shows "(\<exists>c p'. wake t e p = Some (Got c, p')) \<or> lim p \<le> int (card (holders T))"
proof (cases "frees p = []")
  case True
  then show ?thesis using reachable_ok [OF assms(1)] assms(2) by (auto simp: pool_ok_def)
next
  case False
  then show ?thesis
    using reachable_ok [OF assms(1)] wake_free [of p t e] by (auto simp: pool_ok_def)
qed

lemma released_wakes:
  assumes "reachable (p, T)" "T j = Holds c"
  shows "\<exists>c' p'. wake t e (rel c p) = Some (Got c', p')"
proof -
  have "pool_ok (rel c p, T(j := Idle))" using rel_ok [OF reachable_ok [OF assms(1)] assms(2)] .
  then have "\<not> stopped (rel c p)" by (simp add: pool_ok_def)
  moreover have "frees (rel c p) \<noteq> []" using rel_law [of c p] by (auto split: if_splits)
  ultimately show ?thesis using wake_free by blast
qed

end

section \<open>Both pools are instances\<close>

lemmas dbpool_defs = GetDBConn_enter_def GetDBConn_wake_def RelDBConn_def CDBPool_take_def
lemmas cachepool_defs = GetCacheConn_enter_def GetCacheConn_wake_def RelCacheConn_def
  CachePool_take_def

interpretation db: conn_pool free_list db_cur_conn_cnt db_max_conn_cnt next_conn abort_request
  MIN_DB_CONN_CNT GetDBConn_enter GetDBConn_wake RelDBConn
  by unfold_locales (auto simp: dbpool_defs Let_def split: if_splits)

interpretation ca: conn_pool cfree_list cur_conn_cnt max_conn_cnt cnext_conn cabort_request
  MIN_CACHE_CONN_CNT GetCacheConn_enter GetCacheConn_wake RelCacheConn
  by unfold_locales (auto simp: cachepool_defs Let_def split: if_splits)

lemma CDBPool_init_loop_ok:
  "CDBPool_init_loop init n p = (0, p') \<Longrightarrow>
     free_list p' = free_list p @ [next_conn p ..< next_conn p + n] \<and> next_conn p' = next_conn p + n
     \<and> abort_request p' = abort_request p \<and> db_cur_conn_cnt p' = db_cur_conn_cnt p
     \<and> db_max_conn_cnt p' = db_max_conn_cnt p"
proof (induction init n p rule: CDBPool_init_loop.induct)
  case (2 init n p)
  then show ?case by (auto simp: Let_def upt_conv_Cons split: if_splits simp del: upt_Suc)
qed simp

lemma CachePool_init_loop_ok:
  "CachePool_init_loop init n p = (0, p') \<Longrightarrow>
     cfree_list p' = cfree_list p @ [cnext_conn p ..< cnext_conn p + n]
     \<and> cnext_conn p' = cnext_conn p + n
     \<and> cabort_request p' = cabort_request p \<and> cur_conn_cnt p' = cur_conn_cnt p
     \<and> max_conn_cnt p' = max_conn_cnt p"
proof (induction init n p rule: CachePool_init_loop.induct)
  case (2 init n p)
  then show ?case by (auto simp: Let_def upt_conv_Cons split: if_splits simp del: upt_Suc)
qed simp

lemma CDBPool_Init_fresh:
  "CDBPool_Init init (newCDBPool name ip port u pw d maxc nxt) = (0, p) \<Longrightarrow> db.fresh_pool p"
  by (auto simp: CDBPool_Init_def newCDBPool_def db.fresh_pool_def dest: CDBPool_init_loop_ok)

lemma CachePool_Init_fresh:
  "CachePool_Init init (newCachePool name ip port d pw maxc nxt) = (0, p) \<Longrightarrow> ca.fresh_pool p"
  by (auto simp: CachePool_Init_def newCachePool_def ca.fresh_pool_def dest: CachePool_init_loop_ok)

lemma db_loop_keys:
  assumes "list_all (\<lambda>n. \<forall>nx. \<exists>p. CDBManager_Init_one cfg init n nx = Inr (Inr p)) ns"
  shows "\<exists>m'. CDBManager_loop cfg init (map Some ns) m nx = Inr (0, m')
           \<and> set (map fst m') = set (map fst m) \<union> set ns"
  using assms
proof (induction ns arbitrary: m nx)
  case (Cons n ns)
  from Cons.prems have "\<exists>p. CDBManager_Init_one cfg init n nx = Inr (Inr p)" by simp
  then obtain p where p: "CDBManager_Init_one cfg init n nx = Inr (Inr p)" ..
  let ?m = "if map_of m n \<noteq> None then m else m @ [(n, p)]"
  have "set (map fst ?m) = insert n (set (map fst m))"
    by (auto simp: map_of_eq_None_iff dest: map_of_SomeD intro: rev_image_eqI)
  moreover obtain m' where "CDBManager_loop cfg init (map Some ns) ?m (next_conn p) = Inr (0, m')"
    "set (map fst m') = set (map fst ?m) \<union> set ns"
    using Cons.IH [of ?m "next_conn p"] Cons.prems by auto
  ultimately show ?case using p by (intro exI [of _ m']) simp
qed simp

section \<open>Properties\<close>

text \<open>
  C18: however threads interleave taking, waiting for and giving back database
  connections, no connection is held by two threads, none is held while it is
  free, and the open connections never exceed the configured limit (or the one
  connection every pool starts with).
\<close>

theorem dbpool_exclusive:
  assumes "db.reachable (p, T)"
  shows "(\<forall>i j c. T i = Holds c \<longrightarrow> T j = Holds c \<longrightarrow> i = j)
    \<and> (\<forall>i c. T i = Holds c \<longrightarrow> c \<notin> set (free_list p)) \<and> distinct (free_list p)
    \<and> int (length (free_list p) + card (holders T)) \<le> max (int MIN_DB_CONN_CNT) (db_max_conn_cnt p)"
  using db.exclusive [OF assms] .

definition sample_dbpool :: CDBPool where
  "sample_dbpool =
     snd (CDBPool_Init (\<lambda>_. 0) (newCDBPool ''master'' ''h'' 3306 ''u'' ''p'' ''d'' 2 0))"

lemma sample_dbpool_reachable:
  "db.reachable (sample_dbpool\<lparr>free_list := []\<rparr>, (\<lambda>i. Idle)(7 := Holds 0))"
proof -
  have "CDBPool_Init (\<lambda>_. 0) (newCDBPool ''master'' ''h'' 3306 ''u'' ''p'' ''d'' 2 0) = (0, sample_dbpool)"
    by code_simp
  then have "db.reachable (sample_dbpool, \<lambda>i. Idle)"
    by (blast intro: db.reachable.init CDBPool_Init_fresh)
  moreover have "GetDBConn_enter (\<lambda>_. 0) sample_dbpool = (Got 0, sample_dbpool\<lparr>free_list := []\<rparr>)"
    by code_simp
  ultimately show ?thesis by (blast intro: db.reachable.step db.pstep.acquire)
qed

theorem dbpool_exclusive_witness:
  "distinct (free_list (sample_dbpool\<lparr>free_list := []\<rparr>))
   \<and> int (0 + card (holders ((\<lambda>i. Idle)(7 := Holds 0)))) \<le> max (int MIN_DB_CONN_CNT) 2"
proof -
  have "db_max_conn_cnt sample_dbpool = 2" by code_simp
  with dbpool_exclusive [OF sample_dbpool_reachable] show ?thesis by simp
qed

text \<open>
  A thread waiting for a database connection stays blocked only while at
  least the configured number of connections is held by other threads, and as
  soon as any of them gives its connection back the wait ends with a connection.
\<close>

theorem dbpool_waiter_served:
  assumes "db.reachable (p, T)" "T i = Waits t" "T j = Holds c"
  shows "((\<exists>c' p'. GetDBConn_wake t e p = Some (Got c', p'))
          \<or> db_max_conn_cnt p \<le> int (card (holders T)))
    \<and> (\<exists>c' p'. GetDBConn_wake t e (RelDBConn c p) = Some (Got c', p'))"
  using db.waiting [OF assms(1,2)] db.released_wakes [OF assms(1,3)] by blast

lemma sample_dbpool_waiting:
  "db.reachable (sample_dbpool\<lparr>free_list := [], db_cur_conn_cnt := 2, next_conn := 2\<rparr>,
     (\<lambda>i. Idle)(7 := Holds 0, 8 := Holds 1, 9 := Waits 0))"
proof -
  have "GetDBConn_enter (\<lambda>_. 0) (sample_dbpool\<lparr>free_list := []\<rparr>)
      = (Got 1, sample_dbpool\<lparr>free_list := [], db_cur_conn_cnt := 2, next_conn := 2\<rparr>)"
    by code_simp
  then have "db.reachable (sample_dbpool\<lparr>free_list := [], db_cur_conn_cnt := 2, next_conn := 2\<rparr>,
      (\<lambda>i. Idle)(7 := Holds 0, 8 := Holds 1))"
    by (intro db.reachable.step [OF sample_dbpool_reachable] db.pstep.acquire) simp_all
  moreover have wait: "GetDBConn_enter (\<lambda>_. 0)
      (sample_dbpool\<lparr>free_list := [], db_cur_conn_cnt := 2, next_conn := 2\<rparr>)
    = (MustWait, sample_dbpool\<lparr>free_list := [], db_cur_conn_cnt := 2, next_conn := 2\<rparr>)"
    by code_simp
  ultimately show ?thesis
    using db.reachable.step [OF _ db.pstep.sleep [OF _ wait]] by simp
qed

theorem dbpool_waiter_served_witness:
  "\<exists>c' p'. GetDBConn_wake 0 False
     (RelDBConn 1 (sample_dbpool\<lparr>free_list := [], db_cur_conn_cnt := 2, next_conn := 2\<rparr>))
       = Some (Got c', p')"
  using dbpool_waiter_served [OF sample_dbpool_waiting, of 9 0 8 1 False] by simp

text \<open>The cache pool gives the same guarantees, with its minimum of two connections.\<close>

theorem cachepool_exclusive:
  assumes "ca.reachable (p, T)"
  shows "(\<forall>i j c. T i = Holds c \<longrightarrow> T j = Holds c \<longrightarrow> i = j)
    \<and> (\<forall>i c. T i = Holds c \<longrightarrow> c \<notin> set (cfree_list p)) \<and> distinct (cfree_list p)
    \<and> int (length (cfree_list p) + card (holders T)) \<le> max (int MIN_CACHE_CONN_CNT) (max_conn_cnt p)
    \<and> (\<forall>i t. T i = Waits t \<longrightarrow> (\<exists>c' p'. GetCacheConn_wake t e p = Some (Got c', p'))
          \<or> max_conn_cnt p \<le> int (card (holders T)))"
  using ca.exclusive [OF assms] ca.waiting [OF assms] by blast

definition sample_cachepool :: CachePool where
  "sample_cachepool = snd (CachePool_Init (\<lambda>_. 0) (newCachePool ''token'' ''h'' 6379 0 [] 4 0))"

theorem cachepool_exclusive_witness: "distinct (cfree_list sample_cachepool)"
proof -
  have "CachePool_Init (\<lambda>_. 0) (newCachePool ''token'' ''h'' 6379 0 [] 4 0) = (0, sample_cachepool)"
    by code_simp
  then have "ca.reachable (sample_cachepool, \<lambda>i. Idle)"
    by (blast intro: ca.reachable.init CachePool_Init_fresh)
  from cachepool_exclusive [OF this] show ?thesis by simp
qed

text \<open>
  When \<^verbatim>\<open>DBInstances\<close> lists non-empty names separated by commas and every one
  of them is configured and connects, initialisation returns 0 and the manager has
  a pool for exactly these names.
\<close>

theorem dbmanager_init_pools:
  assumes "ns \<noteq> []" "list_all (\<lambda>n. n \<noteq> [] \<and> CHR '','' \<notin> set n) ns"
    and "cfg ''DBInstances'' = Some (join_with CHR '','' ns)"
    and "list_all (\<lambda>n. \<forall>nx. \<exists>p. CDBManager_Init_one cfg init n nx = Inr (Inr p)) ns"
  shows "\<exists>m. CDBManager_Init cfg init = Inr (0, m) \<and> set (map fst m) = set ns"
proof -
  have "snd (CStrExplode (join_with CHR '','' ns) CHR '','') = map Some ns"
    using explode_loop_join [OF assms(2), of "[]"] count_join [OF assms(2,1)]
    by (simp add: CStrExplode_def Let_def)
  with assms(3) db_loop_keys [of cfg init ns "[]" 0] assms(4) show ?thesis
    by (simp add: CDBManager_Init_def)
qed

definition sample_cfg :: "string \<Rightarrow> string option" where
  "sample_cfg = map_of [(''DBInstances'', ''m''), (''m_host'', ''h''), (''m_port'', ''3306''),
     (''m_dbname'', ''d''), (''m_username'', ''u''), (''m_password'', ''p''), (''m_maxconncnt'', ''4'')]"

theorem dbmanager_init_pools_witness:
  "\<exists>m. CDBManager_Init sample_cfg (\<lambda>_ _. 0) = Inr (0, m) \<and> set (map fst m) = {''m''}"
proof -
  have cfg: "sample_cfg (conf_key ''m'' ''_host'') = Some ''h''"
    "sample_cfg (conf_key ''m'' ''_port'') = Some ''3306''"
    "sample_cfg (conf_key ''m'' ''_dbname'') = Some ''d''"
    "sample_cfg (conf_key ''m'' ''_username'') = Some ''u''"
    "sample_cfg (conf_key ''m'' ''_password'') = Some ''p''"
    "sample_cfg (conf_key ''m'' ''_maxconncnt'') = Some ''4''"
    "atoi ''3306'' = Inr 3306" "atoi ''4'' = Inr 4"
    by code_simp+
  have "\<exists>p. CDBManager_Init_one sample_cfg (\<lambda>_ _. 0) ''m'' nx = Inr (Inr p)" for nx
    by (simp add: CDBManager_Init_one_def cfg CDBPool_Init_def newCDBPool_def MIN_DB_CONN_CNT_def
        numeral_eq_Suc Let_def split_beta)
  moreover have "sample_cfg ''DBInstances'' = Some (join_with CHR '','' [''m''])"
    by (simp add: sample_cfg_def)
  ultimately show ?thesis
    using dbmanager_init_pools [of "[''m'']" sample_cfg "\<lambda>_ _. 0"] by simp
qed

text \<open>
  Giving a connection back twice has the effect of giving it back once, and a
  connection given back is the last one in line.
\<close>

theorem RelDBConn_idempotent:
  "RelDBConn c (RelDBConn c p) = RelDBConn c p
   \<and> (c \<notin> set (free_list p) \<longrightarrow> free_list (RelDBConn c p) = free_list p @ [c])
   \<and> RelCacheConn c' (RelCacheConn c' q) = RelCacheConn c' q"
  by (simp add: RelDBConn_def RelCacheConn_def)

theorem RelDBConn_idempotent_witness:
  "free_list (RelDBConn 5 sample_dbpool) = [0, 5]"
proof -
  have "free_list sample_dbpool = [0]" by code_simp
  with RelDBConn_idempotent [of 5 sample_dbpool undefined undefined] show ?thesis by simp
qed

end
