(* ===== verification/HiredisReader.thy ===== *)
theory HiredisReader
  imports ChatPrelude
begin

text \<open>
  The reply parser of the Redis client, \<^verbatim>\<open>logic/redis/read.c\<close>, with the reply objects of
  \<^verbatim>\<open>logic/redis/hiredis.c\<close>. The reader keeps the bytes that have arrived, a stack of at
  most nine read tasks and the reply under construction, and goes on where it stopped when
  more bytes are fed. An sds string is a list of characters; memory allocation succeeds.
  Shown here: the loop over the items ends, integers are accepted exactly in their
  canonical form and range, and lines are cut at the first line end.
\<close>

section \<open>Replies\<close>

datatype reply =
    RString string | RStatus string | RError string | RInteger int | RNil | RArray "reply list"

text \<open>\<^verbatim>\<open>%d\<close>.\<close>

definition dec_int :: "int \<Rightarrow> string" where
  "dec_int i = (if i < 0 then CHR ''-'' # dec (nat (- i)) else dec (nat i))"

text \<open>
  A \<^verbatim>\<open>redisReply\<close> while it is built: the elements of an array are null until they have been
  read.
\<close>

datatype robj =
    OString string | OStatus string | OError string | OInteger int | ONil | OArray "robj option list"

datatype reply_type =
    REDIS_REPLY_STRING | REDIS_REPLY_ARRAY | REDIS_REPLY_INTEGER | REDIS_REPLY_NIL
  | REDIS_REPLY_STATUS | REDIS_REPLY_ERROR

datatype redis_err = REDIS_ERR_IO | REDIS_ERR_OTHER | REDIS_ERR_EOF | REDIS_ERR_PROTOCOL | REDIS_ERR_OOM

text \<open>
  A task; the type is \<open>None\<close> for \<^verbatim>\<open>-1\<close>. Its parent is the task below it on the stack, and the
  object of an array task is reached from the root by the indices of the
  tasks above the root (\<open>task_path\<close>).
\<close>

record redisReadTask =
  t_type :: "reply_type option"
  t_elements :: int
  t_idx :: int

text \<open>
  The reader. The stack has its top first, so that \<^verbatim>\<open>ridx\<close> is its length minus one. After an
  error the buffer is null, here empty; \<^verbatim>\<open>len\<close> is always the length of the buffer.
\<close>

record redisReader =
  r_err :: "redis_err option"
  r_errstr :: string
  r_buf :: string
  r_pos :: nat
  r_stack :: "redisReadTask list"
  r_reply :: "robj option"

abbreviation r_len :: "redisReader \<Rightarrow> nat" where
  "r_len r \<equiv> length (r_buf r)"

abbreviation r_rest :: "redisReader \<Rightarrow> string" where
  "r_rest r \<equiv> drop (r_pos r) (r_buf r)"

definition redisReaderCreate :: redisReader where
  "redisReaderCreate = \<lparr>r_err = None, r_errstr = [], r_buf = [], r_pos = 0, r_stack = [], r_reply = None\<rparr>"

definition redisReaderSetError :: "redis_err \<Rightarrow> string \<Rightarrow> redisReader \<Rightarrow> redisReader" where
  "redisReaderSetError type str r =
     r\<lparr>r_reply := None, r_buf := [], r_pos := 0, r_stack := [], r_err := Some type, r_errstr := take 127 str\<rparr>"

text \<open>The description of a byte that is no reply type.\<close>

definition hex_char :: "nat \<Rightarrow> char" where
  "hex_char n = (if n < 10 then char_of (48 + n) else char_of (87 + n))"

definition chrtos :: "char \<Rightarrow> string" where
  "chrtos byte =
     (let n = of_char byte :: nat; q = CHR 0x22; b = CHR 0x5C in
      if byte = b \<or> byte = q then [q, b, byte, q]
      else if n = 10 then [q, b, CHR ''n'', q]
      else if n = 13 then [q, b, CHR ''r'', q]
      else if n = 9 then [q, b, CHR ''t'', q]
      else if n = 7 then [q, b, CHR ''a'', q]
      else if n = 8 then [q, b, CHR ''b'', q]
      else if 32 \<le> n \<and> n < 127 then [q, byte, q]
      else [q, b, CHR ''x'', hex_char (n div 16), hex_char (n mod 16), q])"

definition redisReaderSetErrorProtocolByte :: "char \<Rightarrow> redisReader \<Rightarrow> redisReader" where
  "redisReaderSetErrorProtocolByte byte =
     redisReaderSetError REDIS_ERR_PROTOCOL
       (''Protocol error, got '' @ take 7 (chrtos byte) @ '' as reply type byte'')"

section \<open>Lines and numbers\<close>

definition readBytes :: "nat \<Rightarrow> redisReader \<Rightarrow> (string \<times> redisReader) option" where
  "readBytes bytes r =
     (if bytes \<le> r_len r - r_pos r then Some (take bytes (r_rest r), r\<lparr>r_pos := r_pos r + bytes\<rparr>) else None)"

text \<open>
  The search for a line end: \<open>n\<close> positions are left, each followed by another
  character. The length is kept in an \<^verbatim>\<open>int\<close>.
\<close>

definition int32 :: "nat \<Rightarrow> int" where
  "int32 n = (let m = int n mod 2 ^ 32 in if m < 2 ^ 31 then m else m - 2 ^ 32)"

fun seek_loop :: "nat \<Rightarrow> string \<Rightarrow> nat option" where
  "seek_loop 0 s = None"
| "seek_loop (Suc n) s =
     (if hd s = CHR 0x0D \<and> hd (tl s) = CHR 0x0A then Some 0 else map_option Suc (seek_loop n (tl s)))"

definition seekNewline :: "string \<Rightarrow> nat option" where
  "seekNewline s = seek_loop (nat (if s = [] then - 1 else int32 (length s - 1))) s"

fun string2ll_loop :: "u64 \<Rightarrow> string \<Rightarrow> u64 option" where
  "string2ll_loop v [] = Some v"
| "string2ll_loop v (c # cs) =
     (if is_digit c then
        if v > (- 1) div 10 then None
        else let v = v * 10; d = word_of_nat (digit_val c) in
             if v > - 1 - d then None else string2ll_loop (v + d) cs
      else None)"

definition string2ll :: "string \<Rightarrow> int option" where
  "string2ll s =
     (if s = [] then None
      else if s = ''0'' then Some 0
      else
        let negative = (hd s = CHR ''-''); p = (if negative then tl s else s) in
        if p = [] then None
        else if is_digit (hd p) \<and> hd p \<noteq> CHR ''0'' then
          (case string2ll_loop (word_of_nat (digit_val (hd p))) (tl p) of
             None \<Rightarrow> None
           | Some v \<Rightarrow>
               if negative then if v > 2 ^ 63 then None else Some (sint (- v))
               else if v > 2 ^ 63 - 1 then None else Some (sint v))
        else None)"

definition readLine :: "redisReader \<Rightarrow> (string \<times> redisReader) option" where
  "readLine r =
     (case seekNewline (r_rest r) of
        None \<Rightarrow> None
      | Some len \<Rightarrow> Some (take len (r_rest r), r\<lparr>r_pos := r_pos r + len + 2\<rparr>))"

section \<open>The task stack\<close>

fun moveToNextTask :: "redisReadTask list \<Rightarrow> redisReadTask list res" where
  "moveToNextTask [] = Inr []"
| "moveToNextTask [t] = Inr []"
| "moveToNextTask (cur # prv # ts) =
     cpp_assert (t_type prv = Some REDIS_REPLY_ARRAY)
       (if t_idx cur = t_elements prv - 1 then moveToNextTask (prv # ts)
        else cpp_assert (t_idx cur < t_elements prv)
          (Inr (cur\<lparr>t_type := None, t_elements := - 1, t_idx := t_idx cur + 1\<rparr> # prv # ts)))"

text \<open>
  \<^verbatim>\<open>parent->element[task->idx] = r\<close> for the parent's object reached from the root by the
  indices; at the root itself the object becomes the reply.
\<close>

fun attach :: "int list \<Rightarrow> robj \<Rightarrow> robj option \<Rightarrow> robj res" where
  "attach [] x root = Inr x"
| "attach (i # is) x (Some (OArray es)) =
     (if 0 \<le> i \<and> i < int (length es)
      then and_then (attach is x (es ! nat i)) (\<lambda>y. Inr (OArray (es[nat i := Some y])))
      else Inl OutOfBounds)"
| "attach (i # is) x (Some _) = Inl AssertFailed"
| "attach (i # is) x None = Inl BadOptional"

definition task_path :: "redisReadTask list \<Rightarrow> int list" where
  "task_path ts = rev (map t_idx (butlast ts))"

text \<open>\<^verbatim>\<open>createStringObject\<close>, \<^verbatim>\<open>createArrayObject\<close>, \<^verbatim>\<open>createIntegerObject\<close>, \<^verbatim>\<open>createNilObject\<close>.\<close>

definition createObject :: "robj \<Rightarrow> redisReader \<Rightarrow> redisReader res" where
  "createObject x r =
     and_then (attach (task_path (r_stack r)) x (r_reply r)) (\<lambda>root. Inr (r\<lparr>r_reply := Some root\<rparr>))"

fun createStringObject :: "reply_type option \<Rightarrow> string \<Rightarrow> redisReader \<Rightarrow> redisReader res" where
  "createStringObject (Some REDIS_REPLY_ERROR) s r = createObject (OError s) r"
| "createStringObject (Some REDIS_REPLY_STATUS) s r = createObject (OStatus s) r"
| "createStringObject (Some REDIS_REPLY_STRING) s r = createObject (OString s) r"
| "createStringObject _ s r = Inl AssertFailed"

definition createArrayObject :: "int \<Rightarrow> redisReader \<Rightarrow> redisReader res" where
  "createArrayObject elements = createObject (OArray (replicate (nat elements) None))"

definition createIntegerObject :: "int \<Rightarrow> redisReader \<Rightarrow> redisReader res" where
  "createIntegerObject v = createObject (OInteger v)"

definition createNilObject :: "redisReader \<Rightarrow> redisReader res" where
  "createNilObject = createObject ONil"

section \<open>Items\<close>

text \<open>The result is whether the function returned \<^verbatim>\<open>REDIS_OK\<close>, and the reader.\<close>

definition next_task :: "redisReader \<Rightarrow> (bool \<times> redisReader) res" where
  "next_task r = and_then (moveToNextTask (r_stack r)) (\<lambda>ts. Inr (True, r\<lparr>r_stack := ts\<rparr>))"

definition protocol_error :: "string \<Rightarrow> redisReader \<Rightarrow> (bool \<times> redisReader) res" where
  "protocol_error str r = Inr (False, redisReaderSetError REDIS_ERR_PROTOCOL str r)"

definition processLineItem :: "reply_type option \<Rightarrow> redisReader \<Rightarrow> (bool \<times> redisReader) res" where
  "processLineItem type r =
     (case readLine r of
        None \<Rightarrow> Inr (False, r)
      | Some (p, r) \<Rightarrow>
          if type = Some REDIS_REPLY_INTEGER then
            (case string2ll p of
               None \<Rightarrow> protocol_error ''Bad integer value'' r
             | Some v \<Rightarrow> and_then (createIntegerObject v r) next_task)
          else and_then (createStringObject type p r) next_task)"

text \<open>\<^verbatim>\<open>bytelen\<close>, an \<^verbatim>\<open>unsigned long\<close>: the line with its end, then also the string with its end.\<close>

definition bulk_line_len :: "nat \<Rightarrow> u64" where
  "bulk_line_len k = word_of_nat k + 2"

definition bulk_item_len :: "nat \<Rightarrow> int \<Rightarrow> u64" where
  "bulk_item_len k len = bulk_line_len k + word_of_int (len + 2)"

definition processBulkItem :: "redisReader \<Rightarrow> (bool \<times> redisReader) res" where
  "processBulkItem r =
     (case seekNewline (r_rest r) of
        None \<Rightarrow> Inr (False, r)
      | Some k \<Rightarrow>
          (case string2ll (take k (r_rest r)) of
             None \<Rightarrow> protocol_error ''Bad bulk string length'' r
           | Some len \<Rightarrow>
               if len < - 1 then protocol_error ''Bulk string length out of range'' r
               else if len = - 1 then
                 and_then (createNilObject (r\<lparr>r_pos := r_pos r + unat (bulk_line_len k)\<rparr>)) next_task
               else if word_of_nat (r_pos r) + bulk_item_len k len \<le> word_of_nat (r_len r) then
                   (if k + 2 + nat len \<le> length (r_rest r)
                    then and_then (createStringObject (Some REDIS_REPLY_STRING) (take (nat len) (drop (k + 2) (r_rest r)))
                           (r\<lparr>r_pos := r_pos r + unat (bulk_item_len k len)\<rparr>)) next_task
                    else Inl OutOfBounds)
               else Inr (False, r)))"

definition newReadTask :: "int \<Rightarrow> redisReadTask" where
  "newReadTask idx = \<lparr>t_type = None, t_elements = - 1, t_idx = idx\<rparr>"

definition push_task :: "int \<Rightarrow> redisReader \<Rightarrow> redisReader" where
  "push_task elements r =
     (case r_stack r of
        [] \<Rightarrow> r
      | cur # ts \<Rightarrow> r\<lparr>r_stack := newReadTask 0 # cur\<lparr>t_elements := elements\<rparr> # ts\<rparr>)"

definition processMultiBulkItem :: "redisReader \<Rightarrow> (bool \<times> redisReader) res" where
  "processMultiBulkItem r =
     (if length (r_stack r) = 9 then
        protocol_error ''No support for nested multi bulk replies with depth > 7'' r
      else
        (case readLine r of
           None \<Rightarrow> Inr (False, r)
         | Some (p, r) \<Rightarrow>
             (case string2ll p of
                None \<Rightarrow> protocol_error ''Bad multi-bulk length'' r
              | Some elements \<Rightarrow>
                  if elements < - 1 \<or> elements > 2 ^ 31 - 1 then
                    protocol_error ''Multi-bulk length out of range'' r
                  else if elements = - 1 then and_then (createNilObject r) next_task
                  else and_then (createArrayObject elements r) (\<lambda>r.
                    if elements > 0 then Inr (True, push_task elements r) else next_task r))))"

definition type_of_byte :: "char \<Rightarrow> reply_type option" where
  "type_of_byte c =
     (if c = CHR ''-'' then Some REDIS_REPLY_ERROR
      else if c = CHR ''+'' then Some REDIS_REPLY_STATUS
      else if c = CHR '':'' then Some REDIS_REPLY_INTEGER
      else if c = CHR ''$'' then Some REDIS_REPLY_STRING
      else if c = CHR ''*'' then Some REDIS_REPLY_ARRAY
      else None)"

definition processTyped :: "redisReader \<Rightarrow> (bool \<times> redisReader) res" where
  "processTyped r =
     (case r_stack r of
        [] \<Rightarrow> Inl OutOfBounds
      | cur # ts \<Rightarrow>
          (case t_type cur of
             Some REDIS_REPLY_STRING \<Rightarrow> processBulkItem r
           | Some REDIS_REPLY_ARRAY \<Rightarrow> processMultiBulkItem r
           | Some REDIS_REPLY_NIL \<Rightarrow> Inl AssertFailed
           | None \<Rightarrow> Inl AssertFailed
           | type \<Rightarrow> processLineItem type r))"

definition processItem :: "redisReader \<Rightarrow> (bool \<times> redisReader) res" where
  "processItem r =
     (case r_stack r of
        [] \<Rightarrow> Inl OutOfBounds
      | cur # ts \<Rightarrow>
          if t_type cur = None then
            (case readBytes 1 r of
               None \<Rightarrow> Inr (False, r)
             | Some (p, r) \<Rightarrow>
                 (case type_of_byte (hd p) of
                    None \<Rightarrow> Inr (False, redisReaderSetErrorProtocolByte (hd p) r)
                  | ty \<Rightarrow> processTyped (r\<lparr>r_stack := cur\<lparr>t_type := ty\<rparr> # ts\<rparr>)))
          else processTyped r)"

section \<open>The loop over items\<close>

lemma seek_loop_bounds: "seek_loop n s = Some k \<Longrightarrow> k < n"
  by (induction n s arbitrary: k rule: seek_loop.induct) (auto split: if_splits)

lemma int32_le: "int32 n \<le> int n"
  using zmod_le_nonneg_dividend [of "int n" "2 ^ 32"] by (simp add: int32_def Let_def)

lemma seekNewline_bounds: "seekNewline s = Some k \<Longrightarrow> k + 2 \<le> length s"
  using seek_loop_bounds int32_le [of "length s - 1"]
  by (fastforce simp: seekNewline_def split: if_splits)

lemma createObject_frame:
  "createObject x r = Inr r' \<Longrightarrow> r_buf r' = r_buf r \<and> r_pos r' = r_pos r \<and> r_stack r' = r_stack r \<and> r_err r' = r_err r"
  by (auto simp: createObject_def and_then_eq_Inr)

lemma next_task_frame:
  "next_task r = Inr (b, r') \<Longrightarrow> b \<and> r_buf r' = r_buf r \<and> r_pos r' = r_pos r \<and> r_err r' = r_err r"
  by (auto simp: next_task_def and_then_eq_Inr)

lemma createStringObject_frame:
  "createStringObject ty x r = Inr r' \<Longrightarrow> r_buf r' = r_buf r \<and> r_pos r' = r_pos r \<and> r_stack r' = r_stack r \<and> r_err r' = r_err r"
  by (induction ty x r rule: createStringObject.induct) (auto dest: createObject_frame)

lemmas create_defs = createArrayObject_def createIntegerObject_def createNilObject_def
lemmas create_frames = createObject_frame createStringObject_frame next_task_frame

lemma push_task_frame [simp]: "r_buf (push_task n r) = r_buf r" "r_pos (push_task n r) = r_pos r" "r_err (push_task n r) = r_err r"
  by (simp_all add: push_task_def split: list.splits)

text \<open>An item that was processed has consumed bytes of the buffer.\<close>

definition progress :: "redisReader \<Rightarrow> redisReader \<Rightarrow> bool" where
  "progress r r' \<longleftrightarrow> r_buf r' = r_buf r \<and> r_pos r < r_pos r' \<and> r_pos r < r_len r"

lemma readLine_progress: "readLine r = Some (p, r') \<Longrightarrow> progress r r' \<and> r_stack r' = r_stack r"
  using seekNewline_bounds [of "r_rest r"] by (auto simp: readLine_def progress_def split: option.splits)

lemma processLineItem_progress: "processLineItem ty r = Inr (True, r') \<Longrightarrow> progress r r'"
  by (auto simp: processLineItem_def protocol_error_def and_then_eq_Inr create_defs progress_def
      split: option.splits if_splits dest!: readLine_progress create_frames)

lemma processMultiBulkItem_progress: "processMultiBulkItem r = Inr (True, r') \<Longrightarrow> progress r r'"
  by (auto simp: processMultiBulkItem_def protocol_error_def and_then_eq_Inr create_defs progress_def
      split: option.splits if_splits dest!: readLine_progress create_frames)

lemma seekNewline_int: "seekNewline s = Some k \<Longrightarrow> k < 2 ^ 31"
  using seek_loop_bounds [of "nat (int32 (length s - 1))" s k]
  by (auto simp: seekNewline_def int32_def Let_def split: if_splits)

lemma sint_u64: "- (2 ^ 63) \<le> sint (v :: u64) \<and> sint v < 2 ^ 63"
  using sint_ge [of v] sint_lt [of v] by simp

lemma string2ll_range: "string2ll s = Some v \<Longrightarrow> - (2 ^ 63) \<le> v \<and> v < 2 ^ 63"
  using sint_u64 by (fastforce simp: string2ll_def Let_def split: if_splits option.splits)

lemma unat_bulk_line: "k < 2 ^ 31 \<Longrightarrow> unat (bulk_line_len k) = k + 2"
  unfolding bulk_line_len_def by (subst unat_add_small) (simp_all add: unat_word_of_nat)

lemma unat_bulk_item:
  assumes "k < 2 ^ 31" "0 \<le> len" "len < 2 ^ 63"
  shows "unat (bulk_item_len k len) = k + 2 + (nat len + 2)"
proof -
  have "len + 2 = int (nat len + 2)" using assms(2) by simp
  then have "(word_of_int (len + 2) :: u64) = word_of_nat (nat len + 2)" by (simp only: of_int_of_nat_eq)
  moreover have "unat (word_of_nat (nat len + 2) :: u64) = nat len + 2"
    using assms by (intro unat_word_of_nat) simp
  ultimately have "unat (word_of_int (len + 2) :: u64) = nat len + 2" by (simp only:)
  then show ?thesis using assms unat_bulk_line [OF assms(1)]
    unfolding bulk_item_len_def by (subst unat_add_small) simp_all
qed

lemma bulk_lens:
  assumes "seekNewline s = Some k"
  shows "unat (bulk_line_len k) = k + 2"
    and "string2ll t = Some len \<Longrightarrow> \<not> len < - 1 \<Longrightarrow> len \<noteq> - 1 \<Longrightarrow> unat (bulk_item_len k len) = k + 2 + (nat len + 2)"
  using unat_bulk_line [OF seekNewline_int [OF assms]] unat_bulk_item [OF seekNewline_int [OF assms], of len]
    string2ll_range [of t len] by auto

lemma processBulkItem_progress: "processBulkItem r = Inr (True, r') \<Longrightarrow> progress r r'"
  by (auto simp: processBulkItem_def protocol_error_def and_then_eq_Inr create_defs progress_def bulk_lens
      split: option.splits if_splits dest: seekNewline_bounds dest!: create_frames)

lemma processTyped_progress: "processTyped r = Inr (True, r') \<Longrightarrow> progress r r'"
  by (auto simp: processTyped_def split: list.splits option.splits reply_type.splits
      dest: processLineItem_progress processBulkItem_progress processMultiBulkItem_progress)

lemma processItem_progress:
  assumes "processItem r = Inr (True, r')"
  shows "progress r r'"
proof (cases "r_stack r")
  case Nil
  then show ?thesis using assms by (simp add: processItem_def)
next
  case (Cons cur ts)
  show ?thesis
  proof (cases "t_type cur")
    case None
    then obtain p r1 where "readBytes 1 r = Some (p, r1)"
        "processTyped (r1\<lparr>r_stack := cur\<lparr>t_type := type_of_byte (hd p)\<rparr> # ts\<rparr>) = Inr (True, r')"
      using assms Cons by (auto simp: processItem_def split: option.splits)
    then show ?thesis using processTyped_progress
      by (fastforce simp: readBytes_def progress_def split: if_splits)
  next
    case (Some ty)
    then show ?thesis using assms Cons processTyped_progress by (simp add: processItem_def)
  qed
qed

text \<open>\<^verbatim>\<open>while (r->ridx >= 0) if (processItem(r) != REDIS_OK) break;\<close>\<close>

function process_items :: "redisReader \<Rightarrow> redisReader res" where
  "process_items r =
     (if r_stack r = [] then Inr r
      else case processItem r of
        Inl e \<Rightarrow> Inl e
      | Inr (ok, r') \<Rightarrow> if ok then process_items r' else Inr r')"
  by pat_completeness auto
termination
  by (relation "measure (\<lambda>r. r_len r - r_pos r)") (auto dest!: processItem_progress simp: progress_def)

declare process_items.simps [simp del]

definition redisReaderFeed :: "string \<Rightarrow> redisReader \<Rightarrow> bool \<times> redisReader" where
  "redisReaderFeed buf r = (if r_err r \<noteq> None then (False, r) else (True, r\<lparr>r_buf := r_buf r @ buf\<rparr>))"

definition first_task :: "redisReader \<Rightarrow> redisReader" where
  "first_task r = (if r_stack r = [] then r\<lparr>r_stack := [newReadTask (- 1)]\<rparr> else r)"

definition discard :: "redisReader \<Rightarrow> redisReader" where
  "discard r = (if 1024 \<le> r_pos r then r\<lparr>r_buf := r_rest r, r_pos := 0\<rparr> else r)"

text \<open>The result: whether \<^verbatim>\<open>REDIS_OK\<close> is returned, the reply or null, the reader.\<close>

definition emit_reply :: "redisReader \<Rightarrow> (bool \<times> robj option \<times> redisReader) res" where
  "emit_reply r =
     (if r_err r \<noteq> None then Inr (False, None, r)
      else let r = discard r in
        if r_stack r = [] then Inr (True, r_reply r, r\<lparr>r_reply := None\<rparr>) else Inr (True, None, r))"

definition redisReaderGetReply :: "redisReader \<Rightarrow> (bool \<times> robj option \<times> redisReader) res" where
  "redisReaderGetReply r =
     (if r_err r \<noteq> None then Inr (False, None, r)
      else if r_len r = 0 then Inr (True, None, r)
      else and_then (process_items (first_task r)) emit_reply)"

section \<open>Numbers\<close>

text \<open>The value read by a loop over digits that starts with \<open>n\<close>.\<close>

definition digits_val :: "nat \<Rightarrow> string \<Rightarrow> nat" where
  "digits_val n s = foldl (\<lambda>n c. 10 * n + digit_val c) n s"

lemma digits_val_simps [simp]:
  "digits_val n [] = n" "digits_val n (c # s) = digits_val (10 * n + digit_val c) s"
  by (simp_all add: digits_val_def)

lemma digits_val_ge: "n \<le> digits_val n s"
proof (induction s arbitrary: n)
  case (Cons c s)
  show ?case using Cons.IH [of "10 * n + digit_val c"] by simp
qed simp

lemma digit_val_less: "is_digit c \<Longrightarrow> digit_val c < 10"
  unfolding is_digit_def digit_val_def by linarith

lemma unat_u64_less [simp]: "unat (v :: u64) < 18446744073709551616"
  using unsigned_less [of v] by simp

lemma string2ll_loop_step:
  assumes "is_digit c"
  shows "(v > (- 1) div 10 \<or> v * 10 > - 1 - word_of_nat (digit_val c)) \<longleftrightarrow> 2 ^ 64 \<le> 10 * unat v + digit_val c"
    and "10 * unat v + digit_val c < 2 ^ 64 \<Longrightarrow>
      unat (v * 10 + word_of_nat (digit_val c) :: u64) = 10 * unat v + digit_val c"
proof -
  let ?d = "word_of_nat (digit_val c) :: u64"
  have d: "unat ?d = digit_val c" "digit_val c < 10"
    using digit_val_less [OF assms] by (simp_all add: unat_word_of_nat)
  have m: "unat (- 1 :: u64) = 2 ^ 64 - 1" by (simp add: unsigned_minus_1_eq_mask mask_eq_exp_minus_1)
  have "unat ((- 1) div 10 :: u64) = (2 ^ 64 - 1) div 10" by (simp only: unat_div m) simp
  then have big: "v > (- 1) div 10 \<longleftrightarrow> unat v > (2 ^ 64 - 1) div 10" by (simp only: word_less_nat_alt)
  have mul: "unat (v * 10) = 10 * unat v" if "unat v \<le> (2 ^ 64 - 1) div 10"
    using that by (simp add: unat_word_ariths)
  have sub: "unat (- 1 - ?d) = 2 ^ 64 - 1 - digit_val c"
    using d m unat_sub [of ?d "- 1"] by (simp add: word_le_nat_alt)
  show "(v > (- 1) div 10 \<or> v * 10 > - 1 - ?d) \<longleftrightarrow> 2 ^ 64 \<le> 10 * unat v + digit_val c"
  proof (cases "unat v > (2 ^ 64 - 1) div 10")
    case True
    then show ?thesis using big by auto
  next
    case False
    then have "v * 10 > - 1 - ?d \<longleftrightarrow> 10 * unat v > 2 ^ 64 - 1 - digit_val c"
      using mul sub by (simp only: word_less_nat_alt not_less)
    then show ?thesis using big False d by auto
  qed
  assume "10 * unat v + digit_val c < 2 ^ 64"
  then show "unat (v * 10 + ?d) = 10 * unat v + digit_val c"
    using mul d by (subst unat_add_small) auto
qed

lemma string2ll_loop_eq:
  "string2ll_loop v s =
     (if list_all is_digit s \<and> digits_val (unat v) s < 2 ^ 64 then Some (word_of_nat (digits_val (unat v) s)) else None)"
proof (induction s arbitrary: v)
  case (Cons c s)
  show ?case
  proof (cases "is_digit c")
    case True
    note step = string2ll_loop_step [OF True, of v]
    show ?thesis
    proof (cases "10 * unat v + digit_val c < 2 ^ 64")
      case small: True
      then show ?thesis using True step Cons.IH [of "v * 10 + word_of_nat (digit_val c)"] by (auto simp: Let_def)
    next
      case False
      then have "\<not> digits_val (unat v) (c # s) < 2 ^ 64"
        using digits_val_ge [of "10 * unat v + digit_val c" s] by auto
      then show ?thesis using True False step by (auto simp: Let_def)
    qed
  qed simp
qed simp

lemma digits_val_dec_val: "digits_val 0 s = dec_val s"
  by (simp add: digits_val_def dec_val_def)

lemma digit_char_val: "is_digit c \<Longrightarrow> digit_char (digit_val c) = c"
  unfolding is_digit_def digit_char_def digit_val_def by simp

lemma hd_dec: "0 < n \<Longrightarrow> hd (dec n) \<noteq> CHR ''0''"
proof (induction n rule: dec.induct)
  case (1 n)
  show ?case
  proof (cases "n < 10")
    case True
    then have "of_char (digit_char n) = (48 + n :: nat)" by simp
    moreover have "of_char (CHR ''0'') = (48 :: nat)" by code_simp
    ultimately have "digit_char n \<noteq> CHR ''0''" using 1(2) by auto
    then show ?thesis using True by (simp add: dec_small)
  next
    case False
    then show ?thesis using 1 by (simp add: dec_large hd_append)
  qed
qed

lemma dec_dec_val:
  assumes "s \<noteq> []" "list_all is_digit s" "hd s \<noteq> CHR ''0''"
  shows "dec (dec_val s) = s"
  using assms
proof (induction s rule: rev_induct)
  case (snoc c xs)
  then have c: "is_digit c" by simp
  show ?case
  proof (cases "xs = []")
    case True
    then show ?thesis using digit_val_less [OF c] digit_char_val [OF c] by (simp add: dec_val_def dec_small)
  next
    case False
    then have IH: "dec (dec_val xs) = xs" using snoc by simp
    have "dec 0 = ''0''" by code_simp
    then have "dec_val xs \<noteq> 0" using IH False snoc.prems(3) by (metis hd_append2 list.sel(1))
    then show ?thesis using digit_val_less [OF c] digit_char_val [OF c] IH
      by (subst dec_large) (simp_all add: dec_val_snoc)
  qed
qed simp

lemma sint_word_of_int: "- (2 ^ 63) \<le> k \<Longrightarrow> k < 2 ^ 63 \<Longrightarrow> sint (word_of_int k :: u64) = k"
  by (simp add: signed_of_int signed_take_bit_int_eq_self)

lemma digits_val_word:
  assumes "p \<noteq> []" "is_digit (hd p)"
  shows "string2ll_loop (word_of_nat (digit_val (hd p))) (tl p) =
     (if list_all is_digit p \<and> dec_val p < 2 ^ 64 then Some (word_of_nat (dec_val p)) else None)"
proof -
  have "unat (word_of_nat (digit_val (hd p)) :: u64) = digit_val (hd p)"
    using digit_val_less [OF assms(2)] by (simp add: unat_word_of_nat)
  then have "digits_val (unat (word_of_nat (digit_val (hd p)) :: u64)) (tl p) = dec_val p"
    using assms(1) digits_val_dec_val [of p] by (cases p) simp_all
  moreover have "list_all is_digit (tl p) = list_all is_digit p" using assms by (cases p) simp_all
  ultimately show ?thesis by (simp only: string2ll_loop_eq)
qed

text \<open>
  \<^verbatim>\<open>string2ll\<close> accepts exactly what its comment says: the decimal representation of
  a \<^verbatim>\<open>long long\<close> without leading zeros, blanks or a plus sign.
\<close>

lemma string2ll_dec_int:
  assumes "- (2 ^ 63) \<le> i" "i < 2 ^ 63"
  shows "string2ll (dec_int i) = Some i"
proof (cases "i = 0")
  case True
  have "dec_int 0 = ''0''" by (simp add: dec_int_def) code_simp
  then show ?thesis using True by (simp add: string2ll_def)
next
  case False
  define n where "n = nat \<bar>i\<bar>"
  define w :: u64 where "w = word_of_nat n"
  have n: "0 < n" "n \<le> 2 ^ 63" "0 < i \<Longrightarrow> n < 2 ^ 63" using assms False by (auto simp: n_def)
  have dig: "list_all is_digit (dec n)" "is_digit (hd (dec n))"
    using dec_digits [of n] by (auto simp: list_all_iff)
  have loop: "string2ll_loop (word_of_nat (digit_val (hd (dec n)))) (tl (dec n)) = Some w"
    using digits_val_word [of "dec n"] dig n by (simp add: w_def)
  have w: "unat w = n" using n by (simp add: w_def unat_word_of_nat)
  have ne: "dec n \<noteq> ''0''" using hd_dec [OF n(1)] by auto
  show ?thesis
  proof (cases "i < 0")
    case True
    then have s: "dec_int i = CHR ''-'' # dec n" by (simp add: dec_int_def n_def)
    have "- w = word_of_int i" using True by (simp add: w_def n_def)
    then have "sint (- w) = i" using assms by (simp add: sint_word_of_int)
    moreover have "\<not> 2 ^ 63 < w" using n(2) w by (simp add: word_less_nat_alt)
    ultimately show ?thesis using loop dig hd_dec [OF n(1)] by (simp add: string2ll_def s)
  next
    case pos: False
    then have s: "dec_int i = dec n" by (simp add: dec_int_def n_def)
    have "w = word_of_int i" using pos by (simp add: w_def n_def)
    then have "sint w = i" using assms by (simp add: sint_word_of_int)
    moreover have "\<not> 2 ^ 63 - 1 < w" using n(3) pos False w by (simp add: word_less_nat_alt)
    moreover have "hd (dec n) \<noteq> CHR ''-''" using digit_not_sign [OF dig(2)] by blast
    ultimately show ?thesis using loop dig hd_dec [OF n(1)] ne by (simp add: string2ll_def s)
  qed
qed

lemma string2ll_canonical:
  assumes "string2ll s = Some i"
  shows "s = dec_int i"
proof (cases "s = ''0''")
  case True
  have "dec_int 0 = ''0''" by (simp add: dec_int_def) code_simp
  then show ?thesis using True assms by (simp add: string2ll_def)
next
  case False
  define neg where "neg \<longleftrightarrow> hd s = CHR ''-''"
  define p where "p = (if neg then tl s else s)"
  from assms False obtain v where p: "s \<noteq> []" "p \<noteq> []" "is_digit (hd p)" "hd p \<noteq> CHR ''0''"
      and v: "string2ll_loop (word_of_nat (digit_val (hd p))) (tl p) = Some v"
      and i: "if neg then \<not> v > 2 ^ 63 \<and> i = sint (- v) else \<not> v > 2 ^ 63 - 1 \<and> i = sint v"
    by (auto simp: string2ll_def Let_def p_def neg_def split: if_splits option.splits)
  have s: "s = (if neg then CHR ''-'' # p else p)" using p(1) by (cases s) (auto simp: p_def neg_def)
  have d: "list_all is_digit p" "v = word_of_nat (dec_val p)" "dec_val p < 2 ^ 64"
    using v digits_val_word [OF p(2,3)] by (auto split: if_splits)
  then have u: "unat v = dec_val p" by (simp add: unat_word_of_nat)
  have dec: "dec (dec_val p) = p" using dec_dec_val [OF p(2) d(1) p(4)] .
  have "dec_val p \<noteq> 0"
  proof
    assume "dec_val p = 0"
    moreover have "dec 0 = ''0''" by code_simp
    ultimately have "p = ''0''" using dec by simp
    then show False using p(4) by simp
  qed
  have "i = (if neg then - int (dec_val p) else int (dec_val p))"
  proof (cases neg)
    case True
    then have "dec_val p \<le> 2 ^ 63" using i u by (simp add: word_less_nat_alt)
    then have "sint (word_of_int (- int (dec_val p)) :: u64) = - int (dec_val p)" by (intro sint_word_of_int) simp_all
    moreover have "- v = word_of_int (- int (dec_val p))" using d(2) by simp
    ultimately have "sint (- v) = - int (dec_val p)" by (simp only:)
    then show ?thesis using True i by simp
  next
    case False
    then have "dec_val p < 2 ^ 63" using i u by (simp add: word_less_nat_alt)
    then have "sint (word_of_int (int (dec_val p)) :: u64) = int (dec_val p)" by (intro sint_word_of_int) simp_all
    moreover have "v = word_of_int (int (dec_val p))" using d(2) by simp
    ultimately have "sint v = int (dec_val p)" by (simp only:)
    then show ?thesis using False i by simp
  qed
  then show ?thesis using s dec \<open>dec_val p \<noteq> 0\<close> by (auto simp: dec_int_def)
qed

section \<open>Lines\<close>

lemma seek_loop_str_find: "s \<noteq> [] \<Longrightarrow> seek_loop (length s - 1) s = str_find CRLF s"
proof (induction s rule: induct_list012)
  case (3 x y zs)
  then show ?case by (auto simp: CRLF_def starts_with_def)
qed (auto simp: CRLF_def starts_with_def)

lemma seekNewline_str_find:
  assumes "length s < 2 ^ 31"
  shows "seekNewline s = str_find CRLF s"
proof (cases "s = []")
  case True
  then show ?thesis by (simp add: seekNewline_def CRLF_def)
next
  case False
  then have "nat (int32 (length s - 1)) = length s - 1" using assms by (simp add: int32_def Let_def)
  then show ?thesis using False seek_loop_str_find [OF False] by (simp only: seekNewline_def if_False)
qed

lemma str_find_append:
  assumes "str_find pat s = Some k"
  shows "str_find pat (s @ t) = Some k"
  using assms
proof (induction s arbitrary: k)
  case Nil
  then show ?case by (cases t) (auto simp: starts_with_def split: if_splits)
next
  case (Cons x xs)
  show ?case
  proof (cases "starts_with pat (x # xs)")
    case True
    then have "starts_with pat (x # xs @ t)" by (metis append_Cons append_assoc starts_with_iff)
    then show ?thesis using Cons.prems True by simp
  next
    case False
    then obtain j where j: "str_find pat xs = Some j" "k = Suc j" using Cons.prems by auto
    have "\<not> starts_with pat (x # xs @ t)"
    proof
      assume st: "starts_with pat (x # xs @ t)"
      have "length pat \<le> length (x # xs)" using str_find_Some [OF j(1)]
        by (metis append_eq_conv_conj le_SucI length_Cons length_append length_drop le_add1 diff_le_self le_trans starts_with_iff)
      then have "take (length pat) (x # xs @ t) = take (length pat) (x # xs)"
        using take_append [of "length pat" "x # xs" t] by simp
      then show False using st False by (auto simp only: starts_with_def)
    qed
    then show ?thesis using Cons.IH [OF j(1)] j by simp
  qed
qed

text \<open>A line that contains no line end is found as a whole.\<close>

lemma str_find_line:
  assumes "str_find CRLF s = None"
  shows "str_find CRLF (s @ CRLF @ t) = Some (length s)"
  using assms
proof (induction s)
  case Nil
  then show ?case by (simp add: CRLF_def starts_with_def)
next
  case (Cons x xs)
  then have "str_find CRLF xs = None" by (simp split: if_splits)
  moreover have "\<not> starts_with CRLF (x # xs @ CRLF @ t)"
    using Cons.prems by (cases xs) (auto simp: CRLF_def starts_with_def split: if_splits)
  ultimately show ?case using Cons.IH by simp
qed

lemma str_find_CRLF_digits: "list_all (\<lambda>c. c \<noteq> CHR 0x0D) s \<Longrightarrow> str_find CRLF s = None"
  by (induction s) (auto simp: CRLF_def starts_with_def)

lemma dec_int_no_CR: "list_all (\<lambda>c. c \<noteq> CHR 0x0D) (dec_int i)"
  using dec_no_char [of "CHR 0x0D"] by (auto simp: dec_int_def list_all_iff is_digit_def)

end
