(* ===== verification/HiredisReplies.thy ===== *)
theory HiredisReplies
  imports HiredisReader
begin

text \<open>
  What the reply parser of \<^verbatim>\<open>HiredisReader\<close> guarantees: arbitrary bytes are treated alike
  however they are cut into portions, every reply written in the Redis protocol is read
  back exactly, and no assertion fails and no access leaves the buffer, the task
  stack or an array.
\<close>

section \<open>Portions\<close>

text \<open>
  A reader that is fed, and a reader whose consumed bytes are dropped. Under the bound of an
  \<^verbatim>\<open>int\<close> on the buffer, an item is processed alike whatever follows it.
\<close>

definition fed :: "string \<Rightarrow> redisReader \<Rightarrow> redisReader" where
  "fed x r = r\<lparr>r_buf := r_buf r @ x\<rparr>"

definition reader_ok :: "redisReader \<Rightarrow> bool" where
  "reader_ok r \<longleftrightarrow> r_err r = None \<and> r_pos r \<le> r_len r \<and> r_len r < 2 ^ 31"

lemma fed_simps [simp]:
  "r_stack (fed x r) = r_stack r" "r_pos (fed x r) = r_pos r" "r_reply (fed x r) = r_reply r"
  "r_err (fed x r) = r_err r" "r_buf (fed x r) = r_buf r @ x" "r_errstr (fed x r) = r_errstr r"
  "(fed x r)\<lparr>r_stack := ts\<rparr> = fed x (r\<lparr>r_stack := ts\<rparr>)" "(fed x r)\<lparr>r_pos := p\<rparr> = fed x (r\<lparr>r_pos := p\<rparr>)"
  "(fed x r)\<lparr>r_reply := o'\<rparr> = fed x (r\<lparr>r_reply := o'\<rparr>)" "fed y (fed x r) = fed (x @ y) r"
  by (simp_all add: fed_def)

lemma redisReaderSetError_fed [simp]: "redisReaderSetError ty s (fed x r) = redisReaderSetError ty s r"
  by (simp add: redisReaderSetError_def fed_def)

lemma redisReaderSetError_simps [simp]:
  "r_err (redisReaderSetError ty s r) = Some ty" "r_stack (redisReaderSetError ty s r) = []"
  "r_buf (redisReaderSetError ty s r) = []"
  by (simp_all add: redisReaderSetError_def)

lemma createObject_fed: "createObject x (fed y r) = and_then (createObject x r) (\<lambda>r. Inr (fed y r))"
  by (cases "attach (task_path (r_stack r)) x (r_reply r)") (simp_all add: createObject_def)

lemma createStringObject_fed:
  "createStringObject ty s (fed y r) = and_then (createStringObject ty s r) (\<lambda>r. Inr (fed y r))"
  by (induction ty s r rule: createStringObject.induct) (simp_all add: createObject_fed)

lemma next_task_fed: "next_task (fed y r) = and_then (next_task r) (\<lambda>(b, r). Inr (b, fed y r))"
  by (cases "moveToNextTask (r_stack r)") (simp_all add: next_task_def)

text \<open>How the outcome for a reader determines the outcome after it is fed; waiting changes nothing.\<close>

definition stable :: "(redisReader \<Rightarrow> (bool \<times> redisReader) res) \<Rightarrow> string \<Rightarrow> redisReader \<Rightarrow> bool" where
  "stable P x r =
     (case P r of
        Inl e \<Rightarrow> P (fed x r) = Inl e
      | Inr (ok, r') \<Rightarrow>
          if ok then P (fed x r) = Inr (True, fed x r')
          else if r_err r' = None then r' = r
          else P (fed x r) = Inr (False, r'))"

lemma create_next_fed:
  "and_then (createObject ob (fed x r)) next_task = and_then (and_then (createObject ob r) next_task) (\<lambda>(b, r). Inr (b, fed x r))"
  "and_then (createStringObject ty s (fed x r)) next_task
     = and_then (and_then (createStringObject ty s r) next_task) (\<lambda>(b, r). Inr (b, fed x r))"
  by (cases "createObject ob r"; simp add: createObject_fed next_task_fed)
    (cases "createStringObject ty s r"; simp add: createStringObject_fed next_task_fed)

lemma create_next_ok:
  "and_then m next_task = Inr (b, r') \<Longrightarrow> b"
  by (auto simp: and_then_eq_Inr dest: next_task_frame)

lemma stable_done:
  assumes "P (fed x r) = and_then (P r) (\<lambda>(b, r). Inr (b, fed x r))" "\<And>b r'. P r = Inr (b, r') \<Longrightarrow> b"
  shows "stable P x r"
  using assms by (cases "P r") (auto simp: stable_def)

lemma stable_error:
  assumes "P r = Inr (False, redisReaderSetError ty s r)" "P (fed x r) = Inr (False, redisReaderSetError ty s r)"
  shows "stable P x r"
  using assms by (simp add: stable_def)

lemma stable_waits: "P r = Inr (False, r) \<Longrightarrow> r_err r = None \<Longrightarrow> stable P x r"
  by (simp add: stable_def)

lemma reader_ok_fed: "reader_ok (fed x r) \<Longrightarrow> r_pos r \<le> r_len r \<Longrightarrow> reader_ok r"
  by (simp add: reader_ok_def)

lemma r_rest_fed: "r_pos r \<le> r_len r \<Longrightarrow> r_rest (fed x r) = r_rest r @ x"
  by simp

lemma seekNewline_rest: "reader_ok r \<Longrightarrow> seekNewline (r_rest r) = str_find CRLF (r_rest r)"
  by (intro seekNewline_str_find) (auto simp: reader_ok_def)

lemma seekNewline_fed:
  assumes "reader_ok (fed x r)" "r_pos r \<le> r_len r" "seekNewline (r_rest r) = Some k"
  shows "seekNewline (r_rest (fed x r)) = Some k" "k + 2 \<le> length (r_rest r)"
  using assms seekNewline_rest [OF assms(1)] seekNewline_rest [OF reader_ok_fed [OF assms(1,2)]]
    str_find_append [of CRLF "r_rest r" k x] seekNewline_bounds [OF assms(3)]
  by simp_all

lemma readLine_fed:
  assumes "reader_ok (fed x r)" "r_pos r \<le> r_len r" "readLine r = Some (p, r1)"
  shows "readLine (fed x r) = Some (p, fed x r1)"
proof -
  obtain k where k: "seekNewline (r_rest r) = Some k" "p = take k (r_rest r)" "r1 = r\<lparr>r_pos := r_pos r + k + 2\<rparr>"
    using assms(3) by (auto simp: readLine_def split: option.splits)
  note s = seekNewline_fed [OF assms(1,2) k(1)]
  then have "take k (r_rest (fed x r)) = p" using k(2) assms(2) by simp
  then show ?thesis using s(1) k(3) by (simp add: readLine_def del: drop_append)
qed

lemma processLineItem_stable:
  assumes ok: "reader_ok (fed x r)" and le: "r_pos r \<le> r_len r"
  shows "stable (processLineItem ty) x r"
proof (cases "readLine r")
  case None
  then show ?thesis using ok by (intro stable_waits) (simp_all add: processLineItem_def reader_ok_def)
next
  case (Some pr)
  then obtain p r1 where l: "readLine r = Some (p, r1)" by (cases pr) auto
  note l' = readLine_fed [OF ok le l]
  show ?thesis
  proof (cases "ty = Some REDIS_REPLY_INTEGER \<and> string2ll p = None")
    case True
    then show ?thesis using l l' by (simp add: stable_def processLineItem_def protocol_error_def)
  next
    case False
    show ?thesis
      by (rule stable_done)
        (use l l' False in \<open>auto simp: processLineItem_def create_next_fed create_defs split: option.splits if_splits
           dest: create_next_ok\<close>)
  qed
qed

text \<open>With a buffer of less than \<open>2 ^ 31\<close> bytes no sum of lengths wraps.\<close>

lemma bulk_fits:
  assumes "reader_ok r" "seekNewline s = Some k" "string2ll t = Some len" "\<not> len < - 1" "len \<noteq> - 1"
  shows "word_of_nat (r_pos r) + bulk_item_len k len \<le> word_of_nat (r_len r)
     \<longleftrightarrow> k + 2 + (nat len + 2) \<le> length (r_rest r)"
proof -
  have k: "k < 2 ^ 31" using seekNewline_int assms(2) .
  have len: "len < 2 ^ 63" using string2ll_range [OF assms(3)] by simp
  have p: "r_pos r \<le> r_len r" "r_len r < 2 ^ 31" using assms(1) by (simp_all add: reader_ok_def)
  have b: "unat (bulk_item_len k len) = k + 2 + (nat len + 2)" using bulk_lens(2) [OF assms(2-5)] .
  have "nat len < 2 ^ 63" using len by simp
  then have "unat (word_of_nat (r_pos r) + bulk_item_len k len) = r_pos r + (k + 2 + (nat len + 2))"
    using p k b by (subst unat_add_small) (simp_all add: unat_word_of_nat)
  moreover have "unat (word_of_nat (r_len r) :: u64) = r_len r" using p by (simp add: unat_word_of_nat)
  ultimately show ?thesis using p by (simp add: word_le_nat_alt) linarith
qed

lemma processBulkItem_eq:
  assumes "reader_ok r"
  shows "processBulkItem r =
     (case seekNewline (r_rest r) of
        None \<Rightarrow> Inr (False, r)
      | Some k \<Rightarrow>
          (case string2ll (take k (r_rest r)) of
             None \<Rightarrow> protocol_error ''Bad bulk string length'' r
           | Some len \<Rightarrow>
               if len < - 1 then protocol_error ''Bulk string length out of range'' r
               else if len = - 1 then and_then (createNilObject (r\<lparr>r_pos := r_pos r + (k + 2)\<rparr>)) next_task
               else if k + 2 + (nat len + 2) \<le> length (r_rest r) then
                 and_then (createStringObject (Some REDIS_REPLY_STRING) (take (nat len) (drop (k + 2) (r_rest r)))
                   (r\<lparr>r_pos := r_pos r + (k + 2 + (nat len + 2))\<rparr>)) next_task
               else Inr (False, r)))"
proof (cases "seekNewline (r_rest r)")
  case None
  then show ?thesis by (simp add: processBulkItem_def)
next
  case k: (Some k)
  show ?thesis
  proof (cases "string2ll (take k (r_rest r))")
    case None
    then show ?thesis using k by (simp add: processBulkItem_def)
  next
    case (Some len)
    show ?thesis
    proof (cases "len < - 1 \<or> len = - 1")
      case True
      then show ?thesis using k Some bulk_lens(1) [OF k] by (auto simp: processBulkItem_def)
    next
      case False
      then show ?thesis using k Some bulk_lens(2) [OF k Some] bulk_fits [OF assms k Some]
        by (simp add: processBulkItem_def)
    qed
  qed
qed

lemma processBulkItem_stable:
  assumes ok: "reader_ok (fed x r)" and le: "r_pos r \<le> r_len r"
  shows "stable processBulkItem x r"
proof (cases "seekNewline (r_rest r)")
  case None
  then show ?thesis using ok by (intro stable_waits) (simp_all add: processBulkItem_def reader_ok_def)
next
  case k: (Some k)
  note k' = seekNewline_fed [OF ok le k]
  note eq = processBulkItem_eq [OF ok] processBulkItem_eq [OF reader_ok_fed [OF ok le]]
  have t: "take k (r_rest (fed x r)) = take k (r_rest r)" using k'(2) le by simp
  show ?thesis
  proof (cases "string2ll (take k (r_rest r))")
    case None
    then show ?thesis using k k'(1) t by (simp add: stable_def eq protocol_error_def del: drop_append)
  next
    case len: (Some len)
    show ?thesis
    proof (cases "len < - 1 \<or> len = - 1")
      case True
      show ?thesis
      proof (cases "len = - 1")
        case True
        show ?thesis by (rule stable_done)
          (use k k'(1) t len True in \<open>auto simp: eq create_next_fed create_defs simp del: drop_append dest: create_next_ok\<close>)
      next
        case False
        then show ?thesis using k k'(1) t len True by (simp add: stable_def eq protocol_error_def del: drop_append)
      qed
    next
      case False
      show ?thesis
      proof (cases "k + 2 + (nat len + 2) \<le> length (r_rest r)")
        case fits: True
        then have "take (nat len) (drop (k + 2) (r_rest (fed x r))) = take (nat len) (drop (k + 2) (r_rest r))"
          and "k + 2 + (nat len + 2) \<le> length (r_rest (fed x r))"
          using le by simp_all
        then show ?thesis
          by (intro stable_done)
            (use k k'(1) t len False fits in \<open>auto simp: eq create_next_fed simp del: drop_append dest: create_next_ok\<close>)
      next
        case short: False
        then show ?thesis using k len False ok by (intro stable_waits) (simp_all add: eq reader_ok_def)
      qed
    qed
  qed
qed

lemma push_task_fed: "push_task n (fed x r) = fed x (push_task n r)"
  by (simp add: push_task_def split: list.splits)

lemma processMultiBulkItem_stable:
  assumes ok: "reader_ok (fed x r)" and le: "r_pos r \<le> r_len r"
  shows "stable processMultiBulkItem x r"
proof (cases "length (r_stack r) = 9")
  case True
  then show ?thesis by (simp add: stable_def processMultiBulkItem_def protocol_error_def)
next
  case n: False
  show ?thesis
  proof (cases "readLine r")
    case None
    then show ?thesis using n ok by (intro stable_waits) (simp_all add: processMultiBulkItem_def reader_ok_def)
  next
    case (Some pr)
    then obtain p r1 where l: "readLine r = Some (p, r1)" by (cases pr) auto
    note l' = readLine_fed [OF ok le l]
    show ?thesis
    proof (cases "string2ll p")
      case None
      then show ?thesis using n l l' by (simp add: stable_def processMultiBulkItem_def protocol_error_def)
    next
      case e: (Some e)
      show ?thesis
      proof (cases "e < - 1 \<or> e > 2 ^ 31 - 1")
        case True
        then show ?thesis using n l l' e by (auto simp: stable_def processMultiBulkItem_def protocol_error_def)
      next
        case False
        show ?thesis
        proof (cases "e > 0")
          case True
          then show ?thesis using n l l' e False
            by (cases "createObject (OArray (replicate (nat e) None)) r1")
              (simp_all add: stable_def processMultiBulkItem_def create_defs createObject_fed push_task_fed)
        next
          case z: False
          show ?thesis by (rule stable_done)
            (use n l l' e False z in \<open>auto simp: processMultiBulkItem_def create_defs create_next_fed
               split: if_splits dest: create_next_ok\<close>)
        qed
      qed
    qed
  qed
qed

lemma processTyped_stable:
  assumes "reader_ok (fed x r)" "r_pos r \<le> r_len r"
  shows "stable processTyped x r"
proof (cases "r_stack r")
  case Nil
  then show ?thesis by (simp add: stable_def processTyped_def)
next
  case (Cons cur ts)
  have same: "stable processTyped x r"
    if "stable P x r" "\<And>r. r_stack r = cur # ts \<Longrightarrow> processTyped r = P r" for P
    using that(1) unfolding stable_def that(2) [OF Cons] that(2) [of "fed x r", simplified, OF Cons] .
  show ?thesis
  proof (cases "t_type cur")
    case None
    then show ?thesis using Cons by (simp add: stable_def processTyped_def)
  next
    case (Some ty)
    note line = processLineItem_stable [OF assms, of "Some ty"]
    show ?thesis
    proof (cases ty)
      case REDIS_REPLY_STRING
      then show ?thesis using Some by (intro same [OF processBulkItem_stable [OF assms]]) (simp add: processTyped_def)
    next
      case REDIS_REPLY_ARRAY
      then show ?thesis using Some by (intro same [OF processMultiBulkItem_stable [OF assms]]) (simp add: processTyped_def)
    next
      case REDIS_REPLY_NIL
      then show ?thesis using Some Cons by (simp add: stable_def processTyped_def)
    qed (use Some in \<open>intro same [OF line]; simp add: processTyped_def\<close>)+
  qed
qed

lemma stable_cases:
  assumes "stable P x r"
  obtains (fail) e where "P r = Inl e" "P (fed x r) = Inl e"
    | (finished) r' where "P r = Inr (True, r')" "P (fed x r) = Inr (True, fed x r')"
    | (wait) "P r = Inr (False, r)" "r_err r = None"
    | (error) r' y where "P r = Inr (False, r')" "r_err r' = Some y" "P (fed x r) = Inr (False, r')"
  using assms by (cases "P r") (auto simp: stable_def split: if_splits)

text \<open>An item: the type byte may already be consumed when the rest is not there yet.\<close>

lemma processItem_fed:
  assumes ok: "reader_ok (fed x r)" and le: "r_pos r \<le> r_len r"
  shows "case processItem r of
      Inl e \<Rightarrow> processItem (fed x r) = Inl e
    | Inr (b, r') \<Rightarrow>
        if b then processItem (fed x r) = Inr (True, fed x r')
        else if r_err r' = None then
          processItem (fed x r) = processItem (fed x r') \<and> reader_ok (fed x r') \<and> r_pos r' \<le> r_len r' \<and> r_stack r' \<noteq> []
            \<and> r_buf r' = r_buf r
        else processItem (fed x r) = Inr (False, r')"
proof (cases "r_stack r")
  case Nil
  then show ?thesis by (simp add: processItem_def)
next
  case stk: (Cons cur ts)
  show ?thesis
  proof (cases "t_type cur")
    case (Some ty)
    then have "processItem r = processTyped r" "processItem (fed x r) = processTyped (fed x r)"
      using stk by (simp_all add: processItem_def)
    then show ?thesis using ok le stk by (cases rule: stable_cases [OF processTyped_stable [OF ok le]]) simp_all
  next
    case None
    show ?thesis
    proof (cases "r_rest r = []")
      case True
      then show ?thesis using stk None ok le by (simp add: processItem_def readBytes_def reader_ok_def)
    next
      case False
      then obtain c cs where rest: "r_rest r = c # cs" by (cases "r_rest r") auto
      define r1 where "r1 = r\<lparr>r_pos := r_pos r + 1\<rparr>"
      have "take 1 (r_rest r) = [c]" "take 1 (r_rest (fed x r)) = [c]"
        using r_rest_fed [OF le, of x] unfolding rest by (simp_all del: drop_append)
      then have b: "readBytes 1 r = Some ([c], r1)" "readBytes 1 (fed x r) = Some ([c], fed x r1)"
        using False le by (simp_all add: readBytes_def r1_def del: drop_append)
      show ?thesis
      proof (cases "type_of_byte c")
        case None
        then show ?thesis using stk b \<open>t_type cur = None\<close>
          by (simp add: processItem_def redisReaderSetErrorProtocolByte_def)
      next
        case (Some ty)
        define r2 where "r2 = r1\<lparr>r_stack := cur\<lparr>t_type := Some ty\<rparr> # ts\<rparr>"
        have e: "processItem r = processTyped r2" "processItem (fed x r) = processTyped (fed x r2)"
          using stk b Some \<open>t_type cur = None\<close> by (simp_all add: processItem_def r2_def)
        have again: "processItem (fed x r2) = processTyped (fed x r2)" by (simp add: processItem_def r2_def)
        have r2: "reader_ok (fed x r2)" "r_pos r2 \<le> r_len r2" "r_stack r2 \<noteq> []" "r_buf r2 = r_buf r"
          using ok le False by (auto simp: r2_def r1_def reader_ok_def)
        show ?thesis by (cases rule: stable_cases [OF processTyped_stable [OF r2(1,2)]])
          (use e again r2 in simp_all)
      qed
    qed
  qed
qed

lemma readLine_ok: "reader_ok r \<Longrightarrow> readLine r = Some (p, r') \<Longrightarrow> reader_ok r'"
  using seekNewline_bounds [of "r_rest r"] by (auto simp: readLine_def reader_ok_def split: option.splits)

lemma create_ok:
  "createObject ob r = Inr r' \<Longrightarrow> reader_ok r' = reader_ok r"
  "createStringObject ty s r = Inr r' \<Longrightarrow> reader_ok r' = reader_ok r"
  "next_task r = Inr (b, r') \<Longrightarrow> reader_ok r' = reader_ok r"
  by (auto simp: reader_ok_def dest!: create_frames)

lemma push_task_ok [simp]: "reader_ok (push_task n r) = reader_ok r"
  by (simp add: reader_ok_def)

lemma processTyped_ok:
  assumes "reader_ok r" "processTyped r = Inr (True, r')"
  shows "reader_ok r'"
proof -
  have "reader_ok r'" if "processLineItem ty r = Inr (True, r')" for ty
    using that readLine_ok [OF assms(1)]
    by (auto simp: processLineItem_def protocol_error_def and_then_eq_Inr create_defs create_ok
        split: option.splits if_splits)
  moreover have "reader_ok r'" if "processMultiBulkItem r = Inr (True, r')"
    using that readLine_ok [OF assms(1)]
    by (auto simp: processMultiBulkItem_def protocol_error_def and_then_eq_Inr create_defs create_ok
        split: option.splits if_splits)
  moreover have "reader_ok r'" if "processBulkItem r = Inr (True, r')"
    using that assms(1) seekNewline_bounds [of "r_rest r"]
    by (auto simp: processBulkItem_eq protocol_error_def and_then_eq_Inr create_defs reader_ok_def
        split: option.splits if_splits dest!: create_frames)
  ultimately show ?thesis
    using assms(2) by (auto simp: processTyped_def split: list.splits option.splits reply_type.splits)
qed

lemma processItem_ok:
  assumes "reader_ok r" "processItem r = Inr (True, r')"
  shows "reader_ok r'"
proof -
  obtain cur ts where stk: "r_stack r = cur # ts" using assms(2) by (cases "r_stack r") (simp_all add: processItem_def)
  show ?thesis
  proof (cases "t_type cur")
    case None
    then obtain p r1 where p: "readBytes 1 r = Some (p, r1)"
        "processTyped (r1\<lparr>r_stack := cur\<lparr>t_type := type_of_byte (hd p)\<rparr> # ts\<rparr>) = Inr (True, r')"
      using assms(2) stk by (auto simp: processItem_def split: option.splits)
    have "reader_ok (r1\<lparr>r_stack := cur\<lparr>t_type := type_of_byte (hd p)\<rparr> # ts\<rparr>)"
      using p(1) assms(1) by (auto simp: readBytes_def reader_ok_def split: if_splits)
    then show ?thesis using processTyped_ok p(2) by blast
  next
    case (Some ty)
    then show ?thesis using assms stk processTyped_ok by (simp add: processItem_def)
  qed
qed

lemma process_items_fed:
  assumes "reader_ok (fed x r)" "r_pos r \<le> r_len r"
  shows "case process_items r of
      Inl e \<Rightarrow> process_items (fed x r) = Inl e
    | Inr r' \<Rightarrow>
        if r_err r' \<noteq> None then process_items (fed x r) = Inr r'
        else process_items (fed x r) = process_items (fed x r') \<and> reader_ok (fed x r') \<and> r_pos r' \<le> r_len r'
          \<and> r_buf r' = r_buf r"
  using assms
proof (induction r rule: process_items.induct)
  case (1 r)
  show ?case
  proof (cases "r_stack r = []")
    case True
    then show ?thesis using 1(2,3) by (simp add: process_items.simps [of r] reader_ok_def)
  next
    case stk: False
    note item = processItem_fed [OF 1(2,3)]
    show ?thesis
    proof (cases "processItem r")
      case (Inl e)
      then show ?thesis using stk item by (simp add: process_items.simps)
    next
      case (Inr br)
      obtain b r1 where br: "br = (b, r1)" by (cases br)
      show ?thesis
      proof (cases b)
        case True
        have f: "processItem (fed x r) = Inr (True, fed x r1)" using item Inr br True by simp
        have k: "r_buf r1 = r_buf r" using processItem_progress [of r r1] Inr br True by (simp add: progress_def)
        have ok: "reader_ok (fed x r1)" using processItem_ok [OF 1(2) f] .
        have le: "r_pos r1 \<le> r_len r1"
          using processItem_ok [OF reader_ok_fed [OF 1(2,3)], of r1] Inr br True by (simp add: reader_ok_def)
        have "process_items r = process_items r1" "process_items (fed x r) = process_items (fed x r1)"
          using stk Inr br True f by (simp_all add: process_items.simps [of r] process_items.simps [of "fed x r"])
        then show ?thesis using 1(1) [OF stk Inr br [symmetric] True ok le] by (simp only: k)
      next
        case False
        then have r: "process_items r = Inr r1" using stk Inr br by (simp add: process_items.simps [of r])
        show ?thesis
        proof (cases "r_err r1")
          case None
          then show ?thesis using item Inr br False r stk
            by (auto simp: process_items.simps [of "fed x r"] process_items.simps [of "fed x r1"])
        next
          case (Some y)
          then show ?thesis using item Inr br False r stk by (simp add: process_items.simps [of "fed x r"])
        qed
      qed
    qed
  qed
qed

section \<open>Consumed bytes do not matter\<close>

text \<open>Readers that differ only in the bytes already consumed behave alike.\<close>

definition eqv :: "redisReader \<Rightarrow> redisReader \<Rightarrow> bool" where
  "eqv r s \<longleftrightarrow> r_rest r = r_rest s \<and> r_stack r = r_stack s \<and> r_reply r = r_reply s
     \<and> r_err r = r_err s \<and> r_errstr r = r_errstr s"

abbreviation same_result :: "(bool \<times> redisReader) res \<Rightarrow> (bool \<times> redisReader) res \<Rightarrow> bool" where
  "same_result \<equiv> rel_sum (=) (rel_prod (=) eqv)"

lemma and_then_rel:
  assumes "rel_sum (=) A m n" "\<And>a b. A a b \<Longrightarrow> rel_sum (=) B (f a) (g b)"
  shows "rel_sum (=) B (and_then m f) (and_then n g)"
  using assms by (cases m; cases n) auto

lemma eqv_refl [simp]: "eqv r r"
  by (simp add: eqv_def)

lemma eqv_moved: "eqv r s \<Longrightarrow> eqv (r\<lparr>r_pos := r_pos r + n\<rparr>) (s\<lparr>r_pos := r_pos s + n\<rparr>)"
  by (simp add: eqv_def drop_drop [symmetric] add.commute del: drop_drop)

lemma createObject_eqv: "eqv r s \<Longrightarrow> rel_sum (=) eqv (createObject ob r) (createObject ob s)"
  by (cases "attach (task_path (r_stack s)) ob (r_reply s)") (simp_all add: eqv_def createObject_def)

lemma createStringObject_eqv:
  "eqv r s \<Longrightarrow> rel_sum (=) eqv (createStringObject ty x r) (createStringObject ty x s)"
  by (induction ty x r rule: createStringObject.induct) (simp_all add: createObject_eqv)

lemma next_task_eqv: "eqv r s \<Longrightarrow> same_result (next_task r) (next_task s)"
  by (cases "moveToNextTask (r_stack s)") (simp_all add: eqv_def next_task_def)

lemma protocol_error_eqv: "eqv r s \<Longrightarrow> same_result (protocol_error str r) (protocol_error str s)"
  by (simp add: eqv_def protocol_error_def redisReaderSetError_def)

lemma push_task_eqv: "eqv r s \<Longrightarrow> eqv (push_task n r) (push_task n s)"
  by (auto simp: eqv_def push_task_def split: list.splits)

lemmas create_next_eqv = and_then_rel [OF createObject_eqv next_task_eqv]
  and_then_rel [OF createStringObject_eqv next_task_eqv]

lemma readLine_eqv:
  assumes "eqv r s"
  shows "rel_option (rel_prod (=) eqv) (readLine r) (readLine s)"
proof (cases "seekNewline (r_rest s)")
  case None
  then show ?thesis using assms by (simp add: readLine_def eqv_def)
next
  case (Some k)
  then show ?thesis using assms eqv_moved [OF assms, of "k + 2"] by (simp add: readLine_def eqv_def add.assoc [symmetric])
qed

lemma processLineItem_eqv: "eqv r s \<Longrightarrow> same_result (processLineItem ty r) (processLineItem ty s)"
  by (frule readLine_eqv, cases "readLine r"; cases "readLine s")
    (auto simp: processLineItem_def create_defs split: option.splits
      intro: create_next_eqv protocol_error_eqv)

lemma processMultiBulkItem_eqv:
  assumes "eqv r s"
  shows "same_result (processMultiBulkItem r) (processMultiBulkItem s)"
proof (cases "length (r_stack r) = 9")
  case True
  then show ?thesis using assms protocol_error_eqv [OF assms] by (simp add: processMultiBulkItem_def eqv_def)
next
  case False
  have stk: "r_stack s = r_stack r" using assms by (simp add: eqv_def)
  have arr: "same_result (and_then (createObject ob r1) (\<lambda>r. if b then Inr (True, push_task e r) else next_task r))
      (and_then (createObject ob s1) (\<lambda>r. if b then Inr (True, push_task e r) else next_task r))"
    if "eqv r1 s1" for r1 s1 ob b e
    by (rule and_then_rel [OF createObject_eqv [OF that]]) (simp add: next_task_eqv push_task_eqv)
  show ?thesis using False stk readLine_eqv [OF assms] assms
    by (cases "readLine r"; cases "readLine s")
      (auto simp: processMultiBulkItem_def create_defs split: option.splits intro: create_next_eqv protocol_error_eqv arr)
qed

lemma processBulkItem_eqv:
  assumes "reader_ok r" "reader_ok s" "eqv r s"
  shows "same_result (processBulkItem r) (processBulkItem s)"
proof -
  have rest: "r_rest r = r_rest s" using assms(3) by (simp add: eqv_def)
  have nil: "same_result (and_then (createNilObject (r\<lparr>r_pos := r_pos r + n\<rparr>)) next_task)
      (and_then (createNilObject (s\<lparr>r_pos := r_pos s + n\<rparr>)) next_task)" for n
    unfolding create_defs by (intro create_next_eqv eqv_moved assms(3))
  have str: "same_result (and_then (createStringObject ty x (r\<lparr>r_pos := r_pos r + n\<rparr>)) next_task)
      (and_then (createStringObject ty x (s\<lparr>r_pos := r_pos s + n\<rparr>)) next_task)" for ty x n
    by (intro create_next_eqv eqv_moved assms(3))
  show ?thesis unfolding processBulkItem_eq [OF assms(1)] processBulkItem_eq [OF assms(2)] rest
    using assms(3) nil str protocol_error_eqv [OF assms(3)]
    by (simp del: add_2_eq_Suc add_2_eq_Suc' createStringObject.simps split: option.split)
qed

lemma processTyped_eqv:
  assumes "reader_ok r" "reader_ok s" "eqv r s"
  shows "same_result (processTyped r) (processTyped s)"
proof -
  have "r_stack r = r_stack s" using assms(3) by (simp add: eqv_def)
  then show ?thesis
    using processLineItem_eqv [OF assms(3)] processBulkItem_eqv [OF assms] processMultiBulkItem_eqv [OF assms(3)]
    by (simp add: processTyped_def split: list.splits option.splits reply_type.splits)
qed

lemma processItem_eqv:
  assumes "reader_ok r" "reader_ok s" "eqv r s"
  shows "same_result (processItem r) (processItem s)"
proof (cases "r_stack r")
  case Nil
  then show ?thesis using assms(3) by (simp add: processItem_def eqv_def)
next
  case (Cons cur ts)
  have stk: "r_stack s = cur # ts" and rest: "r_rest r = r_rest s" using assms(3) Cons by (simp_all add: eqv_def)
  show ?thesis
  proof (cases "t_type cur")
    case (Some ty)
    then show ?thesis using processTyped_eqv [OF assms] Cons stk by (simp add: processItem_def)
  next
    case None
    have len: "r_len r - r_pos r = r_len s - r_pos s" using rest by (metis length_drop)
    show ?thesis
    proof (cases "1 \<le> r_len s - r_pos s")
      case False
      then show ?thesis using len Cons stk None assms(3) by (simp add: processItem_def readBytes_def)
    next
      case True
      define c where "c = hd (take 1 (r_rest s))"
      let ?u = "\<lambda>r. r\<lparr>r_pos := r_pos r + 1, r_stack := cur\<lparr>t_type := type_of_byte c\<rparr> # ts\<rparr>"
      have ok: "reader_ok (?u r)" "reader_ok (?u s)" using assms(1,2) True len by (auto simp: reader_ok_def)
      have "eqv (?u r) (?u s)" using eqv_moved [OF assms(3), of 1] by (simp add: eqv_def)
      then show ?thesis using processTyped_eqv [OF ok] True len Cons stk None rest
        by (cases "type_of_byte c") (simp_all add: processItem_def readBytes_def c_def
            redisReaderSetErrorProtocolByte_def redisReaderSetError_def eqv_def)
    qed
  qed
qed

lemma process_items_eqv:
  assumes "reader_ok r" "reader_ok s" "eqv r s"
  shows "rel_sum (=) eqv (process_items r) (process_items s)"
  using assms
proof (induction r arbitrary: s rule: process_items.induct)
  case (1 r)
  have stk: "r_stack s = r_stack r" using 1(4) by (simp add: eqv_def)
  show ?case
  proof (cases "r_stack r = []")
    case True
    then show ?thesis using stk 1(4) by (simp add: process_items.simps [of r] process_items.simps [of s])
  next
    case False
    note item = processItem_eqv [OF 1(2-4)]
    show ?thesis
    proof (cases "processItem r")
      case (Inl e)
      then have "processItem s = Inl e" using item by (cases "processItem s") auto
      then show ?thesis using Inl False stk by (simp add: process_items.simps [of r] process_items.simps [of s])
    next
      case (Inr br)
      obtain b r1 where br: "br = (b, r1)" by (cases br)
      then obtain s1 where s1: "processItem s = Inr (b, s1)" "eqv r1 s1"
        using item Inr by (cases "processItem s") (auto simp: rel_prod_sel)
      show ?thesis
      proof (cases b)
        case True
        have ok: "reader_ok r1" "reader_ok s1"
          using processItem_ok [OF 1(2), of r1] processItem_ok [OF 1(3), of s1] Inr br s1(1) True by simp_all
        then show ?thesis using 1(1) [OF False Inr br [symmetric] True ok s1(2)] Inr br s1(1) True False stk
          by (simp add: process_items.simps [of r] process_items.simps [of s])
      next
        case wait: False
        then show ?thesis using Inr br s1 False stk
          by (simp add: process_items.simps [of r] process_items.simps [of s])
      qed
    qed
  qed
qed

lemma discard_simps [simp]:
  "r_stack (discard r) = r_stack r" "r_reply (discard r) = r_reply r" "r_err (discard r) = r_err r"
  "r_rest (discard r) = r_rest r" "r_errstr (discard r) = r_errstr r"
  by (simp_all add: discard_def)

lemma first_task_fed: "first_task (fed x r) = fed x (first_task r)"
  by (simp add: first_task_def)

lemma first_task_simps [simp]:
  "r_buf (first_task r) = r_buf r" "r_pos (first_task r) = r_pos r" "r_stack (first_task r) \<noteq> []"
  "r_err (first_task r) = r_err r" "reader_ok (first_task r) = reader_ok r"
  by (simp_all add: first_task_def reader_ok_def)

lemma first_task_id: "r_stack r \<noteq> [] \<Longrightarrow> first_task r = r"
  by (simp add: first_task_def)

lemma eqv_fed: "eqv r s \<Longrightarrow> r_pos r \<le> r_len r \<Longrightarrow> r_pos s \<le> r_len s \<Longrightarrow> eqv (fed x r) (fed x s)"
  by (simp add: eqv_def)

lemma emit_reply_eqv: "eqv r s \<Longrightarrow> rel_sum (=) (rel_prod (=) (rel_prod (=) eqv)) (emit_reply r) (emit_reply s)"
  by (auto simp: emit_reply_def Let_def eqv_def discard_def)

text \<open>A finished item has set the reply.\<close>

lemma create_reply:
  "createObject ob r = Inr r' \<Longrightarrow> r_reply r' \<noteq> None"
  "createStringObject ty s r = Inr r' \<Longrightarrow> r_reply r' \<noteq> None"
  "next_task r = Inr (b, r') \<Longrightarrow> r_reply r' = r_reply r"
  "r_reply (push_task n r) = r_reply r"
  by (auto simp: createObject_def next_task_def and_then_eq_Inr push_task_def split: list.splits)
    (induction ty s r rule: createStringObject.induct; auto simp: createObject_def and_then_eq_Inr)

lemma processItem_reply:
  assumes "processItem r = Inr (True, r')"
  shows "r_reply r' \<noteq> None"
proof -
  have typed: "r_reply r' \<noteq> None" if "processTyped r = Inr (True, r')" for r
    using that create_reply
    by (fastforce simp: processTyped_def processLineItem_def processBulkItem_def processMultiBulkItem_def
        protocol_error_def and_then_eq_Inr create_defs split: list.splits option.splits reply_type.splits if_splits)
  show ?thesis using assms typed by (auto simp: processItem_def split: list.splits option.splits if_splits)
qed

lemma fed_Nil [simp]: "fed [] r = r"
  by (simp add: fed_def)

lemma process_items_reply:
  assumes "reader_ok r" "process_items r = Inr r'" "r_stack r \<noteq> []" "r_stack r' = []" "r_err r' = None"
  shows "r_reply r' \<noteq> None"
  using assms
proof (induction r rule: process_items.induct)
  case (1 r)
  have le: "r_pos r \<le> r_len r" using 1(2) by (simp add: reader_ok_def)
  obtain b r1 where item: "processItem r = Inr (b, r1)"
    using 1(3,4) by (cases "processItem r") (auto simp: process_items.simps [of r])
  show ?case
  proof (cases b)
    case False
    then have "r' = r1" using 1(3,4) item by (simp add: process_items.simps [of r])
    then show ?thesis using processItem_fed [of "[]" r] item False 1(2,5,6) le by simp
  next
    case True
    then have run: "process_items r1 = Inr r'" using 1(3,4) item by (simp add: process_items.simps [of r])
    have ok: "reader_ok r1" using processItem_ok [OF 1(2)] item True by simp
    show ?thesis
    proof (cases "r_stack r1 = []")
      case empty: True
      then have "r' = r1" using run by (simp add: process_items.simps [of r1])
      then show ?thesis using processItem_reply [of r r1] item True by simp
    next
      case False
      then show ?thesis using 1(1) [OF 1(4) item refl True ok run] 1(5,6) by blast
    qed
  qed
qed

lemma discard_eqv: "eqv (discard r) r"
  by (simp add: eqv_def)

lemma discard_pos: "r_pos r \<le> r_len r \<Longrightarrow> r_pos (discard r) \<le> r_len (discard r) \<and> r_len (discard r) \<le> r_len r"
  by (simp add: discard_def)

lemma GetReply_cases:
  assumes "reader_ok r" "r_buf r \<noteq> []" "redisReaderGetReply r = Inr (b, rep, r1)"
  obtains r' where "process_items (first_task r) = Inr r'"
    "b = (r_err r' = None)" "rep = (if b \<and> r_stack r' = [] then r_reply r' else None)"
    "rep = None \<longleftrightarrow> \<not> b \<or> r_stack r' \<noteq> []"
    "r1 = (if b then if r_stack r' = [] then (discard r')\<lparr>r_reply := None\<rparr> else discard r' else r')"
proof -
  obtain r' where r': "process_items (first_task r) = Inr r'" "emit_reply r' = Inr (b, rep, r1)"
    using assms by (auto simp: redisReaderGetReply_def reader_ok_def and_then_eq_Inr)
  have "r_stack r' = [] \<longrightarrow> r_err r' = None \<longrightarrow> r_reply r' \<noteq> None"
    using process_items_reply [OF _ r'(1)] assms(1) by simp
  with r' show thesis by (intro that [of r']) (auto simp: emit_reply_def Let_def split: if_splits)
qed

lemma result_refl [simp]: "rel_sum (=) (rel_prod (=) (rel_prod (=) eqv)) m m"
  by (intro sum.rel_refl prod.rel_refl) simp_all

lemma GetReply_waits:
  assumes ok: "reader_ok (fed (x @ y) r)" "r_pos r \<le> r_len r"
    and g: "redisReaderGetReply (fed x r) = Inr (True, None, r1)"
  shows "rel_sum (=) (rel_prod (=) (rel_prod (=) eqv))
      (redisReaderGetReply (fed y r1)) (redisReaderGetReply (fed (x @ y) r))"
proof (cases "r_buf (fed x r) = []")
  case True
  then have "r1 = fed x r" using g ok(1) by (simp add: redisReaderGetReply_def reader_ok_def)
  then show ?thesis by simp
next
  case False
  have okx: "reader_ok (fed x r)" using ok by (simp add: reader_ok_def)
  obtain r' where r': "process_items (first_task (fed x r)) = Inr r'" "r_err r' = None" "r_stack r' \<noteq> []" "r1 = discard r'"
    by (rule GetReply_cases [OF okx False g]) auto
  have yr: "reader_ok (fed y (first_task (fed x r)))" "r_pos (first_task (fed x r)) \<le> r_len (first_task (fed x r))"
    using ok by (simp_all add: reader_ok_def)
  have fed: "process_items (first_task (fed (x @ y) r)) = process_items (fed y r')" "reader_ok (fed y r')" "r_pos r' \<le> r_len r'"
    using process_items_fed [OF yr] r'(1,2) first_task_fed [of y "fed x r"] by auto
  have rhs: "redisReaderGetReply (fed (x @ y) r) = and_then (process_items (fed y r')) emit_reply"
    using False ok(1) fed(1) by (auto simp: redisReaderGetReply_def reader_ok_def)
  have okd: "reader_ok (fed y (discard r'))" using fed(2,3) discard_pos [OF fed(3)] by (simp add: reader_ok_def)
  show ?thesis
  proof (cases "r_buf (fed y r1) = []")
    case True
    then have "y = []" by simp
    then have "process_items r' = Inr r'" using fed(1) r'(1) by simp
    then show ?thesis using \<open>y = []\<close> True rhs r' by (simp add: redisReaderGetReply_def emit_reply_def Let_def)
  next
    case buf: False
    have "eqv (fed y (discard r')) (fed y r')" using discard_pos [OF fed(3)] fed(3) by (intro eqv_fed discard_eqv) simp_all
    from process_items_eqv [OF okd fed(2) this] have
      "rel_sum (=) (rel_prod (=) (rel_prod (=) eqv)) (and_then (process_items (fed y (discard r'))) emit_reply)
         (and_then (process_items (fed y r')) emit_reply)"
      by (rule and_then_rel) (rule emit_reply_eqv)
    moreover have "redisReaderGetReply (fed y r1) = and_then (process_items (fed y (discard r'))) emit_reply"
      using buf r' first_task_id [of "fed y (discard r')"] by (auto simp: redisReaderGetReply_def)
    ultimately show ?thesis using rhs by simp
  qed
qed

lemma GetReply_done:
  assumes ok: "reader_ok (fed (x @ y) r)" "r_pos r \<le> r_len r"
    and g: "redisReaderGetReply (fed x r) = Inr (b, rep, r1)" "rep \<noteq> None \<or> \<not> b"
  shows "\<exists>r2. redisReaderGetReply (fed (x @ y) r) = Inr (b, rep, r2) \<and> (if b then eqv r2 (fed y r1) else r2 = r1)"
proof -
  have okx: "reader_ok (fed x r)" using ok by (simp add: reader_ok_def)
  have buf: "r_buf (fed x r) \<noteq> []" using g okx by (auto simp: redisReaderGetReply_def reader_ok_def)
  obtain r' where r': "process_items (first_task (fed x r)) = Inr r'" "b = (r_err r' = None)"
      "rep = (if b \<and> r_stack r' = [] then r_reply r' else None)" "rep = None \<longleftrightarrow> \<not> b \<or> r_stack r' \<noteq> []"
      "r1 = (if b then if r_stack r' = [] then (discard r')\<lparr>r_reply := None\<rparr> else discard r' else r')"
    by (rule GetReply_cases [OF okx buf g(1)])
  have yr: "reader_ok (fed y (first_task (fed x r)))" "r_pos (first_task (fed x r)) \<le> r_len (first_task (fed x r))"
    using ok by (simp_all add: reader_ok_def)
  note fed = process_items_fed [OF yr] first_task_fed [of y "fed x r"]
  have rhs: "redisReaderGetReply (fed (x @ y) r) = and_then (process_items (first_task (fed (x @ y) r))) emit_reply"
    using buf ok(1) by (auto simp: redisReaderGetReply_def reader_ok_def)
  show ?thesis
  proof (cases b)
    case False
    then show ?thesis using fed r' rhs by (auto simp: emit_reply_def)
  next
    case True
    then have stk: "r_stack r' = []" using g(2) r'(4) by simp
    have pos: "r_pos r' \<le> r_len r'" and run: "process_items (first_task (fed (x @ y) r)) = Inr (fed y r')"
      using fed r'(1,2) True stk by (auto simp: process_items.simps [of "fed y r'"])
    have "eqv ((discard (fed y r'))\<lparr>r_reply := None\<rparr>) (fed y ((discard r')\<lparr>r_reply := None\<rparr>))"
      using pos discard_pos [OF pos] by (auto simp: eqv_def discard_def)
    then show ?thesis using True stk r' rhs run by (simp add: emit_reply_def Let_def)
  qed
qed

section \<open>The Redis protocol\<close>

text \<open>How a server writes a reply, and which replies it can write.\<close>

fun resp_enc :: "reply \<Rightarrow> string" where
  "resp_enc (RString s) = ''$'' @ dec (length s) @ CRLF @ s @ CRLF"
| "resp_enc (RStatus s) = ''+'' @ s @ CRLF"
| "resp_enc (RError s) = ''-'' @ s @ CRLF"
| "resp_enc (RInteger i) = '':'' @ dec_int i @ CRLF"
| "resp_enc RNil = ''$-1'' @ CRLF"
| "resp_enc (RArray rs) = ''*'' @ dec (length rs) @ CRLF @ concat (map resp_enc rs)"

fun resp_wf :: "reply \<Rightarrow> bool" where
  "resp_wf (RString s) = True"
| "resp_wf (RStatus s) = (str_find CRLF s = None)"
| "resp_wf (RError s) = (str_find CRLF s = None)"
| "resp_wf (RInteger i) = (- (2 ^ 63) \<le> i \<and> i < 2 ^ 63)"
| "resp_wf RNil = True"
| "resp_wf (RArray rs) = list_all resp_wf rs"

text \<open>How deep arrays are nested.\<close>

fun nesting :: "reply \<Rightarrow> nat" where
  "nesting (RArray rs) = Suc (foldr max (map nesting rs) 0)"
| "nesting _ = 0"

fun obj_of :: "reply \<Rightarrow> robj" where
  "obj_of (RString s) = OString s"
| "obj_of (RStatus s) = OStatus s"
| "obj_of (RError s) = OError s"
| "obj_of (RInteger i) = OInteger i"
| "obj_of RNil = ONil"
| "obj_of (RArray rs) = OArray (map (\<lambda>r. Some (obj_of r)) rs)"

lemma attach_attach:
  assumes "attach is (OArray es) root = Inr o1" "0 \<le> i" "i < int (length es)"
  shows "attach (is @ [i]) x (Some o1) = attach is (OArray (es[nat i := Some x])) root"
  using assms
proof (induction "is" "OArray es" root arbitrary: o1 rule: attach.induct)
  case (2 j js ds)
  then show ?case by (auto simp: and_then_eq_Inr)
qed auto

text \<open>A line that follows the type byte.\<close>

lemma readLine_line:
  assumes "reader_ok r" "r_rest r = s @ CRLF @ t" "str_find CRLF s = None"
  shows "readLine r = Some (s, r\<lparr>r_pos := r_pos r + length s + 2\<rparr>)"
    and "seekNewline (r_rest r) = Some (length s)"
  using assms seekNewline_rest [OF assms(1)] str_find_line [OF assms(3), of t]
  by (simp_all add: readLine_def)

lemma task_path_cong: "t_idx c = t_idx d \<Longrightarrow> task_path (c # ts) = task_path (d # ts)"
  by (simp add: task_path_def)

lemma moveToNextTask_cong: "moveToNextTask (c\<lparr>t_type := a\<rparr> # ts) = moveToNextTask (c # ts)"
  "moveToNextTask (c\<lparr>t_elements := e\<rparr> # ts) = moveToNextTask (c # ts)"
  by (cases ts; simp)+

text \<open>An object is complete: it is attached and the next task begins.\<close>

definition completed :: "robj \<Rightarrow> nat \<Rightarrow> redisReader \<Rightarrow> (bool \<times> redisReader) res" where
  "completed ob n r = and_then (createObject ob (r\<lparr>r_pos := r_pos r + n\<rparr>)) next_task"

lemma completed_eq:
  "completed ob n r =
     and_then (attach (task_path (r_stack r)) ob (r_reply r)) (\<lambda>root.
       and_then (moveToNextTask (r_stack r)) (\<lambda>ts.
         Inr (True, r\<lparr>r_pos := r_pos r + n, r_reply := Some root, r_stack := ts\<rparr>)))"
  by (cases "attach (task_path (r_stack r)) ob (r_reply r)") (simp_all add: completed_def createObject_def next_task_def)

definition typed :: "reply_type \<Rightarrow> redisReader \<Rightarrow> redisReader" where
  "typed ty r = r\<lparr>r_pos := r_pos r + 1, r_stack := (hd (r_stack r))\<lparr>t_type := Some ty\<rparr> # tl (r_stack r)\<rparr>"

lemma completed_typed:
  assumes "r_stack r = cur # ts"
  shows "completed ob n (typed ty r) = completed ob (Suc n) r"
proof -
  have "task_path (cur\<lparr>t_type := Some ty\<rparr> # ts) = task_path (cur # ts)" by (rule task_path_cong) simp
  then show ?thesis using assms by (simp add: completed_eq typed_def moveToNextTask_cong)
qed

lemma processItem_typed:
  assumes "reader_ok r" "r_stack r = cur # ts" "t_type cur = None" "r_rest r = c # u" "type_of_byte c = Some ty"
  shows "processItem r = processTyped (typed ty r)" "reader_ok (typed ty r)" "r_rest (typed ty r) = u"
    "r_stack (typed ty r) = cur\<lparr>t_type := Some ty\<rparr> # ts"
proof -
  have lt: "r_pos r < r_len r" using assms(4) by (metis drop_all list.distinct(1) not_less)
  have "take 1 (r_rest r) = [c]" by (simp only: assms(4)) simp
  then have "readBytes 1 r = Some ([c], r\<lparr>r_pos := r_pos r + 1\<rparr>)" using lt by (simp add: readBytes_def)
  then show "processItem r = processTyped (typed ty r)" using assms(2,3,5) by (simp add: processItem_def typed_def)
  show "reader_ok (typed ty r)" using assms(1) lt by (simp add: reader_ok_def typed_def)
  have "drop 1 (r_rest r) = u" by (simp only: assms(4)) simp
  then show "r_rest (typed ty r) = u" by (simp add: typed_def)
  show "r_stack (typed ty r) = cur\<lparr>t_type := Some ty\<rparr> # ts" using assms(2) by (simp add: typed_def)
qed

lemma type_bytes [simp]:
  "type_of_byte (CHR ''$'') = Some REDIS_REPLY_STRING" "type_of_byte (CHR ''+'') = Some REDIS_REPLY_STATUS"
  "type_of_byte (CHR ''-'') = Some REDIS_REPLY_ERROR" "type_of_byte (CHR '':'') = Some REDIS_REPLY_INTEGER"
  "type_of_byte (CHR ''*'') = Some REDIS_REPLY_ARRAY"
  by (simp_all add: type_of_byte_def)

lemma dec_int_no_CRLF: "str_find CRLF (dec_int i) = None"
  by (rule str_find_CRLF_digits [OF dec_int_no_CR])

lemma dec_no_CRLF: "str_find CRLF (dec n) = None"
  using dec_int_no_CRLF [of "int n"] by (simp add: dec_int_def)

lemma string2ll_dec: "n < 2 ^ 63 \<Longrightarrow> string2ll (dec n) = Some (int n)"
  using string2ll_dec_int [of "int n"] by (simp add: dec_int_def)

lemma item_line:
  assumes "reader_ok r" "r_stack r = cur # ts" "t_type cur = None"
    and "r_rest r = c # s @ CRLF @ t" "str_find CRLF s = None" "type_of_byte c = Some ty"
  shows "readLine (typed ty r) = Some (s, (typed ty r)\<lparr>r_pos := r_pos (typed ty r) + length (s @ CRLF)\<rparr>)"
    "processItem r = processTyped (typed ty r)" "r_stack (typed ty r) = cur\<lparr>t_type := Some ty\<rparr> # ts"
  using processItem_typed [OF assms(1-4,6)] readLine_line(1) [OF processItem_typed(2,3) [OF assms(1-4,6)] assms(5)]
  by (simp_all add: CRLF_def)

lemma item_status:
  assumes "reader_ok r" "r_stack r = cur # ts" "t_type cur = None"
    and "r_rest r = c # s @ CRLF @ t" "str_find CRLF s = None"
    and "c = CHR ''+'' \<and> ob = OStatus s \<or> c = CHR ''-'' \<and> ob = OError s"
  shows "processItem r = completed ob (length (c # s @ CRLF)) r"
proof -
  obtain ty where ty: "type_of_byte c = Some ty" "ty = REDIS_REPLY_STATUS \<and> ob = OStatus s \<or> ty = REDIS_REPLY_ERROR \<and> ob = OError s"
    using assms(6) by auto
  note line = item_line [OF assms(1-5) ty(1)]
  have "processTyped (typed ty r) = completed ob (length (s @ CRLF)) (typed ty r)"
    using line(1,3) ty(2) by (auto simp: processTyped_def processLineItem_def completed_def)
  then show ?thesis using line(2) completed_typed [OF assms(2)] by simp
qed

lemma item_integer:
  assumes "reader_ok r" "r_stack r = cur # ts" "t_type cur = None"
    and "r_rest r = CHR '':'' # dec_int i @ CRLF @ t" "- (2 ^ 63) \<le> i" "i < 2 ^ 63"
  shows "processItem r = completed (OInteger i) (length (CHR '':'' # dec_int i @ CRLF)) r"
proof -
  note line = item_line [OF assms(1-4) dec_int_no_CRLF, of REDIS_REPLY_INTEGER]
  have "processTyped (typed REDIS_REPLY_INTEGER r) = completed (OInteger i) (length (dec_int i @ CRLF)) (typed REDIS_REPLY_INTEGER r)"
    using line(1,3) string2ll_dec_int [OF assms(5,6)]
    by (simp add: processTyped_def processLineItem_def completed_def create_defs)
  then show ?thesis using line(2) completed_typed [OF assms(2)] by simp
qed

lemma item_nil:
  assumes "reader_ok r" "r_stack r = cur # ts" "t_type cur = None" "r_rest r = ''$-1'' @ CRLF @ t"
  shows "processItem r = completed ONil (length (''$-1'' @ CRLF)) r"
proof -
  have m: "dec_int (- 1) = ''-1''" by code_simp
  have rest: "r_rest r = CHR ''$'' # ''-1'' @ CRLF @ t" using assms(4) by simp
  note ty = processItem_typed [OF assms(1-3) rest, of REDIS_REPLY_STRING]
  note line = readLine_line(2) [OF ty(2,3)]
  have "string2ll ''-1'' = Some (- 1)" using string2ll_dec_int [of "- 1"] m by simp
  then have "processTyped (typed REDIS_REPLY_STRING r) = completed ONil (length (''-1'' @ CRLF)) (typed REDIS_REPLY_STRING r)"
    using line ty dec_int_no_CRLF [of "- 1"] m
    by (simp add: processTyped_def processBulkItem_eq completed_def create_defs CRLF_def numeral_eq_Suc)
  then show ?thesis using ty(1) completed_typed [OF assms(2)] by simp
qed

lemma item_bulk:
  assumes "reader_ok r" "r_stack r = cur # ts" "t_type cur = None"
    and "r_rest r = CHR ''$'' # dec (length s) @ CRLF @ s @ CRLF @ t"
  shows "processItem r = completed (OString s) (length (CHR ''$'' # dec (length s) @ CRLF @ s @ CRLF)) r"
proof -
  note ty = processItem_typed [OF assms(1-4), of REDIS_REPLY_STRING]
  let ?r = "typed REDIS_REPLY_STRING r"
  note line = readLine_line(2) [OF ty(2,3) dec_no_CRLF]
  have "length (r_rest r) < 2 ^ 31" using assms(1) by (auto simp: reader_ok_def)
  then have "length s < 2 ^ 31" by (simp only: assms(4)) simp
  then have len: "string2ll (dec (length s)) = Some (int (length s))" by (intro string2ll_dec) simp
  have "take (length (dec (length s))) (r_rest ?r) = dec (length s)" by (simp only: ty(3) type_bytes) simp
  moreover have "take (length s) (drop (length (dec (length s)) + 2) (r_rest ?r)) = s"
    by (simp only: ty(3) type_bytes) (simp add: CRLF_def)
  moreover have "length (dec (length s)) + 2 + (length s + 2) \<le> length (r_rest ?r)"
    by (simp only: ty(3) type_bytes) (simp add: CRLF_def)
  ultimately have "processTyped ?r = completed (OString s) (length (dec (length s) @ CRLF @ s @ CRLF)) ?r"
    using line ty(2,4) len
    by (simp add: processTyped_def processBulkItem_eq completed_def CRLF_def add.assoc)
  then show ?thesis using ty(1) completed_typed [OF assms(2)] by simp
qed

definition advance :: "nat \<Rightarrow> robj \<Rightarrow> redisReadTask list \<Rightarrow> redisReader \<Rightarrow> redisReader" where
  "advance n root ts r = r\<lparr>r_pos := r_pos r + n, r_reply := Some root, r_stack := ts\<rparr>"

lemma advance_simps [simp]:
  "r_stack (advance n root ts r) = ts" "r_reply (advance n root ts r) = Some root"
  "r_buf (advance n root ts r) = r_buf r" "r_pos (advance n root ts r) = r_pos r + n"
  "r_err (advance n root ts r) = r_err r"
  "advance m root' ts' (advance n root ts r) = advance (n + m) root' ts' r"
  by (simp_all add: advance_def)

lemma item_array:
  assumes "reader_ok r" "r_stack r = cur # ts" "t_type cur = None" "length ts < 8"
    and "r_rest r = CHR ''*'' # dec n @ CRLF @ t" "n < 2 ^ 31"
    and "attach (task_path (cur # ts)) (OArray (replicate n None)) (r_reply r) = Inr root"
  shows "processItem r =
     (if n = 0 then completed (OArray []) (length (CHR ''*'' # dec n @ CRLF)) r
      else Inr (True, advance (length (CHR ''*'' # dec n @ CRLF)) root
        (newReadTask 0 # cur\<lparr>t_type := Some REDIS_REPLY_ARRAY, t_elements := int n\<rparr> # ts) r))"
proof -
  note line = item_line [OF assms(1-3,5) dec_no_CRLF, of REDIS_REPLY_ARRAY]
  let ?r = "typed REDIS_REPLY_ARRAY r"
  have num: "string2ll (dec n) = Some (int n)" using assms(6) by (intro string2ll_dec) simp
  have path: "task_path (cur\<lparr>t_type := Some REDIS_REPLY_ARRAY\<rparr> # ts) = task_path (cur # ts)" by (rule task_path_cong) simp
  show ?thesis
  proof (cases "n = 0")
    case True
    then have "processTyped ?r = completed (OArray []) (length (dec n @ CRLF)) ?r"
      using line assms(4) num by (simp add: processTyped_def processMultiBulkItem_def completed_def create_defs)
    then show ?thesis using True line(2) completed_typed [OF assms(2)] by simp
  next
    case False
    then show ?thesis using line assms(2,4,6,7) num path
      by (simp add: processTyped_def processMultiBulkItem_def create_defs createObject_def push_task_def advance_def
          typed_def)
  qed
qed

lemma attach_any: "attach is x root = Inr ob \<Longrightarrow> \<exists>ob'. attach is y root = Inr ob'"
  by (induction "is" x root arbitrary: ob rule: attach.induct) (auto simp: and_then_eq_Inr split: if_splits)

text \<open>What it means that a reply is read: the loop gets past it.\<close>

definition reads :: "reply \<Rightarrow> bool" where
  "reads v \<longleftrightarrow> (\<forall>r cur ts t root ts'.
     reader_ok r \<longrightarrow> r_stack r = cur # ts \<longrightarrow> t_type cur = None \<longrightarrow> length ts + nesting v \<le> 8 \<longrightarrow>
     r_rest r = resp_enc v @ t \<longrightarrow> attach (task_path (cur # ts)) (obj_of v) (r_reply r) = Inr root \<longrightarrow>
     moveToNextTask (cur # ts) = Inr ts' \<longrightarrow>
     process_items r = process_items (advance (length (resp_enc v)) root ts' r)
       \<and> reader_ok (advance (length (resp_enc v)) root ts' r))"

lemma completed_reads:
  assumes "processItem r = completed (obj_of v) (length (resp_enc v)) r" "reader_ok r" "r_stack r = cur # ts"
    and "attach (task_path (cur # ts)) (obj_of v) (r_reply r) = Inr root" "moveToNextTask (cur # ts) = Inr ts'"
  shows "process_items r = process_items (advance (length (resp_enc v)) root ts' r)
    \<and> reader_ok (advance (length (resp_enc v)) root ts' r)"
proof -
  have "processItem r = Inr (True, advance (length (resp_enc v)) root ts' r)"
    using assms(1,3-5) by (simp add: completed_eq advance_def)
  then show ?thesis using processItem_ok [OF assms(2)] assms(3) by (simp add: process_items.simps [of r])
qed

lemma task_path_Cons: "task_path (c # p # ts) = task_path (p # ts) @ [t_idx c]"
  by (simp add: task_path_def)

lemma list_update_replicate: "(xs @ replicate (Suc n) None)[length xs := Some y] = (xs @ [Some y]) @ replicate n None"
  by (simp add: list_update_append)

lemma elements_read:
  assumes "\<And>v. v \<in> set vs \<Longrightarrow> reads v" "\<And>v. v \<in> set vs \<Longrightarrow> Suc (length ts) + nesting v \<le> 8"
    and "vs \<noteq> []" "int (length ds + length vs) = t_elements arr" "t_type arr = Some REDIS_REPLY_ARRAY"
    and "reader_ok r" "r_stack r = c # arr # ts" "t_type c = None" "t_idx c = int (length ds)"
    and "r_rest r = concat (map resp_enc vs) @ t" "r_reply r = Some o1"
    and "attach (task_path (arr # ts)) (OArray (ds @ replicate (length vs) None)) root0 = Inr o1"
    and "attach (task_path (arr # ts)) (OArray (ds @ map (\<lambda>v. Some (obj_of v)) vs)) root0 = Inr root"
    and "moveToNextTask (arr # ts) = Inr ts'"
  shows "process_items r = process_items (advance (length (concat (map resp_enc vs))) root ts' r)
    \<and> reader_ok (advance (length (concat (map resp_enc vs))) root ts' r)"
  using assms
proof (induction vs arbitrary: r c ds o1)
  case (Cons v vs)
  let ?path = "task_path (arr # ts)" and ?n = "length (resp_enc v)"
  have "attach (?path @ [int (length ds)]) (obj_of v) (Some o1)
      = attach ?path (OArray ((ds @ [Some (obj_of v)]) @ replicate (length vs) None)) root0"
    using attach_attach [OF Cons.prems(12), of "int (length ds)" "obj_of v"] list_update_replicate [of ds "length vs"] by simp
  moreover obtain o2 where o2: "attach ?path (OArray ((ds @ [Some (obj_of v)]) @ replicate (length vs) None)) root0 = Inr o2"
    using attach_any [OF Cons.prems(12)] by blast
  ultimately have at: "attach (task_path (c # arr # ts)) (obj_of v) (r_reply r) = Inr o2"
    using Cons.prems(9,11) by (simp add: task_path_Cons)
  have rd: "reads v" "length (arr # ts) + nesting v \<le> 8" using Cons.prems(1,2) by simp_all
  have rest: "r_rest r = resp_enc v @ concat (map resp_enc vs) @ t" using Cons.prems(10) by simp
  have step: "process_items r = process_items (advance ?n o2 ts2 r) \<and> reader_ok (advance ?n o2 ts2 r)"
    if "moveToNextTask (c # arr # ts) = Inr ts2" for ts2
    using rd(1) [unfolded reads_def] Cons.prems(6-8) rd(2) rest at that by blast
  have rest2: "r_rest (advance ?n o2 ts2 r) = concat (map resp_enc vs) @ t" for ts2
  proof -
    have "drop ?n (r_rest r) = concat (map resp_enc vs) @ t" by (simp only: rest) simp
    then show ?thesis by (simp add: add.commute)
  qed
  show ?case
  proof (cases "vs = []")
    case True
    then have "moveToNextTask (c # arr # ts) = Inr ts'" using Cons.prems(4,5,9,14) by simp
    moreover have "o2 = root" using o2 Cons.prems(13) True by simp
    ultimately show ?thesis using step True by simp
  next
    case False
    let ?c = "c\<lparr>t_type := None, t_elements := - 1, t_idx := t_idx c + 1\<rparr>"
    have "0 < length vs" using False by simp
    moreover have "int (length ds) + int (length vs) + 1 = t_elements arr" using Cons.prems(4) by simp
    ultimately have "t_idx c \<noteq> t_elements arr - 1" "t_idx c < t_elements arr" using Cons.prems(9) by linarith+
    then have "moveToNextTask (c # arr # ts) = Inr (?c # arr # ts)" using Cons.prems(5) by simp
    note step = step [OF this]
    have "process_items (advance ?n o2 (?c # arr # ts) r)
        = process_items (advance (length (concat (map resp_enc vs))) root ts' (advance ?n o2 (?c # arr # ts) r))
      \<and> reader_ok (advance (length (concat (map resp_enc vs))) root ts' (advance ?n o2 (?c # arr # ts) r))"
      by (rule Cons.IH [of "ds @ [Some (obj_of v)]" _ ?c o2])
        (use Cons.prems False step rest2 o2 in simp_all)
    then show ?thesis using step by simp
  qed
qed simp

lemma nesting_element: "v \<in> set vs \<Longrightarrow> nesting v < nesting (RArray vs)"
  by (induction vs) (auto simp: less_Suc_eq_le max_def)

lemma length_concat_ge: "(\<And>v. f v \<noteq> []) \<Longrightarrow> length vs \<le> length (concat (map f vs))"
proof (induction vs)
  case (Cons v vs)
  have "0 < length (f v)" using Cons.prems by simp
  then have "Suc (length vs) \<le> length (f v) + length (concat (map f vs))" using Cons.IH [OF Cons.prems] by linarith
  then show ?case by simp
qed simp

lemma array_reads:
  assumes "\<And>v. v \<in> set vs \<Longrightarrow> reads v"
  shows "reads (RArray vs)"
  unfolding reads_def
proof (intro allI impI)
  fix r cur ts t root ts'
  assume ok: "reader_ok r" and stk: "r_stack r = cur # ts" "t_type cur = None" and nest: "length ts + nesting (RArray vs) \<le> 8"
    and rest: "r_rest r = resp_enc (RArray vs) @ t"
    and at: "attach (task_path (cur # ts)) (obj_of (RArray vs)) (r_reply r) = Inr root"
    and mv: "moveToNextTask (cur # ts) = Inr ts'"
  let ?arr = "cur\<lparr>t_type := Some REDIS_REPLY_ARRAY, t_elements := int (length vs)\<rparr>"
  let ?h = "length (CHR ''*'' # dec (length vs) @ CRLF)"
  have short: "length vs < 2 ^ 31"
  proof -
    have "resp_enc v \<noteq> []" for v by (cases v) simp_all
    then have "length vs \<le> length (concat (map resp_enc vs))" by (rule length_concat_ge)
    moreover have "length (r_rest r) < 2 ^ 31" using ok by (auto simp: reader_ok_def)
    then have "length (concat (map resp_enc vs)) < 2 ^ 31" by (simp only: rest) simp
    ultimately show ?thesis by simp
  qed
  obtain o1 where o1: "attach (task_path (cur # ts)) (OArray (replicate (length vs) None)) (r_reply r) = Inr o1"
    using attach_any [OF at] by blast
  have rest': "r_rest r = CHR ''*'' # dec (length vs) @ CRLF @ concat (map resp_enc vs) @ t" using rest by simp
  note item = item_array [OF ok stk _ rest' short o1]
  show "process_items r = process_items (advance (length (resp_enc (RArray vs))) root ts' r)
      \<and> reader_ok (advance (length (resp_enc (RArray vs))) root ts' r)"
  proof (cases "vs = []")
    case True
    then show ?thesis using item nest by (intro completed_reads [OF _ ok stk(1) at mv]) simp
  next
    case False
    let ?r = "advance ?h o1 (newReadTask 0 # ?arr # ts) r"
    have it: "processItem r = Inr (True, ?r)" using item nest False by simp
    have okr: "reader_ok ?r" using processItem_ok [OF ok it] .
    have rest2: "r_rest ?r = concat (map resp_enc vs) @ t"
    proof -
      have "drop ?h (r_rest r) = concat (map resp_enc vs) @ t" by (simp only: rest') simp
      then show ?thesis by (simp add: add.commute)
    qed
    have path: "task_path (?arr # ts) = task_path (cur # ts)" by (rule task_path_cong) simp
    have mv': "moveToNextTask (?arr # ts) = Inr ts'"
      using mv by (simp only: moveToNextTask_cong)
    have nest': "Suc (length ts) + nesting v \<le> 8" if "v \<in> set vs" for v using nesting_element [OF that] nest by linarith
    have "process_items ?r = process_items (advance (length (concat (map resp_enc vs))) root ts' ?r)
      \<and> reader_ok (advance (length (concat (map resp_enc vs))) root ts' ?r)"
      by (rule elements_read [of vs ts "[]" ?arr ?r "newReadTask 0" t o1 "r_reply r" root ts'])
        (use assms nest' False okr rest2 path o1 at mv' in \<open>simp_all add: newReadTask_def\<close>)
    then show ?thesis using it stk(1) by (simp add: process_items.simps [of r] add.assoc)
  qed
qed

lemma resp_reads: "resp_wf v \<Longrightarrow> reads v"
proof (induction v)
  case (RArray vs)
  then show ?case by (intro array_reads) (simp add: list_all_iff)
next
  case (RString s)
  show ?case unfolding reads_def
    by (intro allI impI completed_reads) (simp_all add: item_bulk)
next
  case (RStatus s)
  then show ?case unfolding reads_def
    by (intro allI impI completed_reads) (simp_all add: item_status [where s = s])
next
  case (RError s)
  then show ?case unfolding reads_def
    by (intro allI impI completed_reads) (simp_all add: item_status [where s = s])
next
  case (RInteger i)
  then show ?case unfolding reads_def
    by (intro allI impI completed_reads) (simp_all add: item_integer)
next
  case RNil
  show ?case unfolding reads_def
    by (intro allI impI completed_reads) (simp_all add: item_nil)
qed

section \<open>Replies in portions\<close>

text \<open>A reader between two replies that has consumed all its bytes.\<close>

definition idle :: "redisReader \<Rightarrow> bool" where
  "idle r \<longleftrightarrow> reader_ok r \<and> r_stack r = [] \<and> r_rest r = []"

lemma GetReply_enc:
  assumes "idle r" "resp_wf v" "nesting v \<le> 8" "r_len r + length (resp_enc v) < 2 ^ 31"
  shows "\<exists>r'. redisReaderGetReply (fed (resp_enc v) r) = Inr (True, Some (obj_of v), r') \<and> idle r' \<and> r_reply r' = None
    \<and> r_len r' \<le> r_len r + length (resp_enc v)"
proof -
  let ?r = "first_task (fed (resp_enc v) r)" and ?n = "length (resp_enc v)"
  have ne: "resp_enc v \<noteq> []" by (cases v) simp_all
  have ok: "reader_ok ?r" "r_pos r = r_len r" "r_stack r = []" "r_err r = None"
    using assms(1,4) by (auto simp: idle_def reader_ok_def)
  have stk: "r_stack ?r = [newReadTask (- 1)]" using ok(3) by (simp add: first_task_def)
  have rest: "r_rest ?r = resp_enc v @ []" using ok(2) by simp
  have at: "attach (task_path [newReadTask (- 1)]) (obj_of v) (r_reply ?r) = Inr (obj_of v)" by (simp add: task_path_def)
  have "process_items ?r = process_items (advance ?n (obj_of v) [] ?r) \<and> reader_ok (advance ?n (obj_of v) [] ?r)"
    using resp_reads [OF assms(2)] ok(1) stk rest at assms(3) unfolding reads_def by (simp add: newReadTask_def)
  then have run: "process_items ?r = Inr (advance ?n (obj_of v) [] ?r)" "reader_ok (advance ?n (obj_of v) [] ?r)"
    by (simp_all add: process_items.simps [of "advance ?n (obj_of v) [] ?r"])
  let ?d = "(discard (advance ?n (obj_of v) [] ?r))\<lparr>r_reply := None\<rparr>"
  have "redisReaderGetReply (fed (resp_enc v) r) = Inr (True, Some (obj_of v), ?d)"
    using ne ok(4) run(1) by (simp add: redisReaderGetReply_def emit_reply_def Let_def)
  moreover have "idle ?d" using run(2) ok(2) by (auto simp: idle_def reader_ok_def discard_def)
  moreover have "r_len ?d \<le> r_len r + ?n" using ok(2) by (simp add: discard_def)
  ultimately show ?thesis by (intro exI [of _ ?d]) simp
qed

lemma GetReply_keeps:
  assumes "reader_ok r" "redisReaderGetReply r = Inr (True, rep, r1)"
  shows "reader_ok r1 \<and> r_len r1 \<le> r_len r"
proof (cases "r_buf r = []")
  case True
  then show ?thesis using assms by (auto simp: redisReaderGetReply_def reader_ok_def)
next
  case False
  obtain r' where r': "process_items (first_task r) = Inr r'" "r_err r' = None"
      "r1 = (if r_stack r' = [] then (discard r')\<lparr>r_reply := None\<rparr> else discard r')"
    by (rule GetReply_cases [OF assms(1) False assms(2)]) auto
  have "r_pos (first_task r) \<le> r_len (first_task r)" "reader_ok (fed [] (first_task r))"
    using assms(1) by (simp_all add: reader_ok_def)
  from process_items_fed [OF this(2,1)] r'(1,2) have "reader_ok r'" "r_buf r' = r_buf r" by simp_all
  then show ?thesis using r'(3) discard_pos [of r'] by (auto simp: reader_ok_def)
qed

lemma GetReply_split:
  assumes ok: "reader_ok (fed (x @ y) r)" "r_pos r \<le> r_len r"
    and g: "redisReaderGetReply (fed (x @ y) r) = Inr (True, Some ob, r')" "r_rest r' = []" "y \<noteq> []"
  shows "\<exists>r1 r2. redisReaderGetReply (fed x r) = Inr (True, None, r1) \<and> reader_ok (fed y r1) \<and> r_pos r1 \<le> r_len r1
    \<and> redisReaderGetReply (fed y r1) = Inr (True, Some ob, r2) \<and> eqv r2 r'"
proof -
  have okx: "reader_ok (fed x r)" using ok by (simp add: reader_ok_def)
  have yr: "reader_ok (fed y (first_task (fed x r)))" "r_pos (first_task (fed x r)) \<le> r_len (first_task (fed x r))"
    using ok by (simp_all add: reader_ok_def)
  have full: "\<exists>r3. process_items (fed y (first_task (fed x r))) = Inr r3"
    using g(1,3) ok(1) by (auto simp: redisReaderGetReply_def reader_ok_def first_task_fed [symmetric] and_then_eq_Inr)
  then obtain r4 where r4: "process_items (first_task (fed x r)) = Inr r4"
    using process_items_fed [OF yr] by (cases "process_items (first_task (fed x r))") auto
  then have "redisReaderGetReply (fed x r) \<noteq> Inl e" for e
    by (simp add: redisReaderGetReply_def emit_reply_def Let_def)
  then obtain b rep r1 where g1: "redisReaderGetReply (fed x r) = Inr (b, rep, r1)"
    by (cases "redisReaderGetReply (fed x r)") auto
  have wait: "b \<and> rep = None"
  proof (rule ccontr)
    assume "\<not> ?thesis"
    then obtain r2 where "redisReaderGetReply (fed (x @ y) r) = Inr (b, rep, r2)" and "if b then eqv r2 (fed y r1) else r2 = r1"
      using GetReply_done [OF ok g1] by auto
    then have "eqv r' (fed y r1)" using g(1) by auto
    then have "length (r_rest (fed y r1)) = 0" using g(2) by (metis eqv_def list.size(3))
    moreover have "b" using g(1) \<open>redisReaderGetReply (fed (x @ y) r) = Inr (b, rep, r2)\<close> by simp
    then have "r_pos r1 \<le> r_len r1" using GetReply_keeps [OF okx, of rep r1] g1 by (simp add: reader_ok_def)
    ultimately show False using g(3) by (cases y) simp_all
  qed
  then have g1: "redisReaderGetReply (fed x r) = Inr (True, None, r1)" using g1 by simp
  have "reader_ok r1" "r_len r1 \<le> r_len (fed x r)" using GetReply_keeps [OF okx g1] by simp_all
  then have "reader_ok (fed y r1)" "r_pos r1 \<le> r_len r1" using ok(1) by (simp_all add: reader_ok_def)
  moreover obtain r2 where "redisReaderGetReply (fed y r1) = Inr (True, Some ob, r2)" "eqv r2 r'"
    using GetReply_waits [OF ok g1] g(1) by (cases "redisReaderGetReply (fed y r1)") (auto simp: rel_prod_sel)
  ultimately show ?thesis using g1 by blast
qed

text \<open>Feeding portions, asking for a reply after each of them.\<close>

fun feed_all :: "string list \<Rightarrow> redisReader \<Rightarrow> (robj option list \<times> redisReader) res" where
  "feed_all [] r = Inr ([], r)"
| "feed_all (c # cs) r =
     and_then (redisReaderGetReply (snd (redisReaderFeed c r))) (\<lambda>(ok, rep, r1).
       and_then (feed_all cs r1) (\<lambda>(reps, r2). Inr (rep # reps, r2)))"

lemma redisReaderFeed_fed: "r_err r = None \<Longrightarrow> redisReaderFeed c r = (True, fed c r)"
  by (simp add: redisReaderFeed_def fed_def)

lemma feed_all_reply:
  assumes "cs \<noteq> []" "[] \<notin> set cs" "reader_ok (fed (concat cs) r)" "r_pos r \<le> r_len r"
    and "redisReaderGetReply (fed (concat cs) r) = Inr (True, Some ob, r')" "r_rest r' = []"
  shows "\<exists>r2. feed_all cs r = Inr (replicate (length cs - 1) None @ [Some ob], r2) \<and> eqv r2 r'"
  using assms
proof (induction cs arbitrary: r r')
  case (Cons c cs)
  have err: "r_err r = None" using Cons.prems(3) by (simp add: reader_ok_def)
  show ?case
  proof (cases "cs = []")
    case True
    then show ?thesis using Cons.prems(5) err by (simp add: redisReaderFeed_fed)
  next
    case False
    then have ne: "concat cs \<noteq> []" using Cons.prems(2) by (cases cs) auto
    have full: "reader_ok (fed (c @ concat cs) r)" "redisReaderGetReply (fed (c @ concat cs) r) = Inr (True, Some ob, r')"
      using Cons.prems(3,5) by simp_all
    obtain r1 r2 where r1: "redisReaderGetReply (fed c r) = Inr (True, None, r1)" "reader_ok (fed (concat cs) r1)"
        "r_pos r1 \<le> r_len r1" "redisReaderGetReply (fed (concat cs) r1) = Inr (True, Some ob, r2)" "eqv r2 r'"
      using GetReply_split [OF full(1) Cons.prems(4) full(2) Cons.prems(6) ne] by blast
    have "r_rest r2 = []" using r1(5) Cons.prems(6) by (simp only: eqv_def)
    then obtain r3 where r3: "feed_all cs r1 = Inr (replicate (length cs - 1) None @ [Some ob], r3)" "eqv r3 r2"
      using Cons.IH [OF False _ r1(2-4)] Cons.prems(2) by auto
    have "eqv r3 r'" using r3(2) r1(5) by (simp only: eqv_def)
    moreover have "replicate (length cs) None = None # replicate (length cs - 1) (None :: robj option)"
      using False by (cases cs) simp_all
    ultimately show ?thesis using r1(1) r3(1) err by (simp add: redisReaderFeed_fed)
  qed
qed simp

section \<open>No assertion fails and no access is out of bounds\<close>

text \<open>
  The tasks, root first, fit the reply under construction: below every array task lies an array
  with as many elements as the task says, and the next task's index is one of them.
\<close>

fun tree_ok :: "redisReadTask list \<Rightarrow> robj option \<Rightarrow> bool" where
  "tree_ok (t # u # us) ob =
     (t_type t = Some REDIS_REPLY_ARRAY \<and> 0 \<le> t_idx u \<and> t_idx u < t_elements t
      \<and> (\<exists>es. ob = Some (OArray es) \<and> int (length es) = t_elements t \<and> tree_ok (u # us) (es ! nat (t_idx u))))"
| "tree_ok _ ob = True"

definition reader_inv :: "redisReader \<Rightarrow> bool" where
  "reader_inv r \<longleftrightarrow> tree_ok (rev (r_stack r)) (r_reply r) \<and> length (r_stack r) \<le> 9
     \<and> (r_stack r \<noteq> [] \<longrightarrow> t_type (hd (r_stack r)) \<noteq> Some REDIS_REPLY_NIL)"

lemma tree_ok_last:
  "tree_ok (us @ [p, c]) ob \<Longrightarrow>
     t_type p = Some REDIS_REPLY_ARRAY \<and> 0 \<le> t_idx c \<and> t_idx c < t_elements p \<and> tree_ok (us @ [p]) ob
     \<and> (\<forall>c'. 0 \<le> t_idx c' \<longrightarrow> t_idx c' < t_elements p \<longrightarrow> tree_ok (us @ [p, c']) ob)"
proof (induction us arbitrary: ob)
  case (Cons t us)
  show ?case
  proof (cases us)
    case Nil
    then show ?thesis using Cons.prems by auto
  next
    case (Cons u vs)
    then obtain es where es: "ob = Some (OArray es)" "int (length es) = t_elements t" "t_type t = Some REDIS_REPLY_ARRAY"
        "0 \<le> t_idx u" "t_idx u < t_elements t" "tree_ok (us @ [p, c]) (es ! nat (t_idx u))"
      using Cons.prems by auto
    from Cons.IH [OF es(6)] show ?thesis using es(1-5) Cons by auto
  qed
qed auto

lemma moveToNextTask_safe:
  assumes "tree_ok (rev ts) ob"
  shows "\<exists>ts'. moveToNextTask ts = Inr ts' \<and> tree_ok (rev ts') ob \<and> length ts' \<le> length ts
    \<and> (ts' \<noteq> [] \<longrightarrow> t_type (hd ts') = None)"
  using assms
proof (induction ts rule: moveToNextTask.induct)
  case (3 cur prv ts)
  then have "tree_ok (rev ts @ [prv, cur]) ob" by simp
  note last = tree_ok_last [OF this]
  show ?case
  proof (cases "t_idx cur = t_elements prv - 1")
    case True
    then show ?thesis using 3(1) last by fastforce
  next
    case False
    then show ?thesis using last by simp
  qed
qed auto

lemma tree_ok_idx: "t_idx u = t_idx v \<Longrightarrow> tree_ok [t, u] ob = tree_ok [t, v] ob"
  by simp

lemma attach_tree:
  assumes "tree_ok (us @ [c]) ob"
  shows "\<exists>ob'. attach (map t_idx (tl (us @ [c]))) x ob = Inr ob' \<and> tree_ok (us @ [c]) (Some ob')
    \<and> (\<forall>n d. x = OArray (replicate n None) \<longrightarrow> 0 < n \<longrightarrow> t_idx d = t_idx c \<longrightarrow> t_type d = Some REDIS_REPLY_ARRAY
         \<longrightarrow> t_elements d = int n \<longrightarrow> tree_ok (us @ [d, newReadTask 0]) (Some ob'))"
  using assms
proof (induction us arbitrary: ob)
  case Nil
  then show ?case by (auto simp: newReadTask_def)
next
  case (Cons t us)
  obtain u vs where u: "us @ [c] = u # vs" by (cases us) auto
  then obtain es where es: "ob = Some (OArray es)" "int (length es) = t_elements t" "t_type t = Some REDIS_REPLY_ARRAY"
      "0 \<le> t_idx u" "t_idx u < t_elements t" "tree_ok (us @ [c]) (es ! nat (t_idx u))"
    using Cons.prems by auto
  from Cons.IH [OF es(6)] u obtain ob' where ob': "attach (map t_idx vs) x (es ! nat (t_idx u)) = Inr ob'"
      "tree_ok (us @ [c]) (Some ob')"
      "\<And>n d. x = OArray (replicate n None) \<Longrightarrow> 0 < n \<Longrightarrow> t_idx d = t_idx c \<Longrightarrow> t_type d = Some REDIS_REPLY_ARRAY
         \<Longrightarrow> t_elements d = int n \<Longrightarrow> tree_ok (us @ [d, newReadTask 0]) (Some ob')"
    by auto
  let ?es = "es[nat (t_idx u) := Some ob']"
  have at: "attach (map t_idx (tl ((t # us) @ [c]))) x ob = Inr (OArray ?es)" using u es(1,2,4,5) ob'(1) by simp
  have tree: "tree_ok ((t # us) @ [c]) (Some (OArray ?es))" using u es ob'(2) by simp
  have push: "tree_ok ((t # us) @ [d, newReadTask 0]) (Some (OArray ?es))"
    if d: "x = OArray (replicate n None)" "0 < n" "t_idx d = t_idx c" "t_type d = Some REDIS_REPLY_ARRAY" "t_elements d = int n" for n d
  proof -
    obtain w ws where w: "us @ [d, newReadTask 0] = w # ws" "t_idx w = t_idx u" using u d(3) by (cases us) auto
    then show ?thesis using es ob'(3) [OF d] by simp
  qed
  show ?case using at tree push by blast
qed

lemma createObject_safe:
  assumes "reader_inv r" "r_stack r = c # ts"
  shows "\<exists>ob. createObject x r = Inr (r\<lparr>r_reply := Some ob\<rparr>) \<and> tree_ok (rev ts @ [c]) (Some ob)
    \<and> (\<forall>n d. x = OArray (replicate n None) \<longrightarrow> 0 < n \<longrightarrow> t_idx d = t_idx c \<longrightarrow> t_type d = Some REDIS_REPLY_ARRAY
         \<longrightarrow> t_elements d = int n \<longrightarrow> tree_ok (rev ts @ [d, newReadTask 0]) (Some ob))"
proof -
  have "tree_ok (rev ts @ [c]) (r_reply r)" using assms by (simp add: reader_inv_def)
  from attach_tree [OF this, of x] obtain ob where ob: "attach (map t_idx (tl (rev ts @ [c]))) x (r_reply r) = Inr ob"
      "tree_ok (rev ts @ [c]) (Some ob)"
      "\<forall>n d. x = OArray (replicate n None) \<longrightarrow> 0 < n \<longrightarrow> t_idx d = t_idx c \<longrightarrow> t_type d = Some REDIS_REPLY_ARRAY
         \<longrightarrow> t_elements d = int n \<longrightarrow> tree_ok (rev ts @ [d, newReadTask 0]) (Some ob)"
    by blast
  have "task_path (c # ts) = map t_idx (tl (rev ts @ [c]))"
    by (metis butlast_rev rev.simps(2) rev_map rev_rev_ident task_path_def)
  then have "createObject x r = Inr (r\<lparr>r_reply := Some ob\<rparr>)" using ob(1) assms(2) by (simp add: createObject_def)
  then show ?thesis using ob(2,3) by blast
qed

lemma create_next_safe:
  assumes "reader_inv r" "r_stack r = c # ts"
  shows "\<exists>r'. and_then (createObject x r) next_task = Inr (True, r') \<and> reader_inv r'"
proof -
  obtain ob where ob: "createObject x r = Inr (r\<lparr>r_reply := Some ob\<rparr>)" "tree_ok (rev (c # ts)) (Some ob)"
    using createObject_safe [OF assms, of x] by auto
  from moveToNextTask_safe [OF ob(2)] obtain ts' where ts': "moveToNextTask (c # ts) = Inr ts'" "tree_ok (rev ts') (Some ob)"
      "length ts' \<le> length (c # ts)" "ts' \<noteq> [] \<longrightarrow> t_type (hd ts') = None"
    by blast
  have "length (c # ts) \<le> 9" using assms by (simp add: reader_inv_def)
  then show ?thesis using ob(1) ts' assms(2) by (auto simp: next_task_def reader_inv_def)
qed

lemma create_push_safe:
  assumes "reader_inv r" "r_stack r = c # ts" "t_type c = Some REDIS_REPLY_ARRAY" "length (c # ts) < 9" "0 < n"
  shows "\<exists>r'. and_then (createObject (OArray (replicate (nat n) None)) r) (\<lambda>r. Inr (True, push_task n r)) = Inr (True, r')
    \<and> reader_inv r'"
proof -
  let ?d = "c\<lparr>t_elements := n\<rparr>"
  obtain ob where ob: "createObject (OArray (replicate (nat n) None)) r = Inr (r\<lparr>r_reply := Some ob\<rparr>)"
      "0 < nat n \<longrightarrow> t_idx ?d = t_idx c \<longrightarrow> t_type ?d = Some REDIS_REPLY_ARRAY \<longrightarrow> t_elements ?d = int (nat n)
         \<longrightarrow> tree_ok (rev ts @ [?d, newReadTask 0]) (Some ob)"
    using createObject_safe [OF assms(1,2), of "OArray (replicate (nat n) None)"] by blast
  then show ?thesis using assms(2-5) by (simp add: push_task_def reader_inv_def newReadTask_def)
qed

lemma reader_inv_moved [simp]: "reader_inv (r\<lparr>r_pos := p\<rparr>) = reader_inv r"
  by (simp add: reader_inv_def)

text \<open>The outcome of an item on a reader in a good state: it returns, with a good reader or an error.\<close>

definition safe :: "(bool \<times> redisReader) res \<Rightarrow> bool" where
  "safe m = (case m of Inl e \<Rightarrow> False | Inr (b, r) \<Rightarrow> r_err r = None \<longrightarrow> reader_inv r)"

lemma safe_error: "safe (protocol_error str r)" "safe (Inr (False, redisReaderSetErrorProtocolByte c r))"
  by (simp_all add: safe_def protocol_error_def redisReaderSetErrorProtocolByte_def)

lemma safe_wait: "reader_inv r \<Longrightarrow> safe (Inr (b, r))"
  by (simp add: safe_def)

lemma safe_create:
  assumes "reader_inv r" "r_stack r = c # ts"
  shows "safe (and_then (createObject x r) next_task)"
    and "t = REDIS_REPLY_ERROR \<or> t = REDIS_REPLY_STATUS \<or> t = REDIS_REPLY_STRING \<Longrightarrow>
      safe (and_then (createStringObject (Some t) s r) next_task)"
proof -
  have c: "safe (and_then (createObject x r) next_task)" for x
    using create_next_safe [OF assms, of x] by (auto simp: safe_def)
  then show "safe (and_then (createObject x r) next_task)" .
  show "safe (and_then (createStringObject (Some t) s r) next_task)"
    if "t = REDIS_REPLY_ERROR \<or> t = REDIS_REPLY_STATUS \<or> t = REDIS_REPLY_STRING"
    using that c by auto
qed

lemma readLine_inv:
  assumes "readLine r = Some (p, r1)" "reader_inv r"
  shows "reader_inv r1" "r_stack r1 = r_stack r"
  using assms by (auto simp: readLine_def split: option.splits)

lemma processTyped_safe:
  assumes ok: "reader_ok r" and inv: "reader_inv r" and stk: "r_stack r = c # ts" and ty: "t_type c \<noteq> None"
  shows "safe (processTyped r)"
proof -
  have line: "safe (processLineItem (Some t) r)"
    if "t = REDIS_REPLY_ERROR \<or> t = REDIS_REPLY_STATUS \<or> t = REDIS_REPLY_INTEGER" for t
    using that readLine_inv inv stk
    by (auto simp: processLineItem_def create_defs safe_error intro!: safe_wait safe_create split: option.splits)
  have bulk: "safe (processBulkItem r)"
    unfolding processBulkItem_eq [OF ok] create_defs using inv stk
    by (auto simp: safe_error simp del: createStringObject.simps intro!: safe_wait safe_create split: option.splits)
  have multi: "safe (processMultiBulkItem r)" if arr: "t_type c = Some REDIS_REPLY_ARRAY"
  proof (cases "length (r_stack r) = 9")
    case False
    then have short: "length (c # ts) < 9" using inv stk by (simp add: reader_inv_def)
    show ?thesis
    proof (cases "readLine r")
      case (Some pr)
      then obtain p r1 where l: "readLine r = Some (p, r1)" by (cases pr) auto
      have r1: "reader_inv r1" "r_stack r1 = c # ts" using readLine_inv [OF l inv] stk by simp_all
      have "safe (and_then (createArrayObject n r1) (\<lambda>r. if 0 < n then Inr (True, push_task n r) else next_task r))" for n
        using create_push_safe [OF r1 arr short, of n] safe_create(1) [OF r1, of "OArray []"]
        by (cases "0 < n") (auto simp: create_defs safe_def)
      then show ?thesis using l False safe_create(1) [OF r1, of ONil]
        by (auto simp: processMultiBulkItem_def safe_error create_defs split: option.splits)
    qed (use False inv in \<open>simp add: processMultiBulkItem_def safe_wait\<close>)
  qed (simp add: processMultiBulkItem_def safe_error)
  show ?thesis using ty stk inv line bulk multi
    by (auto simp: processTyped_def reader_inv_def split: option.splits reply_type.splits)
qed

lemma processItem_safe:
  assumes ok: "reader_ok r" and inv: "reader_inv r" and stk: "r_stack r \<noteq> []"
  shows "safe (processItem r)"
proof -
  obtain c ts where c: "r_stack r = c # ts" using stk by (cases "r_stack r") auto
  show ?thesis
  proof (cases "t_type c")
    case (Some ty)
    then show ?thesis using processTyped_safe [OF ok inv c] c by (simp add: processItem_def)
  next
    case None
    show ?thesis
    proof (cases "readBytes 1 r")
      case bytes: None
      then show ?thesis using c None inv by (simp add: processItem_def safe_wait)
    next
      case (Some pr)
      then obtain p r1 where p: "readBytes 1 r = Some (p, r1)" by (cases pr) auto
      show ?thesis
      proof (cases "type_of_byte (hd p)")
        case (Some ty)
        let ?r = "r1\<lparr>r_stack := c\<lparr>t_type := Some ty\<rparr> # ts\<rparr>"
        have "ty \<noteq> REDIS_REPLY_NIL" using Some by (auto simp: type_of_byte_def split: if_splits)
        moreover have "tree_ok (rev ts @ [c\<lparr>t_type := Some ty\<rparr>]) (r_reply r)"
          using inv c tree_ok_last [of "rev (tl ts)" "hd ts" c "r_reply r"]
          by (cases ts) (auto simp: reader_inv_def)
        ultimately have "reader_inv ?r" "reader_ok ?r"
          using p inv ok c by (auto simp: readBytes_def reader_inv_def reader_ok_def split: if_splits)
        from processTyped_safe [OF this(2,1)] show ?thesis using c None p Some by (simp add: processItem_def)
      qed (use c None p in \<open>simp add: processItem_def safe_error\<close>)
    qed
  qed
qed

lemma process_items_safe:
  assumes "reader_ok r" "reader_inv r"
  shows "\<exists>r'. process_items r = Inr r' \<and> (r_err r' = None \<longrightarrow> reader_inv r')"
  using assms
proof (induction r rule: process_items.induct)
  case (1 r)
  show ?case
  proof (cases "r_stack r = []")
    case True
    then show ?thesis using 1(3) by (simp add: process_items.simps [of r])
  next
    case False
    then obtain b r1 where r1: "processItem r = Inr (b, r1)" "r_err r1 = None \<longrightarrow> reader_inv r1"
      using processItem_safe [OF 1(2,3)] by (cases "processItem r") (auto simp: safe_def)
    show ?thesis
    proof (cases b)
      case True
      then have "reader_ok r1" using processItem_ok [OF 1(2)] r1(1) by simp
      moreover from this have "reader_inv r1" using r1(2) by (simp add: reader_ok_def)
      ultimately show ?thesis using 1(1) [OF False r1(1) refl True] r1(1) True False by (simp add: process_items.simps [of r])
    next
      case wait: False
      then show ?thesis using r1 False by (simp add: process_items.simps [of r])
    qed
  qed
qed

lemma GetReply_safe:
  assumes "reader_ok r" "reader_inv r"
  shows "\<exists>b rep r1. redisReaderGetReply r = Inr (b, rep, r1) \<and> (b \<longrightarrow> reader_inv r1)"
proof -
  have "reader_inv (first_task r)" using assms(2) by (simp add: first_task_def reader_inv_def newReadTask_def)
  then obtain r' where r': "process_items (first_task r) = Inr r'" "r_err r' = None \<longrightarrow> reader_inv r'"
    using process_items_safe [of "first_task r"] assms(1) by auto
  then have "r_err r' = None \<longrightarrow> reader_inv (discard r')" "r_err r' = None \<longrightarrow> r_stack r' = [] \<longrightarrow> reader_inv ((discard r')\<lparr>r_reply := None\<rparr>)"
    by (simp_all add: reader_inv_def)
  then show ?thesis using r'(1) assms by (auto simp: redisReaderGetReply_def emit_reply_def Let_def reader_ok_def)
qed

section \<open>Properties\<close>

text \<open>The readers that feeding and asking lead to, with buffers below the range of an \<^verbatim>\<open>int\<close>.\<close>

inductive reader_reach :: "redisReader \<Rightarrow> bool" where
  create: "reader_reach redisReaderCreate"
| feed: "reader_reach r \<Longrightarrow> r_len r + length x < 2 ^ 31 \<Longrightarrow> reader_reach (snd (redisReaderFeed x r))"
| ask: "reader_reach r \<Longrightarrow> redisReaderGetReply r = Inr (b, rep, r') \<Longrightarrow> reader_reach r'"

lemma GetReply_error_flag: "redisReaderGetReply r = Inr (b, rep, r') \<Longrightarrow> b \<longleftrightarrow> r_err r' = None"
  by (auto simp: redisReaderGetReply_def emit_reply_def Let_def and_then_eq_Inr split: if_splits)

lemma reader_reach_inv:
  assumes "reader_reach r"
  shows "r_err r = None \<longrightarrow> reader_ok r \<and> reader_inv r"
  using assms
proof induction
  case create
  then show ?case by (simp add: redisReaderCreate_def reader_ok_def reader_inv_def)
next
  case (feed r x)
  then show ?case by (auto simp: redisReaderFeed_def reader_ok_def reader_inv_def)
next
  case (ask r b rep r')
  show ?case
  proof
    assume "r_err r' = None"
    then have b: b using GetReply_error_flag [OF ask(2)] by simp
    then have "r_err r = None" using ask(2) by (auto simp: redisReaderGetReply_def split: if_splits)
    then have ok: "reader_ok r" "reader_inv r" using ask.IH by simp_all
    then show "reader_ok r' \<and> reader_inv r'"
      using GetReply_keeps [OF ok(1), of rep r'] GetReply_safe [OF ok] ask(2) b by auto
  qed
qed

text \<open>
  C15: the reply parser is safe on arbitrary input. In every state that feeding any bytes
  in any portions and asking for replies leads to (with fewer than \<open>2 ^ 31\<close> bytes buffered),
  asking returns: no assertion of \<^verbatim>\<open>moveToNextTask\<close> or of the reply objects fails, no
  byte outside the buffer is read, no element outside an array is written, and the stack of nine
  tasks does not overflow.
\<close>

theorem reader_never_fails:
  assumes "reader_reach r"
  shows "(\<exists>b rep r'. redisReaderGetReply r = Inr (b, rep, r')) \<and> (r_err r = None \<longrightarrow> length (r_stack r) \<le> 9)"
proof (cases "r_err r")
  case None
  then show ?thesis using reader_reach_inv [OF assms] GetReply_safe [of r] by (auto simp: reader_inv_def)
next
  case (Some e)
  then have "redisReaderGetReply r = Inr (False, None, r)" by (simp add: redisReaderGetReply_def)
  then show ?thesis using Some by (intro conjI, blast) simp
qed

theorem reader_never_fails_witness:
  "reader_reach (snd (redisReaderFeed ''*2'' redisReaderCreate))
     \<and> (\<exists>b rep r'. redisReaderGetReply (snd (redisReaderFeed ''*2'' redisReaderCreate)) = Inr (b, rep, r'))"
proof -
  have "reader_reach (snd (redisReaderFeed ''*2'' redisReaderCreate))"
    by (rule reader_reach.feed [OF reader_reach.create]) (simp add: redisReaderCreate_def)
  then show ?thesis using reader_never_fails [of "snd (redisReaderFeed ''*2'' redisReaderCreate)"] by blast
qed

text \<open>
  C14: what the parser returns does not depend on how the bytes arrive. If after a first
  portion \<open>x\<close> there is no reply yet, then after a second portion \<open>y\<close> the result, the reply and the
  reader (up to bytes already consumed) are what they would be had \<open>x\<close> and \<open>y\<close> arrived
  together; and if \<open>x\<close> gives a reply or an error, so do both together, with
  \<open>y\<close> left unread behind the reply.
\<close>

theorem reader_portions:
  assumes "reader_reach r" "r_err r = None" "r_len r + length (x @ y) < 2 ^ 31"
    and "redisReaderGetReply (snd (redisReaderFeed x r)) = Inr (b, rep, r1)"
  shows "if b \<and> rep = None
    then rel_sum (=) (rel_prod (=) (rel_prod (=) eqv))
      (redisReaderGetReply (snd (redisReaderFeed y r1))) (redisReaderGetReply (snd (redisReaderFeed (x @ y) r)))
    else \<exists>r2. redisReaderGetReply (snd (redisReaderFeed (x @ y) r)) = Inr (b, rep, r2)
      \<and> (if b then eqv r2 (snd (redisReaderFeed y r1)) else r2 = r1)"
proof -
  have ok: "reader_ok (fed (x @ y) r)" "r_pos r \<le> r_len r"
    using reader_reach_inv [OF assms(1)] assms(2,3) by (simp_all add: reader_ok_def)
  have g: "redisReaderGetReply (fed x r) = Inr (b, rep, r1)" using assms(2,4) by (simp add: redisReaderFeed_fed)
  have r1: "b \<Longrightarrow> snd (redisReaderFeed y r1) = fed y r1"
    using GetReply_error_flag [OF g] by (simp add: redisReaderFeed_fed)
  show ?thesis
    using GetReply_waits [OF ok, of r1] GetReply_done [OF ok g] g assms(2) r1
    by (cases b; cases rep) (auto simp: redisReaderFeed_fed)
qed

theorem reader_portions_witness:
  "\<exists>r1. redisReaderGetReply (snd (redisReaderFeed '':'' redisReaderCreate)) = Inr (True, None, r1)
     \<and> rel_sum (=) (rel_prod (=) (rel_prod (=) eqv))
         (redisReaderGetReply (snd (redisReaderFeed (''7'' @ CRLF) r1)))
         (redisReaderGetReply (snd (redisReaderFeed ('':'' @ ''7'' @ CRLF) redisReaderCreate)))"
proof -
  have "redisReaderGetReply (snd (redisReaderFeed '':'' redisReaderCreate)) = Inr (True, None,
      \<lparr>r_err = None, r_errstr = [], r_buf = '':'', r_pos = 1,
       r_stack = [\<lparr>t_type = Some REDIS_REPLY_INTEGER, t_elements = - 1, t_idx = - 1\<rparr>], r_reply = None\<rparr>)"
    by code_simp
  moreover have "r_err redisReaderCreate = None" "r_len redisReaderCreate + length ('':'' @ ''7'' @ CRLF) < 2 ^ 31"
    by (simp_all add: redisReaderCreate_def CRLF_def)
  ultimately show ?thesis
    using reader_portions [OF reader_reach.create, of "'':''" "''7'' @ CRLF"] by (auto simp only: simp_thms if_True)
qed

text \<open>
  C13: every reply is read back exactly. A reply in the Redis protocol, with arrays nested
  at most eight deep, whose bytes arrive in any non-empty portions at a reader that is between
  replies, gives nothing until its last portion, then exactly itself; afterwards
  the reader is between replies again with nothing left over.
\<close>

theorem resp_roundtrip:
  assumes "reader_reach r" "r_err r = None" "r_stack r = []" "r_rest r = []"
    and "resp_wf v" "nesting v \<le> 8" "concat cs = resp_enc v" "[] \<notin> set cs" "r_len r + length (resp_enc v) < 2 ^ 31"
  shows "\<exists>r'. feed_all cs r = Inr (replicate (length cs - 1) None @ [Some (obj_of v)], r')
    \<and> r_err r' = None \<and> r_stack r' = [] \<and> r_rest r' = []"
proof -
  have ok: "reader_ok r" using reader_reach_inv [OF assms(1)] assms(2) by simp
  then have "idle r" using assms(3,4) by (simp add: idle_def)
  from GetReply_enc [OF this assms(5,6,9)] obtain r' where
    r': "redisReaderGetReply (fed (concat cs) r) = Inr (True, Some (obj_of v), r')" "idle r'"
    using assms(7) by auto
  have "cs \<noteq> []" using assms(7) by (cases v) auto
  moreover have "reader_ok (fed (concat cs) r)" "r_pos r \<le> r_len r" using ok assms(7,9) by (simp_all add: reader_ok_def)
  moreover have rest: "r_rest r' = []" using r'(2) by (simp add: idle_def)
  ultimately obtain r2 where r2: "feed_all cs r = Inr (replicate (length cs - 1) None @ [Some (obj_of v)], r2)" "eqv r2 r'"
    using feed_all_reply [OF _ assms(8) _ _ r'(1)] by blast
  have "r_rest r2 = []" using r2(2) rest by (simp only: eqv_def)
  moreover have "r_err r2 = None" "r_stack r2 = []" using r2(2) r'(2) by (simp_all add: eqv_def idle_def reader_ok_def)
  ultimately show ?thesis using r2(1) by blast
qed

theorem resp_roundtrip_witness:
  "\<exists>r'. feed_all [''*2'', CRLF @ ''$3'', CRLF @ ''abc'' @ CRLF @ '':'', ''42'' @ CRLF] redisReaderCreate
       = Inr ([None, None, None, Some (OArray [Some (OString ''abc''), Some (OInteger 42)])], r')
     \<and> r_rest r' = []"
proof -
  let ?v = "RArray [RString ''abc'', RInteger 42]"
  let ?cs = "[''*2'', CRLF @ ''$3'', CRLF @ ''abc'' @ CRLF @ '':'', ''42'' @ CRLF]"
  have enc: "concat ?cs = resp_enc ?v" by code_simp
  have len: "length (resp_enc ?v) = 18" by code_simp
  have "reader_reach redisReaderCreate" "r_err redisReaderCreate = None" "r_stack redisReaderCreate = []"
    "r_rest redisReaderCreate = []" "r_len redisReaderCreate + length (resp_enc ?v) < 2 ^ 31"
    using len by (simp_all add: redisReaderCreate_def reader_reach.create [unfolded redisReaderCreate_def])
  from resp_roundtrip [OF this(1-4) _ _ enc _ this(5)] show ?thesis by (auto simp: CRLF_def numeral_eq_Suc)
qed

text \<open>
  C16: \<^verbatim>\<open>string2ll\<close> accepts exactly the canonical decimal representations of 64-bit
  integers, no other text, and gives their value: leading zeros, blanks, a plus sign, a lone
  minus sign and everything out of range are rejected, and no intermediate result overflows.
\<close>

theorem string2ll_exact:
  "string2ll s = Some i \<longleftrightarrow> s = dec_int i \<and> - (2 ^ 63) \<le> i \<and> i < 2 ^ 63"
  using string2ll_canonical [of s i] string2ll_range [of s i] string2ll_dec_int [of i] by blast

end
