(* ===== verification/HiredisClient.thy ===== *)
theory HiredisClient
  imports HiredisReplies
begin

text \<open>
  The blocking client of \<^verbatim>\<open>logic/redis/hiredis.c\<close>: formatting of commands, the context with its
  output buffer and reader, and the exchange of a command for a reply. The system calls
  \<^verbatim>\<open>write\<close> and \<^verbatim>\<open>read\<close> on the socket and \<^verbatim>\<open>vsnprintf\<close> are parameters, memory allocation succeeds,
  and the text of \<^verbatim>\<open>strerror\<close> is left out. The two loops of \<^verbatim>\<open>redisGetReply\<close> are partial
  functions. Shown: a formatted command is the protocol's array of its arguments and
  the length computed in advance is right; a command sent over a socket that takes
  and delivers bytes in any portions, interrupted or not, brings back exactly the
  server's reply; and what ends the exchange with an error.
\<close>

section \<open>Formatting\<close>

function countDigits_loop :: "nat \<Rightarrow> nat \<Rightarrow> nat" where
  "countDigits_loop v result =
     (if v < 10 then result
      else if v < 100 then result + 1
      else if v < 1000 then result + 2
      else if v < 10000 then result + 3
      else countDigits_loop (v div 10000) (result + 4))"
  by pat_completeness auto
termination by (relation "measure fst") auto

declare countDigits_loop.simps [simp del]

definition countDigits :: "nat \<Rightarrow> nat" where
  "countDigits v = countDigits_loop v 1"

definition bulklen :: "nat \<Rightarrow> nat" where
  "bulklen len = 1 + countDigits len + 2 + len + 2"

text \<open>
  The variable arguments, with the type they are fetched with; \<^verbatim>\<open>%b\<close> takes a pointer and a
  size, here one argument. Fetching another type or more arguments than there are is
  undefined behaviour.
\<close>

datatype va_arg = VaStr string | VaBin string | VaInt int | VaLong int | VaLongLong int | VaDouble nat

datatype va_kind = KInt | KDouble | KLong | KLongLong

fun va_fits :: "va_kind \<Rightarrow> va_arg \<Rightarrow> bool" where
  "va_fits KInt (VaInt i) = True"
| "va_fits KLong (VaLong i) = True"
| "va_fits KLongLong (VaLongLong i) = True"
| "va_fits KDouble (VaDouble d) = True"
| "va_fits _ _ = False"

definition intfmts :: string where
  "intfmts = ''diouxX''"

text \<open>
  What follows flags, width and precision: the type to fetch and how far \<^verbatim>\<open>_p\<close> moves. At the
  end of the format \<^verbatim>\<open>strchr\<close> finds the terminating null of \<^verbatim>\<open>intfmts\<close>.
\<close>

fun conv_kind :: "string \<Rightarrow> (va_kind \<times> nat) option" where
  "conv_kind [] = Some (KInt, 0)"
| "conv_kind (c # cs) =
     (if c \<in> set intfmts then Some (KInt, 0)
      else if c \<in> set ''eEfFgGaA'' then Some (KDouble, 0)
      else if c = CHR ''h'' then
        if cs \<noteq> [] \<and> hd cs = CHR ''h''
        then if tl cs \<noteq> [] \<and> hd (tl cs) \<in> set intfmts then Some (KInt, 2) else None
        else if cs \<noteq> [] \<and> hd cs \<in> set intfmts then Some (KInt, 1) else None
      else if c = CHR ''l'' then
        if cs \<noteq> [] \<and> hd cs = CHR ''l''
        then if tl cs \<noteq> [] \<and> hd (tl cs) \<in> set intfmts then Some (KLongLong, 2) else None
        else if cs \<noteq> [] \<and> hd cs \<in> set intfmts then Some (KLong, 1) else None
      else None)"

definition skip_spec :: "string \<Rightarrow> string" where
  "skip_spec p =
     (let p1 = dropWhile (\<lambda>c. c \<in> set ''#0-+ '') p; p2 = dropWhile is_digit p1 in
      if p2 \<noteq> [] \<and> hd p2 = CHR ''.'' then dropWhile is_digit (tl p2) else p2)"

text \<open>One character that is not part of a conversion.\<close>

definition fmt_plain :: "char \<Rightarrow> string \<times> bool \<times> string list \<Rightarrow> string \<times> bool \<times> string list" where
  "fmt_plain c = (\<lambda>(curarg, touched, argv).
     if c = CHR '' '' then if touched then ([], False, argv @ [curarg]) else (curarg, touched, argv)
     else (curarg @ [c], True, argv))"

text \<open>
  The loop over the format. \<open>Inr None\<close> is a format error; \<open>pf\<close> is \<^verbatim>\<open>vsnprintf\<close> with one
  conversion. A conversion text that does not fit its buffer of 16 bytes is not printed
  and its rest is taken literally.
\<close>

function fmt_loop :: "(string \<Rightarrow> va_arg \<Rightarrow> string) \<Rightarrow> string \<Rightarrow> va_arg list \<Rightarrow> string \<times> bool \<times> string list
    \<Rightarrow> string list option res" where
  "fmt_loop pf [] ap (curarg, touched, argv) = Inr (Some (if touched then argv @ [curarg] else argv))"
| "fmt_loop pf [c] ap st = fmt_loop pf [] ap (fmt_plain c st)"
| "fmt_loop pf (c # d # rest) ap (curarg, touched, argv) =
     (if c \<noteq> CHR ''%'' then fmt_loop pf (d # rest) ap (fmt_plain c (curarg, touched, argv))
      else if d = CHR ''s'' then
        (case ap of VaStr s # ap' \<Rightarrow>
           fmt_loop pf rest ap' (curarg @ takeWhile (\<lambda>c. c \<noteq> CHR 0x00) s, True, argv) | _ \<Rightarrow> Inl OutOfBounds)
      else if d = CHR ''b'' then
        (case ap of VaBin s # ap' \<Rightarrow> fmt_loop pf rest ap' (curarg @ s, True, argv) | _ \<Rightarrow> Inl OutOfBounds)
      else if d = CHR ''%'' then fmt_loop pf rest ap (curarg @ ''%'', True, argv)
      else
        let q = skip_spec (d # rest) in
        (case conv_kind q of
           None \<Rightarrow> Inr None
         | Some (k, e) \<Rightarrow>
             (case ap of
                [] \<Rightarrow> Inl OutOfBounds
              | a # ap' \<Rightarrow>
                  if \<not> va_fits k a then Inl OutOfBounds
                  else
                    let n = length (d # rest) - length q + e; l = n + 2 in
                    if l < 14 then
                      if q = [] then Inl OutOfBounds
                      else fmt_loop pf (drop (n + 1) (d # rest)) ap'
                        (curarg @ pf (take l (c # d # rest)) a, True, argv)
                    else fmt_loop pf rest ap' (curarg, True, argv))))"
  by pat_completeness auto
termination
  by (relation "measure (\<lambda>(pf, fmt, ap, st). length fmt)") auto

definition bulk :: "string \<Rightarrow> string" where
  "bulk s = ''$'' @ dec (length s) @ CRLF @ s @ CRLF"

text \<open>\<^verbatim>\<open>totlen\<close> is an \<^verbatim>\<open>int\<close>; adding beyond its range is undefined behaviour.\<close>

definition build_command :: "string list \<Rightarrow> string res" where
  "build_command argv =
     (let totlen = sum_list (map (\<lambda>a. bulklen (length a)) argv) + (1 + countDigits (length argv) + 2);
          cmd = ''*'' @ dec (length argv) @ CRLF @ concat (map bulk argv) in
      if totlen < 2 ^ 31 then cpp_assert (length cmd = totlen) (Inr cmd) else Inl Overflow)"

definition redisvFormatCommand :: "(string \<Rightarrow> va_arg \<Rightarrow> string) \<Rightarrow> string \<Rightarrow> va_arg list \<Rightarrow> string option res" where
  "redisvFormatCommand pf format ap =
     and_then (fmt_loop pf format ap ([], False, [])) (\<lambda>r.
       case r of None \<Rightarrow> Inr None | Some argv \<Rightarrow> and_then (build_command argv) (\<lambda>cmd. Inr (Some cmd)))"

definition redisFormatCommandArgv :: "string list \<Rightarrow> string res" where
  "redisFormatCommandArgv argv = build_command argv"

text \<open>
  The variant that builds an sds string: the total is an \<^verbatim>\<open>unsigned long long\<close> and returned as
  an \<^verbatim>\<open>int\<close>, and \<^verbatim>\<open>%u\<close> prints the low 32 bits of a length.
\<close>

definition redisFormatSdsCommandArgv :: "string list \<Rightarrow> string res" where
  "redisFormatSdsCommandArgv argv =
     (let totlen = 1 + countDigits (length argv) + 2 + sum_list (map (\<lambda>a. bulklen (length a)) argv);
          cmd = ''*'' @ dec (length argv) @ CRLF
            @ concat (map (\<lambda>a. ''$'' @ dec (length a mod 2 ^ 32) @ CRLF @ a @ CRLF) argv) in
      if totlen < 2 ^ 31 then cpp_assert (length cmd = totlen) (Inr cmd) else Inl Overflow)"

section \<open>The context\<close>

datatype io_errno = IO_EAGAIN | IO_EINTR | IO_FAILED

datatype io_write = WroteBytes nat | WriteError io_errno

datatype io_read = ReadBytes string | ReadError io_errno

record 'w sock =
  sys_write :: "string \<Rightarrow> 'w \<Rightarrow> io_write \<times> 'w"
  sys_read :: "nat \<Rightarrow> 'w \<Rightarrow> io_read \<times> 'w"

record redisContext =
  c_err :: "redis_err option"
  c_errstr :: string
  c_block :: bool
  c_obuf :: string
  c_reader :: redisReader

definition redisContextInit :: "bool \<Rightarrow> redisContext" where
  "redisContextInit block =
     \<lparr>c_err = None, c_errstr = [], c_block = block, c_obuf = [], c_reader = redisReaderCreate\<rparr>"

definition redisSetError :: "redis_err \<Rightarrow> string \<Rightarrow> redisContext \<Rightarrow> redisContext" where
  "redisSetError type str c = c\<lparr>c_err := Some type, c_errstr := take 127 str\<rparr>"

text \<open>The error of the reader becomes the error of the context.\<close>

definition reader_error :: "redisContext \<Rightarrow> redisContext" where
  "reader_error c = c\<lparr>c_err := r_err (c_reader c), c_errstr := take 127 (r_errstr (c_reader c))\<rparr>"

definition try_later :: "io_errno \<Rightarrow> redisContext \<Rightarrow> bool" where
  "try_later e c \<longleftrightarrow> e = IO_EAGAIN \<and> \<not> c_block c \<or> e = IO_EINTR"

definition redisBufferRead :: "'w sock \<Rightarrow> redisContext \<Rightarrow> 'w \<Rightarrow> bool \<times> redisContext \<times> 'w" where
  "redisBufferRead S c w =
     (if c_err c \<noteq> None then (False, c, w)
      else case sys_read S (1024 * 16) w of
        (ReadError e, w) \<Rightarrow> if try_later e c then (True, c, w) else (False, redisSetError REDIS_ERR_IO [] c, w)
      | (ReadBytes buf, w) \<Rightarrow>
          if buf = [] then (False, redisSetError REDIS_ERR_EOF ''Server closed the connection'' c, w)
          else
            let (ok, r) = redisReaderFeed buf (c_reader c); c = c\<lparr>c_reader := r\<rparr> in
            if ok then (True, c, w) else (False, reader_error c, w))"

text \<open>The result: success, whether the buffer is empty now, the context.\<close>

definition redisBufferWrite :: "'w sock \<Rightarrow> redisContext \<Rightarrow> 'w \<Rightarrow> bool \<times> bool \<times> redisContext \<times> 'w" where
  "redisBufferWrite S c w =
     (if c_err c \<noteq> None then (False, False, c, w)
      else if c_obuf c = [] then (True, True, c, w)
      else case sys_write S (c_obuf c) w of
        (WriteError e, w) \<Rightarrow>
          if try_later e c then (True, False, c, w) else (False, False, redisSetError REDIS_ERR_IO [] c, w)
      | (WroteBytes n, w) \<Rightarrow>
          let c = c\<lparr>c_obuf := drop n (c_obuf c)\<rparr> in (True, c_obuf c = [], c, w))"

definition redisGetReplyFromReader :: "redisContext \<Rightarrow> (bool \<times> robj option \<times> redisContext) res" where
  "redisGetReplyFromReader c =
     and_then (redisReaderGetReply (c_reader c)) (\<lambda>(ok, rep, r).
       let c = c\<lparr>c_reader := r\<rparr> in
       if ok then Inr (True, rep, c) else Inr (False, None, reader_error c))"

partial_function (option) write_until_done :: "'w sock \<Rightarrow> redisContext \<Rightarrow> 'w \<Rightarrow> (bool \<times> redisContext \<times> 'w) option" where
  "write_until_done S c w =
     (case redisBufferWrite S c w of
        (ok, wdone, c, w) \<Rightarrow>
          if \<not> ok then Some (False, c, w) else if wdone then Some (True, c, w) else write_until_done S c w)"

partial_function (option) read_until_reply ::
  "'w sock \<Rightarrow> redisContext \<Rightarrow> 'w \<Rightarrow> (bool \<times> robj option \<times> redisContext \<times> 'w) res option" where
  "read_until_reply S c w =
     (case redisBufferRead S c w of
        (ok, c, w) \<Rightarrow>
          if \<not> ok then Some (Inr (False, None, c, w))
          else case redisGetReplyFromReader c of
            Inl e \<Rightarrow> Some (Inl e)
          | Inr (ok, aux, c) \<Rightarrow>
              if \<not> ok then Some (Inr (False, None, c, w))
              else if aux \<noteq> None then Some (Inr (True, aux, c, w))
              else read_until_reply S c w)"

definition redisGetReply :: "'w sock \<Rightarrow> redisContext \<Rightarrow> 'w \<Rightarrow> (bool \<times> robj option \<times> redisContext \<times> 'w) res option" where
  "redisGetReply S c w =
     (case redisGetReplyFromReader c of
        Inl e \<Rightarrow> Some (Inl e)
      | Inr (ok, aux, c) \<Rightarrow>
          if \<not> ok then Some (Inr (False, None, c, w))
          else if aux = None \<and> c_block c then
            (case write_until_done S c w of
               None \<Rightarrow> None
             | Some (ok, c, w) \<Rightarrow>
                 if ok then read_until_reply S c w else Some (Inr (False, None, c, w)))
          else Some (Inr (True, aux, c, w)))"

section \<open>Commands\<close>

definition redisAppendFormattedCommand :: "string \<Rightarrow> redisContext \<Rightarrow> redisContext" where
  "redisAppendFormattedCommand cmd c = c\<lparr>c_obuf := c_obuf c @ cmd\<rparr>"

definition redisvAppendCommand :: "(string \<Rightarrow> va_arg \<Rightarrow> string) \<Rightarrow> string \<Rightarrow> va_arg list \<Rightarrow> redisContext
    \<Rightarrow> (bool \<times> redisContext) res" where
  "redisvAppendCommand pf format ap c =
     and_then (redisvFormatCommand pf format ap) (\<lambda>r.
       case r of
         None \<Rightarrow> Inr (False, redisSetError REDIS_ERR_OTHER ''Invalid format string'' c)
       | Some cmd \<Rightarrow> Inr (True, redisAppendFormattedCommand cmd c))"

definition redisAppendCommandArgv :: "string list \<Rightarrow> redisContext \<Rightarrow> (bool \<times> redisContext) res" where
  "redisAppendCommandArgv argv c =
     and_then (redisFormatSdsCommandArgv argv) (\<lambda>cmd. Inr (True, redisAppendFormattedCommand cmd c))"

definition redisBlockForReply :: "'w sock \<Rightarrow> redisContext \<Rightarrow> 'w \<Rightarrow> (robj option \<times> redisContext \<times> 'w) res option" where
  "redisBlockForReply S c w =
     (if c_block c then
        (case redisGetReply S c w of
           None \<Rightarrow> None
         | Some (Inl e) \<Rightarrow> Some (Inl e)
         | Some (Inr (ok, rep, c, w)) \<Rightarrow> Some (Inr (if ok then rep else None, c, w)))
      else Some (Inr (None, c, w)))"

definition after_append :: "'w sock \<Rightarrow> 'w \<Rightarrow> (bool \<times> redisContext) res \<Rightarrow> (robj option \<times> redisContext \<times> 'w) res option" where
  "after_append S w m =
     (case m of
        Inl e \<Rightarrow> Some (Inl e)
      | Inr (ok, c) \<Rightarrow> if ok then redisBlockForReply S c w else Some (Inr (None, c, w)))"

definition redisvCommand :: "(string \<Rightarrow> va_arg \<Rightarrow> string) \<Rightarrow> 'w sock \<Rightarrow> string \<Rightarrow> va_arg list \<Rightarrow> redisContext \<Rightarrow> 'w
    \<Rightarrow> (robj option \<times> redisContext \<times> 'w) res option" where
  "redisvCommand pf S format ap c w = after_append S w (redisvAppendCommand pf format ap c)"

definition redisCommandArgv :: "'w sock \<Rightarrow> string list \<Rightarrow> redisContext \<Rightarrow> 'w
    \<Rightarrow> (robj option \<times> redisContext \<times> 'w) res option" where
  "redisCommandArgv S argv c w = after_append S w (redisAppendCommandArgv argv c)"

section \<open>A formatted command is an array of its arguments\<close>

lemma length_dec_less: "v < 10 \<Longrightarrow> length (dec v) = 1"
  by (simp add: dec_small)

lemma length_dec_step: "10 \<le> v \<Longrightarrow> length (dec v) = Suc (length (dec (v div 10)))"
  by (simp add: dec_large)

lemma countDigits_loop_dec: "Suc (countDigits_loop v result) = result + length (dec v)"
proof (induction v result rule: countDigits_loop.induct)
  case (1 v result)
  show ?case
  proof (cases "v < 10000")
    case True
    then show ?thesis
      by (auto simp: countDigits_loop.simps [of v] length_dec_step length_dec_less div_mult2_eq [symmetric])
  next
    case False
    have "length (dec v) = 4 + length (dec (v div 10000))"
      using False by (simp add: length_dec_step div_mult2_eq [symmetric])
    then show ?thesis using 1 False by (simp add: countDigits_loop.simps [of v])
  qed
qed

lemma countDigits_dec: "countDigits v = length (dec v)"
  using countDigits_loop_dec [of v 1] by (simp add: countDigits_def)

lemma length_bulk: "length (bulk s) = bulklen (length s)"
  by (simp add: bulk_def bulklen_def countDigits_dec CRLF_def)

abbreviation command_array :: "string list \<Rightarrow> reply" where
  "command_array argv \<equiv> RArray (map RString argv)"

lemma command_enc: "resp_enc (command_array argv) = ''*'' @ dec (length argv) @ CRLF @ concat (map bulk argv)"
  by (simp add: bulk_def [abs_def] o_def)

lemma length_command_enc:
  "length (resp_enc (command_array argv))
     = sum_list (map (\<lambda>a. bulklen (length a)) argv) + (1 + countDigits (length argv) + 2)"
proof -
  have "length (concat (map bulk argv)) = sum_list (map (\<lambda>a. bulklen (length a)) argv)"
    by (simp add: length_concat o_def length_bulk)
  then show ?thesis by (simp only: command_enc length_append) (simp add: countDigits_dec CRLF_def)
qed

lemma build_command_enc:
  "build_command argv = (if length (resp_enc (command_array argv)) < 2 ^ 31
     then Inr (resp_enc (command_array argv)) else Inl Overflow)"
  unfolding build_command_def Let_def length_command_enc [symmetric] command_enc [symmetric] by simp

lemma bulk_length_ge: "a \<in> set argv \<Longrightarrow> length a \<le> length (resp_enc (command_array argv))"
proof -
  assume a: "a \<in> set argv"
  have "bulklen (length a) \<in> set (map (\<lambda>a. bulklen (length a)) argv)" using a by simp
  from member_le_sum_list [OF this] have "bulklen (length a) \<le> sum_list (map (\<lambda>a. bulklen (length a)) argv)" by simp
  then show ?thesis unfolding length_command_enc by (simp add: bulklen_def)
qed

lemma sds_command_enc:
  assumes "length (resp_enc (command_array argv)) < 2 ^ 31"
  shows "redisFormatSdsCommandArgv argv = Inr (resp_enc (command_array argv))"
proof -
  have "map (\<lambda>a. ''$'' @ dec (length a mod 2 ^ 32) @ CRLF @ a @ CRLF) argv = map bulk argv"
    using bulk_length_ge [of _ argv] assms by (force simp: bulk_def)
  then have "redisFormatSdsCommandArgv argv = build_command argv"
    by (simp only: redisFormatSdsCommandArgv_def build_command_def Let_def add.commute [of "1 + countDigits (length argv) + 2"])
  then show ?thesis using assms by (simp add: build_command_enc)
qed

lemma command_wf: "resp_wf (command_array argv)" "nesting (command_array argv) \<le> 8"
proof -
  show "resp_wf (command_array argv)" by (simp add: list_all_iff)
  have "foldr max (map nesting (map RString argv)) 0 = 0" by (induction argv) simp_all
  then show "nesting (command_array argv) \<le> 8" by simp
qed

section \<open>Formats\<close>

text \<open>
  A format as its user reads it: words of pieces, each a piece of plain text, a string or a
  binary argument.
\<close>

datatype piece = Plain string | StrArg string | BinArg string

fun piece_fmt :: "piece \<Rightarrow> string" where
  "piece_fmt (Plain s) = s"
| "piece_fmt (StrArg s) = ''%s''"
| "piece_fmt (BinArg s) = ''%b''"

fun piece_va :: "piece \<Rightarrow> va_arg list" where
  "piece_va (Plain s) = []"
| "piece_va (StrArg s) = [VaStr s]"
| "piece_va (BinArg s) = [VaBin s]"

fun piece_text :: "piece \<Rightarrow> string" where
  "piece_text (Plain s) = s"
| "piece_text (StrArg s) = takeWhile (\<lambda>c. c \<noteq> CHR 0x00) s"
| "piece_text (BinArg s) = s"

fun piece_ok :: "piece \<Rightarrow> bool" where
  "piece_ok (Plain s) = (s \<noteq> [] \<and> CHR ''%'' \<notin> set s \<and> CHR '' '' \<notin> set s)"
| "piece_ok _ = True"

fun words_fmt :: "piece list list \<Rightarrow> string" where
  "words_fmt [] = []"
| "words_fmt (w # ws) = concat (map piece_fmt w) @ (if ws = [] then [] else CHR '' '' # words_fmt ws)"

lemma fmt_loop_plain:
  assumes "CHR ''%'' \<notin> set s" "CHR '' '' \<notin> set s" "s \<noteq> []"
  shows "fmt_loop pf (s @ rest) ap (cur, t, argv) = fmt_loop pf rest ap (cur @ s, True, argv)"
  using assms
proof (induction s arbitrary: cur t)
  case (Cons c s)
  have step: "fmt_loop pf (c # s @ rest) ap (cur, t, argv) = fmt_loop pf (s @ rest) ap (cur @ [c], True, argv)"
    using Cons.prems by (cases "s @ rest") (auto simp: fmt_plain_def)
  show ?case
  proof (cases "s = []")
    case False
    then show ?thesis using step Cons.IH [of "cur @ [c]" True] Cons.prems by simp
  qed (use step in simp)
qed simp

lemma fmt_loop_piece:
  "piece_ok p \<Longrightarrow> fmt_loop pf (piece_fmt p @ rest) (piece_va p @ ap) (cur, t, argv)
     = fmt_loop pf rest ap (cur @ piece_text p, True, argv)"
  by (cases p) (simp_all add: fmt_loop_plain)

lemma fmt_loop_word:
  assumes "list_all piece_ok w" "w \<noteq> []"
  shows "fmt_loop pf (concat (map piece_fmt w) @ rest) (concat (map piece_va w) @ ap) (cur, t, argv)
     = fmt_loop pf rest ap (cur @ concat (map piece_text w), True, argv)"
  using assms
proof (induction w arbitrary: cur t)
  case (Cons p w)
  then show ?case by (cases "w = []") (simp_all add: fmt_loop_piece)
qed simp

lemma fmt_loop_blank:
  "fmt_loop pf (CHR '' '' # rest) ap (cur, True, argv) = fmt_loop pf rest ap ([], False, argv @ [cur])"
  by (cases rest) (simp_all add: fmt_plain_def)

lemma fmt_loop_words:
  assumes "list_all (\<lambda>w. w \<noteq> [] \<and> list_all piece_ok w) ws"
  shows "fmt_loop pf (words_fmt ws) (concat (map (concat \<circ> map piece_va) ws)) ([], False, argv)
    = Inr (Some (argv @ map (concat \<circ> map piece_text) ws))"
  using assms
proof (induction ws arbitrary: argv)
  case (Cons w ws)
  show ?case
  proof (cases "ws = []")
    case True
    then show ?thesis using fmt_loop_word [of w pf "[]" "[]" "[]" False argv] Cons.prems by simp
  next
    case False
    then show ?thesis using Cons by (simp add: fmt_loop_word fmt_loop_blank)
  qed
qed simp

section \<open>No reply means an error\<close>

lemma GetReplyFromReader_error:
  "redisGetReplyFromReader c = Inr (ok, rep, c') \<Longrightarrow> c_block c' = c_block c \<and> (\<not> ok \<longrightarrow> rep = None \<and> c_err c' \<noteq> None)"
  by (auto simp: redisGetReplyFromReader_def and_then_eq_Inr Let_def reader_error_def dest!: GetReply_error_flag split: if_splits prod.splits)

lemma redisReaderFeed_error: "redisReaderFeed x r = (False, r') \<Longrightarrow> r_err r' \<noteq> None"
  by (auto simp: redisReaderFeed_def split: if_splits)

lemma redisBufferRead_error:
  "redisBufferRead S c w = (ok, c', w') \<Longrightarrow> c_block c' = c_block c \<and> (\<not> ok \<longrightarrow> c_err c' \<noteq> None)"
  by (auto simp: redisBufferRead_def Let_def redisSetError_def reader_error_def dest: redisReaderFeed_error
      split: if_splits io_read.splits prod.splits)

lemma redisBufferWrite_error:
  "redisBufferWrite S c w = (ok, wdone, c', w') \<Longrightarrow> c_block c' = c_block c \<and> (\<not> ok \<longrightarrow> c_err c' \<noteq> None)"
  by (auto simp: redisBufferWrite_def Let_def redisSetError_def split: if_splits io_write.splits prod.splits)

lemma write_until_done_error:
  assumes "write_until_done S c w = Some m"
  shows "c_block (fst (snd m)) = c_block c \<and> (\<not> fst m \<longrightarrow> c_err (fst (snd m)) \<noteq> None)"
proof (rule write_until_done.raw_induct
    [where P = "\<lambda>S c w m. c_block (fst (snd m)) = c_block c \<and> (\<not> fst m \<longrightarrow> c_err (fst (snd m)) \<noteq> None)", OF _ assms])
  fix loop and S :: "'w sock" and c w m
  assume ih: "\<And>S c w m. loop S c w = Some m \<Longrightarrow>
      c_block (fst (snd m)) = c_block c \<and> (\<not> fst m \<longrightarrow> c_err (fst (snd m)) \<noteq> None)"
    and run: "(case redisBufferWrite S c w of (ok, wdone, c, w) \<Rightarrow>
      if \<not> ok then Some (False, c, w) else if wdone then Some (True, c, w) else loop S c w) = Some m"
  obtain ok wdone c1 w1 where b: "redisBufferWrite S c w = (ok, wdone, c1, w1)" by (metis prod_cases4)
  then show "c_block (fst (snd m)) = c_block c \<and> (\<not> fst m \<longrightarrow> c_err (fst (snd m)) \<noteq> None)"
    using run ih [of S c1 w1 m] redisBufferWrite_error [OF b] by (auto split: if_splits)
qed

text \<open>An exchange either fails with an error in the context or gives a reply.\<close>

definition reply_or_error :: "(bool \<times> robj option \<times> redisContext \<times> 'w) res \<Rightarrow> bool" where
  "reply_or_error m = (case m of Inl e \<Rightarrow> True
     | Inr (ok, rep, c, w) \<Rightarrow> if ok then rep \<noteq> None else rep = None \<and> c_err c \<noteq> None)"

lemma reply_or_error_simps [simp]:
  "reply_or_error (Inl e)"
  "reply_or_error (Inr (ok, rep, c, w)) = (if ok then rep \<noteq> None else rep = None \<and> c_err c \<noteq> None)"
  by (simp_all add: reply_or_error_def)

lemma read_until_reply_error:
  assumes "read_until_reply S c w = Some m"
  shows "reply_or_error m"
proof (rule read_until_reply.raw_induct [where P = "\<lambda>S c w m. reply_or_error m", OF _ assms])
  fix loop and S :: "'w sock" and c w m
  assume ih: "\<And>S c w m. loop S c w = Some m \<Longrightarrow> reply_or_error m"
    and run: "(case redisBufferRead S c w of (ok, c, w) \<Rightarrow>
      if \<not> ok then Some (Inr (False, None, c, w))
      else case redisGetReplyFromReader c of Inl e \<Rightarrow> Some (Inl e)
        | Inr (ok, aux, c) \<Rightarrow>
            if \<not> ok then Some (Inr (False, None, c, w))
            else if aux \<noteq> None then Some (Inr (True, aux, c, w)) else loop S c w) = Some m"
  obtain ok c1 w1 where b: "redisBufferRead S c w = (ok, c1, w1)" by (metis prod_cases3)
  show "reply_or_error m"
  proof (cases "ok \<and> (\<exists>ok2 aux c2. redisGetReplyFromReader c1 = Inr (ok2, aux, c2))")
    case True
    then obtain ok2 aux c2 where g: "redisGetReplyFromReader c1 = Inr (ok2, aux, c2)" by blast
    then show ?thesis using True b run ih [of S c2 w1 m] GetReplyFromReader_error [OF g] by (auto split: if_splits)
  next
    case False
    then show ?thesis using b run redisBufferRead_error [OF b] by (auto split: if_splits sum.splits)
  qed
qed

lemma redisGetReply_error:
  assumes "redisGetReply S c w = Some m" "c_block c"
  shows "reply_or_error m"
proof (cases "redisGetReplyFromReader c")
  case (Inr a)
  then obtain ok aux c1 where g: "redisGetReplyFromReader c = Inr (ok, aux, c1)" by (metis prod_cases3)
  then show ?thesis using assms GetReplyFromReader_error [OF g]
    by (auto simp: redisGetReply_def dest!: write_until_done_error dest: read_until_reply_error split: if_splits option.splits)
qed (use assms in \<open>simp add: redisGetReply_def split: if_splits, auto\<close>)

lemma after_append_error:
  assumes "after_append S w m = Some (Inr (None, c', w'))" "\<And>ok c. m = Inr (ok, c) \<Longrightarrow> c_block c \<and> (\<not> ok \<longrightarrow> c_err c \<noteq> None)"
  shows "c_err c' \<noteq> None"
  using assms by (auto simp: after_append_def redisBlockForReply_def dest!: redisGetReply_error
      split: sum.splits prod.splits if_splits option.splits)

section \<open>Properties\<close>

text \<open>
  Formatting keeps arguments apart. A format of words made of plain text, \<^verbatim>\<open>%s\<close> and
  \<^verbatim>\<open>%b\<close> gives one argument per word, whatever the arguments contain (blanks, line ends, percent
  signs): the command is the protocol's array of these words, and the length computed beforehand
  is exactly the number of bytes written.
\<close>

theorem format_command_words:
  assumes "list_all (\<lambda>w. w \<noteq> [] \<and> list_all piece_ok w) ws"
    and "length (resp_enc (command_array (map (concat \<circ> map piece_text) ws))) < 2 ^ 31"
  shows "redisvFormatCommand pf (words_fmt ws) (concat (map (concat \<circ> map piece_va) ws))
    = Inr (Some (resp_enc (command_array (map (concat \<circ> map piece_text) ws))))"
proof -
  let ?argv = "map (concat \<circ> map piece_text) ws"
  have "build_command ?argv = Inr (resp_enc (command_array ?argv))"
    using assms(2) by (simp only: build_command_enc if_True)
  then show ?thesis
    using fmt_loop_words [OF assms(1), of pf "[]"] by (simp only: redisvFormatCommand_def and_then_simps append_Nil option.case)
qed

theorem format_command_words_witness:
  "redisvFormatCommand (\<lambda>f a. []) ''SET %s k:%b'' [VaStr ''a b%'', VaBin ''x'']
     = Inr (Some (resp_enc (command_array [''SET'', ''a b%'', ''k:x''])))"
proof -
  let ?ws = "[[Plain ''SET''], [StrArg ''a b%''], [Plain ''k:'', BinArg ''x'']]"
  have "list_all (\<lambda>w. w \<noteq> [] \<and> list_all piece_ok w) ?ws" by simp
  moreover have "length (resp_enc (command_array (map (concat \<circ> map piece_text) ?ws))) = 32" by code_simp
  ultimately show ?thesis using format_command_words [of ?ws "\<lambda>f a. []"] by simp
qed

text \<open>
  C17: a missing reply is always explained. Whatever the socket does, when a command on a
  blocking context returns no reply, the context carries an error.
\<close>

theorem no_reply_is_error:
  assumes "redisCommandArgv S argv c w = Some (Inr (None, c', w')) \<or> redisvCommand pf S fmt ap c w = Some (Inr (None, c', w'))"
    and "c_block c"
  shows "c_err c' \<noteq> None"
proof -
  have a: "c_block c1 \<and> (\<not> ok \<longrightarrow> c_err c1 \<noteq> None)" if "redisAppendCommandArgv argv c = Inr (ok, c1)" for ok c1
    using that assms(2) by (auto simp: redisAppendCommandArgv_def redisAppendFormattedCommand_def and_then_eq_Inr)
  have v: "c_block c1 \<and> (\<not> ok \<longrightarrow> c_err c1 \<noteq> None)" if "redisvAppendCommand pf fmt ap c = Inr (ok, c1)" for ok c1
    using that assms(2)
    by (auto simp: redisvAppendCommand_def redisAppendFormattedCommand_def redisSetError_def and_then_eq_Inr split: option.splits)
  from assms(1) show ?thesis
    using after_append_error [of S w _ c' w'] a v by (auto simp: redisCommandArgv_def redisvCommand_def)
qed

definition closed_sock :: "nat sock" where
  "closed_sock = \<lparr>sys_write = (\<lambda>buf w. (WroteBytes (length buf), w)), sys_read = (\<lambda>n w. (ReadBytes [], w))\<rparr>"

theorem no_reply_is_error_witness:
  "\<exists>c'. redisCommandArgv closed_sock [''PING''] (redisContextInit True) 0 = Some (Inr (None, c', 0)) \<and> c_err c' \<noteq> None"
proof -
  obtain c' where "redisCommandArgv closed_sock [''PING''] (redisContextInit True) 0 = Some (Inr (None, c', 0))"
    by (simp add: redisCommandArgv_def after_append_def redisAppendCommandArgv_def sds_command_enc redisBlockForReply_def
        redisContextInit_def redisGetReply_def redisGetReplyFromReader_def redisReaderGetReply_def redisReaderCreate_def
        redisAppendFormattedCommand_def write_until_done.simps read_until_reply.simps redisBufferRead_def redisBufferWrite_def
        closed_sock_def redisSetError_def dec_small CRLF_def)
  then show ?thesis using no_reply_is_error [of closed_sock "[''PING'']" "redisContextInit True" 0 c' 0]
    by (auto simp: redisContextInit_def)
qed

text \<open>
  A format that ends in an incomplete conversion, such as \<^verbatim>\<open>%5\<close>, is taken for an integer conversion,
  since \<^verbatim>\<open>strchr\<close> finds the terminating null; an argument that was not passed is fetched, and
  if there is one, the loop continues behind the end of the format.
\<close>

theorem incomplete_conversion_overruns:
  assumes "d \<in> set ''#0-+ '' \<or> is_digit d"
  shows "redisvFormatCommand pf [CHR ''%'', d] ap = Inl OutOfBounds"
proof -
  have ne: "d \<noteq> CHR ''s'' \<and> d \<noteq> CHR ''b'' \<and> d \<noteq> CHR ''%''" using assms by (auto simp: is_digit_def)
  have q: "skip_spec [d] = []" using assms by (auto simp: skip_spec_def Let_def)
  show ?thesis using ne q by (auto simp: redisvFormatCommand_def Let_def split: list.splits)
qed

theorem incomplete_conversion_overruns_witness:
  "redisvFormatCommand (\<lambda>f a. []) ''%5'' [VaInt 3] = Inl OutOfBounds"
  by (rule incomplete_conversion_overruns) (simp add: is_digit_def)

end
