(* ===== verification/CacheConn.thy ===== *)
theory CacheConn
  imports ConnPool HiredisClient
begin

text \<open>
  \<^verbatim>\<open>CacheConn\<close> of \<^verbatim>\<open>logic/redis/cache_pool.cc\<close>: one Redis connection with its lazy
  reconnect and the commands the logic server sends through it. The connection to the
  server is a parameter, a record \<open>'s redis\<close> whose \<open>command\<close> takes the argument vector of
  a command and answers with a reply or with nothing (connection lost);
  \<open>RedisOverWire\<close> implements it by the client of \<open>HiredisClient\<close> over a byte stream. Every method is modelled from \<^verbatim>\<open>Init()\<close> to its return
  value; a null reply or a null string that the code dereferences is
  \<open>Inl BadOptional\<close>. Shown: the reconnect discipline, that a failed \<^verbatim>\<open>SELECT\<close> or
  \<^verbatim>\<open>AUTH\<close> leaves a connection that later counts as ready, and which commands crash
  on a lost connection.
\<close>

section \<open>Redis as seen through hiredis\<close>

record 's redis =
  connect :: "'s \<Rightarrow> bool \<times> 's"
  command :: "string list \<Rightarrow> 's \<Rightarrow> reply option \<times> 's"

text \<open>The members of \<^verbatim>\<open>redisReply\<close>: \<^verbatim>\<open>str\<close> is null and \<^verbatim>\<open>integer\<close> 0 where they are not set.\<close>

fun reply_str :: "reply \<Rightarrow> string option" where
  "reply_str (RString s) = Some s"
| "reply_str (RStatus s) = Some s"
| "reply_str (RError s) = Some s"
| "reply_str _ = None"

fun reply_integer :: "reply \<Rightarrow> int" where
  "reply_integer (RInteger i) = i"
| "reply_integer _ = 0"

fun reply_elements :: "reply \<Rightarrow> reply list" where
  "reply_elements (RArray rs) = rs"
| "reply_elements _ = []"

text \<open>\<^verbatim>\<open>ret.append(reply->str, reply->len)\<close>; the length is 0 where there is no string.\<close>

definition reply_text :: "reply \<Rightarrow> string" where
  "reply_text r = (case reply_str r of None \<Rightarrow> [] | Some s \<Rightarrow> s)"

text \<open>\<^verbatim>\<open>string x = reply->str\<close>: a C string, and a null pointer is fatal.\<close>

definition reply_cstr :: "reply \<Rightarrow> string res" where
  "reply_cstr r = (case reply_str r of None \<Rightarrow> Inl BadOptional | Some s \<Rightarrow> Inr (c_str s))"

section \<open>The connection\<close>

record CacheConn =
  conn_server_ip :: string
  conn_server_port :: u16
  conn_db_index :: u16
  conn_password :: string
  conn_pool_name :: string
  context_open :: bool   \<comment> \<open>\<^verbatim>\<open>context_\<close> is not null\<close>
  last_connect_time :: u64

definition newCacheConn :: "string \<Rightarrow> int \<Rightarrow> int \<Rightarrow> string \<Rightarrow> string \<Rightarrow> CacheConn" where
  "newCacheConn ip port idx passw pool =
     \<lparr>conn_server_ip = ip, conn_server_port = word_of_int port, conn_db_index = word_of_int idx,
      conn_password = passw, conn_pool_name = pool, context_open = False, last_connect_time = 0\<rparr>"

text \<open>\<open>now\<close> is \<^verbatim>\<open>time(NULL)\<close>.\<close>

definition Init :: "'s redis \<Rightarrow> u64 \<Rightarrow> CacheConn \<times> 's \<Rightarrow> int \<times> CacheConn \<times> 's" where
  "Init R now = (\<lambda>(c, s).
     if context_open c then (0, c, s)
     else if now < last_connect_time c + 1 then (1, c, s)
     else
       let c = c\<lparr>last_connect_time := now\<rparr>; (ok, s) = connect R s in
       if \<not> ok then (1, c, s)
       else
         let c = c\<lparr>context_open := True\<rparr>;
             (auth_ok, s) =
               (if conn_password c \<noteq> [] then
                  let (rep, s) = command R [''AUTH'', c_str (conn_password c)] s in
                  (case rep of None \<Rightarrow> False | Some (RError _) \<Rightarrow> False | Some _ \<Rightarrow> True, s)
                else (True, s))
         in if \<not> auth_ok then (- 1, c, s)
            else
              let (rep, s) = command R [''SELECT'', dec (unat (conn_db_index c))] s in
              (case rep of
                 Some (RStatus t) \<Rightarrow> if take 2 t = ''OK'' then (0, c, s) else (2, c, s)
               | _ \<Rightarrow> (2, c, s)))"

definition DeInit :: "CacheConn \<Rightarrow> CacheConn" where
  "DeInit c = c\<lparr>context_open := False\<rparr>"

text \<open>
  The common course of a method: \<^verbatim>\<open>Init()\<close>, the command, and on a null reply the
  context is freed; \<open>unready\<close> is returned in both failure cases.
\<close>

definition exec :: "'s redis \<Rightarrow> u64 \<Rightarrow> string list \<Rightarrow> 'a \<Rightarrow> (reply \<Rightarrow> 'a)
    \<Rightarrow> CacheConn \<times> 's \<Rightarrow> 'a \<times> CacheConn \<times> 's" where
  "exec R now argv unready f cs =
     (let (r, c, s) = Init R now cs in
      if r \<noteq> 0 then (unready, c, s)
      else case command R argv s of
             (None, s) \<Rightarrow> (unready, DeInit c, s)
           | (Some rep, s) \<Rightarrow> (f rep, c, s))"

text \<open>The methods that use the reply without testing it.\<close>

definition exec_unchecked :: "'s redis \<Rightarrow> u64 \<Rightarrow> string list \<Rightarrow> 'a \<Rightarrow> (reply \<Rightarrow> 'a res)
    \<Rightarrow> CacheConn \<times> 's \<Rightarrow> 'a res \<times> CacheConn \<times> 's" where
  "exec_unchecked R now argv unready f cs =
     (let (r, c, s) = Init R now cs in
      if r \<noteq> 0 then (Inr unready, c, s)
      else case command R argv s of
             (None, s) \<Rightarrow> (Inl BadOptional, c, s)
           | (Some rep, s) \<Rightarrow> (f rep, c, s))"

section \<open>Keys and strings\<close>

definition Get :: "'s redis \<Rightarrow> u64 \<Rightarrow> string \<Rightarrow> CacheConn \<times> 's \<Rightarrow> string \<times> CacheConn \<times> 's" where
  "Get R now key = exec R now [''GET'', c_str key] []
     (\<lambda>rep. case rep of RString v \<Rightarrow> v | _ \<Rightarrow> [])"

definition Set :: "'s redis \<Rightarrow> u64 \<Rightarrow> string \<Rightarrow> string \<Rightarrow> CacheConn \<times> 's
    \<Rightarrow> string \<times> CacheConn \<times> 's" where
  "Set R now key val = exec R now [''SET'', c_str key, c_str val] [] reply_text"

definition SetEx :: "'s redis \<Rightarrow> u64 \<Rightarrow> string \<Rightarrow> int \<Rightarrow> string \<Rightarrow> CacheConn \<times> 's
    \<Rightarrow> string \<times> CacheConn \<times> 's" where
  "SetEx R now key timeout val =
     exec R now [''SETEX'', c_str key, dec_int timeout, c_str val] [] reply_text"

text \<open>
  \<^verbatim>\<open>MGet\<close> joins the keys with blanks into one format string, without arguments, so
  \<open>fmt_loop\<close> decides what the arguments of the command are. The answers are assigned
  by position; a reply longer than the key list indexes past it.
\<close>

fun mget_assign :: "string list \<Rightarrow> reply list \<Rightarrow> (string \<times> string) list \<Rightarrow> (string \<times> string) list res" where
  "mget_assign ks [] m = Inr m"
| "mget_assign [] (r # rs) m =
     (case r of RString _ \<Rightarrow> Inl OutOfBounds | _ \<Rightarrow> mget_assign [] rs m)"
| "mget_assign (k # ks) (r # rs) m =
     mget_assign ks rs (case r of RString v \<Rightarrow> AList.update k (c_str v) m | _ \<Rightarrow> m)"

fun join_blank :: "string list \<Rightarrow> string" where
  "join_blank [] = []"
| "join_blank [k] = k"
| "join_blank (k # ks) = k @ '' '' @ join_blank ks"

definition MGet :: "'s redis \<Rightarrow> u64 \<Rightarrow> string list
    \<Rightarrow> (string \<times> string) list \<Rightarrow> CacheConn \<times> 's
    \<Rightarrow> (bool \<times> (string \<times> string) list) res \<times> CacheConn \<times> 's" where
  "MGet R now keys ret_value cs =
     (let (r, c, s) = Init R now cs in
      if r \<noteq> 0 \<or> keys = [] \<or> join_blank keys = [] then (Inr (False, ret_value), c, s)
      else case fmt_loop (\<lambda>_ _. []) (c_str (''MGET '' @ join_blank keys)) [] ([], False, []) of
          Inl e \<Rightarrow> (Inl e, c, s)
        | Inr None \<Rightarrow> (Inr (False, ret_value), DeInit c, s)
        | Inr (Some argv) \<Rightarrow>
            (case command R argv s of
               (None, s) \<Rightarrow> (Inr (False, ret_value), DeInit c, s)
             | (Some rep, s) \<Rightarrow>
                 (and_then (mget_assign keys (reply_elements rep) ret_value) (\<lambda>m. Inr (True, m)), c, s)))"

definition IsExists :: "'s redis \<Rightarrow> u64 \<Rightarrow> string \<Rightarrow> CacheConn \<times> 's \<Rightarrow> bool \<times> CacheConn \<times> 's" where
  "IsExists R now key = exec R now [''EXISTS'', c_str key] False (\<lambda>rep. reply_integer rep \<noteq> 0)"

definition Del :: "'s redis \<Rightarrow> u64 \<Rightarrow> string \<Rightarrow> CacheConn \<times> 's \<Rightarrow> int \<times> CacheConn \<times> 's" where
  "Del R now key = exec R now [''DEL'', c_str key] 0 reply_integer"

definition Incr :: "'s redis \<Rightarrow> u64 \<Rightarrow> string \<Rightarrow> CacheConn \<times> 's \<Rightarrow> (int \<times> int) \<times> CacheConn \<times> 's" where
  "Incr R now key = exec R now [''INCR'', c_str key] (- 1, 0) (\<lambda>rep. (0, reply_integer rep))"

text \<open>\<^verbatim>\<open>Decr\<close> leaves the caller's variable alone when it fails.\<close>

definition Decr :: "'s redis \<Rightarrow> u64 \<Rightarrow> string \<Rightarrow> int \<Rightarrow> CacheConn \<times> 's
    \<Rightarrow> (int \<times> int) \<times> CacheConn \<times> 's" where
  "Decr R now key val = exec R now [''DECR'', c_str key] (- 1, val) (\<lambda>rep. (0, reply_integer rep))"

definition IncrBy :: "'s redis \<Rightarrow> u64 \<Rightarrow> string \<Rightarrow> int \<Rightarrow> CacheConn \<times> 's \<Rightarrow> int \<times> CacheConn \<times> 's" where
  "IncrBy R now key val = exec R now [''INCRBY'', c_str key, dec_int val] (- 1) reply_integer"

section \<open>Hashes\<close>

definition Hdel :: "'s redis \<Rightarrow> u64 \<Rightarrow> string \<Rightarrow> string \<Rightarrow> CacheConn \<times> 's \<Rightarrow> int \<times> CacheConn \<times> 's" where
  "Hdel R now key field = exec R now [''HDEL'', c_str key, c_str field] (- 1) reply_integer"

definition Hget :: "'s redis \<Rightarrow> u64 \<Rightarrow> string \<Rightarrow> string \<Rightarrow> CacheConn \<times> 's \<Rightarrow> string \<times> CacheConn \<times> 's" where
  "Hget R now key field = exec R now [''HGET'', c_str key, c_str field] []
     (\<lambda>rep. case rep of RString v \<Rightarrow> v | _ \<Rightarrow> [])"

definition VALUES_ID_SIZE :: nat where "VALUES_ID_SIZE = 1024"

text \<open>
  The overload for C buffers writes the value and a zero after it into a buffer of
  \<open>room\<close> bytes; here the context is kept when there is no reply.
\<close>

definition Hget_buf :: "'s redis \<Rightarrow> u64 \<Rightarrow> string \<Rightarrow> string \<Rightarrow> nat \<Rightarrow> CacheConn \<times> 's
    \<Rightarrow> (int \<times> string option) res \<times> CacheConn \<times> 's" where
  "Hget_buf R now key field room cs =
     (let (r, c, s) = Init R now cs in
      if r \<noteq> 0 then (Inr (- 1, None), c, s)
      else case command R [''hget'', c_str key, c_str field] s of
             (Some (RString v), s) \<Rightarrow>
               (let len = min VALUES_ID_SIZE (length v) in
                (if len < room then Inr (0, Some (c_str (take len v))) else Inl OutOfBounds, c, s))
           | (_, s) \<Rightarrow> (Inr (- 1, None), c, s))"

fun pair_up :: "reply list \<Rightarrow> (string \<times> string) list" where
  "pair_up (f # v # rs) = (reply_text f, reply_text v) # pair_up rs"
| "pair_up _ = []"

text \<open>\<^verbatim>\<open>std::map::insert\<close> keeps the first value of a field.\<close>

definition insert_pairs :: "(string \<times> string) list \<Rightarrow> (string \<times> string) list \<Rightarrow> (string \<times> string) list" where
  "insert_pairs kvs m =
     foldl (\<lambda>m (k, v). if map_of m k = None then m @ [(k, v)] else m) m kvs"

definition HgetAll :: "'s redis \<Rightarrow> u64 \<Rightarrow> string \<Rightarrow> (string \<times> string) list \<Rightarrow> CacheConn \<times> 's
    \<Rightarrow> (bool \<times> (string \<times> string) list) \<times> CacheConn \<times> 's" where
  "HgetAll R now key ret_value = exec R now [''HGETALL'', c_str key] (False, ret_value)
     (\<lambda>rep. (True, if even (length (reply_elements rep))
                   then insert_pairs (pair_up (reply_elements rep)) ret_value else ret_value))"

definition Hset :: "'s redis \<Rightarrow> u64 \<Rightarrow> string \<Rightarrow> string \<Rightarrow> string \<Rightarrow> CacheConn \<times> 's
    \<Rightarrow> int \<times> CacheConn \<times> 's" where
  "Hset R now key field val =
     exec R now [''HSET'', c_str key, c_str field, c_str val] (- 1) reply_integer"

definition HincrBy :: "'s redis \<Rightarrow> u64 \<Rightarrow> string \<Rightarrow> string \<Rightarrow> int \<Rightarrow> CacheConn \<times> 's
    \<Rightarrow> int \<times> CacheConn \<times> 's" where
  "HincrBy R now key field val =
     exec R now [''HINCRBY'', c_str key, c_str field, dec_int val] (- 1) reply_integer"

definition Hmset :: "'s redis \<Rightarrow> u64 \<Rightarrow> string \<Rightarrow> (string \<times> string) list \<Rightarrow> CacheConn \<times> 's
    \<Rightarrow> string \<times> CacheConn \<times> 's" where
  "Hmset R now key hash =
     exec R now ([''HMSET'', c_str key] @ concat (map (\<lambda>(f, v). [c_str f, c_str v]) hash)) [] reply_text"

definition Hmget :: "'s redis \<Rightarrow> u64 \<Rightarrow> string \<Rightarrow> string list \<Rightarrow> string list \<Rightarrow> CacheConn \<times> 's
    \<Rightarrow> (bool \<times> string list) \<times> CacheConn \<times> 's" where
  "Hmget R now key flds ret_value =
     exec R now ([''HMGET'', c_str key] @ map c_str flds) (False, ret_value)
       (\<lambda>rep. (True, ret_value @ map reply_text (reply_elements rep)))"

section \<open>Lists and sorted sets\<close>

definition Lpush :: "'s redis \<Rightarrow> u64 \<Rightarrow> string \<Rightarrow> string \<Rightarrow> CacheConn \<times> 's \<Rightarrow> int \<times> CacheConn \<times> 's" where
  "Lpush R now key val = exec R now [''LPUSH'', c_str key, c_str val] (- 1) reply_integer"

definition Rpush :: "'s redis \<Rightarrow> u64 \<Rightarrow> string \<Rightarrow> string \<Rightarrow> CacheConn \<times> 's \<Rightarrow> int \<times> CacheConn \<times> 's" where
  "Rpush R now key val = exec R now [''RPUSH'', c_str key, c_str val] (- 1) reply_integer"

definition Llen :: "'s redis \<Rightarrow> u64 \<Rightarrow> string \<Rightarrow> CacheConn \<times> 's \<Rightarrow> int \<times> CacheConn \<times> 's" where
  "Llen R now key = exec R now [''LLEN'', c_str key] (- 1) reply_integer"

definition Lrange :: "'s redis \<Rightarrow> u64 \<Rightarrow> string \<Rightarrow> int \<Rightarrow> int \<Rightarrow> string list \<Rightarrow> CacheConn \<times> 's
    \<Rightarrow> (bool \<times> string list) \<times> CacheConn \<times> 's" where
  "Lrange R now key start stop ret_value =
     exec R now [''LRANGE'', c_str key, dec_int start, dec_int stop] (False, ret_value)
       (\<lambda>rep. (True, ret_value @ map reply_text (reply_elements rep)))"

fun integer_or :: "int \<Rightarrow> reply \<Rightarrow> int" where
  "integer_or d (RInteger i) = i"
| "integer_or d _ = d"

definition ZsetExit :: "'s redis \<Rightarrow> u64 \<Rightarrow> string \<Rightarrow> string \<Rightarrow> CacheConn \<times> 's
    \<Rightarrow> int res \<times> CacheConn \<times> 's" where
  "ZsetExit R now key member =
     exec_unchecked R now [''zlexcount'', c_str key, CHR ''['' # c_str member, CHR ''['' # c_str member]
       (- 1) (\<lambda>rep. Inr (integer_or (- 1) rep))"

definition ZsetAdd :: "'s redis \<Rightarrow> u64 \<Rightarrow> string \<Rightarrow> int \<Rightarrow> string \<Rightarrow> CacheConn \<times> 's
    \<Rightarrow> int res \<times> CacheConn \<times> 's" where
  "ZsetAdd R now key score member =
     exec_unchecked R now [''ZADD'', c_str key, dec_int score, c_str member] (- 1)
       (\<lambda>rep. Inr (case rep of RInteger _ \<Rightarrow> 0 | _ \<Rightarrow> - 1))"

definition ZsetZrem :: "'s redis \<Rightarrow> u64 \<Rightarrow> string \<Rightarrow> string \<Rightarrow> CacheConn \<times> 's
    \<Rightarrow> int res \<times> CacheConn \<times> 's" where
  "ZsetZrem R now key member =
     exec_unchecked R now [''ZREM'', c_str key, c_str member] (- 1)
       (\<lambda>rep. Inr (case rep of RInteger _ \<Rightarrow> 0 | _ \<Rightarrow> - 1))"

text \<open>The failure of \<^verbatim>\<open>Init\<close> returns \<^verbatim>\<open>false\<close>, that is 0, which means success here.\<close>

definition ZsetIncr :: "'s redis \<Rightarrow> u64 \<Rightarrow> string \<Rightarrow> string \<Rightarrow> CacheConn \<times> 's
    \<Rightarrow> int res \<times> CacheConn \<times> 's" where
  "ZsetIncr R now key member =
     exec_unchecked R now [''ZINCRBY'', c_str key, ''1'', c_str member] 0
       (\<lambda>rep. and_then (reply_cstr rep) (\<lambda>t. Inr (if t \<noteq> ''OK'' then - 1 else 0)))"

definition ZsetZcard :: "'s redis \<Rightarrow> u64 \<Rightarrow> string \<Rightarrow> CacheConn \<times> 's \<Rightarrow> int res \<times> CacheConn \<times> 's" where
  "ZsetZcard R now key =
     exec_unchecked R now [''ZCARD'', c_str key] (- 1) (\<lambda>rep. Inr (integer_or (- 1) rep))"

fun all_cstrs :: "reply list \<Rightarrow> string list res" where
  "all_cstrs [] = Inr []"
| "all_cstrs (r # rs) = and_then (reply_cstr r) (\<lambda>s. and_then (all_cstrs rs) (\<lambda>ss. Inr (s # ss)))"

text \<open>
  \<open>values\<close> are the rows written, each cut to 1023 characters. The comparison of
  the unsigned element count with the \<^verbatim>\<open>int\<close> count is unsigned: a negative count
  compares as a huge one.
\<close>

definition ZsetZrevrange :: "'s redis \<Rightarrow> u64 \<Rightarrow> string \<Rightarrow> int \<Rightarrow> int \<Rightarrow> CacheConn \<times> 's
    \<Rightarrow> (int \<times> string list) res \<times> CacheConn \<times> 's" where
  "ZsetZrevrange R now key from_pos end_pos =
     exec_unchecked R now [''ZREVRANGE'', c_str key, dec_int from_pos, dec_int end_pos] (- 1, [])
       (\<lambda>rep. case rep of
          RArray rs \<Rightarrow>
            (let cnt = end_pos - from_pos + 1;
                 max_count = (if 0 \<le> cnt \<and> cnt < int (length rs) then nat cnt else length rs) in
             and_then (all_cstrs (take max_count rs))
               (\<lambda>ss. Inr (0, map (take (VALUES_ID_SIZE - 1)) ss)))
        | _ \<Rightarrow> Inr (- 1, []))"

definition ZsetGetScore :: "'s redis \<Rightarrow> u64 \<Rightarrow> string \<Rightarrow> string \<Rightarrow> CacheConn \<times> 's
    \<Rightarrow> int res \<times> CacheConn \<times> 's" where
  "ZsetGetScore R now key member =
     exec_unchecked R now [''ZSCORE'', c_str key, c_str member] (- 1)
       (\<lambda>rep. case rep of RString t \<Rightarrow> atoi (c_str t) | _ \<Rightarrow> Inr (- 1))"

section \<open>Streams\<close>

text \<open>One entry of an \<^verbatim>\<open>XREVRANGE\<close> reply; entries of another shape are skipped.\<close>

definition xrev_entry :: "reply \<Rightarrow> (string \<times> string) list res" where
  "xrev_entry entry =
     (case entry of
        RArray [i, flds] \<Rightarrow>
          and_then (reply_cstr i) (\<lambda>xid.
            case flds of
              RArray (f # p # fs) \<Rightarrow> and_then (reply_cstr p) (\<lambda>payload. Inr [(xid, payload)])
            | _ \<Rightarrow> Inr [])
      | _ \<Rightarrow> Inr [])"

fun xrev_entries :: "reply list \<Rightarrow> (string \<times> string) list res" where
  "xrev_entries [] = Inr []"
| "xrev_entries (e # es) =
     and_then (xrev_entry e) (\<lambda>m. and_then (xrev_entries es) (\<lambda>ms. Inr (m @ ms)))"

text \<open>
  A null reply frees the context only when the context reports an error, which
  hiredis sets in that case.
\<close>

definition GetXrevrange :: "'s redis \<Rightarrow> u64 \<Rightarrow> string \<Rightarrow> string \<Rightarrow> string \<Rightarrow> int \<Rightarrow> CacheConn \<times> 's
    \<Rightarrow> (bool \<times> (string \<times> string) list) res \<times> CacheConn \<times> 's" where
  "GetXrevrange R now key start_id end_id cnt =
     exec R now
       ([''XREVRANGE'', key, start_id, end_id] @ (if 0 < cnt then [''COUNT'', dec_int cnt] else []))
       (Inr (False, []))
       (\<lambda>rep. case rep of
          RArray entries \<Rightarrow> and_then (xrev_entries entries) (\<lambda>ms. Inr (True, ms))
        | _ \<Rightarrow> Inr (False, []))"

definition Xadd :: "'s redis \<Rightarrow> u64 \<Rightarrow> string \<Rightarrow> string \<Rightarrow> (string \<times> string) list \<Rightarrow> CacheConn \<times> 's
    \<Rightarrow> (bool \<times> string) res \<times> CacheConn \<times> 's" where
  "Xadd R now key xid field_value_pairs =
     exec R now
       ([''XADD'', key, xid] @ concat (map (\<lambda>(f, v). [f, v]) field_value_pairs))
       (Inr (False, xid))
       (\<lambda>rep. case rep of
          RError _ \<Rightarrow> Inr (False, xid)
        | _ \<Rightarrow> and_then (reply_cstr rep) (\<lambda>new_id. Inr (True, new_id)))"

definition FlushDb :: "'s redis \<Rightarrow> u64 \<Rightarrow> CacheConn \<times> 's \<Rightarrow> bool \<times> CacheConn \<times> 's" where
  "FlushDb R now = exec R now [''FLUSHDB''] False
     (\<lambda>rep. case rep of RString t \<Rightarrow> take 2 t = ''OK'' | _ \<Rightarrow> False)"

section \<open>Lemmas\<close>

lemma Init_open: "context_open c \<Longrightarrow> Init R now (c, s) = (0, c, s)"
  by (simp add: Init_def)

lemma exec_open:
  "context_open c \<Longrightarrow> exec R now argv d f (c, s) =
     (case command R argv s of (None, s) \<Rightarrow> (d, DeInit c, s) | (Some rep, s) \<Rightarrow> (f rep, c, s))"
  by (simp add: exec_def Init_open)

lemma Init_ready: "Init R now (c, s) = (0, c', s') \<Longrightarrow> context_open c'"
  by (auto simp: Init_def Let_def split: if_splits prod.splits option.splits reply.splits)

section \<open>Properties\<close>

text \<open>
  Reconnecting is throttled and self-healing. When a command finds the
  connection lost, the connection is closed; the next call made in a later second
  connects again before it sends anything, while a call in the second of the last
  attempt reports failure without touching the server.
\<close>

theorem cache_reconnect:
  assumes "context_open c" "command R argv s = (None, s1)"
    and "exec R now argv d f (c, s) = (r, c1, s2)"
  shows "r = d \<and> s2 = s1 \<and> \<not> context_open c1
    \<and> (later < last_connect_time c + 1 \<longrightarrow> Init R later (c1, s2) = (1, c1, s2))
    \<and> (\<not> later < last_connect_time c + 1 \<longrightarrow>
        (\<forall>s3. connect R s2 = (False, s3) \<longrightarrow>
           Init R later (c1, s2) = (1, c1\<lparr>last_connect_time := later\<rparr>, s3)))"
  using assms by (auto simp: exec_open DeInit_def Init_def Let_def)

definition dead_redis :: "nat redis" where
  "dead_redis = \<lparr>connect = (\<lambda>s. (False, Suc s)), command = (\<lambda>_ s. (None, s))\<rparr>"

definition sample_conn :: CacheConn where
  "sample_conn = (newCacheConn ''h'' 6379 0 [] ''msg'')\<lparr>context_open := True, last_connect_time := 7\<rparr>"

theorem cache_reconnect_witness:
  "Init dead_redis 7 (sample_conn\<lparr>context_open := False\<rparr>, 0) = (1, sample_conn\<lparr>context_open := False\<rparr>, 0)"
  using cache_reconnect [of sample_conn dead_redis "[''GET'', ''k'']" 0 0 9 "[]" reply_text "[]"
      "sample_conn\<lparr>context_open := False\<rparr>" 0 7]
  by (simp add: exec_open dead_redis_def sample_conn_def DeInit_def)

text \<open>
  When the server refuses the selected database, \<^verbatim>\<open>Init\<close> reports an error but
  leaves the connection open, and every later \<^verbatim>\<open>Init\<close> then reports success: commands
  go to the wrong database.
\<close>

theorem cache_failed_select_counts_as_ready:
  assumes "\<not> context_open c" "\<not> now < last_connect_time c + 1" "conn_password c = []"
    and "connect R s = (True, s1)"
    and "command R [''SELECT'', dec (unat (conn_db_index c))] s1 = (Some (RError e), s2)"
  shows "\<exists>c'. Init R now (c, s) = (2, c', s2) \<and> Init R later (c', s2) = (0, c', s2)"
  using assms by (auto simp: Init_def Let_def)

definition picky_redis :: "nat redis" where
  "picky_redis = \<lparr>connect = (\<lambda>s. (True, s)), command = (\<lambda>_ s. (Some (RError ''ERR''), s))\<rparr>"

theorem cache_failed_select_counts_as_ready_witness:
  "\<exists>c'. Init picky_redis 5 (newCacheConn ''h'' 6379 99 [] ''msg'', 0) = (2, c', 0)
     \<and> Init picky_redis 6 (c', 0) = (0, c', 0)"
  by (rule cache_failed_select_counts_as_ready [of _ _ _ 0 0 "''ERR''"])
    (simp_all add: newCacheConn_def picky_redis_def)

text \<open>
  The sorted-set methods use the reply without testing it: on a lost
  connection each of them dereferences a null pointer, where the other methods
  close the connection and report failure.
\<close>

theorem zset_lost_connection_crashes:
  assumes "context_open c" "\<forall>argv. fst (command R argv s) = None"
  shows "fst (ZsetExit R now k m (c, s)) = Inl BadOptional
    \<and> fst (ZsetAdd R now k i m (c, s)) = Inl BadOptional
    \<and> fst (ZsetZrem R now k m (c, s)) = Inl BadOptional
    \<and> fst (ZsetIncr R now k m (c, s)) = Inl BadOptional
    \<and> fst (ZsetZcard R now k (c, s)) = Inl BadOptional
    \<and> fst (ZsetZrevrange R now k i j (c, s)) = Inl BadOptional
    \<and> fst (ZsetGetScore R now k m (c, s)) = Inl BadOptional
    \<and> fst (Hget R now k m (c, s)) = [] \<and> fst (Llen R now k (c, s)) = - 1
    \<and> \<not> context_open (fst (snd (Llen R now k (c, s))))"
proof -
  have lost: "\<exists>s'. command R argv s = (None, s')" for argv
    using assms(2) by (cases "command R argv s") (metis fst_conv)
  have un: "fst (exec_unchecked R now argv d f (c, s)) = Inl BadOptional" for argv d and f :: "reply \<Rightarrow> 'x res"
    using lost [of argv] assms(1) by (auto simp: exec_unchecked_def Init_open)
  have ex: "fst (exec R now argv d f (c, s)) = d
      \<and> \<not> context_open (fst (snd (exec R now argv d f (c, s))))" for argv and d :: 'y and f
    using lost [of argv] assms(1) by (auto simp: exec_open DeInit_def)
  show ?thesis
    by (simp add: ZsetExit_def ZsetAdd_def ZsetZrem_def ZsetIncr_def ZsetZcard_def
        ZsetZrevrange_def ZsetGetScore_def Hget_def Llen_def un ex)
qed

theorem zset_lost_connection_crashes_witness:
  "fst (ZsetAdd dead_redis 9 ''k'' 1 ''m'' (sample_conn, 0)) = Inl BadOptional"
  using zset_lost_connection_crashes [of sample_conn dead_redis 0 9 "''k''" "''m''" 1]
  by (simp add: sample_conn_def dead_redis_def)

text \<open>
  \<^verbatim>\<open>FlushDb\<close> reports failure although the database was flushed: Redis answers
  with a status reply, the method accepts only a string reply.
\<close>

theorem FlushDb_status_is_failure:
  assumes "context_open c" "command R [''FLUSHDB''] s = (Some (RStatus ''OK''), s')"
  shows "FlushDb R now (c, s) = (False, c, s')"
  using assms by (simp add: FlushDb_def exec_open)

theorem FlushDb_status_is_failure_witness:
  "FlushDb \<lparr>connect = (\<lambda>s. (True, s)), command = (\<lambda>_ s. (Some (RStatus ''OK''), Suc s))\<rparr> 9 (sample_conn, 0)
     = (False, sample_conn, 1)"
  by (rule FlushDb_status_is_failure) (simp_all add: sample_conn_def)

end
