(* ===== verification/HiredisWire.thy ===== *)
theory HiredisWire
  imports HiredisClient
begin

text \<open>
  The client of \<^verbatim>\<open>hiredis.c\<close> connected to a server through a byte stream. The server is a
  parameter, a function from a command's arguments and its state to a reply; the kernel between
  them delivers bytes in portions of a schedule and interrupts system calls where the schedule says
  so. Shown: a command comes back with exactly the reply the server gave to it and the
  connection is ready for the next one, for every schedule.
\<close>

section \<open>The stream\<close>

record 's wire =
  srv :: 's
  acc :: string        \<comment> \<open>what the server has received of an unfinished command\<close>
  inbound :: string    \<comment> \<open>what the client has not yet read\<close>
  hung :: bool         \<comment> \<open>the server has closed the connection\<close>
  sched :: "nat list"  \<comment> \<open>0: interrupted; \<open>n\<close>: at most \<open>n\<close> bytes; at the end: all\<close>

type_synonym 's server = "string list \<Rightarrow> 's \<Rightarrow> reply option \<times> 's"

fun portion :: "nat list \<Rightarrow> nat \<Rightarrow> nat option \<times> nat list" where
  "portion [] n = (Some n, [])"
| "portion (0 # ps) n = (None, ps)"
| "portion (Suc k # ps) n = (Some (min (Suc k) n), ps)"

fun arg_of :: "robj option \<Rightarrow> string" where
  "arg_of (Some (OString s)) = s"
| "arg_of _ = []"

fun argv_of :: "robj \<Rightarrow> string list" where
  "argv_of (OArray es) = map arg_of es"
| "argv_of _ = []"

text \<open>The server answers a whole command, or closes the connection.\<close>

fun answer :: "reply option \<times> 's \<Rightarrow> 's wire \<Rightarrow> 's wire" where
  "answer (Some rep, s) w = w\<lparr>srv := s, inbound := inbound w @ resp_enc rep\<rparr>"
| "answer (None, s) w = w\<lparr>srv := s, hung := True\<rparr>"

definition serve :: "'s server \<Rightarrow> 's wire \<Rightarrow> 's wire" where
  "serve step w =
     (case redisReaderGetReply (fed (acc w) redisReaderCreate) of
        Inr (True, Some ob, r) \<Rightarrow> answer (step (argv_of ob) (srv w)) (w\<lparr>acc := r_rest r\<rparr>)
      | _ \<Rightarrow> w)"

definition wire_write :: "'s server \<Rightarrow> string \<Rightarrow> 's wire \<Rightarrow> io_write \<times> 's wire" where
  "wire_write step buf w =
     (if hung w then (WriteError IO_FAILED, w)
      else case portion (sched w) (length buf) of
        (None, ps) \<Rightarrow> (WriteError IO_EINTR, w\<lparr>sched := ps\<rparr>)
      | (Some n, ps) \<Rightarrow> (WroteBytes n, serve step (w\<lparr>acc := acc w @ take n buf, sched := ps\<rparr>)))"

text \<open>A read with nothing to deliver times out, or reports the end of the stream.\<close>

definition wire_read :: "nat \<Rightarrow> 's wire \<Rightarrow> io_read \<times> 's wire" where
  "wire_read n w =
     (if inbound w = [] then (if hung w then ReadBytes [] else ReadError IO_EAGAIN, w)
      else case portion (sched w) (min n (length (inbound w))) of
        (None, ps) \<Rightarrow> (ReadError IO_EINTR, w\<lparr>sched := ps\<rparr>)
      | (Some k, ps) \<Rightarrow> (ReadBytes (take k (inbound w)), w\<lparr>inbound := drop k (inbound w), sched := ps\<rparr>))"

definition wire_sock :: "'s server \<Rightarrow> 's wire sock" where
  "wire_sock step = \<lparr>sys_write = wire_write step, sys_read = wire_read\<rparr>"

lemma portion_cases:
  assumes "0 < n"
  obtains (intr) ps where "portion sch n = (None, ps)" "length ps < length sch"
  | (bytes) k ps where "portion sch n = (Some k, ps)" "0 < k" "k \<le> n" "length ps \<le> length sch"
proof (cases sch)
  case (Cons p ps)
  then show thesis using assms intr bytes by (cases p) auto
qed (use assms bytes in auto)

section \<open>Sending\<close>

lemma create_fed: "reader_ok redisReaderCreate" "idle redisReaderCreate"
  by (simp_all add: redisReaderCreate_def reader_ok_def idle_def)

lemma obj_of_argv: "argv_of (obj_of (command_array argv)) = argv"
  by (simp add: o_def)

lemma create_reads_command:
  assumes "length (resp_enc (command_array argv)) < 2 ^ 31"
  shows "\<exists>r. redisReaderGetReply (fed (resp_enc (command_array argv)) redisReaderCreate)
    = Inr (True, Some (obj_of (command_array argv)), r) \<and> r_rest r = []"
  using GetReply_enc [OF create_fed(2) command_wf] assms by (force simp: idle_def redisReaderCreate_def)

lemma serve_whole:
  assumes "length (resp_enc (command_array argv)) < 2 ^ 31" "acc w = resp_enc (command_array argv)"
  shows "serve step w = answer (step argv (srv w)) (w\<lparr>acc := []\<rparr>)"
  using create_reads_command [OF assms(1)] assms(2) obj_of_argv [of argv]
  by (auto simp: serve_def simp del: obj_of.simps resp_enc.simps)

lemma serve_part:
  assumes "length (resp_enc (command_array argv)) < 2 ^ 31" "acc w @ y = resp_enc (command_array argv)" "y \<noteq> []"
  shows "serve step w = w"
proof -
  obtain r where r: "redisReaderGetReply (fed (acc w @ y) redisReaderCreate) = Inr (True, Some (obj_of (command_array argv)), r)"
      "r_rest r = []"
    using create_reads_command [OF assms(1)] assms(2) by auto
  have "reader_ok (fed (acc w @ y) redisReaderCreate)" "r_pos redisReaderCreate \<le> r_len redisReaderCreate"
    using assms(1) unfolding assms(2) by (simp_all add: reader_ok_def redisReaderCreate_def del: resp_enc.simps)
  from GetReply_split [OF this r assms(3)] show ?thesis by (auto simp: serve_def)
qed

lemma wire_write_command:
  assumes "length (resp_enc (command_array argv)) < 2 ^ 31" "\<not> hung w"
    and "c_err c = None" "acc w @ c_obuf c = resp_enc (command_array argv)" "c_obuf c \<noteq> []"
  shows "\<exists>ps. write_until_done (wire_sock step) c w
    = Some (True, c\<lparr>c_obuf := []\<rparr>, answer (step argv (srv w)) (w\<lparr>acc := [], sched := ps\<rparr>))"
  using assms(2-)
proof (induction "length (sched w) + length (c_obuf c)" arbitrary: c w rule: less_induct)
  case less
  have pos: "0 < length (c_obuf c)" using less.prems(4) by simp
  show ?case
  proof (rule portion_cases [OF pos, of "sched w"])
    fix ps assume p: "portion (sched w) (length (c_obuf c)) = (None, ps)" "length ps < length (sched w)"
    have "redisBufferWrite (wire_sock step) c w = (True, False, c, w\<lparr>sched := ps\<rparr>)"
      using p(1) less.prems by (simp add: redisBufferWrite_def wire_sock_def wire_write_def try_later_def)
    then show ?thesis using less.hyps [of "w\<lparr>sched := ps\<rparr>" c] p(2) less.prems by (simp add: write_until_done.simps [of _ c w])
  next
    fix k ps assume p: "portion (sched w) (length (c_obuf c)) = (Some k, ps)" "0 < k" "k \<le> length (c_obuf c)" "length ps \<le> length (sched w)"
    let ?w = "w\<lparr>acc := acc w @ take k (c_obuf c), sched := ps\<rparr>" and ?c = "c\<lparr>c_obuf := drop k (c_obuf c)\<rparr>"
    have b: "redisBufferWrite (wire_sock step) c w = (True, c_obuf ?c = [], ?c, serve step ?w)"
      using p(1) less.prems by (simp add: redisBufferWrite_def wire_sock_def wire_write_def)
    have all: "acc ?w @ c_obuf ?c = resp_enc (command_array argv)" using less.prems(3) by simp
    show ?thesis
    proof (cases "c_obuf ?c = []")
      case True
      have "?w\<lparr>acc := []\<rparr> = w\<lparr>acc := [], sched := ps\<rparr>" by simp
      then have "serve step ?w = answer (step argv (srv w)) (w\<lparr>acc := [], sched := ps\<rparr>)"
        using serve_whole [OF assms(1), of ?w step] all True by (simp only: append_Nil2) simp
      then show ?thesis using b True p(3) by (intro exI [of _ ps]) (simp add: write_until_done.simps [of _ c w])
    next
      case False
      have "serve step ?w = ?w" by (rule serve_part [OF assms(1) all False])
      then show ?thesis using less.hyps [of ?w ?c] b p(2-4) False all less.prems by (auto simp: write_until_done.simps [of _ c w])
    qed
  qed
qed

section \<open>Receiving\<close>

lemma GetReply_pos:
  assumes "redisReaderGetReply r = Inr (True, Some ob, r')"
  shows "r_pos r' < 1024"
  using assms by (auto simp: redisReaderGetReply_def emit_reply_def discard_def Let_def and_then_eq_Inr split: if_splits)

lemma GetReplyFromReader_fed:
  "redisReaderGetReply r = Inr (True, rep, r1) \<Longrightarrow> c_reader c = r \<Longrightarrow>
     redisGetReplyFromReader c = Inr (True, rep, c\<lparr>c_reader := r1\<rparr>)"
  by (simp add: redisGetReplyFromReader_def)

text \<open>One turn of the reading loop: some bytes, perhaps none, are fed.\<close>

lemma wire_BufferRead:
  assumes "c_err c = None" "inbound w \<noteq> []" "r_err (c_reader c) = None"
  obtains x y ps where "redisBufferRead (wire_sock step) c w = (True, c\<lparr>c_reader := fed x (c_reader c)\<rparr>, w\<lparr>inbound := y, sched := ps\<rparr>)"
    "inbound w = x @ y" "length ps + length y < length (sched w) + length (inbound w)"
proof -
  have pos: "0 < min 16384 (length (inbound w))" using assms(2) by simp
  show thesis
  proof (rule portion_cases [OF pos, of "sched w"])
    fix ps assume p: "portion (sched w) (min 16384 (length (inbound w))) = (None, ps)" "length ps < length (sched w)"
    then have "redisBufferRead (wire_sock step) c w
        = (True, c\<lparr>c_reader := fed [] (c_reader c)\<rparr>, w\<lparr>inbound := inbound w, sched := ps\<rparr>)"
      using assms by (simp add: redisBufferRead_def wire_sock_def wire_read_def try_later_def)
    then show thesis by (rule that) (use p(2) in simp_all)
  next
    fix k ps assume p: "portion (sched w) (min 16384 (length (inbound w))) = (Some k, ps)" "0 < k" "k \<le> min 16384 (length (inbound w))"
      "length ps \<le> length (sched w)"
    then have "redisBufferRead (wire_sock step) c w
        = (True, c\<lparr>c_reader := fed (take k (inbound w)) (c_reader c)\<rparr>, w\<lparr>inbound := drop k (inbound w), sched := ps\<rparr>)"
      using assms by (simp add: redisBufferRead_def wire_sock_def wire_read_def redisReaderFeed_fed)
    then show thesis by (rule that) (use p(2-4) in auto)
  qed
qed

lemma wire_read_reply:
  assumes "c_err c = None" "inbound w \<noteq> []" "reader_ok (fed (inbound w) (c_reader c))" "r_pos (c_reader c) \<le> r_len (c_reader c)"
    and "redisReaderGetReply (fed (inbound w) (c_reader c)) = Inr (True, Some ob, r')" "r_rest r' = []" "r_stack r' = []"
  shows "\<exists>ps r2. read_until_reply (wire_sock step) c w
    = Some (Inr (True, Some ob, c\<lparr>c_reader := r2\<rparr>, w\<lparr>inbound := [], sched := ps\<rparr>)) \<and> idle r2 \<and> r_pos r2 < 1024"
  using assms
proof (induction "length (sched w) + length (inbound w)" arbitrary: c w r' rule: less_induct)
  case less
  have "r_err (c_reader c) = None" using less.prems(3) by (simp add: reader_ok_def)
  then obtain x y ps where
    b: "redisBufferRead (wire_sock step) c w = (True, c\<lparr>c_reader := fed x (c_reader c)\<rparr>, w\<lparr>inbound := y, sched := ps\<rparr>)"
      "inbound w = x @ y" "length ps + length y < length (sched w) + length (inbound w)"
    using wire_BufferRead [OF less.prems(1,2)] by metis
  show ?case
  proof (cases "y = []")
    case True
    then have g: "redisReaderGetReply (fed x (c_reader c)) = Inr (True, Some ob, r')" using less.prems(5) b(2) by simp
    then have "idle r'" using GetReply_keeps [of "fed x (c_reader c)" _ r'] less.prems(3,6,7) b(2) True by (simp add: idle_def)
    then show ?thesis using True b(1) GetReplyFromReader_fed [OF g, of "c\<lparr>c_reader := fed x (c_reader c)\<rparr>"] GetReply_pos [OF g]
      by (auto simp: read_until_reply.simps [of _ c w])
  next
    case False
    obtain r1 r2 where r1: "redisReaderGetReply (fed x (c_reader c)) = Inr (True, None, r1)" "reader_ok (fed y r1)"
        "r_pos r1 \<le> r_len r1" "redisReaderGetReply (fed y r1) = Inr (True, Some ob, r2)" "eqv r2 r'"
      using GetReply_split [OF _ less.prems(4) _ less.prems(6) False, of x ob] less.prems(3,5) b(2) by auto
    have "r_rest r2 = []" "r_stack r2 = []" using r1(5) less.prems(6,7) by (simp_all only: eqv_def)
    then show ?thesis
      using less.hyps [of "w\<lparr>inbound := y, sched := ps\<rparr>" "c\<lparr>c_reader := r1\<rparr>" r2] b(1,3) r1 False less.prems(1)
        GetReplyFromReader_fed [OF r1(1), of "c\<lparr>c_reader := fed x (c_reader c)\<rparr>"]
      by (simp add: read_until_reply.simps [of _ c w])
  qed
qed

section \<open>A command and its reply\<close>

text \<open>A context that is ready for a command.\<close>

definition client_ready :: "redisContext \<Rightarrow> bool" where
  "client_ready c \<longleftrightarrow> c_err c = None \<and> c_block c \<and> c_obuf c = [] \<and> idle (c_reader c) \<and> r_pos (c_reader c) < 1024"

lemma client_ready_init: "client_ready (redisContextInit True)"
  by (simp add: client_ready_def redisContextInit_def redisReaderCreate_def idle_def reader_ok_def)

text \<open>The replies the client can read, and the commands it can send.\<close>

definition sendable :: "string list \<Rightarrow> bool" where
  "sendable argv \<longleftrightarrow> length (resp_enc (command_array argv)) < 2 ^ 31"

definition readable :: "reply \<Rightarrow> bool" where
  "readable rep \<longleftrightarrow> resp_wf rep \<and> nesting rep \<le> 8 \<and> length (resp_enc rep) + 1024 \<le> 2 ^ 31"

text \<open>Sending leaves the reader waiting: asking it beforehand changes nothing.\<close>

lemma idle_waits:
  assumes "idle r" "r_pos r < 1024"
  obtains r1 where "redisReaderGetReply r = Inr (True, None, r1)" "reader_ok r1"
    "\<And>rep. readable rep \<Longrightarrow> reader_ok (fed (resp_enc rep) r1)
      \<and> (\<exists>r2. redisReaderGetReply (fed (resp_enc rep) r1) = Inr (True, Some (obj_of rep), r2) \<and> r_rest r2 = [] \<and> r_stack r2 = [])"
proof -
  have len: "r_pos r = r_len r" using assms(1) by (auto simp: idle_def reader_ok_def)
  have one: "\<exists>r1 r2. redisReaderGetReply r = Inr (True, None, r1) \<and> reader_ok r1 \<and> reader_ok (fed (resp_enc rep) r1)
      \<and> redisReaderGetReply (fed (resp_enc rep) r1) = Inr (True, Some (obj_of rep), r2) \<and> r_rest r2 = [] \<and> r_stack r2 = []"
    if rep: "readable rep" for rep
  proof -
    have ne: "resp_enc rep \<noteq> []" by (cases rep) simp_all
    have fits: "r_len r + length (resp_enc rep) < 2 ^ 31" using len assms(2) rep by (simp add: readable_def)
    obtain r' where r': "redisReaderGetReply (fed (resp_enc rep) r) = Inr (True, Some (obj_of rep), r')" "idle r'"
      using GetReply_enc [OF assms(1) _ _ fits] rep by (auto simp: readable_def)
    have ok: "reader_ok (fed ([] @ resp_enc rep) r)" "r_pos r \<le> r_len r"
      using assms(1) fits by (simp_all add: idle_def reader_ok_def)
    have rest: "r_rest r' = []" using r'(2) by (simp add: idle_def)
    obtain r1 r2 where r1: "redisReaderGetReply r = Inr (True, None, r1)" "reader_ok (fed (resp_enc rep) r1)"
        "redisReaderGetReply (fed (resp_enc rep) r1) = Inr (True, Some (obj_of rep), r2)" "eqv r2 r'"
      using GetReply_split [OF ok _ rest ne] r'(1) by auto
    have "r_rest r2 = []" "r_stack r2 = []" using r1(4) r'(2) rest by (simp_all only: eqv_def idle_def)
    moreover have "reader_ok r1" using GetReply_keeps [OF _ r1(1)] assms(1) by (simp add: idle_def)
    ultimately show ?thesis using r1(1-3) by blast
  qed
  have "readable RNil" by (simp add: readable_def CRLF_def)
  from one [OF this] obtain r1 where r1: "redisReaderGetReply r = Inr (True, None, r1)" "reader_ok r1" by blast
  show thesis
  proof (rule that [OF r1])
    fix rep assume "readable rep"
    from one [OF this] r1(1) show "reader_ok (fed (resp_enc rep) r1)
      \<and> (\<exists>r2. redisReaderGetReply (fed (resp_enc rep) r1) = Inr (True, Some (obj_of rep), r2) \<and> r_rest r2 = [] \<and> r_stack r2 = [])"
      by auto
  qed
qed

text \<open>A context that has lost its server.\<close>

definition client_dead :: "redisContext \<Rightarrow> bool" where
  "client_dead c \<longleftrightarrow> c_err c \<noteq> None \<and> c_block c \<and> reader_ok (c_reader c)
     \<and> (\<exists>r1. redisReaderGetReply (c_reader c) = Inr (True, None, r1))"

lemma waits_again:
  assumes "reader_ok r" "redisReaderGetReply r = Inr (True, None, r1)"
  shows "\<exists>r2. redisReaderGetReply r1 = Inr (True, None, r2)"
  using GetReply_waits [of "[]" "[]" r r1] assms by (auto simp: reader_ok_def rel_sum.simps)

text \<open>What comes of a command whose bytes are in the output buffer.\<close>

fun exchanged :: "reply option \<times> 's \<Rightarrow> 's wire \<Rightarrow> (bool \<times> robj option \<times> redisContext \<times> 's wire) res option \<Rightarrow> bool" where
  "exchanged (Some rep, s) w m =
     (\<exists>c' ps. m = Some (Inr (True, Some (obj_of rep), c', w\<lparr>srv := s, sched := ps\<rparr>)) \<and> client_ready c')"
| "exchanged (None, s) w m =
     (\<exists>c' ps. m = Some (Inr (False, None, c', w\<lparr>srv := s, hung := True, sched := ps\<rparr>)) \<and> client_dead c')"

lemma wire_GetReply:
  assumes ready: "c_err c = None" "c_block c" "idle (c_reader c)" "r_pos (c_reader c) < 1024"
    and cmd: "c_obuf c = resp_enc (command_array argv)" "sendable argv"
    and wire: "acc w = []" "inbound w = []" "\<not> hung w" "pred_option readable (fst (step argv (srv w)))"
  shows "exchanged (step argv (srv w)) w (redisGetReply (wire_sock step) c w)"
proof -
  obtain r1 where r1: "redisReaderGetReply (c_reader c) = Inr (True, None, r1)" "reader_ok r1"
    "\<And>rep. readable rep \<Longrightarrow> reader_ok (fed (resp_enc rep) r1)
      \<and> (\<exists>r2. redisReaderGetReply (fed (resp_enc rep) r1) = Inr (True, Some (obj_of rep), r2) \<and> r_rest r2 = [] \<and> r_stack r2 = [])"
    using idle_waits [OF ready(3,4)] by blast
  let ?c = "c\<lparr>c_reader := r1\<rparr>" and ?d = "c\<lparr>c_obuf := [], c_reader := r1\<rparr>"
  obtain ps where wr: "write_until_done (wire_sock step) ?c w = Some (True, ?d, answer (step argv (srv w)) (w\<lparr>acc := [], sched := ps\<rparr>))"
    using wire_write_command [of argv w ?c step] ready(1) cmd wire by (auto simp: sendable_def)
  have get: "redisGetReply (wire_sock step) c w
      = read_until_reply (wire_sock step) ?d (answer (step argv (srv w)) (w\<lparr>acc := [], sched := ps\<rparr>))"
    using GetReplyFromReader_fed [OF r1(1), of c] wr ready(2) by (simp add: redisGetReply_def)
  show ?thesis
  proof (cases "step argv (srv w)")
    case (Pair rep s)
    show ?thesis
    proof (cases rep)
      case None
      let ?w = "w\<lparr>srv := s, hung := True, sched := ps\<rparr>" and ?e = "redisSetError REDIS_ERR_EOF ''Server closed the connection'' ?d"
      have "redisBufferRead (wire_sock step) ?d ?w = (False, ?e, ?w)"
        using ready(1) wire by (simp add: redisBufferRead_def wire_sock_def wire_read_def)
      moreover have "answer (step argv (srv w)) (w\<lparr>acc := [], sched := ps\<rparr>) = ?w" using Pair None wire(1) by simp
      ultimately have "redisGetReply (wire_sock step) c w = Some (Inr (False, None, ?e, ?w))"
        unfolding get by (simp add: read_until_reply.simps [of _ ?d ?w])
      moreover have "client_dead ?e"
        using ready(2,3) r1(2) waits_again [OF _ r1(1)] by (simp add: client_dead_def redisSetError_def idle_def)
      ultimately show ?thesis using Pair None by auto
    next
      case (Some v)
      let ?w = "w\<lparr>srv := s, acc := [], inbound := resp_enc v, sched := ps\<rparr>"
      have v: "readable v" using wire(4) Pair Some by simp
      have ne: "resp_enc v \<noteq> []" by (cases v) simp_all
      obtain r2 where r2: "reader_ok (fed (resp_enc v) r1)" "redisReaderGetReply (fed (resp_enc v) r1) = Inr (True, Some (obj_of v), r2)"
          "r_rest r2 = []" "r_stack r2 = []"
        using r1(3) [OF v] by blast
      have a: "answer (step argv (srv w)) (w\<lparr>acc := [], sched := ps\<rparr>) = ?w" using Pair Some wire(2) by simp
      obtain ps' r3 where r3: "read_until_reply (wire_sock step) ?d ?w
          = Some (Inr (True, Some (obj_of v), ?d\<lparr>c_reader := r3\<rparr>, ?w\<lparr>inbound := [], sched := ps'\<rparr>))" "idle r3" "r_pos r3 < 1024"
        using wire_read_reply [of ?d ?w "obj_of v" r2 step] ready(1) ne r1(2) r2 by (auto simp: reader_ok_def)
      have w': "?w\<lparr>inbound := [], sched := ps'\<rparr> = w\<lparr>srv := s, sched := ps'\<rparr>" using wire(1,2) by simp
      have "client_ready (?d\<lparr>c_reader := r3\<rparr>)" using ready(1,2) r3(2,3) by (simp add: client_ready_def)
      then show ?thesis using r3(1) unfolding get a unfolding Pair Some w' exchanged.simps by blast
    qed
  qed
qed

lemma redisvCommand_Argv:
  assumes "list_all (\<lambda>w. w \<noteq> [] \<and> list_all piece_ok w) ws" "sendable (map (concat \<circ> map piece_text) ws)"
  shows "redisvCommand pf S (words_fmt ws) (concat (map (concat \<circ> map piece_va) ws)) c w
    = redisCommandArgv S (map (concat \<circ> map piece_text) ws) c w"
  using assms fmt_loop_words [OF assms(1), of pf "[]"]
  by (simp add: redisvCommand_def redisCommandArgv_def redisvAppendCommand_def redisAppendCommandArgv_def sendable_def
      redisvFormatCommand_def build_command_enc sds_command_enc del: resp_enc.simps map_map)

text \<open>The outcome of a whole command.\<close>

fun commanded :: "reply option \<times> 's \<Rightarrow> 's wire \<Rightarrow> (robj option \<times> redisContext \<times> 's wire) res option \<Rightarrow> bool" where
  "commanded (Some rep, s) w m =
     (\<exists>c' ps. m = Some (Inr (Some (obj_of rep), c', w\<lparr>srv := s, sched := ps\<rparr>)) \<and> client_ready c')"
| "commanded (None, s) w m =
     (\<exists>c' ps. m = Some (Inr (None, c', w\<lparr>srv := s, hung := True, sched := ps\<rparr>)) \<and> client_dead c')"

lemma commanded_Argv:
  assumes "client_ready c" "sendable argv"
    and "acc w = []" "inbound w = []" "\<not> hung w" "pred_option readable (fst (step argv (srv w)))"
  shows "commanded (step argv (srv w)) w (redisCommandArgv (wire_sock step) argv c w)"
proof -
  let ?c = "c\<lparr>c_obuf := resp_enc (command_array argv)\<rparr>"
  have g: "exchanged (step argv (srv w)) w (redisGetReply (wire_sock step) ?c w)"
    using wire_GetReply [of ?c argv w step] assms by (auto simp: client_ready_def simp del: resp_enc.simps)
  have "redisCommandArgv (wire_sock step) argv c w = redisBlockForReply (wire_sock step) ?c w"
    using assms(1,2) by (simp add: redisCommandArgv_def after_append_def redisAppendCommandArgv_def sds_command_enc sendable_def
        redisAppendFormattedCommand_def client_ready_def del: resp_enc.simps)
  moreover have "c_block ?c" using assms(1) by (simp add: client_ready_def)
  moreover obtain rep s where "step argv (srv w) = (rep, s)" by fastforce
  ultimately show ?thesis using g by (cases rep) (auto simp: redisBlockForReply_def)
qed

text \<open>A context that has lost its server answers nothing and touches nothing.\<close>

lemma dead_Argv:
  assumes "client_dead c" "sendable argv"
  shows "\<exists>c'. redisCommandArgv S argv c w = Some (Inr (None, c', w)) \<and> client_dead c'"
proof -
  obtain r1 where r1: "redisReaderGetReply (c_reader c) = Inr (True, None, r1)" using assms(1) by (auto simp: client_dead_def)
  let ?c = "c\<lparr>c_obuf := c_obuf c @ resp_enc (command_array argv)\<rparr>" and ?d = "c\<lparr>c_obuf := c_obuf c @ resp_enc (command_array argv), c_reader := r1\<rparr>"
  have "write_until_done S ?d w = Some (False, ?d, w)"
    using assms(1) by (simp add: write_until_done.simps [of _ ?d] redisBufferWrite_def client_dead_def del: resp_enc.simps)
  then have "redisGetReply S ?c w = Some (Inr (False, None, ?d, w))"
    using GetReplyFromReader_fed [OF r1, of ?c] assms(1) by (simp add: redisGetReply_def client_dead_def del: resp_enc.simps)
  then have "redisCommandArgv S argv c w = Some (Inr (None, ?d, w))"
    using assms by (simp add: redisCommandArgv_def after_append_def redisAppendCommandArgv_def sds_command_enc sendable_def
        redisAppendFormattedCommand_def redisBlockForReply_def client_dead_def del: resp_enc.simps)
  moreover have "client_dead ?d"
    using assms(1) waits_again [OF _ r1] GetReply_keeps [OF _ r1] by (simp add: client_dead_def)
  ultimately show ?thesis by blast
qed

section \<open>Properties\<close>

text \<open>
  C12: a command gets its own reply. On a context that is ready, a command sent with
  \<^verbatim>\<open>redisvCommand\<close> and a format of its words returns exactly the reply the server gave to exactly
  these arguments, for every way in which the kernel splits and interrupts the transfers; the
  call returns, the server has executed the command once, and the context is ready for the
  next command with no byte left over. If the server closes the connection instead, the call
  returns without a reply and the context with an error.
\<close>

theorem command_exchange:
  assumes "client_ready c" "sendable (map (concat \<circ> map piece_text) ws)" "list_all (\<lambda>w. w \<noteq> [] \<and> list_all piece_ok w) ws"
    and "acc w = []" "inbound w = []" "\<not> hung w"
    and "step (map (concat \<circ> map piece_text) ws) (srv w) = (rep, s)" "pred_option readable rep"
  shows "\<exists>c' ps. redisvCommand pf (wire_sock step) (words_fmt ws) (concat (map (concat \<circ> map piece_va) ws)) c w
      = Some (Inr (map_option obj_of rep, c', w\<lparr>srv := s, hung := (rep = None), sched := ps\<rparr>))
    \<and> (if rep = None then c_err c' \<noteq> None else client_ready c')"
proof -
  have "commanded (rep, s) w (redisCommandArgv (wire_sock step) (map (concat \<circ> map piece_text) ws) c w)"
    using commanded_Argv [OF assms(1,2,4-6), of step] assms(7,8) by simp
  moreover have "w\<lparr>srv := s, sched := ps\<rparr> = w\<lparr>srv := s, hung := False, sched := ps\<rparr>" for ps using assms(6) by simp
  ultimately show ?thesis
    unfolding redisvCommand_Argv [OF assms(3,2)] by (cases rep) (auto simp: client_dead_def)
qed

definition counting_server :: "nat server" where
  "counting_server argv n = (Some (RInteger (int n)), Suc n)"

theorem command_exchange_witness:
  "\<exists>c' ps. redisvCommand (\<lambda>f a. []) (wire_sock counting_server) ''INCR %s'' [VaStr ''a b''] (redisContextInit True)
      \<lparr>srv = 4, acc = [], inbound = [], hung = False, sched = [3, 0, 5, 0, 2, 100, 1, 0, 1]\<rparr>
      = Some (Inr (Some (OInteger 4), c', \<lparr>srv = 5, acc = [], inbound = [], hung = False, sched = ps\<rparr>)) \<and> client_ready c'"
proof -
  let ?ws = "[[Plain ''INCR''], [StrArg ''a b'']]"
    and ?w = "\<lparr>srv = 4 :: nat, acc = [], inbound = [], hung = False, sched = [3, 0, 5, 0, 2, 100, 1, 0, 1]\<rparr>"
  have "length (resp_enc (command_array (map (concat \<circ> map piece_text) ?ws))) = 23" by code_simp
  then have "sendable (map (concat \<circ> map piece_text) ?ws)" by (simp add: sendable_def del: resp_enc.simps)
  moreover have "length (resp_enc (RInteger 4)) = 4" by code_simp
  then have "readable (RInteger 4)" by (simp add: readable_def del: resp_enc.simps)
  moreover have "counting_server (map (concat \<circ> map piece_text) ?ws) 4 = (Some (RInteger 4), 5)" by (simp add: counting_server_def)
  ultimately show ?thesis
    using command_exchange [OF client_ready_init, of ?ws ?w counting_server "Some (RInteger 4)" 5 "\<lambda>f a. []"] by auto
qed

end
