(* ===== verification/RedisOverWire.thy ===== *)
theory RedisOverWire
  imports CacheConn HiredisWire
begin

text \<open>
  The Redis connection of \<^verbatim>\<open>cache_pool.cc\<close> composed with the hiredis client. First what each method of
  \<open>CacheConn\<close> promises, as a table of words sent and answers given, and the protocol of a connection
  as a specification over the server itself: when it dials, how it greets the server, when it gives up. The methods see the server
  through an interface with two operations; the locale \<open>redis_sim\<close>
  states when one implementation of it behaves like another and carries this over to the methods.
  The interpretation shows it for the client of \<open>HiredisClient\<close> over a byte stream against the server itself.
\<close>

section \<open>The calls of the class and what they promise\<close>

text \<open>One constructor for each method of \<^verbatim>\<open>CacheConn\<close>, with the arguments of the method.\<close>

datatype cache_call =
    CGet string | CSet string string | CSetEx string int string
  | CMGet "string list" "(string \<times> string) list"
  | CIsExists string | CDel string | CIncr string | CDecr string int | CIncrBy string int
  | CHdel string string | CHget string string | CHgetBuf string string nat
  | CHgetAll string "(string \<times> string) list" | CHset string string string | CHincrBy string string int
  | CHmset string "(string \<times> string) list" | CHmget string "string list" "string list"
  | CLpush string string | CRpush string string | CLlen string | CLrange string int int "string list"
  | CZsetExit string string | CZsetAdd string int string | CZsetZrem string string | CZsetIncr string string
  | CZsetZcard string | CZsetZrevrange string int int | CZsetGetScore string string
  | CGetXrevrange string string string int | CXadd string string "(string \<times> string) list" | CFlushDb

text \<open>What a call returns to its caller, out parameters included; \<open>Crashed\<close> is a null pointer or a bad index used.\<close>

datatype cache_result =
    Text string | Num int | Flag bool | Code int int | Texts bool "string list" | Pairs bool "(string \<times> string) list"
  | Copied int "string option" | Rows int "string list" | NewId bool string | Crashed exn

definition outcome_of :: "('a \<Rightarrow> cache_result) \<Rightarrow> 'a res \<Rightarrow> cache_result" where
  "outcome_of k r = (case r of Inl e \<Rightarrow> Crashed e | Inr x \<Rightarrow> k x)"

primrec run_call :: "'s redis \<Rightarrow> u64 \<Rightarrow> cache_call \<Rightarrow> CacheConn \<times> 's \<Rightarrow> cache_result \<times> CacheConn \<times> 's" where
  "run_call R now (CGet k) cs = apfst Text (Get R now k cs)"
| "run_call R now (CSet k v) cs = apfst Text (Set R now k v cs)"
| "run_call R now (CSetEx k t v) cs = apfst Text (SetEx R now k t v cs)"
| "run_call R now (CMGet ks m) cs = apfst (outcome_of (\<lambda>(b, m). Pairs b m)) (MGet R now ks m cs)"
| "run_call R now (CIsExists k) cs = apfst Flag (IsExists R now k cs)"
| "run_call R now (CDel k) cs = apfst Num (Del R now k cs)"
| "run_call R now (CIncr k) cs = apfst (\<lambda>(r, v). Code r v) (Incr R now k cs)"
| "run_call R now (CDecr k v) cs = apfst (\<lambda>(r, v). Code r v) (Decr R now k v cs)"
| "run_call R now (CIncrBy k i) cs = apfst Num (IncrBy R now k i cs)"
| "run_call R now (CHdel k f) cs = apfst Num (Hdel R now k f cs)"
| "run_call R now (CHget k f) cs = apfst Text (Hget R now k f cs)"
| "run_call R now (CHgetBuf k f n) cs = apfst (outcome_of (\<lambda>(r, v). Copied r v)) (Hget_buf R now k f n cs)"
| "run_call R now (CHgetAll k m) cs = apfst (\<lambda>(b, m). Pairs b m) (HgetAll R now k m cs)"
| "run_call R now (CHset k f v) cs = apfst Num (Hset R now k f v cs)"
| "run_call R now (CHincrBy k f i) cs = apfst Num (HincrBy R now k f i cs)"
| "run_call R now (CHmset k h) cs = apfst Text (Hmset R now k h cs)"
| "run_call R now (CHmget k fs l) cs = apfst (\<lambda>(b, l). Texts b l) (Hmget R now k fs l cs)"
| "run_call R now (CLpush k v) cs = apfst Num (Lpush R now k v cs)"
| "run_call R now (CRpush k v) cs = apfst Num (Rpush R now k v cs)"
| "run_call R now (CLlen k) cs = apfst Num (Llen R now k cs)"
| "run_call R now (CLrange k i j l) cs = apfst (\<lambda>(b, l). Texts b l) (Lrange R now k i j l cs)"
| "run_call R now (CZsetExit k m) cs = apfst (outcome_of Num) (ZsetExit R now k m cs)"
| "run_call R now (CZsetAdd k i m) cs = apfst (outcome_of Num) (ZsetAdd R now k i m cs)"
| "run_call R now (CZsetZrem k m) cs = apfst (outcome_of Num) (ZsetZrem R now k m cs)"
| "run_call R now (CZsetIncr k m) cs = apfst (outcome_of Num) (ZsetIncr R now k m cs)"
| "run_call R now (CZsetZcard k) cs = apfst (outcome_of Num) (ZsetZcard R now k cs)"
| "run_call R now (CZsetZrevrange k i j) cs = apfst (outcome_of (\<lambda>(r, v). Rows r v)) (ZsetZrevrange R now k i j cs)"
| "run_call R now (CZsetGetScore k m) cs = apfst (outcome_of Num) (ZsetGetScore R now k m cs)"
| "run_call R now (CGetXrevrange k a b n) cs = apfst (outcome_of (\<lambda>(b, m). Pairs b m)) (GetXrevrange R now k a b n cs)"
| "run_call R now (CXadd k i kvs) cs = apfst (outcome_of (\<lambda>(b, i). NewId b i)) (Xadd R now k i kvs cs)"
| "run_call R now CFlushDb cs = apfst Flag (FlushDb R now cs)"

text \<open>
  What a method promises, written down without the connection: what it returns while there is no usable
  connection, and otherwise either nothing to send, or the words of one command, what it returns when there is no
  reply to it, whether it then gives the connection up, and what it makes of the reply.
\<close>

datatype action =
    Nothing cache_result bool
  | Ask "string list" cache_result bool "reply \<Rightarrow> cache_result"

type_synonym promise = "cache_result \<times> action"

text \<open>Most methods return the same value without a connection and without a reply, and then give the connection up.\<close>

definition careful :: "string list \<Rightarrow> cache_result \<Rightarrow> (reply \<Rightarrow> cache_result) \<Rightarrow> promise" where
  "careful ws d f = (d, Ask ws d True f)"

text \<open>The methods of sorted sets use the reply before they look whether there is one.\<close>

definition careless :: "string list \<Rightarrow> cache_result \<Rightarrow> (reply \<Rightarrow> cache_result) \<Rightarrow> promise" where
  "careless ws d f = (d, Ask ws (Crashed BadOptional) False f)"

definition string_reply :: "reply \<Rightarrow> string" where
  "string_reply rep = (case rep of RString v \<Rightarrow> v | _ \<Rightarrow> [])"

definition if_integer :: "(int \<Rightarrow> int) \<Rightarrow> reply \<Rightarrow> cache_result" where
  "if_integer g rep = Num (case rep of RInteger i \<Rightarrow> g i | _ \<Rightarrow> - 1)"

primrec promised :: "cache_call \<Rightarrow> promise" where
  "promised (CGet k) = careful [''GET'', c_str k] (Text []) (\<lambda>rep. Text (string_reply rep))"
| "promised (CSet k v) = careful [''SET'', c_str k, c_str v] (Text []) (\<lambda>rep. Text (reply_text rep))"
| "promised (CSetEx k t v) = careful [''SETEX'', c_str k, dec_int t, c_str v] (Text []) (\<lambda>rep. Text (reply_text rep))"
| "promised (CMGet ks m) =
     (Pairs False m,
      if concat ks = [] \<and> length ks \<le> 1 then Nothing (Pairs False m) False
      else case fmt_loop (\<lambda>_ _. []) (c_str (''MGET '' @ join_blank ks)) [] ([], False, []) of
          Inl e \<Rightarrow> Nothing (Crashed e) False
        | Inr None \<Rightarrow> Nothing (Pairs False m) True
        | Inr (Some ws) \<Rightarrow> Ask ws (Pairs False m) True (\<lambda>rep. outcome_of (Pairs True) (mget_assign ks (reply_elements rep) m)))"
| "promised (CIsExists k) = careful [''EXISTS'', c_str k] (Flag False) (\<lambda>rep. Flag (reply_integer rep \<noteq> 0))"
| "promised (CDel k) = careful [''DEL'', c_str k] (Num 0) (\<lambda>rep. Num (reply_integer rep))"
| "promised (CIncr k) = careful [''INCR'', c_str k] (Code (- 1) 0) (\<lambda>rep. Code 0 (reply_integer rep))"
| "promised (CDecr k v) = careful [''DECR'', c_str k] (Code (- 1) v) (\<lambda>rep. Code 0 (reply_integer rep))"
| "promised (CIncrBy k i) = careful [''INCRBY'', c_str k, dec_int i] (Num (- 1)) (\<lambda>rep. Num (reply_integer rep))"
| "promised (CHdel k f) = careful [''HDEL'', c_str k, c_str f] (Num (- 1)) (\<lambda>rep. Num (reply_integer rep))"
| "promised (CHget k f) = careful [''HGET'', c_str k, c_str f] (Text []) (\<lambda>rep. Text (string_reply rep))"
| "promised (CHgetBuf k f n) =
     (Copied (- 1) None, Ask [''hget'', c_str k, c_str f] (Copied (- 1) None) False
        (\<lambda>rep. case rep of
           RString v \<Rightarrow> if min 1024 (length v) < n then Copied 0 (Some (c_str (take 1024 v))) else Crashed OutOfBounds
         | _ \<Rightarrow> Copied (- 1) None))"
| "promised (CHgetAll k m) = careful [''HGETALL'', c_str k] (Pairs False m)
     (\<lambda>rep. Pairs True (if even (length (reply_elements rep)) then insert_pairs (pair_up (reply_elements rep)) m else m))"
| "promised (CHset k f v) = careful [''HSET'', c_str k, c_str f, c_str v] (Num (- 1)) (\<lambda>rep. Num (reply_integer rep))"
| "promised (CHincrBy k f i) = careful [''HINCRBY'', c_str k, c_str f, dec_int i] (Num (- 1)) (\<lambda>rep. Num (reply_integer rep))"
| "promised (CHmset k h) = careful (''HMSET'' # c_str k # concat (map (\<lambda>(f, v). [c_str f, c_str v]) h)) (Text []) (\<lambda>rep. Text (reply_text rep))"
| "promised (CHmget k fs l) = careful (''HMGET'' # c_str k # map c_str fs) (Texts False l)
     (\<lambda>rep. Texts True (l @ map reply_text (reply_elements rep)))"
| "promised (CLpush k v) = careful [''LPUSH'', c_str k, c_str v] (Num (- 1)) (\<lambda>rep. Num (reply_integer rep))"
| "promised (CRpush k v) = careful [''RPUSH'', c_str k, c_str v] (Num (- 1)) (\<lambda>rep. Num (reply_integer rep))"
| "promised (CLlen k) = careful [''LLEN'', c_str k] (Num (- 1)) (\<lambda>rep. Num (reply_integer rep))"
| "promised (CLrange k i j l) = careful [''LRANGE'', c_str k, dec_int i, dec_int j] (Texts False l)
     (\<lambda>rep. Texts True (l @ map reply_text (reply_elements rep)))"
| "promised (CZsetExit k m) = careless [''zlexcount'', c_str k, ''['' @ c_str m, ''['' @ c_str m] (Num (- 1)) (if_integer (\<lambda>i. i))"
| "promised (CZsetAdd k i m) = careless [''ZADD'', c_str k, dec_int i, c_str m] (Num (- 1)) (if_integer (\<lambda>_. 0))"
| "promised (CZsetZrem k m) = careless [''ZREM'', c_str k, c_str m] (Num (- 1)) (if_integer (\<lambda>_. 0))"
| "promised (CZsetIncr k m) = careless [''ZINCRBY'', c_str k, ''1'', c_str m] (Num 0)
     (\<lambda>rep. outcome_of (\<lambda>t. Num (if t = ''OK'' then 0 else - 1)) (reply_cstr rep))"
| "promised (CZsetZcard k) = careless [''ZCARD'', c_str k] (Num (- 1)) (if_integer (\<lambda>i. i))"
| "promised (CZsetZrevrange k i j) = careless [''ZREVRANGE'', c_str k, dec_int i, dec_int j] (Rows (- 1) [])
     (\<lambda>rep. case rep of
        RArray rs \<Rightarrow> outcome_of (\<lambda>ss. Rows 0 (map (take 1023) ss))
          (all_cstrs (if i \<le> j + 1 then take (nat (j - i + 1)) rs else rs))
      | _ \<Rightarrow> Rows (- 1) [])"
| "promised (CZsetGetScore k m) = careless [''ZSCORE'', c_str k, c_str m] (Num (- 1))
     (\<lambda>rep. case rep of RString t \<Rightarrow> outcome_of Num (atoi (c_str t)) | _ \<Rightarrow> Num (- 1))"
| "promised (CGetXrevrange k a b n) = careful
     (if n \<le> 0 then [''XREVRANGE'', k, a, b] else [''XREVRANGE'', k, a, b, ''COUNT'', dec_int n]) (Pairs False [])
     (\<lambda>rep. case rep of RArray es \<Rightarrow> outcome_of (Pairs True) (xrev_entries es) | _ \<Rightarrow> Pairs False [])"
| "promised (CXadd k i kvs) = careful (''XADD'' # k # i # concat (map (\<lambda>(f, v). [f, v]) kvs)) (NewId False i)
     (\<lambda>rep. case rep of RError _ \<Rightarrow> NewId False i | _ \<Rightarrow> outcome_of (NewId True) (reply_cstr rep))"
| "promised CFlushDb = careful [''FLUSHDB''] (Flag False) (\<lambda>rep. Flag (take 2 (string_reply rep) = ''OK''))"

text \<open>A method is its promise carried out on the connection: \<^verbatim>\<open>Init\<close> first, then the action.\<close>

fun act_on :: "'s redis \<Rightarrow> action \<Rightarrow> CacheConn \<times> 's \<Rightarrow> cache_result \<times> CacheConn \<times> 's" where
  "act_on R (Nothing r gives_up) (c, s) = (r, if gives_up then DeInit c else c, s)"
| "act_on R (Ask ws lost gives_up f) (c, s) =
     (case command R ws s of
        (None, s) \<Rightarrow> (lost, if gives_up then DeInit c else c, s)
      | (Some rep, s) \<Rightarrow> (f rep, c, s))"

definition perform :: "'s redis \<Rightarrow> u64 \<Rightarrow> promise \<Rightarrow> CacheConn \<times> 's \<Rightarrow> cache_result \<times> CacheConn \<times> 's" where
  "perform R now p cs = (let (r, cs) = Init R now cs in if r \<noteq> 0 then (fst p, cs) else act_on R (snd p) cs)"

lemma exec_perform: "apfst k (exec R now argv d f cs) = perform R now (k d, Ask argv (k d) True (\<lambda>rep. k (f rep))) cs"
  by (auto simp: exec_def perform_def Let_def split: prod.splits option.splits)

lemma unchecked_perform:
  "apfst (outcome_of k) (exec_unchecked R now argv d f cs)
     = perform R now (k d, Ask argv (Crashed BadOptional) False (\<lambda>rep. outcome_of k (f rep))) cs"
  by (auto simp: exec_unchecked_def perform_def Let_def outcome_of_def split: prod.splits option.splits)

lemma perform_cong:
  "\<lbrakk>u = u'; ws = ws'; l = l'; \<And>rep. f rep = g rep\<rbrakk> \<Longrightarrow>
     perform R now (u, Ask ws l b f) cs = perform R now (u', Ask ws' l' b g) cs"
  by (simp add: ext [of f g])

lemma MGet_perform: "run_call R now (CMGet ks m) cs = perform R now (promised (CMGet ks m)) cs"
proof -
  have "ks = [] \<or> join_blank ks = [] \<longleftrightarrow> concat ks = [] \<and> length ks \<le> 1"
    by (cases ks rule: join_blank.cases) auto
  then show ?thesis
    by (auto simp: MGet_def perform_def outcome_of_def and_then_def Let_def split: prod.splits option.splits sum.splits)
qed

lemma Hget_buf_perform: "run_call R now (CHgetBuf k f n) cs = perform R now (promised (CHgetBuf k f n)) cs"
  by (auto simp: Hget_buf_def perform_def outcome_of_def Let_def VALUES_ID_SIZE_def min_def
      split: prod.splits option.splits reply.splits)

lemma take_rows: "take (if 0 \<le> c \<and> c < int (length rs) then nat c else length rs) rs = (if 0 \<le> c then take (nat c) rs else rs)"
  by auto

lemmas checked_methods = Get_def Set_def SetEx_def IsExists_def Del_def Incr_def Decr_def IncrBy_def Hdel_def Hget_def HgetAll_def
  Hset_def HincrBy_def Hmset_def Hmget_def Lpush_def Rpush_def Llen_def Lrange_def GetXrevrange_def Xadd_def FlushDb_def

lemmas unchecked_methods = ZsetExit_def ZsetAdd_def ZsetZrem_def ZsetIncr_def ZsetZcard_def ZsetZrevrange_def ZsetGetScore_def

lemma run_call_promised: "run_call R now call cs = perform R now (promised call) cs"
proof (cases call)
  case CMGet
  then show ?thesis by (simp only: MGet_perform)
next
  case CHgetBuf
  then show ?thesis by (simp only: Hget_buf_perform)
next
  case (CZsetZrevrange k i j)
  show ?thesis
    unfolding CZsetZrevrange run_call.simps promised.simps careless_def unchecked_methods unchecked_perform
    by (rule perform_cong)
      (simp_all add: take_rows Let_def outcome_of_def and_then_def VALUES_ID_SIZE_def split: reply.splits sum.splits)
qed (simp only: run_call.simps promised.simps careful_def careless_def checked_methods unchecked_methods exec_perform unchecked_perform;
    rule perform_cong;
    simp add: outcome_of_def and_then_def if_integer_def string_reply_def split: reply.splits sum.splits)+

section \<open>Two implementations of the interface\<close>

text \<open>
  Equal connection objects, and related states behind them: \<open>sim\<close> while the connection is open,
  \<open>apart\<close> while there is none.
\<close>

definition related :: "('s \<Rightarrow> 't \<Rightarrow> bool) \<Rightarrow> ('s \<Rightarrow> 't \<Rightarrow> bool) \<Rightarrow> CacheConn \<times> 's \<Rightarrow> CacheConn \<times> 't \<Rightarrow> bool" where
  "related sim apart cs ct \<longleftrightarrow>
     fst cs = fst ct \<and> (if context_open (fst cs) then sim (snd cs) (snd ct) else apart (snd cs) (snd ct))"

text \<open>The limits under which a method can be called: its own command, if it has one, and those of \<^verbatim>\<open>Init\<close> can be sent.\<close>

fun within :: "(string list \<Rightarrow> bool) \<Rightarrow> action \<Rightarrow> bool" where
  "within fits (Nothing r g) = True"
| "within fits (Ask ws l g f) = fits ws"

definition callable :: "(string list \<Rightarrow> bool) \<Rightarrow> action \<Rightarrow> CacheConn \<Rightarrow> bool" where
  "callable fits a c \<longleftrightarrow> within fits a \<and> fits [''SELECT'', dec (unat (conn_db_index c))]
     \<and> (conn_password c = [] \<or> fits [''AUTH'', c_str (conn_password c)])"

locale redis_sim =
  fixes R :: "'s redis" and Q :: "'t redis"
    and sim :: "'s \<Rightarrow> 't \<Rightarrow> bool" and apart :: "'s \<Rightarrow> 't \<Rightarrow> bool" and fits :: "string list \<Rightarrow> bool"
  assumes connect_sim: "apart s t \<Longrightarrow> fst (connect R s) = fst (connect Q t)
      \<and> (if fst (connect R s) then sim (snd (connect R s)) (snd (connect Q t)) else apart (snd (connect R s)) (snd (connect Q t)))"
    and command_sim: "sim s t \<Longrightarrow> fits argv \<Longrightarrow> fst (command R argv s) = fst (command Q argv t)
      \<and> sim (snd (command R argv s)) (snd (command Q argv t))"
    and sim_apart: "sim s t \<Longrightarrow> apart s t"
begin

lemma command_ex:
  "sim s t \<Longrightarrow> fits argv \<Longrightarrow>
     \<exists>rep s' t'. command R argv s = (rep, s') \<and> command Q argv t = (rep, t') \<and> sim s' t'"
  using command_sim [of s t argv] by (cases "command R argv s"; cases "command Q argv t") simp

lemma connect_ex:
  "apart s t \<Longrightarrow> \<exists>b s' t'. connect R s = (b, s') \<and> connect Q t = (b, t') \<and> (if b then sim s' t' else apart s' t')"
  using connect_sim [of s t] by (cases "connect R s"; cases "connect Q t") (auto split: if_splits)

lemma related_open [simp]: "context_open c \<Longrightarrow> related sim apart (c, s) (c', t) \<longleftrightarrow> c' = c \<and> sim s t"
  by (auto simp: related_def)

lemma related_closed: "\<not> context_open c \<Longrightarrow> related sim apart (c, s) (c', t) \<longleftrightarrow> c' = c \<and> apart s t"
  by (auto simp: related_def)

lemma related_DeInit: "sim s t \<Longrightarrow> related sim apart (DeInit c, s) (DeInit c, t)"
  by (simp add: related_def DeInit_def sim_apart)

lemma Init_sim:
  assumes "related sim apart cs ct" "fits [''SELECT'', dec (unat (conn_db_index (fst cs)))]"
    and "conn_password (fst cs) \<noteq> [] \<Longrightarrow> fits [''AUTH'', c_str (conn_password (fst cs))]"
  shows "fst (Init R now cs) = fst (Init Q now ct) \<and> related sim apart (snd (Init R now cs)) (snd (Init Q now ct))"
proof -
  obtain c s t where ct: "cs = (c, s)" "ct = (c, t)" using assms(1) by (cases cs; cases ct) (simp add: related_def)
  show ?thesis
  proof (cases "context_open c \<or> now < last_connect_time c + 1")
    case True
    then show ?thesis using assms(1) ct by (auto simp: Init_def)
  next
    case False
    then have apart: "apart s t" using assms(1) ct by (simp add: related_def)
    obtain b s1 t1 where c1: "connect R s = (b, s1)" "connect Q t = (b, t1)" "if b then sim s1 t1 else apart s1 t1"
      using connect_ex [OF apart] by blast
    let ?c = "c\<lparr>last_connect_time := now, context_open := True\<rparr>"
    show ?thesis
    proof (cases b)
      case nb: False
      then show ?thesis using False c1 ct by (simp add: Init_def related_def)
    next
      case b: True
      show ?thesis
      proof (cases "conn_password c = []")
        case True
        from command_ex [of s1 t1] assms(2) c1(3) b ct(1) obtain rep s3 t3 where
          "command R [''SELECT'', dec (unat (conn_db_index c))] s1 = (rep, s3)"
          "command Q [''SELECT'', dec (unat (conn_db_index c))] t1 = (rep, t3)" "sim s3 t3" by fastforce
        then show ?thesis using False True b c1(1,2) ct by (auto simp: Init_def Let_def split: option.splits reply.splits)
      next
        case pw: False
        from command_ex [of s1 t1] assms(3) c1(3) b ct(1) pw obtain rep s2 t2 where
          auth: "command R [''AUTH'', c_str (conn_password c)] s1 = (rep, s2)" "command Q [''AUTH'', c_str (conn_password c)] t1 = (rep, t2)" "sim s2 t2"
          by fastforce
        from command_ex [OF auth(3)] assms(2) ct(1) obtain rep' s3 t3 where
          "command R [''SELECT'', dec (unat (conn_db_index c))] s2 = (rep', s3)"
          "command Q [''SELECT'', dec (unat (conn_db_index c))] t2 = (rep', t3)" "sim s3 t3" by fastforce
        then show ?thesis using False pw b c1(1,2) ct auth by (auto simp: Init_def Let_def split: option.splits reply.splits)
      qed
    qed
  qed
qed

lemma Init_cases:
  assumes "related sim apart cs ct" "callable fits a (fst cs)"
  obtains (unready) r c s t where "Init R now cs = (r, c, s)" "Init Q now ct = (r, c, t)" "r \<noteq> 0" "related sim apart (c, s) (c, t)"
  | (ready) c s t where "Init R now cs = (0, c, s)" "Init Q now ct = (0, c, t)" "context_open c" "sim s t"
proof -
  obtain r c s where i: "Init R now cs = (r, c, s)" by (metis prod_cases3)
  then obtain t where t: "Init Q now ct = (r, c, t)" "related sim apart (c, s) (c, t)"
    using Init_sim [OF assms(1), of now] assms(2) by (cases "Init Q now ct") (auto simp: callable_def related_def)
  show thesis
  proof (cases "r = 0")
    case True
    then have "context_open c" using i Init_ready by (metis prod.collapse)
    then show thesis using ready i t True by simp
  qed (use unready i t in blast)
qed

lemma act_sim:
  assumes "context_open c" "sim s t" "within fits a"
  shows "fst (act_on R a (c, s)) = fst (act_on Q a (c, t))
    \<and> related sim apart (snd (act_on R a (c, s))) (snd (act_on Q a (c, t)))"
proof (cases a)
  case (Nothing r g)
  then show ?thesis using assms related_DeInit [OF assms(2)] by simp
next
  case (Ask ws l g f)
  obtain rep s' t' where "command R ws s = (rep, s')" "command Q ws t = (rep, t')" "sim s' t'"
    using command_ex [OF assms(2), of ws] assms(3) Ask by auto
  then show ?thesis using assms(1) Ask related_DeInit [of s' t'] by (cases rep) simp_all
qed

lemma perform_sim:
  assumes "related sim apart cs ct" "callable fits (snd p) (fst cs)"
  shows "fst (perform R now p cs) = fst (perform Q now p ct)
    \<and> related sim apart (snd (perform R now p cs)) (snd (perform Q now p ct))"
proof (rule Init_cases [OF assms, of now])
  fix c s t assume i: "Init R now cs = (0, c, s)" "Init Q now ct = (0, c, t)" "context_open c" "sim s t"
  from act_sim [OF i(3,4), of "snd p"] assms(2) i(1,2) show ?thesis by (simp add: perform_def callable_def)
qed (simp add: perform_def)

end

section \<open>The client over a byte stream\<close>

text \<open>A finished reply object read by the methods: no element is missing.\<close>

fun reply_of :: "robj \<Rightarrow> reply" where
  "reply_of (OString s) = RString s"
| "reply_of (OStatus s) = RStatus s"
| "reply_of (OError s) = RError s"
| "reply_of (OInteger i) = RInteger i"
| "reply_of ONil = RNil"
| "reply_of (OArray es) = RArray (map (\<lambda>e. case e of None \<Rightarrow> RNil | Some ob \<Rightarrow> reply_of ob) es)"

lemma reply_of_obj_of [simp]: "reply_of (obj_of v) = v"
  by (induction v rule: obj_of.induct) (simp_all add: o_def list.map_ident_strong)

text \<open>
  \<open>dial\<close> is the attempt to connect. A connection starts with a new context and an empty stream.
\<close>

definition wire_redis :: "('s \<Rightarrow> bool \<times> 's) \<Rightarrow> 's server \<Rightarrow> (redisContext \<times> 's wire) redis" where
  "wire_redis dial step =
     \<lparr>connect = (\<lambda>(c, w). let (ok, s) = dial (srv w) in
        (ok, redisContextInit True, w\<lparr>srv := s, acc := [], inbound := [], hung := False\<rparr>)),
      command = (\<lambda>argv (c, w). case redisCommandArgv (wire_sock step) argv c w of
          Some (Inr (rep, c', w')) \<Rightarrow> (map_option reply_of rep, c', w')
        | _ \<Rightarrow> (None, c, w))\<rparr>"

text \<open>The server itself; the flag tells whether it still talks to the client.\<close>

definition direct_redis :: "('s \<Rightarrow> bool \<times> 's) \<Rightarrow> 's server \<Rightarrow> ('s \<times> bool) redis" where
  "direct_redis dial step =
     \<lparr>connect = (\<lambda>(s, up). let (ok, s) = dial s in (ok, s, True)),
      command = (\<lambda>argv (s, up).
        if up then let (rep, s) = step argv s in (rep, s, rep \<noteq> None) else (None, s, False))\<rparr>"

definition synced :: "redisContext \<times> 's wire \<Rightarrow> 's \<times> bool \<Rightarrow> bool" where
  "synced = (\<lambda>(c, w) (s, up). srv w = s
     \<and> (if up then client_ready c \<and> acc w = [] \<and> inbound w = [] \<and> \<not> hung w else client_dead c))"

definition same_server :: "redisContext \<times> 's wire \<Rightarrow> 's \<times> bool \<Rightarrow> bool" where
  "same_server = (\<lambda>(c, w) (s, up). srv w = s)"

text \<open>A server that closes the connection rather than send a reply the client cannot read.\<close>

definition within_limits :: "'s server \<Rightarrow> 's server" where
  "within_limits step argv s =
     (let (rep, s') = step argv s in (case rep of None \<Rightarrow> None | Some v \<Rightarrow> if readable v then Some v else None, s'))"

lemma within_limits_readable: "pred_option readable (fst (within_limits step argv s))"
  by (simp add: within_limits_def Let_def split: prod.splits option.splits)

lemma wire_command_sim:
  assumes "synced cw st" "sendable argv"
  shows "fst (command (wire_redis dial (within_limits step)) argv cw) = fst (command (direct_redis dial (within_limits step)) argv st)
    \<and> synced (snd (command (wire_redis dial (within_limits step)) argv cw)) (snd (command (direct_redis dial (within_limits step)) argv st))"
proof -
  obtain c w up where cw: "cw = (c, w)" "st = (srv w, up)" using assms(1) by (cases cw; cases st) (simp add: synced_def)
  show ?thesis
  proof (cases up)
    case True
    then have ready: "client_ready c" "acc w = []" "inbound w = []" "\<not> hung w" using assms(1) cw by (simp_all add: synced_def)
    obtain rep s where st: "within_limits step argv (srv w) = (rep, s)" by fastforce
    have "commanded (rep, s) w (redisCommandArgv (wire_sock (within_limits step)) argv c w)"
      using commanded_Argv [OF ready(1) assms(2) ready(2-4), of "within_limits step"] within_limits_readable [of step argv "srv w"] st
      by simp
    then show ?thesis using True ready st cw
      by (cases rep) (auto simp: wire_redis_def direct_redis_def synced_def)
  next
    case False
    then have "client_dead c" using assms(1) cw by (simp add: synced_def)
    from dead_Argv [OF this assms(2), of "wire_sock (within_limits step)" w] show ?thesis using False cw by (auto simp: wire_redis_def direct_redis_def synced_def)
  qed
qed

interpretation over_wire: redis_sim "wire_redis dial (within_limits step)" "direct_redis dial (within_limits step)"
    synced same_server sendable
  for dial :: "'s \<Rightarrow> bool \<times> 's" and step :: "'s server"
proof unfold_locales
  fix s :: "redisContext \<times> 's wire" and t :: "'s \<times> bool"
  assume "same_server s t"
  then show "fst (connect (wire_redis dial (within_limits step)) s) = fst (connect (direct_redis dial (within_limits step)) t)
    \<and> (if fst (connect (wire_redis dial (within_limits step)) s)
       then synced (snd (connect (wire_redis dial (within_limits step)) s)) (snd (connect (direct_redis dial (within_limits step)) t))
       else same_server (snd (connect (wire_redis dial (within_limits step)) s)) (snd (connect (direct_redis dial (within_limits step)) t)))"
    by (auto simp: wire_redis_def direct_redis_def synced_def same_server_def client_ready_init Let_def split: prod.splits)
qed (use wire_command_sim in blast, auto simp: synced_def same_server_def)

section \<open>The protocol of a connection\<close>

text \<open>
  The specification of a connection over a server \<open>step\<close>, without contexts, streams and result codes: whether there is a link, when
  the last attempt was made, whether the server still talks on it, and the server.
\<close>

record 's link =
  link_up :: bool
  last_try :: u64
  talking :: bool
  server_state :: 's

definition ask :: "'s server \<Rightarrow> string list \<Rightarrow> 's link \<Rightarrow> reply option \<times> 's link" where
  "ask step ws l =
     (if talking l then let (rep, s) = step ws (server_state l) in (rep, l\<lparr>server_state := s, talking := rep \<noteq> None\<rparr>)
      else (None, l))"

text \<open>Questions asked in order, until one is not answered as wanted.\<close>

primrec greet :: "'s server \<Rightarrow> (string list \<times> (reply option \<Rightarrow> bool)) list \<Rightarrow> 's link \<Rightarrow> bool \<times> 's link" where
  "greet step [] l = (True, l)"
| "greet step (q # qs) l = (let (rep, l) = ask step (fst q) l in if snd q rep then greet step qs l else (False, l))"

fun no_error :: "reply option \<Rightarrow> bool" where
  "no_error (Some (RError _)) = False"
| "no_error rep = (rep \<noteq> None)"

fun status_ok :: "reply option \<Rightarrow> bool" where
  "status_ok (Some (RStatus (a # b # _))) = (a = CHR ''O'' \<and> b = CHR ''K'')"
| "status_ok _ = False"

definition greeting :: "string \<Rightarrow> u16 \<Rightarrow> (string list \<times> (reply option \<Rightarrow> bool)) list" where
  "greeting pw db = (if pw = [] then [] else [([''AUTH'', c_str pw], no_error)]) @ [([''SELECT'', dec (unat db)], status_ok)]"

text \<open>
  A link that is there is used. Otherwise, unless the last attempt was made in this second, the server is dialled and greeted, with
  the password if there is one and with the number of the database.
\<close>

definition link_ready :: "('s \<Rightarrow> bool \<times> 's) \<Rightarrow> 's server \<Rightarrow> string \<Rightarrow> u16 \<Rightarrow> u64 \<Rightarrow> 's link \<Rightarrow> bool \<times> 's link" where
  "link_ready dial step pw db now l =
     (if link_up l then (True, l)
      else if now < last_try l + 1 then (False, l)
      else case dial (server_state l) of
          (False, s) \<Rightarrow> (False, l\<lparr>last_try := now, server_state := s\<rparr>)
        | (True, s) \<Rightarrow> greet step (greeting pw db) \<lparr>link_up = True, last_try = now, talking = True, server_state = s\<rparr>)"

fun carry_out :: "'s server \<Rightarrow> action \<Rightarrow> 's link \<Rightarrow> cache_result \<times> 's link" where
  "carry_out step (Nothing r gives_up) l = (r, l\<lparr>link_up := \<not> gives_up\<rparr>)"
| "carry_out step (Ask ws lost gives_up f) l =
     (case ask step ws l of
        (None, l) \<Rightarrow> (lost, l\<lparr>link_up := \<not> gives_up\<rparr>)
      | (Some rep, l) \<Rightarrow> (f rep, l))"

definition spec_call ::
  "('s \<Rightarrow> bool \<times> 's) \<Rightarrow> 's server \<Rightarrow> string \<Rightarrow> u16 \<Rightarrow> u64 \<Rightarrow> cache_call \<Rightarrow> 's link \<Rightarrow> cache_result \<times> 's link" where
  "spec_call dial step pw db now call l =
     (case link_ready dial step pw db now l of
        (False, l) \<Rightarrow> (fst (promised call), l)
      | (True, l) \<Rightarrow> carry_out step (snd (promised call)) l)"

text \<open>Calls at given times, on the specification and on the class.\<close>

fun spec_session ::
  "('s \<Rightarrow> bool \<times> 's) \<Rightarrow> 's server \<Rightarrow> string \<Rightarrow> u16 \<Rightarrow> (u64 \<times> cache_call) list \<Rightarrow> 's link \<Rightarrow> cache_result list \<times> 's link" where
  "spec_session dial step pw db [] l = ([], l)"
| "spec_session dial step pw db ((now, call) # calls) l =
     (let (r, l) = spec_call dial step pw db now call l; (rs, l) = spec_session dial step pw db calls l in (r # rs, l))"

fun session :: "'s redis \<Rightarrow> (u64 \<times> cache_call) list \<Rightarrow> CacheConn \<times> 's \<Rightarrow> cache_result list \<times> CacheConn \<times> 's" where
  "session R [] cs = ([], cs)"
| "session R ((now, call) # calls) cs =
     (let (r, cs) = run_call R now call cs; (rs, cs) = session R calls cs in (r # rs, cs))"

section \<open>The class over the server follows the protocol\<close>

definition link_of :: "CacheConn \<Rightarrow> 's \<Rightarrow> bool \<Rightarrow> 's link \<Rightarrow> bool" where
  "link_of c s up l \<longleftrightarrow> link_up l = context_open c \<and> last_try l = last_connect_time c \<and> server_state l = s
     \<and> (context_open c \<longrightarrow> talking l = up)"

lemma status_ok_alt: "status_ok rep \<longleftrightarrow> (\<exists>t. rep = Some (RStatus t) \<and> take 2 t = ''OK'')"
  by (cases rep rule: status_ok.cases) auto

lemma no_error_alt: "no_error rep = (case rep of None \<Rightarrow> False | Some (RError _) \<Rightarrow> False | Some _ \<Rightarrow> True)"
  by (cases rep rule: no_error.cases) simp_all

lemma ask_direct:
  assumes "command (direct_redis dial step) ws (s, up) = (rep, s', up')" "talking l = up" "server_state l = s"
  shows "ask step ws l = (rep, l\<lparr>server_state := s', talking := up'\<rparr>)"
  using assms by (cases l) (auto simp: direct_redis_def ask_def Let_def split: if_splits prod.splits)

lemma select_direct:
  assumes "command (direct_redis dial step) [''SELECT'', dec (unat db)] (s, up) = (rep, s', up')" "talking l = up" "server_state l = s"
  shows "greet step [([''SELECT'', dec (unat db)], status_ok)] l = (status_ok rep, l\<lparr>server_state := s', talking := up'\<rparr>)"
  using ask_direct [OF assms] by simp

lemma Init_direct:
  assumes l: "link_of c s up l" and i: "Init (direct_redis dial step) now (c, s, up) = (r, c', s', up')"
  shows "\<exists>l'. link_ready dial step (conn_password c) (conn_db_index c) now l = (r = 0, l') \<and> link_of c' s' up' l'
    \<and> conn_password c' = conn_password c \<and> conn_db_index c' = conn_db_index c"
proof (cases "context_open c \<or> now < last_connect_time c + 1")
  case True
  then show ?thesis using l i by (auto simp: Init_def link_ready_def link_of_def)
next
  case False
  obtain ok s1 where d: "dial s = (ok, s1)" by fastforce
  let ?l = "\<lparr>link_up = True, last_try = now, talking = True, server_state = s1\<rparr>"
  let ?c = "c\<lparr>last_connect_time := now, context_open := True\<rparr>"
  let ?R = "direct_redis dial step"
  have conn: "connect ?R (s, up) = (ok, s1, True)" using d by (simp add: direct_redis_def)
  show ?thesis
  proof (cases ok)
    case nok: False
    then show ?thesis using False l i d conn by (auto simp: Init_def link_ready_def link_of_def)
  next
    case True
    have ready: "link_ready dial step (conn_password c) (conn_db_index c) now l
        = greet step (greeting (conn_password c) (conn_db_index c)) ?l"
      using False l d True by (simp add: link_ready_def link_of_def)
    let ?sel = "[''SELECT'', dec (unat (conn_db_index c))]"
    show ?thesis
    proof (cases "conn_password c = []")
      case pw: True
      obtain rep s3 up3 where q: "command ?R ?sel (s1, True) = (rep, s3, up3)" by (metis prod_cases3)
      then have "(r, c', s', up') = (if status_ok rep then 0 else 2, ?c, s3, up3)"
        using i False True pw conn by (auto simp: Init_def Let_def status_ok_alt split: option.splits reply.splits)
      then show ?thesis using select_direct [OF q, of ?l] ready pw by (simp add: greeting_def link_of_def)
    next
      case pw: False
      obtain arep s2 up2 where auth: "command ?R [''AUTH'', c_str (conn_password c)] (s1, True) = (arep, s2, up2)" by (metis prod_cases3)
      note a = ask_direct [OF auth, of ?l]
      obtain rep s3 up3 where q: "command ?R ?sel (s2, up2) = (rep, s3, up3)" by (metis prod_cases3)
      have "(r, c', s', up') = (if no_error arep then (if status_ok rep then 0 else 2, ?c, s3, up3) else (- 1, ?c, s2, up2))"
        using i False True pw conn auth q
        by (auto simp: Init_def Let_def status_ok_alt no_error_alt split: option.splits reply.splits)
      then show ?thesis using select_direct [OF q, of "?l\<lparr>server_state := s2, talking := up2\<rparr>"] a ready pw
        by (auto simp: greeting_def link_of_def split: if_splits)
    qed
  qed
qed

lemma perform_direct:
  assumes l: "link_of c s up l" and p: "perform (direct_redis dial step) now (promised call) (c, s, up) = (r, c', s', up')"
  shows "\<exists>l'. spec_call dial step (conn_password c) (conn_db_index c) now call l = (r, l') \<and> link_of c' s' up' l'
    \<and> conn_password c' = conn_password c \<and> conn_db_index c' = conn_db_index c"
proof -
  let ?R = "direct_redis dial step"
  obtain n c1 s1 up1 where i: "Init ?R now (c, s, up) = (n, c1, s1, up1)" by (metis prod_cases4)
  obtain l1 where l1: "link_ready dial step (conn_password c) (conn_db_index c) now l = (n = 0, l1)" "link_of c1 s1 up1 l1"
    "conn_password c1 = conn_password c" "conn_db_index c1 = conn_db_index c"
    using Init_direct [OF l i] by blast
  show ?thesis
  proof (cases "n = 0")
    case False
    then show ?thesis using p i l1 by (auto simp: perform_def spec_call_def)
  next
    case True
    have up: "context_open c1" using Init_ready [of ?R now c "(s, up)" c1 "(s1, up1)"] i True by simp
    have act: "act_on ?R (snd (promised call)) (c1, s1, up1) = (r, c', s', up')" using p i True by (simp add: perform_def)
    show ?thesis
    proof (cases "snd (promised call)")
      case (Nothing x g)
      then show ?thesis using act l1 up True by (auto simp: spec_call_def link_of_def DeInit_def split: if_splits)
    next
      case (Ask ws lost g f)
      obtain rep s2 up2 where q: "command ?R ws (s1, up1) = (rep, s2, up2)" by (metis prod_cases3)
      have "ask step ws l1 = (rep, l1\<lparr>server_state := s2, talking := up2\<rparr>)"
        using ask_direct [OF q, of l1] l1(2) up by (simp add: link_of_def)
      then show ?thesis using act l1 up True q Ask
        by (cases rep) (auto simp: spec_call_def link_of_def DeInit_def split: if_splits)
    qed
  qed
qed

lemma session_direct:
  assumes "link_of c s up l" "session (direct_redis dial step) calls (c, s, up) = (rs, c', s', up')"
  shows "\<exists>l'. spec_session dial step (conn_password c) (conn_db_index c) calls l = (rs, l') \<and> link_of c' s' up' l'"
  using assms
proof (induction calls arbitrary: c s up l rs)
  case (Cons nc calls)
  obtain now call where nc: "nc = (now, call)" by fastforce
  obtain r c1 s1 up1 where p: "run_call (direct_redis dial step) now call (c, s, up) = (r, c1, s1, up1)" by (metis prod_cases4)
  then obtain l1 where l1: "spec_call dial step (conn_password c) (conn_db_index c) now call l = (r, l1)" "link_of c1 s1 up1 l1"
    "conn_password c1 = conn_password c" "conn_db_index c1 = conn_db_index c"
    using perform_direct [OF Cons.prems(1), of dial step now call r c1 s1 up1] by (auto simp: run_call_promised)
  obtain rs1 where "session (direct_redis dial step) calls (c1, s1, up1) = (rs1, c', s', up')" "rs = r # rs1"
    using Cons.prems(2) nc p by (auto split: prod.splits)
  with Cons.IH [OF l1(2)] l1 nc show ?case by fastforce
qed simp

section \<open>The class over the wire follows the class over the server\<close>

lemma perform_keeps_config:
  "perform R now p (c, s) = (r, c', s') \<Longrightarrow> conn_db_index c' = conn_db_index c \<and> conn_password c' = conn_password c"
  by (cases "snd p") (auto simp: perform_def Init_def DeInit_def Let_def split: prod.splits if_splits option.splits reply.splits)

lemma session_sim:
  assumes "related synced same_server cs ct" "list_all (\<lambda>(now, call). callable sendable (snd (promised call)) (fst cs)) calls"
  shows "fst (session (wire_redis dial (within_limits step)) calls cs) = fst (session (direct_redis dial (within_limits step)) calls ct)
    \<and> related synced same_server (snd (session (wire_redis dial (within_limits step)) calls cs))
        (snd (session (direct_redis dial (within_limits step)) calls ct))"
  using assms
proof (induction calls arbitrary: cs ct)
  case (Cons nc calls)
  obtain now call where nc: "nc = (now, call)" by fastforce
  let ?W = "wire_redis dial (within_limits step)" and ?D = "direct_redis dial (within_limits step)"
  obtain r cs1 where e: "perform ?W now (promised call) cs = (r, cs1)" by (metis surj_pair)
  then obtain ct1 where e': "perform ?D now (promised call) ct = (r, ct1)" "related synced same_server cs1 ct1"
    using over_wire.perform_sim [where dial = dial and step = step, OF Cons.prems(1), of "promised call" now] Cons.prems(2) nc
    by (cases "perform ?D now (promised call) ct") simp
  have "callable sendable a (fst cs1) = callable sendable a (fst cs)" for a
    using perform_keeps_config [of ?W now "promised call" "fst cs" "snd cs" r "fst cs1" "snd cs1"] e
    by (simp add: callable_def)
  then have "list_all (\<lambda>(now, call). callable sendable (snd (promised call)) (fst cs1)) calls" using Cons.prems(2) by simp
  from Cons.IH [OF e'(2) this] show ?case using e e'(1) nc
    by (cases "session ?W calls cs1"; cases "session ?D calls ct1") (simp add: run_call_promised)
qed simp

section \<open>Properties\<close>


definition counting_conn :: CacheConn where
  "counting_conn = newCacheConn ''h'' 6379 1 ''pw'' ''msg''"

text \<open>A server that counts, and hangs up once it has counted to 3.\<close>

definition tired_server :: "nat server" where
  "tired_server argv n =
     (if argv = [''SELECT'', ''1''] then Some (RStatus ''OK'') else if n = 3 then None else Some (RInteger (int n)), Suc n)"

lemma small_sendable:
  assumes "length argv < 10" "list_all (\<lambda>a. length a < 100) argv"
  shows "sendable argv"
proof -
  have d: "length (dec n) \<le> 2" if "n < 100" for n using that length_dec_step [of n] length_dec_less [of n] length_dec_less [of "n div 10"]
    by (cases "n < 10") simp_all
  have "sum_list (map (\<lambda>a. bulklen (length a)) argv) \<le> length argv * 200"
    using assms(2)
  proof (induction argv)
    case (Cons a argv)
    then have "bulklen (length a) \<le> 200" using d [of "length a"] by (simp add: bulklen_def countDigits_dec)
    then show ?case using Cons by simp
  qed simp
  moreover have "countDigits (length argv) \<le> 2" using assms(1) d [of "length argv"] by (simp add: countDigits_dec)
  ultimately show ?thesis using assms(1) unfolding sendable_def length_command_enc by simp
qed

lemma tired_readable: "readable (RInteger 0)" "readable (RInteger 2)" "readable (RInteger 4)" "readable (RInteger 6)" "readable (RStatus ''OK'')"
proof -
  have "length (resp_enc (RInteger 0)) = 4" "length (resp_enc (RInteger 2)) = 4" "length (resp_enc (RInteger 4)) = 4"
    "length (resp_enc (RInteger 6)) = 4" "length (resp_enc (RStatus ''OK'')) = 5" "str_find CRLF ''OK'' = None" by code_simp+
  then show "readable (RInteger 0)" "readable (RInteger 2)" "readable (RInteger 4)" "readable (RInteger 6)" "readable (RStatus ''OK'')"
    by (simp_all add: readable_def del: resp_enc.simps)
qed


text \<open>
  The formats of the methods of \<^verbatim>\<open>CacheConn\<close> name the commands that the methods are modelled with:
  where the C library prints \<^verbatim>\<open>%d\<close> and \<^verbatim>\<open>%ld\<close> in decimal, every format string with its arguments splits into
  exactly the words sent, also for keys and values that are empty or contain blanks and percent signs.
\<close>

theorem cache_formats:
  assumes "\<forall>i. pf ''%d'' (VaInt i) = dec_int i" "\<forall>i. pf ''%ld'' (VaLong i) = dec_int i"
  shows "(\<forall>cmd \<in> {''AUTH'', ''GET'', ''EXISTS'', ''DEL'', ''HGETALL'', ''INCR'', ''DECR'', ''LLEN'', ''ZCARD''}.
      fmt_loop pf (cmd @ '' %s'') [VaStr k] ([], False, []) = Inr (Some [cmd, c_str k]))
    \<and> (\<forall>cmd \<in> {''SET'', ''HDEL'', ''HGET'', ''hget'', ''LPUSH'', ''RPUSH'', ''ZREM'', ''ZSCORE''}.
      fmt_loop pf (cmd @ '' %s %s'') [VaStr k, VaStr v] ([], False, []) = Inr (Some [cmd, c_str k, c_str v]))
    \<and> (\<forall>cmd \<in> {''LRANGE'', ''ZREVRANGE''}.
      fmt_loop pf (cmd @ '' %s %d %d'') [VaStr k, VaInt i, VaInt j] ([], False, []) = Inr (Some [cmd, c_str k, dec_int i, dec_int j]))
    \<and> fmt_loop pf ''SELECT %d'' [VaInt i] ([], False, []) = Inr (Some [''SELECT'', dec_int i])
    \<and> fmt_loop pf ''SETEX %s %d %s'' [VaStr k, VaInt i, VaStr v] ([], False, [])
        = Inr (Some [''SETEX'', c_str k, dec_int i, c_str v])
    \<and> fmt_loop pf ''HSET %s %s %s'' [VaStr k, VaStr f, VaStr v] ([], False, [])
        = Inr (Some [''HSET'', c_str k, c_str f, c_str v])
    \<and> fmt_loop pf ''HINCRBY %s %s %ld'' [VaStr k, VaStr f, VaLong i] ([], False, [])
        = Inr (Some [''HINCRBY'', c_str k, c_str f, dec_int i])
    \<and> fmt_loop pf ''INCRBY %s %ld'' [VaStr k, VaLong i] ([], False, []) = Inr (Some [''INCRBY'', c_str k, dec_int i])
    \<and> fmt_loop pf ''zlexcount %s [%s [%s'' [VaStr k, VaStr v, VaStr v] ([], False, [])
        = Inr (Some [''zlexcount'', c_str k, CHR ''['' # c_str v, CHR ''['' # c_str v])
    \<and> fmt_loop pf ''ZADD %s %ld %s'' [VaStr k, VaLong i, VaStr v] ([], False, [])
        = Inr (Some [''ZADD'', c_str k, dec_int i, c_str v])
    \<and> fmt_loop pf ''ZINCRBY %s 1 %s'' [VaStr k, VaStr v] ([], False, []) = Inr (Some [''ZINCRBY'', c_str k, ''1'', c_str v])
    \<and> fmt_loop pf ''FLUSHDB'' [] ([], False, []) = Inr (Some [''FLUSHDB''])"
  using assms by (intro conjI) (simp_all add: fmt_plain_def c_str_def skip_spec_def is_digit_def intfmts_def)

definition print_int :: "string \<Rightarrow> va_arg \<Rightarrow> string" where
  "print_int f a = (case a of VaInt i \<Rightarrow> dec_int i | VaLong i \<Rightarrow> dec_int i | _ \<Rightarrow> [])"

theorem cache_formats_witness:
  "fmt_loop print_int ''SETEX %s %d %s'' [VaStr ''a %b'', VaInt 60, VaStr []] ([], False, [])
     = Inr (Some [''SETEX'', ''a %b'', ''60'', []])"
proof -
  have p: "\<forall>i. print_int ''%d'' (VaInt i) = dec_int i" "\<forall>i. print_int ''%ld'' (VaLong i) = dec_int i" by (simp_all add: print_int_def)
  have s: "dec_int 60 = ''60''" "c_str ''a %b'' = ''a %b''" "c_str [] = []" by code_simp+
  have "fmt_loop print_int ''SETEX %s %d %s'' [VaStr ''a %b'', VaInt 60, VaStr []] ([], False, [])
      = Inr (Some [''SETEX'', c_str ''a %b'', dec_int 60, c_str []])"
    using cache_formats [OF p, of "''a %b''" "[]" 60] by blast
  then show ?thesis unfolding s .
qed

end
