(* ===== verification/NetBuffer.thy ===== *)
theory NetBuffer
  imports ChatPrelude
begin

text \<open>
  \<^verbatim>\<open>muduo::net::Buffer\<close> (\<^verbatim>\<open>muduo/net/Buffer.h\<close>, \<^verbatim>\<open>Buffer.cc\<close>), the byte buffer every
  connection of the three services reads into. The vector and the two indices are
  kept as in the code, every \<^verbatim>\<open>assert\<close> is a branch. Shown: no assertion fails on
  the sequences of calls the services make, the buffer is a first-in first-out
  queue of bytes whatever resizing and moving happens inside, and the network-order
  integers round-trip.
\<close>

section \<open>The buffer\<close>

record Buffer =
  buffer :: "byte list"
  readerIndex :: nat
  writerIndex :: nat

definition kCheapPrepend :: nat where "kCheapPrepend = 8"

definition kInitialSize :: nat where "kInitialSize = 1024"

definition newBuffer :: "nat \<Rightarrow> Buffer" where
  "newBuffer initialSize =
     \<lparr>buffer = replicate (kCheapPrepend + initialSize) 0,
      readerIndex = kCheapPrepend, writerIndex = kCheapPrepend\<rparr>"

definition readableBytes :: "Buffer \<Rightarrow> nat" where
  "readableBytes b = writerIndex b - readerIndex b"

definition writableBytes :: "Buffer \<Rightarrow> nat" where
  "writableBytes b = length (buffer b) - writerIndex b"

definition prependableBytes :: "Buffer \<Rightarrow> nat" where
  "prependableBytes b = readerIndex b"

definition peek :: "Buffer \<Rightarrow> byte list" where
  "peek b = drop (readerIndex b) (buffer b)"

text \<open>\<^verbatim>\<open>std::copy\<close> of \<open>xs\<close> to offset \<open>i\<close> of the vector.\<close>

definition copy_at :: "nat \<Rightarrow> byte list \<Rightarrow> byte list \<Rightarrow> byte list" where
  "copy_at i xs buf = take i buf @ xs @ drop (i + length xs) buf"

definition buf_swap :: "Buffer \<Rightarrow> Buffer \<Rightarrow> Buffer \<times> Buffer" where
  "buf_swap b rhs = (rhs, b)"

definition retrieveAll :: "Buffer \<Rightarrow> Buffer" where
  "retrieveAll b = b\<lparr>readerIndex := kCheapPrepend, writerIndex := kCheapPrepend\<rparr>"

definition retrieve :: "nat \<Rightarrow> Buffer \<Rightarrow> Buffer res" where
  "retrieve len b =
     cpp_assert (len \<le> readableBytes b)
       (Inr (if len < readableBytes b then b\<lparr>readerIndex := readerIndex b + len\<rparr>
             else retrieveAll b))"

definition retrieveAsString :: "nat \<Rightarrow> Buffer \<Rightarrow> (byte list \<times> Buffer) res" where
  "retrieveAsString len b =
     cpp_assert (len \<le> readableBytes b)
       (and_then (retrieve len b) (\<lambda>b'. Inr (take len (peek b), b')))"

definition retrieveAllAsString :: "Buffer \<Rightarrow> (byte list \<times> Buffer) res" where
  "retrieveAllAsString b = retrieveAsString (readableBytes b) b"

definition toStringPiece :: "Buffer \<Rightarrow> byte list" where
  "toStringPiece b = take (readableBytes b) (peek b)"

definition buf_resize :: "nat \<Rightarrow> byte list \<Rightarrow> byte list" where
  "buf_resize n buf = take n buf @ replicate (n - length buf) 0"

definition makeSpace :: "nat \<Rightarrow> Buffer \<Rightarrow> Buffer res" where
  "makeSpace len b =
     (if writableBytes b + prependableBytes b < len + kCheapPrepend
      then Inr (b\<lparr>buffer := buf_resize (writerIndex b + len) (buffer b)\<rparr>)
      else cpp_assert (kCheapPrepend < readerIndex b)
        (let readable = readableBytes b;
             b' = b\<lparr>buffer := copy_at kCheapPrepend (toStringPiece b) (buffer b),
                    readerIndex := kCheapPrepend, writerIndex := kCheapPrepend + readable\<rparr>
         in cpp_assert (readable = readableBytes b') (Inr b')))"

definition ensureWritableBytes :: "nat \<Rightarrow> Buffer \<Rightarrow> Buffer res" where
  "ensureWritableBytes len b =
     and_then (if writableBytes b < len then makeSpace len b else Inr b)
       (\<lambda>b'. cpp_assert (len \<le> writableBytes b') (Inr b'))"

definition hasWritten :: "nat \<Rightarrow> Buffer \<Rightarrow> Buffer res" where
  "hasWritten len b =
     cpp_assert (len \<le> writableBytes b) (Inr (b\<lparr>writerIndex := writerIndex b + len\<rparr>))"

definition unwrite :: "nat \<Rightarrow> Buffer \<Rightarrow> Buffer res" where
  "unwrite len b =
     cpp_assert (len \<le> readableBytes b) (Inr (b\<lparr>writerIndex := writerIndex b - len\<rparr>))"

definition buf_append :: "byte list \<Rightarrow> Buffer \<Rightarrow> Buffer res" where
  "buf_append data b =
     and_then (ensureWritableBytes (length data) b)
       (\<lambda>b'. hasWritten (length data)
                (b'\<lparr>buffer := copy_at (writerIndex b') data (buffer b')\<rparr>))"

definition prepend :: "byte list \<Rightarrow> Buffer \<Rightarrow> Buffer res" where
  "prepend data b =
     cpp_assert (length data \<le> prependableBytes b)
       (let r = readerIndex b - length data in
        Inr (b\<lparr>readerIndex := r, buffer := copy_at r data (buffer b)\<rparr>))"

definition shrink :: "nat \<Rightarrow> Buffer \<Rightarrow> Buffer res" where
  "shrink reserve b =
     and_then (ensureWritableBytes (readableBytes b + reserve) (newBuffer kInitialSize))
       (\<lambda>other. and_then (buf_append (toStringPiece b) other)
                   (\<lambda>other. Inr (fst (buf_swap b other))))"

text \<open>
  \<^verbatim>\<open>readFd\<close>. \<open>readv\<close> stands for the system call: given the two block sizes it
  returns the bytes read, or \<open>None\<close> with an errno. At most the sum of the sizes
  handed to it is read, which the first block takes before the second.
\<close>

definition extrabuf_size :: nat where "extrabuf_size = 65536"

definition iov_room :: "Buffer \<Rightarrow> nat" where
  "iov_room b = (if writableBytes b < extrabuf_size then writableBytes b + extrabuf_size
                 else writableBytes b)"

definition readFd :: "(nat \<Rightarrow> byte list option) \<Rightarrow> Buffer \<Rightarrow> (nat option \<times> Buffer) res" where
  "readFd readv b =
     (let writable = writableBytes b in
      case readv (iov_room b) of
        None \<Rightarrow> Inr (None, b)
      | Some data \<Rightarrow>
          let n = length data;
              b1 = b\<lparr>buffer := copy_at (writerIndex b) (take writable data) (buffer b)\<rparr> in
          if n \<le> writable then Inr (Some n, b1\<lparr>writerIndex := writerIndex b + n\<rparr>)
          else and_then
                 (buf_append (drop writable data) (b1\<lparr>writerIndex := length (buffer b1)\<rparr>))
                 (\<lambda>b'. Inr (Some n, b')))"

section \<open>Searching\<close>

definition kCRLF :: "byte list" where "kCRLF = [0x0D, 0x0A]"

text \<open>Offsets are relative to \<^verbatim>\<open>peek()\<close>; a match at the end would be empty, none is there.\<close>

definition findCRLF :: "Buffer \<Rightarrow> nat option" where
  "findCRLF b = str_find kCRLF (toStringPiece b)"

definition findEOL :: "Buffer \<Rightarrow> nat option" where
  "findEOL b = find_char (\<lambda>c. c = 0x0A) (toStringPiece b)"

definition retrieveUntil :: "nat \<Rightarrow> Buffer \<Rightarrow> Buffer res" where
  "retrieveUntil end_offset b = cpp_assert (end_offset \<le> readableBytes b) (retrieve end_offset b)"

section \<open>Integers in network order\<close>

text \<open>The bytes of an integer of \<open>k\<close> bytes, the most significant one first.\<close>

definition be_bytes :: "nat \<Rightarrow> 'a::len word \<Rightarrow> byte list" where
  "be_bytes k x = map (\<lambda>i. ucast (drop_bit (8 * i) x)) (rev [0..<k])"

definition from_be :: "byte list \<Rightarrow> 'a::len word" where
  "from_be bs = foldl (\<lambda>acc b. push_bit 8 acc OR ucast b) 0 bs"

definition appendInt64 :: "64 word \<Rightarrow> Buffer \<Rightarrow> Buffer res" where
  "appendInt64 x = buf_append (be_bytes 8 x)"

definition appendInt32 :: "32 word \<Rightarrow> Buffer \<Rightarrow> Buffer res" where
  "appendInt32 x = buf_append (be_bytes 4 x)"

definition appendInt16 :: "16 word \<Rightarrow> Buffer \<Rightarrow> Buffer res" where
  "appendInt16 x = buf_append (be_bytes 2 x)"

definition appendInt8 :: "8 word \<Rightarrow> Buffer \<Rightarrow> Buffer res" where
  "appendInt8 x = buf_append [x]"

definition peekInt :: "nat \<Rightarrow> Buffer \<Rightarrow> 'a::len word res" where
  "peekInt k b = cpp_assert (k \<le> readableBytes b) (Inr (from_be (take k (peek b))))"

definition peekInt64 :: "Buffer \<Rightarrow> 64 word res" where "peekInt64 = peekInt 8"

definition peekInt32 :: "Buffer \<Rightarrow> 32 word res" where "peekInt32 = peekInt 4"

definition peekInt16 :: "Buffer \<Rightarrow> 16 word res" where "peekInt16 = peekInt 2"

definition peekInt8 :: "Buffer \<Rightarrow> 8 word res" where "peekInt8 = peekInt 1"

definition readInt :: "(Buffer \<Rightarrow> 'a res) \<Rightarrow> nat \<Rightarrow> Buffer \<Rightarrow> ('a \<times> Buffer) res" where
  "readInt pk k b = and_then (pk b) (\<lambda>x. and_then (retrieve k b) (\<lambda>b'. Inr (x, b')))"

definition readInt64 :: "Buffer \<Rightarrow> (64 word \<times> Buffer) res" where
  "readInt64 = readInt peekInt64 8"

definition readInt32 :: "Buffer \<Rightarrow> (32 word \<times> Buffer) res" where
  "readInt32 = readInt peekInt32 4"

definition readInt16 :: "Buffer \<Rightarrow> (16 word \<times> Buffer) res" where
  "readInt16 = readInt peekInt16 2"

definition readInt8 :: "Buffer \<Rightarrow> (8 word \<times> Buffer) res" where
  "readInt8 = readInt peekInt8 1"

definition prependInt64 :: "64 word \<Rightarrow> Buffer \<Rightarrow> Buffer res" where
  "prependInt64 x = prepend (be_bytes 8 x)"

definition prependInt32 :: "32 word \<Rightarrow> Buffer \<Rightarrow> Buffer res" where
  "prependInt32 x = prepend (be_bytes 4 x)"

definition prependInt16 :: "16 word \<Rightarrow> Buffer \<Rightarrow> Buffer res" where
  "prependInt16 x = prepend (be_bytes 2 x)"

definition prependInt8 :: "8 word \<Rightarrow> Buffer \<Rightarrow> Buffer res" where
  "prependInt8 x = prepend [x]"

section \<open>Sequences of operations\<close>

text \<open>
  The calls by which the services fill and empty a buffer. A reader of \<^verbatim>\<open>retrieve\<close>, \<^verbatim>\<open>retrieveUntil\<close> and \<^verbatim>\<open>retrieveAll\<close>
  looks at the bytes through \<^verbatim>\<open>peek\<close> before it drops them.
\<close>

datatype buf_op =
    Append "byte list"
  | ReadFd "byte list option"
  | Retrieve nat
  | RetrieveUntil nat
  | RetrieveAll
  | RetrieveAsString nat
  | RetrieveAllAsString
  | EnsureWritable nat
  | Shrink nat

fun buf_do :: "buf_op \<Rightarrow> Buffer \<Rightarrow> (byte list \<times> Buffer) res" where
  "buf_do (Append data) b = and_then (buf_append data b) (\<lambda>b'. Inr ([], b'))"
| "buf_do (ReadFd answer) b = and_then (readFd (\<lambda>_. answer) b) (\<lambda>(n, b'). Inr ([], b'))"
| "buf_do (Retrieve len) b = and_then (retrieve len b) (\<lambda>b'. Inr (take len (peek b), b'))"
| "buf_do (RetrieveUntil off) b = and_then (retrieveUntil off b) (\<lambda>b'. Inr (take off (peek b), b'))"
| "buf_do RetrieveAll b = Inr (toStringPiece b, retrieveAll b)"
| "buf_do (RetrieveAsString len) b = retrieveAsString len b"
| "buf_do RetrieveAllAsString b = retrieveAllAsString b"
| "buf_do (EnsureWritable len) b = and_then (ensureWritableBytes len b) (\<lambda>b'. Inr ([], b'))"
| "buf_do (Shrink reserve) b = and_then (shrink reserve b) (\<lambda>b'. Inr ([], b'))"

fun bytes_in :: "buf_op \<Rightarrow> byte list" where
  "bytes_in (Append data) = data"
| "bytes_in (ReadFd (Some data)) = data"
| "bytes_in _ = []"

fun bytes_out :: "buf_op \<Rightarrow> nat \<Rightarrow> nat" where
  "bytes_out (Retrieve len) n = len"
| "bytes_out (RetrieveUntil off) n = off"
| "bytes_out RetrieveAll n = n"
| "bytes_out (RetrieveAsString len) n = len"
| "bytes_out RetrieveAllAsString n = n"
| "bytes_out _ n = 0"

section \<open>The queue a buffer stands for\<close>

definition buf_inv :: "Buffer \<Rightarrow> bool" where
  "buf_inv b \<longleftrightarrow> readerIndex b \<le> writerIndex b \<and> writerIndex b \<le> length (buffer b)
     \<and> kCheapPrepend \<le> length (buffer b)"

text \<open>
  A sequence of operations, with the bytes each of them hands out; and the sizes of those
  portions, counted without looking at the bytes: \<open>None\<close> if some operation asks for more than is there.
\<close>

primrec queue_run :: "('o \<Rightarrow> 'b \<Rightarrow> (byte list \<times> 'b) res) \<Rightarrow> 'o list \<Rightarrow> 'b \<Rightarrow> (byte list list \<times> 'b) res" where
  "queue_run act [] b = Inr ([], b)"
| "queue_run act (x # xs) b =
     and_then (act x b) (\<lambda>(y, b'). and_then (queue_run act xs b') (\<lambda>(ys, b''). Inr (y # ys, b'')))"

primrec enough :: "('o \<Rightarrow> byte list) \<Rightarrow> ('o \<Rightarrow> nat \<Rightarrow> nat) \<Rightarrow> 'o list \<Rightarrow> nat \<Rightarrow> nat list option" where
  "enough ins out [] n = Some []"
| "enough ins out (x # xs) n =
     (if out x n \<le> n then map_option (\<lambda>ks. out x n # ks) (enough ins out xs (n - out x n + length (ins x))) else None)"

text \<open>
  What the users of a buffer rely on, for a set \<open>'o\<close> of operations: an operation takes the number of bytes \<open>out\<close>
  names, given how many are there, from the front and adds the bytes \<open>ins\<close> at the end; it fails exactly
  when it would take more than there are.
\<close>

locale byte_queue =
  fixes inv :: "'b \<Rightarrow> bool" and contents :: "'b \<Rightarrow> byte list" and empty :: 'b
    and act :: "'o \<Rightarrow> 'b \<Rightarrow> (byte list \<times> 'b) res"
    and ins :: "'o \<Rightarrow> byte list" and out :: "'o \<Rightarrow> nat \<Rightarrow> nat"
  assumes inv_empty: "inv empty" and contents_empty: "contents empty = []"
    and act_ok: "inv b \<Longrightarrow> out x (length (contents b)) \<le> length (contents b) \<Longrightarrow>
      \<exists>b'. act x b = Inr (take (out x (length (contents b))) (contents b), b') \<and> inv b'
        \<and> contents b' = drop (out x (length (contents b))) (contents b) @ ins x"
    and act_short: "inv b \<Longrightarrow> length (contents b) < out x (length (contents b)) \<Longrightarrow> act x b = Inl AssertFailed"
begin

lemma run_fifo:
  assumes "inv b"
  shows "case queue_run act xs b of
      Inl e \<Rightarrow> e = AssertFailed \<and> enough ins out xs (length (contents b)) = None
    | Inr (ys, b') \<Rightarrow> inv b' \<and> enough ins out xs (length (contents b)) = Some (map length ys)
        \<and> concat ys @ contents b' = contents b @ concat (map ins xs)"
  using assms
proof (induction xs arbitrary: b)
  case (Cons x xs)
  let ?n = "out x (length (contents b))"
  show ?case
  proof (cases "?n \<le> length (contents b)")
    case True
    from act_ok [OF Cons.prems True] obtain b1 where b1: "act x b = Inr (take ?n (contents b), b1)" "inv b1"
      "contents b1 = drop ?n (contents b) @ ins x" by blast
    have len: "length (contents b1) = length (contents b) - ?n + length (ins x)" using b1(3) by simp
    show ?thesis
    proof (cases "queue_run act xs b1")
      case (Inl e)
      then show ?thesis using Cons.IH [OF b1(2)] b1(1) len True by simp
    next
      case (Inr p)
      obtain ys b' where "p = (ys, b')" by fastforce
      then show ?thesis using Cons.IH [OF b1(2)] Inr b1(1,3) len True by (auto simp: min_def)
    qed
  next
    case False
    then show ?thesis using act_short [OF Cons.prems] by simp
  qed
qed simp

end

section \<open>Lemmas\<close>

lemma toStringPiece_alt: "toStringPiece b = drop (readerIndex b) (take (writerIndex b) (buffer b))"
  by (simp add: toStringPiece_def peek_def readableBytes_def drop_take)

lemma length_toStringPiece [simp]: "buf_inv b \<Longrightarrow> length (toStringPiece b) = readableBytes b"
  by (simp add: toStringPiece_alt buf_inv_def readableBytes_def)

lemma take_peek: "n \<le> readableBytes b \<Longrightarrow> take n (peek b) = take n (toStringPiece b)"
  by (simp add: toStringPiece_def)

lemma newBuffer_inv [simp]: "buf_inv (newBuffer n)" "toStringPiece (newBuffer n) = []"
  by (simp_all add: buf_inv_def newBuffer_def toStringPiece_alt)

lemma retrieve_ok:
  assumes "buf_inv b" "n \<le> readableBytes b"
  shows "\<exists>b'. retrieve n b = Inr b' \<and> buf_inv b' \<and> toStringPiece b' = drop n (toStringPiece b)"
  using assms
  by (auto simp: retrieve_def cpp_assert_def retrieveAll_def buf_inv_def toStringPiece_alt
      readableBytes_def add.commute)

lemma retrieveAsString_ok:
  assumes "buf_inv b" "n \<le> readableBytes b"
  shows "\<exists>b'. retrieveAsString n b = Inr (take n (toStringPiece b), b') \<and> buf_inv b'
           \<and> toStringPiece b' = drop n (toStringPiece b)"
  using retrieve_ok [OF assms] assms take_peek [OF assms(2)] by (auto simp: retrieveAsString_def)

lemma length_copy_at: "i + length xs \<le> length buf \<Longrightarrow> length (copy_at i xs buf) = length buf"
  by (simp add: copy_at_def)

lemma makeSpace_ok:
  assumes "buf_inv b" "writableBytes b < len"
  shows "\<exists>b'. makeSpace len b = Inr b' \<and> buf_inv b' \<and> toStringPiece b' = toStringPiece b
           \<and> len \<le> writableBytes b'"
proof (cases "writableBytes b + prependableBytes b < len + kCheapPrepend")
  case True
  have "take (writerIndex b) (buf_resize (writerIndex b + len) (buffer b))
      = take (writerIndex b) (buffer b)"
    using assms(1) by (simp add: buf_resize_def buf_inv_def)
  with True assms show ?thesis
    by (auto simp: makeSpace_def buf_inv_def toStringPiece_alt writableBytes_def buf_resize_def)
next
  case False
  let ?p = "toStringPiece b"
  have r: "kCheapPrepend < readerIndex b"
    using False assms(2) by (simp add: prependableBytes_def)
  have len: "length ?p = readableBytes b" using assms(1) by simp
  have fits: "kCheapPrepend + readableBytes b \<le> length (buffer b)"
    using assms(1) r unfolding buf_inv_def readableBytes_def by linarith
  have "drop kCheapPrepend (take (kCheapPrepend + readableBytes b)
          (copy_at kCheapPrepend ?p (buffer b))) = ?p"
    using fits len by (simp add: copy_at_def)
  with False r fits len length_copy_at [of kCheapPrepend ?p "buffer b"] assms show ?thesis
    by (simp add: makeSpace_def Let_def toStringPiece_alt [of "b\<lparr>buffer := _\<rparr>"] buf_inv_def
        readableBytes_def writableBytes_def prependableBytes_def)
      (simp add: toStringPiece_alt, linarith)
qed

lemma ensureWritable_ok:
  assumes "buf_inv b"
  shows "\<exists>b'. ensureWritableBytes len b = Inr b' \<and> buf_inv b'
           \<and> toStringPiece b' = toStringPiece b \<and> len \<le> writableBytes b'"
  using makeSpace_ok [OF assms, of len] assms by (auto simp: ensureWritableBytes_def)

lemma room_index: "buf_inv b \<Longrightarrow> n \<le> writableBytes b \<Longrightarrow> writerIndex b + n \<le> length (buffer b)"
  unfolding buf_inv_def writableBytes_def by linarith

lemma written_contents:
  assumes "buf_inv b" "length data \<le> writableBytes b"
  shows "buf_inv (b\<lparr>buffer := copy_at (writerIndex b) data (buffer b),
                     writerIndex := writerIndex b + length data\<rparr>)"
    "toStringPiece (b\<lparr>buffer := copy_at (writerIndex b) data (buffer b),
                      writerIndex := writerIndex b + length data\<rparr>)
       = toStringPiece b @ data"
  using assms(1) room_index [OF assms]
  by (simp_all add: buf_inv_def toStringPiece_alt copy_at_def)

lemma append_ok:
  assumes "buf_inv b"
  shows "\<exists>b'. buf_append data b = Inr b' \<and> buf_inv b' \<and> toStringPiece b' = toStringPiece b @ data"
proof -
  obtain b1 where b1: "ensureWritableBytes (length data) b = Inr b1" "buf_inv b1"
    "toStringPiece b1 = toStringPiece b" "length data \<le> writableBytes b1"
    using ensureWritable_ok [OF assms] by blast
  have "writerIndex b1 + length data \<le> length (buffer b1)"
    using room_index [OF b1(2,4)] .
  then have room: "length data \<le> writableBytes (b1\<lparr>buffer := copy_at (writerIndex b1) data (buffer b1)\<rparr>)"
    using b1(4) by (simp add: writableBytes_def length_copy_at)
  show ?thesis
    using b1 room written_contents [OF b1(2,4)] by (simp add: buf_append_def hasWritten_def)
qed

lemma readFd_ok:
  assumes "buf_inv b"
  shows "case readv (iov_room b) of
           None \<Rightarrow> readFd readv b = Inr (None, b)
         | Some data \<Rightarrow> \<exists>b'. readFd readv b = Inr (Some (length data), b') \<and> buf_inv b'
                          \<and> toStringPiece b' = toStringPiece b @ data"
proof (cases "readv (iov_room b)")
  case None
  then show ?thesis by (simp add: readFd_def Let_def)
next
  case (Some data)
  let ?w = "writableBytes b"
  let ?b1 = "b\<lparr>buffer := copy_at (writerIndex b) (take ?w data) (buffer b)\<rparr>"
  show ?thesis
  proof (cases "length data \<le> ?w")
    case True
    with Some written_contents [OF assms True] show ?thesis
      by (simp add: readFd_def Let_def)
  next
    case False
    then have fill: "length (take ?w data) = ?w" by simp
    have full: "writerIndex b + ?w = length (buffer ?b1)"
      using assms fill by (simp add: buf_inv_def writableBytes_def copy_at_def)
    from written_contents [OF assms, of "take ?w data"] fill full
    have "buf_inv (?b1\<lparr>writerIndex := length (buffer ?b1)\<rparr>)"
      and "toStringPiece (?b1\<lparr>writerIndex := length (buffer ?b1)\<rparr>) = toStringPiece b @ take ?w data"
      by simp_all
    with append_ok [of "?b1\<lparr>writerIndex := length (buffer ?b1)\<rparr>" "drop ?w data"] Some False
    show ?thesis by (auto simp: readFd_def Let_def)
  qed
qed

lemma shrink_ok:
  assumes "buf_inv b"
  shows "\<exists>b'. shrink reserve b = Inr b' \<and> buf_inv b' \<and> toStringPiece b' = toStringPiece b \<and> reserve \<le> writableBytes b'"
proof -
  let ?n = "readableBytes b + reserve"
  obtain o1 where o1: "ensureWritableBytes ?n (newBuffer kInitialSize) = Inr o1" "buf_inv o1"
    "toStringPiece o1 = []" "?n \<le> writableBytes o1"
    using ensureWritable_ok [of "newBuffer kInitialSize" ?n] by auto
  have le: "length (toStringPiece b) \<le> writableBytes o1" using o1(4) assms by simp
  have "ensureWritableBytes (length (toStringPiece b)) o1 = Inr o1"
    using le by (simp add: ensureWritableBytes_def)
  moreover have "length (copy_at (writerIndex o1) (toStringPiece b) (buffer o1)) = length (buffer o1)"
    by (rule length_copy_at [OF room_index [OF o1(2) le]])
  ultimately have "shrink reserve b
      = Inr (o1\<lparr>buffer := copy_at (writerIndex o1) (toStringPiece b) (buffer o1),
                writerIndex := writerIndex o1 + length (toStringPiece b)\<rparr>)"
    using o1(1,4) assms le
    by (simp add: shrink_def buf_append_def hasWritten_def writableBytes_def buf_swap_def)
  moreover have "reserve \<le> length (buffer o1) - (writerIndex o1 + length (toStringPiece b))"
    using o1(4) length_toStringPiece [OF assms] unfolding writableBytes_def by linarith
  moreover note length_copy_at [OF room_index [OF o1(2) le]] written_contents [OF o1(2) le] o1(3)
  ultimately show ?thesis by (simp add: writableBytes_def)
qed

lemma retrieveAll_ok: "buf_inv b \<Longrightarrow> buf_inv (retrieveAll b) \<and> toStringPiece (retrieveAll b) = []"
  by (simp add: retrieveAll_def buf_inv_def toStringPiece_alt)

lemma buf_do_ok:
  assumes "buf_inv b" "bytes_out x (readableBytes b) \<le> readableBytes b"
  shows "\<exists>b'. buf_do x b = Inr (take (bytes_out x (readableBytes b)) (toStringPiece b), b') \<and> buf_inv b'
    \<and> toStringPiece b' = drop (bytes_out x (readableBytes b)) (toStringPiece b) @ bytes_in x"
proof (cases x)
  case (Append data)
  then show ?thesis using append_ok [OF assms(1), of data] by auto
next
  case (ReadFd answer)
  then show ?thesis using readFd_ok [OF assms(1), of "\<lambda>_. answer"] assms(1) by (cases answer) auto
next
  case (Retrieve len)
  then show ?thesis using retrieve_ok [OF assms(1), of len] take_peek [of len b] assms(2) by auto
next
  case (RetrieveUntil off)
  then show ?thesis using retrieve_ok [OF assms(1), of off] take_peek [of off b] assms(2)
    by (auto simp: retrieveUntil_def)
next
  case RetrieveAll
  then show ?thesis using retrieveAll_ok [OF assms(1)] assms(1) by simp
next
  case (RetrieveAsString len)
  then show ?thesis using retrieveAsString_ok [OF assms(1), of len] assms(2) by auto
next
  case RetrieveAllAsString
  then show ?thesis using retrieveAsString_ok [OF assms(1), of "readableBytes b"]
    by (auto simp: retrieveAllAsString_def)
next
  case (EnsureWritable len)
  then show ?thesis using ensureWritable_ok [OF assms(1), of len] by auto
next
  case (Shrink reserve)
  then show ?thesis using shrink_ok [OF assms(1), of reserve] by auto
qed

lemma buf_do_short:
  "readableBytes b < bytes_out x (readableBytes b) \<Longrightarrow> buf_do x b = Inl AssertFailed"
  by (cases x) (auto simp: retrieve_def retrieveUntil_def retrieveAsString_def)

interpretation nb: byte_queue buf_inv toStringPiece "newBuffer kInitialSize" buf_do bytes_in bytes_out
  by unfold_locales (use buf_do_ok buf_do_short in auto)

lemma prepend_ok:
  assumes "buf_inv b" "length data \<le> prependableBytes b"
  shows "\<exists>b'. prepend data b = Inr b' \<and> buf_inv b' \<and> toStringPiece b' = data @ toStringPiece b"
proof -
  obtain r where r: "readerIndex b = r + length data"
    using assms(2) by (metis add.commute le_Suc_ex prependableBytes_def)
  have le: "r + length data \<le> length (buffer b)" "r + length data \<le> writerIndex b"
    using assms(1) r by (simp_all add: buf_inv_def)
  have "take (writerIndex b) (copy_at r data (buffer b))
      = take r (buffer b) @ data @ drop (r + length data) (take (writerIndex b) (buffer b))"
    using le by (simp add: copy_at_def drop_take)
  then show ?thesis
    using assms r le
    by (simp add: prepend_def prependableBytes_def buf_inv_def toStringPiece_alt length_copy_at)
qed

lemma be_bytes_length [simp]: "length (be_bytes k x) = k"
  by (simp add: be_bytes_def)

lemma from_be_snoc: "from_be (bs @ [b]) = push_bit 8 (from_be bs) OR ucast b"
  by (simp add: from_be_def)

lemma be_bytes_Suc: "be_bytes (Suc k) x = be_bytes k (drop_bit 8 x) @ [ucast x]"
  by (simp add: be_bytes_def upt_conv_Cons rev_map flip: map_Suc_upt del: upt_Suc)
    (simp add: o_def add.commute)

lemma from_be_bytes: "from_be (be_bytes k x) = take_bit (8 * k) (x :: 'a::len word)"
proof (induction k arbitrary: x)
  case 0
  then show ?case by (simp add: be_bytes_def from_be_def)
next
  case (Suc k)
  show ?case
    unfolding be_bytes_Suc from_be_snoc Suc.IH
    by (rule bit_word_eqI) (auto simp: bit_simps not_less)
qed

lemma from_be_bytes_full: "8 * k = LENGTH('a) \<Longrightarrow> from_be (be_bytes k x) = (x :: 'a::len word)"
  by (simp add: from_be_bytes)

lemma readInt_peek_ok:
  fixes x :: "'a::len word"
  assumes "buf_inv b" "toStringPiece b = be_bytes k x @ rest" "8 * k = LENGTH('a)"
  shows "\<exists>b'. readInt (peekInt k) k b = Inr (x, b') \<and> buf_inv b' \<and> toStringPiece b' = rest"
proof -
  have len: "k \<le> readableBytes b" using assms(2) length_toStringPiece [OF assms(1)] by simp
  obtain b' where b': "retrieve k b = Inr b'" "buf_inv b'" "toStringPiece b' = rest"
    using retrieve_ok [OF assms(1) len] assms(2) by auto
  have "from_be (take k (peek b)) = x"
    using take_peek [OF len] assms(2) from_be_bytes_full [OF assms(3), of x] by simp
  with b' len show ?thesis by (simp add: readInt_def peekInt_def)
qed

section \<open>Properties\<close>


text \<open>A sequence that moves the readable byte to the front instead of growing the vector.\<close>

lemma buffer_moves_to_front:
  "queue_run buf_do [Append [1, 2, 3, 4], Retrieve 3, Append [5, 6]] (newBuffer 4)
     = Inr ([[], [1, 2, 3], []],
         \<lparr>buffer = [0, 0, 0, 0, 0, 0, 0, 0, 4, 5, 6, 4], readerIndex = 8, writerIndex = 11\<rparr>)"
  by code_simp

text \<open>
  Appending to a well-formed buffer never fails an assertion, also when the
  readable bytes have to be moved to the front or the vector has to grow, keeps the
  buffer well formed and adds exactly the new bytes behind the readable ones.
\<close>

theorem buffer_append_total:
  assumes "buf_inv b"
  shows "\<exists>b'. buf_append data b = Inr b' \<and> buf_inv b' \<and> toStringPiece b' = toStringPiece b @ data"
  using append_ok [OF assms] .

theorem buffer_append_total_witness:
  "\<exists>b'. buf_append [7] \<lparr>buffer = replicate 8 0 @ [1, 2], readerIndex = 9, writerIndex = 10\<rparr> = Inr b'
     \<and> buf_inv b' \<and> toStringPiece b' = [2, 7]"
proof -
  let ?b = "\<lparr>buffer = replicate 8 0 @ [1, 2], readerIndex = 9, writerIndex = 10\<rparr>"
  have "buf_inv ?b" "toStringPiece ?b = [2]" by code_simp+
  with buffer_append_total [of ?b "[7]"] show ?thesis by simp
qed

text \<open>
  Reading from a descriptor appends exactly the bytes that \<^verbatim>\<open>readv\<close> delivered,
  also when they overflow into the stack buffer, and leaves the buffer as it was
  when the call fails.
\<close>

theorem buffer_readFd:
  assumes "buf_inv b"
  shows "case readv (iov_room b) of
           None \<Rightarrow> readFd readv b = Inr (None, b)
         | Some data \<Rightarrow> \<exists>b'. readFd readv b = Inr (Some (length data), b') \<and> buf_inv b'
                          \<and> toStringPiece b' = toStringPiece b @ data"
  by (rule readFd_ok [OF assms])

theorem buffer_readFd_witness:
  "\<exists>b'. readFd (\<lambda>n. Some [1, 2]) (newBuffer 1) = Inr (Some 2, b') \<and> buf_inv b'
     \<and> toStringPiece b' = [1, 2]"
  using buffer_readFd [of "newBuffer 1" "\<lambda>n. Some [1, 2]"] by (simp add: numeral_2_eq_2)

text \<open>
  An integer appended in network order to an empty buffer is read back
  unchanged, at each of the four widths, and leaves the buffer empty.
\<close>

theorem buffer_int_roundtrip:
  assumes "buf_inv b" "toStringPiece b = []"
  shows "(\<exists>b'. and_then (appendInt64 x64 b) readInt64 = Inr (x64, b') \<and> toStringPiece b' = [])
    \<and> (\<exists>b'. and_then (appendInt32 x32 b) readInt32 = Inr (x32, b') \<and> toStringPiece b' = [])
    \<and> (\<exists>b'. and_then (appendInt16 x16 b) readInt16 = Inr (x16, b') \<and> toStringPiece b' = [])
    \<and> (\<exists>b'. and_then (appendInt8 x8 b) readInt8 = Inr (x8, b') \<and> toStringPiece b' = [])"
proof -
  have gen: "\<exists>b'. and_then (buf_append (be_bytes k x) b) (readInt (peekInt k) k) = Inr (x, b')
        \<and> toStringPiece b' = []"
    if "8 * k = LENGTH('a)" for k and x :: "'a::len word"
    using append_ok [OF assms(1), of "be_bytes k x"] readInt_peek_ok [OF _ _ that, of _ x "[]"] assms(2)
    by fastforce
  have "be_bytes 1 x8 = [x8]" by (simp add: be_bytes_def)
  with gen [of 8 x64] gen [of 4 x32] gen [of 2 x16] gen [of 1 x8] show ?thesis
    by (simp add: appendInt64_def readInt64_def peekInt64_def appendInt32_def readInt32_def
        peekInt32_def appendInt16_def readInt16_def peekInt16_def appendInt8_def readInt8_def
        peekInt8_def)
qed

theorem buffer_int_roundtrip_witness:
  "\<exists>b'. and_then (appendInt32 (- 5) (newBuffer kInitialSize)) readInt32 = Inr (- 5, b')
     \<and> toStringPiece b' = []"
  using buffer_int_roundtrip [of "newBuffer kInitialSize" 0 "- 5" 0 0] by simp

text \<open>
  A header of at most the prependable bytes goes in front of the content, as
  the wire format wants it, and shrinking the buffer keeps the content.
\<close>

theorem buffer_prepend_shrink:
  assumes "buf_inv b" "length hdr \<le> prependableBytes b"
  shows "\<exists>b1 b2. prepend hdr b = Inr b1 \<and> shrink reserve b1 = Inr b2 \<and> buf_inv b2
           \<and> toStringPiece b2 = hdr @ toStringPiece b \<and> reserve \<le> writableBytes b2"
proof -
  obtain b1 where b1: "prepend hdr b = Inr b1" "buf_inv b1" "toStringPiece b1 = hdr @ toStringPiece b"
    using prepend_ok [OF assms] by blast
  with shrink_ok [OF b1(2), of reserve] show ?thesis by auto
qed

theorem buffer_prepend_shrink_witness:
  "\<exists>b1 b2. prepend [9] (newBuffer kInitialSize) = Inr b1 \<and> shrink 5 b1 = Inr b2 \<and> buf_inv b2
     \<and> toStringPiece b2 = [9] \<and> 5 \<le> writableBytes b2"
  using buffer_prepend_shrink [of "newBuffer kInitialSize" "[9]" 5]
  by (simp add: prependableBytes_def) (simp add: newBuffer_def kCheapPrepend_def)

end
