(* ===== verification/TcpConn.thy ===== *)
theory TcpConn
  imports NetBuffer
begin

text \<open>
  \<^verbatim>\<open>muduo::net::TcpConnection\<close> (\<^verbatim>\<open>muduo/net/TcpConnection.cc\<close>) with the parts of
  \<^verbatim>\<open>EventLoop\<close> and \<^verbatim>\<open>Channel\<close> it uses: the connection states, the direct write and the
  output buffer, calls from other threads, which become functors of the loop, shutdown
  and forced close. What \<^verbatim>\<open>write\<close> and \<^verbatim>\<open>readv\<close> return is chosen by the operating system
  and is an argument of the operations. Shown: the bytes written to the socket are
  the bytes accepted for sending, in order; the write side is shut down only after all of
  them; no assertion fails; and the output drains.
\<close>

section \<open>State\<close>

datatype StateE = kDisconnected | kConnecting | kConnected | kDisconnecting

datatype errno = EWOULDBLOCK | EPIPE | ECONNRESET | OtherError

datatype write_result = Wrote nat | WriteFailed errno

text \<open>What a connection queues in its event loop.\<close>

datatype loop_functor =
    SendInLoop "byte list"
  | ShutdownInLoop
  | ForceCloseInLoop
  | WriteComplete
  | HighWaterMark nat
  | StartReadInLoop
  | StopReadInLoop

text \<open>Calls of the callbacks the server has installed, in order.\<close>

datatype callback = OnConnection StateE | OnMessage | OnClose | OnWriteComplete | OnHighWaterMark nat

text \<open>
  \<open>chan_reading\<close> and \<open>chan_writing\<close> are the events of \<^verbatim>\<open>channel_\<close>; \<open>tc_pending\<close> are the
  functors of this connection in the event loop and \<open>close_timers\<close> its timers.
  The socket is represented by the bytes it has taken and whether its write side is shut.
\<close>

record TcpConnection =
  tc_state :: StateE
  tc_reading :: bool
  chan_reading :: bool
  chan_writing :: bool
  inputBuffer :: Buffer
  outputBuffer :: Buffer
  highWaterMark :: nat
  has_writeComplete :: bool
  has_highWaterMark :: bool
  tc_pending :: "loop_functor list"
  close_timers :: nat
  tc_calls :: "callback list"
  tc_wire :: "byte list"
  write_shut :: bool

definition newTcpConnection :: "bool \<Rightarrow> bool \<Rightarrow> TcpConnection" where
  "newTcpConnection wc hw = \<lparr>tc_state = kConnecting, tc_reading = True, chan_reading = False,
     chan_writing = False, inputBuffer = newBuffer kInitialSize, outputBuffer = newBuffer kInitialSize,
     highWaterMark = 64 * 1024 * 1024, has_writeComplete = wc, has_highWaterMark = hw, tc_pending = [],
     close_timers = 0, tc_calls = [], tc_wire = [], write_shut = False\<rparr>"

section \<open>Operations\<close>

definition queueInLoop :: "loop_functor \<Rightarrow> TcpConnection \<Rightarrow> TcpConnection" where
  "queueInLoop f c = c\<lparr>tc_pending := tc_pending c @ [f]\<rparr>"

definition run_callback :: "callback \<Rightarrow> TcpConnection \<Rightarrow> TcpConnection" where
  "run_callback e c = c\<lparr>tc_calls := tc_calls c @ [e]\<rparr>"

definition disableAll :: "TcpConnection \<Rightarrow> TcpConnection" where
  "disableAll c = c\<lparr>chan_reading := False, chan_writing := False\<rparr>"

text \<open>The attempt to write directly: the bytes taken and whether the peer is gone.\<close>

definition direct_write :: "write_result \<Rightarrow> TcpConnection \<Rightarrow> nat \<times> bool" where
  "direct_write r c =
     (if \<not> chan_writing c \<and> readableBytes (outputBuffer c) = 0
      then (case r of Wrote n \<Rightarrow> (n, False) | WriteFailed e \<Rightarrow> (0, e = EPIPE \<or> e = ECONNRESET))
      else (0, False))"

definition direct_complete :: "write_result \<Rightarrow> nat \<Rightarrow> TcpConnection \<Rightarrow> TcpConnection" where
  "direct_complete r len c =
     (if \<not> chan_writing c \<and> readableBytes (outputBuffer c) = 0 \<and> r = Wrote len \<and> has_writeComplete c
      then queueInLoop WriteComplete c else c)"

definition buffer_rest :: "byte list \<Rightarrow> TcpConnection \<Rightarrow> TcpConnection res" where
  "buffer_rest rest c =
     (let oldLen = readableBytes (outputBuffer c);
          c = (if highWaterMark c \<le> oldLen + length rest \<and> oldLen < highWaterMark c \<and> has_highWaterMark c
               then queueInLoop (HighWaterMark (oldLen + length rest)) c else c)
      in and_then (buf_append rest (outputBuffer c))
           (\<lambda>b. Inr (c\<lparr>outputBuffer := b, chan_writing := True\<rparr>)))"

definition sendInLoop :: "write_result \<Rightarrow> byte list \<Rightarrow> TcpConnection \<Rightarrow> TcpConnection res" where
  "sendInLoop r data c =
     (if tc_state c = kDisconnected then Inr c
      else
        let (nwrote, faultError) = direct_write r c;
            c1 = (direct_complete r (length data) c)\<lparr>tc_wire := tc_wire c @ take nwrote data\<rparr> in
        cpp_assert (nwrote \<le> length data)
          (if \<not> faultError \<and> nwrote < length data then buffer_rest (drop nwrote data) c1 else Inr c1))"

definition tcp_conn_send :: "bool \<Rightarrow> write_result \<Rightarrow> byte list \<Rightarrow> TcpConnection \<Rightarrow> TcpConnection res" where
  "tcp_conn_send in_loop r message c =
     (if tc_state c \<noteq> kConnected then Inr c
      else if in_loop then sendInLoop r message c
      else Inr (queueInLoop (SendInLoop message) c))"

text \<open>The variant that sends the contents of a buffer and empties it.\<close>

definition tcp_conn_send_buffer ::
  "bool \<Rightarrow> write_result \<Rightarrow> Buffer \<Rightarrow> TcpConnection \<Rightarrow> (Buffer \<times> TcpConnection) res" where
  "tcp_conn_send_buffer in_loop r buf c =
     (if tc_state c \<noteq> kConnected then Inr (buf, c)
      else if in_loop then
        and_then (sendInLoop r (take (readableBytes buf) (peek buf)) c) (\<lambda>c. Inr (retrieveAll buf, c))
      else and_then (retrieveAllAsString buf) (\<lambda>(m, buf). Inr (buf, queueInLoop (SendInLoop m) c)))"

definition shutdownInLoop :: "TcpConnection \<Rightarrow> TcpConnection" where
  "shutdownInLoop c = (if \<not> chan_writing c then c\<lparr>write_shut := True\<rparr> else c)"

definition shutdown :: "bool \<Rightarrow> TcpConnection \<Rightarrow> TcpConnection" where
  "shutdown in_loop c =
     (if tc_state c \<noteq> kConnected then c
      else let c = c\<lparr>tc_state := kDisconnecting\<rparr>
           in if in_loop then shutdownInLoop c else queueInLoop ShutdownInLoop c)"

definition handleClose :: "TcpConnection \<Rightarrow> TcpConnection res" where
  "handleClose c =
     cpp_assert (tc_state c = kConnected \<or> tc_state c = kDisconnecting)
       (Inr (run_callback OnClose (run_callback (OnConnection kDisconnected) (disableAll (c\<lparr>tc_state := kDisconnected\<rparr>)))))"

definition forceClose :: "TcpConnection \<Rightarrow> TcpConnection" where
  "forceClose c =
     (if tc_state c = kConnected \<or> tc_state c = kDisconnecting
      then queueInLoop ForceCloseInLoop (c\<lparr>tc_state := kDisconnecting\<rparr>) else c)"

definition forceCloseWithDelay :: "TcpConnection \<Rightarrow> TcpConnection" where
  "forceCloseWithDelay c =
     (if tc_state c = kConnected \<or> tc_state c = kDisconnecting
      then c\<lparr>tc_state := kDisconnecting, close_timers := Suc (close_timers c)\<rparr> else c)"

definition forceCloseInLoop :: "TcpConnection \<Rightarrow> TcpConnection res" where
  "forceCloseInLoop c = (if tc_state c = kConnected \<or> tc_state c = kDisconnecting then handleClose c else Inr c)"

definition startReadInLoop :: "TcpConnection \<Rightarrow> TcpConnection" where
  "startReadInLoop c =
     (if \<not> tc_reading c \<or> \<not> chan_reading c then c\<lparr>chan_reading := True, tc_reading := True\<rparr> else c)"

definition stopReadInLoop :: "TcpConnection \<Rightarrow> TcpConnection" where
  "stopReadInLoop c =
     (if tc_reading c \<or> chan_reading c then c\<lparr>chan_reading := False, tc_reading := False\<rparr> else c)"

definition startRead :: "bool \<Rightarrow> TcpConnection \<Rightarrow> TcpConnection" where
  "startRead in_loop c = (if in_loop then startReadInLoop c else queueInLoop StartReadInLoop c)"

definition stopRead :: "bool \<Rightarrow> TcpConnection \<Rightarrow> TcpConnection" where
  "stopRead in_loop c = (if in_loop then stopReadInLoop c else queueInLoop StopReadInLoop c)"

definition connectEstablished :: "TcpConnection \<Rightarrow> TcpConnection res" where
  "connectEstablished c =
     cpp_assert (tc_state c = kConnecting)
       (Inr (run_callback (OnConnection kConnected) (c\<lparr>tc_state := kConnected, chan_reading := True\<rparr>)))"

text \<open>\<^verbatim>\<open>Channel::remove\<close> asserts that the channel has no events.\<close>

definition connectDestroyed :: "TcpConnection \<Rightarrow> TcpConnection res" where
  "connectDestroyed c =
     (let c = (if tc_state c = kConnected
               then run_callback (OnConnection kDisconnected) (disableAll (c\<lparr>tc_state := kDisconnected\<rparr>)) else c)
      in cpp_assert (\<not> chan_reading c \<and> \<not> chan_writing c) (Inr c))"

text \<open>
  The message callback may take bytes out of the input buffer: \<open>taken\<close> of them. What
  it sends is a later call of \<^verbatim>\<open>send\<close> in the loop.
\<close>

definition handleRead :: "(nat \<Rightarrow> byte list option) \<Rightarrow> nat \<Rightarrow> TcpConnection \<Rightarrow> TcpConnection res" where
  "handleRead readv taken c =
     and_then (readFd readv (inputBuffer c)) (\<lambda>(n, b).
       let c = c\<lparr>inputBuffer := b\<rparr> in
       case n of
         None \<Rightarrow> Inr c
       | Some n \<Rightarrow>
           if 0 < n then and_then (retrieve taken b) (\<lambda>b. Inr (run_callback OnMessage (c\<lparr>inputBuffer := b\<rparr>)))
           else handleClose c)"

definition handleWrite :: "write_result \<Rightarrow> TcpConnection \<Rightarrow> TcpConnection res" where
  "handleWrite r c =
     (if chan_writing c then
        (case r of
           WriteFailed e \<Rightarrow> Inr c
         | Wrote n \<Rightarrow>
             if n = 0 then Inr c
             else and_then (retrieve n (outputBuffer c)) (\<lambda>b.
               let c1 = c\<lparr>outputBuffer := b, tc_wire := tc_wire c @ take n (peek (outputBuffer c))\<rparr> in
               if readableBytes b = 0 then
                 let c2 = c1\<lparr>chan_writing := False\<rparr>;
                     c3 = (if has_writeComplete c2 then queueInLoop WriteComplete c2 else c2)
                 in Inr (if tc_state c3 = kDisconnecting then shutdownInLoop c3 else c3)
               else Inr c1))
      else Inr c)"

text \<open>
  \<^verbatim>\<open>EventLoop::doPendingFunctors\<close> for the functors of this connection, one at a time:
  those queued meanwhile come after the ones already there.
\<close>

fun run_functor :: "write_result \<Rightarrow> loop_functor \<Rightarrow> TcpConnection \<Rightarrow> TcpConnection res" where
  "run_functor r (SendInLoop data) c = sendInLoop r data c"
| "run_functor r ShutdownInLoop c = Inr (shutdownInLoop c)"
| "run_functor r ForceCloseInLoop c = forceCloseInLoop c"
| "run_functor r WriteComplete c = Inr (run_callback OnWriteComplete c)"
| "run_functor r (HighWaterMark n) c = Inr (run_callback (OnHighWaterMark n) c)"
| "run_functor r StartReadInLoop c = Inr (startReadInLoop c)"
| "run_functor r StopReadInLoop c = Inr (stopReadInLoop c)"

definition run_pending :: "write_result \<Rightarrow> TcpConnection \<Rightarrow> TcpConnection res" where
  "run_pending r c =
     (case tc_pending c of [] \<Rightarrow> Inr c | f # fs \<Rightarrow> run_functor r f (c\<lparr>tc_pending := fs\<rparr>))"

section \<open>Transitions\<close>

text \<open>
  What a call of \<^verbatim>\<open>sendInLoop\<close> accepts: all of the data, unless the connection is down or
  the direct write finds that the peer is gone.
\<close>

definition accepted :: "write_result \<Rightarrow> byte list \<Rightarrow> TcpConnection \<Rightarrow> byte list" where
  "accepted r data c = (if tc_state c = kDisconnected \<or> snd (direct_write r c) then [] else data)"

text \<open>
  The steps of a connection, labelled with the bytes they accept for sending. The channel reports readability and
  writability while it is switched on for them, and a hang-up, whose callback is \<^verbatim>\<open>handleClose\<close>, while it is switched on for
  anything; the one case in which the poller reports a hang-up for a channel that is switched off, one switched off twice, is
  \<^verbatim>\<open>disable_twice_registers\<close> of \<^verbatim>\<open>EpollPoller\<close> and not part of these steps. \<^verbatim>\<open>stopRead\<close> may be called
  from any thread once the connection is established; \<^verbatim>\<open>startRead\<close> only in the loop's thread while the
  connection is up, because it does not look at the state itself (see \<open>tcp_startRead_after_close\<close>).
\<close>

inductive tcp_step :: "TcpConnection \<Rightarrow> byte list \<Rightarrow> TcpConnection \<Rightarrow> bool" where
  established: "connectEstablished c = Inr c' \<Longrightarrow> tcp_step c [] c'"
| send_here: "tcp_conn_send True r d c = Inr c' \<Longrightarrow>
    tcp_step c (if tc_state c = kConnected then accepted r d c else []) c'"
| send_there: "tcp_conn_send False r d c = Inr c' \<Longrightarrow> tcp_step c [] c'"
| from_queue: "tc_pending c = f # fs \<Longrightarrow> run_pending r c = Inr c' \<Longrightarrow>
    tcp_step c (case f of SendInLoop d \<Rightarrow> accepted r d c | _ \<Rightarrow> []) c'"
| writable: "chan_writing c \<Longrightarrow> handleWrite r c = Inr c' \<Longrightarrow> tcp_step c [] c'"
| readable: "chan_reading c \<Longrightarrow> handleRead readv k c = Inr c' \<Longrightarrow> tcp_step c [] c'"
| hung_up: "chan_reading c \<or> chan_writing c \<Longrightarrow> handleClose c = Inr c' \<Longrightarrow> tcp_step c [] c'"
| shut: "tcp_step c [] (shutdown b c)"
| force: "tcp_step c [] (forceClose c)"
| delayed: "tcp_step c [] (forceCloseWithDelay c)"
| timer: "close_timers c = Suc n \<Longrightarrow> tcp_step c [] (forceClose (c\<lparr>close_timers := n\<rparr>))"
| destroyed: "connectDestroyed c = Inr c' \<Longrightarrow> tcp_step c [] c'"
| stop_read: "tc_state c \<noteq> kConnecting \<Longrightarrow> tcp_step c [] (stopRead b c)"
| start_read: "tc_state c = kConnected \<or> tc_state c = kDisconnecting \<Longrightarrow> tcp_step c [] (startRead True c)"

inductive tcp_reach :: "byte list list \<Rightarrow> TcpConnection \<Rightarrow> bool" where
  start: "tcp_reach [] (newTcpConnection wc hw)"
| step: "tcp_reach ls c \<Longrightarrow> tcp_step c l c' \<Longrightarrow> tcp_reach (ls @ [l]) c'"

section \<open>The invariant\<close>

definition tcp_out :: "TcpConnection \<Rightarrow> byte list" where
  "tcp_out c = toStringPiece (outputBuffer c)"

abbreviation no_read_functor :: "TcpConnection \<Rightarrow> bool" where
  "no_read_functor c \<equiv> StartReadInLoop \<notin> set (tc_pending c)"

definition tcp_inv :: "TcpConnection \<Rightarrow> bool" where
  "tcp_inv c \<longleftrightarrow> buf_inv (inputBuffer c) \<and> buf_inv (outputBuffer c)
     \<and> (tc_state c \<noteq> kDisconnected \<longrightarrow> chan_writing c = (tcp_out c \<noteq> []))
     \<and> (chan_reading c \<or> chan_writing c \<longrightarrow> tc_state c = kConnected \<or> tc_state c = kDisconnecting)
     \<and> (tc_state c = kConnecting \<longrightarrow> tc_pending c = [] \<and> close_timers c = 0 \<and> tc_wire c = [])
     \<and> no_read_functor c"

text \<open>The bytes that have left or are going to leave, in order.\<close>

definition tcp_flow :: "TcpConnection \<Rightarrow> byte list" where
  "tcp_flow c = tc_wire c @ tcp_out c"

lemma readable_out: "buf_inv (outputBuffer c) \<Longrightarrow> readableBytes (outputBuffer c) = length (tcp_out c)"
  by (simp add: tcp_out_def)

lemma tcp_out_simps [simp]:
  "tcp_out (queueInLoop f c) = tcp_out c" "tcp_out (run_callback e c) = tcp_out c"
  "tcp_out (disableAll c) = tcp_out c" "tcp_out (c\<lparr>tc_state := s\<rparr>) = tcp_out c"
  "tcp_out (c\<lparr>tc_wire := w\<rparr>) = tcp_out c" "tcp_out (c\<lparr>tc_pending := fs\<rparr>) = tcp_out c"
  "tcp_out (c\<lparr>inputBuffer := b\<rparr>) = tcp_out c" "tcp_out (c\<lparr>chan_writing := v\<rparr>) = tcp_out c"
  "tcp_out (c\<lparr>chan_reading := v\<rparr>) = tcp_out c" "tcp_out (c\<lparr>write_shut := v\<rparr>) = tcp_out c"
  "tcp_out (c\<lparr>close_timers := n\<rparr>) = tcp_out c" "tcp_out (c\<lparr>tc_reading := v\<rparr>) = tcp_out c" "tcp_out (c\<lparr>outputBuffer := b\<rparr>) = toStringPiece b"
  by (simp_all add: tcp_out_def queueInLoop_def run_callback_def disableAll_def)

lemma tcp_field_simps [simp]:
  "tc_state (queueInLoop f c) = tc_state c" "tc_state (run_callback e c) = tc_state c"
  "tc_wire (queueInLoop f c) = tc_wire c" "tc_wire (run_callback e c) = tc_wire c"
  "chan_writing (queueInLoop f c) = chan_writing c" "chan_writing (run_callback e c) = chan_writing c"
  "chan_reading (queueInLoop f c) = chan_reading c" "chan_reading (run_callback e c) = chan_reading c"
  "inputBuffer (queueInLoop f c) = inputBuffer c" "inputBuffer (run_callback e c) = inputBuffer c"
  "outputBuffer (queueInLoop f c) = outputBuffer c" "outputBuffer (run_callback e c) = outputBuffer c"
  "write_shut (queueInLoop f c) = write_shut c" "write_shut (run_callback e c) = write_shut c"
  "close_timers (queueInLoop f c) = close_timers c" "close_timers (run_callback e c) = close_timers c"
  "tc_pending (run_callback e c) = tc_pending c" "tc_pending (queueInLoop f c) = tc_pending c @ [f]"
  by (simp_all add: queueInLoop_def run_callback_def)

lemma disableAll_simps [simp]:
  "tc_state (disableAll c) = tc_state c" "tc_wire (disableAll c) = tc_wire c"
  "\<not> chan_writing (disableAll c)" "\<not> chan_reading (disableAll c)"
  "inputBuffer (disableAll c) = inputBuffer c" "outputBuffer (disableAll c) = outputBuffer c"
  "write_shut (disableAll c) = write_shut c" "tc_pending (disableAll c) = tc_pending c"
  by (simp_all add: disableAll_def)

text \<open>\<open>direct_complete\<close> only queues a functor.\<close>

lemma direct_complete_cases: "direct_complete r n c = c \<or> direct_complete r n c = queueInLoop WriteComplete c"
  by (simp add: direct_complete_def)

lemma direct_complete_simps [simp]:
  "tc_state (direct_complete r n c) = tc_state c" "tc_wire (direct_complete r n c) = tc_wire c"
  "chan_writing (direct_complete r n c) = chan_writing c" "chan_reading (direct_complete r n c) = chan_reading c"
  "inputBuffer (direct_complete r n c) = inputBuffer c" "outputBuffer (direct_complete r n c) = outputBuffer c"
  "write_shut (direct_complete r n c) = write_shut c" "tcp_out (direct_complete r n c) = tcp_out c"
  "no_read_functor (direct_complete r n c) = no_read_functor c"
  using direct_complete_cases [of r n c] by auto

lemma buffer_rest_ok:
  assumes "buf_inv (outputBuffer c)"
  shows "\<exists>c'. buffer_rest rest c = Inr c' \<and> buf_inv (outputBuffer c') \<and> tcp_out c' = tcp_out c @ rest
     \<and> chan_writing c' \<and> chan_reading c' = chan_reading c \<and> tc_state c' = tc_state c
     \<and> tc_wire c' = tc_wire c \<and> inputBuffer c' = inputBuffer c \<and> write_shut c' = write_shut c
     \<and> no_read_functor c' = no_read_functor c"
  using append_ok [OF assms, of rest] by (auto simp: buffer_rest_def Let_def tcp_out_def)

text \<open>
  What the operating system may answer to a write of a connection: at most the
  bytes offered.
\<close>

definition write_ok :: "write_result \<Rightarrow> nat \<Rightarrow> bool" where
  "write_ok r len = (case r of Wrote n \<Rightarrow> n \<le> len | WriteFailed _ \<Rightarrow> True)"

lemma sendInLoop_ok:
  assumes inv: "tcp_inv c" and st: "tc_state c \<noteq> kConnecting"
    and w: "fst (direct_write r c) \<le> length data \<or> tc_state c = kDisconnected"
  shows "\<exists>c'. sendInLoop r data c = Inr c' \<and> tcp_inv c' \<and> tcp_flow c' = tcp_flow c @ accepted r data c
     \<and> write_shut c' = write_shut c \<and> tc_state c' = tc_state c"
proof (cases "tc_state c = kDisconnected")
  case True
  then show ?thesis using inv by (simp add: sendInLoop_def accepted_def)
next
  case False
  obtain n f where d: "direct_write r c = (n, f)" by fastforce
  define c1 where "c1 = (direct_complete r (length data) c)\<lparr>tc_wire := tc_wire c @ take n data\<rparr>"
  have n: "n \<le> length data" using w False d by simp
  have out: "buf_inv (outputBuffer c)" "buf_inv (inputBuffer c)" "chan_writing c = (tcp_out c \<noteq> [])"
    "chan_reading c \<or> chan_writing c \<longrightarrow> tc_state c = kConnected \<or> tc_state c = kDisconnecting"
    "no_read_functor c"
    using inv False by (simp_all add: tcp_inv_def)
  have idle: "tcp_out c = []" if "0 < n \<or> f"
    using that d out by (auto simp: direct_write_def readable_out split: if_splits write_result.splits)
  have f0: "n = 0" if f using that d by (auto simp: direct_write_def split: if_splits write_result.splits)
  have ss: "tc_state c = kConnected \<or> tc_state c = kDisconnecting"
    using st False by (cases "tc_state c") simp_all
  show ?thesis
  proof (cases "\<not> f \<and> n < length data")
    case True
    obtain c' where c': "buffer_rest (drop n data) c1 = Inr c'" "buf_inv (outputBuffer c')"
        "tcp_out c' = tcp_out c1 @ drop n data" "chan_writing c'" "chan_reading c' = chan_reading c1"
        "tc_state c' = tc_state c1" "tc_wire c' = tc_wire c1" "inputBuffer c' = inputBuffer c1"
        "write_shut c' = write_shut c1" "no_read_functor c' = no_read_functor c1"
      using buffer_rest_ok [of c1 "drop n data"] out(1) by (auto simp: c1_def)
    have "sendInLoop r data c = Inr c'"
      using False True n c'(1) d by (simp add: sendInLoop_def c1_def)
    moreover have "tcp_flow c' = tcp_flow c @ data"
    proof (cases "0 < n")
      case True
      then show ?thesis using c' idle by (simp add: tcp_flow_def c1_def)
    next
      case False
      then show ?thesis using c' by (simp add: tcp_flow_def c1_def)
    qed
    moreover have "tcp_inv c'"
      using c' out True ss by (simp add: tcp_inv_def c1_def) (auto simp: c1_def)
    ultimately show ?thesis using c' True False d by (auto simp: accepted_def c1_def)
  next
    case rest: False
    have "sendInLoop r data c = Inr c1"
      using False n rest d by (auto simp: sendInLoop_def c1_def Let_def)
    moreover have "tcp_inv c1" using out False ss by (simp add: tcp_inv_def c1_def) auto
    moreover have "tcp_flow c1 = tcp_flow c @ accepted r data c"
      using rest n idle f0 d False by (cases "data = []") (auto simp: tcp_flow_def c1_def accepted_def)
    ultimately show ?thesis by (auto simp: c1_def)
  qed
qed

lemma handleWrite_ok:
  assumes inv: "tcp_inv c" and w: "write_ok r (length (tcp_out c))"
  shows "\<exists>c'. handleWrite r c = Inr c' \<and> tcp_inv c' \<and> tcp_flow c' = tcp_flow c \<and> tc_state c' = tc_state c
     \<and> (write_shut c' \<longrightarrow> write_shut c \<or> tcp_out c' = [] \<and> tc_state c' = kDisconnecting)
     \<and> (\<forall>n. chan_writing c \<and> r = Wrote n \<longrightarrow> tcp_out c' = drop n (tcp_out c))
     \<and> (chan_writing c \<and> tcp_out c' = [] \<and> tc_state c = kDisconnecting \<longrightarrow> write_shut c')"
proof (cases "chan_writing c \<and> (\<exists>n>0. r = Wrote n)")
  case False
  then show ?thesis using inv
    by (cases r; cases "chan_writing c") (auto simp: handleWrite_def tcp_inv_def)
next
  case True
  then obtain n where n: "r = Wrote n" "0 < n" by auto
  have out: "buf_inv (outputBuffer c)" using inv by (simp add: tcp_inv_def)
  have le: "n \<le> readableBytes (outputBuffer c)" using w n readable_out [OF out] by (simp add: write_ok_def)
  obtain b where b: "retrieve n (outputBuffer c) = Inr b" "buf_inv b" "toStringPiece b = drop n (tcp_out c)"
    using retrieve_ok [OF out le] by (auto simp: tcp_out_def)
  have p: "take n (peek (outputBuffer c)) = take n (tcp_out c)" using take_peek [OF le] by (simp add: tcp_out_def)
  have e: "readableBytes b = 0 \<longleftrightarrow> drop n (tcp_out c) = []" using length_toStringPiece [OF b(2)] b(3) by auto
  have ss: "tc_state c = kConnected \<or> tc_state c = kDisconnecting" using inv True by (simp add: tcp_inv_def)
  show ?thesis
    using True n b p e ss inv
    by (auto simp: handleWrite_def Let_def tcp_inv_def tcp_flow_def shutdownInLoop_def)
qed

lemma handleClose_ok:
  assumes "tcp_inv c" "tc_state c = kConnected \<or> tc_state c = kDisconnecting"
  shows "\<exists>c'. handleClose c = Inr c' \<and> tcp_inv c' \<and> tcp_flow c' = tcp_flow c \<and> write_shut c' = write_shut c"
  using assms by (auto simp: handleClose_def tcp_inv_def tcp_flow_def)

lemma handleRead_ok:
  assumes inv: "tcp_inv c" "chan_reading c" and r: "handleRead readv k c = Inr c'"
  shows "tcp_inv c' \<and> tcp_flow c' = tcp_flow c \<and> write_shut c' = write_shut c"
proof -
  have b: "buf_inv (inputBuffer c)" and ss: "tc_state c = kConnected \<or> tc_state c = kDisconnecting"
    using inv by (simp_all add: tcp_inv_def)
  show ?thesis
  proof (cases "readv (iov_room (inputBuffer c))")
    case None
    then show ?thesis using readFd_ok [OF b, of readv] r inv by (simp add: handleRead_def tcp_inv_def tcp_flow_def)
  next
    case (Some data)
    then obtain b1 where b1: "readFd readv (inputBuffer c) = Inr (Some (length data), b1)" "buf_inv b1"
      using readFd_ok [OF b, of readv] by auto
    have inv1: "tcp_inv (c\<lparr>inputBuffer := b1\<rparr>)" using inv b1(2) by (simp add: tcp_inv_def)
    show ?thesis
    proof (cases "data = []")
      case True
      then have "handleClose (c\<lparr>inputBuffer := b1\<rparr>) = Inr c'" using r b1(1) by (simp add: handleRead_def)
      then show ?thesis using handleClose_ok [OF inv1] ss by (auto simp: tcp_flow_def)
    next
      case False
      then obtain b2 where b2: "retrieve k b1 = Inr b2" "c' = run_callback OnMessage (c\<lparr>inputBuffer := b2\<rparr>)"
        using r b1(1) by (auto simp: handleRead_def and_then_eq_Inr)
      then have "k \<le> readableBytes b1" by (simp add: retrieve_def cpp_assert_eq_Inr)
      then have "buf_inv b2" using retrieve_ok [OF b1(2), of k] b2(1) by auto
      then show ?thesis using inv b2(2) by (simp add: tcp_inv_def tcp_flow_def)
    qed
  qed
qed

lemma forceCloseInLoop_ok:
  assumes "tcp_inv c"
  shows "\<exists>c'. forceCloseInLoop c = Inr c' \<and> tcp_inv c' \<and> tcp_flow c' = tcp_flow c \<and> write_shut c' = write_shut c"
  using handleClose_ok [OF assms] assms by (auto simp: forceCloseInLoop_def)

lemma shutdownInLoop_ok:
  assumes "tcp_inv c" "tc_state c \<noteq> kConnecting"
  shows "tcp_inv (shutdownInLoop c) \<and> tcp_flow (shutdownInLoop c) = tcp_flow c
     \<and> (write_shut (shutdownInLoop c) \<longrightarrow> write_shut c \<or> \<not> chan_writing c)
     \<and> tc_state (shutdownInLoop c) = tc_state c \<and> tcp_out (shutdownInLoop c) = tcp_out c"
  using assms by (auto simp: shutdownInLoop_def tcp_inv_def tcp_flow_def)

lemma stopReadInLoop_ok:
  "tcp_inv c \<Longrightarrow> tcp_inv (stopReadInLoop c) \<and> tcp_flow (stopReadInLoop c) = tcp_flow c
     \<and> write_shut (stopReadInLoop c) = write_shut c"
  by (simp add: stopReadInLoop_def tcp_inv_def tcp_flow_def)

lemma startReadInLoop_ok:
  assumes "tcp_inv c" "tc_state c = kConnected \<or> tc_state c = kDisconnecting"
  shows "tcp_inv (startReadInLoop c) \<and> tcp_flow (startReadInLoop c) = tcp_flow c
     \<and> write_shut (startReadInLoop c) = write_shut c"
  using assms by (auto simp: startReadInLoop_def tcp_inv_def tcp_flow_def)

lemma run_callback_inv: "tcp_inv (run_callback e c) = tcp_inv c \<and> tcp_flow (run_callback e c) = tcp_flow c"
  by (simp add: tcp_inv_def tcp_flow_def)

section \<open>Every step keeps the invariant\<close>

lemma sendInLoop_step:
  assumes "tcp_inv c" "tc_state c \<noteq> kConnecting" "sendInLoop r data c = Inr c'"
  shows "tcp_inv c' \<and> tcp_flow c' = tcp_flow c @ accepted r data c \<and> write_shut c' = write_shut c"
proof -
  have "fst (direct_write r c) \<le> length data \<or> tc_state c = kDisconnected"
    using assms(3) by (auto simp: sendInLoop_def Let_def cpp_assert_eq_Inr split: prod.splits if_splits)
  from sendInLoop_ok [OF assms(1,2) this] assms(3) show ?thesis by auto
qed

lemma handleWrite_step:
  assumes "tcp_inv c" "handleWrite r c = Inr c'"
  shows "tcp_inv c' \<and> tcp_flow c' = tcp_flow c
     \<and> (write_shut c' \<longrightarrow> write_shut c \<or> tcp_out c' = [] \<and> tc_state c' = kDisconnecting)"
proof (cases "write_ok r (length (tcp_out c))")
  case True
  from handleWrite_ok [OF assms(1) True] assms(2) show ?thesis by auto
next
  case False
  then obtain n where n: "r = Wrote n" "length (tcp_out c) < n" by (cases r) (auto simp: write_ok_def)
  have "readableBytes (outputBuffer c) = length (tcp_out c)"
    using assms(1) by (intro readable_out) (simp add: tcp_inv_def)
  with n have "chan_writing c \<Longrightarrow> handleWrite r c = Inl AssertFailed"
    by (simp add: handleWrite_def retrieve_def)
  then have "\<not> chan_writing c" using assms(2) by auto
  then show ?thesis using assms by (auto simp: handleWrite_def)
qed

lemma functor_step:
  assumes inv: "tcp_inv c" and p: "tc_pending c = f # fs" and r: "run_pending r c = Inr c'"
  shows "tcp_inv c' \<and> tcp_flow c' = tcp_flow c @ (case f of SendInLoop d \<Rightarrow> accepted r d c | _ \<Rightarrow> [])
     \<and> (write_shut c' \<longrightarrow> write_shut c \<or> tcp_out c' = [] \<or> tc_state c' = kDisconnected)"
proof -
  define c1 where "c1 = c\<lparr>tc_pending := fs\<rparr>"
  have inv1: "tcp_inv c1" and st: "tc_state c1 \<noteq> kConnecting" using inv p by (auto simp: tcp_inv_def c1_def)
  have same: "tcp_flow c1 = tcp_flow c" "write_shut c1 = write_shut c" "accepted r d c1 = accepted r d c"
    for d by (simp_all add: c1_def tcp_flow_def accepted_def direct_write_def)
  have run: "run_functor r f c1 = Inr c'" using r p by (simp add: run_pending_def c1_def)
  show ?thesis
  proof (cases f)
    case (SendInLoop d)
    then show ?thesis using sendInLoop_step [OF inv1 st, of r d c'] run same by simp
  next
    case ShutdownInLoop
    then have c': "c' = shutdownInLoop c1" using run by simp
    have "\<not> chan_writing c1 \<longrightarrow> tcp_out c1 = [] \<or> tc_state c1 = kDisconnected"
      using inv1 by (auto simp: tcp_inv_def)
    then show ?thesis using shutdownInLoop_ok [OF inv1 st] ShutdownInLoop same c' by auto
  next
    case ForceCloseInLoop
    then show ?thesis using forceCloseInLoop_ok [OF inv1] run same by auto
  next
    case WriteComplete
    then show ?thesis using run inv1 same run_callback_inv [of OnWriteComplete c1] by auto
  next
    case (HighWaterMark n)
    then show ?thesis using run inv1 same run_callback_inv [of "OnHighWaterMark n" c1] by auto
  next
    case StopReadInLoop
    then show ?thesis using run inv1 same stopReadInLoop_ok [of c1] by auto
  qed (use inv p in \<open>simp_all add: tcp_inv_def\<close>)
qed

lemma tcp_step_ok:
  assumes "tcp_step c l c'" "tcp_inv c"
  shows "tcp_inv c' \<and> tcp_flow c' = tcp_flow c @ l
     \<and> (write_shut c' \<longrightarrow> write_shut c \<or> tcp_out c' = [] \<or> tc_state c' = kDisconnected)"
  using assms
proof cases
  case established
  then show ?thesis using assms(2)
    by (auto simp: connectEstablished_def cpp_assert_eq_Inr tcp_inv_def tcp_flow_def)
next
  case (send_here r d)
  then show ?thesis using assms(2) sendInLoop_step [of c r d c'] by (auto simp: tcp_conn_send_def split: if_splits)
next
  case (send_there r d)
  then show ?thesis using assms(2) by (auto simp: tcp_conn_send_def tcp_inv_def tcp_flow_def split: if_splits)
next
  case (from_queue f fs r)
  then show ?thesis using functor_step [OF assms(2)] by blast
next
  case (writable r)
  then show ?thesis using handleWrite_step [OF assms(2)] by auto
next
  case (readable readv k)
  then show ?thesis using handleRead_ok [OF assms(2)] by auto
next
  case hung_up
  then show ?thesis using handleClose_ok [OF assms(2)] assms(2) by (auto simp: tcp_inv_def)
next
  case (shut b)
  have "tcp_inv (c\<lparr>tc_state := kDisconnecting\<rparr>)" if "tc_state c = kConnected"
    using assms(2) that by (auto simp: tcp_inv_def)
  then show ?thesis using shut assms(2) shutdownInLoop_ok [of "c\<lparr>tc_state := kDisconnecting\<rparr>"]
    by (cases b) (auto simp: shutdown_def Let_def tcp_inv_def tcp_flow_def shutdownInLoop_def)
next
  case force
  then show ?thesis using assms(2) by (auto simp: forceClose_def tcp_inv_def tcp_flow_def)
next
  case delayed
  then show ?thesis using assms(2) by (auto simp: forceCloseWithDelay_def tcp_inv_def tcp_flow_def)
next
  case (timer n)
  then show ?thesis using assms(2) by (auto simp: forceClose_def tcp_inv_def tcp_flow_def)
next
  case destroyed
  then show ?thesis using assms(2)
    by (auto simp: connectDestroyed_def Let_def cpp_assert_eq_Inr tcp_inv_def tcp_flow_def split: if_splits)
next
  case (stop_read b)
  then show ?thesis using assms(2) stopReadInLoop_ok [OF assms(2)]
    by (cases b) (auto simp: stopRead_def tcp_inv_def tcp_flow_def)
next
  case start_read
  then show ?thesis using startReadInLoop_ok [OF assms(2)] by (auto simp: startRead_def)
qed

lemma tcp_reach_ok:
  assumes "tcp_reach ls c"
  shows "tcp_inv c \<and> tcp_flow c = concat ls"
  using assms
proof induction
  case (start wc hw)
  then show ?case by (simp add: newTcpConnection_def tcp_inv_def tcp_flow_def tcp_out_def)
next
  case (step ls c l c')
  then show ?case using tcp_step_ok [of c l c'] by simp
qed

section \<open>Draining the output\<close>

text \<open>A sequence of writable events in which the socket takes the given numbers of bytes.\<close>

primrec tcp_writes :: "nat list \<Rightarrow> TcpConnection \<Rightarrow> TcpConnection res" where
  "tcp_writes [] c = Inr c"
| "tcp_writes (n # ns) c = and_then (handleWrite (Wrote n) c) (tcp_writes ns)"

lemma tcp_writes_drain:
  assumes "tcp_inv c" "chan_writing c" "sum_list ns = length (tcp_out c)" "0 \<notin> set ns"
  shows "\<exists>c'. tcp_writes ns c = Inr c' \<and> tc_wire c' = tcp_flow c \<and> tcp_out c' = [] \<and> \<not> chan_writing c'
     \<and> (tc_state c = kDisconnecting \<longrightarrow> write_shut c')"
  using assms
proof (induction ns arbitrary: c)
  case Nil
  then show ?case by (auto simp: tcp_inv_def)
next
  case (Cons n ns)
  have "write_ok (Wrote n) (length (tcp_out c))" using Cons.prems(3) by (simp add: write_ok_def)
  from handleWrite_ok [OF Cons.prems(1) this] Cons.prems(2) obtain c1 where
    c1: "handleWrite (Wrote n) c = Inr c1" "tcp_inv c1" "tcp_flow c1 = tcp_flow c" "tc_state c1 = tc_state c"
      "tcp_out c1 = drop n (tcp_out c)" "tcp_out c1 = [] \<and> tc_state c = kDisconnecting \<longrightarrow> write_shut c1"
    by blast
  have ss: "tc_state c1 \<noteq> kDisconnected" using Cons.prems(1,2) c1(4) by (auto simp: tcp_inv_def)
  then have w: "chan_writing c1 = (tcp_out c1 \<noteq> [])" using c1(2) by (simp add: tcp_inv_def)
  have sum: "sum_list ns = length (tcp_out c1)" using Cons.prems(3) c1(5) by simp
  show ?case
  proof (cases "tcp_out c1 = []")
    case True
    then have "ns = []" using sum Cons.prems(4) by (cases ns) auto
    then show ?thesis using c1 w True by (auto simp: tcp_flow_def)
  next
    case False
    then show ?thesis using Cons.IH [OF c1(2) _ sum] Cons.prems(4) c1 w by auto
  qed
qed

text \<open>Sending a buffer is sending its contents; the buffer is emptied if the connection is up.\<close>

lemma tcp_conn_send_buffer_eq:
  assumes "buf_inv buf"
  shows "\<exists>buf'. buf_inv buf' \<and> toStringPiece buf' = (if tc_state c = kConnected then [] else toStringPiece buf)
     \<and> tcp_conn_send_buffer in_loop r buf c =
         and_then (tcp_conn_send in_loop r (toStringPiece buf) c) (\<lambda>c. Inr (buf', c))"
proof -
  have p: "take (readableBytes buf) (peek buf) = toStringPiece buf"
    using take_peek [of "readableBytes buf" buf] length_toStringPiece [OF assms] by simp
  have e: "buf_inv (retrieveAll buf)" "toStringPiece (retrieveAll buf) = []"
    using assms by (auto simp: retrieveAll_def buf_inv_def toStringPiece_alt)
  have "retrieveAllAsString buf = Inr (toStringPiece buf, retrieveAll buf)"
    by (simp add: retrieveAllAsString_def retrieveAsString_def retrieve_def p)
  then show ?thesis
    using assms e p by (cases "tc_state c = kConnected")
      (auto simp: tcp_conn_send_buffer_def tcp_conn_send_def)
qed

section \<open>Properties\<close>

lemma tcp_established:
  "tcp_reach [[]] (run_callback (OnConnection kConnected)
     ((newTcpConnection False False)\<lparr>tc_state := kConnected, chan_reading := True\<rparr>))"
proof -
  have "tcp_step (newTcpConnection False False) [] (run_callback (OnConnection kConnected)
     ((newTcpConnection False False)\<lparr>tc_state := kConnected, chan_reading := True\<rparr>))"
    by (rule tcp_step.established) (simp add: connectEstablished_def newTcpConnection_def)
  from tcp_reach.step [OF tcp_reach.start this] show ?thesis by simp
qed

text \<open>A connection that has written three bytes, and one whose socket would have blocked.\<close>

lemma sample_written:
  "\<exists>c. tcp_reach [[], [1, 2, 3]] c \<and> tc_state c = kConnected \<and> tc_wire c = [1, 2, 3] \<and> \<not> chan_writing c
     \<and> \<not> write_shut c"
proof -
  let ?c = "run_callback (OnConnection kConnected)
     ((newTcpConnection False False)\<lparr>tc_state := kConnected, chan_reading := True\<rparr>)"
  let ?c' = "?c\<lparr>tc_wire := [1, 2, 3]\<rparr>"
  have "readableBytes (outputBuffer ?c) = 0" by (simp add: newTcpConnection_def newBuffer_def readableBytes_def)
  then have "tcp_conn_send True (Wrote 3) [1, 2, 3] ?c = Inr ?c'" "accepted (Wrote 3) [1, 2, 3] ?c = [1, 2, 3]"
    by (simp_all add: tcp_conn_send_def sendInLoop_def direct_write_def direct_complete_def accepted_def
        newTcpConnection_def run_callback_def)
  with tcp_step.send_here [of "Wrote 3" "[1, 2, 3]" ?c ?c'] have "tcp_step ?c [1, 2, 3] ?c'" by simp
  from tcp_reach.step [OF tcp_established this] show ?thesis
    by (intro exI [of _ ?c']) (simp add: newTcpConnection_def)
qed

lemma sample_blocked:
  "\<exists>c. tcp_reach [[], [1, 2, 3]] c \<and> chan_writing c \<and> tcp_out c = [1, 2, 3] \<and> tc_state c = kConnected"
proof -
  let ?c = "run_callback (OnConnection kConnected)
     ((newTcpConnection False False)\<lparr>tc_state := kConnected, chan_reading := True\<rparr>)"
  let ?r = "WriteFailed EWOULDBLOCK"
  have e: "readableBytes (outputBuffer ?c) = 0" and o: "tcp_out ?c = []" and b: "buf_inv (outputBuffer ?c)"
    by (simp_all add: newTcpConnection_def newBuffer_def readableBytes_def tcp_out_def)
      (simp_all add: toStringPiece_alt buf_inv_def kCheapPrepend_def)
  obtain c' where c': "buffer_rest [1, 2, 3] ?c = Inr c'" "tcp_out c' = [1, 2, 3]" "chan_writing c'"
      "tc_state c' = kConnected"
    using buffer_rest_ok [OF b, of "[1, 2, 3]"] o by auto
  have "?c\<lparr>tc_wire := []\<rparr> = ?c" by (simp add: newTcpConnection_def run_callback_def)
  then have "tcp_conn_send True ?r [1, 2, 3] ?c = Inr c'" "accepted ?r [1, 2, 3] ?c = [1, 2, 3]"
    using e c'(1)
    by (simp_all add: tcp_conn_send_def sendInLoop_def direct_write_def direct_complete_def accepted_def
        newTcpConnection_def run_callback_def)
  with tcp_step.send_here [of ?r "[1, 2, 3]" ?c c'] have "tcp_step ?c [1, 2, 3] c'" by simp
  from tcp_reach.step [OF tcp_established this] show ?thesis using c' by auto
qed

text \<open>
  C19: a TCP connection neither loses, repeats nor reorders what it has accepted. In
  every reachable state, whatever mixture of sends from the loop and from other
  threads, partial and failing writes, reads, shutdowns and closes led to it, the bytes
  handed to the socket followed by the bytes in the output buffer are exactly the accepted
  data in order; and as long as the connection is not closed (its state is not \<^verbatim>\<open>kDisconnected\<close>) the
  channel waits for writability exactly while output is buffered. A close switches the channel off,
  what is buffered then stays where it is.
\<close>

theorem tcp_bytes_in_order:
  assumes "tcp_reach ls c"
  shows "tc_wire c @ toStringPiece (outputBuffer c) = concat ls
     \<and> (tc_state c \<noteq> kDisconnected \<longrightarrow> chan_writing c = (toStringPiece (outputBuffer c) \<noteq> []))"
  using tcp_reach_ok [OF assms] by (simp add: tcp_flow_def tcp_inv_def tcp_out_def)

theorem tcp_bytes_in_order_witness:
  "\<exists>c. tcp_reach [[], [1, 2, 3]] c \<and> chan_writing c \<and> tc_wire c @ toStringPiece (outputBuffer c) = [1, 2, 3]"
proof -
  obtain c where "tcp_reach [[], [1, 2, 3]] c" "chan_writing c" using sample_blocked by blast
  with tcp_bytes_in_order [of "[[], [1, 2, 3]]" c] show ?thesis by auto
qed

text \<open>
  C20: shutting down is graceful: when a step of a live connection shuts the write
  side of the socket, every byte accepted before has been written.
\<close>

theorem tcp_graceful_shutdown:
  assumes "tcp_reach ls c" "tcp_step c l c'" "\<not> write_shut c" "write_shut c'" "tc_state c' \<noteq> kDisconnected"
  shows "tc_wire c' = concat (ls @ [l])"
proof -
  have "tcp_reach (ls @ [l]) c'" using assms(1,2) by (rule tcp_reach.step)
  then have "tcp_flow c' = concat (ls @ [l])" by (simp add: tcp_reach_ok)
  moreover have "tcp_out c' = []" using tcp_step_ok [OF assms(2)] tcp_reach_ok [OF assms(1)] assms(3-5) by auto
  ultimately show ?thesis by (simp add: tcp_flow_def)
qed

theorem tcp_graceful_shutdown_witness:
  "\<exists>c. tcp_reach [[], [1, 2, 3]] c \<and> write_shut (shutdown True c) \<and> tc_wire (shutdown True c) = [1, 2, 3]"
proof -
  obtain c where c: "tcp_reach [[], [1, 2, 3]] c" "tc_state c = kConnected" "\<not> chan_writing c" "\<not> write_shut c"
    using sample_written by blast
  then have "write_shut (shutdown True c)" "tc_state (shutdown True c) = kDisconnecting"
    by (simp_all add: shutdown_def shutdownInLoop_def)
  with tcp_graceful_shutdown [OF c(1) tcp_step.shut [of c True]] c show ?thesis by auto
qed

text \<open>
  C21: buffered output drains: as soon as the socket has taken as many bytes as are
  buffered, in any portions, all accepted bytes are written, the channel
  stops waiting for writability, and a pending shutdown is carried out.
\<close>

theorem tcp_output_drains:
  assumes "tcp_reach ls c" "chan_writing c"
    and "sum_list ns = length (toStringPiece (outputBuffer c))" "0 \<notin> set ns"
  shows "\<exists>c'. tcp_writes ns c = Inr c' \<and> tc_wire c' = concat ls \<and> \<not> chan_writing c'
     \<and> (tc_state c = kDisconnecting \<longrightarrow> write_shut c')"
  using tcp_writes_drain [of c ns] tcp_reach_ok [OF assms(1)] assms(2-4) by (auto simp: tcp_out_def)

theorem tcp_output_drains_witness:
  "\<exists>c c'. tcp_reach [[], [1, 2, 3]] c \<and> tcp_writes [2, 1] c = Inr c' \<and> tc_wire c' = [1, 2, 3]"
proof -
  obtain c where "tcp_reach [[], [1, 2, 3]] c" "chan_writing c" "tcp_out c = [1, 2, 3]"
    using sample_blocked by blast
  with tcp_output_drains [of "[[], [1, 2, 3]]" c "[2, 1]"] show ?thesis by (auto simp: tcp_out_def)
qed

lemma direct_write_le: "write_ok r n \<Longrightarrow> fst (direct_write r c) \<le> n"
  by (auto simp: direct_write_def write_ok_def split: write_result.splits)

lemma functor_returns:
  assumes "tcp_inv c" "\<And>d fs. tc_pending c = SendInLoop d # fs \<Longrightarrow> write_ok r (length d)"
  shows "\<exists>c'. run_pending r c = Inr c'"
proof (cases "tc_pending c")
  case (Cons f fs)
  let ?c = "c\<lparr>tc_pending := fs\<rparr>"
  have inv: "tcp_inv ?c" "tc_state ?c \<noteq> kConnecting" using assms(1) Cons by (auto simp: tcp_inv_def)
  show ?thesis
  proof (cases f)
    case (SendInLoop d)
    then have "fst (direct_write r ?c) \<le> length d" using assms(2) Cons by (intro direct_write_le) simp
    then show ?thesis using sendInLoop_ok [OF inv, of r d] Cons SendInLoop by (auto simp: run_pending_def)
  qed (use Cons forceCloseInLoop_ok [OF inv(1)] in \<open>auto simp: run_pending_def\<close>)
qed (simp add: run_pending_def)

lemma hangup_returns: "tcp_inv c \<Longrightarrow> chan_reading c \<or> chan_writing c \<Longrightarrow> \<exists>c'. handleClose c = Inr c'"
  unfolding handleClose_def tcp_inv_def by simp

text \<open>
  What the message callback may do: it takes no more bytes than are in the input buffer when it is called,
  those just read included.
\<close>

definition taken_ok :: "(nat \<Rightarrow> byte list option) \<Rightarrow> nat \<Rightarrow> TcpConnection \<Rightarrow> bool" where
  "taken_ok readv k c =
     (case readv (iov_room (inputBuffer c)) of
        None \<Rightarrow> True | Some data \<Rightarrow> data = [] \<or> k \<le> length (toStringPiece (inputBuffer c) @ data))"

lemma send_returns:
  assumes "tcp_inv c" "write_ok r (length d)"
  shows "\<exists>c'. tcp_conn_send in_loop r d c = Inr c'"
  using sendInLoop_ok [OF assms(1), of r d] direct_write_le [OF assms(2), of c] by (auto simp: tcp_conn_send_def)

lemma write_returns:
  "tcp_inv c \<Longrightarrow> write_ok r (length (toStringPiece (outputBuffer c))) \<Longrightarrow> \<exists>c'. handleWrite r c = Inr c'"
  using handleWrite_ok [of c r] by (auto simp: tcp_out_def)

lemma handleRead_returns:
  assumes "tcp_inv c" "chan_reading c" "taken_ok readv k c"
  shows "\<exists>c'. handleRead readv k c = Inr c'"
proof (cases "readv (iov_room (inputBuffer c))")
  case None
  then show ?thesis using readFd_ok [of "inputBuffer c" readv] assms(1) by (simp add: handleRead_def tcp_inv_def)
next
  case (Some data)
  then obtain b where b: "readFd readv (inputBuffer c) = Inr (Some (length data), b)" "buf_inv b"
      "toStringPiece b = toStringPiece (inputBuffer c) @ data"
    using readFd_ok [of "inputBuffer c" readv] assms(1) by (auto simp: tcp_inv_def)
  have "data = [] \<or> (\<exists>b'. retrieve k b = Inr b')"
    using length_toStringPiece [OF b(2)] b(3) assms(3) Some retrieve_ok [OF b(2), of k] by (auto simp: taken_ok_def)
  moreover have "tc_state c = kConnected \<or> tc_state c = kDisconnecting" using assms(1,2) by (simp add: tcp_inv_def)
  ultimately show ?thesis using b(1) by (auto simp: handleRead_def handleClose_def Let_def)
qed

text \<open>
  C22: no assertion of the connection or its buffers fails in a reachable state, as
  long as \<^verbatim>\<open>write\<close> reports at most the bytes it was offered and the message callback takes no more
  bytes than are there when it is called, those just read included: sending from any thread, running the
  next queued functor and handling an event of the channel, readable, writable or hung up, all return, and \<^verbatim>\<open>connectDestroyed\<close> returns on a
  connection that is connected or closed. \<^verbatim>\<open>startRead\<close> is part of the reachable states only as a call in the loop's thread
  while the connection is up; after a close it can fail the assertion of \<^verbatim>\<open>handleClose\<close>, see below.
\<close>

theorem tcp_no_assertion_fails:
  assumes "tcp_reach ls c"
  shows "(write_ok r (length d) \<longrightarrow> (\<exists>c'. tcp_conn_send in_loop r d c = Inr c'))
    \<and> ((\<forall>d fs. tc_pending c = SendInLoop d # fs \<longrightarrow> write_ok r (length d)) \<longrightarrow> (\<exists>c'. run_pending r c = Inr c'))
    \<and> (write_ok r (length (toStringPiece (outputBuffer c))) \<longrightarrow> (\<exists>c'. handleWrite r c = Inr c'))
    \<and> (chan_reading c \<and> (\<forall>data. readv (iov_room (inputBuffer c)) = Some data \<and> data \<noteq> []
            \<longrightarrow> k \<le> length (toStringPiece (inputBuffer c)) + length data)
        \<longrightarrow> (\<exists>c'. handleRead readv k c = Inr c'))
    \<and> (chan_reading c \<or> chan_writing c \<longrightarrow> (\<exists>c'. handleClose c = Inr c'))
    \<and> (tc_state c = kConnected \<or> tc_state c = kDisconnected \<longrightarrow> (\<exists>c'. connectDestroyed c = Inr c'))"
proof -
  have inv: "tcp_inv c" using tcp_reach_ok [OF assms] by blast
  have "taken_ok readv k c" if "\<forall>data. readv (iov_room (inputBuffer c)) = Some data \<and> data \<noteq> []
      \<longrightarrow> k \<le> length (toStringPiece (inputBuffer c)) + length data"
    using that by (auto simp: taken_ok_def split: option.splits)
  moreover have "\<exists>c'. connectDestroyed c = Inr c'" if "tc_state c = kConnected \<or> tc_state c = kDisconnected"
    using inv that by (auto simp: connectDestroyed_def tcp_inv_def)
  ultimately show ?thesis
    using send_returns [OF inv] functor_returns [OF inv, of r] write_returns [OF inv] handleRead_returns [OF inv, of readv k]
      hangup_returns [OF inv] by blast
qed

text \<open>The message callback of a fresh connection takes the two bytes just read.\<close>

theorem tcp_no_assertion_fails_witness:
  "\<exists>c c'. tcp_reach [[]] c \<and> toStringPiece (inputBuffer c) = [] \<and> handleRead (\<lambda>_. Some [1, 2]) 2 c = Inr c'"
proof -
  let ?c = "run_callback (OnConnection kConnected)
     ((newTcpConnection False False)\<lparr>tc_state := kConnected, chan_reading := True\<rparr>)"
  have "toStringPiece (inputBuffer ?c) = []" by (simp add: newTcpConnection_def)
  moreover from this have "\<exists>c'. handleRead (\<lambda>_. Some [1, 2]) 2 ?c = Inr c'"
    using tcp_no_assertion_fails [OF tcp_established, of "Wrote 0" "[]" True "\<lambda>_. Some [1, 2]" 2] by simp
  ultimately show ?thesis using tcp_established by blast
qed

text \<open>
  \<^verbatim>\<open>startRead\<close> does not look at the state: after a close it registers the channel for
  reading again, and the next end of file fails the assertion of \<^verbatim>\<open>handleClose\<close>.
\<close>

lemma tcp_startRead_after_close:
  assumes "tc_state c = kDisconnected" "buf_inv (inputBuffer c)"
  shows "chan_reading (startReadInLoop c) \<and> handleRead (\<lambda>_. Some []) k (startReadInLoop c) = Inl AssertFailed"
proof -
  have "\<exists>b'. readFd (\<lambda>_. Some []) (inputBuffer c) = Inr (Some 0, b')" using readFd_ok [OF assms(2), of "\<lambda>_. Some []"] by auto
  then show ?thesis using assms(1) by (auto simp: startReadInLoop_def handleRead_def handleClose_def)
qed

end
