(* ===== verification/TcpServer.thy ===== *)
theory TcpServer
  imports TcpConn
begin

text \<open>
  A server and its threads: \<^verbatim>\<open>muduo/net/TcpServer.cc\<close> and \<^verbatim>\<open>EventLoopThreadPool.cc\<close> over the connections of \<open>TcpConn\<close>. The loop of
  the server, which accepts, is loop 0; loops 1, 2, ... belong to the threads of the pool. Each loop has its queue of functors,
  which its thread runs in order; a loop's thread runs a functor for its own loop at once. A connection is accepted in loop 0,
  established in its own loop, closed there, taken out of the server's map in loop 0 and destroyed in its own loop.
\<close>

section \<open>The pool of loops\<close>

record EventLoopThreadPool =
  tp_started :: bool
  numThreads :: nat
  tp_next :: nat
  tp_loops :: "nat list"

definition newThreadPoolOf :: "nat \<Rightarrow> EventLoopThreadPool" where
  "newThreadPoolOf n = \<lparr>tp_started = False, numThreads = n, tp_next = 0, tp_loops = []\<rparr>"

definition tp_start :: "EventLoopThreadPool \<Rightarrow> EventLoopThreadPool res" where
  "tp_start t = cpp_assert (\<not> tp_started t) (Inr (t\<lparr>tp_started := True, tp_loops := tp_loops t @ [1..<Suc (numThreads t)]\<rparr>))"

definition getNextLoop :: "EventLoopThreadPool \<Rightarrow> (nat \<times> EventLoopThreadPool) res" where
  "getNextLoop t =
     cpp_assert (tp_started t)
       (if tp_loops t = [] then Inr (0, t)
        else if tp_next t < length (tp_loops t) then
          Inr (tp_loops t ! tp_next t, t\<lparr>tp_next := (if length (tp_loops t) \<le> Suc (tp_next t) then 0 else Suc (tp_next t))\<rparr>)
        else Inl OutOfBounds)"

definition getLoopForHash :: "nat \<Rightarrow> EventLoopThreadPool \<Rightarrow> nat" where
  "getLoopForHash hashCode t = (if tp_loops t = [] then 0 else tp_loops t ! (hashCode mod length (tp_loops t)))"

definition getAllLoops :: "EventLoopThreadPool \<Rightarrow> nat list res" where
  "getAllLoops t = cpp_assert (tp_started t) (Inr (if tp_loops t = [] then [0] else tp_loops t))"

section \<open>The server\<close>

datatype server_functor = ConnectEstablished nat | RemoveConnectionInLoop nat | ConnectDestroyed nat

text \<open>
  A connection object is known by a number, in the order of creation; \<open>conn_name\<close> and \<open>conn_loop\<close> are its name and its loop.
  A destroyed object is no longer in \<open>conns\<close>.
\<close>

record TcpServer =
  sv_ipPort :: string
  sv_name :: string
  threadPool :: EventLoopThreadPool
  nextConnId :: nat
  connections :: "string \<rightharpoonup> nat"
  conns :: "nat \<rightharpoonup> TcpConnection"
  conn_name :: "nat \<Rightarrow> string"
  conn_loop :: "nat \<Rightarrow> nat"
  created :: nat
  loop_queue :: "nat \<Rightarrow> server_functor list"

definition newTcpServer :: "string \<Rightarrow> string \<Rightarrow> nat \<Rightarrow> TcpServer" where
  "newTcpServer ipPort nameArg n =
     \<lparr>sv_ipPort = ipPort, sv_name = nameArg, threadPool = newThreadPoolOf n, nextConnId = 1, connections = Map.empty, conns = Map.empty,
      conn_name = (\<lambda>_. []), conn_loop = (\<lambda>_. 0), created = 0, loop_queue = (\<lambda>_. [])\<rparr>"

definition server_start :: "TcpServer \<Rightarrow> TcpServer res" where
  "server_start s =
     (if tp_started (threadPool s) then Inr s else and_then (tp_start (threadPool s)) (\<lambda>t. Inr (s\<lparr>threadPool := t\<rparr>)))"

definition enqueue :: "nat \<Rightarrow> server_functor \<Rightarrow> TcpServer \<Rightarrow> TcpServer" where
  "enqueue i f s = s\<lparr>loop_queue := (loop_queue s)(i := loop_queue s i @ [f])\<rparr>"

definition conn_at :: "nat \<Rightarrow> TcpServer \<Rightarrow> TcpConnection res" where
  "conn_at k s = (case conns s k of None \<Rightarrow> Inl OutOfBounds | Some c \<Rightarrow> Inr c)"

definition removeConnectionInLoop :: "nat \<Rightarrow> TcpServer \<Rightarrow> TcpServer res" where
  "removeConnectionInLoop k s =
     cpp_assert (connections s (conn_name s k) \<noteq> None)
       (Inr (enqueue (conn_loop s k) (ConnectDestroyed k) (s\<lparr>connections := (connections s)(conn_name s k := None)\<rparr>)))"

fun exec_functor :: "server_functor \<Rightarrow> TcpServer \<Rightarrow> TcpServer res" where
  "exec_functor (ConnectEstablished k) s =
     and_then (conn_at k s) (\<lambda>c. and_then (connectEstablished c) (\<lambda>c. Inr (s\<lparr>conns := (conns s)(k \<mapsto> c)\<rparr>)))"
| "exec_functor (RemoveConnectionInLoop k) s = removeConnectionInLoop k s"
| "exec_functor (ConnectDestroyed k) s =
     and_then (conn_at k s) (\<lambda>c. and_then (connectDestroyed c) (\<lambda>c. Inr (s\<lparr>conns := (conns s)(k := None)\<rparr>)))"

definition runInLoop_from :: "nat \<Rightarrow> nat \<Rightarrow> server_functor \<Rightarrow> TcpServer \<Rightarrow> TcpServer res" where
  "runInLoop_from here there f s = (if here = there then exec_functor f s else Inr (enqueue there f s))"

text \<open>\<^verbatim>\<open>snprintf\<close> keeps 63 characters; counting beyond the largest \<^verbatim>\<open>int\<close> is undefined.\<close>

definition connection_name :: "string \<Rightarrow> string \<Rightarrow> nat \<Rightarrow> string" where
  "connection_name nm ipPort n = nm @ take 63 (''-'' @ ipPort @ ''#'' @ dec n)"

definition newConnection :: "bool \<Rightarrow> bool \<Rightarrow> TcpServer \<Rightarrow> TcpServer res" where
  "newConnection wc hw s =
     and_then (getNextLoop (threadPool s)) (\<lambda>(ioLoop, t).
       if 2 ^ 31 - 1 \<le> nextConnId s then Inl Overflow
       else
         let k = created s; connName = connection_name (sv_name s) (sv_ipPort s) (nextConnId s) in
         runInLoop_from 0 ioLoop (ConnectEstablished k)
           (s\<lparr>threadPool := t, nextConnId := Suc (nextConnId s), connections := (connections s)(connName \<mapsto> k),
              conns := (conns s)(k \<mapsto> newTcpConnection wc hw), conn_name := (conn_name s)(k := connName),
              conn_loop := (conn_loop s)(k := ioLoop), created := Suc k\<rparr>))"

definition removeConnection :: "nat \<Rightarrow> TcpServer \<Rightarrow> TcpServer res" where
  "removeConnection k s = runInLoop_from (conn_loop s k) 0 (RemoveConnectionInLoop k) s"

text \<open>
  What happens to a connection in its loop and by calls of the application, with the result of the handler, a failed
  assertion included. What comes from outside is restricted only by what the system call and the message callback promise: \<^verbatim>\<open>write\<close>
  takes at most the bytes offered, the callback takes at most the bytes that are in the buffer when it is called. \<^verbatim>\<open>startRead\<close>
  is called in the loop's thread while the connection is up.
\<close>

inductive conn_event :: "TcpConnection \<Rightarrow> TcpConnection res \<Rightarrow> bool" where
  ev_send: "write_ok r (length d) \<Longrightarrow> conn_event c (tcp_conn_send in_loop r d c)"
| ev_functor: "tc_pending c = f # fs \<Longrightarrow> (\<forall>d. f = SendInLoop d \<longrightarrow> write_ok r (length d)) \<Longrightarrow> conn_event c (run_pending r c)"
| ev_writable: "chan_writing c \<Longrightarrow> write_ok r (length (toStringPiece (outputBuffer c))) \<Longrightarrow> conn_event c (handleWrite r c)"
| ev_readable: "chan_reading c \<Longrightarrow> taken_ok readv n c \<Longrightarrow> conn_event c (handleRead readv n c)"
| ev_hangup: "chan_reading c \<or> chan_writing c \<Longrightarrow> conn_event c (handleClose c)"
| ev_shutdown: "conn_event c (Inr (shutdown b c))"
| ev_force: "conn_event c (Inr (forceClose c))"
| ev_delay: "conn_event c (Inr (forceCloseWithDelay c))"
| ev_timer: "close_timers c = Suc n \<Longrightarrow> conn_event c (Inr (forceClose (c\<lparr>close_timers := n\<rparr>)))"
| ev_stopRead: "tc_state c \<noteq> kConnecting \<Longrightarrow> conn_event c (Inr (stopRead b c))"
| ev_startRead: "tc_state c = kConnected \<or> tc_state c = kDisconnecting \<Longrightarrow> conn_event c (Inr (startRead True c))"

text \<open>The close callback of a connection is \<^verbatim>\<open>removeConnection\<close>; it runs each time the connection calls it.\<close>

definition closes :: "TcpConnection \<Rightarrow> nat" where
  "closes c = count_list (tc_calls c) OnClose"

primrec call_close :: "nat \<Rightarrow> nat \<Rightarrow> TcpServer \<Rightarrow> TcpServer res" where
  "call_close k 0 s = Inr s"
| "call_close k (Suc n) s = and_then (removeConnection k s) (call_close k n)"

section \<open>Transitions\<close>

inductive srv_step :: "TcpServer \<Rightarrow> TcpServer res \<Rightarrow> bool" where
  sv_accept: "nextConnId s < 2 ^ 31 - 1 \<Longrightarrow> srv_step s (newConnection wc hw s)"
| sv_functor: "loop_queue s i = f # fs \<Longrightarrow> srv_step s (exec_functor f (s\<lparr>loop_queue := (loop_queue s)(i := fs)\<rparr>))"
| sv_event: "conns s k = Some c \<Longrightarrow> conn_event c r \<Longrightarrow>
    srv_step s (and_then r (\<lambda>c'. call_close k (closes c' - closes c) (s\<lparr>conns := (conns s)(k \<mapsto> c')\<rparr>)))"

inductive srv_reach :: "TcpServer \<Rightarrow> bool" where
  sv_init: "server_start (newTcpServer ipPort nm n) = Inr s \<Longrightarrow> length ipPort \<le> 51 \<Longrightarrow> srv_reach s"
| sv_step: "srv_reach s \<Longrightarrow> srv_step s (Inr s') \<Longrightarrow> srv_reach s'"

section \<open>Connections call back once when they are closed\<close>

lemma send_calls: "sendInLoop r d c = Inr c' \<Longrightarrow> tc_calls c' = tc_calls c \<and> tc_state c' = tc_state c"
  by (auto simp: sendInLoop_def buffer_rest_def direct_complete_def queueInLoop_def Let_def and_then_eq_Inr cpp_assert_eq_Inr
      split: prod.splits if_splits)

lemma write_calls: "handleWrite r c = Inr c' \<Longrightarrow> tc_calls c' = tc_calls c \<and> tc_state c' = tc_state c"
  by (auto simp: handleWrite_def shutdownInLoop_def queueInLoop_def Let_def and_then_eq_Inr split: write_result.splits if_splits)

lemma close_calls: "handleClose c = Inr c' \<Longrightarrow> tc_state c \<noteq> kDisconnected \<and> tc_state c' = kDisconnected \<and> closes c' = Suc (closes c)"
  by (auto simp: handleClose_def cpp_assert_eq_Inr closes_def run_callback_def disableAll_def)

definition closing :: "TcpConnection \<Rightarrow> TcpConnection \<Rightarrow> bool" where
  "closing c c' \<longleftrightarrow> tc_state c \<noteq> kDisconnected \<and> tc_state c' = kDisconnected"

text \<open>Every event returns: the assertions of a connection hold in the states it can reach.\<close>

lemma event_returns:
  assumes "conn_event c r" "tcp_inv c"
  shows "\<exists>c'. r = Inr c'"
  using assms(1)
proof cases
  case (ev_functor f fs w)
  then show ?thesis using functor_returns [OF assms(2), of w] by simp
qed (use send_returns [OF assms(2)] write_returns [OF assms(2)] handleRead_returns [OF assms(2)]
    hangup_returns [OF assms(2)] in simp_all)

lemma event_effect:
  assumes "conn_event c r" "tcp_inv c" "r = Inr c'"
  shows "(tc_state c' = kConnecting \<longleftrightarrow> tc_state c = kConnecting) \<and> (tc_state c = kDisconnected \<longrightarrow> tc_state c' = kDisconnected)
    \<and> closes c' = closes c + (if closing c c' then 1 else 0)"
  using assms(1)
proof cases
  case (ev_send w d in_loop)
  then have "tcp_conn_send in_loop w d c = Inr c'" using assms(3) by simp
  then show ?thesis
    by (auto simp: tcp_conn_send_def closing_def closes_def queueInLoop_def dest!: send_calls split: if_splits)
next
  case (ev_functor f fs w)
  let ?c = "c\<lparr>tc_pending := fs\<rparr>"
  have st: "tc_state c \<noteq> kConnecting" and nr: "f \<noteq> StartReadInLoop" using assms(2) ev_functor(2) by (auto simp: tcp_inv_def)
  have same: "closes ?c = closes c" "tc_state ?c = tc_state c" by (simp_all add: closes_def)
  from ev_functor assms(3) have run: "run_functor w f ?c = Inr c'" by (simp add: run_pending_def)
  show ?thesis
  proof (cases f)
    case (SendInLoop d)
    then show ?thesis using run send_calls [of w d ?c c'] by (auto simp: closing_def closes_def)
  next
    case ForceCloseInLoop
    then show ?thesis using run st same close_calls [of ?c c']
      by (auto simp: forceCloseInLoop_def closing_def split: if_splits)
  qed (use run st nr in \<open>auto simp: shutdownInLoop_def stopReadInLoop_def run_callback_def closing_def closes_def split: if_splits\<close>)
next
  case (ev_writable w)
  then have "handleWrite w c = Inr c'" using assms(3) by simp
  then show ?thesis by (auto simp: closing_def closes_def dest!: write_calls)
next
  case (ev_readable readv n)
  have run: "handleRead readv n c = Inr c'" using ev_readable(1) assms(3) by simp
  have st: "tc_state c \<noteq> kConnecting" using assms(2) ev_readable(2) by (auto simp: tcp_inv_def)
  obtain m b where m: "readFd readv (inputBuffer c) = Inr (m, b)" using run by (auto simp: handleRead_def and_then_eq_Inr)
  have same: "closes (c\<lparr>inputBuffer := b'\<rparr>) = closes c" for b' by (simp add: closes_def)
  show ?thesis
  proof (cases "m = Some 0")
    case True
    then show ?thesis using run m st same close_calls [of "c\<lparr>inputBuffer := b\<rparr>" c'] by (auto simp: handleRead_def closing_def)
  next
    case False
    then show ?thesis using run m
      by (auto simp: handleRead_def Let_def closing_def closes_def run_callback_def and_then_eq_Inr split: option.splits if_splits)
  qed
next
  case ev_hangup
  have "tc_state c \<noteq> kConnecting" using assms(2) ev_hangup(2) by (auto simp: tcp_inv_def)
  then show ?thesis using ev_hangup(1) assms(3) close_calls [of c c'] by (auto simp: closing_def)
qed (use assms(3) in \<open>auto simp: shutdown_def shutdownInLoop_def forceClose_def forceCloseWithDelay_def queueInLoop_def startRead_def
    stopRead_def startReadInLoop_def stopReadInLoop_def closing_def closes_def Let_def split: if_splits\<close>)

lemma event_step:
  assumes "conn_event c r" "r = Inr c'"
  shows "\<exists>l. tcp_step c l c'"
  using assms(1)
proof cases
  case (ev_send w d in_loop)
  then have "tcp_conn_send in_loop w d c = Inr c'" using assms(2) by simp
  then show ?thesis by (cases in_loop) (auto intro: send_here send_there)
next
  case (ev_functor f fs w)
  then show ?thesis using assms(2) from_queue [of c f fs w c'] by auto
next
  case (ev_writable w)
  then show ?thesis using assms(2) writable [of c w c'] by auto
next
  case (ev_readable readv n)
  then show ?thesis using assms(2) readable [of c readv n c'] by auto
next
  case ev_hangup
  then show ?thesis using assms(2) hung_up [of c c'] by auto
next
  case (ev_timer n)
  then show ?thesis using assms(2) timer [of c n] by auto
qed (use assms(2) in \<open>auto intro: shut force delayed stop_read start_read\<close>)

section \<open>Names\<close>

lemma length_dec: "n < 10 ^ k \<Longrightarrow> 0 < k \<Longrightarrow> length (dec n) \<le> k"
proof (induction k arbitrary: n)
  case (Suc k)
  show ?case
  proof (cases "n < 10")
    case True
    then show ?thesis by (simp add: dec_small)
  next
    case False
    then have "0 < k" using Suc.prems(1) by (cases k) auto
    moreover have "n div 10 < 10 ^ k" using Suc.prems(1) by (simp add: less_mult_imp_div_less)
    ultimately have "length (dec (n div 10)) \<le> k" using Suc.IH by blast
    then show ?thesis using False by (simp add: dec.simps [of n])
  qed
qed simp

lemma connection_name_inj:
  assumes "length ipPort \<le> 51" "m < 2 ^ 31" "n < 2 ^ 31" "connection_name nm ipPort m = connection_name nm ipPort n"
  shows "m = n"
proof -
  have "length (dec k) \<le> 10" if "k < 2 ^ 31" for k by (rule length_dec) (use that in simp_all)
  then have "take 63 (''-'' @ ipPort @ ''#'' @ dec k) = ''-'' @ ipPort @ ''#'' @ dec k" if "k < 2 ^ 31" for k
    using assms(1) that by (intro take_all) fastforce
  then have "''-'' @ ipPort @ ''#'' @ dec m = ''-'' @ ipPort @ ''#'' @ dec n"
    using assms(2-4) unfolding connection_name_def by (metis same_append_eq)
  then show ?thesis by simp
qed

section \<open>The invariant\<close>

fun functor_ok :: "TcpServer \<Rightarrow> nat \<Rightarrow> server_functor \<Rightarrow> bool" where
  "functor_ok s i (ConnectEstablished k) \<longleftrightarrow> i = conn_loop s k \<and> (\<exists>c. conns s k = Some c \<and> tc_state c = kConnecting)"
| "functor_ok s i (RemoveConnectionInLoop k) \<longleftrightarrow>
     i = 0 \<and> (\<exists>c. conns s k = Some c \<and> tc_state c = kDisconnected) \<and> connections s (conn_name s k) = Some k"
| "functor_ok s i (ConnectDestroyed k) \<longleftrightarrow>
     i = conn_loop s k \<and> (\<exists>c. conns s k = Some c \<and> tc_state c = kDisconnected) \<and> connections s (conn_name s k) \<noteq> Some k"

definition object_ok :: "TcpServer \<Rightarrow> nat \<Rightarrow> TcpConnection \<Rightarrow> bool" where
  "object_ok s k c \<longleftrightarrow> k < created s \<and> (\<exists>ls. tcp_reach ls c) \<and> closes c = (if tc_state c = kDisconnected then 1 else 0)
     \<and> (tc_state c = kConnecting \<longrightarrow> ConnectEstablished k \<in> set (loop_queue s (conn_loop s k)))
     \<and> (tc_state c \<noteq> kDisconnected \<longrightarrow> connections s (conn_name s k) = Some k)
     \<and> (tc_state c = kDisconnected \<longrightarrow>
          RemoveConnectionInLoop k \<in> set (loop_queue s 0) \<or> ConnectDestroyed k \<in> set (loop_queue s (conn_loop s k)))"

definition names_ok :: "TcpServer \<Rightarrow> bool" where
  "names_ok s \<longleftrightarrow> length (sv_ipPort s) \<le> 51 \<and> nextConnId s = Suc (created s) \<and> created s < 2 ^ 31 - 1
     \<and> (\<forall>k < created s. conn_name s k = connection_name (sv_name s) (sv_ipPort s) (Suc k))
     \<and> (\<forall>nm k. connections s nm = Some k \<longrightarrow> conn_name s k = nm \<and> conns s k \<noteq> None)"

text \<open>The pool: loops are handed out in turn.\<close>

definition loops_ok :: "TcpServer \<Rightarrow> bool" where
  "loops_ok s \<longleftrightarrow> (let t = threadPool s; n = numThreads t in tp_started t \<and> tp_loops t = [1..<Suc n]
     \<and> (0 < n \<longrightarrow> tp_next t = created s mod n) \<and> (\<forall>k < created s. conn_loop s k = (if n = 0 then 0 else Suc (k mod n))))"

definition srv_inv :: "TcpServer \<Rightarrow> bool" where
  "srv_inv s \<longleftrightarrow> (\<forall>i. distinct (loop_queue s i)) \<and> (\<forall>i. \<forall>f\<in>set (loop_queue s i). functor_ok s i f)
     \<and> (\<forall>k c. conns s k = Some c \<longrightarrow> object_ok s k c) \<and> names_ok s \<and> loops_ok s"

text \<open>A functor about to run is looked at as if it stood at the front of its queue.\<close>

definition front :: "nat \<Rightarrow> server_functor \<Rightarrow> TcpServer \<Rightarrow> TcpServer" where
  "front i f s = s\<lparr>loop_queue := (loop_queue s)(i := f # loop_queue s i)\<rparr>"

lemma front_simps [simp]:
  "conns (front i f s) = conns s" "connections (front i f s) = connections s" "conn_name (front i f s) = conn_name s"
  "conn_loop (front i f s) = conn_loop s" "created (front i f s) = created s" "nextConnId (front i f s) = nextConnId s"
  "threadPool (front i f s) = threadPool s" "sv_name (front i f s) = sv_name s" "sv_ipPort (front i f s) = sv_ipPort s"
  "loop_queue (front i f s) j = (if j = i then f # loop_queue s j else loop_queue s j)"
  by (simp_all add: front_def)

lemma enqueue_simps [simp]:
  "conns (enqueue i f s) = conns s" "connections (enqueue i f s) = connections s" "conn_name (enqueue i f s) = conn_name s"
  "conn_loop (enqueue i f s) = conn_loop s" "created (enqueue i f s) = created s" "nextConnId (enqueue i f s) = nextConnId s"
  "threadPool (enqueue i f s) = threadPool s" "sv_name (enqueue i f s) = sv_name s" "sv_ipPort (enqueue i f s) = sv_ipPort s"
  "loop_queue (enqueue i f s) j = (if j = i then loop_queue s j @ [f] else loop_queue s j)"
  by (simp_all add: enqueue_def)

lemma same_but_order:
  assumes "srv_inv s" "\<And>j. set (loop_queue s' j) = set (loop_queue s j)" "\<And>j. distinct (loop_queue s' j)"
    "conns s' = conns s" "connections s' = connections s" "conn_name s' = conn_name s" "conn_loop s' = conn_loop s" "created s' = created s"
    "nextConnId s' = nextConnId s" "threadPool s' = threadPool s" "sv_name s' = sv_name s" "sv_ipPort s' = sv_ipPort s"
  shows "srv_inv s'"
proof -
  have "functor_ok s' i f = functor_ok s i f" for i f using assms(4-8) by (cases f) simp_all
  moreover have "object_ok s' k c = object_ok s k c" for k c using assms(2,4-8) by (simp add: object_ok_def)
  moreover have "names_ok s' = names_ok s" "loops_ok s' = loops_ok s" using assms(4-12) by (simp_all add: names_ok_def loops_ok_def)
  ultimately show ?thesis using assms(1-4) by (simp add: srv_inv_def)
qed

lemma enqueue_ok:
  assumes "srv_inv (front i f s)"
  shows "srv_inv (enqueue i f s)"
proof (rule same_but_order [OF assms])
  have "distinct (loop_queue (front i f s) j)" for j using assms by (simp add: srv_inv_def del: front_simps(10))
  then have "distinct (if j = i then f # loop_queue s j else loop_queue s j)" for j by simp
  then show "distinct (loop_queue (enqueue i f s) j)" for j by (auto split: if_splits dest: meta_spec [of _ j])
qed auto

lemma inv_parts:
  assumes "srv_inv (front i f s)"
  shows "f \<notin> set (loop_queue s i)" "distinct (loop_queue s j)" "functor_ok s i f" "g \<in> set (loop_queue s j) \<Longrightarrow> functor_ok s j g"
    "conns s k = Some c \<Longrightarrow> object_ok (front i f s) k c" "names_ok s" "loops_ok s"
proof -
  have d: "distinct (loop_queue (front i f s) j)" and g: "\<forall>g\<in>set (loop_queue (front i f s) j). functor_ok (front i f s) j g"
    and o: "conns s k = Some c \<Longrightarrow> object_ok (front i f s) k c" and n: "names_ok (front i f s)" "loops_ok (front i f s)" for j k c
    using assms by (simp_all add: srv_inv_def del: front_simps(10))
  show "f \<notin> set (loop_queue s i)" using d [of i] by simp
  show "distinct (loop_queue s j)" using d [of j] by (simp split: if_splits)
  have same: "functor_ok (front i f s) j g = functor_ok s j g" for j g by (cases g) simp_all
  show "functor_ok s i f" using g [of i] unfolding same by simp
  show "functor_ok s j g" if "g \<in> set (loop_queue s j)" using g [of j] that unfolding same by (auto split: if_splits)
  show "conns s k = Some c \<Longrightarrow> object_ok (front i f s) k c" by (rule o)
  show "names_ok s" "loops_ok s" using n by (simp_all add: names_ok_def loops_ok_def)
qed

section \<open>Every step keeps it\<close>

lemma object_front: "object_ok (front i f s) k c \<longleftrightarrow> k < created s \<and> (\<exists>ls. tcp_reach ls c) \<and> closes c = (if tc_state c = kDisconnected then 1 else 0)
     \<and> (tc_state c = kConnecting \<longrightarrow> (i, f) = (conn_loop s k, ConnectEstablished k) \<or> ConnectEstablished k \<in> set (loop_queue s (conn_loop s k)))
     \<and> (tc_state c \<noteq> kDisconnected \<longrightarrow> connections s (conn_name s k) = Some k)
     \<and> (tc_state c = kDisconnected \<longrightarrow> (i, f) = (0, RemoveConnectionInLoop k) \<or> (i, f) = (conn_loop s k, ConnectDestroyed k)
          \<or> RemoveConnectionInLoop k \<in> set (loop_queue s 0) \<or> ConnectDestroyed k \<in> set (loop_queue s (conn_loop s k)))"
  by (auto simp: object_ok_def)

lemma established_ok:
  assumes "srv_inv (front i (ConnectEstablished k) s)"
  shows "\<exists>s'. exec_functor (ConnectEstablished k) s = Inr s' \<and> srv_inv s'"
proof -
  note p = inv_parts [OF assms]
  obtain c where c: "conns s k = Some c" "tc_state c = kConnecting" and i: "i = conn_loop s k" using p(3) by auto
  note ok = p(5) [OF c(1), unfolded object_front]
  obtain ls where ls: "tcp_reach ls c" using ok by blast
  let ?c = "run_callback (OnConnection kConnected) (c\<lparr>tc_state := kConnected, chan_reading := True\<rparr>)"
  have run: "connectEstablished c = Inr ?c" using c(2) by (simp add: connectEstablished_def)
  have c': "tcp_reach (ls @ [[]]) ?c" "tc_state ?c = kConnected" "closes ?c = closes c"
    using step [OF ls established [OF run]] by (simp_all add: run_callback_def closes_def)
  let ?s = "s\<lparr>conns := (conns s)(k \<mapsto> ?c)\<rparr>"
  have "functor_ok ?s j g" if g: "g \<in> set (loop_queue s j)" for j g
    using p(4) [OF g] p(1) g i c c'(2) by (cases g) auto
  moreover have "object_ok ?s m d" if d: "conns ?s m = Some d" for m d
  proof (cases "m = k")
    case True
    then show ?thesis using d c' ok c(2) by (auto simp: object_ok_def)
  next
    case False
    then show ?thesis using d p(5) [of m d] unfolding object_front by (auto simp: object_ok_def)
  qed
  moreover have "names_ok ?s" "loops_ok ?s" using p(6,7) by (auto simp: names_ok_def loops_ok_def)
  ultimately have "srv_inv ?s" using p(2) by (simp add: srv_inv_def)
  then show ?thesis using c run by (simp add: conn_at_def)
qed

lemma removed_ok:
  assumes "srv_inv (front i (RemoveConnectionInLoop k) s)"
  shows "\<exists>s'. exec_functor (RemoveConnectionInLoop k) s = Inr s' \<and> srv_inv s'"
proof -
  note p = inv_parts [OF assms]
  obtain c where c: "conns s k = Some c" "tc_state c = kDisconnected" "connections s (conn_name s k) = Some k" and i: "i = 0" using p(3) by auto
  have out: "ConnectDestroyed k \<notin> set (loop_queue s j)" for j using p(4) [of "ConnectDestroyed k" j] c(3) by auto
  let ?s = "enqueue (conn_loop s k) (ConnectDestroyed k) (s\<lparr>connections := (connections s)(conn_name s k := None)\<rparr>)"
  have "functor_ok ?s j g" if g: "g \<in> set (loop_queue ?s j)" for j g
  proof (cases "g = ConnectDestroyed k")
    case True
    then show ?thesis using g out c by (auto split: if_splits)
  next
    case False
    then have m: "g \<in> set (loop_queue s j)" using g by (auto split: if_splits)
    show ?thesis using p(4) [OF m] p(1) m i c(3) by (cases g) auto
  qed
  moreover have "object_ok ?s m d" if d: "conns ?s m = Some d" for m d
  proof -
    have o: "object_ok (front i (RemoveConnectionInLoop k) s) m d" using d by (intro p(5)) simp
    have "conn_name s m \<noteq> conn_name s k" if "m \<noteq> k" "tc_state d \<noteq> kDisconnected"
      using o c(3) that unfolding object_front by auto
    then show ?thesis using o c d unfolding object_front by (cases "m = k") (auto simp: object_ok_def)
  qed
  moreover have "distinct (loop_queue ?s j)" for j using p(2) out by auto
  moreover have "names_ok ?s" "loops_ok ?s" using p(6,7) by (auto simp: names_ok_def loops_ok_def)
  ultimately have "srv_inv ?s" by (simp add: srv_inv_def del: enqueue_simps(10))
  then show ?thesis using c by (simp add: removeConnectionInLoop_def)
qed

lemma destroyed_ok:
  assumes "srv_inv (front i (ConnectDestroyed k) s)"
  shows "\<exists>s'. exec_functor (ConnectDestroyed k) s = Inr s' \<and> srv_inv s'"
proof -
  note p = inv_parts [OF assms]
  obtain c where c: "conns s k = Some c" "tc_state c = kDisconnected" "connections s (conn_name s k) \<noteq> Some k" and i: "i = conn_loop s k" using p(3) by auto
  note ok = p(5) [OF c(1), unfolded object_front]
  have "tcp_inv c" using ok tcp_reach_ok by blast
  then have run: "connectDestroyed c = Inr c" using c(2) by (auto simp: connectDestroyed_def tcp_inv_def)
  let ?s = "s\<lparr>conns := (conns s)(k := None)\<rparr>"
  have "functor_ok ?s j g" if g: "g \<in> set (loop_queue s j)" for j g
    using p(4) [OF g] p(1) g i c by (cases g) auto
  moreover have "object_ok ?s m d" if d: "conns ?s m = Some d" for m d
  proof -
    have "m \<noteq> k" "conns s m = Some d" using d by (auto split: if_splits)
    then show ?thesis using p(5) [of m d] unfolding object_front by (auto simp: object_ok_def)
  qed
  moreover have "names_ok ?s" "loops_ok ?s" using p(6,7) c(3) by (auto simp: names_ok_def loops_ok_def)
  ultimately have "srv_inv ?s" using p(2) by (simp add: srv_inv_def)
  then show ?thesis using c run by (simp add: conn_at_def)
qed

lemma exec_ok: "srv_inv (front i f s) \<Longrightarrow> \<exists>s'. exec_functor f s = Inr s' \<and> srv_inv s'"
  by (cases f) (auto dest: established_ok removed_ok destroyed_ok simp del: exec_functor.simps)

lemma runInLoop_ok: "srv_inv (front there f s) \<Longrightarrow> \<exists>s'. runInLoop_from here there f s = Inr s' \<and> srv_inv s'"
  using exec_ok [of there f s] enqueue_ok [of there f s] by (simp add: runInLoop_from_def)

lemma getNextLoop_ok:
  assumes "loops_ok s"
  shows "\<exists>t. getNextLoop (threadPool s) = Inr (if numThreads (threadPool s) = 0 then 0 else Suc (created s mod numThreads (threadPool s)), t)
    \<and> tp_started t \<and> tp_loops t = tp_loops (threadPool s) \<and> numThreads t = numThreads (threadPool s)
    \<and> (0 < numThreads t \<longrightarrow> tp_next t = Suc (created s) mod numThreads t)"
proof (cases "numThreads (threadPool s) = 0")
  case True
  then show ?thesis using assms by (simp add: loops_ok_def Let_def getNextLoop_def)
next
  case False
  let ?n = "numThreads (threadPool s)"
  have t: "tp_started (threadPool s)" "tp_loops (threadPool s) = [1..<Suc ?n]" "tp_next (threadPool s) = created s mod ?n"
    using assms False by (simp_all add: loops_ok_def Let_def)
  have less: "created s mod ?n < ?n" using False by simp
  then have nth: "[1..<Suc ?n] ! (created s mod ?n) = Suc (created s mod ?n)" by (simp del: upt_Suc)
  have "(if ?n \<le> Suc (created s mod ?n) then 0 else Suc (created s mod ?n)) = Suc (created s) mod ?n"
    using less by (simp add: mod_Suc)
  then show ?thesis using t less nth False by (auto simp: getNextLoop_def simp del: upt_Suc split: if_splits)
qed

lemma accept_ok:
  assumes inv: "srv_inv s" and less: "nextConnId s < 2 ^ 31 - 1"
  shows "\<exists>s'. newConnection wc hw s = Inr s' \<and> srv_inv s'"
proof -
  have q: "distinct (loop_queue s j)" and g: "f \<in> set (loop_queue s j) \<Longrightarrow> functor_ok s j f" and o: "conns s k = Some c \<Longrightarrow> object_ok s k c"
    and n: "names_ok s" and pl: "loops_ok s" for j f k c using inv by (simp_all add: srv_inv_def)
  have port: "length (sv_ipPort s) \<le> 51" using n by (simp add: names_ok_def)
  let ?n = "numThreads (threadPool s)" and ?k = "created s" and ?nm = "connection_name (sv_name s) (sv_ipPort s) (nextConnId s)"
  let ?io = "if ?n = 0 then 0 else Suc (?k mod ?n)"
  from getNextLoop_ok [OF pl] obtain t where t: "getNextLoop (threadPool s) = Inr (?io, t)" "tp_started t" "tp_loops t = tp_loops (threadPool s)"
    "numThreads t = ?n" "0 < ?n \<longrightarrow> tp_next t = Suc ?k mod ?n" by auto
  let ?s = "s\<lparr>threadPool := t, nextConnId := Suc (nextConnId s), connections := (connections s)(?nm \<mapsto> ?k),
      conns := (conns s)(?k \<mapsto> newTcpConnection wc hw), conn_name := (conn_name s)(?k := ?nm),
      conn_loop := (conn_loop s)(?k := ?io), created := Suc ?k\<rparr>"
  let ?f = "front ?io (ConnectEstablished ?k) ?s"
  have old: "m < ?k" if "conns s m = Some c" for m c using o [OF that] by (simp add: object_ok_def)
  have other: "conn_name s m \<noteq> ?nm" if "m < ?k" for m
    using n that less connection_name_inj [OF port, of "Suc m" "nextConnId s"] by (auto simp: names_ok_def)
  have older: "case f of ConnectEstablished m \<Rightarrow> m < ?k | RemoveConnectionInLoop m \<Rightarrow> m < ?k | ConnectDestroyed m \<Rightarrow> m < ?k" if "f \<in> set (loop_queue s j)" for f j
    using g [OF that] old by (cases f) auto
  have "functor_ok ?f j f" if f: "f \<in> set (loop_queue ?f j)" for j f
  proof (cases "f = ConnectEstablished ?k")
    case True
    then have "j = ?io" using f older [of "ConnectEstablished ?k" j] by (auto split: if_splits)
    then show ?thesis using True by (simp add: newTcpConnection_def)
  next
    case False
    then have m: "f \<in> set (loop_queue s j)" using f by (auto split: if_splits)
    show ?thesis using g [OF m] older [OF m] other by (cases f) auto
  qed
  moreover have "object_ok ?f m d" if d: "conns ?f m = Some d" for m d
  proof (cases "m = ?k")
    case True
    then show ?thesis using d start [of wc hw] by (auto simp: object_ok_def newTcpConnection_def closes_def)
  next
    case False
    then have m: "conns s m = Some d" using d by simp
    show ?thesis using o [OF m] other [OF old [OF m]] False by (auto simp: object_ok_def)
  qed
  moreover have "distinct (loop_queue ?f j)" for j using q [of j] older [of "ConnectEstablished ?k" j] by auto
  moreover have "names_ok ?f" using n less other by (auto simp: names_ok_def less_Suc_eq dest!: old)
  moreover have "loops_ok ?f" using pl t(2-5) by (auto simp: loops_ok_def Let_def less_Suc_eq)
  ultimately have "srv_inv ?f" by (simp add: srv_inv_def del: front_simps(10))
  from runInLoop_ok [OF this, of 0] show ?thesis using t(1) less by (simp add: newConnection_def Let_def)
qed

lemma event_ok:
  assumes inv: "srv_inv s" and c: "conns s k = Some c" and ev: "conn_event c (Inr c')"
  shows "\<exists>s'. call_close k (closes c' - closes c) (s\<lparr>conns := (conns s)(k \<mapsto> c')\<rparr>) = Inr s' \<and> srv_inv s'"
proof -
  have q: "distinct (loop_queue s j)" and g: "f \<in> set (loop_queue s j) \<Longrightarrow> functor_ok s j f" and o: "conns s k = Some c \<Longrightarrow> object_ok s k c"
    and n: "names_ok s" and pl: "loops_ok s" for j f k c using inv by (simp_all add: srv_inv_def)
  let ?s = "s\<lparr>conns := (conns s)(k \<mapsto> c')\<rparr>"
  note ok = o [OF c, unfolded object_ok_def]
  obtain ls l where ls: "tcp_reach ls c" "tcp_step c l c'" using ok event_step [OF ev refl] by blast
  then have reach: "tcp_reach (ls @ [l]) c'" and tinv: "tcp_inv c" using step tcp_reach_ok by blast+
  note eff = event_effect [OF ev tinv refl]
  have fs: "functor_ok ?s j f" if f: "f \<in> set (loop_queue s j)" for j f
    using g [OF f] eff c by (cases f) auto
  have others: "object_ok ?s m d" if "m \<noteq> k" "conns s m = Some d" for m d using o [OF that(2)] by (simp add: object_ok_def)
  have rest: "names_ok ?s" "loops_ok ?s" using n pl by (auto simp: names_ok_def loops_ok_def)
  show ?thesis
  proof (cases "closing c c'")
    case False
    have "closes c' = (if tc_state c' = kDisconnected then 1 else 0)" using ok eff False by (auto simp: closing_def split: if_splits)
    moreover have "tc_state c' = kDisconnected \<longleftrightarrow> tc_state c = kDisconnected" using eff False by (auto simp: closing_def)
    ultimately have "object_ok ?s k c'" using ok eff reach by (auto simp: object_ok_def)
    then have "srv_inv ?s" using q fs others rest unfolding srv_inv_def by (simp split: if_splits)
    then show ?thesis using eff False by simp
  next
    case True
    let ?f = "front 0 (RemoveConnectionInLoop k) ?s"
    have st: "tc_state c \<noteq> kDisconnected" "tc_state c' = kDisconnected" using True by (simp_all add: closing_def)
    have out: "RemoveConnectionInLoop k \<notin> set (loop_queue s j)" for j using g [of "RemoveConnectionInLoop k" j] c st(1) by auto
    have "functor_ok ?f j f" if f: "f \<in> set (loop_queue ?f j)" for j f
    proof (cases "f = RemoveConnectionInLoop k")
      case True
      then show ?thesis using f out ok st by (auto split: if_splits)
    next
      case False
      then have m: "f \<in> set (loop_queue s j)" using f by (auto split: if_splits)
      show ?thesis using fs [OF m] by (cases f) auto
    qed
    moreover have "object_ok ?f m d" if d: "conns ?f m = Some d" for m d
    proof (cases "m = k")
      case True
      then show ?thesis using d ok eff reach st \<open>closing c c'\<close> by (auto simp: object_ok_def)
    next
      case False
      then show ?thesis using others [of m d] d by (auto simp: object_ok_def)
    qed
    moreover have "distinct (loop_queue ?f j)" for j using q [of j] out by auto
    moreover have "names_ok ?f" "loops_ok ?f" using rest by (simp_all add: names_ok_def loops_ok_def)
    ultimately have "srv_inv ?f" by (simp add: srv_inv_def del: front_simps(10))
    from runInLoop_ok [OF this, of "conn_loop ?s k"] obtain s' where s': "removeConnection k ?s = Inr s'" "srv_inv s'"
      unfolding removeConnection_def by blast
    have "closes c' - closes c = Suc 0" using eff True by simp
    then show ?thesis using s' by simp
  qed
qed

lemma srv_step_ok:
  assumes "srv_inv s" "srv_step s r"
  shows "\<exists>s'. r = Inr s' \<and> srv_inv s'"
  using assms(2)
proof cases
  case (sv_accept wc hw)
  then show ?thesis using accept_ok [OF assms(1)] by simp
next
  case (sv_functor i f fs)
  let ?s = "s\<lparr>loop_queue := (loop_queue s)(i := fs)\<rparr>"
  have "front i f ?s = s" using sv_functor(2) by (simp add: front_def fun_upd_idem)
  then show ?thesis using exec_ok [of i f ?s] assms(1) sv_functor(1) by simp
next
  case (sv_event k c w)
  have "\<exists>ls. tcp_reach ls c" using assms(1) sv_event(2) by (auto simp: srv_inv_def object_ok_def)
  then have "tcp_inv c" using tcp_reach_ok by blast
  then obtain c' where "w = Inr c'" using event_returns [OF sv_event(3)] by blast
  then show ?thesis using event_ok [OF assms(1) sv_event(2), of c'] sv_event(1,3) by simp
qed

lemma srv_reach_inv: "srv_reach s \<Longrightarrow> srv_inv s"
proof (induction rule: srv_reach.induct)
  case (sv_init ipPort nm n s)
  then show ?case
    by (auto simp: server_start_def tp_start_def newTcpServer_def newThreadPoolOf_def srv_inv_def names_ok_def loops_ok_def Let_def)
next
  case (sv_step s s')
  then show ?case using srv_step_ok by fastforce
qed

lemma srv_step_reach: "srv_reach s \<Longrightarrow> srv_step s r \<Longrightarrow> \<exists>s'. r = Inr s' \<and> srv_reach s'"
  using srv_step_ok [OF srv_reach_inv] sv_step by blast

section \<open>Properties\<close>

definition started_server :: TcpServer where
  "started_server = (newTcpServer ''0.0.0.0:8082'' ''ws'' 2)\<lparr>threadPool := \<lparr>tp_started = True, numThreads = 2, tp_next = 0, tp_loops = [1, 2]\<rparr>\<rparr>"

lemma started_reached: "srv_reach started_server"
proof (rule sv_init)
  show "server_start (newTcpServer ''0.0.0.0:8082'' ''ws'' 2) = Inr started_server"
    by (simp add: server_start_def tp_start_def newTcpServer_def newThreadPoolOf_def started_server_def upt_rec)
qed simp



text \<open>
  C26: Every connection object of a server is in a state that the connection by itself can reach; it has called back once if it is
  closed and never otherwise. Until it is closed it is in the server's map under its name, and the map holds nothing else but closed
  connections whose removal is queued; a closed connection waits for its removal or its destruction, which is queued in the right
  loop. Connections are given to the loops in turn.
\<close>

theorem connection_lifecycle:
  assumes "srv_reach s"
  shows "(\<forall>k c. conns s k = Some c \<longrightarrow> (\<exists>ls. tcp_reach ls c) \<and> count_list (tc_calls c) OnClose = (if tc_state c = kDisconnected then 1 else 0)
       \<and> (tc_state c \<noteq> kDisconnected \<longrightarrow> connections s (conn_name s k) = Some k)
       \<and> (tc_state c = kDisconnected \<longrightarrow>
            RemoveConnectionInLoop k \<in> set (loop_queue s 0) \<or> ConnectDestroyed k \<in> set (loop_queue s (conn_loop s k))))
    \<and> (\<forall>nm k. connections s nm = Some k \<longrightarrow> conn_name s k = nm \<and> conns s k \<noteq> None)
    \<and> (\<forall>k < created s. conn_loop s k = (if numThreads (threadPool s) = 0 then 0 else Suc (k mod numThreads (threadPool s))))"
proof -
  have inv: "srv_inv s" by (rule srv_reach_inv [OF assms])
  have "object_ok s k c" if "conns s k = Some c" for k c using inv that by (simp add: srv_inv_def)
  then show ?thesis using inv unfolding srv_inv_def object_ok_def names_ok_def loops_ok_def Let_def closes_def by blast
qed

theorem connection_lifecycle_witness:
  "\<exists>s. srv_reach s \<and> connections s ''ws-0.0.0.0:8082#1'' = Some 0 \<and> conn_name s 0 = ''ws-0.0.0.0:8082#1'' \<and> conn_loop s 0 = 1"
proof -
  obtain s where s: "newConnection True False started_server = Inr s" "srv_reach s"
    using srv_step_reach [OF started_reached, OF sv_accept, of True False] by (auto simp: started_server_def newTcpServer_def)
  have d: "connection_name ''ws'' ''0.0.0.0:8082'' (Suc 0) = ''ws-0.0.0.0:8082#1''" by code_simp
  have f: "connections s ''ws-0.0.0.0:8082#1'' = Some 0" "created s = 1" "numThreads (threadPool s) = 2"
    using s(1) by (auto simp: newConnection_def started_server_def newTcpServer_def getNextLoop_def runInLoop_from_def Let_def
        d enqueue_def)
  note l = connection_lifecycle [OF s(2)]
  have "conn_name s 0 = ''ws-0.0.0.0:8082#1''" using l f(1) by blast
  moreover have "conn_loop s 0 = 1" using l [THEN conjunct2, THEN conjunct2, THEN spec [of _ 0]] f(2,3) by simp
  ultimately show ?thesis using s(2) f(1) by blast
qed

end
