(* ===== verification/TimerQueue.thy ===== *)
theory TimerQueue
  imports ChatPrelude "HOL-Library.Product_Lexorder"
begin

text \<open>
  Timers of an event loop: \<^verbatim>\<open>muduo/net/Timer.h\<close>, \<^verbatim>\<open>Timer.cc\<close> and \<^verbatim>\<open>TimerQueue.cc\<close>. Timers live in a heap of addresses; a
  use of a freed timer is \<open>Inl OutOfBounds\<close>, a failed assertion \<open>Inl AssertFailed\<close>. Times are microseconds; the
  callback of a timer is known by its sequence number. \<^verbatim>\<open>std::set\<close> with its order is a sorted list of distinct entries.
  What callbacks do to the queue, and what other threads ask for, are events of a transition relation.
\<close>

section \<open>State\<close>

record Timer =
  t_expiration :: int
  t_interval :: int
  t_repeat :: bool
  t_sequence :: int

text \<open>\<^verbatim>\<open>Timer::restart\<close>; \<open>t_interval\<close> is the microseconds \<^verbatim>\<open>addTime\<close> adds, \<open>t_repeat\<close> says whether the interval is positive.\<close>

definition Timer_restart :: "int \<Rightarrow> Timer \<Rightarrow> Timer" where
  "Timer_restart now t = t\<lparr>t_expiration := (if t_repeat t then now + t_interval t else 0)\<rparr>"

text \<open>Functors queued for the loop by other threads.\<close>

datatype timer_functor = AddInLoop nat | CancelInLoop "nat \<times> int"

text \<open>
  \<open>expired_left\<close>, \<open>expired_all\<close>, \<open>expired_at\<close> are the local variables of \<^verbatim>\<open>handleRead\<close> while it calls back; \<open>armed\<close> is when the
  timerfd fires, \<open>tq_clock\<close> the latest time seen, and \<open>fired\<close> records the callbacks: sequence number, due time and time.
\<close>

record TimerQueue =
  heap :: "nat \<rightharpoonup> Timer"
  s_numCreated :: int
  timers :: "(int \<times> nat) list"
  activeTimers :: "(nat \<times> int) set"
  callingExpiredTimers :: bool
  cancelingTimers :: "(nat \<times> int) set"
  armed :: "int option"
  expired_left :: "(int \<times> nat) list"
  expired_all :: "(int \<times> nat) list"
  expired_at :: int
  tq_pending :: "timer_functor list"
  tq_clock :: int
  fired :: "(int \<times> int \<times> int) list"

definition newTimerQueue :: TimerQueue where
  "newTimerQueue =
     \<lparr>heap = Map.empty, s_numCreated = 0, timers = [], activeTimers = {}, callingExpiredTimers = False, cancelingTimers = {},
      armed = None, expired_left = [], expired_all = [], expired_at = 0, tq_pending = [], tq_clock = 1, fired = []\<rparr>"

section \<open>Operations\<close>

definition deref :: "nat \<Rightarrow> TimerQueue \<Rightarrow> Timer res" where
  "deref a q = (case heap q a of None \<Rightarrow> Inl OutOfBounds | Some t \<Rightarrow> Inr t)"

definition sizes_agree :: "TimerQueue \<Rightarrow> bool" where
  "sizes_agree q \<longleftrightarrow> length (timers q) = card (activeTimers q)"

text \<open>\<^verbatim>\<open>howMuchTimeFromNow\<close>: at least 100 microseconds from now.\<close>

definition resetTimerfd :: "int \<Rightarrow> int \<Rightarrow> TimerQueue \<Rightarrow> TimerQueue" where
  "resetTimerfd now expiration q = q\<lparr>armed := Some (max expiration (now + 100))\<rparr>"

definition tq_insert :: "nat \<Rightarrow> TimerQueue \<Rightarrow> (bool \<times> TimerQueue) res" where
  "tq_insert a q =
     cpp_assert (sizes_agree q)
       (and_then (deref a q) (\<lambda>t.
          let when = t_expiration t; earliestChanged = (timers q = [] \<or> when < fst (hd (timers q))) in
          cpp_assert ((when, a) \<notin> set (timers q))
            (let q = q\<lparr>timers := insort (when, a) (timers q)\<rparr> in
             cpp_assert ((a, t_sequence t) \<notin> activeTimers q)
               (let q = q\<lparr>activeTimers := insert (a, t_sequence t) (activeTimers q)\<rparr> in
                cpp_assert (sizes_agree q) (Inr (earliestChanged, q))))))"

definition addTimerInLoop :: "int \<Rightarrow> nat \<Rightarrow> TimerQueue \<Rightarrow> TimerQueue res" where
  "addTimerInLoop now a q =
     and_then (tq_insert a q) (\<lambda>(earliestChanged, q).
       and_then (deref a q) (\<lambda>t.
         Inr (if earliestChanged then resetTimerfd now (t_expiration t) q else q)))"

definition cancelInLoop :: "nat \<times> int \<Rightarrow> TimerQueue \<Rightarrow> TimerQueue res" where
  "cancelInLoop timer q =
     cpp_assert (sizes_agree q)
       (and_then
          (if timer \<in> activeTimers q then
             and_then (deref (fst timer) q) (\<lambda>t.
               cpp_assert ((t_expiration t, fst timer) \<in> set (timers q))
                 (Inr (q\<lparr>timers := removeAll (t_expiration t, fst timer) (timers q), heap := (heap q)(fst timer := None),
                    activeTimers := activeTimers q - {timer}\<rparr>)))
           else Inr (if callingExpiredTimers q then q\<lparr>cancelingTimers := insert timer (cancelingTimers q)\<rparr> else q))
          (\<lambda>q. cpp_assert (sizes_agree q) (Inr q)))"

text \<open>\<^verbatim>\<open>new Timer\<close>: the allocator gives the address.\<close>

definition new_timer :: "nat \<Rightarrow> int \<Rightarrow> int \<Rightarrow> bool \<Rightarrow> TimerQueue \<Rightarrow> TimerQueue" where
  "new_timer a when interval repeat q =
     (let s = s_numCreated q + 1 in
      q\<lparr>s_numCreated := s,
        heap := (heap q)(a \<mapsto> \<lparr>t_expiration = when, t_interval = interval, t_repeat = repeat, t_sequence = s\<rparr>)\<rparr>)"

definition UINTPTR_MAX :: nat where
  "UINTPTR_MAX = 2 ^ 64 - 1"

primrec erase_active :: "(int \<times> nat) list \<Rightarrow> TimerQueue \<Rightarrow> TimerQueue res" where
  "erase_active [] q = Inr q"
| "erase_active (it # its) q =
     and_then (deref (snd it) q) (\<lambda>t.
       cpp_assert ((snd it, t_sequence t) \<in> activeTimers q)
         (erase_active its (q\<lparr>activeTimers := activeTimers q - {(snd it, t_sequence t)}\<rparr>)))"

definition getExpired :: "int \<Rightarrow> TimerQueue \<Rightarrow> ((int \<times> nat) list \<times> TimerQueue) res" where
  "getExpired now q =
     cpp_assert (sizes_agree q)
       (let before = (\<lambda>e. e < (now, UINTPTR_MAX)); expired = takeWhile before (timers q); rest = dropWhile before (timers q) in
        cpp_assert (rest = [] \<or> now < fst (hd rest))
          (and_then (erase_active expired (q\<lparr>timers := rest\<rparr>)) (\<lambda>q.
             cpp_assert (sizes_agree q) (Inr (expired, q)))))"

primrec reset_loop :: "int \<Rightarrow> (int \<times> nat) list \<Rightarrow> TimerQueue \<Rightarrow> TimerQueue res" where
  "reset_loop now [] q = Inr q"
| "reset_loop now (it # its) q =
     and_then (deref (snd it) q) (\<lambda>t.
       if t_repeat t \<and> (snd it, t_sequence t) \<notin> cancelingTimers q then
         and_then (tq_insert (snd it) (q\<lparr>heap := (heap q)(snd it \<mapsto> Timer_restart now t)\<rparr>)) (\<lambda>(_, q). reset_loop now its q)
       else reset_loop now its (q\<lparr>heap := (heap q)(snd it := None)\<rparr>))"

definition tq_reset :: "int \<Rightarrow> (int \<times> nat) list \<Rightarrow> int \<Rightarrow> TimerQueue \<Rightarrow> TimerQueue res" where
  "tq_reset clock expired now q =
     and_then (reset_loop now expired q) (\<lambda>q.
       case timers q of
         [] \<Rightarrow> Inr q
       | e # _ \<Rightarrow> and_then (deref (snd e) q) (\<lambda>t.
           Inr (if 0 < t_expiration t then resetTimerfd clock (t_expiration t) q else q)))"

text \<open>\<^verbatim>\<open>handleRead\<close> up to the callbacks, one callback, and what follows them.\<close>

definition handleRead_start :: "int \<Rightarrow> TimerQueue \<Rightarrow> TimerQueue res" where
  "handleRead_start now q =
     and_then (getExpired now (q\<lparr>armed := None\<rparr>)) (\<lambda>(expired, q).
       Inr (q\<lparr>callingExpiredTimers := True, cancelingTimers := {}, expired_left := expired, expired_all := expired,
              expired_at := now\<rparr>))"

definition run_timer :: "TimerQueue \<Rightarrow> TimerQueue res" where
  "run_timer q =
     (case expired_left q of
        [] \<Rightarrow> Inr q
      | it # its \<Rightarrow> and_then (deref (snd it) q) (\<lambda>t.
          Inr (q\<lparr>expired_left := its, fired := fired q @ [(t_sequence t, t_expiration t, expired_at q)]\<rparr>)))"

definition handleRead_finish :: "int \<Rightarrow> TimerQueue \<Rightarrow> TimerQueue res" where
  "handleRead_finish clock q =
     and_then (tq_reset clock (expired_all q) (expired_at q) (q\<lparr>callingExpiredTimers := False\<rparr>)) (\<lambda>q.
       Inr (q\<lparr>expired_all := []\<rparr>))"

definition tq_run_functor :: "int \<Rightarrow> TimerQueue \<Rightarrow> TimerQueue res" where
  "tq_run_functor now q =
     (case tq_pending q of
        [] \<Rightarrow> Inr q
      | AddInLoop a # fs \<Rightarrow> addTimerInLoop now a (q\<lparr>tq_pending := fs\<rparr>)
      | CancelInLoop i # fs \<Rightarrow> cancelInLoop i (q\<lparr>tq_pending := fs\<rparr>))"

section \<open>Events\<close>

text \<open>
  \<^verbatim>\<open>addTimer\<close> and \<^verbatim>\<open>cancel\<close> from the loop's own thread, among them its timer callbacks, act at once; from other threads they
  queue a functor. Cancelling may be asked for with any id, also of a timer that is gone.
\<close>

datatype tq_event =
    LoopAdd nat int int bool int
  | OtherAdd nat int int bool
  | LoopCancel "nat \<times> int"
  | OtherCancel "nat \<times> int"
  | RunFunctor int
  | Alarm int
  | RunTimer
  | Finish int

fun tq_do :: "tq_event \<Rightarrow> TimerQueue \<Rightarrow> TimerQueue res" where
  "tq_do (LoopAdd a when interval repeat now) q =
     addTimerInLoop now a ((new_timer a when interval repeat q)\<lparr>tq_clock := now\<rparr>)"
| "tq_do (OtherAdd a when interval repeat) q =
     Inr ((new_timer a when interval repeat q)\<lparr>tq_pending := tq_pending q @ [AddInLoop a]\<rparr>)"
| "tq_do (LoopCancel i) q = cancelInLoop i q"
| "tq_do (OtherCancel i) q = Inr (q\<lparr>tq_pending := tq_pending q @ [CancelInLoop i]\<rparr>)"
| "tq_do (RunFunctor now) q = tq_run_functor now (q\<lparr>tq_clock := now\<rparr>)"
| "tq_do (Alarm now) q = handleRead_start now (q\<lparr>tq_clock := now\<rparr>)"
| "tq_do RunTimer q = run_timer q"
| "tq_do (Finish now) q = handleRead_finish now (q\<lparr>tq_clock := now\<rparr>)"

text \<open>
  When an event can occur: the allocator gives a free address below the last, times are positive, the clock does not go
  back, functors run outside of \<^verbatim>\<open>handleRead\<close>, and \<^verbatim>\<open>handleRead\<close> goes on to its end once it has started.
\<close>

fun tq_enabled :: "tq_event \<Rightarrow> TimerQueue \<Rightarrow> bool" where
  "tq_enabled (LoopAdd a when interval repeat now) q \<longleftrightarrow>
     heap q a = None \<and> a < UINTPTR_MAX \<and> 0 < when \<and> 0 \<le> interval \<and> tq_clock q \<le> now"
| "tq_enabled (OtherAdd a when interval repeat) q \<longleftrightarrow> heap q a = None \<and> a < UINTPTR_MAX \<and> 0 < when \<and> 0 \<le> interval"
| "tq_enabled (LoopCancel i) q \<longleftrightarrow> True"
| "tq_enabled (OtherCancel i) q \<longleftrightarrow> True"
| "tq_enabled (RunFunctor now) q \<longleftrightarrow> \<not> callingExpiredTimers q \<and> tq_pending q \<noteq> [] \<and> tq_clock q \<le> now"
| "tq_enabled (Alarm now) q \<longleftrightarrow> \<not> callingExpiredTimers q \<and> tq_clock q \<le> now"
| "tq_enabled RunTimer q \<longleftrightarrow> callingExpiredTimers q \<and> expired_left q \<noteq> []"
| "tq_enabled (Finish now) q \<longleftrightarrow> callingExpiredTimers q \<and> expired_left q = [] \<and> tq_clock q \<le> now"

inductive tq_reach :: "TimerQueue \<Rightarrow> bool" where
  tq_init: "tq_reach newTimerQueue"
| tq_step: "tq_reach q \<Longrightarrow> tq_enabled e q \<Longrightarrow> tq_do e q = Inr q' \<Longrightarrow> tq_reach q'"

section \<open>The invariant\<close>

text \<open>The two sets hold the same timers, all of them allocated.\<close>

definition active_of :: "(nat \<rightharpoonup> Timer) \<Rightarrow> (int \<times> nat) list \<Rightarrow> (nat \<times> int) set" where
  "active_of h xs = (\<lambda>(e, a). (a, t_sequence (the (h a)))) ` set xs"

definition entry_ok :: "(nat \<rightharpoonup> Timer) \<Rightarrow> int \<times> nat \<Rightarrow> bool" where
  "entry_ok h = (\<lambda>(e, a). \<exists>t. h a = Some t \<and> t_expiration t = e)"

definition core :: "TimerQueue \<Rightarrow> bool" where
  "core q \<longleftrightarrow> sorted (timers q) \<and> distinct (timers q) \<and> (\<forall>x\<in>set (timers q). entry_ok (heap q) x)
     \<and> activeTimers q = active_of (heap q) (timers q)"

definition heap_ok :: "TimerQueue \<Rightarrow> bool" where
  "heap_ok q \<longleftrightarrow> (\<forall>a t. heap q a = Some t \<longrightarrow> a < UINTPTR_MAX \<and> 0 < t_expiration t \<and> 0 \<le> t_interval t
     \<and> t_sequence t \<le> s_numCreated q)
     \<and> (\<forall>a b t u. heap q a = Some t \<longrightarrow> heap q b = Some u \<longrightarrow> t_sequence t = t_sequence u \<longrightarrow> a = b)"

definition queued :: "TimerQueue \<Rightarrow> nat list" where
  "queued q = concat (map (\<lambda>f. case f of AddInLoop a \<Rightarrow> [a] | CancelInLoop i \<Rightarrow> []) (tq_pending q))"

text \<open>Every allocated timer is in one place only.\<close>

definition places :: "TimerQueue \<Rightarrow> bool" where
  "places q \<longleftrightarrow> distinct (map snd (expired_all q)) \<and> (\<forall>x\<in>set (expired_all q). entry_ok (heap q) x)
     \<and> set (expired_left q) \<subseteq> set (expired_all q) \<and> (\<not> callingExpiredTimers q \<longrightarrow> expired_all q = [])
     \<and> distinct (queued q) \<and> (\<forall>a\<in>set (queued q). heap q a \<noteq> None)
     \<and> snd ` set (timers q) \<inter> snd ` set (expired_all q) = {} \<and> snd ` set (timers q) \<inter> set (queued q) = {}
     \<and> snd ` set (expired_all q) \<inter> set (queued q) = {}"

definition times_ok :: "TimerQueue \<Rightarrow> bool" where
  "times_ok q \<longleftrightarrow> 0 < tq_clock q \<and> (callingExpiredTimers q \<longrightarrow> 0 < expired_at q \<and> expired_at q \<le> tq_clock q)
     \<and> (\<not> callingExpiredTimers q \<and> timers q \<noteq> [] \<longrightarrow>
          (\<exists>w. armed q = Some w \<and> w \<le> max (fst (hd (timers q))) (tq_clock q + 100)))"

definition tq_inv :: "TimerQueue \<Rightarrow> bool" where
  "tq_inv q \<longleftrightarrow> core q \<and> heap_ok q \<and> places q \<and> times_ok q"

lemma entry_addr: "entry_ok h (e, a) \<Longrightarrow> entry_ok h (e', a) \<Longrightarrow> e = e'"
  by (auto simp: entry_ok_def)

lemma core_sizes: "core q \<Longrightarrow> sizes_agree q"
proof -
  assume c: "core q"
  have "inj_on (\<lambda>(e, a). (a, t_sequence (the (heap q a)))) (set (timers q))"
    using c by (auto simp: inj_on_def core_def dest: entry_addr)
  then show ?thesis using c by (simp add: sizes_agree_def core_def active_of_def card_image distinct_card)
qed

lemma active_insort: "active_of h (insort x xs) = insert (snd x, t_sequence (the (h (snd x)))) (active_of h xs)"
  by (cases x) (simp add: active_of_def set_insort_key)

lemma active_cong: "(\<And>a. a \<in> snd ` set xs \<Longrightarrow> h a = h' a) \<Longrightarrow> active_of h xs = active_of h' xs"
  unfolding active_of_def by (rule image_cong) force+

lemma entry_cong: "h (snd x) = h' (snd x) \<Longrightarrow> entry_ok h x = entry_ok h' x"
  by (cases x) (simp add: entry_ok_def)

lemma entry_upd: "a \<notin> snd ` X \<Longrightarrow> x \<in> X \<Longrightarrow> entry_ok (h(a := v)) x = entry_ok h x"
  by (rule entry_cong) auto

lemma core_heap:
  assumes "core q" "\<And>a. a \<in> snd ` set (timers q) \<Longrightarrow> h a = heap q a"
  shows "core (q\<lparr>heap := h\<rparr>)"
  using assms active_cong [of "timers q" h "heap q"] entry_cong [of h _ "heap q"] by (simp add: core_def)

lemma active_addr: "(a, s) \<in> active_of h xs \<Longrightarrow> a \<in> snd ` set xs"
  by (force simp: active_of_def)

text \<open>Insertion.\<close>

lemma insert_ok:
  assumes "core q" "heap q a = Some t" "a \<notin> snd ` set (timers q)"
  defines "q' \<equiv> q\<lparr>timers := insort (t_expiration t, a) (timers q), activeTimers := insert (a, t_sequence t) (activeTimers q)\<rparr>"
  shows "tq_insert a q = Inr (timers q = [] \<or> t_expiration t < fst (hd (timers q)), q')" "core q'"
proof -
  have new: "(t_expiration t, a) \<notin> set (timers q)" "(a, t_sequence t) \<notin> activeTimers q"
    using assms(1,3) active_addr by (force, auto simp: core_def dest: active_addr)
  show core: "core q'"
    using assms new by (auto simp: core_def q'_def sorted_insort distinct_insort set_insort_key active_insort entry_ok_def)
  show "tq_insert a q = Inr (timers q = [] \<or> t_expiration t < fst (hd (timers q)), q')"
    using core_sizes [OF assms(1)] core_sizes [OF core] assms(2) new by (simp add: tq_insert_def deref_def q'_def Let_def)
qed

lemma hd_insort: "fst (hd (insort x xs)) = (if xs = [] then fst x else min (fst x) (fst (hd xs)))" for x :: "int \<times> nat"
  by (cases xs; cases x; cases "hd xs") (auto simp: less_eq_prod_def min_def)

section \<open>Every event keeps it\<close>

lemma sorted_hd_le: "sorted xs \<Longrightarrow> y \<in> set xs \<Longrightarrow> fst (hd xs) \<le> fst y" for xs :: "(int \<times> nat) list"
  by (cases xs) (auto simp: less_eq_prod_def)

lemma add_ok:
  assumes "tq_inv q" "heap q a = Some t" "a \<notin> snd ` set (timers q)" "a \<notin> snd ` set (expired_all q)" "a \<notin> set (queued q)"
    "tq_clock q = now"
  shows "\<exists>q'. addTimerInLoop now a q = Inr q' \<and> tq_inv q'"
proof -
  let ?q = "q\<lparr>timers := insort (t_expiration t, a) (timers q), activeTimers := insert (a, t_sequence t) (activeTimers q)\<rparr>"
  let ?early = "timers q = [] \<or> t_expiration t < fst (hd (timers q))"
  let ?r = "if ?early then resetTimerfd now (t_expiration t) ?q else ?q"
  have inv: "core q" "heap_ok q" "places q" "times_ok q" using assms(1) by (simp_all add: tq_inv_def)
  note ins = insert_ok [OF inv(1) assms(2,3)]
  have run: "addTimerInLoop now a q = Inr ?r" using ins(1) assms(2) by (simp add: addTimerInLoop_def deref_def)
  have "core ?r" using ins(2) by (auto simp: core_def resetTimerfd_def)
  moreover have "heap_ok ?r" using inv(2) by (auto simp: heap_ok_def resetTimerfd_def)
  moreover have "places ?r" using inv(3) assms(4,5) by (auto simp: places_def resetTimerfd_def set_insort_key queued_def)
  moreover have "times_ok ?r"
    using inv(4) assms(6) hd_insort [of "(t_expiration t, a)" "timers q"] by (auto simp: times_ok_def resetTimerfd_def)
  ultimately show ?thesis using run by (simp add: tq_inv_def)
qed

lemma core_remove:
  assumes "core q" "(e, a) \<in> set (timers q)" "heap q a = Some t"
  shows "core (q\<lparr>timers := removeAll (e, a) (timers q), heap := (heap q)(a := None), activeTimers := activeTimers q - {(a, t_sequence t)}\<rparr>)"
proof -
  have uniq: "e' = e" if "(e', a) \<in> set (timers q)" for e'
    using assms(1,2) that entry_addr [of "heap q" e a e'] by (auto simp: core_def)
  let ?h = "(heap q)(a := None)"
  have out: "a \<notin> snd ` set (removeAll (e, a) (timers q))" using uniq by auto
  have "active_of ?h (removeAll (e, a) (timers q)) = active_of (heap q) (removeAll (e, a) (timers q))"
    using out by (intro active_cong) auto
  also have "\<dots> = activeTimers q - {(a, t_sequence t)}"
  proof -
    let ?f = "\<lambda>(e, a). (a, t_sequence (the (heap q a)))"
    have "inj_on ?f (set (timers q))" using assms(1) by (auto simp: inj_on_def core_def dest: entry_addr)
    then have "?f ` (set (timers q) - {(e, a)}) = ?f ` set (timers q) - ?f ` {(e, a)}"
      by (rule inj_on_image_set_diff) (use assms(2) in auto)
    then show ?thesis using assms(1,3) by (simp add: core_def active_of_def)
  qed
  finally have "active_of ?h (removeAll (e, a) (timers q)) = activeTimers q - {(a, t_sequence t)}" .
  moreover have "entry_ok ?h x" if "x \<in> set (removeAll (e, a) (timers q))" for x
    using assms(1) that entry_upd [OF out that, of "heap q" None] by (auto simp: core_def)
  moreover have "sorted (removeAll (e, a) (timers q))" "distinct (removeAll (e, a) (timers q))"
    using assms(1) by (simp_all add: core_def removeAll_filter_not_eq sorted_wrt_filter)
  ultimately show ?thesis by (simp add: core_def)
qed

lemma cancel_ok:
  assumes "tq_inv q"
  shows "\<exists>q'. cancelInLoop i q = Inr q' \<and> tq_inv q'"
proof (cases "i \<in> activeTimers q")
  case True
  have inv: "core q" "heap_ok q" "places q" "times_ok q" using assms by (simp_all add: tq_inv_def)
  obtain a s where i: "i = (a, s)" by (cases i)
  obtain e where e: "(e, a) \<in> set (timers q)" "s = t_sequence (the (heap q a))" using inv(1) True i by (auto simp: core_def active_of_def)
  then obtain t where t: "heap q a = Some t" "t_expiration t = e" using inv(1) by (auto simp: core_def entry_ok_def)
  let ?q = "q\<lparr>timers := removeAll (e, a) (timers q), heap := (heap q)(a := None), activeTimers := activeTimers q - {i}\<rparr>"
  have core: "core ?q" using core_remove [OF inv(1) e(1) t(1)] i e(2) t(1) by simp
  have run: "cancelInLoop i q = Inr ?q"
    using core_sizes [OF inv(1)] core_sizes [OF core] True i t e(1) by (simp add: cancelInLoop_def deref_def)
  have "heap_ok ?q" using inv(2) by (auto simp: heap_ok_def split: if_splits)
  moreover have "places ?q"
  proof -
    have "a \<in> snd ` set (timers q)" using e(1) by (rule rev_image_eqI) simp
    then have out: "a \<notin> snd ` set (expired_all q)" "a \<notin> set (queued q)" using inv(3) unfolding places_def by blast+
    have "entry_ok ((heap q)(a := None)) x" if "x \<in> set (expired_all q)" for x
      using inv(3) entry_upd [OF out(1) that] that by (simp add: places_def)
    moreover have "snd ` set (removeAll (e, a) (timers q)) \<subseteq> snd ` set (timers q)" by auto
    ultimately show ?thesis using inv(3) out(2) unfolding places_def queued_def by simp blast
  qed
  moreover have "times_ok ?q"
  proof -
    have "fst (hd (timers q)) \<le> fst (hd (removeAll (e, a) (timers q)))" if "removeAll (e, a) (timers q) \<noteq> []"
      using inv(1) hd_in_set [OF that] by (intro sorted_hd_le) (auto simp: core_def)
    then show ?thesis using inv(4) e(1) by (fastforce simp: times_ok_def)
  qed
  ultimately show ?thesis using run core by (simp add: tq_inv_def)
next
  case False
  then show ?thesis
    using assms core_sizes [of q]
    by (auto simp: cancelInLoop_def tq_inv_def core_def heap_ok_def places_def times_ok_def sizes_agree_def queued_def)
qed

lemma new_timer_inv:
  assumes "tq_inv q" "heap q a = None" "a < UINTPTR_MAX" "0 < when" "0 \<le> interval"
  shows "tq_inv (new_timer a when interval rep q)" "a \<notin> snd ` set (timers q)" "a \<notin> snd ` set (expired_all q)" "a \<notin> set (queued q)"
proof -
  have inv: "core q" "heap_ok q" "places q" "times_ok q" using assms(1) by (simp_all add: tq_inv_def)
  show out: "a \<notin> snd ` set (timers q)" "a \<notin> snd ` set (expired_all q)" "a \<notin> set (queued q)"
    using inv(1,3) assms(2) by (fastforce simp: core_def places_def entry_ok_def)+
  let ?t = "\<lparr>t_expiration = when, t_interval = interval, t_repeat = rep, t_sequence = s_numCreated q + 1\<rparr>"
  let ?h = "(heap q)(a \<mapsto> ?t)"
  have "core (q\<lparr>heap := ?h\<rparr>)" using out(1) by (intro core_heap [OF inv(1)]) auto
  then have "core (new_timer a when interval rep q)" by (simp add: core_def new_timer_def Let_def)
  moreover have "heap_ok (new_timer a when interval rep q)" using inv(2) assms(3-5) by (fastforce simp: heap_ok_def new_timer_def Let_def)
  moreover have "places (new_timer a when interval rep q)"
  proof -
    have "entry_ok ?h x" if "x \<in> set (expired_all q)" for x
      using inv(3) entry_upd [OF out(2) that] that by (simp add: places_def)
    then show ?thesis using inv(3) by (auto simp: places_def new_timer_def Let_def queued_def)
  qed
  moreover have "times_ok (new_timer a when interval rep q)" using inv(4) by (simp add: times_ok_def new_timer_def Let_def)
  ultimately show "tq_inv (new_timer a when interval rep q)" by (simp add: tq_inv_def)
qed

lemma inv_clock: "tq_inv q \<Longrightarrow> tq_clock q \<le> now \<Longrightarrow> tq_inv (q\<lparr>tq_clock := now\<rparr>)"
  by (auto simp: tq_inv_def core_def heap_ok_def places_def times_ok_def queued_def)

text \<open>The expired timers.\<close>

lemma erase_active_ok:
  assumes "distinct its" "\<forall>x\<in>set its. entry_ok (heap q) x" "active_of (heap q) its \<subseteq> activeTimers q"
  shows "erase_active its q = Inr (q\<lparr>activeTimers := activeTimers q - active_of (heap q) its\<rparr>)"
  using assms
proof (induction its arbitrary: q)
  case Nil
  then show ?case by (simp add: active_of_def)
next
  case (Cons it its)
  obtain e a where it: "it = (e, a)" by (cases it)
  obtain t where t: "heap q a = Some t" "t_expiration t = e" using Cons.prems(2) it by (auto simp: entry_ok_def)
  let ?q = "q\<lparr>activeTimers := activeTimers q - {(a, t_sequence t)}\<rparr>"
  have cons: "active_of (heap q) (it # its) = insert (a, t_sequence t) (active_of (heap q) its)" using it t by (simp add: active_of_def)
  have "(a, t_sequence t) \<notin> active_of (heap q) its"
  proof
    assume "(a, t_sequence t) \<in> active_of (heap q) its"
    then obtain e' where "(e', a) \<in> set its" by (auto simp: active_of_def)
    moreover then have "e' = e" using Cons.prems(2) it entry_addr [of "heap q" e' a e] by auto
    ultimately show False using Cons.prems(1) it by simp
  qed
  then have "active_of (heap ?q) its \<subseteq> activeTimers ?q" using Cons.prems(3) cons by auto
  from Cons.IH [OF _ _ this] Cons.prems(1,2)
  have "erase_active its ?q = Inr (q\<lparr>activeTimers := activeTimers q - {(a, t_sequence t)} - active_of (heap q) its\<rparr>)" by simp
  moreover have "(a, t_sequence t) \<in> activeTimers q" using Cons.prems(3) cons by auto
  ultimately show ?case using it t cons by (simp add: deref_def Diff_insert2 [symmetric])
qed

lemma due_before:
  assumes "heap_ok q" "entry_ok (heap q) x"
  shows "x < (now, UINTPTR_MAX) \<longleftrightarrow> fst x \<le> now"
  using assms by (cases x) (auto simp: heap_ok_def entry_ok_def less_prod_def)

lemma getExpired_ok:
  fixes now :: int
  assumes "core q" "heap_ok q"
  defines "ex \<equiv> takeWhile (\<lambda>x. fst x \<le> now) (timers q)" and "rs \<equiv> dropWhile (\<lambda>x. fst x \<le> now) (timers q)"
  shows "getExpired now q = Inr (ex, q\<lparr>timers := rs, activeTimers := active_of (heap q) rs\<rparr>)"
    "core (q\<lparr>timers := rs, activeTimers := active_of (heap q) rs\<rparr>)"
proof -
  have all: "\<forall>x\<in>set (timers q). entry_ok (heap q) x" using assms(1) by (simp add: core_def)
  have eq: "takeWhile (\<lambda>x. x < (now, UINTPTR_MAX)) (timers q) = ex" "dropWhile (\<lambda>x. x < (now, UINTPTR_MAX)) (timers q) = rs"
    using all due_before [OF assms(2)] unfolding ex_def rs_def by (auto intro!: takeWhile_cong dropWhile_cong)
  have split: "timers q = ex @ rs" by (simp add: ex_def rs_def)
  have ok: "sorted ex" "sorted rs" "distinct ex" "distinct rs" "set ex \<inter> set rs = {}"
    using assms(1) unfolding core_def split by (auto simp: sorted_append)
  show core: "core (q\<lparr>timers := rs, activeTimers := active_of (heap q) rs\<rparr>)"
    using ok all split by (simp add: core_def)
  have act: "activeTimers q = active_of (heap q) ex \<union> active_of (heap q) rs"
    using assms(1) split by (auto simp: core_def active_of_def)
  have "active_of (heap q) ex \<inter> active_of (heap q) rs = {}"
  proof -
    have "inj_on (\<lambda>(e, a). (a, t_sequence (the (heap q a)))) (set (timers q))"
      using all by (auto simp: inj_on_def dest: entry_addr)
    then show ?thesis using ok(5) split unfolding active_of_def by (metis (no_types, lifting) inj_on_image_Int Un_upper1 Un_upper2 image_empty set_append)
  qed
  then have diff: "activeTimers q - active_of (heap q) ex = active_of (heap q) rs" using act by auto
  have "erase_active ex (q\<lparr>timers := rs\<rparr>) = Inr (q\<lparr>timers := rs, activeTimers := active_of (heap q) rs\<rparr>)"
    using erase_active_ok [of ex "q\<lparr>timers := rs\<rparr>"] ok(3) all split act diff by simp
  moreover have "rs = [] \<or> now < fst (hd rs)" by (metis hd_dropWhile linorder_not_le rs_def)
  ultimately show "getExpired now q = Inr (ex, q\<lparr>timers := rs, activeTimers := active_of (heap q) rs\<rparr>)"
    using core_sizes [OF assms(1)] core_sizes [OF core] unfolding getExpired_def Let_def eq by simp
qed

lemma fst_mono: "x \<le> y \<Longrightarrow> fst x \<le> fst y" for x y :: "int \<times> nat"
  by (cases x; cases y) (auto simp: less_eq_prod_def)

lemma dropped_late: "sorted xs \<Longrightarrow> x \<in> set (dropWhile (\<lambda>x. fst x \<le> now) xs) \<Longrightarrow> now < fst x" for xs :: "(int \<times> nat) list"
proof (induction xs)
  case (Cons y ys)
  show ?case
  proof (cases "fst y \<le> now")
    case True
    then show ?thesis using Cons by simp
  next
    case False
    then have "x \<in> set (y # ys)" using Cons.prems(2) by simp
    then have "fst y \<le> fst x" using Cons.prems(1) by (auto intro: fst_mono)
    then show ?thesis using False by linarith
  qed
qed simp

lemma alarm_ok:
  assumes "tq_inv q" "\<not> callingExpiredTimers q" "tq_clock q = now"
  shows "\<exists>q'. handleRead_start now q = Inr q' \<and> tq_inv q' \<and> expired_all q' = filter (\<lambda>x. fst x \<le> now) (timers q)
    \<and> expired_left q' = expired_all q' \<and> heap q' = heap q"
proof -
  let ?q = "q\<lparr>armed := None\<rparr>"
  let ?ex = "takeWhile (\<lambda>x. fst x \<le> now) (timers q)" and ?rs = "dropWhile (\<lambda>x. fst x \<le> now) (timers q)"
  let ?q1 = "?q\<lparr>timers := ?rs, activeTimers := active_of (heap q) ?rs\<rparr>"
  let ?q2 = "?q1\<lparr>callingExpiredTimers := True, cancelingTimers := {}, expired_left := ?ex, expired_all := ?ex, expired_at := now\<rparr>"
  have inv: "core q" "heap_ok q" "places q" "times_ok q" using assms by (simp_all add: tq_inv_def)
  have c: "core ?q" "heap_ok ?q" using inv by (simp_all add: core_def heap_ok_def)
  note g = getExpired_ok [OF c, of now, simplified]
  have run: "handleRead_start now q = Inr ?q2" using g(1) by (simp add: handleRead_start_def)
  have split: "timers q = ?ex @ ?rs" by simp
  have ent: "\<forall>x\<in>set (timers q). entry_ok (heap q) x" using inv(1) by (simp add: core_def)
  have inj: "inj_on snd (set (timers q))"
  proof (rule inj_onI)
    fix x y assume "x \<in> set (timers q)" "y \<in> set (timers q)" "snd x = snd y"
    then show "x = y" using ent entry_addr [of "heap q" "fst x" "snd x" "fst y"] by (cases x; cases y) auto
  qed
  have dist: "distinct (map snd (timers q))" using inj inv(1) by (simp add: distinct_map core_def)
  have sub: "set ?ex \<subseteq> set (timers q)" "set ?rs \<subseteq> set (timers q)" by (auto dest: set_takeWhileD set_dropWhileD)
  have disj: "snd ` set ?rs \<inter> snd ` set ?ex = {}" "distinct (map snd ?ex)"
    using dist split by (metis distinct_append inf_commute list.set_map map_append)+
  have "core ?q2" using g(2) by (simp add: core_def)
  moreover have "heap_ok ?q2" using inv(2) by (simp add: heap_ok_def)
  moreover have "places ?q2"
  proof -
    have "\<forall>x\<in>set ?ex. entry_ok (heap q) x" using ent sub(1) by blast
    moreover have "snd ` set (timers q) \<inter> set (queued q) = {}" using inv(3) by (simp add: places_def)
    then have "snd ` set ?ex \<inter> set (queued q) = {}" "snd ` set ?rs \<inter> set (queued q) = {}"
      using image_mono [OF sub(1), of snd] image_mono [OF sub(2), of snd] by (meson disjoint_iff subset_iff)+
    ultimately show ?thesis using inv(3) disj by (simp add: places_def queued_def)
  qed
  moreover have "times_ok ?q2" using inv(4) assms(3) by (simp add: times_ok_def)
  moreover have "filter (\<lambda>x. fst x \<le> now) (timers q) = ?ex"
  proof -
    have "sorted (timers q)" using inv(1) by (simp add: core_def)
    then have "filter (\<lambda>x. fst x \<le> now) ?rs = []"
      using dropped_late [of "timers q"] by (intro filter_False) (meson linorder_not_less)
    moreover have "filter (\<lambda>x. fst x \<le> now) ?ex = ?ex" by (auto simp: filter_id_conv dest: set_takeWhileD)
    ultimately show ?thesis by (metis append_Nil2 filter_append split)
  qed
  ultimately show ?thesis using run by (auto simp: tq_inv_def)
qed

text \<open>What \<^verbatim>\<open>reset\<close> does to a timer that has run.\<close>

definition restarted :: "int \<Rightarrow> TimerQueue \<Rightarrow> nat \<Rightarrow> Timer option" where
  "restarted now q a =
     (case heap q a of
        None \<Rightarrow> None
      | Some t \<Rightarrow> if t_repeat t \<and> (a, t_sequence t) \<notin> cancelingTimers q then Some (Timer_restart now t) else None)"

lemma heap_ok_restart:
  assumes "heap_ok q" "heap q a = Some t" "t_repeat t" "0 < now"
  shows "heap_ok (q\<lparr>heap := (heap q)(a \<mapsto> Timer_restart now t)\<rparr>)"
  using assms by (fastforce simp: heap_ok_def Timer_restart_def)

lemma heap_ok_free: "heap_ok q \<Longrightarrow> heap_ok (q\<lparr>heap := (heap q)(a := None)\<rparr>)"
  by (auto simp: heap_ok_def)

lemma heap_ok_sets: "heap_ok (q\<lparr>timers := xs, activeTimers := ys\<rparr>) = heap_ok q"
  by (simp add: heap_ok_def)

lemma reset_loop_ok:
  assumes "core q" "heap_ok q" "distinct (map snd its)" "\<forall>x\<in>set its. heap q (snd x) \<noteq> None"
    "snd ` set (timers q) \<inter> snd ` set its = {}" "0 < now"
  shows "\<exists>h xs act. let q' = q\<lparr>heap := h, timers := xs, activeTimers := act\<rparr> in
     reset_loop now its q = Inr q' \<and> core q' \<and> heap_ok q'
     \<and> (\<forall>a. h a = (if a \<in> snd ` set its then restarted now q a else heap q a))
     \<and> snd ` set xs = snd ` set (timers q) \<union> {a \<in> snd ` set its. h a \<noteq> None}"
  using assms
proof (induction its arbitrary: q)
  case Nil
  then show ?case
    by (intro exI [of _ "heap q"] exI [of _ "timers q"] exI [of _ "activeTimers q"]) (simp add: Let_def)
next
  case (Cons it its)
  obtain e a where it: "it = (e, a)" by (cases it)
  obtain t where t: "heap q a = Some t" using Cons.prems(4) it by auto
  have out: "a \<notin> snd ` set (timers q)" "a \<notin> snd ` set its" using Cons.prems(3,5) it by auto
  show ?case
  proof (cases "t_repeat t \<and> (a, t_sequence t) \<notin> cancelingTimers q")
    case True
    let ?t = "Timer_restart now t"
    let ?q1 = "q\<lparr>heap := (heap q)(a \<mapsto> ?t)\<rparr>"
    have c1: "core ?q1" using out(1) by (intro core_heap [OF Cons.prems(1)]) auto
    let ?q2 = "?q1\<lparr>timers := insort (t_expiration ?t, a) (timers q), activeTimers := insert (a, t_sequence ?t) (activeTimers q)\<rparr>"
    have ins: "tq_insert a ?q1 = Inr (timers q = [] \<or> t_expiration ?t < fst (hd (timers q)), ?q2)" "core ?q2"
      using insert_ok [OF c1, of a ?t] out(1) by simp_all
    have h2: "heap_ok ?q2" unfolding heap_ok_sets using True by (intro heap_ok_restart [OF Cons.prems(2) t _ Cons.prems(6)]) blast
    have "\<forall>x\<in>set its. heap ?q2 (snd x) \<noteq> None" "snd ` set (timers ?q2) \<inter> snd ` set its = {}" "distinct (map snd its)"
      using Cons.prems(3,4,5) out by (auto simp: set_insort_key)
    from Cons.IH [OF ins(2) h2 this(3,1,2) Cons.prems(6)] obtain h xs act where
      r: "reset_loop now its ?q2 = Inr (q\<lparr>heap := h, timers := xs, activeTimers := act\<rparr>)"
        "core (q\<lparr>heap := h, timers := xs, activeTimers := act\<rparr>)" "heap_ok (q\<lparr>heap := h, timers := xs, activeTimers := act\<rparr>)"
        "\<forall>b. h b = (if b \<in> snd ` set its then restarted now ?q2 b else heap ?q2 b)"
        "snd ` set xs = snd ` set (timers ?q2) \<union> {b \<in> snd ` set its. h b \<noteq> None}"
      by (auto simp: Let_def)
    have "reset_loop now (it # its) q = Inr (q\<lparr>heap := h, timers := xs, activeTimers := act\<rparr>)"
      using it t True ins(1) r(1) by (simp add: deref_def)
    moreover have hb: "h b = (if b \<in> snd ` set (it # its) then restarted now q b else heap q b)" for b
      using r(4) [rule_format, of b] it t True out(2) by (simp add: restarted_def split: option.split)
    moreover have "snd ` set xs = snd ` set (timers q) \<union> {b \<in> snd ` set (it # its). h b \<noteq> None}"
      using r(5) it t True hb [of a] by (auto simp: set_insort_key restarted_def)
    ultimately show ?thesis using r(2,3) unfolding Let_def by blast
  next
    case False
    let ?q2 = "q\<lparr>heap := (heap q)(a := None)\<rparr>"
    have c2: "core ?q2" using out(1) by (intro core_heap [OF Cons.prems(1)]) auto
    have "\<forall>x\<in>set its. heap ?q2 (snd x) \<noteq> None" "snd ` set (timers ?q2) \<inter> snd ` set its = {}" "distinct (map snd its)"
      using Cons.prems(3,4,5) out by auto
    from Cons.IH [OF c2 heap_ok_free [OF Cons.prems(2)] this(3,1,2) Cons.prems(6)] obtain h xs act where
      r: "reset_loop now its ?q2 = Inr (q\<lparr>heap := h, timers := xs, activeTimers := act\<rparr>)"
        "core (q\<lparr>heap := h, timers := xs, activeTimers := act\<rparr>)" "heap_ok (q\<lparr>heap := h, timers := xs, activeTimers := act\<rparr>)"
        "\<forall>b. h b = (if b \<in> snd ` set its then restarted now ?q2 b else heap ?q2 b)"
        "snd ` set xs = snd ` set (timers q) \<union> {b \<in> snd ` set its. h b \<noteq> None}"
      by (auto simp: Let_def)
    have "reset_loop now (it # its) q = Inr (q\<lparr>heap := h, timers := xs, activeTimers := act\<rparr>)"
      using it t False r(1) by (auto simp: deref_def)
    moreover have hb: "h b = (if b \<in> snd ` set (it # its) then restarted now q b else heap q b)" for b
      using r(4) [rule_format, of b] it t False out(2) by (simp add: restarted_def split: option.split)
    moreover have "snd ` set xs = snd ` set (timers q) \<union> {b \<in> snd ` set (it # its). h b \<noteq> None}"
      using r(5) it t False hb [of a] by (auto simp: restarted_def)
    ultimately show ?thesis using r(2,3) unfolding Let_def by blast
  qed
qed

lemma finish_ok:
  assumes "tq_inv q" "callingExpiredTimers q" "expired_left q = []" "tq_clock q = now"
  shows "\<exists>q'. handleRead_finish now q = Inr q' \<and> tq_inv q'"
proof -
  let ?q = "q\<lparr>callingExpiredTimers := False\<rparr>"
  have inv: "core q" "heap_ok q" "places q" "times_ok q" using assms by (simp_all add: tq_inv_def)
  have ent: "\<forall>x\<in>set (expired_all q). heap q (snd x) \<noteq> None" using inv(3) by (auto simp: places_def entry_ok_def)
  have pre: "core ?q" "heap_ok ?q" "distinct (map snd (expired_all q))" "\<forall>x\<in>set (expired_all q). heap ?q (snd x) \<noteq> None"
    "snd ` set (timers ?q) \<inter> snd ` set (expired_all q) = {}" "0 < expired_at q"
    using inv assms(2) ent by (simp_all add: core_def heap_ok_def places_def times_ok_def)
  from reset_loop_ok [OF pre] obtain h xs act where
    r: "reset_loop (expired_at q) (expired_all q) ?q = Inr (?q\<lparr>heap := h, timers := xs, activeTimers := act\<rparr>)"
      "core (?q\<lparr>heap := h, timers := xs, activeTimers := act\<rparr>)" "heap_ok (?q\<lparr>heap := h, timers := xs, activeTimers := act\<rparr>)"
      "\<forall>a. h a = (if a \<in> snd ` set (expired_all q) then restarted (expired_at q) ?q a else heap q a)"
      "snd ` set xs = snd ` set (timers q) \<union> {a \<in> snd ` set (expired_all q). h a \<noteq> None}"
    by (auto simp: Let_def)
  let ?arm = "case xs of [] \<Rightarrow> armed q | x # _ \<Rightarrow> Some (max (fst x) (now + 100))"
  let ?r = "q\<lparr>callingExpiredTimers := False, heap := h, timers := xs, activeTimers := act, armed := ?arm, expired_all := []\<rparr>"
  have run: "handleRead_finish now q = Inr ?r"
  proof (cases xs)
    case Nil
    then show ?thesis using r(1) by (simp add: handleRead_finish_def tq_reset_def)
  next
    case (Cons x ys)
    then obtain t where "h (snd x) = Some t" "t_expiration t = fst x" using r(2) by (cases x) (auto simp: core_def entry_ok_def)
    moreover then have "0 < fst x" using r(3) by (force simp: heap_ok_def)
    ultimately show ?thesis using r(1) Cons by (simp add: handleRead_finish_def tq_reset_def deref_def resetTimerfd_def)
  qed
  have "core ?r" using r(2) by (simp add: core_def)
  moreover have "heap_ok ?r" using r(3) by (simp add: heap_ok_def)
  moreover have "places ?r"
  proof -
    have dis: "snd ` set (timers q) \<inter> set (queued q) = {}" "snd ` set (expired_all q) \<inter> set (queued q) = {}"
      using inv(3) by (simp_all add: places_def)
    have "snd ` set xs \<subseteq> snd ` set (timers q) \<union> snd ` set (expired_all q)" unfolding r(5) by blast
    then have "snd ` set xs \<inter> set (queued q) = {}" using dis by (meson Un_iff disjoint_iff subsetD)
    moreover have "h a = heap q a" if "a \<in> set (queued q)" for a using r(4) [rule_format, of a] dis(2) that by (metis disjoint_iff)
    moreover have "\<forall>a\<in>set (queued q). heap q a \<noteq> None" using inv(3) by (simp add: places_def)
    ultimately show ?thesis using inv(3) assms(3) by (simp add: places_def queued_def)
  qed
  moreover have "times_ok ?r" using inv(4) assms(4) by (cases xs) (auto simp: times_ok_def)
  ultimately show ?thesis using run by (simp add: tq_inv_def)
qed

lemma run_timer_ok:
  assumes "tq_inv q"
  shows "\<exists>q'. run_timer q = Inr q' \<and> tq_inv q'"
proof (cases "expired_left q")
  case Nil
  then show ?thesis using assms by (simp add: run_timer_def)
next
  case (Cons it its)
  then have "entry_ok (heap q) it" using assms by (auto simp: tq_inv_def places_def)
  then obtain t where "heap q (snd it) = Some t" by (cases it) (auto simp: entry_ok_def)
  moreover have "tq_inv (q\<lparr>expired_left := its, fired := f\<rparr>)" for f
    using assms Cons by (simp add: tq_inv_def core_def heap_ok_def places_def times_ok_def queued_def)
  ultimately show ?thesis using Cons by (simp add: run_timer_def deref_def)
qed

lemma tq_run_functor_ok:
  assumes "tq_inv q" "tq_clock q = now"
  shows "\<exists>q'. tq_run_functor now q = Inr q' \<and> tq_inv q'"
proof (cases "tq_pending q")
  case Nil
  then show ?thesis using assms by (simp add: tq_run_functor_def)
next
  case (Cons f fs)
  let ?q = "q\<lparr>tq_pending := fs\<rparr>"
  have inv: "tq_inv ?q" using assms Cons
    by (auto simp: tq_inv_def core_def heap_ok_def places_def times_ok_def queued_def)
  show ?thesis
  proof (cases f)
    case (AddInLoop a)
    then have "queued q = a # queued ?q" using Cons by (simp add: queued_def)
    moreover have pl: "places q" using assms by (simp add: tq_inv_def)
    ultimately obtain t where "heap ?q a = Some t" "a \<notin> set (queued ?q)" by (auto simp: places_def)
    moreover have "a \<notin> snd ` set (timers ?q)" "a \<notin> snd ` set (expired_all ?q)"
      using pl \<open>queued q = a # queued ?q\<close> by (auto simp: places_def)
    ultimately show ?thesis using add_ok [OF inv, of a t now] assms(2) Cons AddInLoop by (simp add: tq_run_functor_def)
  next
    case (CancelInLoop i)
    then show ?thesis using cancel_ok [OF inv, of i] Cons by (simp add: tq_run_functor_def)
  qed
qed

lemma other_add_ok:
  assumes "tq_inv q" "heap q a = None" "a < UINTPTR_MAX" "0 < when" "0 \<le> interval"
  shows "tq_inv ((new_timer a when interval rep q)\<lparr>tq_pending := tq_pending q @ [AddInLoop a]\<rparr>)"
proof -
  note n = new_timer_inv(1) [OF assms, of rep] new_timer_inv(2-4) [OF assms]
  have "heap (new_timer a when interval rep q) a \<noteq> None" by (simp add: new_timer_def Let_def)
  moreover have "timers (new_timer a when interval rep q) = timers q" "expired_all (new_timer a when interval rep q) = expired_all q"
    "tq_pending (new_timer a when interval rep q) = tq_pending q"
    by (simp_all add: new_timer_def Let_def)
  ultimately show ?thesis using n by (auto simp: tq_inv_def core_def heap_ok_def places_def times_ok_def queued_def)
qed

lemma tq_step_ok: "tq_inv q \<Longrightarrow> tq_enabled e q \<Longrightarrow> \<exists>q'. tq_do e q = Inr q' \<and> tq_inv q'"
proof (cases e)
  case (LoopAdd a expire interval rep now)
  assume inv: "tq_inv q" and "tq_enabled e q"
  then have en: "heap q a = None" "a < UINTPTR_MAX" "0 < expire" "0 \<le> interval" "tq_clock q \<le> now" using LoopAdd by simp_all
  note n = new_timer_inv(1) [OF inv en(1-4), of rep] new_timer_inv(2-4) [OF inv en(1-4)]
  let ?q = "(new_timer a expire interval rep q)\<lparr>tq_clock := now\<rparr>"
  have "tq_inv ?q" using n(1) en(5) by (intro inv_clock) (simp_all add: new_timer_def Let_def)
  moreover have "heap ?q a = Some \<lparr>t_expiration = expire, t_interval = interval, t_repeat = rep, t_sequence = s_numCreated q + 1\<rparr>"
    "timers ?q = timers q" "expired_all ?q = expired_all q" "queued ?q = queued q"
    by (simp_all add: new_timer_def Let_def queued_def)
  ultimately show ?thesis using add_ok [of ?q a _ now] n(2-4) LoopAdd by simp
next
  case (OtherAdd a expire interval rep)
  assume "tq_inv q" and "tq_enabled e q"
  then show ?thesis using other_add_ok [of q a] OtherAdd by simp
next
  case (Finish now)
  assume "tq_inv q" and "tq_enabled e q"
  then show ?thesis using inv_clock [of q now] finish_ok [of "q\<lparr>tq_clock := now\<rparr>" now] Finish by simp
next
  case (Alarm now)
  assume "tq_inv q" and "tq_enabled e q"
  then show ?thesis using inv_clock [of q now] alarm_ok [of "q\<lparr>tq_clock := now\<rparr>" now] Alarm by auto
next
  case (RunFunctor now)
  assume "tq_inv q" and "tq_enabled e q"
  then show ?thesis using inv_clock [of q now] tq_run_functor_ok [of "q\<lparr>tq_clock := now\<rparr>" now] RunFunctor by simp
next
  case (OtherCancel i)
  assume "tq_inv q"
  then show ?thesis using OtherCancel by (auto simp: tq_inv_def core_def heap_ok_def places_def times_ok_def queued_def)
qed (simp_all add: cancel_ok run_timer_ok)

lemma reach_inv: "tq_reach q \<Longrightarrow> tq_inv q"
proof (induction rule: tq_reach.induct)
  case tq_init
  show ?case by (simp add: newTimerQueue_def tq_inv_def core_def heap_ok_def places_def times_ok_def queued_def active_of_def)
next
  case (tq_step q e q')
  then show ?case using tq_step_ok [of q e] by auto
qed

section \<open>What the events change\<close>

text \<open>Timers that stay keep their sequence number; those in \<open>its\<close> stay only if they are not being cancelled.\<close>

definition keeps :: "TimerQueue \<Rightarrow> (int \<times> nat) list \<Rightarrow> (nat \<rightharpoonup> Timer) \<Rightarrow> bool" where
  "keeps q its h \<longleftrightarrow> (\<forall>b u. h b = Some u \<longrightarrow> (\<exists>t. heap q b = Some t \<and> t_sequence t = t_sequence u
     \<and> (b \<in> snd ` set its \<longrightarrow> (b, t_sequence u) \<notin> cancelingTimers q)))"

lemma insert_frame: "tq_insert a q = Inr (b, q') \<Longrightarrow> \<exists>xs act. q' = q\<lparr>timers := xs, activeTimers := act\<rparr>"
  by (auto simp: tq_insert_def Let_def and_then_eq_Inr cpp_assert_eq_Inr)

lemma add_frame:
  assumes "addTimerInLoop now a q = Inr q'"
  shows "\<exists>xs act w. q' = q\<lparr>timers := xs, activeTimers := act, armed := w\<rparr>"
proof -
  from assms obtain b q1 where r: "tq_insert a q = Inr (b, q1)" by (auto simp: addTimerInLoop_def and_then_eq_Inr)
  with assms obtain t where d: "deref a q1 = Inr t" by (auto simp: addTimerInLoop_def and_then_eq_Inr)
  have r2: "q' = (if b then resetTimerfd now (t_expiration t) q1 else q1)" using assms r d by (simp add: addTimerInLoop_def)
  from insert_frame [OF r] obtain xs act where q1: "q1 = q\<lparr>timers := xs, activeTimers := act\<rparr>" by blast
  then show ?thesis using r2
    by (intro exI [of _ xs] exI [of _ act] exI [of _ "if b then Some (max (t_expiration t) (now + 100)) else armed q"])
      (simp add: resetTimerfd_def)
qed

lemma cancel_frame:
  assumes "cancelInLoop i q = Inr q'"
  shows "\<exists>xs h act c. q' = q\<lparr>timers := xs, heap := h, activeTimers := act, cancelingTimers := c\<rparr>
    \<and> keeps q [] h \<and> cancelingTimers q \<subseteq> c"
proof (cases "i \<in> activeTimers q")
  case True
  then show ?thesis using assms
    by (intro exI [of _ "timers q'"] exI [of _ "heap q'"] exI [of _ "activeTimers q'"] exI [of _ "cancelingTimers q'"])
      (auto simp: cancelInLoop_def and_then_eq_Inr cpp_assert_eq_Inr keeps_def split: if_splits)
next
  case False
  then show ?thesis using assms
    by (intro exI [of _ "timers q'"] exI [of _ "heap q'"] exI [of _ "activeTimers q'"] exI [of _ "cancelingTimers q'"])
      (auto simp: cancelInLoop_def and_then_eq_Inr cpp_assert_eq_Inr keeps_def split: if_splits)
qed

lemma erase_frame: "erase_active its q = Inr q' \<Longrightarrow> \<exists>act. q' = q\<lparr>activeTimers := act\<rparr>"
proof (induction its arbitrary: q)
  case Nil
  then show ?case by (auto intro: exI [of _ "activeTimers q"])
next
  case (Cons it its)
  then show ?case by (fastforce simp: and_then_eq_Inr cpp_assert_eq_Inr)
qed

lemma start_frame:
  assumes "handleRead_start now q = Inr q'"
  shows "\<exists>xs act ex. q' = q\<lparr>armed := None, timers := xs, activeTimers := act, callingExpiredTimers := True, cancelingTimers := {},
     expired_left := ex, expired_all := ex, expired_at := now\<rparr> \<and> (\<forall>x\<in>set ex. fst x \<le> now)"
proof -
  have early: "x < (now, m) \<Longrightarrow> fst x \<le> now" for x :: "int \<times> nat" and m by (cases x) (auto simp: less_prod_def)
  show ?thesis using assms
    by (auto simp: handleRead_start_def getExpired_def Let_def and_then_eq_Inr cpp_assert_eq_Inr dest!: erase_frame)
      (auto dest!: set_takeWhileD early)
qed

lemma reset_frame:
  "reset_loop now its q = Inr q' \<Longrightarrow> \<exists>xs h act. q' = q\<lparr>timers := xs, heap := h, activeTimers := act\<rparr> \<and> keeps q its h"
proof (induction its arbitrary: q)
  case Nil
  then show ?case by (intro exI [of _ "timers q"] exI [of _ "heap q"] exI [of _ "activeTimers q"]) (simp add: keeps_def)
next
  case (Cons it its)
  then obtain t where t: "heap q (snd it) = Some t" by (auto simp: and_then_eq_Inr deref_def split: option.splits)
  show ?case
  proof (cases "t_repeat t \<and> (snd it, t_sequence t) \<notin> cancelingTimers q")
    case True
    let ?q = "q\<lparr>heap := (heap q)(snd it \<mapsto> Timer_restart now t)\<rparr>"
    from Cons.prems t True obtain b q2 where q2: "tq_insert (snd it) ?q = Inr (b, q2)" "reset_loop now its q2 = Inr q'"
      by (auto simp: and_then_eq_Inr deref_def)
    obtain ys act2 where q2': "q2 = ?q\<lparr>timers := ys, activeTimers := act2\<rparr>" using insert_frame [OF q2(1)] by blast
    obtain xs h act where r: "q' = q2\<lparr>timers := xs, heap := h, activeTimers := act\<rparr>" "keeps q2 its h" using Cons.IH [OF q2(2)] by blast
    have "keeps q (it # its) h" using r(2) t True unfolding keeps_def q2'
      by (simp add: Timer_restart_def split: if_splits) (metis option.inject)
    then show ?thesis using r(1) q2' by (intro exI [of _ xs] exI [of _ h] exI [of _ act]) simp
  next
    case False
    let ?q = "q\<lparr>heap := (heap q)(snd it := None)\<rparr>"
    have "reset_loop now its ?q = Inr q'" using Cons.prems t False by (auto simp: deref_def)
    from Cons.IH [OF this] obtain xs h act where r: "q' = ?q\<lparr>timers := xs, heap := h, activeTimers := act\<rparr>" "keeps ?q its h" by blast
    have "keeps q (it # its) h" using r(2) unfolding keeps_def by (simp split: if_splits) (metis option.distinct(1))
    then show ?thesis using r(1) by (intro exI [of _ xs] exI [of _ h] exI [of _ act]) simp
  qed
qed

lemma finish_frame:
  assumes "handleRead_finish now q = Inr q'"
  shows "\<exists>xs h act w. q' = q\<lparr>callingExpiredTimers := False, timers := xs, heap := h, activeTimers := act, armed := w, expired_all := []\<rparr>
    \<and> keeps q (expired_all q) h"
proof -
  have k: "keeps (q\<lparr>callingExpiredTimers := False\<rparr>) its h = keeps q its h" for its h by (simp add: keeps_def)
  from assms obtain q1 where r: "reset_loop (expired_at q) (expired_all q) (q\<lparr>callingExpiredTimers := False\<rparr>) = Inr q1"
    by (auto simp: handleRead_finish_def tq_reset_def and_then_eq_Inr)
  have q1: "\<exists>w. q' = q1\<lparr>armed := w, expired_all := []\<rparr>"
  proof (cases "timers q1")
    case Nil
    then show ?thesis using assms r by (intro exI [of _ "armed q1"]) (simp add: handleRead_finish_def tq_reset_def)
  next
    case (Cons e es)
    then obtain t where "deref (snd e) q1 = Inr t" using assms r by (auto simp: handleRead_finish_def tq_reset_def and_then_eq_Inr)
    then show ?thesis using assms r Cons
      by (cases "0 < t_expiration t") (auto simp: handleRead_finish_def tq_reset_def resetTimerfd_def intro: exI [of _ "armed q1"])
  qed
  from reset_frame [OF r] q1 show ?thesis unfolding k by fastforce
qed

section \<open>Timers run when they are due\<close>

definition not_early :: "TimerQueue \<Rightarrow> bool" where
  "not_early q \<longleftrightarrow> (\<forall>x\<in>set (expired_left q). fst x \<le> expired_at q) \<and> (\<forall>(s, due, at)\<in>set (fired q). due \<le> at)"

text \<open>The fields on which firing depends, for each event.\<close>

lemma functor_frame:
  assumes "tq_run_functor now q = Inr q'"
  shows "\<exists>xs h act c w fs. q' = q\<lparr>timers := xs, heap := h, activeTimers := act, cancelingTimers := c, armed := w, tq_pending := fs\<rparr>
    \<and> keeps q [] h \<and> cancelingTimers q \<subseteq> c"
proof (cases "tq_pending q")
  case Nil
  then show ?thesis using assms
    by (intro exI [of _ "timers q"] exI [of _ "heap q"] exI [of _ "activeTimers q"] exI [of _ "cancelingTimers q"]
        exI [of _ "armed q"] exI [of _ "tq_pending q"]) (simp add: tq_run_functor_def keeps_def)
next
  case (Cons f fs)
  show ?thesis
  proof (cases f)
    case (AddInLoop a)
    then obtain xs act w where "q' = q\<lparr>tq_pending := fs, timers := xs, activeTimers := act, armed := w\<rparr>"
      using assms Cons by (auto simp: tq_run_functor_def dest: add_frame)
    then show ?thesis
      by (intro exI [of _ xs] exI [of _ "heap q"] exI [of _ act] exI [of _ "cancelingTimers q"] exI [of _ w] exI [of _ fs])
        (simp add: keeps_def)
  next
    case (CancelInLoop i)
    have k: "keeps (q\<lparr>tq_pending := fs\<rparr>) its h = keeps q its h" for its h by (simp add: keeps_def)
    obtain xs h act c where "q' = q\<lparr>tq_pending := fs, timers := xs, heap := h, activeTimers := act, cancelingTimers := c\<rparr>"
      "keeps q [] h" "cancelingTimers q \<subseteq> c"
      using assms Cons CancelInLoop cancel_frame [of i "q\<lparr>tq_pending := fs\<rparr>" q'] unfolding k by (auto simp: tq_run_functor_def)
    then show ?thesis
      by (intro exI [of _ xs] exI [of _ h] exI [of _ act] exI [of _ c] exI [of _ "armed q"] exI [of _ fs]) simp
  qed
qed

lemma run_timer_frame:
  assumes "run_timer q = Inr q'" "expired_left q = it # its"
  shows "\<exists>t. heap q (snd it) = Some t \<and> q' = q\<lparr>expired_left := its, fired := fired q @ [(t_sequence t, t_expiration t, expired_at q)]\<rparr>"
  using assms by (auto simp: run_timer_def and_then_eq_Inr deref_def split: option.splits)

lemma not_early_cong:
  "expired_left q' = expired_left q \<Longrightarrow> expired_at q' = expired_at q \<Longrightarrow> fired q' = fired q \<Longrightarrow> not_early q \<Longrightarrow> not_early q'"
  by (simp add: not_early_def)

lemma not_early_step:
  assumes "tq_inv q" "not_early q" "tq_enabled e q" "tq_do e q = Inr q'"
  shows "not_early q'"
proof (cases e)
  case (LoopAdd a expire interval rep now)
  then show ?thesis using assms(4) by (intro not_early_cong [OF _ _ _ assms(2)]) (auto dest!: add_frame simp: new_timer_def Let_def)
next
  case (OtherAdd a expire interval rep)
  then show ?thesis using assms(4) by (intro not_early_cong [OF _ _ _ assms(2)]) (auto simp: new_timer_def Let_def)
next
  case (LoopCancel i)
  then show ?thesis using assms(4) by (intro not_early_cong [OF _ _ _ assms(2)]) (auto dest!: cancel_frame)
next
  case (OtherCancel i)
  then show ?thesis using assms(4) by (intro not_early_cong [OF _ _ _ assms(2)]) (auto)
next
  case (RunFunctor now)
  then show ?thesis using assms(4) by (intro not_early_cong [OF _ _ _ assms(2)]) (auto dest!: functor_frame)
next
  case (Alarm now)
  then obtain xs act ex where "q' = q\<lparr>tq_clock := now, armed := None, timers := xs, activeTimers := act, callingExpiredTimers := True,
      cancelingTimers := {}, expired_left := ex, expired_all := ex, expired_at := now\<rparr>" "\<forall>x\<in>set ex. fst x \<le> now"
    using assms(4) start_frame [of now "q\<lparr>tq_clock := now\<rparr>" q'] by auto
  then show ?thesis using assms(2) by (simp add: not_early_def)
next
  case RunTimer
  then obtain it its where l: "expired_left q = it # its" using assms(3) by (cases "expired_left q") auto
  then obtain t where t: "heap q (snd it) = Some t"
    "q' = q\<lparr>expired_left := its, fired := fired q @ [(t_sequence t, t_expiration t, expired_at q)]\<rparr>"
    using run_timer_frame [OF _ l, of q'] assms(4) RunTimer by auto
  have "entry_ok (heap q) it" using assms(1) l by (auto simp: tq_inv_def places_def)
  then have "t_expiration t = fst it" using t(1) by (cases it) (simp add: entry_ok_def)
  then show ?thesis using assms(2) l t(2) by (auto simp: not_early_def)
next
  case (Finish now)
  then show ?thesis using assms(4) by (intro not_early_cong [OF _ _ _ assms(2)]) (auto dest!: finish_frame)
qed

lemma reach_not_early: "tq_reach q \<Longrightarrow> not_early q"
proof (induction rule: tq_reach.induct)
  case tq_init
  show ?case by (simp add: not_early_def newTimerQueue_def)
next
  case (tq_step q e q')
  then show ?case using not_early_step [OF reach_inv] by blast
qed

section \<open>Cancelled timers\<close>

inductive tq_steps :: "TimerQueue \<Rightarrow> TimerQueue \<Rightarrow> bool" where
  steps_refl: "tq_steps q q"
| steps_step: "tq_steps q q1 \<Longrightarrow> tq_enabled e q1 \<Longrightarrow> tq_do e q1 = Inr q2 \<Longrightarrow> tq_steps q q2"

text \<open>
  The timer \<open>s\<close>, if it is still there, is one whose callbacks are being called, marked as cancelled; it can still be called
  only if \<open>later\<close> holds.
\<close>

definition stopped :: "bool \<Rightarrow> nat \<Rightarrow> int \<Rightarrow> TimerQueue \<Rightarrow> bool" where
  "stopped later a s q \<longleftrightarrow> s \<le> s_numCreated q \<and> (\<forall>b t. heap q b = Some t \<longrightarrow> t_sequence t = s \<longrightarrow>
     b = a \<and> callingExpiredTimers q \<and> a \<in> snd ` set (expired_all q) \<and> (a, s) \<in> cancelingTimers q
     \<and> (a \<in> snd ` set (expired_left q) \<longrightarrow> later))"

lemma stopped_keeps:
  assumes "stopped later a s q" "keeps q [] h" "cancelingTimers q \<subseteq> c"
  shows "stopped later a s (q\<lparr>timers := xs, heap := h, activeTimers := act, cancelingTimers := c\<rparr>)"
proof -
  have "b = a \<and> callingExpiredTimers q \<and> a \<in> snd ` set (expired_all q) \<and> (a, s) \<in> c \<and> (a \<in> snd ` set (expired_left q) \<longrightarrow> later)"
    if u: "h b = Some u" "t_sequence u = s" for b u
  proof -
    obtain t where "heap q b = Some t" "t_sequence t = s" using assms(2) u unfolding keeps_def by blast
    then show ?thesis using assms(1,3) unfolding stopped_def by blast
  qed
  then show ?thesis using assms(1) by (simp add: stopped_def) blast
qed

lemma stopped_cong:
  "heap q' = heap q \<Longrightarrow> s_numCreated q' = s_numCreated q \<Longrightarrow> callingExpiredTimers q' = callingExpiredTimers q \<Longrightarrow>
   expired_all q' = expired_all q \<Longrightarrow> cancelingTimers q' = cancelingTimers q \<Longrightarrow> expired_left q' = expired_left q \<Longrightarrow>
   stopped later a s q \<Longrightarrow> stopped later a s q'"
  by (simp add: stopped_def) blast

lemma stopped_gone: "s \<le> s_numCreated q \<Longrightarrow> (\<And>b t. heap q b = Some t \<Longrightarrow> t_sequence t \<noteq> s) \<Longrightarrow> stopped later a s q"
  by (auto simp: stopped_def)

lemma stopped_new: "stopped later a s q \<Longrightarrow> stopped later a s (new_timer b expire interval rep q)"
  by (auto simp: stopped_def new_timer_def Let_def split: if_splits)

lemma stopped_step:
  assumes "stopped later a s q" "tq_enabled e q" "tq_do e q = Inr q'"
  shows "stopped later a s q'"
proof (cases e)
  case (LoopAdd b expire interval rep now)
  then show ?thesis using assms(3)
    by (intro stopped_cong [OF _ _ _ _ _ _ stopped_new [OF assms(1), of b expire interval rep]]) (auto dest!: add_frame)
next
  case (OtherAdd b expire interval rep)
  then show ?thesis using assms(3)
    by (intro stopped_cong [OF _ _ _ _ _ _ stopped_new [OF assms(1), of b expire interval rep]]) auto
next
  case (LoopCancel i)
  then show ?thesis using assms(3) stopped_keeps [OF assms(1)] by (auto dest!: cancel_frame)
next
  case (OtherCancel i)
  then show ?thesis using assms(3) by (intro stopped_cong [OF _ _ _ _ _ _ assms(1)]) auto
next
  case (RunFunctor now)
  have k: "keeps (q\<lparr>tq_clock := now\<rparr>) its h = keeps q its h" for its h by (simp add: keeps_def)
  obtain xs h act c w fs where f: "q' = q\<lparr>tq_clock := now, timers := xs, heap := h, activeTimers := act, cancelingTimers := c, armed := w,
      tq_pending := fs\<rparr>" "keeps q [] h" "cancelingTimers q \<subseteq> c"
    using RunFunctor assms(3) functor_frame [of now "q\<lparr>tq_clock := now\<rparr>" q'] unfolding k by auto
  show ?thesis using f(1) by (intro stopped_cong [OF _ _ _ _ _ _ stopped_keeps [OF assms(1) f(2,3)]]) simp_all
next
  case (Alarm now)
  then have "\<not> callingExpiredTimers q" using assms(2) by simp
  then have gone: "t_sequence t \<noteq> s" if "heap q b = Some t" for b t using assms(1) that unfolding stopped_def by blast
  have "heap q' = heap q" "s_numCreated q' = s_numCreated q" using Alarm assms(3) by (auto dest!: start_frame)
  then show ?thesis using gone assms(1) by (intro stopped_gone) (simp_all add: stopped_def)
next
  case RunTimer
  then obtain it its where l: "expired_left q = it # its" using assms(2) by (cases "expired_left q") auto
  then obtain f where "q' = q\<lparr>expired_left := its, fired := f\<rparr>" using run_timer_frame [OF _ l, of q'] assms(3) RunTimer by auto
  then show ?thesis using assms(1) l by (auto simp: stopped_def)
next
  case (Finish now)
  have k: "keeps (q\<lparr>tq_clock := now\<rparr>) its h = keeps q its h" for its h by (simp add: keeps_def)
  obtain xs h act w where f: "q' = q\<lparr>tq_clock := now, callingExpiredTimers := False, timers := xs, heap := h, activeTimers := act,
      armed := w, expired_all := []\<rparr>" "keeps q (expired_all q) h"
    using Finish assms(3) finish_frame [of now "q\<lparr>tq_clock := now\<rparr>" q'] unfolding k by auto
  have "t_sequence u \<noteq> s" if u: "h b = Some u" for b u
  proof
    assume "t_sequence u = s"
    then obtain t where "heap q b = Some t" "t_sequence t = s" "b \<in> snd ` set (expired_all q) \<longrightarrow> (b, s) \<notin> cancelingTimers q"
      using f(2) u unfolding keeps_def by blast
    then show False using assms(1) unfolding stopped_def by blast
  qed
  then show ?thesis using f(1) assms(1) by (intro stopped_gone) (simp_all add: stopped_def)
qed

lemma stopped_fired:
  assumes "stopped later a s q" "tq_enabled e q" "tq_do e q = Inr q'"
  shows "\<exists>zs. fired q' = fired q @ zs \<and> (s \<in> fst ` set zs \<longrightarrow> later)"
proof (cases "e = RunTimer")
  case True
  then obtain it its where l: "expired_left q = it # its" using assms(2) by (cases "expired_left q") auto
  then obtain t where t: "heap q (snd it) = Some t"
    "q' = q\<lparr>expired_left := its, fired := fired q @ [(t_sequence t, t_expiration t, expired_at q)]\<rparr>"
    using run_timer_frame [OF _ l, of q'] assms(3) True by auto
  have "later" if "t_sequence t = s" using assms(1) t(1) that l unfolding stopped_def by auto
  then show ?thesis using t(2) by auto
next
  case False
  then have "fired q' = fired q" using assms(3)
    by (cases e) (auto simp: new_timer_def Let_def dest!: add_frame cancel_frame functor_frame start_frame finish_frame)
  then show ?thesis by simp
qed

lemma stopped_steps:
  "tq_steps q q' \<Longrightarrow> stopped later a s q \<Longrightarrow> stopped later a s q' \<and> (\<exists>zs. fired q' = fired q @ zs \<and> (s \<in> fst ` set zs \<longrightarrow> later))"
proof (induction rule: tq_steps.induct)
  case (steps_step q q1 e q2)
  then obtain zs where z: "stopped later a s q1" "fired q1 = fired q @ zs" "s \<in> fst ` set zs \<longrightarrow> later" by blast
  obtain zs' where "fired q2 = fired q1 @ zs'" "s \<in> fst ` set zs' \<longrightarrow> later" using stopped_fired [OF z(1) steps_step.hyps(2,3)] by blast
  then have "fired q2 = fired q @ (zs @ zs')" "s \<in> fst ` set (zs @ zs') \<longrightarrow> later" using z(2,3) by auto
  then show ?case using stopped_step [OF z(1) steps_step.hyps(2,3)] by blast
qed simp

lemma cancel_stops:
  assumes "tq_inv q" "heap q a = Some t" "a \<in> snd ` set (timers q) \<union> snd ` set (expired_all q)"
    "cancelInLoop (a, t_sequence t) q = Inr q1"
  shows "stopped (a \<in> snd ` set (expired_left q)) a (t_sequence t) q1 \<and> fired q1 = fired q"
proof -
  have inv: "core q" "heap_ok q" "places q" using assms(1) by (simp_all add: tq_inv_def)
  have uniq: "b = a" if "heap q b = Some u" "t_sequence u = t_sequence t" for b u
    using inv(2) that assms(2) unfolding heap_ok_def by blast
  have num: "t_sequence t \<le> s_numCreated q" using inv(2) assms(2) by (simp add: heap_ok_def)
  show ?thesis
  proof (cases "a \<in> snd ` set (timers q)")
    case True
    then have "(a, t_sequence t) \<in> activeTimers q" using inv(1) assms(2) by (force simp: core_def active_of_def)
    then have "heap q1 = (heap q)(a := None)" "s_numCreated q1 = s_numCreated q" "fired q1 = fired q"
      using assms(4) by (auto simp: cancelInLoop_def and_then_eq_Inr cpp_assert_eq_Inr)
    then show ?thesis using num uniq by (auto intro!: stopped_gone split: if_splits)
  next
    case False
    then have ex: "a \<in> snd ` set (expired_all q)" using assms(3) by blast
    then have calling: "callingExpiredTimers q" using inv(3) by (auto simp: places_def)
    have "(a, t_sequence t) \<notin> activeTimers q" using inv(1) False by (auto simp: core_def dest: active_addr)
    then have "q1 = q\<lparr>cancelingTimers := insert (a, t_sequence t) (cancelingTimers q)\<rparr>"
      using assms(4) calling by (auto simp: cancelInLoop_def and_then_eq_Inr cpp_assert_eq_Inr)
    then show ?thesis using num uniq ex calling by (simp add: stopped_def) blast
  qed
qed

section \<open>Properties\<close>

text \<open>A timer due at 50, once and a second one due at the same time; the alarm comes at 60.\<close>

definition sample_timer :: "int \<Rightarrow> Timer" where
  "sample_timer s = \<lparr>t_expiration = 50, t_interval = 0, t_repeat = False, t_sequence = s\<rparr>"

definition one_timer :: TimerQueue where
  "one_timer = newTimerQueue\<lparr>heap := [1000 \<mapsto> sample_timer 1], s_numCreated := 1, timers := [(50, 1000)],
     activeTimers := {(1000, 1)}, armed := Some 101\<rparr>"

definition two_timers :: TimerQueue where
  "two_timers = one_timer\<lparr>heap := [1000 \<mapsto> sample_timer 1, 2000 \<mapsto> sample_timer 2], s_numCreated := 2, timers := [(50, 1000), (50, 2000)],
     activeTimers := {(1000, 1), (2000, 2)}\<rparr>"

definition two_called :: TimerQueue where
  "two_called = two_timers\<lparr>timers := [], activeTimers := {}, armed := None, callingExpiredTimers := True,
     expired_left := [(50, 1000), (50, 2000)], expired_all := [(50, 1000), (50, 2000)], expired_at := 60, tq_clock := 60\<rparr>"

definition first_ran :: TimerQueue where
  "first_ran = two_called\<lparr>expired_left := [(50, 2000)], fired := [(1, 50, 60)]\<rparr>"

lemmas sample_defs = newTimerQueue_def sample_timer_def one_timer_def two_timers_def two_called_def first_ran_def

lemma one_added: "tq_do (LoopAdd 1000 50 0 False 1) newTimerQueue = Inr one_timer"
  by (simp add: sample_defs new_timer_def Let_def addTimerInLoop_def tq_insert_def deref_def sizes_agree_def resetTimerfd_def)

lemma two_added: "tq_do (LoopAdd 2000 50 0 False 1) one_timer = Inr two_timers"
  by (auto simp: sample_defs new_timer_def Let_def addTimerInLoop_def tq_insert_def deref_def sizes_agree_def resetTimerfd_def
      less_eq_prod_def)

lemma one_reached: "tq_reach one_timer"
  by (rule tq_step [OF tq_init _ one_added]) (simp add: newTimerQueue_def UINTPTR_MAX_def)

lemma two_reached: "tq_reach two_timers"
  by (rule tq_step [OF one_reached _ two_added]) (simp add: sample_defs UINTPTR_MAX_def)

lemma both_called: "tq_do (Alarm 60) two_timers = Inr two_called"
proof -
  have "{(1000, 1), (2000, 2)} - {(1000 :: nat, 1 :: int)} - {(2000, 2)} = {}" by auto
  then show ?thesis
    by (simp add: sample_defs handleRead_start_def getExpired_def Let_def deref_def sizes_agree_def less_prod_def UINTPTR_MAX_def
        insert_Diff_if)
qed

lemma first_called: "tq_do RunTimer two_called = Inr first_ran"
  by (simp add: sample_defs run_timer_def deref_def)

lemma first_ran_reached: "tq_reach first_ran"
proof -
  have "tq_reach two_called" by (rule tq_step [OF two_reached _ both_called]) (simp add: sample_defs)
  then show ?thesis by (rule tq_step [OF _ _ first_called]) (simp add: sample_defs)
qed



text \<open>
  C32: No timer ever runs before it is due. While the queue holds timers and is not calling back, the timerfd is set, to at most the
  later of the first due time and 100 microseconds from the last time seen. When it fires, exactly the timers that are due are
  called back, in the order in which they are due.
\<close>

theorem timers_fire_when_due:
  assumes "tq_reach q" "\<not> callingExpiredTimers q" "tq_clock q \<le> now"
  shows "(\<forall>(s, due, at)\<in>set (fired q). due \<le> at)
    \<and> (timers q \<noteq> [] \<longrightarrow> (\<exists>w. armed q = Some w \<and> w \<le> max (fst (hd (timers q))) (tq_clock q + 100)))
    \<and> (\<exists>q'. tq_do (Alarm now) q = Inr q' \<and> expired_left q' = filter (\<lambda>x. fst x \<le> now) (timers q) \<and> heap q' = heap q)"
proof (intro conjI)
  show "\<forall>(s, due, at)\<in>set (fired q). due \<le> at" using reach_not_early [OF assms(1)] by (simp add: not_early_def)
  show "timers q \<noteq> [] \<longrightarrow> (\<exists>w. armed q = Some w \<and> w \<le> max (fst (hd (timers q))) (tq_clock q + 100))"
    using reach_inv [OF assms(1)] assms(2) by (simp add: tq_inv_def times_ok_def)
  show "\<exists>q'. tq_do (Alarm now) q = Inr q' \<and> expired_left q' = filter (\<lambda>x. fst x \<le> now) (timers q) \<and> heap q' = heap q"
    using alarm_ok [OF inv_clock [OF reach_inv [OF assms(1)] assms(3)]] assms(2) by auto
qed

theorem timers_fire_when_due_witness:
  "(\<exists>w. armed two_timers = Some w \<and> w \<le> 101)
    \<and> (\<exists>q'. tq_do (Alarm 60) two_timers = Inr q' \<and> expired_left q' = [(50, 1000), (50, 2000)] \<and> heap q' = heap two_timers)"
  using timers_fire_when_due [OF two_reached, of 60] by (simp add: sample_defs)

text \<open>
  C33: Once a timer in the queue or being called back has been cancelled, it never runs again, except for a callback it may
  still wait for when it fell due together with the timer whose callback cancels it; when no callbacks are running it is gone.
\<close>

theorem cancelled_timer_stops:
  assumes "tq_reach q" "heap q a = Some t" "a \<in> snd ` set (timers q) \<union> snd ` set (expired_all q)"
    "tq_do (LoopCancel (a, t_sequence t)) q = Inr q1" "tq_steps q1 q2"
  shows "(\<exists>zs. fired q2 = fired q @ zs \<and> (a \<notin> snd ` set (expired_left q) \<longrightarrow> t_sequence t \<notin> fst ` set zs))
    \<and> (\<not> callingExpiredTimers q2 \<longrightarrow> (\<forall>b u. heap q2 b = Some u \<longrightarrow> t_sequence u \<noteq> t_sequence t))"
proof -
  have c: "stopped (a \<in> snd ` set (expired_left q)) a (t_sequence t) q1" "fired q1 = fired q"
    using cancel_stops [OF reach_inv [OF assms(1)] assms(2,3)] assms(4) by simp_all
  from stopped_steps [OF assms(5) c(1)] obtain zs where st: "stopped (a \<in> snd ` set (expired_left q)) a (t_sequence t) q2"
    and zs: "fired q2 = fired q1 @ zs" "t_sequence t \<in> fst ` set zs \<longrightarrow> a \<in> snd ` set (expired_left q)" by blast
  have "t_sequence u \<noteq> t_sequence t" if "\<not> callingExpiredTimers q2" "heap q2 b = Some u" for b u
    using st that unfolding stopped_def by blast
  then show ?thesis using zs c(2) by auto
qed

theorem cancelled_timer_stops_witness:
  "\<exists>q1. tq_do (LoopCancel (1000, 1)) one_timer = Inr q1 \<and> \<not> (\<exists>b u. heap q1 b = Some u \<and> t_sequence u = 1)"
proof -
  have h: "heap one_timer 1000 = Some (sample_timer 1)" "1000 \<in> snd ` set (timers one_timer) \<union> snd ` set (expired_all one_timer)"
    "t_sequence (sample_timer 1) = 1" by (simp_all add: sample_defs)
  obtain q1 where q1: "tq_do (LoopCancel (1000, 1)) one_timer = Inr q1" using tq_step_ok [OF reach_inv [OF one_reached], of "LoopCancel (1000, 1)"] by auto
  have "\<not> callingExpiredTimers q1" using q1 by (auto dest!: cancel_frame simp: sample_defs)
  moreover have "tq_do (LoopCancel (1000, t_sequence (sample_timer 1))) one_timer = Inr q1" using q1 unfolding h(3) .
  ultimately have "\<forall>b u. heap q1 b = Some u \<longrightarrow> t_sequence u \<noteq> 1"
    using cancelled_timer_stops [OF one_reached h(1,2) _ steps_refl, of q1] unfolding h(3) by blast
  then show ?thesis using q1 by blast
qed

text \<open>The exception: a callback that cancels a timer that is due in the same round does not keep it from running.\<close>

theorem cancel_in_same_round_late:
  "\<exists>q q1 q2. tq_reach q \<and> tq_do (LoopCancel (2000, 2)) q = Inr q1 \<and> tq_do RunTimer q1 = Inr q2 \<and> fired q2 = fired q @ [(2, 50, 60)]"
proof -
  let ?q1 = "first_ran\<lparr>cancelingTimers := {(2000, 2)}\<rparr>"
  have "tq_do (LoopCancel (2000, 2)) first_ran = Inr ?q1" by (simp add: sample_defs cancelInLoop_def sizes_agree_def)
  moreover have "tq_do RunTimer ?q1 = Inr (?q1\<lparr>expired_left := [], fired := [(1, 50, 60), (2, 50, 60)]\<rparr>)"
    by (simp add: sample_defs run_timer_def deref_def)
  ultimately show ?thesis using first_ran_reached
    by (intro exI [of _ first_ran] exI [of _ ?q1] exI [of _ "?q1\<lparr>expired_left := [], fired := [(1, 50, 60), (2, 50, 60)]\<rparr>"])
      (simp add: first_ran_def)
qed

end
