(* ===== verification/EventLoop.thy ===== *)
theory EventLoop
  imports ChatPrelude
begin

text \<open>
  The event loop of \<^verbatim>\<open>muduo/net/EventLoop.cc\<close>: its thread, which polls, handles events and runs queued functors, and other
  threads, which queue functors and ask it to quit. A functor is known by a number. What another thread does under the mutex
  and its write to the eventfd are two steps, between which the loop may run. The eventfd is its counter.
\<close>

section \<open>State\<close>

text \<open>Where the thread of the loop is; \<open>Handling w\<close> says whether the wake-up channel is still to be handled.\<close>

datatype loop_pos = Outside | AtWhile | Polling | Handling bool | RunningFunctors

text \<open>
  \<open>functors\<close> is the local variable of \<^verbatim>\<open>doPendingFunctors\<close>, \<open>wakers\<close> counts the threads about to call \<^verbatim>\<open>wakeup\<close>. For the
  statements: the functors queued, run from the queue and run at once so far, and whether the loop's own thread queued one outside of \<^verbatim>\<open>loop\<close> that has
  not been taken yet.
\<close>

record EventLoop =
  looping :: bool
  el_quit :: bool
  eventHandling :: bool
  callingPendingFunctors :: bool
  pendingFunctors :: "nat list"
  wakeupFd :: nat
  el_pos :: loop_pos
  functors :: "nat list"
  wakers :: nat
  el_queued :: "nat list"
  el_ran :: "nat list"
  ran_inline :: "nat list"
  queued_outside :: bool

definition newEventLoop :: EventLoop where
  "newEventLoop =
     \<lparr>looping = False, el_quit = False, eventHandling = False, callingPendingFunctors = False, pendingFunctors = [], wakeupFd = 0,
      el_pos = Outside, functors = [], wakers = 0, el_queued = [], el_ran = [], ran_inline = [], queued_outside = False\<rparr>"

section \<open>Operations\<close>

text \<open>A write that would overflow the counter fails and leaves it.\<close>

definition wakeup :: "EventLoop \<Rightarrow> EventLoop" where
  "wakeup l = (if wakeupFd l < 2 ^ 64 - 2 then l\<lparr>wakeupFd := wakeupFd l + 1\<rparr> else l)"

definition loop_handleRead :: "EventLoop \<Rightarrow> EventLoop" where
  "loop_handleRead l = l\<lparr>wakeupFd := 0\<rparr>"

definition push_functor :: "nat \<Rightarrow> EventLoop \<Rightarrow> EventLoop" where
  "push_functor f l = l\<lparr>pendingFunctors := pendingFunctors l @ [f], el_queued := el_queued l @ [f]\<rparr>"

text \<open>Another thread has its call of \<^verbatim>\<open>wakeup\<close> still before it.\<close>

definition then_wakeup :: "bool \<Rightarrow> EventLoop \<Rightarrow> EventLoop" where
  "then_wakeup isInLoopThread l = (if isInLoopThread then wakeup l else l\<lparr>wakers := wakers l + 1\<rparr>)"

definition el_queueInLoop :: "bool \<Rightarrow> nat \<Rightarrow> EventLoop \<Rightarrow> EventLoop" where
  "el_queueInLoop isInLoopThread f l =
     (let l = push_functor f l in
      if \<not> isInLoopThread \<or> callingPendingFunctors l then then_wakeup isInLoopThread l
      else l\<lparr>queued_outside := (queued_outside l \<or> el_pos l = Outside)\<rparr>)"

definition runInLoop :: "bool \<Rightarrow> nat \<Rightarrow> EventLoop \<Rightarrow> EventLoop" where
  "runInLoop isInLoopThread f l = (if isInLoopThread then l\<lparr>ran_inline := ran_inline l @ [f]\<rparr> else el_queueInLoop isInLoopThread f l)"

definition quit :: "bool \<Rightarrow> EventLoop \<Rightarrow> EventLoop" where
  "quit isInLoopThread l =
     (let l = l\<lparr>el_quit := True\<rparr> in if \<not> isInLoopThread then then_wakeup isInLoopThread l else l)"

text \<open>The statements of \<^verbatim>\<open>loop\<close>: its beginning, the test, the return of \<^verbatim>\<open>poll\<close>, and the end of the event handlers.\<close>

definition loop_begin :: "EventLoop \<Rightarrow> EventLoop res" where
  "loop_begin l = cpp_assert (\<not> looping l) (Inr (l\<lparr>looping := True, el_quit := False, el_pos := AtWhile\<rparr>))"

definition loop_test :: "EventLoop \<Rightarrow> EventLoop" where
  "loop_test l = (if el_quit l then l\<lparr>looping := False, el_pos := Outside\<rparr> else l\<lparr>el_pos := Polling\<rparr>)"

definition poll_returns :: "bool \<Rightarrow> EventLoop \<Rightarrow> EventLoop" where
  "poll_returns woken l = l\<lparr>eventHandling := True, el_pos := Handling woken\<rparr>"

definition handle_wakeup :: "EventLoop \<Rightarrow> EventLoop" where
  "handle_wakeup l = (loop_handleRead l)\<lparr>el_pos := Handling False\<rparr>"

text \<open>\<^verbatim>\<open>doPendingFunctors\<close> up to the swap, one functor, and its end.\<close>

definition take_functors :: "EventLoop \<Rightarrow> EventLoop" where
  "take_functors l =
     l\<lparr>eventHandling := False, callingPendingFunctors := True, functors := pendingFunctors l, pendingFunctors := [],
       queued_outside := False, el_pos := RunningFunctors\<rparr>"

definition next_functor :: "EventLoop \<Rightarrow> EventLoop" where
  "next_functor l =
     (case functors l of
        [] \<Rightarrow> l\<lparr>callingPendingFunctors := False, el_pos := AtWhile\<rparr>
      | f # fs \<Rightarrow> l\<lparr>functors := fs, el_ran := el_ran l @ [f]\<rparr>)"

section \<open>Events\<close>

datatype el_event =
    CallLoop
  | TestQuit
  | PollReturns bool
  | HandleWakeup
  | HandlersDone
  | NextFunctor
  | OwnQueue nat
  | OwnQuit
  | OwnRun nat
  | OtherQueue nat
  | OtherRun nat
  | OtherQuit
  | OtherWakeup

fun el_do :: "el_event \<Rightarrow> EventLoop \<Rightarrow> EventLoop res" where
  "el_do CallLoop l = loop_begin l"
| "el_do TestQuit l = Inr (loop_test l)"
| "el_do (PollReturns woken) l = Inr (poll_returns woken l)"
| "el_do HandleWakeup l = Inr (handle_wakeup l)"
| "el_do HandlersDone l = Inr (take_functors l)"
| "el_do NextFunctor l = Inr (next_functor l)"
| "el_do (OwnQueue f) l = Inr (el_queueInLoop True f l)"
| "el_do (OwnRun f) l = Inr (runInLoop True f l)"
| "el_do (OtherRun f) l = Inr (runInLoop False f l)"
| "el_do OwnQuit l = Inr (quit True l)"
| "el_do (OtherQueue f) l = Inr (el_queueInLoop False f l)"
| "el_do OtherQuit l = Inr (quit False l)"
| "el_do OtherWakeup l = Inr (wakeup (l\<lparr>wakers := wakers l - 1\<rparr>))"

text \<open>
  The thread of the loop does one thing after another; it calls back, and so may queue functors or quit, outside of \<^verbatim>\<open>loop\<close>, in
  event handlers and in functors. \<^verbatim>\<open>poll\<close> reports the wake-up channel only when the eventfd is readable, and may also return
  for other events, at its timeout or when interrupted.
\<close>

fun el_enabled :: "el_event \<Rightarrow> EventLoop \<Rightarrow> bool" where
  "el_enabled CallLoop l \<longleftrightarrow> el_pos l = Outside"
| "el_enabled TestQuit l \<longleftrightarrow> el_pos l = AtWhile"
| "el_enabled (PollReturns woken) l \<longleftrightarrow> el_pos l = Polling \<and> (woken \<longrightarrow> 0 < wakeupFd l)"
| "el_enabled HandleWakeup l \<longleftrightarrow> el_pos l = Handling True"
| "el_enabled HandlersDone l \<longleftrightarrow> el_pos l = Handling False"
| "el_enabled NextFunctor l \<longleftrightarrow> el_pos l = RunningFunctors"
| "el_enabled (OwnQueue f) l \<longleftrightarrow> el_pos l \<noteq> AtWhile \<and> el_pos l \<noteq> Polling"
| "el_enabled (OwnRun f) l \<longleftrightarrow> el_pos l \<noteq> AtWhile \<and> el_pos l \<noteq> Polling"
| "el_enabled (OtherRun f) l \<longleftrightarrow> True"
| "el_enabled OwnQuit l \<longleftrightarrow> el_pos l \<noteq> AtWhile \<and> el_pos l \<noteq> Polling"
| "el_enabled (OtherQueue f) l \<longleftrightarrow> True"
| "el_enabled OtherQuit l \<longleftrightarrow> True"
| "el_enabled OtherWakeup l \<longleftrightarrow> 0 < wakers l"

inductive el_reach :: "EventLoop \<Rightarrow> bool" where
  el_init: "el_reach newEventLoop"
| el_step: "el_reach l \<Longrightarrow> el_enabled e l \<Longrightarrow> el_do e l = Inr l' \<Longrightarrow> el_reach l'"

fun el_run :: "el_event list \<Rightarrow> EventLoop \<Rightarrow> EventLoop option" where
  "el_run [] l = Some l"
| "el_run (e # es) l = (if el_enabled e l then case el_do e l of Inl _ \<Rightarrow> None | Inr l' \<Rightarrow> el_run es l' else None)"

section \<open>The invariant\<close>

text \<open>A wake-up is on its way: the eventfd is readable or a thread is about to write it.\<close>

definition woken_soon :: "EventLoop \<Rightarrow> bool" where
  "woken_soon l \<longleftrightarrow> 0 < wakeupFd l \<or> 0 < wakers l"

text \<open>Before the functors are taken the thread looks at them again by itself; after that somebody has to wake it.\<close>

definition el_inv :: "EventLoop \<Rightarrow> bool" where
  "el_inv l \<longleftrightarrow> el_queued l = el_ran l @ functors l @ pendingFunctors l
     \<and> (looping l \<longleftrightarrow> el_pos l \<noteq> Outside)
     \<and> (callingPendingFunctors l \<longleftrightarrow> el_pos l = RunningFunctors)
     \<and> (functors l \<noteq> [] \<longrightarrow> el_pos l = RunningFunctors)
     \<and> (eventHandling l \<longleftrightarrow> el_pos l \<in> {Handling True, Handling False})
     \<and> (queued_outside l \<or> woken_soon l \<or> pendingFunctors l = [] \<or> el_pos l \<in> {Handling True, Handling False})
     \<and> (el_pos l = Polling \<and> el_quit l \<longrightarrow> woken_soon l)"

lemma wakeup_simps [simp]:
  "el_queued (wakeup l) = el_queued l" "el_ran (wakeup l) = el_ran l" "functors (wakeup l) = functors l"
  "pendingFunctors (wakeup l) = pendingFunctors l" "looping (wakeup l) = looping l" "el_pos (wakeup l) = el_pos l"
  "callingPendingFunctors (wakeup l) = callingPendingFunctors l" "eventHandling (wakeup l) = eventHandling l"
  "queued_outside (wakeup l) = queued_outside l" "el_quit (wakeup l) = el_quit l" "wakers (wakeup l) = wakers l"
  "0 < wakeupFd (wakeup l)"
  by (auto simp: wakeup_def)

lemmas el_defs = loop_begin_def loop_test_def poll_returns_def handle_wakeup_def loop_handleRead_def take_functors_def next_functor_def
  el_queueInLoop_def runInLoop_def push_functor_def then_wakeup_def quit_def Let_def

lemma queue_inv: "el_inv l \<Longrightarrow> el_enabled (OwnQueue f) l \<Longrightarrow> el_inv (el_queueInLoop True f l)" "el_inv l \<Longrightarrow> el_inv (el_queueInLoop False f l)"
  by (cases "el_pos l" rule: loop_pos.exhaust; auto simp: el_inv_def woken_soon_def el_defs)+

lemma el_step_inv: "el_inv l \<Longrightarrow> el_enabled e l \<Longrightarrow> \<exists>l'. el_do e l = Inr l' \<and> el_inv l'"
proof (cases e)
  case NextFunctor
  assume "el_inv l" "el_enabled e l"
  then show ?thesis using NextFunctor by (cases "functors l") (auto simp: el_inv_def next_functor_def woken_soon_def)
next
  case (OwnQueue f)
  assume "el_inv l" "el_enabled e l"
  then show ?thesis using OwnQueue queue_inv(1) by simp
next
  case (OtherQueue f)
  assume "el_inv l" "el_enabled e l"
  then show ?thesis using OtherQueue queue_inv(2) by simp
next
  case (OtherRun f)
  assume "el_inv l" "el_enabled e l"
  then show ?thesis using OtherRun queue_inv(2) by (simp add: runInLoop_def)
qed (auto simp: el_inv_def woken_soon_def el_defs)

lemma el_reach_inv: "el_reach l \<Longrightarrow> el_inv l"
proof (induction rule: el_reach.induct)
  case el_init
  show ?case by (simp add: el_inv_def newEventLoop_def)
next
  case (el_step l e l')
  then show ?case using el_step_inv [of l e] by auto
qed

lemma reach_run: "el_reach l \<Longrightarrow> el_run es l = Some l' \<Longrightarrow> el_reach l'"
  by (induction es arbitrary: l) (auto split: if_splits sum.splits intro: el_step)

section \<open>An undisturbed round\<close>

lemma run_append: "el_run (es @ es') l = (case el_run es l of None \<Rightarrow> None | Some l' \<Rightarrow> el_run es' l')"
  by (induction es arbitrary: l) (auto split: sum.splits)

lemma run_functors:
  "el_pos l = RunningFunctors \<Longrightarrow>
   el_run (replicate (Suc (length (functors l))) NextFunctor) l =
     Some (l\<lparr>functors := [], el_ran := el_ran l @ functors l, callingPendingFunctors := False, el_pos := AtWhile\<rparr>)"
proof (induction "functors l" arbitrary: l)
  case Nil
  then show ?case by (simp add: next_functor_def Nil [symmetric] del: Nil) 
next
  case (Cons f fs)
  let ?l = "l\<lparr>functors := fs, el_ran := el_ran l @ [f]\<rparr>"
  have "next_functor l = ?l" using Cons.hyps(2) by (simp add: next_functor_def Cons.hyps(2) [symmetric])
  then show ?case using Cons.hyps(1) [of ?l] Cons.prems by (simp add: Cons.hyps(2) [symmetric])
qed

text \<open>The events of one round of the loop from the return of \<^verbatim>\<open>poll\<close> to the next test.\<close>

definition round_events :: "bool \<Rightarrow> nat \<Rightarrow> el_event list" where
  "round_events woken n =
     [PollReturns woken] @ (if woken then [HandleWakeup] else []) @ [HandlersDone] @ replicate (Suc n) NextFunctor @ [TestQuit]"

lemma round_run:
  assumes "el_inv l" "el_pos l = Polling" "woken \<longrightarrow> 0 < wakeupFd l"
  shows "\<exists>l'. el_run (round_events woken (length (pendingFunctors l))) l = Some l' \<and> el_ran l' = el_queued l \<and> pendingFunctors l' = []
    \<and> el_pos l' = (if el_quit l then Outside else Polling)"
proof -
  let ?l1 = "take_functors (if woken then handle_wakeup (poll_returns woken l) else poll_returns woken l)"
  have l1: "el_pos ?l1 = RunningFunctors" "functors ?l1 = pendingFunctors l" "pendingFunctors ?l1 = []" "el_ran ?l1 = el_ran l" "el_quit ?l1 = el_quit l"
    by (simp_all add: el_defs)
  let ?l2 = "?l1\<lparr>functors := [], el_ran := el_ran l @ pendingFunctors l, callingPendingFunctors := False, el_pos := AtWhile\<rparr>"
  have r: "el_run (replicate (Suc (length (pendingFunctors l))) NextFunctor) ?l1 = Some ?l2" using run_functors [OF l1(1)] l1 by simp
  have "el_queued l = el_ran l @ pendingFunctors l" using assms(1,2) by (auto simp: el_inv_def)
  moreover have p: "el_run ([PollReturns woken] @ (if woken then [HandleWakeup] else []) @ [HandlersDone]) l = Some ?l1"
    using assms(2,3) by (cases woken) (simp_all add: poll_returns_def handle_wakeup_def loop_handleRead_def)
  have "el_run [TestQuit] ?l2 = Some (loop_test ?l2)" by simp
  then have "el_run (([PollReturns woken] @ (if woken then [HandleWakeup] else []) @ [HandlersDone])
      @ (replicate (Suc (length (pendingFunctors l))) NextFunctor @ [TestQuit])) l = Some (loop_test ?l2)"
    unfolding run_append [of "_ @ _ @ [HandlersDone]"] run_append [of "replicate _ _"] p r option.case .
  then have "el_run (round_events woken (length (pendingFunctors l))) l = Some (loop_test ?l2)" by (simp add: round_events_def)
  ultimately show ?thesis using l1(3,5) by (simp add: loop_test_def)
qed

section \<open>Properties\<close>

text \<open>
  C27: Under every interleaving of the loop's thread with others the functors run in the order in which they were queued, none is lost
  and none runs twice; no call fails the assertion that the loop does not run already.
\<close>

theorem eventloop_fifo:
  assumes "el_reach l" "el_enabled e l"
  shows "el_queued l = el_ran l @ functors l @ pendingFunctors l \<and> (\<exists>l'. el_do e l = Inr l' \<and> el_reach l')"
proof
  show "el_queued l = el_ran l @ functors l @ pendingFunctors l" using el_reach_inv [OF assms(1)] unfolding el_inv_def by blast
  show "\<exists>l'. el_do e l = Inr l' \<and> el_reach l'"
    using el_step_inv [OF el_reach_inv [OF assms(1)] assms(2)] el_step [OF assms] by blast
qed

text \<open>A loop that waits in \<^verbatim>\<open>poll\<close> while another thread has queued functor 7 but not yet written the eventfd.\<close>

definition waiting_loop :: EventLoop where
  "waiting_loop = newEventLoop\<lparr>looping := True, el_pos := Polling, pendingFunctors := [7], el_queued := [7], wakers := 1\<rparr>"

lemma waiting_reached: "el_reach waiting_loop"
proof (rule reach_run [OF el_init])
  show "el_run [CallLoop, TestQuit, OtherQueue 7] newEventLoop = Some waiting_loop"
    by (simp add: waiting_loop_def newEventLoop_def el_defs)
qed

theorem eventloop_fifo_witness:
  "el_queued waiting_loop = el_ran waiting_loop @ functors waiting_loop @ pendingFunctors waiting_loop
    \<and> (\<exists>l'. el_do OtherWakeup waiting_loop = Inr l' \<and> el_reach l')"
  by (rule eventloop_fifo [OF waiting_reached]) (simp add: waiting_loop_def)

text \<open>
  C28: No wake-up of the event loop is lost: while it waits in \<^verbatim>\<open>poll\<close>, with functors queued other than by its own thread before
  \<^verbatim>\<open>loop\<close>, or asked to quit, the eventfd is readable or a thread is about to write it. When \<^verbatim>\<open>poll\<close> returns, an undisturbed round
  runs everything that is queued and ends the loop if it was asked to quit.
\<close>

theorem eventloop_wakes_up:
  assumes "el_reach l" "el_pos l = Polling"
  shows "(pendingFunctors l \<noteq> [] \<and> \<not> queued_outside l \<or> el_quit l \<longrightarrow> 0 < wakeupFd l \<or> 0 < wakers l)
    \<and> (\<forall>woken. (woken \<longrightarrow> 0 < wakeupFd l) \<longrightarrow>
         (\<exists>l'. el_run (round_events woken (length (pendingFunctors l))) l = Some l' \<and> el_ran l' = el_queued l \<and> pendingFunctors l' = []
            \<and> el_pos l' = (if el_quit l then Outside else Polling)))"
proof -
  have "el_inv l" by (rule el_reach_inv [OF assms(1)])
  then show ?thesis using round_run [OF _ assms(2)] assms(2) unfolding el_inv_def woken_soon_def by auto
qed

theorem eventloop_wakes_up_witness:
  "\<exists>l'. el_run (round_events False 1) waiting_loop = Some l' \<and> el_ran l' = [7] \<and> pendingFunctors l' = [] \<and> el_pos l' = Polling"
  using eventloop_wakes_up [OF waiting_reached, THEN conjunct2, THEN spec [of _ False]] by (simp add: waiting_loop_def newEventLoop_def)

text \<open>
  A quit before the thread has called \<^verbatim>\<open>loop\<close> is lost: \<^verbatim>\<open>loop\<close> resets the flag, and the loop waits in \<^verbatim>\<open>poll\<close> without anybody to
  wake it. A functor its own thread queued before \<^verbatim>\<open>loop\<close> does not wake it either.
\<close>

theorem quit_before_loop_lost:
  "\<exists>l. el_run [OtherQuit, OtherWakeup, CallLoop, TestQuit, PollReturns True, HandleWakeup, HandlersDone, NextFunctor, TestQuit] newEventLoop = Some l
     \<and> el_pos l = Polling \<and> \<not> el_quit l \<and> wakeupFd l = 0 \<and> wakers l = 0"
  by (simp add: newEventLoop_def el_defs wakeup_def)

theorem queued_before_loop_waits:
  "\<exists>l. el_run [OwnQueue 7, CallLoop, TestQuit] newEventLoop = Some l
     \<and> el_pos l = Polling \<and> pendingFunctors l = [7] \<and> wakeupFd l = 0 \<and> wakers l = 0"
  by (simp add: newEventLoop_def el_defs)

end
