(* ===== verification/EpollPoller.thy ===== *)
theory EpollPoller
  imports ChatPrelude
begin

text \<open>
  Channels and the poller of an event loop: \<^verbatim>\<open>muduo/net/Channel.cc\<close>, \<^verbatim>\<open>Channel.h\<close>, \<^verbatim>\<open>poller/EPollPoller.cc\<close>, \<^verbatim>\<open>Poller.cc\<close> and
  what \<^verbatim>\<open>EventLoop.cc\<close> does with them. Channels live at addresses; the kernel holds the address of a channel from its
  registration on and hands it back with an event. The kernel's \<^verbatim>\<open>epoll_ctl\<close> is a parameter with the behaviour its manual page
  describes (\<open>epoll_laws\<close>). Everything happens in the thread of the loop.
\<close>

section \<open>State\<close>

datatype poll_error =
    PollAssert     \<comment> \<open>an \<^verbatim>\<open>assert\<close> fails\<close>
  | PollAbort      \<comment> \<open>\<^verbatim>\<open>LOG_SYSFATAL\<close>\<close>
  | FreedChannel   \<comment> \<open>a channel is used after its destruction\<close>

definition p_assert :: "bool \<Rightarrow> poll_error + 'a \<Rightarrow> poll_error + 'a" where
  "p_assert b r = (if b then r else Inl PollAssert)"

definition POLLIN :: u32 where "POLLIN = 1"
definition POLLPRI :: u32 where "POLLPRI = 2"
definition POLLOUT :: u32 where "POLLOUT = 4"
definition POLLERR :: u32 where "POLLERR = 8"
definition POLLHUP :: u32 where "POLLHUP = 16"
definition POLLNVAL :: u32 where "POLLNVAL = 32"
definition POLLRDHUP :: u32 where "POLLRDHUP = 0x2000"

definition kReadEvent :: u32 where "kReadEvent = POLLIN OR POLLPRI"
definition kWriteEvent :: u32 where "kWriteEvent = POLLOUT"

definition kNew :: int where "kNew = - 1"
definition kAdded :: int where "kAdded = 1"
definition kDeleted :: int where "kDeleted = 2"

record Channel =
  ch_fd :: int
  ch_events :: u32
  ch_revents :: u32
  ch_index :: int
  ch_handling :: bool
  ch_added :: bool

definition isNoneEvent :: "Channel \<Rightarrow> bool" where
  "isNoneEvent c \<longleftrightarrow> ch_events c = 0"

datatype channel_callback = CloseCallback | ErrorCallback | ReadCallback | WriteCallback

text \<open>
  \<open>chans\<close> are the channels that exist, \<open>channels\<close> the map of the poller, \<open>epollfd\<close> the kernel's side. \<open>todo\<close> are the active channels
  the loop has not come to yet, \<open>called\<close> records the callbacks.
\<close>

record 'k Poller =
  chans :: "nat \<rightharpoonup> Channel"
  channels :: "int \<rightharpoonup> nat"
  epollfd :: 'k
  events_size :: nat
  activeChannels :: "nat list"
  todo :: "nat list"
  currentActiveChannel :: "nat option"
  handling :: bool
  called :: "(nat \<times> channel_callback) list"

definition newPoller :: "'k \<Rightarrow> 'k Poller" where
  "newPoller k =
     \<lparr>chans = Map.empty, channels = Map.empty, epollfd = k, events_size = 16, activeChannels = [], todo = [],
      currentActiveChannel = None, handling = False, called = []\<rparr>"

datatype ctl_op = EPOLL_CTL_ADD | EPOLL_CTL_MOD | EPOLL_CTL_DEL

type_synonym 'k epoll_ctl = "ctl_op \<Rightarrow> int \<Rightarrow> u32 \<times> nat \<Rightarrow> 'k \<Rightarrow> bool \<times> 'k"

text \<open>\<^verbatim>\<open>epoll_ctl(2)\<close> on the interest list: a descriptor is added when it is not there, and changed or removed when it is.\<close>

definition epoll_laws :: "'k epoll_ctl \<Rightarrow> ('k \<Rightarrow> int \<rightharpoonup> u32 \<times> nat) \<Rightarrow> bool" where
  "epoll_laws ctl listed \<longleftrightarrow>
     (\<forall>fd ev k. listed k fd = None \<longrightarrow> fst (ctl EPOLL_CTL_ADD fd ev k) \<and> listed (snd (ctl EPOLL_CTL_ADD fd ev k)) = (listed k)(fd \<mapsto> ev)) \<and>
     (\<forall>fd ev k. listed k fd \<noteq> None \<longrightarrow> fst (ctl EPOLL_CTL_MOD fd ev k) \<and> listed (snd (ctl EPOLL_CTL_MOD fd ev k)) = (listed k)(fd \<mapsto> ev)) \<and>
     (\<forall>fd ev k. listed k fd \<noteq> None \<longrightarrow> fst (ctl EPOLL_CTL_DEL fd ev k) \<and> listed (snd (ctl EPOLL_CTL_DEL fd ev k)) = (listed k)(fd := None))"

section \<open>The poller\<close>

definition ch_at :: "nat \<Rightarrow> 'k Poller \<Rightarrow> poll_error + Channel" where
  "ch_at a p = (case chans p a of None \<Rightarrow> Inl FreedChannel | Some c \<Rightarrow> Inr c)"

definition set_ch :: "nat \<Rightarrow> Channel \<Rightarrow> 'k Poller \<Rightarrow> 'k Poller" where
  "set_ch a c p = p\<lparr>chans := (chans p)(a \<mapsto> c)\<rparr>"

definition poller_update :: "'k epoll_ctl \<Rightarrow> ctl_op \<Rightarrow> nat \<Rightarrow> 'k Poller \<Rightarrow> poll_error + 'k Poller" where
  "poller_update ctl operation a p =
     and_then (ch_at a p) (\<lambda>c.
       let (ok, k) = ctl operation (ch_fd c) (ch_events c, a) (epollfd p) in
       if \<not> ok \<and> operation \<noteq> EPOLL_CTL_DEL then Inl PollAbort else Inr (p\<lparr>epollfd := k\<rparr>))"

definition updateChannel :: "'k epoll_ctl \<Rightarrow> nat \<Rightarrow> 'k Poller \<Rightarrow> poll_error + 'k Poller" where
  "updateChannel ctl a p =
     and_then (ch_at a p) (\<lambda>c.
       let index = ch_index c; fd = ch_fd c in
       if index = kNew \<or> index = kDeleted then
         and_then
           (if index = kNew then p_assert (channels p fd = None) (Inr (p\<lparr>channels := (channels p)(fd \<mapsto> a)\<rparr>))
            else p_assert (channels p fd \<noteq> None) (p_assert (channels p fd = Some a) (Inr p)))
           (\<lambda>p. poller_update ctl EPOLL_CTL_ADD a (set_ch a (c\<lparr>ch_index := kAdded\<rparr>) p))
       else
         p_assert (channels p fd \<noteq> None) (p_assert (channels p fd = Some a) (p_assert (index = kAdded)
           (if isNoneEvent c then
              and_then (poller_update ctl EPOLL_CTL_DEL a p) (\<lambda>p. Inr (set_ch a (c\<lparr>ch_index := kDeleted\<rparr>) p))
            else poller_update ctl EPOLL_CTL_MOD a p))))"

definition removeChannel :: "'k epoll_ctl \<Rightarrow> nat \<Rightarrow> 'k Poller \<Rightarrow> poll_error + 'k Poller" where
  "removeChannel ctl a p =
     and_then (ch_at a p) (\<lambda>c.
       let index = ch_index c; fd = ch_fd c in
       p_assert (channels p fd \<noteq> None) (p_assert (channels p fd = Some a) (p_assert (isNoneEvent c)
         (p_assert (index = kAdded \<or> index = kDeleted)
           (let p = p\<lparr>channels := (channels p)(fd := None)\<rparr> in
            and_then (if index = kAdded then poller_update ctl EPOLL_CTL_DEL a p else Inr p)
              (\<lambda>p. Inr (set_ch a (c\<lparr>ch_index := kNew\<rparr>) p)))))))"

definition hasChannel :: "nat \<Rightarrow> 'k Poller \<Rightarrow> poll_error + bool" where
  "hasChannel a p = and_then (ch_at a p) (\<lambda>c. Inr (channels p (ch_fd c) = Some a))"

text \<open>What \<^verbatim>\<open>epoll_wait\<close> fills in: per event the address registered with the descriptor and the event bits.\<close>

fun fillActiveChannels :: "(nat \<times> u32) list \<Rightarrow> 'k Poller \<Rightarrow> poll_error + 'k Poller" where
  "fillActiveChannels [] p = Inr p"
| "fillActiveChannels ((a, revents) # evs) p =
     and_then (ch_at a p) (\<lambda>c.
       p_assert (channels p (ch_fd c) \<noteq> None) (p_assert (channels p (ch_fd c) = Some a)
         (fillActiveChannels evs ((set_ch a (c\<lparr>ch_revents := revents\<rparr>) p)\<lparr>activeChannels := activeChannels p @ [a]\<rparr>))))"

definition poll :: "(nat \<times> u32) list \<Rightarrow> 'k Poller \<Rightarrow> poll_error + 'k Poller" where
  "poll evs p =
     (if evs = [] then Inr p
      else p_assert (length evs \<le> events_size p)
        (and_then (fillActiveChannels evs p) (\<lambda>p.
           Inr (if length evs = events_size p then p\<lparr>events_size := events_size p * 2\<rparr> else p))))"

section \<open>Channels and the loop\<close>

datatype channel_op = EnableReading | DisableReading | EnableWriting | DisableWriting | DisableAll

fun new_events :: "channel_op \<Rightarrow> u32 \<Rightarrow> u32" where
  "new_events EnableReading ev = ev OR kReadEvent"
| "new_events DisableReading ev = ev AND NOT kReadEvent"
| "new_events EnableWriting ev = ev OR kWriteEvent"
| "new_events DisableWriting ev = ev AND NOT kWriteEvent"
| "new_events DisableAll ev = 0"

definition Channel_update :: "'k epoll_ctl \<Rightarrow> nat \<Rightarrow> 'k Poller \<Rightarrow> poll_error + 'k Poller" where
  "Channel_update ctl a p = and_then (ch_at a p) (\<lambda>c. updateChannel ctl a (set_ch a (c\<lparr>ch_added := True\<rparr>) p))"

definition Channel_change :: "'k epoll_ctl \<Rightarrow> channel_op \<Rightarrow> nat \<Rightarrow> 'k Poller \<Rightarrow> poll_error + 'k Poller" where
  "Channel_change ctl ope a p =
     and_then (ch_at a p) (\<lambda>c. Channel_update ctl a (set_ch a (c\<lparr>ch_events := new_events ope (ch_events c)\<rparr>) p))"

text \<open>\<^verbatim>\<open>EventLoop::removeChannel\<close>, then \<^verbatim>\<open>Channel::remove\<close>.\<close>

definition loop_removeChannel :: "'k epoll_ctl \<Rightarrow> nat \<Rightarrow> 'k Poller \<Rightarrow> poll_error + 'k Poller" where
  "loop_removeChannel ctl a p =
     p_assert (\<not> handling p \<or> currentActiveChannel p = Some a \<or> a \<notin> set (activeChannels p)) (removeChannel ctl a p)"

definition Channel_remove :: "'k epoll_ctl \<Rightarrow> nat \<Rightarrow> 'k Poller \<Rightarrow> poll_error + 'k Poller" where
  "Channel_remove ctl a p =
     and_then (ch_at a p) (\<lambda>c.
       p_assert (isNoneEvent c) (loop_removeChannel ctl a (set_ch a (c\<lparr>ch_added := False\<rparr>) p)))"

definition newChannel :: "nat \<Rightarrow> int \<Rightarrow> 'k Poller \<Rightarrow> 'k Poller" where
  "newChannel a fd p =
     set_ch a \<lparr>ch_fd = fd, ch_events = 0, ch_revents = 0, ch_index = kNew, ch_handling = False, ch_added = False\<rparr> p"

definition deleteChannel :: "nat \<Rightarrow> 'k Poller \<Rightarrow> poll_error + 'k Poller" where
  "deleteChannel a p =
     and_then (ch_at a p) (\<lambda>c.
       p_assert (\<not> ch_handling c) (p_assert (\<not> ch_added c)
         (and_then (hasChannel a p) (\<lambda>has. p_assert (\<not> has) (Inr (p\<lparr>chans := (chans p)(a := None)\<rparr>))))))"

text \<open>\<^verbatim>\<open>handleEventWithGuard\<close>: which callbacks the event bits ask for.\<close>

definition event_callbacks :: "u32 \<Rightarrow> channel_callback list" where
  "event_callbacks revents =
     (if revents AND POLLHUP \<noteq> 0 \<and> revents AND POLLIN = 0 then [CloseCallback] else []) @
     (if revents AND (POLLERR OR POLLNVAL) \<noteq> 0 then [ErrorCallback] else []) @
     (if revents AND (POLLIN OR POLLPRI OR POLLRDHUP) \<noteq> 0 then [ReadCallback] else []) @
     (if revents AND POLLOUT \<noteq> 0 then [WriteCallback] else [])"

text \<open>A round of \<^verbatim>\<open>loop\<close>: the return of \<^verbatim>\<open>poll\<close>, one channel's handler from beginning to end, and the end of the round.\<close>

definition round_begin :: "(nat \<times> u32) list \<Rightarrow> 'k Poller \<Rightarrow> poll_error + 'k Poller" where
  "round_begin evs p =
     and_then (poll evs (p\<lparr>activeChannels := []\<rparr>)) (\<lambda>p. Inr (p\<lparr>handling := True, todo := activeChannels p\<rparr>))"

definition handler_begin :: "'k Poller \<Rightarrow> poll_error + 'k Poller" where
  "handler_begin p =
     (case todo p of
        [] \<Rightarrow> Inr p
      | a # as \<Rightarrow> and_then (ch_at a p) (\<lambda>c.
          Inr ((set_ch a (c\<lparr>ch_handling := True\<rparr>) p)\<lparr>todo := as, currentActiveChannel := Some a,
            called := called p @ map (Pair a) (event_callbacks (ch_revents c))\<rparr>)))"

definition handler_end :: "'k Poller \<Rightarrow> poll_error + 'k Poller" where
  "handler_end p =
     (case currentActiveChannel p of
        None \<Rightarrow> Inr p
      | Some a \<Rightarrow> and_then (ch_at a p) (\<lambda>c. Inr ((set_ch a (c\<lparr>ch_handling := False\<rparr>) p)\<lparr>currentActiveChannel := None\<rparr>)))"

definition round_end :: "'k Poller \<Rightarrow> 'k Poller" where
  "round_end p = p\<lparr>handling := False\<rparr>"

section \<open>Events\<close>

datatype poller_event =
    Create nat int
  | Change channel_op nat
  | Remove nat
  | Destroy nat
  | PollReturned "(nat \<times> u32) list"
  | HandlerBegin
  | HandlerEnd
  | RoundEnd

fun po_do :: "'k epoll_ctl \<Rightarrow> poller_event \<Rightarrow> 'k Poller \<Rightarrow> poll_error + 'k Poller" where
  "po_do ctl (Create a fd) p = Inr (newChannel a fd p)"
| "po_do ctl (Change ope a) p = Channel_change ctl ope a p"
| "po_do ctl (Remove a) p = Channel_remove ctl a p"
| "po_do ctl (Destroy a) p = deleteChannel a p"
| "po_do ctl (PollReturned evs) p = round_begin evs p"
| "po_do ctl HandlerBegin p = handler_begin p"
| "po_do ctl HandlerEnd p = handler_end p"
| "po_do ctl RoundEnd p = Inr (round_end p)"

text \<open>
  What the users of channels keep to: a descriptor has one registered channel at a time; a channel is removed when it is registered
  and waits for nothing, and during a round only by its own handler or when it is not among the active ones; it is destroyed
  after it has been removed and outside of its own handler. \<^verbatim>\<open>epoll_wait\<close> reports registered descriptors, each once, at most as many
  as there is room for, with the addresses they were registered with.
\<close>

fun po_enabled :: "('k \<Rightarrow> int \<rightharpoonup> u32 \<times> nat) \<Rightarrow> poller_event \<Rightarrow> 'k Poller \<Rightarrow> bool" where
  "po_enabled listed (Create a fd) p \<longleftrightarrow> chans p a = None"
| "po_enabled listed (Change ope a) p \<longleftrightarrow>
     (case chans p a of None \<Rightarrow> False | Some c \<Rightarrow> ch_added c \<or> channels p (ch_fd c) = None)"
| "po_enabled listed (Remove a) p \<longleftrightarrow>
     (case chans p a of None \<Rightarrow> False | Some c \<Rightarrow> isNoneEvent c \<and> ch_added c)
     \<and> (handling p \<longrightarrow> currentActiveChannel p = Some a \<or> a \<notin> set (activeChannels p))"
| "po_enabled listed (Destroy a) p \<longleftrightarrow>
     (case chans p a of None \<Rightarrow> False | Some c \<Rightarrow> \<not> ch_added c) \<and> currentActiveChannel p \<noteq> Some a"
| "po_enabled listed (PollReturned evs) p \<longleftrightarrow> \<not> handling p \<and> length evs \<le> events_size p \<and> distinct (map fst evs)
     \<and> (\<forall>(a, r)\<in>set evs. \<exists>fd ev. listed (epollfd p) fd = Some (ev, a))"
| "po_enabled listed HandlerBegin p \<longleftrightarrow> handling p \<and> currentActiveChannel p = None \<and> todo p \<noteq> []"
| "po_enabled listed HandlerEnd p \<longleftrightarrow> currentActiveChannel p \<noteq> None"
| "po_enabled listed RoundEnd p \<longleftrightarrow> handling p \<and> currentActiveChannel p = None \<and> todo p = []"

inductive po_reach :: "'k epoll_ctl \<Rightarrow> ('k \<Rightarrow> int \<rightharpoonup> u32 \<times> nat) \<Rightarrow> 'k Poller \<Rightarrow> bool" for ctl listed where
  po_init: "listed k = Map.empty \<Longrightarrow> po_reach ctl listed (newPoller k)"
| po_step: "po_reach ctl listed p \<Longrightarrow> po_enabled listed e p \<Longrightarrow> po_do ctl e p = Inr p' \<Longrightarrow> po_reach ctl listed p'"

section \<open>The invariant\<close>

definition registered :: "Channel \<Rightarrow> bool" where
  "registered c \<longleftrightarrow> ch_index c \<noteq> kNew"

text \<open>What the kernel should hold: the events of every registered channel that is not switched off.\<close>

definition wanted :: "'k Poller \<Rightarrow> int \<rightharpoonup> u32 \<times> nat" where
  "wanted p fd =
     (case channels p fd of
        None \<Rightarrow> None
      | Some a \<Rightarrow> (case chans p a of
          None \<Rightarrow> None
        | Some c \<Rightarrow> if ch_index c = kAdded then Some (ch_events c, a) else None))"

definition chan_ok :: "Channel \<Rightarrow> bool" where
  "chan_ok c \<longleftrightarrow> ch_index c \<in> {kNew, kAdded, kDeleted} \<and> (ch_added c \<longleftrightarrow> registered c) \<and> (ch_index c = kDeleted \<longrightarrow> isNoneEvent c)"

definition map_ok :: "'k Poller \<Rightarrow> bool" where
  "map_ok p \<longleftrightarrow> (\<forall>fd a. channels p fd = Some a \<longleftrightarrow> (\<exists>c. chans p a = Some c \<and> ch_fd c = fd \<and> registered c))"

definition round_ok :: "'k Poller \<Rightarrow> bool" where
  "round_ok p \<longleftrightarrow> distinct (todo p) \<and> set (todo p) \<subseteq> set (activeChannels p)
     \<and> (\<forall>a\<in>set (todo p). \<exists>c. chans p a = Some c \<and> registered c)
     \<and> (\<forall>a. currentActiveChannel p = Some a \<longrightarrow> handling p \<and> a \<notin> set (todo p) \<and> chans p a \<noteq> None)
     \<and> (\<not> handling p \<longrightarrow> todo p = [])
     \<and> (\<forall>a c. chans p a = Some c \<longrightarrow> (ch_handling c \<longleftrightarrow> currentActiveChannel p = Some a))"

definition po_inv :: "('k \<Rightarrow> int \<rightharpoonup> u32 \<times> nat) \<Rightarrow> 'k Poller \<Rightarrow> bool" where
  "po_inv listed p \<longleftrightarrow> (\<forall>a c. chans p a = Some c \<longrightarrow> chan_ok c) \<and> map_ok p \<and> round_ok p \<and> listed (epollfd p) = wanted p \<and> 0 < events_size p"

lemma k_distinct [simp]: "kNew \<noteq> kAdded" "kAdded \<noteq> kNew" "kNew \<noteq> kDeleted" "kDeleted \<noteq> kNew" "kAdded \<noteq> kDeleted" "kDeleted \<noteq> kAdded"
  by (simp_all add: kNew_def kAdded_def kDeleted_def)

lemma p_assert_simps [simp]: "p_assert True r = r" "p_assert False r = Inl PollAssert"
  by (simp_all add: p_assert_def)

lemma p_assert_eq_Inr: "p_assert b r = Inr x \<longleftrightarrow> b \<and> r = Inr x"
  by (simp add: p_assert_def)

lemma ch_at_some [simp]: "chans p a = Some c \<Longrightarrow> ch_at a p = Inr c"
  by (simp add: ch_at_def)

lemma set_ch_simps [simp]:
  "chans (set_ch a c p) = (chans p)(a \<mapsto> c)" "channels (set_ch a c p) = channels p" "epollfd (set_ch a c p) = epollfd p"
  "todo (set_ch a c p) = todo p" "currentActiveChannel (set_ch a c p) = currentActiveChannel p" "handling (set_ch a c p) = handling p"
  "activeChannels (set_ch a c p) = activeChannels p" "events_size (set_ch a c p) = events_size p" "called (set_ch a c p) = called p"
  by (simp_all add: set_ch_def)

lemma map_okD: "map_ok p \<Longrightarrow> channels p fd = Some a \<Longrightarrow> \<exists>c. chans p a = Some c \<and> ch_fd c = fd \<and> registered c"
  by (simp add: map_ok_def)

lemma map_okI: "map_ok p \<Longrightarrow> chans p a = Some c \<Longrightarrow> registered c \<Longrightarrow> channels p (ch_fd c) = Some a"
  by (simp add: map_ok_def)

text \<open>Changing the channel at \<open>a\<close>, which is or becomes registered.\<close>

definition entry_of :: "nat \<Rightarrow> Channel \<Rightarrow> (u32 \<times> nat) option" where
  "entry_of a c = (if ch_index c = kAdded then Some (ch_events c, a) else None)"

lemma wanted_at: "map_ok p \<Longrightarrow> chans p a = Some c \<Longrightarrow> channels p (ch_fd c) \<in> {None, Some a} \<Longrightarrow> wanted p (ch_fd c) = (if registered c then entry_of a c else None)"
  by (auto simp: wanted_def entry_of_def registered_def dest: map_okI map_okD split: option.splits)

lemma changed_inv:
  fixes p :: "'k Poller"
  assumes inv: "po_inv listed p" and c: "chans p a = Some c" "channels p (ch_fd c) \<in> {None, Some a}"
    and c': "ch_fd c' = ch_fd c" "chan_ok c'" "ch_handling c' = ch_handling c" "registered c'"
    and k: "listed k = (listed (epollfd p))(ch_fd c := entry_of a c')"
  shows "po_inv listed (p\<lparr>chans := (chans p)(a \<mapsto> c'), channels := (channels p)(ch_fd c \<mapsto> a), epollfd := k\<rparr>)"
proof -
  let ?p = "p\<lparr>chans := (chans p)(a \<mapsto> c'), channels := (channels p)(ch_fd c \<mapsto> a), epollfd := k\<rparr>"
  have m: "map_ok p" and r: "round_ok p" using inv by (simp_all add: po_inv_def)
  have "map_ok ?p" unfolding map_ok_def
  proof (intro allI)
    fix fd b
    show "channels ?p fd = Some b \<longleftrightarrow> (\<exists>d. chans ?p b = Some d \<and> ch_fd d = fd \<and> registered d)"
    proof (cases "b = a")
      case True
      then show ?thesis using c c' map_okD [OF m, of fd a] by auto
    next
      case False
      moreover have "channels p fd = Some b \<longleftrightarrow> (\<exists>d. chans p b = Some d \<and> ch_fd d = fd \<and> registered d)"
        using m by (simp only: map_ok_def)
      ultimately show ?thesis using c(2) by (cases "fd = ch_fd c") auto
    qed
  qed
  moreover have "wanted ?p = (wanted p)(ch_fd c := entry_of a c')"
  proof
    fix fd
    show "wanted ?p fd = ((wanted p)(ch_fd c := entry_of a c')) fd"
    proof (cases "fd = ch_fd c")
      case False
      then have "channels p fd \<noteq> Some a" using map_okD [OF m, of fd a] c(1) by auto
      then show ?thesis using False by (auto simp: wanted_def split: option.splits)
    qed (simp add: wanted_def entry_of_def)
  qed
  moreover have "round_ok ?p" using r c(1) c'(3,4) unfolding round_ok_def by simp
  ultimately show ?thesis using inv c'(2) k by (auto simp: po_inv_def)
qed

lemma ctl_add: "epoll_laws ctl listed \<Longrightarrow> listed k fd = None \<Longrightarrow> ctl EPOLL_CTL_ADD fd ev k = (ok, k') \<Longrightarrow> ok \<and> listed k' = (listed k)(fd \<mapsto> ev)"
  unfolding epoll_laws_def by (metis fst_conv snd_conv)

lemma ctl_mod: "epoll_laws ctl listed \<Longrightarrow> listed k fd \<noteq> None \<Longrightarrow> ctl EPOLL_CTL_MOD fd ev k = (ok, k') \<Longrightarrow> ok \<and> listed k' = (listed k)(fd \<mapsto> ev)"
  unfolding epoll_laws_def by (metis fst_conv snd_conv)

lemma ctl_del: "epoll_laws ctl listed \<Longrightarrow> listed k fd \<noteq> None \<Longrightarrow> ctl EPOLL_CTL_DEL fd ev k = (ok, k') \<Longrightarrow> ok \<and> listed k' = (listed k)(fd := None)"
  unfolding epoll_laws_def by (metis fst_conv snd_conv)

lemma update_ok:
  assumes "ctl operation (ch_fd c) (ch_events c, a) (epollfd p) = (True, k)" "chans p a = Some c"
  shows "poller_update ctl operation a p = Inr (p\<lparr>epollfd := k\<rparr>)"
  using assms by (simp add: poller_update_def)

text \<open>The result of any change of the events a channel waits for.\<close>

definition index_after :: "Channel \<Rightarrow> u32 \<Rightarrow> int" where
  "index_after c ev = (if ch_index c = kAdded \<and> ev = 0 then kDeleted else kAdded)"

lemma change_ok:
  fixes p :: "'k Poller" and ope :: channel_op
  assumes laws: "epoll_laws ctl listed" and inv: "po_inv listed p" and c: "chans p a = Some c"
    and free: "ch_added c \<or> channels p (ch_fd c) = None"
  defines "c' \<equiv> c\<lparr>ch_events := new_events ope (ch_events c), ch_added := True, ch_index := index_after c (new_events ope (ch_events c))\<rparr>"
  shows "\<exists>k. Channel_change ctl ope a p =
      Inr (p\<lparr>chans := (chans p)(a \<mapsto> c'), channels := (channels p)(ch_fd c \<mapsto> a), epollfd := k\<rparr>)
    \<and> po_inv listed (p\<lparr>chans := (chans p)(a \<mapsto> c'), channels := (channels p)(ch_fd c \<mapsto> a), epollfd := k\<rparr>)"
proof -
  let ?ev = "new_events ope (ch_events c)"
  let ?c = "c\<lparr>ch_events := ?ev, ch_added := True\<rparr>"
  have ok: "chan_ok c" and m: "map_ok p" and l: "listed (epollfd p) = wanted p" using inv c by (auto simp: po_inv_def)
  have reg: "registered c \<longleftrightarrow> ch_added c" using ok by (auto simp: chan_ok_def)
  have at: "channels p (ch_fd c) = (if registered c then Some a else None)" using free reg map_okI [OF m c] by auto
  have w: "listed (epollfd p) (ch_fd c) = (if ch_index c = kAdded then Some (ch_events c, a) else None)"
    using wanted_at [OF m c] at l by (auto simp: entry_of_def registered_def)
  have c': "ch_fd c' = ch_fd c" "chan_ok c'" "ch_handling c' = ch_handling c" "registered c'"
    by (auto simp: c'_def chan_ok_def registered_def index_after_def isNoneEvent_def)
  have start: "Channel_change ctl ope a p = updateChannel ctl a (set_ch a ?c p)"
    using c by (simp add: Channel_change_def Channel_update_def set_ch_def)
  have fin: "?thesis" if "Channel_change ctl ope a p = Inr (p\<lparr>chans := (chans p)(a \<mapsto> c'), channels := (channels p)(ch_fd c \<mapsto> a), epollfd := k\<rparr>)"
    "listed k = (listed (epollfd p))(ch_fd c := entry_of a c')" for k
    using changed_inv [OF inv c _ c' that(2)] at that(1) by (intro exI [of _ k]) auto
  consider "ch_index c = kNew" | "ch_index c = kDeleted" | "ch_index c = kAdded" "?ev = 0" | "ch_index c = kAdded" "?ev \<noteq> 0"
    using ok by (auto simp: chan_ok_def)
  then show ?thesis
  proof cases
    case 1
    obtain ok' k where k: "ctl EPOLL_CTL_ADD (ch_fd c) (?ev, a) (epollfd p) = (ok', k)" by (metis surj_pair)
    then have "ok' \<and> listed k = (listed (epollfd p))(ch_fd c \<mapsto> (?ev, a))" using ctl_add [OF laws _ k] w 1 by simp
    then show ?thesis using 1 k at c
      by (intro fin [of k]) (simp_all add: start updateChannel_def poller_update_def registered_def set_ch_def c'_def index_after_def entry_of_def)
  next
    case 2
    obtain ok' k where k: "ctl EPOLL_CTL_ADD (ch_fd c) (?ev, a) (epollfd p) = (ok', k)" by (metis surj_pair)
    then have "ok' \<and> listed k = (listed (epollfd p))(ch_fd c \<mapsto> (?ev, a))" using ctl_add [OF laws _ k] w 2 by simp
    then show ?thesis using 2 k at c
      by (intro fin [of k]) (simp_all add: start updateChannel_def poller_update_def registered_def set_ch_def c'_def index_after_def entry_of_def
          map_upd_triv)
  next
    case 3
    obtain ok' k where k: "ctl EPOLL_CTL_DEL (ch_fd c) (?ev, a) (epollfd p) = (ok', k)" by (metis surj_pair)
    then have "ok' \<and> listed k = (listed (epollfd p))(ch_fd c := None)" using ctl_del [OF laws _ k] w 3 by simp
    then show ?thesis using 3 k at c
      by (intro fin [of k]) (simp_all add: start updateChannel_def poller_update_def registered_def set_ch_def c'_def index_after_def entry_of_def
          isNoneEvent_def map_upd_triv)
  next
    case 4
    obtain ok' k where k: "ctl EPOLL_CTL_MOD (ch_fd c) (?ev, a) (epollfd p) = (ok', k)" by (metis surj_pair)
    then have "ok' \<and> listed k = (listed (epollfd p))(ch_fd c \<mapsto> (?ev, a))" using ctl_mod [OF laws _ k] w 4 by simp
    moreover have e: "c' = ?c" using 4 by (cases c) (simp add: c'_def index_after_def)
    ultimately show ?thesis using 4 k at c
      by (intro fin [of k]) (simp_all add: e start updateChannel_def poller_update_def registered_def set_ch_def entry_of_def
          isNoneEvent_def map_upd_triv)
  qed
qed

lemma remove_ok:
  fixes p :: "'k Poller"
  assumes laws: "epoll_laws ctl listed" and inv: "po_inv listed p" and c: "chans p a = Some c" "isNoneEvent c" "ch_added c"
    and act: "handling p \<longrightarrow> currentActiveChannel p = Some a \<or> a \<notin> set (activeChannels p)"
  shows "\<exists>p'. Channel_remove ctl a p = Inr p' \<and> po_inv listed p'"
proof -
  have ok: "chan_ok c" and m: "map_ok p" and l: "listed (epollfd p) = wanted p" and r: "round_ok p" using inv c by (auto simp: po_inv_def)
  have reg: "registered c" using ok c(3) by (simp add: chan_ok_def)
  have at: "channels p (ch_fd c) = Some a" by (rule map_okI [OF m c(1) reg])
  have w: "listed (epollfd p) (ch_fd c) = (if ch_index c = kAdded then Some (ch_events c, a) else None)"
    using wanted_at [OF m c(1)] at l reg by (simp add: entry_of_def)
  let ?c = "c\<lparr>ch_added := False, ch_index := kNew\<rparr>"
  obtain k where k: "Channel_remove ctl a p = Inr (p\<lparr>chans := (chans p)(a \<mapsto> ?c), channels := (channels p)(ch_fd c := None), epollfd := k\<rparr>)"
    "listed k = (listed (epollfd p))(ch_fd c := None)"
  proof (cases "ch_index c = kAdded")
    case True
    obtain ok' k where k: "ctl EPOLL_CTL_DEL (ch_fd c) (ch_events c, a) (epollfd p) = (ok', k)" by (metis surj_pair)
    then have "ok' \<and> listed k = (listed (epollfd p))(ch_fd c := None)" using ctl_del [OF laws _ k] w True by simp
    then show thesis using True k at c act
      by (intro that [of k]) (simp_all add: Channel_remove_def loop_removeChannel_def removeChannel_def poller_update_def set_ch_def
          isNoneEvent_def p_assert_def)
  next
    case False
    then have "ch_index c = kDeleted" using ok reg by (auto simp: chan_ok_def registered_def)
    then show thesis using at c act w
      by (intro that [of "epollfd p"]) (simp_all add: Channel_remove_def loop_removeChannel_def removeChannel_def set_ch_def
          isNoneEvent_def p_assert_def fun_upd_idem)
  qed
  let ?p = "p\<lparr>chans := (chans p)(a \<mapsto> ?c), channels := (channels p)(ch_fd c := None), epollfd := k\<rparr>"
  have "map_ok ?p" unfolding map_ok_def
  proof (intro allI)
    fix fd b
    have "channels p fd = Some b \<longleftrightarrow> (\<exists>d. chans p b = Some d \<and> ch_fd d = fd \<and> registered d)" using m by (simp only: map_ok_def)
    then show "channels ?p fd = Some b \<longleftrightarrow> (\<exists>d. chans ?p b = Some d \<and> ch_fd d = fd \<and> registered d)"
      using at c(1) by (cases "b = a"; cases "fd = ch_fd c") (auto simp: registered_def)
  qed
  moreover have "wanted ?p = (wanted p)(ch_fd c := None)"
  proof
    fix fd
    have "channels p fd \<noteq> Some a" if "fd \<noteq> ch_fd c" using map_okD [OF m, of fd a] c(1) that by auto
    then show "wanted ?p fd = ((wanted p)(ch_fd c := None)) fd" by (auto simp: wanted_def split: option.splits)
  qed
  moreover have "round_ok ?p"
  proof -
    have "a \<notin> set (todo p)" using r act by (auto simp: round_ok_def)
    then show ?thesis using r c(1) by (auto simp: round_ok_def)
  qed
  moreover have "chan_ok ?c" using ok by (simp add: chan_ok_def registered_def)
  ultimately have "po_inv listed ?p" using inv k(2) by (simp add: po_inv_def)
  then show ?thesis using k(1) by blast
qed

lemma new_channel_ok:
  assumes "po_inv listed p" "chans p a = None"
  shows "po_inv listed (newChannel a fd p)"
proof -
  have m: "map_ok p" and r: "round_ok p" using assms by (simp_all add: po_inv_def)
  have no: "channels p f \<noteq> Some a" for f using map_okD [OF m, of f a] assms(2) by auto
  have "map_ok (newChannel a fd p)" unfolding map_ok_def
  proof (intro allI)
    fix f b
    have "channels p f = Some b \<longleftrightarrow> (\<exists>d. chans p b = Some d \<and> ch_fd d = f \<and> registered d)" using m by (simp only: map_ok_def)
    then show "channels (newChannel a fd p) f = Some b \<longleftrightarrow> (\<exists>d. chans (newChannel a fd p) b = Some d \<and> ch_fd d = f \<and> registered d)"
      using no by (cases "b = a") (auto simp: newChannel_def registered_def)
  qed
  moreover have "wanted (newChannel a fd p) = wanted p"
    using no by (auto simp: wanted_def newChannel_def fun_eq_iff split: option.splits)
  moreover have "a \<notin> set (todo p)" "currentActiveChannel p \<noteq> Some a" using r assms(2) by (auto simp: round_ok_def)
  then have "round_ok (newChannel a fd p)" using r by (auto simp: round_ok_def newChannel_def)
  ultimately show ?thesis using assms(1) by (auto simp: po_inv_def newChannel_def chan_ok_def registered_def)
qed

lemma destroy_ok:
  assumes "po_inv listed p" "chans p a = Some c" "\<not> ch_added c" "currentActiveChannel p \<noteq> Some a"
  shows "\<exists>p'. deleteChannel a p = Inr p' \<and> po_inv listed p'"
proof -
  have ok: "chan_ok c" and m: "map_ok p" and r: "round_ok p" using assms by (auto simp: po_inv_def)
  have unreg: "\<not> registered c" using ok assms(3) by (simp add: chan_ok_def)
  have no: "channels p f \<noteq> Some a" for f using map_okD [OF m, of f a] assms(2) unreg by auto
  let ?p = "p\<lparr>chans := (chans p)(a := None)\<rparr>"
  have run: "deleteChannel a p = Inr ?p"
    using assms(2-4) no r by (simp add: deleteChannel_def hasChannel_def round_ok_def)
  have "map_ok ?p" unfolding map_ok_def
  proof (intro allI)
    fix f b
    have "channels p f = Some b \<longleftrightarrow> (\<exists>d. chans p b = Some d \<and> ch_fd d = f \<and> registered d)" using m by (simp only: map_ok_def)
    then show "channels ?p f = Some b \<longleftrightarrow> (\<exists>d. chans ?p b = Some d \<and> ch_fd d = f \<and> registered d)"
      using no by (cases "b = a") auto
  qed
  moreover have "wanted ?p = wanted p" using no by (auto simp: wanted_def fun_eq_iff split: option.splits)
  moreover have "a \<notin> set (todo p)" using r assms(2) unreg by (auto simp: round_ok_def)
  then have "round_ok ?p" using r assms(4) by (auto simp: round_ok_def)
  ultimately show ?thesis using assms(1) run by (simp add: po_inv_def)
qed

text \<open>The reported event bits change nothing else.\<close>

definition same_channels :: "(nat \<rightharpoonup> Channel) \<Rightarrow> (nat \<rightharpoonup> Channel) \<Rightarrow> bool" where
  "same_channels h g \<longleftrightarrow> (\<forall>a. map_option (\<lambda>c. c\<lparr>ch_revents := 0\<rparr>) (h a) = map_option (\<lambda>c. c\<lparr>ch_revents := 0\<rparr>) (g a))"

lemma same_fields: "c\<lparr>ch_revents := 0\<rparr> = d\<lparr>ch_revents := 0\<rparr> \<longleftrightarrow>
    ch_fd c = ch_fd d \<and> ch_events c = ch_events d \<and> ch_index c = ch_index d \<and> ch_handling c = ch_handling d \<and> ch_added c = ch_added d" for c d :: Channel
  by (cases c; cases d) simp

lemma same_at:
  assumes "same_channels h g" "h a = Some c"
  shows "\<exists>d. g a = Some d \<and> ch_fd d = ch_fd c \<and> ch_events d = ch_events c \<and> ch_index d = ch_index c \<and> ch_handling d = ch_handling c
    \<and> ch_added d = ch_added c"
proof -
  have "map_option (\<lambda>c. c\<lparr>ch_revents := 0\<rparr>) (g a) = Some (c\<lparr>ch_revents := 0\<rparr>)"
    using assms unfolding same_channels_def by (metis option.simps(9))
  then obtain d where "g a = Some d" "d\<lparr>ch_revents := 0\<rparr> = c\<lparr>ch_revents := 0\<rparr>" by auto
  then show ?thesis unfolding same_fields by blast
qed

lemma same_sym: "same_channels h g \<Longrightarrow> same_channels g h"
  by (simp add: same_channels_def)

lemma same_none: "same_channels h g \<Longrightarrow> h a = None \<longleftrightarrow> g a = None"
  unfolding same_channels_def by (metis option.map_disc_iff)

lemma same_trans: "same_channels h g \<Longrightarrow> same_channels g f \<Longrightarrow> same_channels h f"
  by (simp add: same_channels_def)

lemma same_set: "h a = Some c \<Longrightarrow> same_channels h (h(a \<mapsto> c\<lparr>ch_revents := r\<rparr>))"
  by (simp add: same_channels_def)

lemma wanted_cong: "channels q = channels p \<Longrightarrow> chans q = chans p \<Longrightarrow> wanted q = wanted p"
  by (rule ext) (simp only: wanted_def)

lemma same_ok:
  assumes "same_channels (chans p) h" "po_inv listed p"
  shows "\<forall>a d. h a = Some d \<longrightarrow> chan_ok d" "map_ok (p\<lparr>chans := h\<rparr>)" "wanted (p\<lparr>chans := h\<rparr>) = wanted p"
proof -
  note bk = same_at [OF same_sym [OF assms(1)]]
  show "\<forall>a d. h a = Some d \<longrightarrow> chan_ok d"
  proof (intro allI impI)
    fix a d assume "h a = Some d"
    then obtain c where "chans p a = Some c" "ch_index c = ch_index d" "ch_added c = ch_added d" "ch_events c = ch_events d"
      using bk by blast
    moreover from this(1) have "chan_ok c" using assms(2) by (simp add: po_inv_def)
    ultimately show "chan_ok d" by (simp add: chan_ok_def registered_def isNoneEvent_def)
  qed
  have m: "map_ok p" using assms(2) by (simp add: po_inv_def)
  show "map_ok (p\<lparr>chans := h\<rparr>)" unfolding map_ok_def
  proof (intro allI)
    fix fd a
    have "channels p fd = Some a \<longleftrightarrow> (\<exists>c. chans p a = Some c \<and> ch_fd c = fd \<and> registered c)" using m by (simp only: map_ok_def)
    also have "\<dots> \<longleftrightarrow> (\<exists>d. h a = Some d \<and> ch_fd d = fd \<and> registered d)"
      using same_at [OF assms(1), of a] bk [of a] unfolding registered_def by metis
    finally show "channels (p\<lparr>chans := h\<rparr>) fd = Some a \<longleftrightarrow> (\<exists>d. chans (p\<lparr>chans := h\<rparr>) a = Some d \<and> ch_fd d = fd \<and> registered d)" by simp
  qed
  show "wanted (p\<lparr>chans := h\<rparr>) = wanted p"
  proof
    fix fd
    show "wanted (p\<lparr>chans := h\<rparr>) fd = wanted p fd"
    proof (cases "channels p fd")
      case (Some a)
      then obtain c where c: "chans p a = Some c" using map_okD [OF m] by blast
      then obtain d where "h a = Some d" "ch_index d = ch_index c" "ch_events d = ch_events c" using same_at [OF assms(1)] by blast
      then show ?thesis using Some c by (simp add: wanted_def)
    qed (simp add: wanted_def)
  qed
qed

lemma fill_ok:
  assumes "map_ok p" "\<forall>(a, r)\<in>set evs. \<exists>c. chans p a = Some c \<and> registered c" "distinct (map fst evs)"
  shows "\<exists>h. fillActiveChannels evs p = Inr (p\<lparr>chans := h, activeChannels := activeChannels p @ map fst evs\<rparr>) \<and> same_channels (chans p) h
    \<and> (\<forall>(a, r)\<in>set evs. \<exists>c. h a = Some c \<and> ch_revents c = r) \<and> (\<forall>a. a \<notin> fst ` set evs \<longrightarrow> h a = chans p a)"
  using assms
proof (induction evs arbitrary: p)
  case Nil
  then show ?case by (intro exI [of _ "chans p"]) (simp add: same_channels_def)
next
  case (Cons e evs)
  obtain a r where e: "e = (a, r)" by (cases e)
  then obtain c where c: "chans p a = Some c" "registered c" using Cons.prems(2) by auto
  let ?p = "(set_ch a (c\<lparr>ch_revents := r\<rparr>) p)\<lparr>activeChannels := activeChannels p @ [a]\<rparr>"
  have same: "same_channels (chans p) (chans ?p)" using same_set [of "chans p", OF c(1)] by simp
  have m: "map_ok ?p"
  proof -
    have "map_ok (p\<lparr>chans := (chans p)(a \<mapsto> c\<lparr>ch_revents := r\<rparr>)\<rparr>)"
      using Cons.prems(1) c unfolding map_ok_def by (auto simp: registered_def)
    then show ?thesis by (simp add: map_ok_def)
  qed
  have ev: "\<forall>(b, r')\<in>set evs. \<exists>d. chans ?p b = Some d \<and> registered d"
    using Cons.prems(2) c by (auto simp: registered_def)
  have out: "a \<notin> fst ` set evs" using Cons.prems(3) e by simp
  have "distinct (map fst evs)" using Cons.prems(3) by simp
  from Cons.IH [OF m ev this] obtain h where h:
    "fillActiveChannels evs ?p = Inr (?p\<lparr>chans := h, activeChannels := activeChannels ?p @ map fst evs\<rparr>)" "same_channels (chans ?p) h"
    "\<forall>(b, r')\<in>set evs. \<exists>d. h b = Some d \<and> ch_revents d = r'" "\<forall>b. b \<notin> fst ` set evs \<longrightarrow> h b = chans ?p b" by blast
  have "fillActiveChannels (e # evs) p = Inr (p\<lparr>chans := h, activeChannels := activeChannels p @ map fst (e # evs)\<rparr>)"
    using h(1) e c map_okI [OF Cons.prems(1) c] by (simp add: set_ch_def)
  moreover have "h a = Some (c\<lparr>ch_revents := r\<rparr>)" using h(4) out by simp
  then have "\<forall>(b, r')\<in>set (e # evs). \<exists>d. h b = Some d \<and> ch_revents d = r'" using h(3) e by auto
  moreover have "\<forall>b. b \<notin> fst ` set (e # evs) \<longrightarrow> h b = chans p b" using h(4) e by auto
  ultimately show ?case using same_trans [OF same h(2)] by blast
qed

lemma round_begin_ok:
  assumes inv: "po_inv listed p" and en: "po_enabled listed (PollReturned evs) p"
  shows "\<exists>p'. round_begin evs p = Inr p' \<and> po_inv listed p' \<and> todo p' = map fst evs \<and> called p' = called p \<and> currentActiveChannel p' = None
    \<and> handling p' \<and> (\<forall>(a, r)\<in>set evs. \<exists>c. chans p' a = Some c \<and> ch_revents c = r)"
proof -
  let ?p = "p\<lparr>activeChannels := []\<rparr>"
  have m: "map_ok p" and r: "round_ok p" and l: "listed (epollfd p) = wanted p" using inv by (simp_all add: po_inv_def)
  have idle: "\<not> handling p" "currentActiveChannel p = None" using en r by (auto simp: round_ok_def)
  have reg: "\<exists>c. chans p a = Some c \<and> registered c" if "(a, r) \<in> set evs" for a r
  proof -
    from that en l obtain fd ev where "wanted p fd = Some (ev, a)" by fastforce
    then have "channels p fd = Some a" by (auto simp: wanted_def split: option.splits if_splits)
    then show ?thesis using map_okD [OF m] by blast
  qed
  have m': "map_ok ?p" using m by (simp add: map_ok_def)
  have "\<forall>(a, r)\<in>set evs. \<exists>c. chans ?p a = Some c \<and> registered c" "distinct (map fst evs)" using reg en by auto
  from fill_ok [OF m' this] obtain h where h: "fillActiveChannels evs ?p = Inr (?p\<lparr>chans := h, activeChannels := map fst evs\<rparr>)"
    "same_channels (chans p) h" "\<forall>(a, r)\<in>set evs. \<exists>c. h a = Some c \<and> ch_revents c = r" by auto
  obtain n where n: "poll evs ?p = Inr (p\<lparr>chans := h, activeChannels := map fst evs, events_size := n\<rparr>)" "0 < n"
  proof (cases "evs = []")
    case True
    then show thesis using h(1) inv by (intro that [of "events_size p"]) (auto simp: poll_def po_inv_def)
  next
    case False
    then show thesis using h(1) en inv
      by (intro that [of "if length evs = events_size p then events_size p * 2 else events_size p"]) (auto simp: poll_def po_inv_def)
  qed
  let ?q = "p\<lparr>chans := h, activeChannels := map fst evs, events_size := n, handling := True, todo := map fst evs\<rparr>"
  note ok = same_ok [OF h(2) inv]
  have "map_ok ?q" using ok(2) by (simp add: map_ok_def)
  moreover have "wanted ?q = wanted p" using ok(3) wanted_cong [of ?q "p\<lparr>chans := h\<rparr>"] by simp
  moreover have "round_ok ?q"
  proof -
    have "\<exists>c. h a = Some c \<and> registered c" if "a \<in> fst ` set evs" for a
    proof -
      obtain c where "chans p a = Some c" "registered c" using reg \<open>a \<in> fst ` set evs\<close> by force
      then show ?thesis using same_at [OF h(2)] unfolding registered_def by metis
    qed
    moreover have "\<not> ch_handling d" if d: "h a = Some d" for a d
    proof -
      obtain c where "chans p a = Some c" "ch_handling c = ch_handling d" using same_at [OF same_sym [OF h(2)] d] by blast
      then show ?thesis using r idle(2) by (auto simp: round_ok_def)
    qed
    ultimately show ?thesis using en idle(2) by (auto simp: round_ok_def)
  qed
  ultimately have "po_inv listed ?q" using inv ok(1) n(2) l by (simp add: po_inv_def)
  then show ?thesis using n(1) h(3) idle(2) by (simp add: round_begin_def)
qed

lemma handler_inv:
  assumes "po_inv listed p" "chans p a = Some c" "h = (chans p)(a \<mapsto> c\<lparr>ch_handling := b\<rparr>)"
  shows "\<forall>a d. h a = Some d \<longrightarrow> chan_ok d" "map_ok (p\<lparr>chans := h\<rparr>)" "wanted (p\<lparr>chans := h\<rparr>) = wanted p"
proof -
  show "\<forall>a d. h a = Some d \<longrightarrow> chan_ok d" using assms by (auto simp: po_inv_def chan_ok_def registered_def isNoneEvent_def)
  show "map_ok (p\<lparr>chans := h\<rparr>)" using assms by (auto simp: po_inv_def map_ok_def registered_def)
  show "wanted (p\<lparr>chans := h\<rparr>) = wanted p" using assms by (auto simp: wanted_def fun_eq_iff split: option.splits)
qed

lemma handler_begin_ok:
  assumes inv: "po_inv listed p" and en: "handling p" "currentActiveChannel p = None" "todo p = a # as"
  shows "\<exists>c. chans p a = Some c \<and> handler_begin p = Inr (p\<lparr>chans := (chans p)(a \<mapsto> c\<lparr>ch_handling := True\<rparr>), todo := as,
      currentActiveChannel := Some a, called := called p @ map (Pair a) (event_callbacks (ch_revents c))\<rparr>)
    \<and> po_inv listed (p\<lparr>chans := (chans p)(a \<mapsto> c\<lparr>ch_handling := True\<rparr>), todo := as,
      currentActiveChannel := Some a, called := called p @ map (Pair a) (event_callbacks (ch_revents c))\<rparr>)"
proof -
  have r: "round_ok p" using inv by (simp add: po_inv_def)
  obtain c where c: "chans p a = Some c" "registered c" using r en(3) by (auto simp: round_ok_def)
  note h = handler_inv [OF inv c(1) refl, of True]
  let ?q = "p\<lparr>chans := (chans p)(a \<mapsto> c\<lparr>ch_handling := True\<rparr>), todo := as, currentActiveChannel := Some a,
    called := called p @ map (Pair a) (event_callbacks (ch_revents c))\<rparr>"
  have "map_ok ?q" using h(2) by (simp add: map_ok_def)
  moreover have "wanted ?q = wanted p" using h(3) wanted_cong [of ?q "p\<lparr>chans := (chans p)(a \<mapsto> c\<lparr>ch_handling := True\<rparr>)\<rparr>"] by simp
  moreover have "round_ok ?q" using r en c by (auto simp: round_ok_def registered_def)
  ultimately have "po_inv listed ?q" using inv h(1) by (simp add: po_inv_def)
  then show ?thesis using c(1) en(3) by (intro exI [of _ c]) (simp add: handler_begin_def set_ch_def)
qed

lemma handler_end_ok:
  assumes inv: "po_inv listed p" and a: "currentActiveChannel p = Some a"
  shows "\<exists>c. chans p a = Some c \<and> handler_end p = Inr (p\<lparr>chans := (chans p)(a \<mapsto> c\<lparr>ch_handling := False\<rparr>), currentActiveChannel := None\<rparr>)
    \<and> po_inv listed (p\<lparr>chans := (chans p)(a \<mapsto> c\<lparr>ch_handling := False\<rparr>), currentActiveChannel := None\<rparr>)"
proof -
  have r: "round_ok p" using inv by (simp add: po_inv_def)
  obtain c where c: "chans p a = Some c" using r a by (auto simp: round_ok_def)
  note h = handler_inv [OF inv c refl, of False]
  let ?q = "p\<lparr>chans := (chans p)(a \<mapsto> c\<lparr>ch_handling := False\<rparr>), currentActiveChannel := None\<rparr>"
  have "map_ok ?q" using h(2) by (simp add: map_ok_def)
  moreover have "wanted ?q = wanted p" using h(3) wanted_cong [of ?q "p\<lparr>chans := (chans p)(a \<mapsto> c\<lparr>ch_handling := False\<rparr>)\<rparr>"] by simp
  moreover have "round_ok ?q" using r a c by (auto simp: round_ok_def)
  ultimately have "po_inv listed ?q" using inv h(1) by (simp add: po_inv_def)
  then show ?thesis using c a by (intro exI [of _ c]) (simp add: handler_end_def set_ch_def)
qed

lemma po_step_ok:
  assumes laws: "epoll_laws ctl listed" and inv: "po_inv listed p" and en: "po_enabled listed e p"
  shows "\<exists>p'. po_do ctl e p = Inr p' \<and> po_inv listed p'"
proof (cases e)
  case (Create a fd)
  then show ?thesis using new_channel_ok [OF inv, of a] en by simp
next
  case (Change ope a)
  then obtain c where c: "chans p a = Some c" "ch_added c \<or> channels p (ch_fd c) = None" using en by (auto split: option.splits)
  then show ?thesis using change_ok [OF laws inv c] Change by auto
next
  case (Remove a)
  then obtain c where "chans p a = Some c" "isNoneEvent c" "ch_added c" "handling p \<longrightarrow> currentActiveChannel p = Some a \<or> a \<notin> set (activeChannels p)"
    using en by (auto split: option.splits)
  then show ?thesis using remove_ok [OF laws inv] Remove by simp
next
  case (Destroy a)
  then obtain c where "chans p a = Some c" "\<not> ch_added c" "currentActiveChannel p \<noteq> Some a" using en by (auto split: option.splits)
  then show ?thesis using destroy_ok [OF inv] Destroy by simp
next
  case (PollReturned evs)
  then show ?thesis using round_begin_ok [OF inv, of evs] en by auto
next
  case HandlerBegin
  then obtain a as where "todo p = a # as" using en by (cases "todo p") auto
  then show ?thesis using handler_begin_ok [OF inv] HandlerBegin en by auto
next
  case HandlerEnd
  then obtain a where "currentActiveChannel p = Some a" using en by auto
  then show ?thesis using handler_end_ok [OF inv] HandlerEnd by auto
next
  case RoundEnd
  then show ?thesis using inv en wanted_cong [of "round_end p" p] by (auto simp: round_end_def po_inv_def map_ok_def round_ok_def)
qed

lemma po_reach_inv:
  assumes "epoll_laws ctl listed" "po_reach ctl listed p"
  shows "po_inv listed p"
  using assms(2)
proof (induction rule: po_reach.induct)
  case (po_init k)
  then show ?case by (simp add: po_inv_def newPoller_def map_ok_def round_ok_def wanted_def fun_eq_iff)
next
  case (po_step p e p')
  then show ?case using po_step_ok [OF assms(1)] by fastforce
qed

section \<open>A round in which no handler changes a channel\<close>

fun po_run :: "'k epoll_ctl \<Rightarrow> poller_event list \<Rightarrow> 'k Poller \<Rightarrow> poll_error + 'k Poller" where
  "po_run ctl [] p = Inr p"
| "po_run ctl (e # es) p = and_then (po_do ctl e p) (po_run ctl es)"

definition revents_at :: "'k Poller \<Rightarrow> nat \<Rightarrow> u32" where
  "revents_at p a = (case chans p a of None \<Rightarrow> 0 | Some c \<Rightarrow> ch_revents c)"

lemma handlers_run:
  assumes "po_inv listed p" "handling p" "currentActiveChannel p = None"
  shows "\<exists>p'. po_run ctl (concat (replicate (length (todo p)) [HandlerBegin, HandlerEnd])) p = Inr p'
    \<and> called p' = called p @ concat (map (\<lambda>a. map (Pair a) (event_callbacks (revents_at p a))) (todo p))"
  using assms
proof (induction "todo p" arbitrary: p)
  case Nil
  then show ?case by simp
next
  case (Cons a as)
  obtain c where c: "chans p a = Some c" "handler_begin p = Inr (p\<lparr>chans := (chans p)(a \<mapsto> c\<lparr>ch_handling := True\<rparr>), todo := as,
      currentActiveChannel := Some a, called := called p @ map (Pair a) (event_callbacks (ch_revents c))\<rparr>)"
    "po_inv listed (p\<lparr>chans := (chans p)(a \<mapsto> c\<lparr>ch_handling := True\<rparr>), todo := as,
      currentActiveChannel := Some a, called := called p @ map (Pair a) (event_callbacks (ch_revents c))\<rparr>)"
    using handler_begin_ok [OF Cons.prems Cons.hyps(2) [symmetric]] by blast
  define p1 where "p1 = p\<lparr>chans := (chans p)(a \<mapsto> c\<lparr>ch_handling := True\<rparr>), todo := as,
      currentActiveChannel := Some a, called := called p @ map (Pair a) (event_callbacks (ch_revents c))\<rparr>"
  have p1: "handler_begin p = Inr p1" "po_inv listed p1" "currentActiveChannel p1 = Some a" "todo p1 = as" "handling p1"
    "called p1 = called p @ map (Pair a) (event_callbacks (ch_revents c))" "revents_at p1 = revents_at p"
    using c Cons.prems by (auto simp: p1_def revents_at_def fun_eq_iff)
  obtain d where d: "chans p1 a = Some d" "handler_end p1 = Inr (p1\<lparr>chans := (chans p1)(a \<mapsto> d\<lparr>ch_handling := False\<rparr>), currentActiveChannel := None\<rparr>)"
    "po_inv listed (p1\<lparr>chans := (chans p1)(a \<mapsto> d\<lparr>ch_handling := False\<rparr>), currentActiveChannel := None\<rparr>)"
    using handler_end_ok [OF p1(2,3)] by blast
  define p2 where "p2 = p1\<lparr>chans := (chans p1)(a \<mapsto> d\<lparr>ch_handling := False\<rparr>), currentActiveChannel := None\<rparr>"
  have p2: "handler_end p1 = Inr p2" "po_inv listed p2" "currentActiveChannel p2 = None" "todo p2 = as" "handling p2"
    "called p2 = called p @ map (Pair a) (event_callbacks (ch_revents c))"
    using d p1 by (auto simp: p2_def)
  have "revents_at p2 = revents_at p1" using d(1) by (auto simp: p2_def revents_at_def fun_eq_iff)
  then have rev: "revents_at p2 = revents_at p" using p1(7) by simp
  have "revents_at p a = ch_revents c" using c(1) by (simp add: revents_at_def)
  then show ?case using Cons.hyps(1) [OF p2(4) [symmetric] p2(2,5,3)] p1(1) p2(1,4,6) rev by (simp add: Cons.hyps(2) [symmetric])
qed

lemma po_run_append: "po_run ctl (es @ es') p = and_then (po_run ctl es p) (po_run ctl es')"
  by (induction es arbitrary: p) (auto simp: and_then_def split: sum.splits)

lemma round_delivers:
  assumes "po_inv listed p" "po_enabled listed (PollReturned evs) p"
  shows "\<exists>p'. po_run ctl ([PollReturned evs] @ concat (replicate (length evs) [HandlerBegin, HandlerEnd])) p = Inr p'
    \<and> called p' = called p @ concat (map (\<lambda>(a, r). map (Pair a) (event_callbacks r)) evs)"
proof -
  obtain p1 where p1: "round_begin evs p = Inr p1" "po_inv listed p1" "todo p1 = map fst evs" "called p1 = called p"
    "currentActiveChannel p1 = None" "handling p1" "\<forall>(a, r)\<in>set evs. \<exists>c. chans p1 a = Some c \<and> ch_revents c = r"
    using round_begin_ok [OF assms] by blast
  have eq: "map (\<lambda>a. map (Pair a) (event_callbacks (revents_at p1 a))) (map fst evs) = map (\<lambda>(a, r). map (Pair a) (event_callbacks r)) evs"
    using p1(7) by (auto simp: revents_at_def)
  obtain p' where p': "po_run ctl (concat (replicate (length evs) [HandlerBegin, HandlerEnd])) p1 = Inr p'"
    "called p' = called p1 @ concat (map (\<lambda>a. map (Pair a) (event_callbacks (revents_at p1 a))) (todo p1))"
    using handlers_run [OF p1(2,6,5)] p1(3) by auto
  have "called p' = called p @ concat (map (\<lambda>(a, r). map (Pair a) (event_callbacks r)) evs)" using p'(2) unfolding p1(3,4) eq .
  then show ?thesis using p1(1) p'(1) by simp
qed

section \<open>Properties\<close>

text \<open>A kernel as its manual page describes it, and a channel at address 100 that reads from descriptor 5.\<close>

definition map_ctl :: "(int \<rightharpoonup> u32 \<times> nat) epoll_ctl" where
  "map_ctl operation fd ev k =
     (case operation of
        EPOLL_CTL_ADD \<Rightarrow> if k fd = None then (True, k(fd \<mapsto> ev)) else (False, k)
      | EPOLL_CTL_MOD \<Rightarrow> if k fd \<noteq> None then (True, k(fd \<mapsto> ev)) else (False, k)
      | EPOLL_CTL_DEL \<Rightarrow> if k fd \<noteq> None then (True, k(fd := None)) else (False, k))"

definition sample_channel :: Channel where
  "sample_channel = \<lparr>ch_fd = 5, ch_events = 3, ch_revents = 0, ch_index = kAdded, ch_handling = False, ch_added = True\<rparr>"

definition sample_poller :: "(int \<rightharpoonup> u32 \<times> nat) Poller" where
  "sample_poller = (newPoller [5 \<mapsto> (3, 100)])\<lparr>chans := [100 \<mapsto> sample_channel], channels := [5 \<mapsto> 100]\<rparr>"

lemma map_ctl_laws: "epoll_laws map_ctl (\<lambda>k. k)"
  by (simp add: epoll_laws_def map_ctl_def)

lemmas po_defs = Channel_change_def Channel_update_def updateChannel_def poller_update_def newChannel_def set_ch_def ch_at_def
  p_assert_def isNoneEvent_def newPoller_def

lemma read_events: "new_events EnableReading 0 = 3"
  by (simp add: kReadEvent_def POLLIN_def POLLPRI_def)

lemma sample_poller_reached: "po_reach map_ctl (\<lambda>k. k) sample_poller"
proof -
  have "po_reach map_ctl (\<lambda>k. k) (newPoller Map.empty)" by (rule po_init) simp
  then have "po_reach map_ctl (\<lambda>k. k) (newChannel 100 5 (newPoller Map.empty))"
    by (rule po_step [of _ _ _ "Create 100 5"]) (simp_all add: newPoller_def)
  then show ?thesis
    by (rule po_step [of _ _ _ "Change EnableReading 100"])
      (use read_events in \<open>simp_all add: po_defs map_ctl_def sample_poller_def sample_channel_def del: new_events.simps\<close>)
qed

text \<open>
  C29: As long as the users of channels keep to the rules, no assertion of channels, loop and poller fails, no call to the kernel fails
  fatally, and no channel is used after its destruction, although the kernel and the list of active channels hold bare addresses.
\<close>

theorem poller_safe:
  assumes "epoll_laws ctl listed" "po_reach ctl listed p" "po_enabled listed e p"
  shows "\<exists>p'. po_do ctl e p = Inr p' \<and> po_reach ctl listed p'"
  using po_step_ok [OF assms(1) po_reach_inv [OF assms(1,2)] assms(3)] po_step [OF assms(2,3)] by blast

theorem poller_safe_witness:
  "\<exists>p'. po_do map_ctl (Change DisableAll 100) sample_poller = Inr p' \<and> po_reach map_ctl (\<lambda>k. k) p'"
  by (rule poller_safe [OF map_ctl_laws sample_poller_reached]) (simp add: sample_poller_def sample_channel_def)

text \<open>
  C30: The kernel's interest list always agrees with the channels: it holds for a descriptor exactly the address and the events of its
  channel while that is switched on, and every registered channel that waits for anything is in it.
\<close>

theorem interest_list_agrees:
  assumes "epoll_laws ctl listed" "po_reach ctl listed p"
  shows "(\<forall>fd ev a. listed (epollfd p) fd = Some (ev, a) \<longleftrightarrow>
       (\<exists>c. chans p a = Some c \<and> ch_fd c = fd \<and> ch_index c = kAdded \<and> ch_events c = ev))
    \<and> (\<forall>a c. chans p a = Some c \<and> ch_added c \<and> ch_events c \<noteq> 0 \<longrightarrow> listed (epollfd p) (ch_fd c) = Some (ch_events c, a))"
proof -
  have inv: "po_inv listed p" by (rule po_reach_inv [OF assms])
  then have m: "map_ok p" and l: "listed (epollfd p) = wanted p" and ok: "\<And>a c. chans p a = Some c \<Longrightarrow> chan_ok c" by (auto simp: po_inv_def)
  have one: "wanted p (ch_fd c) = Some (ch_events c, a)" if "chans p a = Some c" "ch_index c = kAdded" for a c
    using that map_okI [OF m, of a c] by (simp add: wanted_def registered_def)
  have two: "\<exists>c. chans p a = Some c \<and> ch_fd c = fd \<and> ch_index c = kAdded \<and> ch_events c = ev" if "wanted p fd = Some (ev, a)" for fd ev a
    using that map_okD [OF m, of fd] by (auto simp: wanted_def split: option.splits if_splits)
  have "ch_index c = kAdded" if "chans p a = Some c" "ch_added c" "ch_events c \<noteq> 0" for a c
    using ok [OF that(1)] that(2,3) by (auto simp: chan_ok_def registered_def isNoneEvent_def)
  then show ?thesis unfolding l using one two by blast
qed

theorem interest_list_agrees_witness:
  "epollfd sample_poller 5 = Some (3, 100)"
  using interest_list_agrees [OF map_ctl_laws sample_poller_reached]
  by (simp add: sample_poller_def sample_channel_def newPoller_def)

text \<open>
  The events the kernel reports reach the handlers: a round in which no handler changes a channel calls, for each reported channel in
  order, exactly the callbacks its event bits ask for.
\<close>

theorem reported_events_handled:
  assumes "epoll_laws ctl listed" "po_reach ctl listed p" "po_enabled listed (PollReturned evs) p"
  shows "\<exists>p'. po_run ctl ([PollReturned evs] @ concat (replicate (length evs) [HandlerBegin, HandlerEnd])) p = Inr p'
    \<and> called p' = called p @ concat (map (\<lambda>(a, r). map (Pair a) (event_callbacks r)) evs)"
  by (rule round_delivers [OF po_reach_inv [OF assms(1,2)] assms(3)])

theorem reported_events_handled_witness:
  "\<exists>p'. po_run map_ctl [PollReturned [(100, 5)], HandlerBegin, HandlerEnd] sample_poller = Inr p'
    \<and> called p' = [(100, ReadCallback), (100, WriteCallback)]"
proof -
  have "po_enabled (\<lambda>k. k) (PollReturned [(100, 5)]) sample_poller" by (auto simp: sample_poller_def newPoller_def)
  from reported_events_handled [OF map_ctl_laws sample_poller_reached this] show ?thesis
    by (simp add: event_callbacks_def POLLHUP_def POLLIN_def POLLERR_def POLLNVAL_def POLLPRI_def POLLRDHUP_def POLLOUT_def
        sample_poller_def newPoller_def)
qed

text \<open>
  Switching off a channel that is off already registers it again, with an empty set of events: the kernel still reports errors
  and hang-ups of the descriptor. This happens when a connection that has stopped reading is closed.
\<close>

theorem disable_twice_registers:
  "\<exists>p'. po_run map_ctl [Change DisableReading 100, Change DisableAll 100] sample_poller = Inr p' \<and> epollfd p' 5 = Some (0, 100)"
  by (simp add: po_defs map_ctl_def sample_poller_def sample_channel_def kReadEvent_def POLLIN_def POLLPRI_def)

end
