(* ===== verification/WorkerPool.thy ===== *)
theory WorkerPool
  imports ChatPrelude
begin

text \<open>
  \<^verbatim>\<open>muduo::ThreadPool\<close> (\<^verbatim>\<open>muduo/base/ThreadPool.cc\<close>), in which the comet server runs the frames
  of its WebSocket connections and the job server its consuming loop. The critical
  sections are functions on the pool; threads entering, sleeping on the two
  condition variables and being notified are a transition relation over all
  interleavings. Shown: tasks are started in the order they were queued, none is lost
  or started twice, the queue respects its bound, and no wake-up is lost.
\<close>

section \<open>The critical sections\<close>

record 't ThreadPool =
  numThreads :: nat
  task_queue :: "'t list"
  maxQueueSize :: nat
  pool_running :: bool

definition newThreadPool :: "'t ThreadPool" where
  "newThreadPool = \<lparr>numThreads = 0, task_queue = [], maxQueueSize = 0, pool_running = False\<rparr>"

definition setMaxQueueSize :: "nat \<Rightarrow> 't ThreadPool \<Rightarrow> 't ThreadPool" where
  "setMaxQueueSize n p = p\<lparr>maxQueueSize := n\<rparr>"

definition pool_start :: "nat \<Rightarrow> 't ThreadPool \<Rightarrow> 't ThreadPool res" where
  "pool_start n p =
     cpp_assert (numThreads p = 0) (Inr (p\<lparr>pool_running := True, numThreads := n\<rparr>))"

definition isFull :: "'t ThreadPool \<Rightarrow> bool" where
  "isFull p \<longleftrightarrow> 0 < maxQueueSize p \<and> maxQueueSize p \<le> length (task_queue p)"

definition queueSize :: "'t ThreadPool \<Rightarrow> nat" where
  "queueSize p = length (task_queue p)"

text \<open>
  One passage of \<^verbatim>\<open>run\<close> through its loop: the task is run by the caller, the caller has
  to wait on \<^verbatim>\<open>notFull_\<close>, the task is refused, or it is queued and \<^verbatim>\<open>notEmpty_\<close> notified. Behind
  the loop a running pool is not full, which is what the assertion there says.
\<close>

datatype run_outcome = RunInline | WaitFull | Refused | Queued

definition pool_run :: "'t \<Rightarrow> 't ThreadPool \<Rightarrow> run_outcome \<times> 't ThreadPool" where
  "pool_run task p =
     (if numThreads p = 0 then (RunInline, p)
      else if isFull p \<and> pool_running p then (WaitFull, p)
      else if \<not> pool_running p then (Refused, p)
      else (Queued, p\<lparr>task_queue := task_queue p @ [task]\<rparr>))"

text \<open>One passage of \<^verbatim>\<open>take\<close>: wait on \<^verbatim>\<open>notEmpty_\<close>, the first task, or no task.\<close>

datatype 't take_outcome = WaitEmpty | NoTask | Took 't

definition pool_take :: "'t ThreadPool \<Rightarrow> 't take_outcome \<times> 't ThreadPool" where
  "pool_take p =
     (case task_queue p of
        [] \<Rightarrow> (if pool_running p then WaitEmpty else NoTask, p)
      | t # ts \<Rightarrow> (Took t, p\<lparr>task_queue := ts\<rparr>))"

definition pool_stop :: "'t ThreadPool \<Rightarrow> 't ThreadPool" where
  "pool_stop p = p\<lparr>pool_running := False\<rparr>"

section \<open>Threads\<close>

text \<open>
  A worker is in the loop of \<^verbatim>\<open>runInThread\<close>: about to test \<^verbatim>\<open>running_\<close>, about to enter (or
  re-enter, after a notification) the critical section of \<^verbatim>\<open>take\<close>, asleep on
  \<^verbatim>\<open>notEmpty_\<close>, running a task, or gone. A caller of \<^verbatim>\<open>run\<close> is about to enter its critical
  section or asleep on \<^verbatim>\<open>notFull_\<close>.
\<close>

datatype 't worker = Testing | Entering | Asleep | Busy 't | Gone

datatype 't caller = Calling 't | AsleepFull 't

record 't pool_sys =
  pool :: "'t ThreadPool"
  workers :: "'t worker list"
  callers :: "'t caller list"

datatype 't pool_event = Tau | Push 't | Start 't

text \<open>Notifying one waiting thread, if there is one, and all of them.\<close>

inductive notify_worker :: "'t worker list \<Rightarrow> 't worker list \<Rightarrow> bool" where
  nobody: "Asleep \<notin> set ws \<Longrightarrow> notify_worker ws ws"
| somebody: "notify_worker (xs @ Asleep # ys) (xs @ Entering # ys)"

inductive notify_caller :: "'t caller list \<Rightarrow> 't caller list \<Rightarrow> bool" where
  nobody: "(\<And>t. AsleepFull t \<notin> set cs) \<Longrightarrow> notify_caller cs cs"
| somebody: "notify_caller (xs @ AsleepFull t # ys) (xs @ Calling t # ys)"

fun wake_worker :: "'t worker \<Rightarrow> 't worker" where
  "wake_worker Asleep = Entering"
| "wake_worker w = w"

fun wake_caller :: "'t caller \<Rightarrow> 't caller" where
  "wake_caller (AsleepFull t) = Calling t"
| "wake_caller c = c"

inductive pool_step :: "'t pool_sys \<Rightarrow> 't pool_event \<Rightarrow> 't pool_sys \<Rightarrow> bool" where
  arrive: "pool_step s Tau (s\<lparr>callers := callers s @ [Calling t]\<rparr>)"
| run_queued: "callers s = xs @ Calling t # ys \<Longrightarrow> pool_run t (pool s) = (Queued, p) \<Longrightarrow>
    notify_worker (workers s) ws \<Longrightarrow>
    pool_step s (Push t) (s\<lparr>pool := p, callers := xs @ ys, workers := ws\<rparr>)"
| run_waits: "callers s = xs @ Calling t # ys \<Longrightarrow> pool_run t (pool s) = (WaitFull, p) \<Longrightarrow>
    pool_step s Tau (s\<lparr>pool := p, callers := xs @ AsleepFull t # ys\<rparr>)"
| run_returns: "callers s = xs @ Calling t # ys \<Longrightarrow> pool_run t (pool s) = (Refused, p) \<Longrightarrow>
    pool_step s Tau (s\<lparr>pool := p, callers := xs @ ys\<rparr>)"
| loop_test: "workers s = xs @ Testing # ys \<Longrightarrow>
    pool_step s Tau (s\<lparr>workers := xs @ (if pool_running (pool s) then Entering else Gone) # ys\<rparr>)"
| take_task: "workers s = xs @ Entering # ys \<Longrightarrow> pool_take (pool s) = (Took t, p) \<Longrightarrow>
    (if 0 < maxQueueSize p then notify_caller (callers s) cs else cs = callers s) \<Longrightarrow>
    pool_step s (Start t) (s\<lparr>pool := p, workers := xs @ Busy t # ys, callers := cs\<rparr>)"
| take_waits: "workers s = xs @ Entering # ys \<Longrightarrow> pool_take (pool s) = (WaitEmpty, p) \<Longrightarrow>
    pool_step s Tau (s\<lparr>pool := p, workers := xs @ Asleep # ys\<rparr>)"
| take_none: "workers s = xs @ Entering # ys \<Longrightarrow> pool_take (pool s) = (NoTask, p) \<Longrightarrow>
    pool_step s Tau (s\<lparr>pool := p, workers := xs @ Testing # ys\<rparr>)"
| task_done: "workers s = xs @ Busy t # ys \<Longrightarrow> pool_step s Tau (s\<lparr>workers := xs @ Testing # ys\<rparr>)"
| spurious_worker: "workers s = xs @ Asleep # ys \<Longrightarrow> pool_step s Tau (s\<lparr>workers := xs @ Entering # ys\<rparr>)"
| spurious_caller: "callers s = xs @ AsleepFull t # ys \<Longrightarrow>
    pool_step s Tau (s\<lparr>callers := xs @ Calling t # ys\<rparr>)"
| stop: "pool_step s Tau (s\<lparr>pool := pool_stop (pool s), workers := map wake_worker (workers s),
    callers := map wake_caller (callers s)\<rparr>)"

text \<open>The pool after \<^verbatim>\<open>start\<close> with at least one thread.\<close>

inductive pool_reach :: "'t pool_event list \<Rightarrow> 't pool_sys \<Rightarrow> bool" where
  start: "0 < n \<Longrightarrow> pool_start n (setMaxQueueSize k newThreadPool) = Inr p \<Longrightarrow>
    pool_reach [] \<lparr>pool = p, workers = replicate n Testing, callers = []\<rparr>"
| step: "pool_reach es s \<Longrightarrow> pool_step s e s' \<Longrightarrow> pool_reach (es @ [e]) s'"

section \<open>The invariant\<close>

fun pushed :: "'t pool_event list \<Rightarrow> 't list" where
  "pushed [] = []"
| "pushed (Push t # es) = t # pushed es"
| "pushed (e # es) = pushed es"

fun started :: "'t pool_event list \<Rightarrow> 't list" where
  "started [] = []"
| "started (Start t # es) = t # started es"
| "started (e # es) = started es"

lemma pushed_append [simp]: "pushed (es @ fs) = pushed es @ pushed fs"
  by (induction es rule: pushed.induct) simp_all

lemma started_append [simp]: "started (es @ fs) = started es @ started fs"
  by (induction es rule: started.induct) simp_all

definition entering :: "'t worker list \<Rightarrow> nat" where
  "entering ws = length (filter (\<lambda>w. w = Entering) ws)"

fun is_calling :: "'t caller \<Rightarrow> bool" where
  "is_calling (Calling t) = True"
| "is_calling (AsleepFull t) = False"

definition calling :: "'t caller list \<Rightarrow> nat" where
  "calling cs = length (filter is_calling cs)"

lemma entering_simps [simp]:
  "entering (xs @ ys) = entering xs + entering ys" "entering [] = 0"
  "entering (w # ws) = (if w = Entering then Suc (entering ws) else entering ws)"
  by (simp_all add: entering_def)

lemma calling_simps [simp]:
  "calling (xs @ ys) = calling xs + calling ys" "calling [] = 0"
  "calling (c # cs) = (if is_calling c then Suc (calling cs) else calling cs)"
  by (simp_all add: calling_def)

text \<open>
  No wake-up is lost: while a worker sleeps, every queued task has a worker of its own on
  the way to it; while a caller sleeps, every free place has a caller on the way to it.
\<close>

definition pool_inv :: "'t pool_sys \<Rightarrow> bool" where
  "pool_inv s \<longleftrightarrow> 0 < numThreads (pool s) \<and> length (workers s) = numThreads (pool s)
     \<and> (0 < maxQueueSize (pool s) \<longrightarrow> length (task_queue (pool s)) \<le> maxQueueSize (pool s))
     \<and> (Asleep \<in> set (workers s) \<longrightarrow> pool_running (pool s)
          \<and> length (task_queue (pool s)) \<le> entering (workers s))
     \<and> ((\<exists>c\<in>set (callers s). \<not> is_calling c) \<longrightarrow> pool_running (pool s) \<and> 0 < maxQueueSize (pool s)
          \<and> maxQueueSize (pool s) \<le> length (task_queue (pool s)) + calling (callers s))
     \<and> (pool_running (pool s) \<longrightarrow> Gone \<notin> set (workers s))"

lemma notify_worker_ok:
  assumes "notify_worker ws ws'"
  shows "length ws' = length ws \<and> (Gone \<in> set ws' \<longleftrightarrow> Gone \<in> set ws)
     \<and> (Asleep \<in> set ws' \<longrightarrow> Asleep \<in> set ws \<and> entering ws' = Suc (entering ws))"
  using assms by cases auto

lemma notify_caller_ok:
  assumes "notify_caller cs cs'" "c \<in> set cs'" "\<not> is_calling c"
  shows "(\<exists>c\<in>set cs. \<not> is_calling c) \<and> calling cs' = Suc (calling cs)"
  using assms
proof cases
  case nobody
  then show ?thesis using assms(2,3) by (cases c) auto
qed auto

lemma pool_run_cases:
  "pool_run t p = (Queued, p') \<Longrightarrow> pool_running p \<and> \<not> isFull p \<and> p' = p\<lparr>task_queue := task_queue p @ [t]\<rparr>"
  "pool_run t p = (WaitFull, p') \<Longrightarrow> pool_running p \<and> isFull p \<and> p' = p"
  "pool_run t p = (Refused, p') \<Longrightarrow> \<not> pool_running p \<and> p' = p"
  by (auto simp: pool_run_def split: if_splits)

lemma pool_take_cases:
  "pool_take p = (Took t, p') \<Longrightarrow> \<exists>ts. task_queue p = t # ts \<and> p' = p\<lparr>task_queue := ts\<rparr>"
  "pool_take p = (WaitEmpty, p') \<Longrightarrow> task_queue p = [] \<and> pool_running p \<and> p' = p"
  "pool_take p = (NoTask, p') \<Longrightarrow> task_queue p = [] \<and> \<not> pool_running p \<and> p' = p"
  by (auto simp: pool_take_def split: list.splits if_splits)

lemma wake_worker_simps [simp]:
  "wake_worker w \<noteq> Asleep" "Asleep \<noteq> wake_worker w" "wake_worker w = Gone \<longleftrightarrow> w = Gone" "Gone = wake_worker w \<longleftrightarrow> w = Gone"
  by (cases w; simp; fail)+

lemma wake_caller_calling [simp]: "is_calling (wake_caller c)"
  by (cases c) simp_all

definition queue_effect :: "'t pool_event \<Rightarrow> 't list \<Rightarrow> 't list \<Rightarrow> bool" where
  "queue_effect e q q' = (case e of Tau \<Rightarrow> q' = q | Push t \<Rightarrow> q' = q @ [t] | Start t \<Rightarrow> q = t # q')"

lemma pool_step_effect:
  assumes "pool_step s e s'"
  shows "queue_effect e (task_queue (pool s)) (task_queue (pool s'))"
  using assms
  by cases (auto simp: queue_effect_def pool_stop_def dest: pool_run_cases pool_take_cases)

lemma pool_step_inv:
  assumes "pool_step s e s'" "pool_inv s"
  shows "pool_inv s'"
  using assms(1)
proof cases
  case (run_queued xs t ys p ws)
  then show ?thesis using assms(2) pool_run_cases(1) [OF run_queued(4)] notify_worker_ok [OF run_queued(5)]
    by (auto simp: pool_inv_def isFull_def)
next
  case (run_waits xs t ys p)
  then show ?thesis using assms(2) pool_run_cases(2) [OF run_waits(4)] by (auto simp: pool_inv_def isFull_def)
next
  case (run_returns xs t ys p)
  then show ?thesis using assms(2) pool_run_cases(3) [OF run_returns(4)] by (auto simp: pool_inv_def)
next
  case (take_task xs ys t p cs)
  obtain ts where q: "task_queue (pool s) = t # ts" "p = (pool s)\<lparr>task_queue := ts\<rparr>"
    using pool_take_cases(1) [OF take_task(4)] by blast
  have cc: "(\<exists>c\<in>set (callers s). \<not> is_calling c) \<and> calling cs = Suc (calling (callers s))"
    if sleeping: "\<exists>c\<in>set cs. \<not> is_calling c"
  proof (cases "0 < maxQueueSize p")
    case True
    then show ?thesis using take_task(5) notify_caller_ok sleeping by (metis (full_types))
  next
    case False
    then have "cs = callers s" using take_task(5) by simp
    then show ?thesis using sleeping False assms(2) q by (simp add: pool_inv_def)
  qed
  have caller_part: "(\<exists>c\<in>set cs. \<not> is_calling c) \<longrightarrow> pool_running p \<and> 0 < maxQueueSize p
      \<and> maxQueueSize p \<le> length (task_queue p) + calling cs"
    using cc assms(2) q by (auto simp: pool_inv_def)
  have "(0 < maxQueueSize p \<longrightarrow> length (task_queue p) \<le> maxQueueSize p)
      \<and> (Asleep \<in> set (xs @ Busy t # ys) \<longrightarrow> pool_running p \<and> length (task_queue p) \<le> entering (xs @ Busy t # ys))"
    using assms(2) q take_task(3) by (auto simp: pool_inv_def)
  with caller_part show ?thesis using assms(2) q(2) take_task(2,3) by (simp add: pool_inv_def)
next
  case (take_waits xs ys p)
  then show ?thesis using assms(2) pool_take_cases(2) [OF take_waits(4)] by (auto simp: pool_inv_def)
next
  case (take_none xs ys p)
  then show ?thesis using assms(2) pool_take_cases(3) [OF take_none(4)] by (auto simp: pool_inv_def)
next
  case stop
  then show ?thesis using assms(2) by (auto simp: pool_inv_def pool_stop_def)
qed (use assms(2) in \<open>auto simp: pool_inv_def split: if_splits\<close>)

lemma pool_reach_ok:
  assumes "pool_reach es s"
  shows "pool_inv s \<and> pushed es = started es @ task_queue (pool s)"
  using assms
proof induction
  case (start n k p)
  then have "p = \<lparr>numThreads = n, task_queue = [], maxQueueSize = k, pool_running = True\<rparr>"
    by (simp add: pool_start_def setMaxQueueSize_def newThreadPool_def)
  then show ?case using start(1) by (auto simp: pool_inv_def)
next
  case (step es s e s')
  then show ?case using pool_step_inv [OF step(2)] pool_step_effect [OF step(2)]
    by (cases e) (auto simp: queue_effect_def)
qed

section \<open>Properties\<close>

text \<open>One worker goes to sleep, a task arrives and wakes it.\<close>

definition sample_pool :: "nat list \<Rightarrow> nat ThreadPool" where
  "sample_pool q = \<lparr>numThreads = 1, task_queue = q, maxQueueSize = 0, pool_running = True\<rparr>"

lemma sample_pool_reach:
  "pool_reach [Tau, Tau, Tau, Push 7] \<lparr>pool = sample_pool [7], workers = [Entering], callers = []\<rparr>"
proof -
  let ?s = "\<lambda>q ws cs. \<lparr>pool = sample_pool q, workers = ws, callers = cs\<rparr>"
  have "pool_reach [] (?s [] [Testing] [])"
    using pool_reach.start [of 1 0 "sample_pool []"]
    by (simp add: pool_start_def setMaxQueueSize_def newThreadPool_def sample_pool_def)
  moreover have "pool_step (?s [] [Testing] []) Tau (?s [] [Entering] [])"
    using pool_step.loop_test [of "?s [] [Testing] []" "[]" "[]"] by (simp add: sample_pool_def)
  moreover have "pool_step (?s [] [Entering] []) Tau (?s [] [Asleep] [])"
    using pool_step.take_waits [of "?s [] [Entering] []" "[]" "[]" "sample_pool []"]
    by (simp add: pool_take_def sample_pool_def)
  moreover have "pool_step (?s [] [Asleep] []) Tau (?s [] [Asleep] [Calling 7])"
    using pool_step.arrive [of "?s [] [Asleep] []" 7] by simp
  moreover have "pool_step (?s [] [Asleep] [Calling 7]) (Push 7) (?s [7] [Entering] [])"
    using pool_step.run_queued [of "?s [] [Asleep] [Calling 7]" "[]" 7 "[]" "sample_pool [7]" "[Entering]"]
      notify_worker.somebody [of "[]" "[]"] by (simp add: pool_run_def isFull_def sample_pool_def)
  ultimately have "pool_reach ((([] @ [Tau]) @ [Tau]) @ [Tau] @ [Push 7]) (?s [7] [Entering] [])"
    unfolding append_assoc [symmetric] by (intro pool_reach.step)
  then show ?thesis by simp
qed

text \<open>
  C23: the thread pool loses and repeats no task. Under every interleaving of callers
  and workers, with spurious wake-ups, the tasks queued so far are the tasks started so
  far, in the same order, followed by the tasks in the queue; a configured bound
  of the queue is never exceeded.
\<close>

theorem pool_fifo:
  assumes "pool_reach es s"
  shows "pushed es = started es @ task_queue (pool s)
     \<and> (0 < maxQueueSize (pool s) \<longrightarrow> length (task_queue (pool s)) \<le> maxQueueSize (pool s))"
  using pool_reach_ok [OF assms] by (simp add: pool_inv_def)

theorem pool_fifo_witness:
  "pushed [Tau, Tau, Tau, Push (7 :: nat)] = started [Tau, Tau, Tau, Push 7] @ task_queue (sample_pool [7])"
  using pool_fifo [OF sample_pool_reach] by simp

text \<open>
  C24: no wake-up is lost. In every reachable state, if a worker sleeps then for each
  queued task some other worker is about to enter the critical section; in particular the
  workers never all sleep on a non-empty queue. If a caller sleeps although the
  queue has room, another caller is about to enter. After \<^verbatim>\<open>stop\<close> nobody sleeps.
\<close>

theorem pool_no_lost_wakeup:
  assumes "pool_reach es s"
  shows "(Asleep \<in> set (workers s) \<longrightarrow>
            length (task_queue (pool s)) \<le> length (filter (\<lambda>w. w = Entering) (workers s)))
    \<and> (task_queue (pool s) \<noteq> [] \<longrightarrow> (\<exists>w\<in>set (workers s). w \<noteq> Asleep))
    \<and> (AsleepFull t \<in> set (callers s) \<and> \<not> isFull (pool s) \<longrightarrow> (\<exists>t'. Calling t' \<in> set (callers s)))
    \<and> (\<not> pool_running (pool s) \<longrightarrow> Asleep \<notin> set (workers s) \<and> AsleepFull t \<notin> set (callers s))"
proof -
  have inv: "pool_inv s" using pool_reach_ok [OF assms] by blast
  have a: "Asleep \<in> set (workers s) \<longrightarrow> pool_running (pool s) \<and> length (task_queue (pool s)) \<le> entering (workers s)"
    using inv by (simp add: pool_inv_def)
  have c: "AsleepFull t \<in> set (callers s) \<longrightarrow> pool_running (pool s) \<and> 0 < maxQueueSize (pool s)
      \<and> maxQueueSize (pool s) \<le> length (task_queue (pool s)) + calling (callers s)"
  proof
    assume "AsleepFull t \<in> set (callers s)"
    then have "\<exists>c\<in>set (callers s). \<not> is_calling c" by (intro bexI [of _ "AsleepFull t"]) simp_all
    then show "pool_running (pool s) \<and> 0 < maxQueueSize (pool s)
        \<and> maxQueueSize (pool s) \<le> length (task_queue (pool s)) + calling (callers s)"
      using inv by (simp add: pool_inv_def)
  qed
  have "\<exists>w\<in>set (workers s). w \<noteq> Asleep" if "task_queue (pool s) \<noteq> []"
  proof (rule ccontr)
    assume all: "\<not> ?thesis"
    then have "entering (workers s) = 0" by (auto simp: entering_def filter_empty_conv)
    moreover have "workers s \<noteq> []" using inv by (auto simp: pool_inv_def)
    then have "Asleep \<in> set (workers s)" using all by (cases "workers s") auto
    ultimately show False using a that by simp
  qed
  moreover have "\<exists>t'. Calling t' \<in> set (callers s)" if "AsleepFull t \<in> set (callers s)" "\<not> isFull (pool s)"
  proof -
    have "0 < calling (callers s)" using c that by (auto simp: isFull_def)
    then have "filter is_calling (callers s) \<noteq> []" by (auto simp: calling_def)
    then obtain c where mem: "c \<in> set (callers s)" and call: "is_calling c" by (auto simp: filter_empty_conv)
    from call obtain t' where "c = Calling t'" by (cases c) auto
    then show ?thesis using mem by blast
  qed
  ultimately show ?thesis using a c by (auto simp: entering_def)
qed

theorem pool_no_lost_wakeup_witness:
  "task_queue (sample_pool [7]) \<noteq> [] \<and> (\<exists>w\<in>set [Entering :: nat worker]. w \<noteq> Asleep)"
  using pool_no_lost_wakeup [OF sample_pool_reach] by (simp add: sample_pool_def)

end
