(* ===== verification/DbConn.thy ===== *)
theory DbConn
  imports ConnPool
begin

text \<open>
  \<^verbatim>\<open>CResultSet\<close>, \<^verbatim>\<open>CPrepareStatement\<close> and \<^verbatim>\<open>CDBConn\<close> of \<^verbatim>\<open>logic/mysql/db_pool.cc\<close>. The
  MySQL client library is a parameter, a record \<open>'m mysql\<close> of the calls the sources
  make, over an unknown server state. Shown: a statement is never executed on a
  connection that could not be checked or re-opened, and that values are read
  back by column name.
\<close>

section \<open>The client library\<close>

record mysql_res =
  res_fields :: "string list"
  res_rows :: "string option list list"   \<comment> \<open>a null column is \<open>None\<close>\<close>

record 'm mysql =
  mysql_ping :: "'m \<Rightarrow> bool \<times> 'm"
  mysql_open :: "'m \<Rightarrow> int \<times> 'm"   \<comment> \<open>\<^verbatim>\<open>mysql_init\<close> and \<^verbatim>\<open>mysql_real_connect\<close>: 1, 2 or 0\<close>
  mysql_query :: "string \<Rightarrow> 'm \<Rightarrow> bool \<times> 'm"
  mysql_store_result :: "'m \<Rightarrow> mysql_res option \<times> 'm"
  mysql_affected_rows :: "'m \<Rightarrow> nat"
  stmt_init :: "'m \<Rightarrow> bool"
  stmt_prepare :: "string \<Rightarrow> 'm \<Rightarrow> nat option \<times> 'm"    \<comment> \<open>the parameter count\<close>
  stmt_execute :: "string \<Rightarrow> string option list \<Rightarrow> 'm \<Rightarrow> nat option \<times> 'm"  \<comment> \<open>affected rows\<close>

section \<open>Result sets\<close>

record CResultSet =
  key_map :: "(string \<times> nat) list"
  rows :: "string option list list"
  row :: "string option list option"

text \<open>Column names are inserted in order; of two equal names the first one stays.\<close>

definition newCResultSet :: "mysql_res \<Rightarrow> CResultSet" where
  "newCResultSet res =
     \<lparr>key_map = zip (res_fields res) [0..<length (res_fields res)],
      rows = res_rows res, row = None\<rparr>"

definition Next :: "CResultSet \<Rightarrow> bool \<times> CResultSet" where
  "Next rs = (case rows rs of
                [] \<Rightarrow> (False, rs\<lparr>row := None\<rparr>)
              | r # rest \<Rightarrow> (True, rs\<lparr>row := Some r, rows := rest\<rparr>))"

definition GetIndex :: "CResultSet \<Rightarrow> string \<Rightarrow> nat option" where
  "GetIndex rs key = map_of (key_map rs) key"

text \<open>\<open>Inr None\<close> is a null pointer; without a current row the access is undefined.\<close>

definition column :: "CResultSet \<Rightarrow> nat \<Rightarrow> string option res" where
  "column rs i = (case row rs of None \<Rightarrow> Inl OutOfBounds
                  | Some r \<Rightarrow> if i < length r then Inr (r ! i) else Inl OutOfBounds)"

definition GetString :: "CResultSet \<Rightarrow> string \<Rightarrow> string option res" where
  "GetString rs key = (case GetIndex rs key of None \<Rightarrow> Inr None | Some i \<Rightarrow> column rs i)"

definition GetInt :: "CResultSet \<Rightarrow> string \<Rightarrow> int res" where
  "GetInt rs key =
     (case GetIndex rs key of
        None \<Rightarrow> Inr 0
      | Some i \<Rightarrow> and_then (column rs i)
                   (\<lambda>v. case v of None \<Rightarrow> Inl BadOptional | Some t \<Rightarrow> atoi t))"

section \<open>Prepared statements\<close>

record CPrepareStatement =
  stmt_sql :: "string option"     \<comment> \<open>\<open>None\<close>: no \<^verbatim>\<open>stmt_\<close>\<close>
  param_bind :: "string option list"

definition newCPrepareStatement :: CPrepareStatement where
  "newCPrepareStatement = \<lparr>stmt_sql = None, param_bind = []\<rparr>"

definition stmt_Init :: "'m mysql \<Rightarrow> string \<Rightarrow> CPrepareStatement \<times> 'm
    \<Rightarrow> bool \<times> CPrepareStatement \<times> 'm" where
  "stmt_Init M sql = (\<lambda>(st, m).
     let m = snd (mysql_ping M m) in
     if \<not> stmt_init M m then (False, st, m)
     else case stmt_prepare M sql m of
            (None, m) \<Rightarrow> (False, st\<lparr>stmt_sql := Some sql\<rparr>, m)
          | (Some cnt, m) \<Rightarrow> (True, st\<lparr>stmt_sql := Some sql, param_bind := replicate cnt None\<rparr>, m))"

definition SetParam :: "nat \<Rightarrow> string \<Rightarrow> CPrepareStatement \<Rightarrow> CPrepareStatement" where
  "SetParam i v st =
     (if length (param_bind st) \<le> i then st else st\<lparr>param_bind := (param_bind st)[i := Some v]\<rparr>)"

definition stmt_ExecuteUpdate :: "'m mysql \<Rightarrow> CPrepareStatement \<times> 'm \<Rightarrow> bool \<times> 'm" where
  "stmt_ExecuteUpdate M = (\<lambda>(st, m).
     case stmt_sql st of
       None \<Rightarrow> (False, m)
     | Some sql \<Rightarrow>
         (case stmt_execute M sql (param_bind st) m of
            (None, m) \<Rightarrow> (False, m)
          | (Some n, m) \<Rightarrow> (n \<noteq> 0, m)))"

section \<open>Connections\<close>

definition CDBConn_Init :: "'m mysql \<Rightarrow> 'm \<Rightarrow> int \<times> 'm" where
  "CDBConn_Init M m = mysql_open M m"

definition CheckAndReconnect :: "'m mysql \<Rightarrow> 'm \<Rightarrow> bool \<times> 'm" where
  "CheckAndReconnect M m =
     (let (alive, m) = mysql_ping M m in
      if alive then (True, m)
      else let (r, m) = CDBConn_Init M m in (r = 0, m))"

text \<open>The body that \<^verbatim>\<open>ExecuteCreate\<close>, \<^verbatim>\<open>ExecutePassQuery\<close>, \<^verbatim>\<open>ExecuteDrop\<close> and the
  transaction commands share.\<close>

definition run_sql :: "'m mysql \<Rightarrow> string \<Rightarrow> 'm \<Rightarrow> bool \<times> 'm" where
  "run_sql M sql m =
     (let (ok, m) = CheckAndReconnect M m in
      if \<not> ok then (False, m) else mysql_query M sql m)"

definition ExecuteCreate :: "'m mysql \<Rightarrow> string \<Rightarrow> 'm \<Rightarrow> bool \<times> 'm" where
  "ExecuteCreate M sql m = run_sql M (c_str sql) m"

definition ExecutePassQuery :: "'m mysql \<Rightarrow> string \<Rightarrow> 'm \<Rightarrow> bool \<times> 'm" where
  "ExecutePassQuery M sql m = run_sql M (c_str sql) m"

definition ExecuteDrop :: "'m mysql \<Rightarrow> string \<Rightarrow> 'm \<Rightarrow> bool \<times> 'm" where
  "ExecuteDrop M sql m = run_sql M (c_str sql) m"

text \<open>The result set and the row number, or \<open>None\<close> for a null pointer.\<close>

definition ExecuteQuery :: "'m mysql \<Rightarrow> string \<Rightarrow> 'm \<Rightarrow> (CResultSet \<times> nat) option \<times> 'm" where
  "ExecuteQuery M sql m =
     (let (ok, m) = CheckAndReconnect M m in
      if \<not> ok then (None, m)
      else
        let (ok, m) = mysql_query M (c_str sql) m in
        if \<not> ok then (None, m)
        else case mysql_store_result M m of
               (None, m) \<Rightarrow> (None, m)
             | (Some res, m) \<Rightarrow> (Some (newCResultSet res, length (res_rows res)), m))"

definition ExecuteUpdate :: "'m mysql \<Rightarrow> string \<Rightarrow> bool \<Rightarrow> 'm \<Rightarrow> bool \<times> 'm" where
  "ExecuteUpdate M sql care_affected_rows m =
     (let (ok, m) = run_sql M (c_str sql) m in
      if \<not> ok then (False, m)
      else (0 < mysql_affected_rows M m \<or> \<not> care_affected_rows, m))"

definition StartTransaction :: "'m mysql \<Rightarrow> 'm \<Rightarrow> bool \<times> 'm" where
  "StartTransaction M m = run_sql M ''start transaction'' m"

definition Rollback :: "'m mysql \<Rightarrow> 'm \<Rightarrow> bool \<times> 'm" where
  "Rollback M m = run_sql M ''rollback'' m"

definition Commit :: "'m mysql \<Rightarrow> 'm \<Rightarrow> bool \<times> 'm" where
  "Commit M m = run_sql M ''commit'' m"

section \<open>Lemmas\<close>

lemma rows_Next: "rows (snd (Next rs)) = tl (rows rs)" "key_map (snd (Next rs)) = key_map rs"
  by (simp_all add: Next_def split: list.split)

lemma map_of_zip_range:
  "distinct ks \<Longrightarrow> i < length ks \<Longrightarrow> map_of (zip ks [0..<length ks]) (ks ! i) = Some i"
  by (simp add: map_of_zip_nth)

section \<open>Properties\<close>

text \<open>
  Reading a result set row by row and by column name gives exactly the
  table: after \<open>n + 1\<close> calls of \<^verbatim>\<open>Next\<close> the value of a column is the entry of
  row \<open>n\<close> in the position of that name, and an unknown name gives a null pointer.
\<close>

theorem result_set_table:
  assumes "distinct (res_fields res)" "n < length (res_rows res)"
    and "length (res_rows res ! n) = length (res_fields res)"
  shows "fst (Next (((snd \<circ> Next) ^^ n) (newCResultSet res)))
    \<and> (\<forall>i < length (res_fields res).
         GetString (((snd \<circ> Next) ^^ Suc n) (newCResultSet res)) (res_fields res ! i)
           = Inr (res_rows res ! n ! i))
    \<and> (\<forall>k. k \<notin> set (res_fields res) \<longrightarrow>
         GetString (((snd \<circ> Next) ^^ Suc n) (newCResultSet res)) k = Inr None)"
proof -
  let ?st = "\<lambda>n. ((snd \<circ> Next) ^^ n) (newCResultSet res)"
  have st: "key_map (?st n) = zip (res_fields res) [0..<length (res_fields res)]
      \<and> rows (?st n) = drop n (res_rows res)" for n
  proof (induction n)
    case (Suc n)
    then show ?case by (simp add: rows_Next drop_Suc tl_drop)
  qed (simp add: newCResultSet_def)
  obtain rest where d: "drop n (res_rows res) = res_rows res ! n # rest"
    using assms(2) by (metis Cons_nth_drop_Suc)
  have cur: "row (?st (Suc n)) = Some (res_rows res ! n)"
    using st [of n] d by (simp add: Next_def)
  have next_ok: "fst (Next (?st n))" using st [of n] d by (simp add: Next_def)
  have "GetIndex (?st (Suc n)) = map_of (zip (res_fields res) [0..<length (res_fields res)])"
    using st [of "Suc n"] by (simp add: GetIndex_def fun_eq_iff)
  with cur next_ok assms show ?thesis
    by (auto simp: GetString_def column_def map_of_zip_range map_of_zip_is_None split: option.splits
        dest: set_zip_leftD)
qed

theorem result_set_table_witness:
  "GetString (((snd \<circ> Next) ^^ Suc 0) (newCResultSet
     \<lparr>res_fields = [''id'', ''name''], res_rows = [[Some ''7'', None]]\<rparr>)) ''name'' = Inr None"
proof -
  let ?res = "\<lparr>res_fields = [''id'', ''name''], res_rows = [[Some ''7'', None]]\<rparr>"
  have "distinct (res_fields ?res)" "0 < length (res_rows ?res)"
    "length (res_rows ?res ! 0) = length (res_fields ?res)" by simp_all
  from result_set_table [OF this] show ?thesis by force
qed

text \<open>
  No SQL is sent over a connection that is lost and cannot be re-opened:
  every statement method then fails, in the state the failed reconnect left.
\<close>

theorem no_sql_without_connection:
  assumes "mysql_ping M m = (False, m1)" "mysql_open M m1 = (r, m2)" "r \<noteq> 0"
  shows "ExecuteCreate M sql m = (False, m2) \<and> ExecuteDrop M sql m = (False, m2)
    \<and> ExecutePassQuery M sql m = (False, m2) \<and> ExecuteQuery M sql m = (None, m2)
    \<and> ExecuteUpdate M sql care m = (False, m2) \<and> StartTransaction M m = (False, m2)
    \<and> Commit M m = (False, m2) \<and> Rollback M m = (False, m2)"
  using assms
  by (simp add: ExecuteCreate_def ExecuteDrop_def ExecutePassQuery_def ExecuteQuery_def
      ExecuteUpdate_def StartTransaction_def Commit_def Rollback_def run_sql_def
      CheckAndReconnect_def CDBConn_Init_def)

definition dead_mysql :: "nat mysql" where
  "dead_mysql = \<lparr>mysql_ping = (\<lambda>m. (False, m)), mysql_open = (\<lambda>m. (2, Suc m)),
     mysql_query = (\<lambda>_ m. (True, m)), mysql_store_result = (\<lambda>m. (None, m)),
     mysql_affected_rows = (\<lambda>_. 0), stmt_init = (\<lambda>_. False),
     stmt_prepare = (\<lambda>_ m. (None, m)), stmt_execute = (\<lambda>_ _ m. (None, m))\<rparr>"

theorem no_sql_without_connection_witness:
  "ExecuteUpdate dead_mysql ''DELETE'' True 0 = (False, 1)"
  using no_sql_without_connection [of dead_mysql 0 0 2 1 "''DELETE''" True]
  by (simp add: dead_mysql_def)

end
