(* ===== verification/JsonApi.thy ===== *)
theory JsonApi
  imports ChatPrelude
begin

text \<open>
  The services use jsoncpp, which is not part of the repository. It is a
  parameter of the model: a record of the operations of \<^verbatim>\<open>Json::Value\<close>,
  \<^verbatim>\<open>Json::Reader\<close> and \<^verbatim>\<open>Json::FastWriter\<close> that the sources call, over an unknown type
  of values. \<open>json_laws\<close> collects what the sources rely on: a written document
  parses to itself, a member that was assigned is read back, the conversions of
  strings, numbers and booleans are exact. A conversion that jsoncpp refuses
  throws, here \<open>Inl JsonError\<close>. The last section gives an instance, which shows the
  laws are consistent and on which witnesses are evaluated.
\<close>

section \<open>The operations\<close>

record 'v json_api =
  jparse :: "string \<Rightarrow> 'v option"     \<comment> \<open>\<^verbatim>\<open>Reader::parse\<close>, \<^verbatim>\<open>CharReader::parse\<close>\<close>
  jwrite :: "'v \<Rightarrow> string"            \<comment> \<open>\<^verbatim>\<open>FastWriter::write\<close>\<close>
  jnull :: 'v                        \<comment> \<open>\<^verbatim>\<open>Json::Value v;\<close>\<close>
  jarray :: 'v                       \<comment> \<open>\<^verbatim>\<open>Json::Value v(Json::arrayValue);\<close>\<close>
  jstr :: "string \<Rightarrow> 'v"
  jint :: "int \<Rightarrow> 'v"
  jbool :: "bool \<Rightarrow> 'v"
  jset :: "'v \<Rightarrow> string \<Rightarrow> 'v \<Rightarrow> 'v"    \<comment> \<open>\<^verbatim>\<open>v[k] = x\<close> on a null or object value\<close>
  jappend :: "'v \<Rightarrow> 'v \<Rightarrow> 'v"         \<comment> \<open>\<^verbatim>\<open>v.append(x)\<close>, \<^verbatim>\<open>v[size] = x\<close> on a null or array value\<close>
  jget :: "'v \<Rightarrow> string \<Rightarrow> 'v res"     \<comment> \<open>\<^verbatim>\<open>v[k]\<close>\<close>
  jmember :: "'v \<Rightarrow> string \<Rightarrow> bool res" \<comment> \<open>\<^verbatim>\<open>v.isMember(k)\<close>\<close>
  jisnull :: "'v \<Rightarrow> bool"
  jisobject :: "'v \<Rightarrow> bool"
  jisbool :: "'v \<Rightarrow> bool"
  jas_string :: "'v \<Rightarrow> string res"
  jas_int :: "'v \<Rightarrow> int res"
  jas_int64 :: "'v \<Rightarrow> int res"
  jas_bool :: "'v \<Rightarrow> bool res"
  jelems :: "'v \<Rightarrow> 'v list"          \<comment> \<open>the values a range \<^verbatim>\<open>for\<close> visits\<close>

text \<open>An object filled member by member, as the sources do it.\<close>

definition jobject :: "'v json_api \<Rightarrow> (string \<times> 'v) list \<Rightarrow> 'v" where
  "jobject J kvs = foldl (\<lambda>v (k, x). jset J v k x) (jnull J) kvs"

text \<open>An array filled with \<^verbatim>\<open>append\<close>.\<close>

definition jlist :: "'v json_api \<Rightarrow> 'v list \<Rightarrow> 'v" where
  "jlist J xs = foldl (jappend J) (jarray J) xs"

text \<open>An array filled from a null value by \<^verbatim>\<open>v[i] = x\<close> with \<open>i\<close> from 0 on; null when nothing is stored.\<close>

definition jindexed :: "'v json_api \<Rightarrow> 'v list \<Rightarrow> 'v" where
  "jindexed J xs = foldl (jappend J) (jnull J) xs"

text \<open>\<^verbatim>\<open>v.get(k, d)\<close>.\<close>

definition jget_default :: "'v json_api \<Rightarrow> 'v \<Rightarrow> string \<Rightarrow> 'v \<Rightarrow> 'v res" where
  "jget_default J v k d =
     and_then (jmember J v k) (\<lambda>b. if b then jget J v k else Inr d)"

text \<open>\<^verbatim>\<open>v[k].asString()\<close> and \<^verbatim>\<open>v[k].isNull()\<close>.\<close>

definition jget_string :: "'v json_api \<Rightarrow> 'v \<Rightarrow> string \<Rightarrow> string res" where
  "jget_string J v k = and_then (jget J v k) (jas_string J)"

definition jget_null :: "'v json_api \<Rightarrow> 'v \<Rightarrow> string \<Rightarrow> bool res" where
  "jget_null J v k = and_then (jget J v k) (\<lambda>x. Inr (jisnull J x))"

text \<open>\<^verbatim>\<open>!v.isMember(k) || v[k].isNull()\<close>, evaluated from the left.\<close>

definition jlacks :: "'v json_api \<Rightarrow> 'v \<Rightarrow> string \<Rightarrow> bool res" where
  "jlacks J v k = and_then (jmember J v k) (\<lambda>b. if b then jget_null J v k else Inr True)"

text \<open>\<^verbatim>\<open>!v.isMember(k1) || !v.isMember(k2) || ...\<close>.\<close>

fun jmissing :: "'v json_api \<Rightarrow> 'v \<Rightarrow> string list \<Rightarrow> bool res" where
  "jmissing J v [] = Inr False"
| "jmissing J v (k # ks) = and_then (jmember J v k) (\<lambda>b. if b then jmissing J v ks else Inr True)"

section \<open>The laws\<close>

definition json_laws :: "'v json_api \<Rightarrow> bool" where
  "json_laws J \<longleftrightarrow>
     (\<forall>v. jparse J (jwrite J v) = Some v)
   \<and> jisnull J (jnull J)
   \<and> (\<forall>k. jget J (jnull J) k = Inr (jnull J) \<and> jmember J (jnull J) k = Inr False)
   \<and> (\<forall>v k x. jisnull J v \<or> jisobject J v \<longrightarrow>
        jisobject J (jset J v k x) \<and> \<not> jisnull J (jset J v k x)
        \<and> (\<forall>k'. jget J (jset J v k x) k' = (if k' = k then Inr x else jget J v k')
              \<and> jmember J (jset J v k x) k' = (if k' = k then Inr True else jmember J v k')))
   \<and> (\<forall>s. jas_string J (jstr J s) = Inr s \<and> \<not> jisnull J (jstr J s))
   \<and> (\<forall>i. int_range i \<longrightarrow> jas_int J (jint J i) = Inr i)
   \<and> (\<forall>i. 0 \<le> i \<and> i < 2 ^ 63 \<longrightarrow> jas_int64 J (jint J i) = Inr i \<and> \<not> jisnull J (jint J i))
   \<and> (\<forall>b. jas_bool J (jbool J b) = Inr b \<and> jisbool J (jbool J b))
   \<and> jelems J (jarray J) = []
   \<and> (\<forall>x. jappend J (jnull J) x = jappend J (jarray J) x)
   \<and> (\<forall>xs x. jelems J (jappend J (jlist J xs) x) = jelems J (jlist J xs) @ [x])"

lemma jparse_write: "json_laws J \<Longrightarrow> jparse J (jwrite J v) = Some v"
  by (simp add: json_laws_def)

lemma jnull_simps:
  "json_laws J \<Longrightarrow> jisnull J (jnull J)"
  "json_laws J \<Longrightarrow> jget J (jnull J) k = Inr (jnull J)"
  "json_laws J \<Longrightarrow> jmember J (jnull J) k = Inr False"
  by (simp_all add: json_laws_def)

lemma jvalue_simps:
  "json_laws J \<Longrightarrow> jas_string J (jstr J s) = Inr s"
  "json_laws J \<Longrightarrow> \<not> jisnull J (jstr J s)"
  "json_laws J \<Longrightarrow> int_range i \<Longrightarrow> jas_int J (jint J i) = Inr i"
  "json_laws J \<Longrightarrow> 0 \<le> i \<Longrightarrow> i < 2 ^ 63 \<Longrightarrow> jas_int64 J (jint J i) = Inr i"
  "json_laws J \<Longrightarrow> 0 \<le> i \<Longrightarrow> i < 2 ^ 63 \<Longrightarrow> \<not> jisnull J (jint J i)"
  "json_laws J \<Longrightarrow> jas_bool J (jbool J b) = Inr b"
  "json_laws J \<Longrightarrow> jisbool J (jbool J b)"
  by (simp_all add: json_laws_def)

lemma jset_simps:
  assumes "json_laws J" "jisnull J v \<or> jisobject J v"
  shows "jisobject J (jset J v k x)" "\<not> jisnull J (jset J v k x)"
    "jget J (jset J v k x) k' = (if k' = k then Inr x else jget J v k')"
    "jmember J (jset J v k x) k' = (if k' = k then Inr True else jmember J v k')"
  using assms by (auto simp: json_laws_def)

lemma jobject_snoc: "jobject J (kvs @ [kx]) = jset J (jobject J kvs) (fst kx) (snd kx)"
  by (simp add: jobject_def split: prod.split)

lemma jobject_shape:
  assumes "json_laws J"
  shows "jisnull J (jobject J kvs) \<or> jisobject J (jobject J kvs)"
proof (induction kvs rule: rev_induct)
  case Nil
  then show ?case using jnull_simps(1) [OF assms] by (simp add: jobject_def)
next
  case (snoc kx kvs)
  then show ?case using jset_simps(1) [OF assms] by (simp add: jobject_snoc)
qed

lemma jobject_get:
  assumes "json_laws J"
  shows "jget J (jobject J kvs) k = Inr (case map_of (rev kvs) k of None \<Rightarrow> jnull J | Some x \<Rightarrow> x)"
proof (induction kvs rule: rev_induct)
  case Nil
  then show ?case using jnull_simps [OF assms] by (simp add: jobject_def)
next
  case (snoc kx kvs)
  then show ?case
    using jset_simps(3) [OF assms jobject_shape [OF assms]] by (simp add: jobject_snoc)
qed

lemma jobject_member:
  assumes "json_laws J"
  shows "jmember J (jobject J kvs) k = Inr (k \<in> fst ` set kvs)"
proof (induction kvs rule: rev_induct)
  case Nil
  then show ?case using jnull_simps [OF assms] by (simp add: jobject_def)
next
  case (snoc kx kvs)
  then show ?case
    using jset_simps(4) [OF assms jobject_shape [OF assms]] by (simp add: jobject_snoc)
qed

lemma jobject_not_null:
  assumes "json_laws J" "kvs \<noteq> []"
  shows "\<not> jisnull J (jobject J kvs)" "jisobject J (jobject J kvs)"
proof -
  obtain ys y where y: "kvs = ys @ [y]" using assms(2) by (cases kvs rule: rev_cases) auto
  show "\<not> jisnull J (jobject J kvs)" "jisobject J (jobject J kvs)"
    using jset_simps(1,2) [OF assms(1) jobject_shape [OF assms(1)]] y by (simp_all add: jobject_snoc)
qed

lemma jlist_elems: "json_laws J \<Longrightarrow> jelems J (jlist J xs) = xs"
proof (induction xs rule: rev_induct)
  case Nil
  then show ?case by (simp add: jlist_def json_laws_def)
next
  case (snoc x xs)
  then have "jelems J (jappend J (jlist J xs) x) = jelems J (jlist J xs) @ [x]"
    by (simp add: json_laws_def)
  with snoc show ?case by (simp add: jlist_def)
qed

lemma jindexed_jlist: "json_laws J \<Longrightarrow> xs \<noteq> [] \<Longrightarrow> jindexed J xs = jlist J xs"
  by (cases xs) (simp_all add: jindexed_def jlist_def json_laws_def)

lemmas json_simps = jparse_write jnull_simps jvalue_simps jobject_get jobject_member
  jobject_not_null jlist_elems

section \<open>An instance\<close>

datatype jv = JNull | JBool bool | JInt int | JStr string | JArr "jv list" | JObj "(string \<times> jv) list"

text \<open>A self-delimiting text form: each character of a string is preceded by a dot.\<close>

definition enc_str :: "string \<Rightarrow> string" where
  "enc_str s = concat (map (\<lambda>c. [CHR ''.'', c]) s) @ '';''"

fun dec_str :: "string \<Rightarrow> (string \<times> string) option" where
  "dec_str (d # c # cs) =
     (if d = CHR ''.'' then map_option (\<lambda>(s, r). (c # s, r)) (dec_str cs)
      else if d = CHR '';'' then Some ([], c # cs) else None)"
| "dec_str [d] = (if d = CHR '';'' then Some ([], []) else None)"
| "dec_str [] = None"

fun enc_jv :: "jv \<Rightarrow> string" where
  "enc_jv JNull = ''n''"
| "enc_jv (JBool b) = (if b then ''t'' else ''f'')"
| "enc_jv (JInt i) = (if i < 0 then ''-'' else ''+'') @ enc_str (dec (nat \<bar>i\<bar>))"
| "enc_jv (JStr s) = CHR ''s'' # enc_str s"
| "enc_jv (JArr xs) = CHR ''['' # concat (map (\<lambda>x. CHR '','' # enc_jv x) xs) @ '']''"
| "enc_jv (JObj kvs) = CHR ''{'' # concat (map (\<lambda>(k, x). CHR '','' # enc_str k @ enc_jv x) kvs) @ ''}''"

fun dec_jv :: "nat \<Rightarrow> string \<Rightarrow> (jv \<times> string) option"
  and dec_elems :: "nat \<Rightarrow> string \<Rightarrow> (jv list \<times> string) option"
  and dec_members :: "nat \<Rightarrow> string \<Rightarrow> ((string \<times> jv) list \<times> string) option" where
  "dec_jv 0 s = None"
| "dec_jv (Suc n) s =
     (case s of [] \<Rightarrow> None | c # cs \<Rightarrow>
        if c = CHR ''n'' then Some (JNull, cs)
        else if c = CHR ''t'' then Some (JBool True, cs)
        else if c = CHR ''f'' then Some (JBool False, cs)
        else if c = CHR ''+'' then map_option (\<lambda>(d, r). (JInt (int (dec_val d)), r)) (dec_str cs)
        else if c = CHR ''-'' then map_option (\<lambda>(d, r). (JInt (- int (dec_val d)), r)) (dec_str cs)
        else if c = CHR ''s'' then map_option (\<lambda>(t, r). (JStr t, r)) (dec_str cs)
        else if c = CHR ''['' then map_option (\<lambda>(xs, r). (JArr xs, r)) (dec_elems n cs)
        else if c = CHR ''{'' then map_option (\<lambda>(xs, r). (JObj xs, r)) (dec_members n cs)
        else None)"
| "dec_elems 0 s = None"
| "dec_elems (Suc n) s =
     (case s of [] \<Rightarrow> None | c # cs \<Rightarrow>
        if c = CHR '']'' then Some ([], cs)
        else case dec_jv n cs of None \<Rightarrow> None
          | Some (x, r) \<Rightarrow> map_option (\<lambda>(xs, r'). (x # xs, r')) (dec_elems n r))"
| "dec_members 0 s = None"
| "dec_members (Suc n) s =
     (case s of [] \<Rightarrow> None | c # cs \<Rightarrow>
        if c = CHR ''}'' then Some ([], cs)
        else case dec_str cs of None \<Rightarrow> None
          | Some (k, r0) \<Rightarrow>
              (case dec_jv n r0 of None \<Rightarrow> None
               | Some (x, r) \<Rightarrow> map_option (\<lambda>(xs, r'). ((k, x) # xs, r')) (dec_members n r)))"

lemma dec_enc_str: "dec_str (enc_str s @ r) = Some (s, r)"
proof (induction s)
  case Nil
  then show ?case by (cases r) (simp_all add: enc_str_def)
next
  case (Cons c s)
  then show ?case by (simp add: enc_str_def)
qed

lemma dec_elems_enc:
  assumes "\<And>x m r. x \<in> set xs \<Longrightarrow> length (enc_jv x) \<le> m \<Longrightarrow> dec_jv m (enc_jv x @ r) = Some (x, r)"
    and "length (concat (map (\<lambda>x. CHR '','' # enc_jv x) xs)) < n"
  shows "dec_elems n (concat (map (\<lambda>x. CHR '','' # enc_jv x) xs) @ CHR '']'' # r) = Some (xs, r)"
  using assms
proof (induction xs arbitrary: n)
  case Nil
  then show ?case by (cases n) simp_all
next
  case (Cons x xs)
  then obtain m where m: "n = Suc m" by (cases n) auto
  have "dec_jv m (enc_jv x @ t) = Some (x, t)" for t
    using Cons.prems m by simp
  moreover have "dec_elems m (concat (map (\<lambda>x. CHR '','' # enc_jv x) xs) @ CHR '']'' # r) = Some (xs, r)"
    using Cons.prems m by (intro Cons.IH) simp_all
  ultimately show ?case using m by simp
qed

lemma dec_members_enc:
  assumes "\<And>k x m r. (k, x) \<in> set kvs \<Longrightarrow> length (enc_jv x) \<le> m \<Longrightarrow> dec_jv m (enc_jv x @ r) = Some (x, r)"
    and "length (concat (map (\<lambda>(k, x). CHR '','' # enc_str k @ enc_jv x) kvs)) < n"
  shows "dec_members n (concat (map (\<lambda>(k, x). CHR '','' # enc_str k @ enc_jv x) kvs) @ CHR ''}'' # r)
           = Some (kvs, r)"
  using assms
proof (induction kvs arbitrary: n)
  case Nil
  then show ?case by (cases n) simp_all
next
  case (Cons kx kvs)
  obtain k x where kx: "kx = (k, x)" by (cases kx)
  from Cons obtain m where m: "n = Suc m" by (cases n) auto
  have "dec_jv m (enc_jv x @ t) = Some (x, t)" for t
    using Cons.prems(2) m kx by (intro Cons.prems(1) [of k]) simp_all
  moreover have "dec_members m (concat (map (\<lambda>(k, x). CHR '','' # enc_str k @ enc_jv x) kvs)
      @ CHR ''}'' # r) = Some (kvs, r)"
    using Cons.prems m kx by (intro Cons.IH) (simp_all, blast)
  ultimately show ?case using m kx by (simp add: dec_enc_str)
qed

lemma dec_enc_jv: "length (enc_jv v) \<le> n \<Longrightarrow> dec_jv n (enc_jv v @ r) = Some (v, r)"
proof (induction v arbitrary: n r)
  case (JInt i)
  then show ?case by (cases n) (auto simp: dec_enc_str split: if_splits)
next
  case (JStr s)
  then show ?case by (cases n) (auto simp: dec_enc_str)
next
  case (JArr xs)
  then obtain m where m: "n = Suc m" by (cases n) auto
  have "dec_elems m (concat (map (\<lambda>x. CHR '','' # enc_jv x) xs) @ CHR '']'' # r) = Some (xs, r)"
    using JArr m by (intro dec_elems_enc) simp_all
  with m show ?case by simp
next
  case (JObj kvs)
  then obtain m where m: "n = Suc m" by (cases n) auto
  have "dec_members m (concat (map (\<lambda>(k, x). CHR '','' # enc_str k @ enc_jv x) kvs)
      @ CHR ''}'' # r) = Some (kvs, r)"
    using JObj m by (intro dec_members_enc) force+
  with m show ?case by simp
qed (auto simp: gr0_conv_Suc Suc_le_eq)

definition jv_api :: "jv json_api" where
  "jv_api = \<lparr>
     jparse = (\<lambda>s. case dec_jv (length s) s of Some (v, []) \<Rightarrow> Some v | _ \<Rightarrow> None),
     jwrite = enc_jv, jnull = JNull, jarray = JArr [], jstr = JStr, jint = JInt, jbool = JBool,
     jset = (\<lambda>v k x. case v of JObj m \<Rightarrow> JObj (AList.update k x m) | _ \<Rightarrow> JObj [(k, x)]),
     jappend = (\<lambda>v x. case v of JArr xs \<Rightarrow> JArr (xs @ [x]) | _ \<Rightarrow> JArr [x]),
     jget = (\<lambda>v k. case v of JObj m \<Rightarrow> Inr (case map_of m k of None \<Rightarrow> JNull | Some x \<Rightarrow> x)
               | JNull \<Rightarrow> Inr JNull | _ \<Rightarrow> Inl JsonError),
     jmember = (\<lambda>v k. case v of JObj m \<Rightarrow> Inr (map_of m k \<noteq> None)
                  | JNull \<Rightarrow> Inr False | _ \<Rightarrow> Inl JsonError),
     jisnull = (\<lambda>v. v = JNull), jisobject = (\<lambda>v. case v of JObj _ \<Rightarrow> True | _ \<Rightarrow> False),
     jisbool = (\<lambda>v. case v of JBool _ \<Rightarrow> True | _ \<Rightarrow> False),
     jas_string = (\<lambda>v. case v of JStr s \<Rightarrow> Inr s | JNull \<Rightarrow> Inr []
                     | JBool b \<Rightarrow> Inr (if b then ''true'' else ''false'')
                     | JInt i \<Rightarrow> Inr ((if i < 0 then ''-'' else []) @ dec (nat \<bar>i\<bar>))
                     | _ \<Rightarrow> Inl JsonError),
     jas_int = (\<lambda>v. case v of JInt i \<Rightarrow> (if int_range i then Inr i else Inl JsonError)
                  | JNull \<Rightarrow> Inr 0 | JBool b \<Rightarrow> Inr (if b then 1 else 0) | _ \<Rightarrow> Inl JsonError),
     jas_int64 = (\<lambda>v. case v of JInt i \<Rightarrow> (if - (2 ^ 63) \<le> i \<and> i < 2 ^ 63 then Inr i else Inl JsonError)
                    | JNull \<Rightarrow> Inr 0 | JBool b \<Rightarrow> Inr (if b then 1 else 0) | _ \<Rightarrow> Inl JsonError),
     jas_bool = (\<lambda>v. case v of JBool b \<Rightarrow> Inr b | JNull \<Rightarrow> Inr False
                   | JInt i \<Rightarrow> Inr (i \<noteq> 0) | _ \<Rightarrow> Inl JsonError),
     jelems = (\<lambda>v. case v of JArr xs \<Rightarrow> xs | JObj m \<Rightarrow> map snd m | _ \<Rightarrow> [])\<rparr>"

lemma jlist_jv: "jlist jv_api xs = JArr xs"
proof -
  have "foldl (jappend jv_api) (JArr ys) xs = JArr (ys @ xs)" for ys
    by (induction xs arbitrary: ys) (simp_all add: jv_api_def)
  then show ?thesis by (simp add: jlist_def) (simp add: jv_api_def)
qed

lemma json_laws_jv: "json_laws jv_api"
  unfolding json_laws_def jlist_jv
  using dec_enc_jv [of _ _ "[]"]
  by (auto simp: jv_api_def update_conv' split: jv.splits)

declare enc_jv.simps [simp del] dec_jv.simps [simp del]

lemma jparse_enc [simp]: "jparse jv_api (enc_jv v) = Some v"
  using jparse_write [OF json_laws_jv, of v] by (simp add: jv_api_def)

lemma jv_api_simps [simp]:
  "jwrite jv_api = enc_jv" "jnull jv_api = JNull" "jarray jv_api = JArr []"
  "jstr jv_api = JStr" "jint jv_api = JInt" "jbool jv_api = JBool"
  "jset jv_api JNull k x = JObj [(k, x)]"
  "jset jv_api (JObj m) k x = JObj (AList.update k x m)"
  "jget jv_api (JObj m) k = Inr (case map_of m k of None \<Rightarrow> JNull | Some x \<Rightarrow> x)"
  "jmember jv_api (JObj m) k = Inr (map_of m k \<noteq> None)"
  "jisnull jv_api v = (v = JNull)" "jisobject jv_api (JObj m)"
  "jisbool jv_api (JBool b)"
  "jas_string jv_api (JStr s) = Inr s" "jas_string jv_api JNull = Inr []"
  "jas_bool jv_api (JBool b) = Inr b" "jelems jv_api (JArr xs) = xs"
  "jas_int jv_api (JInt i) = (if int_range i then Inr i else Inl JsonError)"
  "jas_string jv_api (JObj m) = Inl JsonError" "\<not> jisobject jv_api (JArr xs)"
  by (simp_all add: jv_api_def)

end
