(* ===== verification/PubSub.thy ===== *)
theory PubSub
  imports ChatPrelude
begin

text \<open>
  \<^verbatim>\<open>chat-room/service/pub_sub_service.h\<close> and \<^verbatim>\<open>.cc\<close>: the rooms a comet server knows
  and the users subscribed to each, with the list of rooms that new connections
  join. The map is a finite map from room ids; an \<^verbatim>\<open>unordered_set\<close> of user ids is a
  list without repetition, whose order carries no meaning. The mutex makes each
  operation one step. An abstract specification (a set of users per room) is
  stated as a locale and the service is shown to implement it.
\<close>

section \<open>Rooms and their subscribers\<close>

record Room =
  r_room_id :: string
  r_room_name :: string
  r_creator_id :: string
  r_create_time :: string
  r_update_time :: string
  r_history_last_message_id :: string

record RoomTopic =
  room_id :: string
  room_topic :: string
  creator_id :: string
  user_ids :: "string list"

record PubSubService =
  room_topic_map :: "string \<rightharpoonup> RoomTopic"
  s_room_list :: "Room list"

definition newRoomTopic :: "string \<Rightarrow> string \<Rightarrow> string \<Rightarrow> RoomTopic" where
  "newRoomTopic rid topic creator =
     \<lparr>room_id = rid, room_topic = topic, creator_id = creator, user_ids = []\<rparr>"

definition topic_AddSubscriber :: "string \<Rightarrow> RoomTopic \<Rightarrow> RoomTopic" where
  "topic_AddSubscriber uid t = t\<lparr>user_ids := List.insert uid (user_ids t)\<rparr>"

definition topic_DeleteSubscriber :: "string \<Rightarrow> RoomTopic \<Rightarrow> RoomTopic" where
  "topic_DeleteSubscriber uid t = t\<lparr>user_ids := remove1 uid (user_ids t)\<rparr>"

definition GetSubscribers :: "RoomTopic \<Rightarrow> string list" where
  "GetSubscribers t = user_ids t"

definition newPubSubService :: PubSubService where
  "newPubSubService = \<lparr>room_topic_map = Map.empty, s_room_list = []\<rparr>"

definition AddRoomTopic ::
    "string \<Rightarrow> string \<Rightarrow> string \<Rightarrow> PubSubService \<Rightarrow> bool \<times> PubSubService" where
  "AddRoomTopic rid topic creator s =
     (if room_topic_map s rid \<noteq> None then (False, s)
      else (True, s\<lparr>room_topic_map := (room_topic_map s)(rid \<mapsto> newRoomTopic rid topic creator)\<rparr>))"

text \<open>The test is the one of the source: it returns when the room is there.\<close>

definition DeleteRoomTopic :: "string \<Rightarrow> PubSubService \<Rightarrow> PubSubService" where
  "DeleteRoomTopic rid s =
     (if room_topic_map s rid \<noteq> None then s
      else s\<lparr>room_topic_map := (room_topic_map s)(rid := None)\<rparr>)"

definition AddSubscriber :: "string \<Rightarrow> string \<Rightarrow> PubSubService \<Rightarrow> bool \<times> PubSubService" where
  "AddSubscriber rid uid s =
     (case room_topic_map s rid of
        None \<Rightarrow> (False, s)
      | Some t \<Rightarrow>
          (True, s\<lparr>room_topic_map := (room_topic_map s)(rid \<mapsto> topic_AddSubscriber uid t)\<rparr>))"

definition DeleteSubscriber :: "string \<Rightarrow> string \<Rightarrow> PubSubService \<Rightarrow> PubSubService" where
  "DeleteSubscriber rid uid s =
     (case room_topic_map s rid of
        None \<Rightarrow> s
      | Some t \<Rightarrow> s\<lparr>room_topic_map := (room_topic_map s)(rid \<mapsto> topic_DeleteSubscriber uid t)\<rparr>)"

text \<open>
  \<^verbatim>\<open>PubSubMessage\<close> copies the subscribers under the lock and hands them to the
  callback, here a function on the state \<open>'w\<close> the callback works on.
\<close>

definition PubSubMessage ::
    "string \<Rightarrow> (string list \<Rightarrow> 'w \<Rightarrow> 'w) \<Rightarrow> PubSubService \<Rightarrow> 'w \<Rightarrow> 'w" where
  "PubSubMessage rid callback s w =
     (case room_topic_map s rid of None \<Rightarrow> w | Some t \<Rightarrow> callback (GetSubscribers t) w)"

definition GetRoomList :: "PubSubService \<Rightarrow> Room list" where
  "GetRoomList s = s_room_list s"

definition AddRoom :: "Room \<Rightarrow> PubSubService \<Rightarrow> int \<times> PubSubService" where
  "AddRoom room s =
     (if list_ex (\<lambda>r. r_room_id r = r_room_id room) (s_room_list s) then (- 1, s)
      else (0, s\<lparr>s_room_list := s_room_list s @ [room]\<rparr>))"

section \<open>The contract: a set of users per room\<close>

text \<open>What a subscription service promises, over its view \<open>subs\<close> of the state.\<close>

locale subscription =
  fixes inv :: "'s \<Rightarrow> bool" and subs :: "'s \<Rightarrow> string \<rightharpoonup> string set"
    and start :: 's
    and open_room :: "string \<Rightarrow> string \<Rightarrow> string \<Rightarrow> 's \<Rightarrow> bool \<times> 's"
    and join :: "string \<Rightarrow> string \<Rightarrow> 's \<Rightarrow> bool \<times> 's"
    and leave :: "string \<Rightarrow> string \<Rightarrow> 's \<Rightarrow> 's"
  assumes inv_start: "inv start" and subs_start: "subs start = Map.empty"
    and inv_open: "inv s \<Longrightarrow> inv (snd (open_room r t c s))"
    and inv_join: "inv s \<Longrightarrow> inv (snd (join r u s))"
    and inv_leave: "inv s \<Longrightarrow> inv (leave r u s)"
    and open_law: "inv s \<Longrightarrow> open_room r t c s = (b, s') \<Longrightarrow>
          b = (subs s r = None) \<and> subs s' = (if b then (subs s)(r \<mapsto> {}) else subs s)"
    and join_law: "inv s \<Longrightarrow> join r u s = (b, s') \<Longrightarrow>
          b = (subs s r \<noteq> None)
          \<and> subs s' = (subs s)(r := map_option (insert u) (subs s r))"
    and leave_law: "inv s \<Longrightarrow> subs (leave r u s) = (subs s)(r := map_option (\<lambda>U. U - {u}) (subs s r))"

datatype sub_op = Open string string string | Join string string | Leave string string

text \<open>The specification as a function: what a sequence of operations leads to.\<close>

fun spec_op :: "sub_op \<Rightarrow> (string \<rightharpoonup> string set) \<Rightarrow> (string \<rightharpoonup> string set)" where
  "spec_op (Open r t c) m = (if m r = None then m(r \<mapsto> {}) else m)"
| "spec_op (Join r u) m = m(r := map_option (insert u) (m r))"
| "spec_op (Leave r u) m = m(r := map_option (\<lambda>U. U - {u}) (m r))"

context subscription
begin

primrec run_op :: "sub_op \<Rightarrow> 's \<Rightarrow> 's" where
  "run_op (Open r t c) s = snd (open_room r t c s)"
| "run_op (Join r u) s = snd (join r u s)"
| "run_op (Leave r u) s = leave r u s"

definition run_ops :: "sub_op list \<Rightarrow> 's" where
  "run_ops os = foldl (\<lambda>s op. run_op op s) start os"

lemma run_op_refines: "inv s \<Longrightarrow> inv (run_op op s) \<and> subs (run_op op s) = spec_op op (subs s)"
proof (cases op)
  case (Open r t c)
  then show "inv s \<Longrightarrow> ?thesis"
    using inv_open [of s r t c] open_law [of s r t c] by (cases "open_room r t c s") auto
next
  case (Join r u)
  then show "inv s \<Longrightarrow> ?thesis"
    using inv_join [of s r u] join_law [of s r u] by (cases "join r u s") auto
next
  case (Leave r u)
  then show "inv s \<Longrightarrow> ?thesis" by (simp add: inv_leave leave_law)
qed

lemma run_ops_refines:
  "inv (run_ops os) \<and> subs (run_ops os) = foldl (\<lambda>m op. spec_op op m) Map.empty os"
proof (induction os rule: rev_induct)
  case Nil
  then show ?case by (simp add: run_ops_def inv_start subs_start)
next
  case (snoc op os)
  then show ?case using run_op_refines [of "run_ops os" op] by (simp add: run_ops_def)
qed

lemma join_leave_frame:
  "inv s \<Longrightarrow> r' \<noteq> r \<Longrightarrow> subs (snd (join r u s)) r' = subs s r' \<and> subs (leave r u s) r' = subs s r'"
  using join_law [of s r u] leave_law [of s r u] by (cases "join r u s") auto

end

section \<open>The service meets its contract\<close>

definition pubsub_inv :: "PubSubService \<Rightarrow> bool" where
  "pubsub_inv s \<longleftrightarrow>
     (\<forall>rid t. room_topic_map s rid = Some t \<longrightarrow> room_id t = rid \<and> distinct (user_ids t))
     \<and> distinct (map r_room_id (s_room_list s))"

definition subscribers :: "PubSubService \<Rightarrow> string \<rightharpoonup> string set" where
  "subscribers s rid = map_option (\<lambda>t. set (user_ids t)) (room_topic_map s rid)"

lemmas pubsub_ops = AddRoomTopic_def DeleteRoomTopic_def AddSubscriber_def DeleteSubscriber_def
  topic_AddSubscriber_def topic_DeleteSubscriber_def newRoomTopic_def

lemma AddRoomTopic_inv: "pubsub_inv s \<Longrightarrow> pubsub_inv (snd (AddRoomTopic r t c s))"
  by (auto simp: pubsub_inv_def pubsub_ops)

lemma AddSubscriber_inv: "pubsub_inv s \<Longrightarrow> pubsub_inv (snd (AddSubscriber r u s))"
  by (auto simp: pubsub_inv_def pubsub_ops split: option.splits)

lemma DeleteSubscriber_inv: "pubsub_inv s \<Longrightarrow> pubsub_inv (DeleteSubscriber r u s)"
  by (auto simp: pubsub_inv_def pubsub_ops split: option.splits)

lemma AddRoom_inv: "pubsub_inv s \<Longrightarrow> pubsub_inv (snd (AddRoom room s))"
  by (auto simp: pubsub_inv_def AddRoom_def list_ex_iff)

interpretation ps: subscription pubsub_inv subscribers newPubSubService
  AddRoomTopic AddSubscriber DeleteSubscriber
proof
  show "pubsub_inv newPubSubService" "subscribers newPubSubService = Map.empty"
    by (simp_all add: pubsub_inv_def newPubSubService_def subscribers_def fun_eq_iff)
next
  fix s r u b s'
  assume "pubsub_inv s" "AddSubscriber r u s = (b, s')"
  then show "b = (subscribers s r \<noteq> None)
      \<and> subscribers s' = (subscribers s)(r := map_option (insert u) (subscribers s r))"
    by (auto simp: subscribers_def pubsub_ops fun_eq_iff split: option.splits)
next
  fix s r u
  assume inv: "pubsub_inv s"
  show "subscribers (DeleteSubscriber r u s)
      = (subscribers s)(r := map_option (\<lambda>U. U - {u}) (subscribers s r))"
  proof (cases "room_topic_map s r")
    case None
    then show ?thesis by (auto simp: subscribers_def pubsub_ops fun_eq_iff)
  next
    case (Some t)
    with inv have "distinct (user_ids t)" by (auto simp: pubsub_inv_def)
    with Some show ?thesis
      by (auto simp: subscribers_def pubsub_ops fun_eq_iff set_remove1_eq)
  qed
qed (auto simp: AddRoomTopic_inv AddSubscriber_inv DeleteSubscriber_inv,
     auto simp: subscribers_def pubsub_ops fun_eq_iff split: if_splits)

lemma DeleteRoomTopic_id: "DeleteRoomTopic r s = s"
  by (simp add: DeleteRoomTopic_def fun_upd_idem)

section \<open>Properties\<close>

text \<open>
  C36: after any sequence of room openings, subscriptions and unsubscriptions the
  subscribers of every room are exactly those of the specification: the users
  whose last subscription to the opened room was not withdrawn.
\<close>

theorem pubsub_refines_sets:
  "subscribers (ps.run_ops os) = foldl (\<lambda>m op. spec_op op m) Map.empty os"
  using ps.run_ops_refines by simp

text \<open>
  Publishing to a room calls the callback exactly once, with each subscriber
  of that room exactly once and nobody else, and not at all for an unknown room.
\<close>

theorem pubsub_message_once:
  assumes "pubsub_inv s"
  shows "case subscribers s rid of
           None \<Rightarrow> PubSubMessage rid callback s w = w
         | Some U \<Rightarrow> \<exists>us. PubSubMessage rid callback s w = callback us w \<and> distinct us \<and> set us = U"
  using assms by (auto simp: subscribers_def PubSubMessage_def GetSubscribers_def pubsub_inv_def
      split: option.splits)

definition sample_pubsub :: PubSubService where
  "sample_pubsub = ps.run_ops [Open ''r1'' ''general'' ''1'', Join ''r1'' ''alice'', Join ''r1'' ''bob'']"

lemma sample_pubsub_subs:
  "pubsub_inv sample_pubsub" "subscribers sample_pubsub ''r1'' = Some {''bob'', ''alice''}"
  unfolding sample_pubsub_def using ps.run_ops_refines by auto

theorem pubsub_message_once_witness:
  "\<exists>us. PubSubMessage ''r1'' (\<lambda>us w. w @ us) sample_pubsub [] = us \<and> distinct us
     \<and> set us = {''bob'', ''alice''}"
  using pubsub_message_once [OF sample_pubsub_subs(1), of "''r1''" "\<lambda>us w. w @ us" "[]"]
  by (simp add: sample_pubsub_subs(2))

text \<open>
  Deleting a room topic never changes anything: the test returns early
  exactly when the room is there, so no room is ever removed.
\<close>

theorem DeleteRoomTopic_noop: "DeleteRoomTopic rid s = s"
  by (rule DeleteRoomTopic_id)

text \<open>
  The room list keeps one entry per room id: a room with a new id is appended
  and reported with 0, one with a known id is refused with -1 and changes nothing.
\<close>

theorem AddRoom_unique:
  assumes "pubsub_inv s"
  shows "pubsub_inv (snd (AddRoom room s))
    \<and> (if r_room_id room \<in> r_room_id ` set (GetRoomList s)
       then AddRoom room s = (- 1, s)
       else fst (AddRoom room s) = 0 \<and> GetRoomList (snd (AddRoom room s)) = GetRoomList s @ [room])"
  using AddRoom_inv [OF assms, of room]
  by (auto simp: AddRoom_def GetRoomList_def list_ex_iff intro: rev_image_eqI)

theorem AddRoom_unique_witness:
  "fst (AddRoom \<lparr>r_room_id = ''r9'', r_room_name = ''n'', r_creator_id = ''1'', r_create_time = [],
        r_update_time = [], r_history_last_message_id = []\<rparr> newPubSubService) = 0"
  using AddRoom_unique [of newPubSubService "\<lparr>r_room_id = ''r9'', r_room_name = ''n'',
      r_creator_id = ''1'', r_create_time = [], r_update_time = [], r_history_last_message_id = []\<rparr>"]
    ps.inv_start
  by (simp add: GetRoomList_def newPubSubService_def)

end
