(* ===== verification/MessageService.thy ===== *)
theory MessageService
  imports CacheConn DbConn JsonApi PubSub
begin

text \<open>
  \<^verbatim>\<open>logic/service/message_service.cc\<close>: storing chat messages in a Redis stream per
  room and in MySQL, and reading a room's history backwards page by page. The
  methods take the connection their pool hands out (\<open>None\<close> for a null pointer; it
  is given back on every path by the guard) and the two servers. What the code
  relies on of Redis streams is the predicate \<open>stream_laws\<close>; an instance shows it
  can hold. Shown: a stored message comes back in the history with its text and
  sender, newest first, and how the pages continue one another.
\<close>

section \<open>Messages\<close>

record Message =
  msg_id :: string
  msg_username :: string
  msg_content :: string
  msg_timestamp :: u64
  msg_user_id :: string

record MessageBatch =
  messages :: "Message list"
  has_more :: bool

definition k_message_batch_size :: int where "k_message_batch_size = 10"

definition generateMessageId :: "u64 \<Rightarrow> string \<Rightarrow> string" where
  "generateMessageId timestamp uuid = dec (unat timestamp) @ ''-'' @ uuid"

definition serializeMessageToJson :: "'v json_api \<Rightarrow> Message \<Rightarrow> string" where
  "serializeMessageToJson J msg =
     jwrite J (jobject J
       [(''content'', jstr J (msg_content msg)),
        (''timestamp'', jint J (int (unat (msg_timestamp msg)))),
        (''user_id'', jstr J (msg_user_id msg)),
        (''username'', jstr J (msg_username msg))])"

section \<open>Reading the history\<close>

text \<open>One round of the loop of \<^verbatim>\<open>getRoomHistory\<close>: \<open>Inr None\<close> is the return of -1.\<close>

definition parse_stored :: "'v json_api \<Rightarrow> string \<times> string \<Rightarrow> Message option res" where
  "parse_stored J m =
     (case jparse J (snd m) of
        None \<Rightarrow> Inr None
      | Some root \<Rightarrow>
          and_then (jget_null J root ''content'') (\<lambda>n1.
          and_then (if n1 then Inr True else jget_null J root ''user_id'') (\<lambda>n2.
          and_then (if n2 then Inr True else jget_null J root ''username'') (\<lambda>n3.
          and_then (if n3 then Inr True else jget_null J root ''timestamp'') (\<lambda>n4.
            if n4 then Inr None
            else
              and_then (jget_string J root ''content'') (\<lambda>content.
              and_then (jget_string J root ''user_id'') (\<lambda>uid.
              and_then (jget_string J root ''username'') (\<lambda>uname.
              and_then (jget J root ''timestamp'') (\<lambda>ts.
              and_then (jas_int64 J ts) (\<lambda>ts.
                Inr (Some \<lparr>msg_id = fst m, msg_username = uname, msg_content = content,
                           msg_timestamp = word_of_int ts, msg_user_id = uid\<rparr>)))))))))))"

text \<open>The loop: the last id seen and the messages so far are kept when it returns early.\<close>

fun history_loop :: "'v json_api \<Rightarrow> (string \<times> string) list \<Rightarrow> string \<Rightarrow> Message list
    \<Rightarrow> (bool \<times> string \<times> Message list) res" where
  "history_loop J [] last_id acc = Inr (True, last_id, acc)"
| "history_loop J (m # ms) last_id acc =
     and_then (parse_stored J m) (\<lambda>r.
       case r of
         None \<Rightarrow> Inr (False, fst m, acc)
       | Some msg \<Rightarrow> history_loop J ms (fst m) (acc @ [msg]))"

text \<open>
  \<open>inited\<close> is \<^verbatim>\<open>initialized_\<close>. The comparison of the unsigned size with the \<^verbatim>\<open>int\<close>
  count is unsigned, so a negative count is larger than every size.
\<close>

definition getRoomHistory ::
    "'v json_api \<Rightarrow> 's redis \<Rightarrow> u64 \<Rightarrow> bool \<Rightarrow> Room \<Rightarrow> MessageBatch \<Rightarrow> int
       \<Rightarrow> CacheConn option \<times> 's \<Rightarrow> (int \<times> Room \<times> MessageBatch) res \<times> CacheConn option \<times> 's" where
  "getRoomHistory J R now inited room batch msg_count = (\<lambda>(conn, s).
     if \<not> inited then (Inr (- 1, room, batch), conn, s)
     else case conn of
       None \<Rightarrow> (Inr (- 1, room, batch), conn, s)
     | Some c \<Rightarrow>
         let stream_ref = (if r_history_last_message_id room \<noteq> []
                           then r_history_last_message_id room else ''+'');
             (r, c, s) = GetXrevrange R now (r_room_id room) stream_ref ''-'' msg_count (c, s)
         in (and_then r (\<lambda>(res, msgs).
               if \<not> res then Inr (- 1, room, batch)
               else
                 let index = (if r_history_last_message_id room \<noteq> [] then 1 else 0) in
                 and_then (history_loop J (drop index msgs) (r_history_last_message_id room)
                             (messages batch))
                   (\<lambda>(ok, last_id, ms).
                      let room = room\<lparr>r_history_last_message_id := last_id\<rparr>;
                          batch = batch\<lparr>messages := ms\<rparr> in
                      if \<not> ok then Inr (- 1, room, batch)
                      else Inr (0, room,
                             batch\<lparr>has_more := (0 \<le> msg_count \<and> msg_count \<le> int (length msgs))\<rparr>))),
             Some c, s))"

section \<open>Storing messages\<close>

definition storeMessageToCache ::
    "'v json_api \<Rightarrow> 's redis \<Rightarrow> u64 \<Rightarrow> bool \<Rightarrow> string \<Rightarrow> Message
       \<Rightarrow> CacheConn option \<times> 's \<Rightarrow> bool res \<times> CacheConn option \<times> 's" where
  "storeMessageToCache J R now inited rid msg = (\<lambda>(conn, s).
     if \<not> inited then (Inr False, conn, s)
     else case conn of
       None \<Rightarrow> (Inr False, conn, s)
     | Some c \<Rightarrow>
         let (r, c, s) = Xadd R now rid ''*'' [(''payload'', serializeMessageToJson J msg)] (c, s)
         in (and_then r (\<lambda>(ok, _). Inr ok), Some c, s))"

text \<open>The loop of \<^verbatim>\<open>storeMessagesToCache\<close>; each stored message gets the id Redis made.\<close>

fun store_loop :: "'v json_api \<Rightarrow> 's redis \<Rightarrow> u64 \<Rightarrow> string \<Rightarrow> Message list \<Rightarrow> CacheConn \<times> 's
    \<Rightarrow> (bool \<times> Message list) res \<times> CacheConn \<times> 's" where
  "store_loop J R now rid [] (c, s) = (Inr (True, []), c, s)"
| "store_loop J R now rid (msg # msgs) (c, s) =
     (case Xadd R now rid ''*'' [(''payload'', serializeMessageToJson J msg)] (c, s) of
        (Inl e, c, s) \<Rightarrow> (Inl e, c, s)
      | (Inr (False, _), c, s) \<Rightarrow> (Inr (False, msg # msgs), c, s)
      | (Inr (True, xid), c, s) \<Rightarrow>
          (case store_loop J R now rid msgs (c, s) of
             (Inl e, c, s) \<Rightarrow> (Inl e, c, s)
           | (Inr (ok, rest), c, s) \<Rightarrow> (Inr (ok, msg\<lparr>msg_id := xid\<rparr> # rest), c, s)))"

definition storeMessagesToCache ::
    "'v json_api \<Rightarrow> 's redis \<Rightarrow> u64 \<Rightarrow> bool \<Rightarrow> string \<Rightarrow> Message list
       \<Rightarrow> CacheConn option \<times> 's \<Rightarrow> (int \<times> Message list) res \<times> CacheConn option \<times> 's" where
  "storeMessagesToCache J R now inited rid msgs = (\<lambda>(conn, s).
     if \<not> inited then (Inr (- 1, msgs), conn, s)
     else case conn of
       None \<Rightarrow> (Inr (- 1, msgs), conn, s)
     | Some c \<Rightarrow>
         let (r, c, s) = store_loop J R now rid msgs (c, s)
         in (and_then r (\<lambda>(ok, msgs). Inr (if ok then 0 else - 1, msgs)), Some c, s))"

definition insert_sql :: string where
  "insert_sql = ''INSERT INTO message_infos (`msg_id`, `room_id`, `user_id`, `username`, `msg_content`) VALUES ''"

definition values_part :: string where "values_part = ''(?, ?, ?, ?, ?)''"

text \<open>\<open>gen i\<close> is the id generated for the \<open>i\<close>-th message without one.\<close>

definition message_params :: "string \<Rightarrow> string \<Rightarrow> Message \<Rightarrow> string list" where
  "message_params gen_id rid msg =
     [if msg_id msg = [] then gen_id else msg_id msg, rid, msg_user_id msg, msg_username msg,
      msg_content msg]"

fun set_params :: "nat \<Rightarrow> string list \<Rightarrow> CPrepareStatement \<Rightarrow> CPrepareStatement" where
  "set_params i [] st = st"
| "set_params i (v # vs) st = set_params (Suc i) vs (SetParam i v st)"

definition storeMessageToDB ::
    "'m mysql \<Rightarrow> bool \<Rightarrow> bool \<Rightarrow> string \<Rightarrow> string \<Rightarrow> Message \<Rightarrow> 'm \<Rightarrow> bool \<times> 'm" where
  "storeMessageToDB M inited has_conn gen_id rid msg m =
     (if \<not> inited \<or> \<not> has_conn then (False, m)
      else
        let (ok, st, m) = stmt_Init M (insert_sql @ values_part) (newCPrepareStatement, m) in
        if \<not> ok then (False, m)
        else stmt_ExecuteUpdate M (set_params 0 (message_params gen_id rid msg) st, m))"

text \<open>The value groups joined by \<^verbatim>\<open>std::accumulate\<close>.\<close>

definition join_values :: "string list \<Rightarrow> string" where
  "join_values parts = foldl (\<lambda>a b. if a = [] then b else a @ '', '' @ b) [] parts"

definition batch_params :: "(nat \<Rightarrow> string) \<Rightarrow> string \<Rightarrow> Message list \<Rightarrow> string list" where
  "batch_params gen rid msgs =
     concat (map (\<lambda>i. message_params (gen i) rid (msgs ! i)) [0..<length msgs])"

definition storeMessagesToDB ::
    "'m mysql \<Rightarrow> bool \<Rightarrow> bool \<Rightarrow> (nat \<Rightarrow> string) \<Rightarrow> string \<Rightarrow> Message list \<Rightarrow> 'm \<Rightarrow> bool \<times> 'm" where
  "storeMessagesToDB M inited has_conn gen rid msgs m =
     (if \<not> inited then (False, m)
      else if msgs = [] then (True, m)
      else if \<not> has_conn then (False, m)
      else
        let sql = insert_sql @ join_values (replicate (length msgs) values_part);
            (ok, st, m) = stmt_Init M sql (newCPrepareStatement, m) in
        if \<not> ok then (False, m)
        else stmt_ExecuteUpdate M (set_params 0 (batch_params gen rid msgs) st, m))"

section \<open>Redis streams\<close>

text \<open>The reply for an entry with the single field \<^verbatim>\<open>payload\<close>.\<close>

definition stream_entry :: "string \<times> string \<Rightarrow> reply" where
  "stream_entry e = RArray [RString (fst e), RArray [RString ''payload'', RString (snd e)]]"

definition xrev_argv :: "string \<Rightarrow> string \<Rightarrow> int \<Rightarrow> string list" where
  "xrev_argv key from n = [''XREVRANGE'', key, from, ''-'', ''COUNT'', dec_int n]"

text \<open>
  What is documented of streams: \<open>V s key\<close> are the entries of a stream, oldest
  first. \<^verbatim>\<open>XADD\<close> with id \<^verbatim>\<open>*\<close> appends an entry with a new id and answers with it;
  \<^verbatim>\<open>XREVRANGE\<close> answers with the entries from the given id (or from the end, for \<^verbatim>\<open>+\<close>)
  backwards, at most \<open>n\<close> of them, and changes nothing.
\<close>

definition stream_laws :: "'s redis \<Rightarrow> ('s \<Rightarrow> string \<Rightarrow> (string \<times> string) list) \<Rightarrow> bool" where
  "stream_laws R V \<longleftrightarrow>
     (\<forall>s s' key p rep. command R [''XADD'', key, ''*'', ''payload'', p] s = (Some rep, s') \<longrightarrow>
        (\<forall>e. rep \<noteq> RError e) \<longrightarrow>
        (\<exists>xid. rep = RString xid \<and> xid \<noteq> [] \<and> xid \<noteq> ''+'' \<and> c_str xid = xid
           \<and> xid \<notin> fst ` set (V s key) \<and> V s' = (V s)(key := V s key @ [(xid, p)])))
   \<and> (\<forall>s s' key n es. 0 < n \<longrightarrow> command R (xrev_argv key ''+'' n) s = (Some (RArray es), s') \<longrightarrow>
        es = map stream_entry (take (nat n) (rev (V s key))) \<and> V s' = V s)
   \<and> (\<forall>s s' key n es older e newer. 0 < n \<longrightarrow> V s key = older @ e # newer \<longrightarrow> fst e \<noteq> ''+'' \<longrightarrow>
        distinct (map fst (V s key)) \<longrightarrow>
        command R (xrev_argv key (fst e) n) s = (Some (RArray es), s') \<longrightarrow>
        es = map stream_entry (take (nat n) (e # rev older)) \<and> V s' = V s)"

text \<open>The entries that stored messages make.\<close>

definition stored :: "'v json_api \<Rightarrow> Message list \<Rightarrow> (string \<times> string) list" where
  "stored J ms = map (\<lambda>m. (msg_id m, serializeMessageToJson J m)) ms"

definition storable :: "'v json_api \<Rightarrow> Message \<Rightarrow> bool" where
  "storable J m \<longleftrightarrow> msg_id m \<noteq> [] \<and> msg_id m \<noteq> ''+'' \<and> c_str (msg_id m) = msg_id m
     \<and> c_str (serializeMessageToJson J m) = serializeMessageToJson J m
     \<and> unat (msg_timestamp m) < 2 ^ 63"

section \<open>Lemmas\<close>

lemma stream_xadd:
  assumes "stream_laws R V" "command R [''XADD'', key, ''*'', ''payload'', p] s = (Some rep, s')"
    and "\<And>e. rep \<noteq> RError e"
  shows "\<exists>xid. rep = RString xid \<and> xid \<noteq> [] \<and> xid \<noteq> ''+'' \<and> c_str xid = xid \<and> xid \<notin> fst ` set (V s key)
           \<and> V s' = (V s)(key := V s key @ [(xid, p)])"
  using assms unfolding stream_laws_def by blast

lemma stream_from_end:
  assumes "stream_laws R V" "0 < n" "command R (xrev_argv key ''+'' n) s = (Some (RArray es), s')"
  shows "es = map stream_entry (take (nat n) (rev (V s key))) \<and> V s' = V s"
  using assms unfolding stream_laws_def by blast

lemma stream_from_id:
  assumes "stream_laws R V" "0 < n" "V s key = older @ e # newer" "fst e \<noteq> ''+''" "distinct (map fst (V s key))"
    and "command R (xrev_argv key (fst e) n) s = (Some (RArray es), s')"
  shows "es = map stream_entry (take (nat n) (e # rev older)) \<and> V s' = V s"
  using assms unfolding stream_laws_def by blast

lemma serialize_msg_id [simp]:
  "serializeMessageToJson J (m\<lparr>msg_id := i\<rparr>) = serializeMessageToJson J m"
  by (simp add: serializeMessageToJson_def)

lemma parse_stored_serialized:
  assumes "json_laws J" "unat (msg_timestamp m) < 2 ^ 63"
  shows "parse_stored J (msg_id m, serializeMessageToJson J m) = Inr (Some m)"
proof -
  let ?t = "int (unat (msg_timestamp m))"
  have "int k < 2 ^ 63" if "k < 2 ^ 63" for k using that by simp
  from this [OF assms(2)] have t: "0 \<le> ?t" "?t < 2 ^ 63" by (simp, assumption)
  let ?root = "jobject J
       [(''content'', jstr J (msg_content m)), (''timestamp'', jint J ?t),
        (''user_id'', jstr J (msg_user_id m)), (''username'', jstr J (msg_username m))]"
  have g: "jget J ?root ''content'' = Inr (jstr J (msg_content m))"
    "jget J ?root ''timestamp'' = Inr (jint J ?t)"
    "jget J ?root ''user_id'' = Inr (jstr J (msg_user_id m))"
    "jget J ?root ''username'' = Inr (jstr J (msg_username m))"
    by (simp_all add: jobject_get [OF assms(1)])
  have p: "jparse J (serializeMessageToJson J m) = Some ?root"
    by (simp add: serializeMessageToJson_def jparse_write [OF assms(1)])
  show ?thesis
    using g jvalue_simps [OF assms(1)] jvalue_simps(4,5) [OF assms(1) t]
    by (simp add: parse_stored_def p jget_null_def jget_string_def)
qed

lemma history_loop_stored:
  assumes "json_laws J"
  shows "list_all (storable J) ms \<Longrightarrow>
     history_loop J (stored J ms) lst acc =
       Inr (True, (if ms = [] then lst else msg_id (List.last ms)), acc @ ms)"
  by (induction ms arbitrary: lst acc)
    (auto simp: stored_def storable_def parse_stored_serialized [OF assms])

lemma xrev_entries_stored:
  "list_all (storable J) ms \<Longrightarrow> xrev_entries (map stream_entry (stored J ms)) = Inr (stored J ms)"
  by (induction ms) (auto simp: stored_def stream_entry_def xrev_entry_def reply_cstr_def storable_def)

lemma GetXrevrange_open:
  assumes "context_open c" "0 < n" "command R (xrev_argv key from n) s = (Some (RArray es), s')"
  shows "GetXrevrange R now key from ''-'' n (c, s)
       = (and_then (xrev_entries es) (\<lambda>ms. Inr (True, ms)), c, s')"
  using assms by (simp add: GetXrevrange_def exec_open xrev_argv_def)

lemma stored_simps:
  "take k (stored J ms) = stored J (take k ms)" "rev (stored J ms) = stored J (rev ms)"
  "map fst (stored J ms) = map msg_id ms" "length (stored J ms) = length ms"
  "stored J (as @ bs) = stored J as @ stored J bs" "drop k (stored J ms) = stored J (drop k ms)"
  by (simp_all add: stored_def take_map rev_map drop_map)

text \<open>A request for a positive number of entries, from the end or from an entry that is there, is answered.\<close>

definition answers :: "'s redis \<Rightarrow> ('s \<Rightarrow> string \<Rightarrow> (string \<times> string) list) \<Rightarrow> bool" where
  "answers R V \<longleftrightarrow> (\<forall>key from n s. 0 < n \<longrightarrow> from = ''+'' \<or> from \<in> fst ` set (V s key) \<longrightarrow>
     (\<exists>es s'. command R (xrev_argv key from n) s = (Some (RArray es), s')))"

lemma answers_end: "answers R V \<Longrightarrow> 0 < n \<Longrightarrow> \<exists>es s'. command R (xrev_argv key ''+'' n) s = (Some (RArray es), s')"
  by (simp add: answers_def)

lemma answers_stored:
  "answers R V \<Longrightarrow> 0 < n \<Longrightarrow> V s key = stored J (older @ m # newer) \<Longrightarrow>
     \<exists>es s'. command R (xrev_argv key (msg_id m) n) s = (Some (RArray es), s')"
  by (auto simp: answers_def stored_def)

text \<open>The two kinds of page.\<close>

lemma first_page:
  assumes laws: "json_laws J" "stream_laws R V" and open_c: "context_open c"
    and V: "V s (r_room_id room) = stored J ms" and ms: "list_all (storable J) ms"
    and last: "r_history_last_message_id room = []" and n: "0 < n"
    and ans: "command R (xrev_argv (r_room_id room) ''+'' n) s = (Some (RArray es), s')"
  shows "getRoomHistory J R now True room \<lparr>messages = [], has_more = False\<rparr> n (Some c, s)
       = (Inr (0, room\<lparr>r_history_last_message_id := (if ms = [] then [] else msg_id (List.last (take (nat n) (rev ms))))\<rparr>,
               \<lparr>messages = take (nat n) (rev ms), has_more = (nat n \<le> length ms)\<rparr>), Some c, s')
      \<and> V s' = V s"
proof -
  have es: "es = map stream_entry (stored J (take (nat n) (rev ms)))" and Vs: "V s' = V s"
    using stream_from_end [OF laws(2) n ans] V by (simp_all add: stored_simps)
  have ok: "list_all (storable J) (take (nat n) (rev ms))"
    using ms by (auto simp: list_all_iff dest: in_set_takeD)
  show ?thesis
    using GetXrevrange_open [OF open_c n ans, of now] xrev_entries_stored [OF ok]
      history_loop_stored [OF laws(1) ok, of "[]" "[]"] last n es Vs
    by (auto simp: getRoomHistory_def stored_simps Let_def)
qed

lemma next_page:
  assumes laws: "json_laws J" "stream_laws R V" and open_c: "context_open c"
    and V: "V s (r_room_id room) = stored J (older @ m # newer)"
    and ms: "list_all (storable J) (older @ m # newer)" "distinct (map msg_id (older @ m # newer))"
    and last: "r_history_last_message_id room = msg_id m" and n: "0 < n"
    and ans: "command R (xrev_argv (r_room_id room) (msg_id m) n) s = (Some (RArray es), s')"
  shows "getRoomHistory J R now True room \<lparr>messages = [], has_more = False\<rparr> n (Some c, s)
       = (Inr (0, room\<lparr>r_history_last_message_id :=
                         (if take (nat n - 1) (rev older) = [] then msg_id m
                          else msg_id (List.last (take (nat n - 1) (rev older))))\<rparr>,
               \<lparr>messages = take (nat n - 1) (rev older), has_more = (nat n \<le> Suc (length older))\<rparr>),
          Some c, s')
      \<and> V s' = V s"
proof -
  let ?page = "take (nat n) (m # rev older)"
  have split: "V s (r_room_id room) = stored J older @ (msg_id m, serializeMessageToJson J m) # stored J newer"
    using V by (simp add: stored_def)
  have d: "distinct (map fst (V s (r_room_id room)))" using V ms(2) by (simp add: stored_simps)
  have "es = map stream_entry (take (nat n) ((msg_id m, serializeMessageToJson J m) # rev (stored J older)))
      \<and> V s' = V s"
    using stream_from_id [OF laws(2) n split _ d, of es s'] ans ms(1) by (simp add: storable_def)
  moreover have "(msg_id m, serializeMessageToJson J m) # rev (stored J older) = stored J (m # rev older)"
    by (simp add: stored_def rev_map)
  ultimately have es: "es = map stream_entry (stored J ?page)" and Vs: "V s' = V s"
    by (simp_all add: stored_simps)
  have "set ?page \<subseteq> set (m # rev older)" by (rule set_take_subset)
  then have ok: "list_all (storable J) ?page"
    using ms(1) by (auto simp: list_all_iff)
  obtain k where k: "nat n = Suc k" using n by (cases "nat n") auto
  have ok': "list_all (storable J) (take k (rev older))" and ne: "msg_id m \<noteq> []"
    using ms(1) by (auto simp: list_all_iff storable_def dest: in_set_takeD)
  have dr: "drop (Suc 0) (stored J ?page) = stored J (take k (rev older))"
    by (simp add: k stored_simps)
  have more: "n \<le> int (length ?page) \<longleftrightarrow> nat n \<le> Suc (length older)" using n by auto
  show ?thesis
    using GetXrevrange_open [OF open_c n ans, of now] xrev_entries_stored [OF ok]
      history_loop_stored [OF laws(1) ok', of "msg_id m" "[]"] last n es Vs ne dr more k
    by (simp add: getRoomHistory_def Let_def) (simp add: stored_simps)
qed

lemma Xadd_payload:
  assumes "stream_laws R V" "context_open c"
    and "Xadd R now key ''*'' [(''payload'', p)] (c, s) = (Inr (True, xid), c', s')"
  shows "context_open c' \<and> xid \<noteq> [] \<and> xid \<noteq> ''+'' \<and> c_str xid = xid \<and> xid \<notin> fst ` set (V s key)
    \<and> V s' = (V s)(key := V s key @ [(xid, p)])"
proof -
  obtain rep where cmd: "command R [''XADD'', key, ''*'', ''payload'', p] s = (Some rep, s')"
    and ne: "\<And>e. rep \<noteq> RError e" and cs: "reply_cstr rep = Inr xid" and c': "c' = c"
    using assms(2,3)
    by (auto simp: Xadd_def exec_open DeInit_def and_then_eq_Inr
        split: option.splits prod.splits reply.splits)
  from stream_xadd [OF assms(1) cmd ne] cs c' assms(2) show ?thesis
    by (clarsimp simp: reply_cstr_def)
qed

lemma store_loop_ok:
  assumes "stream_laws R V"
  shows "context_open c \<Longrightarrow> store_loop J R now rid msgs (c, s) = (Inr (True, msgs'), c', s') \<Longrightarrow>
     context_open c' \<and> V s' = (V s)(rid := V s rid @ stored J msgs')
     \<and> map (\<lambda>m. m\<lparr>msg_id := []\<rparr>) msgs' = map (\<lambda>m. m\<lparr>msg_id := []\<rparr>) msgs
     \<and> (\<forall>m\<in>set msgs'. msg_id m \<noteq> [] \<and> msg_id m \<noteq> ''+'' \<and> c_str (msg_id m) = msg_id m)
     \<and> (distinct (map fst (V s rid)) \<longrightarrow> distinct (map fst (V s' rid)))"
proof (induction msgs arbitrary: c s msgs')
  case Nil
  then show ?case by (auto simp: stored_def)
next
  case (Cons msg msgs)
  from Cons.prems(2) obtain xid c1 s1 rest where
    x: "Xadd R now rid ''*'' [(''payload'', serializeMessageToJson J msg)] (c, s) = (Inr (True, xid), c1, s1)"
    and l: "store_loop J R now rid msgs (c1, s1) = (Inr (True, rest), c', s')"
    and m: "msgs' = msg\<lparr>msg_id := xid\<rparr> # rest"
    by (auto split: prod.splits sum.splits bool.splits)
  note xa = Xadd_payload [OF assms Cons.prems(1) x]
  have d: "distinct (map fst (V s rid)) \<longrightarrow> distinct (map fst (V s1 rid))" using xa by simp
  have ih: "context_open c'" "V s' = (V s1)(rid := V s1 rid @ stored J rest)"
    "map (\<lambda>m. m\<lparr>msg_id := []\<rparr>) rest = map (\<lambda>m. m\<lparr>msg_id := []\<rparr>) msgs"
    "\<forall>m\<in>set rest. msg_id m \<noteq> [] \<and> msg_id m \<noteq> ''+'' \<and> c_str (msg_id m) = msg_id m"
    "distinct (map fst (V s1 rid)) \<longrightarrow> distinct (map fst (V s' rid))"
    using Cons.IH [OF _ l] xa by blast+
  have "V s' = (V s)(rid := V s rid @ stored J msgs')"
    using ih(2) xa m by (simp add: stored_def)
  with ih xa m d show ?case by simp
qed

text \<open>A client that asks for page after page while more is announced.\<close>

fun read_all :: "'v json_api \<Rightarrow> 's redis \<Rightarrow> u64 \<Rightarrow> nat \<Rightarrow> int \<Rightarrow> Room \<Rightarrow> CacheConn option \<times> 's
    \<Rightarrow> Message list option" where
  "read_all J R now 0 n room cs = None"
| "read_all J R now (Suc k) n room cs =
     (case getRoomHistory J R now True room \<lparr>messages = [], has_more = False\<rparr> n cs of
        (Inr (ret, room', batch), cs') \<Rightarrow>
          if ret \<noteq> 0 then None
          else if has_more batch
          then map_option (\<lambda>r. messages batch @ r) (read_all J R now k n room' cs')
          else Some (messages batch)
      | (Inl e, cs') \<Rightarrow> None)"

lemma split_at_back:
  assumes "k < length xs"
  shows "\<exists>a x b. xs = a @ x # b \<and> x = rev xs ! k \<and> length a = length xs - Suc k \<and> take (Suc k) (rev xs) @ rev a = rev xs"
proof -
  let ?i = "length xs - Suc k"
  have i: "?i < length xs" using assms by simp
  have "rev xs ! k = xs ! ?i" using assms by (simp add: rev_nth)
  moreover have "xs = take ?i xs @ xs ! ?i # drop (Suc ?i) xs" using i by (rule id_take_nth_drop)
  moreover have "take (Suc k) (rev xs) @ rev (take ?i xs) = rev xs"
    using assms by (simp add: rev_take flip: rev_drop)
  ultimately show ?thesis using i 
    by (intro exI [of _ "take ?i xs"] exI [of _ "xs ! ?i"] exI [of _ "drop (Suc ?i) xs"]) simp
qed

lemma read_all_from:
  assumes laws: "json_laws J" "stream_laws R V" and open_c: "context_open c" and a: "answers R V"
    and n: "2 \<le> n" and ms: "list_all (storable J) ms" "distinct (map msg_id ms)"
  shows "ms = older @ m # newer \<Longrightarrow> V s (r_room_id room) = stored J ms \<Longrightarrow>
    r_history_last_message_id room = msg_id m \<Longrightarrow> length older < k \<Longrightarrow>
    read_all J R now k n room (Some c, s) = Some (rev older)"
proof (induction k arbitrary: older m newer s room)
  case (Suc k)
  have n0: "0 < n" using n by simp
  obtain es s' where ans: "command R (xrev_argv (r_room_id room) (msg_id m) n) s = (Some (RArray es), s')"
    using answers_stored [OF a n0] Suc.prems(1,2) by blast
  obtain j where j: "nat n - 1 = Suc j" using n by (cases "nat n - 1") auto
  note page = next_page [OF laws open_c Suc.prems(2) [unfolded Suc.prems(1)] _ _ Suc.prems(3) n0 ans, of now]
  have ms': "list_all (storable J) (older @ m # newer)" "distinct (map msg_id (older @ m # newer))"
    using ms Suc.prems(1) by simp_all
  show ?case
  proof (cases "nat n \<le> Suc (length older)")
    case False
    then have "take (Suc j) (rev older) = rev older" using j by simp
    with False page [OF ms'] j show ?thesis by simp
  next
    case True
    then have jl: "j < length older" using j by simp
    from split_at_back [OF this] obtain a x b where
      ab: "older = a @ x # b" "x = rev older ! j" "length a = length older - Suc j"
        "take (Suc j) (rev older) @ rev a = rev older" by blast
    have lst: "List.last (take (Suc j) (rev older)) = x"
      using jl ab(2) by (simp add: take_Suc_conv_app_nth)
    let ?room = "room\<lparr>r_history_last_message_id := msg_id x\<rparr>"
    have pre: "ms = a @ x # (b @ m # newer)" "V s' (r_room_id ?room) = stored J ms"
      "r_history_last_message_id ?room = msg_id x" "length a < k"
      using Suc.prems ab(1) page [OF ms'] by simp_all
    have "read_all J R now k n ?room (Some c, s') = Some (rev a)" by (rule Suc.IH [OF pre])
    moreover have "take (Suc j) (rev older) \<noteq> []" using jl by (cases older rule: rev_cases) auto
    moreover have "\<not> nat n \<le> Suc 0" using j by simp
    ultimately show ?thesis using True page [OF ms'] j lst ab(4) by simp
  qed
qed simp

section \<open>An instance of Redis with streams only\<close>

type_synonym streams = "string \<Rightarrow> (string \<times> string) list"

definition fresh_id :: "(string \<times> string) list \<Rightarrow> string" where
  "fresh_id es = dec (Suc (sum_list (map (dec_val \<circ> fst) es)))"

definition stream_redis :: "streams redis" where
  "stream_redis = \<lparr>connect = (\<lambda>s. (True, s)),
     command = (\<lambda>argv s. case argv of
        [c, key, i, f, p] \<Rightarrow>
          (Some (RString (fresh_id (s key))), s(key := s key @ [(fresh_id (s key), p)]))
      | [c, key, from, stop, cn, n] \<Rightarrow>
          (Some (RArray (map stream_entry (take (dec_val n)
             (if from = ''+'' then rev (s key)
              else dropWhile (\<lambda>e. fst e \<noteq> from) (rev (s key)))))), s)
      | _ \<Rightarrow> (Some (RError ''ERR''), s))\<rparr>"

lemma fresh_id_props:
  "fresh_id es \<noteq> []" "fresh_id es \<noteq> ''+''" "c_str (fresh_id es) = fresh_id es"
  "fresh_id es \<notin> fst ` set es"
proof -
  show "fresh_id es \<noteq> []" by (simp add: fresh_id_def)
  show "fresh_id es \<noteq> ''+''"
    using dec_digits [of "Suc (sum_list (map (dec_val \<circ> fst) es))"]
    by (auto simp: fresh_id_def is_digit_def)
  show "c_str (fresh_id es) = fresh_id es"
    unfolding fresh_id_def by (rule c_str_id) (simp add: dec_no_char is_digit_def)
  have "dec_val (fst e) < dec_val (fresh_id es)" if "e \<in> set es" for e
  proof -
    have "(dec_val \<circ> fst) e \<le> sum_list (map (dec_val \<circ> fst) es)"
      using that by (intro member_le_sum_list) simp_all
    then show ?thesis by (simp add: fresh_id_def)
  qed
  then show "fresh_id es \<notin> fst ` set es" by fastforce
qed

lemma stream_laws_instance: "stream_laws stream_redis (\<lambda>s. s)"
proof -
  have d: "dec_val (dec_int n) = nat n" if "0 < n" for n using that by (simp add: dec_int_def)
  have dw: "dropWhile (\<lambda>e'. fst e' \<noteq> a) (rev newer @ (a, b) # rev older) = (a, b) # rev older"
    if "a \<notin> fst ` set newer" for a :: string and b :: string and older newer
    using that by (subst dropWhile_append2) (force simp: image_iff)+
  show ?thesis
    unfolding stream_laws_def
    by (auto simp: stream_redis_def xrev_argv_def fresh_id_props d dw)
qed

lemma stream_redis_answers: "answers stream_redis V"
  by (simp add: answers_def stream_redis_def xrev_argv_def)

lemma set_params_bind:
  "length don + length vs = length (param_bind st) \<Longrightarrow>
     param_bind st = map Some don @ replicate (length vs) None \<Longrightarrow>
     set_params (length don) vs st = st\<lparr>param_bind := map Some (don @ vs)\<rparr>"
proof (induction vs arbitrary: don st)
  case (Cons v vs)
  have "SetParam (length don) v st
      = st\<lparr>param_bind := map Some (don @ [v]) @ replicate (length vs) None\<rparr>"
    using Cons.prems by (simp add: SetParam_def list_update_append)
  with Cons.IH [of "don @ [v]" "SetParam (length don) v st"] show ?case by simp
qed simp

lemma join_values_marks:
  "count_list (join_values (replicate n values_part)) CHR ''?'' = 5 * n"
proof -
  have "count_list (foldl (\<lambda>a b. if a = [] then b else a @ '', '' @ b) acc (replicate n values_part)) CHR ''?''
      = count_list acc CHR ''?'' + 5 * n" for acc
    by (induction n arbitrary: acc) (simp_all add: values_part_def)
  from this [of "[]"] show ?thesis by (simp add: join_values_def)
qed

lemma batch_params_length: "length (batch_params gen rid msgs) = 5 * length msgs"
proof -
  have "map (length \<circ> (\<lambda>i. message_params (gen i) rid (msgs ! i))) [0..<length msgs]
      = replicate (length msgs) 5"
    by (rule nth_equalityI) (simp_all add: message_params_def)
  then show ?thesis by (simp add: batch_params_def length_concat sum_list_replicate)
qed

section \<open>Properties\<close>

text \<open>
  C10: asking for page after page of at least two messages, from the newest on and
  as long as more are announced, returns every stored message of the room exactly
  once, newest first, with its id, text, sender and time.
\<close>

theorem history_paging_complete:
  assumes "json_laws J" "stream_laws R V" "answers R V" "context_open c" "2 \<le> n"
    and "V s (r_room_id room) = stored J ms" "list_all (storable J) ms" "distinct (map msg_id ms)"
    and "r_history_last_message_id room = []"
  shows "read_all J R now (Suc (length ms)) n room (Some c, s) = Some (rev ms)"
proof -
  have n0: "0 < n" using assms(5) by simp
  obtain es s' where ans: "command R (xrev_argv (r_room_id room) ''+'' n) s = (Some (RArray es), s')"
    using answers_end [OF assms(3) n0] by blast
  note page = first_page [OF assms(1,2,4,6,7,9) n0 ans, of now]
  obtain j where j: "nat n = Suc j" using n0 by (cases "nat n") auto
  show ?thesis
  proof (cases "nat n \<le> length ms")
    case False
    then show ?thesis using page by simp
  next
    case True
    then have jl: "j < length ms" using j by simp
    from split_at_back [OF this] obtain a x b where
      ab: "ms = a @ x # b" "x = rev ms ! j" "length a = length ms - Suc j"
        "take (Suc j) (rev ms) @ rev a = rev ms" by blast
    have lst: "List.last (take (Suc j) (rev ms)) = x"
      using jl ab(2) by (simp add: take_Suc_conv_app_nth)
    let ?room = "room\<lparr>r_history_last_message_id := msg_id x\<rparr>"
    have pre: "V s' (r_room_id ?room) = stored J ms" "r_history_last_message_id ?room = msg_id x"
      "length a < length ms"
      using assms(6) ab(3) jl page by simp_all
    have "read_all J R now (length ms) n ?room (Some c, s') = Some (rev a)"
      by (rule read_all_from [OF assms(1,2,4,3,5,7,8) ab(1) pre])
    moreover have "ms \<noteq> []" using jl by auto
    ultimately show ?thesis using True page j lst ab(4) by simp
  qed
qed

definition sample_message :: "string \<Rightarrow> string \<Rightarrow> Message" where
  "sample_message i text = \<lparr>msg_id = i, msg_username = ''ann'', msg_content = text,
     msg_timestamp = 5, msg_user_id = ''u1''\<rparr>"

definition sample_messages :: "Message list" where
  "sample_messages = [sample_message ''1'' ''a'', sample_message ''2'' ''b'', sample_message ''3'' ''c'']"

definition sample_room :: Room where
  "sample_room = \<lparr>r_room_id = ''r1'', r_room_name = ''general'', r_creator_id = ''1'',
     r_create_time = [], r_update_time = [], r_history_last_message_id = []\<rparr>"

definition sample_streams :: streams where
  "sample_streams = (\<lambda>_. [])(''r1'' := stored jv_api sample_messages)"

lemma sample_storable: "list_all (storable jv_api) sample_messages"
proof -
  have dec5: "dec 5 = ''5''" by code_simp
  have "c_str (serializeMessageToJson jv_api (sample_message i t))
      = serializeMessageToJson jv_api (sample_message i t)" if "t \<in> {''a'', ''b'', ''c''}" for i t
    using that dec5
    by (auto simp: serializeMessageToJson_def sample_message_def jobject_def enc_jv.simps enc_str_def
        c_str_def)
  then show ?thesis
    by (simp add: storable_def sample_messages_def) (simp add: sample_message_def c_str_def)
qed

theorem history_paging_complete_witness:
  "read_all jv_api stream_redis 9 4 2 sample_room (Some sample_conn, sample_streams)
     = Some (rev sample_messages)"
proof -
  have "context_open sample_conn" "2 \<le> (2 :: int)" "distinct (map msg_id sample_messages)"
    "sample_streams (r_room_id sample_room) = stored jv_api sample_messages"
    "r_history_last_message_id sample_room = []" "Suc (length sample_messages) = 4"
    by (simp_all add: sample_conn_def sample_streams_def sample_room_def sample_messages_def
        sample_message_def)
  then show ?thesis
    using history_paging_complete [OF json_laws_jv stream_laws_instance stream_redis_answers,
        of sample_conn 2 sample_streams sample_room sample_messages 9] sample_storable
    by (simp del: read_all.simps)
qed

text \<open>
  A page that continues from a message returns one message less than asked
  for, because the message itself counts. With a page size of one it returns
  nothing, announces more messages and does not move on.
\<close>

theorem history_page_of_one_stuck:
  assumes "json_laws J" "stream_laws R V" "answers R V" "context_open c"
    and "V s (r_room_id room) = stored J (older @ m # newer)"
    and "list_all (storable J) (older @ m # newer)" "distinct (map msg_id (older @ m # newer))"
    and "r_history_last_message_id room = msg_id m"
  shows "\<exists>s'. getRoomHistory J R now True room \<lparr>messages = [], has_more = False\<rparr> 1 (Some c, s)
           = (Inr (0, room, \<lparr>messages = [], has_more = True\<rparr>), Some c, s') \<and> V s' = V s"
proof -
  obtain es s' where
    ans: "command R (xrev_argv (r_room_id room) (msg_id m) 1) s = (Some (RArray es), s')"
    using answers_stored [OF assms(3) _ assms(5), of 1] by auto
  have "room\<lparr>r_history_last_message_id := msg_id m\<rparr> = room" using assms(8) by simp
  with next_page [OF assms(1,2,4-8) _ ans, of now] show ?thesis by simp
qed

theorem history_page_of_one_stuck_witness:
  "\<exists>s'. getRoomHistory jv_api stream_redis 9 True (sample_room\<lparr>r_history_last_message_id := ''2''\<rparr>)
      \<lparr>messages = [], has_more = False\<rparr> 1 (Some sample_conn, sample_streams)
    = (Inr (0, sample_room\<lparr>r_history_last_message_id := ''2''\<rparr>, \<lparr>messages = [], has_more = True\<rparr>),
       Some sample_conn, s') \<and> s' = sample_streams"
  by (rule history_page_of_one_stuck [OF json_laws_jv stream_laws_instance stream_redis_answers,
        where older = "[sample_message ''1'' ''a'']" and m = "sample_message ''2'' ''b''"
          and newer = "[sample_message ''3'' ''c'']"])
    (use sample_storable in \<open>simp_all add: sample_conn_def sample_streams_def sample_room_def
       sample_messages_def sample_message_def\<close>)

text \<open>
  When storing a batch reports success, the room's stream has grown by exactly
  these messages in their order, each under a new id that is written back into
  the batch, with text, sender and time unchanged; no other room is touched.
\<close>

theorem store_batch_appends:
  assumes "stream_laws R V" "context_open c" "distinct (map fst (V s rid))"
    and "storeMessagesToCache J R now True rid msgs (Some c, s) = (Inr (0, msgs'), conn', s')"
  shows "V s' = (V s)(rid := V s rid @ stored J msgs')
    \<and> map (\<lambda>m. m\<lparr>msg_id := []\<rparr>) msgs' = map (\<lambda>m. m\<lparr>msg_id := []\<rparr>) msgs
    \<and> distinct (map fst (V s' rid))"
proof -
  obtain c' where "store_loop J R now rid msgs (c, s) = (Inr (True, msgs'), c', s')"
    using assms(4)
    by (auto simp: storeMessagesToCache_def and_then_eq_Inr split: prod.splits if_splits)
  from store_loop_ok [OF assms(1,2) this] assms(3) show ?thesis by blast
qed

theorem store_batch_appends_witness:
  "(\<lambda>_. [])(''r1'' := [(''1'', serializeMessageToJson jv_api (sample_message [] ''hi''))])
     = (\<lambda>_. [])(''r1'' := stored jv_api [sample_message ''1'' ''hi''])"
proof -
  have dec1: "dec (Suc 0) = ''1''" by code_simp
  have run: "storeMessagesToCache jv_api stream_redis 9 True ''r1'' [sample_message [] ''hi'']
      (Some sample_conn, \<lambda>_. []) = (Inr (0, [sample_message ''1'' ''hi'']), Some sample_conn,
        (\<lambda>_. [])(''r1'' := [(''1'', serializeMessageToJson jv_api (sample_message [] ''hi''))]))"
    by (simp add: storeMessagesToCache_def Xadd_def exec_open sample_conn_def stream_redis_def
        fresh_id_def dec1 reply_cstr_def c_str_def sample_message_def)
  have "context_open sample_conn" by (simp add: sample_conn_def)
  from store_batch_appends [OF stream_laws_instance this _ run] show ?thesis by (simp add: stored_simps)
qed

text \<open>
  The batch insert has as many marks as parameters: when the server counts
  the question marks of the statement it prepared, every one of them is bound,
  and the statement is executed with the five values of each message in order.
\<close>

theorem batch_insert_binds_all:
  fixes msgs :: "Message list"
  defines "sql \<equiv> insert_sql @ join_values (replicate (length msgs) values_part)"
  assumes "msgs \<noteq> []" "mysql_ping M m = (alive, m1)" "stmt_init M m1"
    and "stmt_prepare M sql m1 = (Some (count_list sql CHR ''?''), m2)"
    and "stmt_execute M sql (map Some (batch_params gen rid msgs)) m2 = (Some n, m3)"
  shows "storeMessagesToDB M True True gen rid msgs m = (n \<noteq> 0, m3)"
proof -
  have marks: "count_list sql CHR ''?'' = length (batch_params gen rid msgs)"
    using join_values_marks [of "length msgs"]
    by (simp add: sql_def insert_sql_def batch_params_length)
  let ?st = "\<lparr>stmt_sql = Some sql, param_bind = replicate (length (batch_params gen rid msgs)) None\<rparr>"
  have "set_params 0 (batch_params gen rid msgs) ?st
      = ?st\<lparr>param_bind := map Some (batch_params gen rid msgs)\<rparr>"
    using set_params_bind [of "[]" "batch_params gen rid msgs" ?st] by simp
  with assms marks show ?thesis
    by (simp add: storeMessagesToDB_def stmt_Init_def stmt_ExecuteUpdate_def newCPrepareStatement_def
        sql_def [symmetric] Let_def)
qed

definition counting_mysql :: "(string option list) list mysql" where
  "counting_mysql = \<lparr>mysql_ping = (\<lambda>m. (True, m)), mysql_open = (\<lambda>m. (0, m)),
     mysql_query = (\<lambda>_ m. (True, m)), mysql_store_result = (\<lambda>m. (None, m)),
     mysql_affected_rows = (\<lambda>_. 1), stmt_init = (\<lambda>_. True),
     stmt_prepare = (\<lambda>sql m. (Some (count_list sql CHR ''?''), m)),
     stmt_execute = (\<lambda>_ ps m. (Some 1, m @ [ps]))\<rparr>"

theorem batch_insert_binds_all_witness:
  "storeMessagesToDB counting_mysql True True (\<lambda>_. ''g'') ''r1'' sample_messages []
     = (True, [map Some (batch_params (\<lambda>_. ''g'') ''r1'' sample_messages)])"
  using batch_insert_binds_all [of sample_messages counting_mysql "[]" True "[]" "[]" "\<lambda>_. ''g''"
      "''r1''" 1]
  by (simp add: counting_mysql_def sample_messages_def)

end
