(* ===== verification/RoomService.thy ===== *)
theory RoomService
  imports MessageService
begin

text \<open>
  \<^verbatim>\<open>logic/service/room_service.cc\<close>: the rooms of the chat, kept in MySQL and in a
  list in memory. The methods take whether the pool handed out a connection and the
  MySQL server. Shown: the list keeps one entry per room id, a created room is in
  the database and in the list, a failed creation changes nothing in memory, and
  that the name check before a creation does not exclude two rooms of one name.
\<close>

section \<open>Access to the database\<close>

text \<open>\<^verbatim>\<open>x = res_set->GetString(k)\<close> for a \<^verbatim>\<open>std::string\<close>: a null pointer is fatal.\<close>

definition get_col :: "CResultSet \<Rightarrow> string \<Rightarrow> string res" where
  "get_col rs key =
     and_then (GetString rs key) (\<lambda>v. case v of None \<Rightarrow> Inl BadOptional | Some t \<Rightarrow> Inr (c_str t))"

definition create_sql :: "string \<Rightarrow> string \<Rightarrow> string \<Rightarrow> string" where
  "create_sql rid name creator =
     ''INSERT INTO room_infos (room_id, room_name, creator_id) VALUES ('' @ [CHR 0x27]
     @ rid @ [CHR 0x27] @ '', '' @ [CHR 0x27] @ name @ [CHR 0x27] @ '', '' @ [CHR 0x27]
     @ creator @ [CHR 0x27] @ '')''"

text \<open>\<open>conn\<close>: whether manager and pool gave a connection.\<close>

definition dbCreateRoom ::
    "'m mysql \<Rightarrow> bool \<Rightarrow> string \<Rightarrow> string \<Rightarrow> string \<Rightarrow> 'm \<Rightarrow> (bool \<times> string) \<times> 'm" where
  "dbCreateRoom M conn rid name creator m =
     (if \<not> conn then ((False, ''Failed to get database connection''), m)
      else
        let (ok, m) = ExecuteUpdate M (create_sql rid name creator) True m in
        (if ok then (True, []) else (False, ''Failed to execute room creation SQL''), m))"

definition info_sql :: "string \<Rightarrow> string" where
  "info_sql rid =
     ''SELECT room_name, creator_id, create_time, update_time FROM room_infos WHERE room_id = ''
     @ [CHR 0x27] @ rid @ [CHR 0x27]"

text \<open>The room found, or an error message.\<close>

definition dbGetRoomInfo ::
    "'m mysql \<Rightarrow> bool \<Rightarrow> string \<Rightarrow> 'm \<Rightarrow> (string + Room) res \<times> 'm" where
  "dbGetRoomInfo M conn rid m =
     (if \<not> conn then (Inr (Inl ''Failed to get database connection''), m)
      else case ExecuteQuery M (info_sql rid) m of
        (None, m) \<Rightarrow> (Inr (Inl ''Failed to execute room query SQL''), m)
      | (Some (rs, _), m) \<Rightarrow>
          (let (more, rs) = Next rs in
           if \<not> more then Inr (Inl ''Room not found'')
           else
             and_then (get_col rs ''room_name'') (\<lambda>name.
             and_then (get_col rs ''creator_id'') (\<lambda>creator.
             and_then (get_col rs ''create_time'') (\<lambda>ct.
             and_then (get_col rs ''update_time'') (\<lambda>ut.
               Inr (Inr \<lparr>r_room_id = rid, r_room_name = name, r_creator_id = creator,
                         r_create_time = ct, r_update_time = ut,
                         r_history_last_message_id = []\<rparr>))))),
           m))"

definition all_rooms_sql :: "string \<Rightarrow> string" where
  "all_rooms_sql order_by =
     ''SELECT room_id, room_name, creator_id, create_time, update_time FROM room_infos ORDER BY ''
     @ order_by"

definition row_room :: "CResultSet \<Rightarrow> Room res" where
  "row_room rs =
     and_then (get_col rs ''room_id'') (\<lambda>rid.
     and_then (get_col rs ''room_name'') (\<lambda>name.
     and_then (get_col rs ''creator_id'') (\<lambda>creator.
     and_then (get_col rs ''create_time'') (\<lambda>ct.
     and_then (get_col rs ''update_time'') (\<lambda>ut.
       Inr \<lparr>r_room_id = rid, r_room_name = name, r_creator_id = creator,
            r_create_time = ct, r_update_time = ut, r_history_last_message_id = []\<rparr>)))))"

text \<open>The loop over the result set; it ends because every round takes a row.\<close>

function rooms_loop :: "CResultSet \<Rightarrow> Room list res" where
  "rooms_loop rs =
     (let (more, rs') = Next rs in
      if \<not> more then Inr []
      else and_then (row_room rs') (\<lambda>r. and_then (rooms_loop rs') (\<lambda>rest. Inr (r # rest))))"
  by pat_completeness auto
termination
  by (relation "measure (\<lambda>rs. length (rows rs))") (auto simp: Next_def split: list.splits)

declare rooms_loop.simps [simp del]

definition dbGetAllRooms ::
    "'m mysql \<Rightarrow> bool \<Rightarrow> string \<Rightarrow> 'm \<Rightarrow> (string + Room list) res \<times> 'm" where
  "dbGetAllRooms M conn order_by m =
     (if \<not> conn then (Inr (Inl ''Failed to get database connection''), m)
      else case ExecuteQuery M (all_rooms_sql order_by) m of
        (None, m) \<Rightarrow> (Inr (Inl ''Failed to execute rooms query SQL''), m)
      | (Some (rs, _), m) \<Rightarrow> (and_then (rooms_loop rs) (\<lambda>rooms. Inr (Inr rooms)), m))"

section \<open>The service\<close>

type_synonym room_list = "Room list"

definition addRoomToList :: "Room \<Rightarrow> room_list \<Rightarrow> int \<times> room_list" where
  "addRoomToList room l =
     (if list_ex (\<lambda>r. r_room_id r = r_room_id room) l then (- 1, l) else (0, l @ [room]))"

definition getRoomList :: "room_list \<Rightarrow> Room list" where
  "getRoomList l = l"

definition roomExistByName :: "string \<Rightarrow> room_list \<Rightarrow> bool" where
  "roomExistByName name l = list_ex (\<lambda>r. r_room_name r = name) l"

definition refreshRoomList :: "'m mysql \<Rightarrow> bool \<Rightarrow> room_list \<times> 'm \<Rightarrow> int res \<times> room_list \<times> 'm" where
  "refreshRoomList M conn = (\<lambda>(l, m).
     case dbGetAllRooms M conn ''update_time DESC'' m of
       (Inl e, m) \<Rightarrow> (Inl e, l, m)
     | (Inr (Inl msg), m) \<Rightarrow> (Inr (- 1), l, m)
     | (Inr (Inr rooms), m) \<Rightarrow> (Inr 0, rooms, m))"

definition m_default_rooms :: "Room list" where
  "m_default_rooms =
     map (\<lambda>(i, n). \<lparr>r_room_id = i, r_room_name = n, r_creator_id = ''1'', r_create_time = [],
                      r_update_time = [], r_history_last_message_id = []\<rparr>)
       [(''0001'', ''Linux Study Group''), (''0002'', ''C++ Study Group''),
        (''0003'', ''ThreadPool Study Group''), (''0004'', ''Database Study Group''),
        (''0005'', ''Network Study Group''), (''0006'', ''Redis Study Group''),
        (''0007'', ''Nginx Study Group''), (''0008'', ''Git Study Group'')]"

text \<open>The loop that creates the default rooms which the database does not have.\<close>

fun default_rooms_loop :: "'m mysql \<Rightarrow> bool \<Rightarrow> bool \<Rightarrow> Room list \<Rightarrow> 'm \<Rightarrow> unit res \<times> 'm" where
  "default_rooms_loop M master slave [] m = (Inr (), m)"
| "default_rooms_loop M master slave (room # rooms) m =
     (case dbGetRoomInfo M slave (r_room_id room) m of
        (Inl e, m) \<Rightarrow> (Inl e, m)
      | (Inr (Inr _), m) \<Rightarrow> default_rooms_loop M master slave rooms m
      | (Inr (Inl _), m) \<Rightarrow>
          default_rooms_loop M master slave rooms
            (snd (dbCreateRoom M master (r_room_id room) (r_room_name room) ''1'' m)))"

definition initialize :: "'m mysql \<Rightarrow> bool \<Rightarrow> bool \<Rightarrow> room_list \<times> 'm
    \<Rightarrow> int res \<times> room_list \<times> 'm" where
  "initialize M master slave = (\<lambda>(l, m).
     case default_rooms_loop M master slave m_default_rooms m of
       (Inl e, m) \<Rightarrow> (Inl e, l, m)
     | (Inr _, m) \<Rightarrow> refreshRoomList M slave (l, m))"

text \<open>\<open>uuid\<close> is what \<^verbatim>\<open>GenerateUUID\<close> returns. The result: code, room id, error message.\<close>

definition createRoom :: "'m mysql \<Rightarrow> bool \<Rightarrow> string \<Rightarrow> string \<Rightarrow> string \<Rightarrow> string
    \<Rightarrow> room_list \<times> 'm \<Rightarrow> (int \<times> string \<times> string) \<times> room_list \<times> 'm" where
  "createRoom M master uuid room_name creator creator_username = (\<lambda>(l, m).
     let ((ok, err), m) = dbCreateRoom M master uuid room_name creator m in
     if \<not> ok then ((- 1, uuid, err), l, m)
     else
       let new_room = \<lparr>r_room_id = uuid, r_room_name = room_name, r_creator_id = creator,
                       r_create_time = [], r_update_time = [], r_history_last_message_id = []\<rparr>
       in ((0, uuid, err), snd (addRoomToList new_room l), m))"

definition getRoomInfoFromDB :: "'m mysql \<Rightarrow> bool \<Rightarrow> string \<Rightarrow> 'm \<Rightarrow> (string + Room) res \<times> 'm" where
  "getRoomInfoFromDB M conn rid m = dbGetRoomInfo M conn rid m"

definition getAllRoomsFromDB :: "'m mysql \<Rightarrow> bool \<Rightarrow> string \<Rightarrow> 'm \<Rightarrow> (string + Room list) res \<times> 'm" where
  "getAllRoomsFromDB M conn order_by m = dbGetAllRooms M conn order_by m"

section \<open>Lemmas\<close>

definition room_row :: "Room \<Rightarrow> string option list" where
  "room_row r = [Some (r_room_id r), Some (r_room_name r), Some (r_creator_id r),
                 Some (r_create_time r), Some (r_update_time r)]"

definition room_columns :: "string list" where
  "room_columns = [''room_id'', ''room_name'', ''creator_id'', ''create_time'', ''update_time'']"

definition plain_room :: "Room \<Rightarrow> bool" where
  "plain_room r \<longleftrightarrow> r_history_last_message_id r = []
     \<and> list_all (\<lambda>s. CHR 0x00 \<notin> set s)
         [r_room_id r, r_room_name r, r_creator_id r, r_create_time r, r_update_time r]"

lemma addRoomToList_new:
  assumes "r_room_id r \<notin> r_room_id ` set l"
  shows "addRoomToList r l = (0, l @ [r])"
proof -
  have "\<not> (\<exists>x\<in>set l. r_room_id x = r_room_id r)" using assms by (metis imageI)
  then show ?thesis by (simp add: addRoomToList_def list_ex_iff)
qed

lemma room_columns_length: "length room_columns = 5"
  by code_simp

lemma row_room_ok:
  assumes "plain_room r" "key_map rs = zip room_columns [0..<5]" "row rs = Some (room_row r)"
  shows "row_room rs = Inr r"
proof -
  have k: "map_of (zip room_columns [0..<5]) ''room_id'' = Some 0"
    "map_of (zip room_columns [0..<5]) ''room_name'' = Some 1"
    "map_of (zip room_columns [0..<5]) ''creator_id'' = Some 2"
    "map_of (zip room_columns [0..<5]) ''create_time'' = Some 3"
    "map_of (zip room_columns [0..<5]) ''update_time'' = Some 4"
    by code_simp+
  show ?thesis
    using assms
    by (simp add: row_room_def get_col_def GetString_def GetIndex_def k column_def room_row_def
        plain_room_def c_str_id)
qed

lemma rooms_loop_ok:
  assumes "list_all plain_room rs" "key_map st = zip room_columns [0..<5]" "rows st = map room_row rs"
  shows "rooms_loop st = Inr rs"
  using assms
proof (induction rs arbitrary: st)
  case Nil
  then show ?case by (simp add: rooms_loop.simps Next_def)
next
  case (Cons r rs)
  let ?st = "st\<lparr>row := Some (room_row r), rows := map room_row rs\<rparr>"
  have "Next st = (True, ?st)" using Cons.prems by (simp add: Next_def)
  moreover have "row_room ?st = Inr r" using Cons.prems by (intro row_room_ok) simp_all
  moreover have "rooms_loop ?st = Inr rs" using Cons.prems by (intro Cons.IH) simp_all
  ultimately show ?case by (subst rooms_loop.simps) simp
qed

text \<open>A room whose insert the database accepts is at the end of the list, if its id is new.\<close>

lemma createRoom_accepted:
  assumes "ExecuteUpdate M (create_sql uuid name creator) True m = (True, m')" "uuid \<notin> r_room_id ` set l"
  shows "createRoom M True uuid name creator u (l, m)
    = ((0, uuid, []), l @ [\<lparr>r_room_id = uuid, r_room_name = name, r_creator_id = creator, r_create_time = [],
                            r_update_time = [], r_history_last_message_id = []\<rparr>], m')"
  using assms addRoomToList_new [of "\<lparr>r_room_id = uuid, r_room_name = name, r_creator_id = creator, r_create_time = [],
      r_update_time = [], r_history_last_message_id = []\<rparr>" l]
  by (simp add: createRoom_def dbCreateRoom_def)

section \<open>Properties\<close>

text \<open>
  Creating a room either fails, with the room list as it was, or returns 0
  with the id that was generated; then the insert was executed and the list
  has the new room at its end, unless the id was already known. Either way the
  list keeps one entry per id.
\<close>

theorem createRoom_effect:
  assumes "distinct (map r_room_id l)" "createRoom M master uuid name creator u (l, m) = ((ret, rid, err), l', m')"
  shows "distinct (map r_room_id l')
    \<and> (if ret = 0
       then master \<and> rid = uuid \<and> ExecuteUpdate M (create_sql uuid name creator) True m = (True, m')
            \<and> (uuid \<notin> r_room_id ` set l \<longrightarrow>
                 roomExistByName name l' \<and> map r_room_id l' = map r_room_id l @ [uuid])
       else l' = l)"
  using assms
  by (auto simp: createRoom_def dbCreateRoom_def addRoomToList_def roomExistByName_def list_ex_iff Let_def
      split: if_splits prod.splits)

definition working_mysql :: "string list mysql" where
  "working_mysql = \<lparr>mysql_ping = (\<lambda>m. (True, m)), mysql_open = (\<lambda>m. (0, m)),
     mysql_query = (\<lambda>q m. (True, m @ [q])), mysql_store_result = (\<lambda>m. (None, m)),
     mysql_affected_rows = (\<lambda>_. 1), stmt_init = (\<lambda>_. True),
     stmt_prepare = (\<lambda>sql m. (Some (count_list sql CHR ''?''), m)),
     stmt_execute = (\<lambda>_ ps m. (Some 1, m))\<rparr>"

lemma working_create:
  "\<exists>r. createRoom working_mysql True uuid name creator u (l, m)
     = ((0, uuid, []), snd (addRoomToList r l), m @ [c_str (create_sql uuid name creator)])
     \<and> r_room_id r = uuid \<and> r_room_name r = name"
  by (rule exI [of _ "\<lparr>r_room_id = uuid, r_room_name = name, r_creator_id = creator,
        r_create_time = [], r_update_time = [], r_history_last_message_id = []\<rparr>"])
    (simp add: createRoom_def dbCreateRoom_def ExecuteUpdate_def run_sql_def CheckAndReconnect_def
      working_mysql_def Let_def)

theorem createRoom_effect_witness:
  "\<exists>l' m'. createRoom working_mysql True ''id1'' ''dpdk'' ''u1'' ''ann'' ([], []) = ((0, ''id1'', []), l', m')
     \<and> map r_room_id l' = [''id1'']"
proof -
  obtain l' m' where run:
    "createRoom working_mysql True ''id1'' ''dpdk'' ''u1'' ''ann'' ([], []) = ((0, ''id1'', []), l', m')"
    using working_create by blast
  with createRoom_effect [OF _ run] show ?thesis by simp
qed

text \<open>
  Two requests that both test the name before either creates its room both
  succeed: the list then has two rooms of the same name.
\<close>

theorem createRoom_name_race:
  assumes "uuid1 \<noteq> uuid2" "uuid1 \<notin> r_room_id ` set l" "uuid2 \<notin> r_room_id ` set l"
    and "\<not> roomExistByName name l"
  shows "\<exists>l1 m1 l2 m2. createRoom working_mysql True uuid1 name c1 u1 (l, m) = ((0, uuid1, []), l1, m1)
    \<and> createRoom working_mysql True uuid2 name c2 u2 (l1, m1) = ((0, uuid2, []), l2, m2)
    \<and> length (filter (\<lambda>r. r_room_name r = name) l2) = 2"
proof -
  obtain r1 where r1: "createRoom working_mysql True uuid1 name c1 u1 (l, m)
      = ((0, uuid1, []), snd (addRoomToList r1 l), m @ [c_str (create_sql uuid1 name c1)])"
    "r_room_id r1 = uuid1" "r_room_name r1 = name" using working_create by blast
  have l1: "snd (addRoomToList r1 l) = l @ [r1]"
    using assms(2) r1(2) by (simp add: addRoomToList_new)
  obtain r2 where r2: "createRoom working_mysql True uuid2 name c2 u2
        (l @ [r1], m @ [c_str (create_sql uuid1 name c1)])
      = ((0, uuid2, []), snd (addRoomToList r2 (l @ [r1])),
         (m @ [c_str (create_sql uuid1 name c1)]) @ [c_str (create_sql uuid2 name c2)])"
    "r_room_id r2 = uuid2" "r_room_name r2 = name" using working_create by blast
  have l2: "snd (addRoomToList r2 (l @ [r1])) = l @ [r1, r2]"
    using assms(1,3) r1(2) r2(2) by (simp add: addRoomToList_new)
  have "filter (\<lambda>r. r_room_name r = name) l = []"
    using assms(4) by (auto simp: roomExistByName_def list_ex_iff filter_empty_conv)
  with r1 r2 l1 l2 show ?thesis by (auto intro!: exI)
qed

theorem createRoom_name_race_witness:
  "\<exists>l1 m1 l2 m2. createRoom working_mysql True ''a'' ''dpdk'' ''u'' ''ann'' ([], []) = ((0, ''a'', []), l1, m1)
    \<and> createRoom working_mysql True ''b'' ''dpdk'' ''v'' ''bob'' (l1, m1) = ((0, ''b'', []), l2, m2)
    \<and> length (filter (\<lambda>r. r_room_name r = ''dpdk'') l2) = 2"
  by (rule createRoom_name_race) (simp_all add: roomExistByName_def)

text \<open>
  Refreshing the room list from the database replaces it by exactly the
  rooms the query returned, in their order.
\<close>

theorem refreshRoomList_loads:
  assumes "list_all plain_room rooms"
    and "ExecuteQuery M (all_rooms_sql ''update_time DESC'') m
           = (Some (newCResultSet \<lparr>res_fields = room_columns, res_rows = map room_row rooms\<rparr>, n), m')"
  shows "refreshRoomList M True (l, m) = (Inr 0, rooms, m')"
proof -
  have "rooms_loop (newCResultSet \<lparr>res_fields = room_columns, res_rows = map room_row rooms\<rparr>) = Inr rooms"
    by (rule rooms_loop_ok [OF assms(1)])
      (simp_all add: newCResultSet_def room_columns_length)
  with assms(2) show ?thesis by (simp add: refreshRoomList_def dbGetAllRooms_def)
qed

theorem refreshRoomList_loads_witness:
  "refreshRoomList (working_mysql\<lparr>mysql_store_result := (\<lambda>m. (Some
       \<lparr>res_fields = room_columns, res_rows = map room_row [sample_room]\<rparr>, m))\<rparr>) True ([], [])
     = (Inr 0, [sample_room], [c_str (all_rooms_sql ''update_time DESC'')])"
  by (rule refreshRoomList_loads [where n = 1])
    (simp_all add: plain_room_def sample_room_def ExecuteQuery_def CheckAndReconnect_def working_mysql_def)

end
