(* ===== verification/LogicClient.thy ===== *)
theory LogicClient
  imports JsonApi ConfigFile
begin

text \<open>
  \<^verbatim>\<open>chat-room/service/logic_client.cc\<close> and \<^verbatim>\<open>logic_config.cc\<close>: the comet server's
  client of the logic server. libcurl is a parameter \<open>http\<close>: for a URL and a body
  it gives the status code (\<open>None\<close> when the transfer fails) and the bytes handed to
  the write callback. Shown: which requests are sent, what each answer of the logic
  server is turned into, and that no answer makes an unauthenticated user authenticated.
\<close>

section \<open>Requests\<close>

type_synonym http = "string \<Rightarrow> string \<Rightarrow> nat option \<times> string"

record LogicAuthResult =
  success :: bool
  user_id :: string
  username :: string
  email :: string
  error_message :: string

definition auth_failed :: "string \<Rightarrow> LogicAuthResult" where
  "auth_failed msg =
     \<lparr>success = False, user_id = [], username = [], email = [], error_message = msg\<rparr>"

definition WriteCallback :: "string \<Rightarrow> string \<Rightarrow> string \<times> nat" where
  "WriteCallback contents response = (response @ contents, length contents)"

definition sendHttpRequest :: "http \<Rightarrow> string \<Rightarrow> string \<Rightarrow> string \<Rightarrow> bool \<times> string" where
  "sendHttpRequest http url post_data response =
     (let (code, contents) = http url post_data in
      (code = Some 200 \<or> code = Some 401, fst (WriteCallback contents response)))"

definition parseAuthResponse :: "'v json_api \<Rightarrow> string \<Rightarrow> LogicAuthResult res" where
  "parseAuthResponse J response_json =
     (case jparse J response_json of
        None \<Rightarrow> Inr (auth_failed ''Failed to parse response JSON'')
      | Some root \<Rightarrow>
          and_then (jget J root ''success'') (\<lambda>s.
          and_then (if jisbool J s then jas_bool J s else Inr False) (\<lambda>ok.
            if ok then
              and_then (jget_string J root ''user_id'') (\<lambda>uid.
              and_then (jget_string J root ''username'') (\<lambda>uname.
              and_then (jget_string J root ''email'') (\<lambda>em.
                Inr \<lparr>success = True, user_id = uid, username = uname, email = em,
                     error_message = []\<rparr>)))
            else and_then (jget_string J root ''error'') (\<lambda>e. Inr (auth_failed e)))))"

definition verifyUserAuth ::
    "'v json_api \<Rightarrow> http \<Rightarrow> string \<Rightarrow> string \<Rightarrow> LogicAuthResult res" where
  "verifyUserAuth J http logic_server_url cookie =
     (if cookie = [] then Inr (auth_failed ''Cookie is empty'')
      else
        let post_data = jwrite J (jobject J [(''cookie'', jstr J cookie)]);
            (ok, response) = sendHttpRequest http (logic_server_url @ ''/logic/verify'') post_data []
        in if \<not> ok then Inr (auth_failed ''Failed to connect to logic server'')
           else parseAuthResponse J response)"

definition loginUser :: "http \<Rightarrow> string \<Rightarrow> string \<Rightarrow> string \<Rightarrow> int \<times> string" where
  "loginUser http logic_server_url post_data response =
     (let (ok, r) = sendHttpRequest http (logic_server_url @ ''/logic/login'') post_data response
      in (if ok then 0 else - 1, r))"

definition registerUser :: "http \<Rightarrow> string \<Rightarrow> string \<Rightarrow> string \<Rightarrow> int \<times> string" where
  "registerUser http logic_server_url post_data response =
     (let (ok, r) = sendHttpRequest http (logic_server_url @ ''/logic/register'') post_data response
      in (if ok then 0 else - 1, r))"

section \<open>Chat requests\<close>

text \<open>The body of the request that forwards client messages.\<close>

definition send_post_data ::
    "'v json_api \<Rightarrow> string \<Rightarrow> string \<Rightarrow> string \<Rightarrow> 'v \<Rightarrow> string" where
  "send_post_data J rid uid uname messages =
     jwrite J (jobject J [(''roomId'', jstr J rid), (''userId'', jstr J uid),
                          (''username'', jstr J uname), (''messages'', messages)])"

definition handleSend ::
    "'v json_api \<Rightarrow> http \<Rightarrow> string \<Rightarrow> 'v \<Rightarrow> string \<Rightarrow> string \<Rightarrow> string \<Rightarrow> (int \<times> string) res" where
  "handleSend J http logic_server_url root uid uname response =
     and_then (jlacks J root ''payload'') (\<lambda>lacks.
       if lacks then Inr (- 1, response)
       else and_then (jget J root ''payload'') (\<lambda>payload.
         and_then (jmissing J payload [''roomId'', ''messages'']) (\<lambda>missing.
           if missing then Inr (- 1, response)
           else and_then (jget_string J payload ''roomId'') (\<lambda>rid.
             and_then (jget J payload ''messages'') (\<lambda>messages.
               let (ok, response) = sendHttpRequest http (logic_server_url @ ''/logic/send'')
                                      (send_post_data J rid uid uname messages) response
               in if \<not> ok then Inr (- 1, response)
                  else (case jparse J response of
                          None \<Rightarrow> Inr (- 1, response)
                        | Some response_root \<Rightarrow>
                            and_then (jmember J response_root ''status'') (\<lambda>has.
                              if \<not> has then Inr (- 1, response)
                              else and_then (jget_string J response_root ''status'') (\<lambda>st.
                                Inr (if st \<noteq> ''success'' then - 1 else 0, response)))))))))"

definition history_post_data ::
    "'v json_api \<Rightarrow> string \<Rightarrow> string \<Rightarrow> int \<Rightarrow> string \<Rightarrow> string \<Rightarrow> string" where
  "history_post_data J rid first_id cnt uid uname =
     jwrite J (jobject J
       [(''type'', jstr J ''requestRoomHistory''),
        (''payload'', jobject J
           [(''roomId'', jstr J rid), (''firstMessageId'', jstr J first_id),
            (''count'', jint J cnt), (''userId'', jstr J uid), (''username'', jstr J uname)])])"

text \<open>The check of the answer that the last two requests share.\<close>

definition answer_has_type :: "'v json_api \<Rightarrow> string \<Rightarrow> string \<Rightarrow> (int \<times> string) res" where
  "answer_has_type J type response =
     (case jparse J response of
        None \<Rightarrow> Inr (- 1, response)
      | Some response_root \<Rightarrow>
          and_then (jmember J response_root ''type'') (\<lambda>has.
            if \<not> has then Inr (- 1, response)
            else and_then (jget_string J response_root ''type'') (\<lambda>t.
              Inr (if t = type then 0 else - 1, response))))"

definition handleRoomHistory ::
    "'v json_api \<Rightarrow> http \<Rightarrow> string \<Rightarrow> 'v \<Rightarrow> string \<Rightarrow> string \<Rightarrow> string \<Rightarrow> (int \<times> string) res" where
  "handleRoomHistory J http logic_server_url root uid uname response =
     and_then (jlacks J root ''payload'') (\<lambda>lacks.
       if lacks then Inr (- 1, response)
       else and_then (jget J root ''payload'') (\<lambda>payload.
         and_then (jlacks J payload ''roomId'') (\<lambda>lacks.
           if lacks then Inr (- 1, response)
           else and_then (jget_string J payload ''roomId'') (\<lambda>rid.
             and_then (jget_default J payload ''firstMessageId'' (jstr J [])) (\<lambda>f.
             and_then (jas_string J f) (\<lambda>first_id.
             and_then (jget_default J payload ''count'' (jint J 10)) (\<lambda>c.
             and_then (jas_int J c) (\<lambda>cnt.
               let cnt = (if cnt \<le> 0 then 10 else cnt);
                   (ok, response) =
                     sendHttpRequest http (logic_server_url @ ''/logic/room_history'')
                       (history_post_data J rid first_id cnt uid uname) response
               in if \<not> ok then Inr (- 1, response)
                  else answer_has_type J ''serverRoomHistory'' response))))))))"

definition create_post_data ::
    "'v json_api \<Rightarrow> string \<Rightarrow> string \<Rightarrow> string \<Rightarrow> string" where
  "create_post_data J room_name uid uname =
     jwrite J (jobject J
       [(''type'', jstr J ''clientCreateRoom''),
        (''payload'', jobject J
           [(''roomName'', jstr J room_name), (''creatorId'', jstr J uid),
            (''creatorUsername'', jstr J uname)])])"

definition handleCreateRoom ::
    "'v json_api \<Rightarrow> http \<Rightarrow> string \<Rightarrow> 'v \<Rightarrow> string \<Rightarrow> string \<Rightarrow> string \<Rightarrow> (int \<times> string) res" where
  "handleCreateRoom J http logic_server_url root uid uname response =
     and_then (jlacks J root ''payload'') (\<lambda>lacks.
       if lacks then Inr (- 1, response)
       else and_then (jget J root ''payload'') (\<lambda>payload.
         and_then (jlacks J payload ''roomName'') (\<lambda>lacks.
           if lacks then Inr (- 1, response)
           else and_then (jget_string J payload ''roomName'') (\<lambda>room_name.
             let (ok, response) =
                   sendHttpRequest http (logic_server_url @ ''/logic/room/create'')
                     (create_post_data J room_name uid uname) response
             in if \<not> ok then Inr (- 1, response)
                else answer_has_type J ''serverCreateRoom'' response))))"

section \<open>Lemmas\<close>

lemma sendHttpRequest_eq:
  "sendHttpRequest http url post r =
     (fst (http url post) = Some 200 \<or> fst (http url post) = Some 401, r @ snd (http url post))"
  by (simp add: sendHttpRequest_def WriteCallback_def split_beta)

lemma parseAuth_success:
  "parseAuthResponse J s = Inr r \<Longrightarrow> success r \<Longrightarrow>
     \<exists>root v. jparse J s = Some root \<and> jget J root ''success'' = Inr v \<and> jisbool J v
       \<and> jas_bool J v = Inr True \<and> jget_string J root ''user_id'' = Inr (user_id r)
       \<and> jget_string J root ''username'' = Inr (username r)"
  by (auto simp: parseAuthResponse_def and_then_eq_Inr auth_failed_def
      split: option.splits if_splits)

section \<open>Properties\<close>

text \<open>
  The client reports an authenticated user only when the logic server
  answered, with status 200 or 401, a document whose \<^verbatim>\<open>success\<close> member is the
  boolean true; the user's id and name are then the ones in that document. In
  particular no request is made, and nobody is authenticated, for an empty cookie.
\<close>

theorem verifyUserAuth_sound:
  assumes "verifyUserAuth J http url cookie = Inr r" "success r"
  shows "cookie \<noteq> [] \<and> (\<exists>code body root v.
      http (url @ ''/logic/verify'') (jwrite J (jobject J [(''cookie'', jstr J cookie)])) = (Some code, body)
      \<and> code \<in> {200, 401} \<and> jparse J body = Some root
      \<and> jget J root ''success'' = Inr v \<and> jas_bool J v = Inr True
      \<and> jget_string J root ''user_id'' = Inr (user_id r)
      \<and> jget_string J root ''username'' = Inr (username r))"
proof -
  let ?a = "http (url @ ''/logic/verify'') (jwrite J (jobject J [(''cookie'', jstr J cookie)]))"
  have ne: "cookie \<noteq> []" using assms by (auto simp: verifyUserAuth_def auth_failed_def)
  with assms have p: "parseAuthResponse J (snd ?a) = Inr r"
    and c: "fst ?a = Some 200 \<or> fst ?a = Some 401"
    by (auto simp: verifyUserAuth_def sendHttpRequest_eq auth_failed_def Let_def split: if_splits)
  from parseAuth_success [OF p assms(2)] c ne show ?thesis by (cases ?a) auto
qed

definition sample_verify_http :: "http" where
  "sample_verify_http url post =
     (Some 200, enc_jv (JObj [(''success'', JBool True), (''user_id'', JStr ''u1''),
                              (''username'', JStr ''ann''), (''email'', JStr ''a'')]))"

definition sample_auth :: LogicAuthResult where
  "sample_auth = \<lparr>success = True, user_id = ''u1'', username = ''ann'', email = ''a'', error_message = []\<rparr>"

lemma sample_verify: "verifyUserAuth jv_api sample_verify_http ''h'' ''c'' = Inr sample_auth"
  by (simp add: verifyUserAuth_def sendHttpRequest_eq parseAuthResponse_def sample_verify_http_def
      sample_auth_def jget_string_def)

theorem verifyUserAuth_sound_witness:
  "\<exists>root v. jget jv_api root ''success'' = Inr v \<and> jas_bool jv_api v = Inr True
     \<and> jget_string jv_api root ''user_id'' = Inr ''u1''"
  using verifyUserAuth_sound [OF sample_verify] by (auto simp: sample_auth_def)

text \<open>
  Forwarding client messages reports success exactly when the request went
  through and the answer's \<^verbatim>\<open>status\<close> is \<^verbatim>\<open>success\<close>; the request carries the room, the
  sender and the messages of the client's document unchanged.
\<close>

theorem handleSend_success_iff:
  assumes "jlacks J root ''payload'' = Inr False" "jget J root ''payload'' = Inr payload"
    and "jmissing J payload [''roomId'', ''messages''] = Inr False"
    and "jget_string J payload ''roomId'' = Inr rid" "jget J payload ''messages'' = Inr messages"
    and "http (url @ ''/logic/send'') (send_post_data J rid uid uname messages) = (code, body)"
    and "jparse J body = Some answer" "jmember J answer ''status'' = Inr True"
    and "jget_string J answer ''status'' = Inr st"
  shows "handleSend J http url root uid uname [] = Inr (0, body)
           \<longleftrightarrow> code \<in> {Some 200, Some 401} \<and> st = ''success''"
  using assms by (auto simp: handleSend_def sendHttpRequest_eq)

definition sample_root :: jv where
  "sample_root = JObj [(''payload'', JObj [(''roomId'', JStr ''r1''), (''messages'', JArr [])])]"

theorem handleSend_success_iff_witness:
  "handleSend jv_api (\<lambda>url post. (Some 200, enc_jv (JObj [(''status'', JStr ''success'')]))) ''h''
     sample_root ''u1'' ''ann'' [] = Inr (0, enc_jv (JObj [(''status'', JStr ''success'')]))"
proof -
  let ?payload = "JObj [(''roomId'', JStr ''r1''), (''messages'', JArr [])]"
  let ?answer = "JObj [(''status'', JStr ''success'')]"
  show ?thesis
    by (subst handleSend_success_iff
        [where payload = ?payload and rid = "''r1''" and messages = "JArr []"
          and code = "Some 200" and answer = ?answer and st = "''success''"])
      (simp_all add: jlacks_def jget_null_def jget_string_def sample_root_def)
qed

text \<open>
  \<^verbatim>\<open>loginUser\<close> reports success whenever the logic server answers with 200 or
  401, so an answer 401 counts as a login; any other status counts as a failure
  but its body is still handed to the caller.
\<close>

theorem loginUser_status:
  "loginUser http url post r =
     (if fst (http (url @ ''/logic/login'') post) \<in> {Some 200, Some 401} then 0 else - 1,
      r @ snd (http (url @ ''/logic/login'') post))"
  by (simp add: loginUser_def sendHttpRequest_eq)

end
