(* ===== verification/Md5.thy ===== *)
theory Md5
  imports ChatPrelude
begin

text \<open>
  \<^verbatim>\<open>muduo/base/md5.cc\<close>, the digest with which the logic server stores and compares
  passwords: the unrolled block transformation, the streaming \<^verbatim>\<open>update\<close> with its
  64-byte buffer and two-word bit counter, the padding of \<^verbatim>\<open>final\<close>, and the
  hexadecimal digest. The lengths keep the widths of the source, in particular the
  32-bit loop variable of \<^verbatim>\<open>update\<close>. Shown: the class computes the function of
  RFC 1321, however the input is cut into updates; and asking for the digest twice is wrong.
\<close>

section \<open>The block transformation\<close>

type_synonym md5_regs = "u32 \<times> u32 \<times> u32 \<times> u32"

definition md5_F :: "u32 \<Rightarrow> u32 \<Rightarrow> u32 \<Rightarrow> u32" where
  "md5_F x y z = (x AND y) OR (NOT x AND z)"

definition md5_G :: "u32 \<Rightarrow> u32 \<Rightarrow> u32 \<Rightarrow> u32" where
  "md5_G x y z = (x AND z) OR (y AND NOT z)"

definition md5_H :: "u32 \<Rightarrow> u32 \<Rightarrow> u32 \<Rightarrow> u32" where
  "md5_H x y z = x XOR y XOR z"

definition md5_I :: "u32 \<Rightarrow> u32 \<Rightarrow> u32 \<Rightarrow> u32" where
  "md5_I x y z = y XOR (x OR NOT z)"

definition ROTATE_LEFT :: "u32 \<Rightarrow> nat \<Rightarrow> u32" where
  "ROTATE_LEFT x n = push_bit n x OR drop_bit (32 - n) x"

text \<open>The macros \<^verbatim>\<open>FF\<close>, \<^verbatim>\<open>GG\<close>, \<^verbatim>\<open>HH\<close> and \<^verbatim>\<open>II\<close>: the new value of their first argument.\<close>

definition FF :: "u32 \<Rightarrow> u32 \<Rightarrow> u32 \<Rightarrow> u32 \<Rightarrow> u32 \<Rightarrow> nat \<Rightarrow> u32 \<Rightarrow> u32" where
  "FF a b c d x s ac = ROTATE_LEFT (a + (md5_F b c d + x + ac)) s + b"

definition GG :: "u32 \<Rightarrow> u32 \<Rightarrow> u32 \<Rightarrow> u32 \<Rightarrow> u32 \<Rightarrow> nat \<Rightarrow> u32 \<Rightarrow> u32" where
  "GG a b c d x s ac = ROTATE_LEFT (a + (md5_G b c d + x + ac)) s + b"

definition HH :: "u32 \<Rightarrow> u32 \<Rightarrow> u32 \<Rightarrow> u32 \<Rightarrow> u32 \<Rightarrow> nat \<Rightarrow> u32 \<Rightarrow> u32" where
  "HH a b c d x s ac = ROTATE_LEFT (a + (md5_H b c d + x + ac)) s + b"

definition II :: "u32 \<Rightarrow> u32 \<Rightarrow> u32 \<Rightarrow> u32 \<Rightarrow> u32 \<Rightarrow> nat \<Rightarrow> u32 \<Rightarrow> u32" where
  "II a b c d x s ac = ROTATE_LEFT (a + (md5_I b c d + x + ac)) s + b"

text \<open>
  A call of a macro assigns one of the four locals. \<open>md5_set_a FF 0 7 t\<close> is
  \<^verbatim>\<open>FF (a, b, c, d, x[0], 7, t)\<close>; the other three rotate the arguments as the source does.
\<close>

type_synonym md5_op = "u32 \<Rightarrow> u32 \<Rightarrow> u32 \<Rightarrow> u32 \<Rightarrow> u32 \<Rightarrow> nat \<Rightarrow> u32 \<Rightarrow> u32"
type_synonym md5_stmt = "u32 list \<Rightarrow> md5_regs \<Rightarrow> md5_regs"

fun md5_set_a :: "md5_op \<Rightarrow> nat \<Rightarrow> nat \<Rightarrow> u32 \<Rightarrow> md5_stmt" where
  "md5_set_a op k s ac x (a, b, c, d) = (op a b c d (x ! k) s ac, b, c, d)"

fun md5_set_d :: "md5_op \<Rightarrow> nat \<Rightarrow> nat \<Rightarrow> u32 \<Rightarrow> md5_stmt" where
  "md5_set_d op k s ac x (a, b, c, d) = (a, b, c, op d a b c (x ! k) s ac)"

fun md5_set_c :: "md5_op \<Rightarrow> nat \<Rightarrow> nat \<Rightarrow> u32 \<Rightarrow> md5_stmt" where
  "md5_set_c op k s ac x (a, b, c, d) = (a, b, op c d a b (x ! k) s ac, d)"

fun md5_set_b :: "md5_op \<Rightarrow> nat \<Rightarrow> nat \<Rightarrow> u32 \<Rightarrow> md5_stmt" where
  "md5_set_b op k s ac x (a, b, c, d) = (a, op b c d a (x ! k) s ac, c, d)"

definition md5_round1 :: "md5_stmt list" where
  "md5_round1 =
     [md5_set_a FF 0 7 0xd76aa478, md5_set_d FF 1 12 0xe8c7b756,
      md5_set_c FF 2 17 0x242070db, md5_set_b FF 3 22 0xc1bdceee,
      md5_set_a FF 4 7 0xf57c0faf, md5_set_d FF 5 12 0x4787c62a,
      md5_set_c FF 6 17 0xa8304613, md5_set_b FF 7 22 0xfd469501,
      md5_set_a FF 8 7 0x698098d8, md5_set_d FF 9 12 0x8b44f7af,
      md5_set_c FF 10 17 0xffff5bb1, md5_set_b FF 11 22 0x895cd7be,
      md5_set_a FF 12 7 0x6b901122, md5_set_d FF 13 12 0xfd987193,
      md5_set_c FF 14 17 0xa679438e, md5_set_b FF 15 22 0x49b40821]"

definition md5_round2 :: "md5_stmt list" where
  "md5_round2 =
     [md5_set_a GG 1 5 0xf61e2562, md5_set_d GG 6 9 0xc040b340,
      md5_set_c GG 11 14 0x265e5a51, md5_set_b GG 0 20 0xe9b6c7aa,
      md5_set_a GG 5 5 0xd62f105d, md5_set_d GG 10 9 0x2441453,
      md5_set_c GG 15 14 0xd8a1e681, md5_set_b GG 4 20 0xe7d3fbc8,
      md5_set_a GG 9 5 0x21e1cde6, md5_set_d GG 14 9 0xc33707d6,
      md5_set_c GG 3 14 0xf4d50d87, md5_set_b GG 8 20 0x455a14ed,
      md5_set_a GG 13 5 0xa9e3e905, md5_set_d GG 2 9 0xfcefa3f8,
      md5_set_c GG 7 14 0x676f02d9, md5_set_b GG 12 20 0x8d2a4c8a]"

definition md5_round3 :: "md5_stmt list" where
  "md5_round3 =
     [md5_set_a HH 5 4 0xfffa3942, md5_set_d HH 8 11 0x8771f681,
      md5_set_c HH 11 16 0x6d9d6122, md5_set_b HH 14 23 0xfde5380c,
      md5_set_a HH 1 4 0xa4beea44, md5_set_d HH 4 11 0x4bdecfa9,
      md5_set_c HH 7 16 0xf6bb4b60, md5_set_b HH 10 23 0xbebfbc70,
      md5_set_a HH 13 4 0x289b7ec6, md5_set_d HH 0 11 0xeaa127fa,
      md5_set_c HH 3 16 0xd4ef3085, md5_set_b HH 6 23 0x4881d05,
      md5_set_a HH 9 4 0xd9d4d039, md5_set_d HH 12 11 0xe6db99e5,
      md5_set_c HH 15 16 0x1fa27cf8, md5_set_b HH 2 23 0xc4ac5665]"

definition md5_round4 :: "md5_stmt list" where
  "md5_round4 =
     [md5_set_a II 0 6 0xf4292244, md5_set_d II 7 10 0x432aff97,
      md5_set_c II 14 15 0xab9423a7, md5_set_b II 5 21 0xfc93a039,
      md5_set_a II 12 6 0x655b59c3, md5_set_d II 3 10 0x8f0ccc92,
      md5_set_c II 10 15 0xffeff47d, md5_set_b II 1 21 0x85845dd1,
      md5_set_a II 8 6 0x6fa87e4f, md5_set_d II 15 10 0xfe2ce6e0,
      md5_set_c II 6 15 0xa3014314, md5_set_b II 13 21 0x4e0811a1,
      md5_set_a II 4 6 0xf7537e82, md5_set_d II 11 10 0xbd3af235,
      md5_set_c II 2 15 0x2ad7d2bb, md5_set_b II 9 21 0xeb86d391]"

definition md5_decode :: "byte list \<Rightarrow> u32 list" where
  "md5_decode input =
     map (\<lambda>i. ucast (input ! (4 * i)) OR push_bit 8 (ucast (input ! (4 * i + 1)))
            OR push_bit 16 (ucast (input ! (4 * i + 2))) OR push_bit 24 (ucast (input ! (4 * i + 3))))
       [0..<length input div 4]"

definition md5_encode :: "u32 list \<Rightarrow> byte list" where
  "md5_encode input =
     concat (map (\<lambda>w. [ucast (w AND 0xff), ucast (drop_bit 8 w AND 0xff),
                       ucast (drop_bit 16 w AND 0xff), ucast (drop_bit 24 w AND 0xff)]) input)"

fun md5_transform :: "byte list \<Rightarrow> md5_regs \<Rightarrow> md5_regs" where
  "md5_transform block (s0, s1, s2, s3) =
     (let (a, b, c, d) = fold (\<lambda>stmt. stmt (md5_decode block))
                           (md5_round1 @ md5_round2 @ md5_round3 @ md5_round4) (s0, s1, s2, s3)
      in (s0 + a, s1 + b, s2 + c, s3 + d))"

section \<open>The class\<close>

record MD5 =
  md5_state :: md5_regs
  md5_count0 :: u32
  md5_count1 :: u32
  md5_buffer :: "byte list"
  md5_digest :: "byte list"
  md5_finished :: bool

definition md5_init_state :: md5_regs where
  "md5_init_state = (0x67452301, 0xefcdab89, 0x98badcfe, 0x10325476)"

definition md5_reset :: "MD5 \<Rightarrow> MD5" where
  "md5_reset m = m\<lparr>md5_finished := False, md5_count0 := 0, md5_count1 := 0, md5_state := md5_init_state\<rparr>"

definition md5_PADDING :: "byte list" where
  "md5_PADDING = 0x80 # replicate 63 0"

text \<open>
  The loop over whole blocks. Its variable has 32 bits, the length 64: \<open>i + 63\<close> may
  wrap, and then a block outside the input would be read.
\<close>

partial_function (option) md5_loop :: "byte list \<Rightarrow> u32 \<Rightarrow> md5_regs \<Rightarrow> (u32 \<times> md5_regs) res option" where
  "md5_loop input i st =
     (if unat (i + 63) < length input then
        (if unat i + 64 \<le> length input
         then md5_loop input (i + 64) (md5_transform (take 64 (drop (unat i) input)) st)
         else Some (Inl OutOfBounds))
      else Some (Inr (i, st)))"

text \<open>The equations by which the loop is evaluated: the condition first.\<close>

definition md5_loop_if :: "bool \<Rightarrow> byte list \<Rightarrow> u32 \<Rightarrow> md5_regs \<Rightarrow> (u32 \<times> md5_regs) res option" where
  "md5_loop_if c input i st =
     (if c then
        (if unat i + 64 \<le> length input
         then md5_loop input (i + 64) (md5_transform (take 64 (drop (unat i) input)) st)
         else Some (Inl OutOfBounds))
      else Some (Inr (i, st)))"

lemma md5_loop_if_code [code]:
  "md5_loop_if True input i st =
     (if unat i + 64 \<le> length input
      then md5_loop input (i + 64) (md5_transform (take 64 (drop (unat i) input)) st)
      else Some (Inl OutOfBounds))"
  "md5_loop_if False input i st = Some (Inr (i, st))"
  by (simp_all add: md5_loop_if_def)

lemma md5_loop_code [code]: "md5_loop input i st = md5_loop_if (unat (i + 63) < length input) input i st"
  by (subst md5_loop.simps) (simp add: md5_loop_if_def)

text \<open>\<^verbatim>\<open>memcpy(&_buffer[index], ...)\<close>\<close>

definition md5_copy :: "nat \<Rightarrow> byte list \<Rightarrow> byte list \<Rightarrow> byte list" where
  "md5_copy i xs buf = take i buf @ xs @ drop (i + length xs) buf"

definition md5_index :: "MD5 \<Rightarrow> u32" where
  "md5_index m = drop_bit 3 (md5_count0 m) AND 0x3f"

definition md5_add_count :: "nat \<Rightarrow> MD5 \<Rightarrow> MD5" where
  "md5_add_count len m =
     (let l = (word_of_nat len :: u32); bits = push_bit 3 l; c0 = md5_count0 m + bits
      in m\<lparr>md5_count0 := c0,
           md5_count1 := (if c0 < bits then md5_count1 m + 1 else md5_count1 m) + drop_bit 29 l\<rparr>)"

definition md5_keep :: "u32 \<Rightarrow> u32 \<Rightarrow> byte list \<Rightarrow> MD5 \<Rightarrow> MD5 res" where
  "md5_keep index i input m =
     (if unat i \<le> length input \<and> unat index + (length input - unat i) \<le> 64
      then Inr (m\<lparr>md5_buffer := md5_copy (unat index) (drop (unat i) input) (md5_buffer m)\<rparr>)
      else Inl OutOfBounds)"

definition md5_update :: "byte list \<Rightarrow> MD5 \<Rightarrow> MD5 res option" where
  "md5_update input m =
     (let index = md5_index m;
          m = md5_add_count (length input) (m\<lparr>md5_finished := False\<rparr>);
          partLen = 64 - index in
      if unat partLen \<le> length input then
        (let buf = md5_copy (unat index) (take (unat partLen) input) (md5_buffer m) in
         case md5_loop input partLen (md5_transform buf (md5_state m)) of
           None \<Rightarrow> None
         | Some (Inl e) \<Rightarrow> Some (Inl e)
         | Some (Inr (i, st)) \<Rightarrow> Some (md5_keep 0 i input (m\<lparr>md5_buffer := buf, md5_state := st\<rparr>)))
      else Some (md5_keep index 0 input m))"

text \<open>Sequencing of calls that may fail or not return.\<close>

definition md5_then :: "'a res option \<Rightarrow> ('a \<Rightarrow> 'b res option) \<Rightarrow> 'b res option" where
  "md5_then r f = (case r of None \<Rightarrow> None | Some (Inl e) \<Rightarrow> Some (Inl e) | Some (Inr a) \<Rightarrow> f a)"

definition md5_regs_list :: "md5_regs \<Rightarrow> u32 list" where
  "md5_regs_list = (\<lambda>(a, b, c, d). [a, b, c, d])"

definition md5_final :: "MD5 \<Rightarrow> MD5 res option" where
  "md5_final m =
     (let bits = md5_encode [md5_count0 m, md5_count1 m];
          index = md5_index m;
          padLen = (if index < 56 then 56 - index else 120 - index) in
      md5_then (md5_update (take (unat padLen) md5_PADDING) m) (\<lambda>m1.
      md5_then (md5_update bits m1) (\<lambda>m2.
        Some (Inr (m2\<lparr>md5_digest := md5_encode (md5_regs_list (md5_state m2)),
                      md5_state := md5_state m, md5_count0 := md5_count0 m, md5_count1 := md5_count1 m\<rparr>)))))"

definition md5_get_digest :: "MD5 \<Rightarrow> (byte list \<times> MD5) res option" where
  "md5_get_digest m =
     (if md5_finished m then Some (Inr (md5_digest m, m))
      else md5_then (md5_final (m\<lparr>md5_finished := True\<rparr>)) (\<lambda>m. Some (Inr (md5_digest m, m))))"

definition md5_HEX :: "char list" where
  "md5_HEX = ''0123456789abcdef''"

definition bytesToHexString :: "byte list \<Rightarrow> string" where
  "bytesToHexString input =
     concat (map (\<lambda>b. [md5_HEX ! (unat b div 16), md5_HEX ! (unat b mod 16)]) input)"

definition md5_toString :: "MD5 \<Rightarrow> (string \<times> MD5) res option" where
  "md5_toString m = md5_then (md5_get_digest m) (\<lambda>(d, m). Some (Inr (bytesToHexString d, m)))"

text \<open>
  The constructor from a string. The members are uninitialised before \<^verbatim>\<open>reset\<close>:
  \<open>junk\<close> is what they hold.
\<close>

definition newMD5 :: "MD5 \<Rightarrow> string \<Rightarrow> MD5 res option" where
  "newMD5 junk str = md5_update (bytes_of str) (md5_reset junk)"

section \<open>The function of RFC 1321\<close>

definition md5_T :: "u32 list" where
  "md5_T =
     [0xd76aa478, 0xe8c7b756, 0x242070db, 0xc1bdceee, 0xf57c0faf, 0x4787c62a, 0xa8304613, 0xfd469501,
      0x698098d8, 0x8b44f7af, 0xffff5bb1, 0x895cd7be, 0x6b901122, 0xfd987193, 0xa679438e, 0x49b40821,
      0xf61e2562, 0xc040b340, 0x265e5a51, 0xe9b6c7aa, 0xd62f105d, 0x2441453, 0xd8a1e681, 0xe7d3fbc8,
      0x21e1cde6, 0xc33707d6, 0xf4d50d87, 0x455a14ed, 0xa9e3e905, 0xfcefa3f8, 0x676f02d9, 0x8d2a4c8a,
      0xfffa3942, 0x8771f681, 0x6d9d6122, 0xfde5380c, 0xa4beea44, 0x4bdecfa9, 0xf6bb4b60, 0xbebfbc70,
      0x289b7ec6, 0xeaa127fa, 0xd4ef3085, 0x4881d05, 0xd9d4d039, 0xe6db99e5, 0x1fa27cf8, 0xc4ac5665,
      0xf4292244, 0x432aff97, 0xab9423a7, 0xfc93a039, 0x655b59c3, 0x8f0ccc92, 0xffeff47d, 0x85845dd1,
      0x6fa87e4f, 0xfe2ce6e0, 0xa3014314, 0x4e0811a1, 0xf7537e82, 0xbd3af235, 0x2ad7d2bb, 0xeb86d391]"

definition md5_shift :: "nat \<Rightarrow> nat" where
  "md5_shift i = [[7, 12, 17, 22], [5, 9, 14, 20], [4, 11, 16, 23], [6, 10, 15, 21]] ! (i div 16) ! (i mod 4)"

definition md5_word :: "nat \<Rightarrow> nat" where
  "md5_word i = (if i < 16 then i else if i < 32 then (5 * i + 1) mod 16
                 else if i < 48 then (3 * i + 5) mod 16 else 7 * i mod 16)"

definition md5_mix :: "nat \<Rightarrow> u32 \<Rightarrow> u32 \<Rightarrow> u32 \<Rightarrow> u32" where
  "md5_mix i = (if i < 16 then md5_F else if i < 32 then md5_G else if i < 48 then md5_H else md5_I)"

fun md5_ref_step :: "u32 list \<Rightarrow> nat \<Rightarrow> md5_regs \<Rightarrow> md5_regs" where
  "md5_ref_step x i (a, b, c, d) =
     (d, b + ROTATE_LEFT (a + md5_mix i b c d + x ! md5_word i + md5_T ! i) (md5_shift i), b, c)"

fun md5_ref_block :: "byte list \<Rightarrow> md5_regs \<Rightarrow> md5_regs" where
  "md5_ref_block block (s0, s1, s2, s3) =
     (let (a, b, c, d) = fold (md5_ref_step (md5_decode block)) [0..<64] (s0, s1, s2, s3)
      in (s0 + a, s1 + b, s2 + c, s3 + d))"

definition md5_blocks :: "byte list \<Rightarrow> byte list list" where
  "md5_blocks bs = map (\<lambda>i. take 64 (drop (64 * i) bs)) [0..<length bs div 64]"

definition md5_pad :: "byte list \<Rightarrow> byte list" where
  "md5_pad bs =
     bs @ 0x80 # replicate ((119 - length bs mod 64) mod 64) 0
     @ md5_encode [word_of_nat (8 * length bs), word_of_nat (8 * length bs div 2 ^ 32)]"

definition md5_ref :: "string \<Rightarrow> string" where
  "md5_ref s = bytesToHexString (md5_encode (md5_regs_list
     (fold md5_ref_block (md5_blocks (md5_pad (bytes_of s))) md5_init_state)))"

section \<open>The unrolled rounds\<close>

text \<open>
  Four calls of a macro, which assign \<open>a\<close>, \<open>d\<close>, \<open>c\<close> and \<open>b\<close> in this order, are four
  steps of the loop of the RFC, which rotates the registers instead.
\<close>

definition md5_gen :: "md5_op \<Rightarrow> nat \<Rightarrow> nat \<Rightarrow> u32 \<Rightarrow> md5_stmt" where
  "md5_gen op k s ac x = (\<lambda>(a, b, c, d). (d, op a b c d (x ! k) s ac, b, c))"

lemma md5_four:
  "md5_set_b op k3 s3 t3 x (md5_set_c op k2 s2 t2 x (md5_set_d op k1 s1 t1 x (md5_set_a op k0 s0 t0 x r)))
   = md5_gen op k3 s3 t3 x (md5_gen op k2 s2 t2 x (md5_gen op k1 s1 t1 x (md5_gen op k0 s0 t0 x r)))"
  by (cases r) (simp add: md5_gen_def)

lemma md5_ref_step_gen:
  "i < 16 \<Longrightarrow> md5_ref_step x i = md5_gen FF i (md5_shift i) (md5_T ! i) x"
  "16 \<le> i \<Longrightarrow> i < 32 \<Longrightarrow> md5_ref_step x i = md5_gen GG ((5 * i + 1) mod 16) (md5_shift i) (md5_T ! i) x"
  "32 \<le> i \<Longrightarrow> i < 48 \<Longrightarrow> md5_ref_step x i = md5_gen HH ((3 * i + 5) mod 16) (md5_shift i) (md5_T ! i) x"
  "48 \<le> i \<Longrightarrow> i < 64 \<Longrightarrow> md5_ref_step x i = md5_gen II (7 * i mod 16) (md5_shift i) (md5_T ! i) x"
  by (auto simp: fun_eq_iff md5_gen_def md5_mix_def md5_word_def FF_def GG_def HH_def II_def algebra_simps)

lemma md5_upt16: "[0..<16] = [0, 1, 2, 3, 4, 5, 6, 7, 8, 9, 10, 11, 12, 13, 14, 15 :: nat]"
  by code_simp

lemma md5_round1_ref: "fold (\<lambda>stmt. stmt x) md5_round1 r = fold (md5_ref_step x) [0..<16] r"
  by (simp add: md5_round1_def md5_four md5_ref_step_gen md5_upt16 md5_shift_def md5_T_def)

lemma md5_round2_ref: "fold (\<lambda>stmt. stmt x) md5_round2 r = fold (md5_ref_step x) [16..<32] r"
  by (simp add: md5_round2_def md5_four md5_ref_step_gen upt_conv_Cons md5_shift_def md5_T_def)

lemma md5_round3_ref: "fold (\<lambda>stmt. stmt x) md5_round3 r = fold (md5_ref_step x) [32..<48] r"
  by (simp add: md5_round3_def md5_four md5_ref_step_gen upt_conv_Cons md5_shift_def md5_T_def)

lemma md5_round4_ref: "fold (\<lambda>stmt. stmt x) md5_round4 r = fold (md5_ref_step x) [48..<64] r"
  by (simp add: md5_round4_def md5_four md5_ref_step_gen upt_conv_Cons md5_shift_def md5_T_def)

lemma md5_upt_rounds: "[0..<64] = [0..<16] @ [16..<32] @ [32..<48] @ [48..<64 :: nat]"
  by (simp add: upt_conv_Cons)

lemma md5_transform_ref: "md5_transform = md5_ref_block"
proof (intro ext)
  fix block :: "byte list" and r :: md5_regs
  show "md5_transform block r = md5_ref_block block r"
    by (cases r) (simp add: md5_upt_rounds md5_round1_ref md5_round2_ref md5_round3_ref md5_round4_ref)
qed

section \<open>Blocks and rests\<close>

lemma md5_blocks_short [simp]: "length bs < 64 \<Longrightarrow> md5_blocks bs = []"
  by (simp add: md5_blocks_def)

lemma md5_blocks_one:
  assumes "length b = 64"
  shows "md5_blocks (b @ bs) = b # md5_blocks bs"
proof -
  have "(64 + length bs) div 64 = Suc (length bs div 64)" using div_add_self1 [of 64 "length bs"] by simp
  then show ?thesis by (simp add: md5_blocks_def assms upt_conv_Cons map_Suc_upt [symmetric] del: map_Suc_upt upt_Suc)
qed

definition md5_rest :: "byte list \<Rightarrow> byte list" where
  "md5_rest bs = drop (64 * (length bs div 64)) bs"

lemma length_md5_rest [simp]: "length (md5_rest bs) = length bs mod 64"
  by (simp add: md5_rest_def minus_mult_div_eq_mod)

lemma md5_rest_short: "length bs < 64 \<Longrightarrow> md5_rest bs = bs"
  by (simp add: md5_rest_def)

lemma md5_rest_one:
  assumes "length b = 64"
  shows "md5_rest (b @ bs) = md5_rest bs"
proof -
  have "(64 + length bs) div 64 = length bs div 64 + 1" by (rule div_add_self1) simp
  then show ?thesis by (simp add: md5_rest_def assms)
qed

lemma md5_split:
  "md5_blocks (bs @ cs) = md5_blocks bs @ md5_blocks (md5_rest bs @ cs)
   \<and> md5_rest (bs @ cs) = md5_rest (md5_rest bs @ cs)"
proof (induction bs rule: length_induct)
  case (1 bs)
  show ?case
  proof (cases "length bs < 64")
    case True
    then show ?thesis by (simp add: md5_rest_short)
  next
    case False
    define b where "b = take 64 bs"
    define r where "r = drop 64 bs"
    have bs: "bs = b @ r" and b: "length b = 64" using False by (simp_all add: b_def r_def)
    have "md5_blocks (r @ cs) = md5_blocks r @ md5_blocks (md5_rest r @ cs)"
      "md5_rest (r @ cs) = md5_rest (md5_rest r @ cs)"
      using 1 [rule_format, of r] b by (simp_all add: bs)
    then show ?thesis by (simp add: bs b md5_blocks_one md5_rest_one)
  qed
qed

lemmas md5_blocks_append = md5_split [THEN conjunct1] and md5_rest_append = md5_split [THEN conjunct2]

section \<open>The counter\<close>

lemma unat_eq_imp: "unat v = unat w \<Longrightarrow> v = (w :: 'a::len word)"
  by (simp only: unsigned_word_eqI)

lemma md5_unat_drop3: "unat (drop_bit 3 w AND 0x3f) = unat (w :: u32) div 8 mod 64"
proof -
  have m: "(0x3f :: u32) = mask 6" by (simp add: mask_eq_exp_minus_1)
  have d: "unat (drop_bit 3 w) = unat w div 8" by (subst unat_drop_bit) simp
  show ?thesis unfolding m unat_and_mask d by simp
qed

lemma md5_unat_of: "unat (word_of_nat n :: u32) = n mod 2 ^ 32"
  by (subst unat_of_nat) simp

lemma md5_index_count:
  assumes "md5_count0 m = word_of_nat (8 * n)"
  shows "unat (md5_index m) = n mod 64"
proof -
  have "8 * n mod 2 ^ 32 div 8 = n mod 2 ^ 29"
    using mult_mod_right [of 8 n "2 ^ 29"] by simp
  moreover have "n mod 2 ^ 29 mod 64 = n mod 64"
    by (rule mod_mod_cancel) simp
  ultimately show ?thesis
    unfolding md5_index_def md5_unat_drop3 assms md5_unat_of by (simp only:)
qed

lemma md5_carry:
  fixes x y :: u32
  shows "word_of_nat ((unat x + unat y) div 2 ^ 32) = (if x + y < y then 1 else 0 :: u32)"
proof -
  have b: "unat x < 2 ^ 32" "unat y < 2 ^ 32" using unsigned_less [of x] unsigned_less [of y] by simp_all
  have s: "unat (x + y) = (unat x + unat y) mod 2 ^ 32" by (simp add: unat_word_ariths)
  have "(unat x + unat y) div 2 ^ 32 = (if unat x + unat y < 2 ^ 32 then 0 else 1)"
    using b by (auto simp: div_nat_eqI)
  moreover have "x + y < y \<longleftrightarrow> \<not> unat x + unat y < 2 ^ 32"
  proof (cases "unat x + unat y < 2 ^ 32")
    case False
    then have "(unat x + unat y) mod 2 ^ 32 = unat x + unat y - 2 ^ 32"
      using b by (simp add: mod_if)
    then show ?thesis using False b s by (simp add: word_less_nat_alt)
  qed (simp add: word_less_nat_alt s)
  ultimately show ?thesis by simp
qed

lemma md5_add_count_bits:
  fixes m :: MD5
  assumes "md5_count0 m = word_of_nat (8 * n)" "md5_count1 m = word_of_nat (8 * n div 2 ^ 32)" "len < 2 ^ 32"
  shows "md5_count0 (md5_add_count len m) = word_of_nat (8 * (n + len))"
    and "md5_count1 (md5_add_count len m) = word_of_nat (8 * (n + len) div 2 ^ 32)"
proof -
  define x y where "x = (word_of_nat (8 * n) :: u32)" and "y = (push_bit 3 (word_of_nat len) :: u32)"
  have y: "y = word_of_nat (8 * len)" by (simp add: y_def push_bit_eq_mult algebra_simps)
  have u: "unat x = 8 * n mod 2 ^ 32" "unat y = 8 * len mod 2 ^ 32"
    by (simp_all only: x_def y md5_unat_of)
  have "8 * (n + len) = 2 ^ 32 * (8 * n div 2 ^ 32 + 8 * len div 2 ^ 32) + (unat x + unat y)"
    unfolding u distrib_left
    using mult_div_mod_eq [of "2 ^ 32" "8 * n"] mult_div_mod_eq [of "2 ^ 32" "8 * len"] by linarith
  then have d: "8 * (n + len) div 2 ^ 32
      = 8 * n div 2 ^ 32 + 8 * len div 2 ^ 32 + (unat x + unat y) div 2 ^ 32"
    by (simp only: div_mult_self4 [of "2 ^ 32 :: nat"] zero_neq_numeral) simp
  have "drop_bit 29 (word_of_nat len :: u32) = word_of_nat (len div 2 ^ 29)"
  proof (rule unat_eq_imp)
    have "len div 2 ^ 29 mod 2 ^ 32 = len div 2 ^ 29"
      by (intro mod_less order_le_less_trans [OF div_le_dividend assms(3)])
    then show "unat (drop_bit 29 (word_of_nat len :: u32)) = unat (word_of_nat (len div 2 ^ 29) :: u32)"
      using assms(3) by (subst unat_drop_bit) (simp only: md5_unat_of mod_less)
  qed
  also have "len div 2 ^ 29 = 8 * len div 2 ^ 32" by simp
  finally have h: "drop_bit 29 (word_of_nat len :: u32) = word_of_nat (8 * len div 2 ^ 32)" .
  show "md5_count0 (md5_add_count len m) = word_of_nat (8 * (n + len))"
    using y unfolding y_def by (simp add: md5_add_count_def Let_def assms(1) algebra_simps)
  have "md5_count1 (md5_add_count len m)
      = (if x + y < y then 1 else 0) + word_of_nat (8 * n div 2 ^ 32) + word_of_nat (8 * len div 2 ^ 32)"
    by (simp add: md5_add_count_def Let_def assms(1,2) h x_def y_def del: power_numeral)
  also have "\<dots> = word_of_nat (8 * (n + len) div 2 ^ 32)"
    unfolding d by (simp add: md5_carry [of x y, symmetric] del: power_numeral)
  finally show "md5_count1 (md5_add_count len m) = word_of_nat (8 * (n + len) div 2 ^ 32)" .
qed

section \<open>Streaming\<close>

text \<open>The state of a digest that has been fed \<open>bs\<close>.\<close>

definition md5_ok :: "byte list \<Rightarrow> MD5 \<Rightarrow> bool" where
  "md5_ok bs m \<longleftrightarrow> md5_state m = fold md5_transform (md5_blocks bs) md5_init_state
     \<and> length (md5_buffer m) = 64 \<and> take (length bs mod 64) (md5_buffer m) = md5_rest bs
     \<and> md5_count0 m = word_of_nat (8 * length bs) \<and> md5_count1 m = word_of_nat (8 * length bs div 2 ^ 32)"

lemma md5_add_count_same [simp]:
  "md5_buffer (md5_add_count len m) = md5_buffer m" "md5_state (md5_add_count len m) = md5_state m"
  by (simp_all add: md5_add_count_def Let_def)

lemma md5_copy_take:
  "length buf = 64 \<Longrightarrow> i + length xs \<le> 64 \<Longrightarrow> take (i + length xs) (md5_copy i xs buf) = take i buf @ xs"
  by (simp add: md5_copy_def)

lemma md5_copy_length: "length buf = 64 \<Longrightarrow> i + length xs \<le> 64 \<Longrightarrow> length (md5_copy i xs buf) = 64"
  by (simp add: md5_copy_def)

lemma md5_loop_ends:
  assumes "length input + 64 \<le> 2 ^ 32" "unat i \<le> length input"
  shows "\<exists>j. md5_loop input i st = Some (Inr (j, fold md5_transform (md5_blocks (drop (unat i) input)) st))
           \<and> unat j \<le> length input \<and> drop (unat j) input = md5_rest (drop (unat i) input)"
  using assms(2)
proof (induction "length input - unat i" arbitrary: i st rule: less_induct)
  case less
  have i63: "unat (i + 63) = unat i + 63"
    using assms(1) less.prems by (subst unat_word_ariths) simp
  show ?case
  proof (cases "unat i + 63 < length input")
    case True
    have i64: "unat (i + 64) = unat i + 64"
      using assms(1) True by (subst unat_word_ariths) simp
    define b where "b = take 64 (drop (unat i) input)"
    have d: "drop (unat i) input = b @ drop (unat (i + 64)) input" and b: "length b = 64"
      using True append_take_drop_id [of 64 "drop (unat i) input"] by (simp_all add: b_def i64 add.commute)
    obtain j where j: "md5_loop input (i + 64) (md5_transform b st)
          = Some (Inr (j, fold md5_transform (md5_blocks (drop (unat (i + 64)) input)) (md5_transform b st)))"
        "unat j \<le> length input" "drop (unat j) input = md5_rest (drop (unat (i + 64)) input)"
      using less.hyps [of "i + 64" "md5_transform b st"] True by (force simp: i64)
    have "md5_loop input i st = md5_loop input (i + 64) (md5_transform b st)"
      using True by (subst md5_loop.simps) (simp add: i63 b_def)
    then show ?thesis using j by (intro exI [of _ j]) (simp add: d b md5_blocks_one md5_rest_one)
  next
    case False
    then have "md5_loop input i st = Some (Inr (i, st))"
      by (subst md5_loop.simps) (simp add: i63)
    then show ?thesis using False less.prems by (intro exI [of _ i]) (simp add: md5_rest_short)
  qed
qed

lemma md5_update_ok:
  assumes "md5_ok bs m" "length input + 64 \<le> 2 ^ 32"
  shows "\<exists>m'. md5_update input m = Some (Inr m') \<and> md5_ok (bs @ input) m' \<and> \<not> md5_finished m'"
proof -
  define r where "r = md5_rest bs"
  define m1 where "m1 = md5_add_count (length input) (m\<lparr>md5_finished := False\<rparr>)"
  have ok: "md5_state m = fold md5_transform (md5_blocks bs) md5_init_state" "length (md5_buffer m) = 64"
    "take (length r) (md5_buffer m) = r" "md5_count0 m = word_of_nat (8 * length bs)"
    "md5_count1 m = word_of_nat (8 * length bs div 2 ^ 32)" "length r = length bs mod 64"
    using assms(1) by (simp_all add: md5_ok_def r_def)
  have ix: "unat (md5_index m) = length r" using md5_index_count [OF ok(4)] ok(6) by simp
  have r: "length r < 64" using ok(6) by simp
  have part: "unat (64 - md5_index m) = 64 - length r"
    using r by (subst unat_sub) (simp_all add: word_le_nat_alt ix)
  have cnt: "md5_count0 m1 = word_of_nat (8 * length (bs @ input))"
    "md5_count1 m1 = word_of_nat (8 * length (bs @ input) div 2 ^ 32)"
    unfolding m1_def using assms(2) md5_add_count_bits [of "m\<lparr>md5_finished := False\<rparr>" "length bs" "length input"] ok
    by (simp_all del: power_numeral)
  have m1: "md5_buffer m1 = md5_buffer m" "md5_state m1 = md5_state m" "\<not> md5_finished m1"
    by (simp_all add: m1_def) (simp add: md5_add_count_def Let_def)
  show ?thesis
  proof (cases "64 - length r \<le> length input")
    case False
    then have len: "length r + length input < 64" by simp
    define m' where "m' = m1\<lparr>md5_buffer := md5_copy (length r) input (md5_buffer m)\<rparr>"
    have "md5_update input m = Some (Inr m')"
      using False len by (simp add: md5_update_def Let_def part ix md5_keep_def m'_def m1_def)
    moreover have "length (bs @ input) mod 64 = length r + length input"
      using mod_less [OF len] mod_add_left_eq [of "length bs" 64 "length input"] ok(6) by simp
    moreover have "md5_rest (bs @ input) = r @ input" "md5_blocks (bs @ input) = md5_blocks bs"
      using len by (subst md5_rest_append md5_blocks_append, simp add: md5_rest_short flip: r_def)+
    moreover have "md5_ok (bs @ input) m'"
      unfolding md5_ok_def calculation m'_def
      using cnt ok(1-3) m1(2) len md5_copy_take [OF ok(2), of "length r" input]
        md5_copy_length [OF ok(2), of "length r" input]
      by (intro conjI) simp_all
    ultimately show ?thesis using m1(3) by (intro exI [of _ m']) (simp add: m'_def)
  next
    case True
    define p where "p = 64 - length r"
    define buf where "buf = md5_copy (length r) (take p input) (md5_buffer m)"
    have p: "p \<le> length input" "length r + p = 64" using True r by (simp_all add: p_def)
    have buf: "buf = r @ take p input"
      using md5_copy_take [OF ok(2), of "length r" "take p input"] md5_copy_length [OF ok(2), of "length r" "take p input"] p ok(3)
      by (simp add: buf_def)
    obtain j where j: "md5_loop input (64 - md5_index m) (md5_transform buf (md5_state m))
        = Some (Inr (j, fold md5_transform (md5_blocks (drop p input)) (md5_transform buf (md5_state m))))"
      "unat j \<le> length input" "drop (unat j) input = md5_rest (drop p input)"
      using md5_loop_ends [OF assms(2), of "64 - md5_index m" "md5_transform buf (md5_state m)"] part p
      by (auto simp: p_def)
    define rest where "rest = md5_rest (drop p input)"
    define m' where "m' = m1\<lparr>md5_buffer := md5_copy 0 rest buf,
      md5_state := fold md5_transform (md5_blocks (drop p input)) (md5_transform buf (md5_state m))\<rparr>"
    have "length input - unat j = length rest" using j(3) by (simp add: rest_def flip: length_drop)
    then have fits: "length input - unat j < 64" by (simp add: rest_def)
    have "md5_update input m = Some (Inr m')"
      using True j fits by (simp add: md5_update_def Let_def part ix md5_keep_def m'_def m1_def buf_def p_def rest_def)
    moreover have app: "r @ input = buf @ drop p input" "length buf = 64" using p by (simp_all add: buf)
    moreover have b: "md5_blocks (bs @ input) = md5_blocks bs @ buf # md5_blocks (drop p input)"
      and rr: "md5_rest (bs @ input) = rest"
      using app by (subst md5_blocks_append md5_rest_append, simp add: md5_blocks_one md5_rest_one rest_def flip: r_def)+
    moreover have l: "length (bs @ input) mod 64 = length rest"
      using arg_cong [OF rr, of length] by simp
    moreover have l64: "length rest \<le> 64" by (simp add: rest_def)
    moreover have "md5_ok (bs @ input) m'"
      unfolding md5_ok_def b rr l m'_def
      using cnt ok(1) app(2) l64 md5_copy_take [of buf 0 rest] md5_copy_length [of buf 0 rest]
      by (intro conjI) simp_all
    ultimately show ?thesis using m1(3) by (intro exI [of _ m']) (simp add: m'_def)
  qed
qed

section \<open>The digest\<close>

lemma md5_then_simps [simp]:
  "md5_then (Some (Inr a)) f = f a" "md5_then (Some (Inl e)) f = Some (Inl e)" "md5_then None f = None"
  by (simp_all add: md5_then_def)

lemma md5_encode_length [simp]: "length (md5_encode ws) = 4 * length ws"
  by (induction ws) (simp_all add: md5_encode_def)

lemma md5_final_ok:
  assumes "md5_ok bs m"
  shows "\<exists>m'. md5_final m = Some (Inr m')
     \<and> md5_digest m' = md5_encode (md5_regs_list (fold md5_transform (md5_blocks (md5_pad bs)) md5_init_state))"
proof -
  define k where "k = length bs mod 64"
  define z where "z = (119 - k) mod 64"
  define pad where "pad = (0x80 :: byte) # replicate z 0"
  define padLen where "padLen = (if md5_index m < 56 then 56 - md5_index m else 120 - md5_index m)"
  have c: "md5_count0 m = word_of_nat (8 * length bs)" "md5_count1 m = word_of_nat (8 * length bs div 2 ^ 32)"
    using assms by (simp_all only: md5_ok_def)
  have k: "unat (md5_index m) = k" "k < 64" using md5_index_count [OF c(1)] by (simp_all add: k_def)
  have "unat padLen = (if k < 56 then 56 - k else 120 - k)"
    using k unfolding padLen_def by (auto simp: word_less_nat_alt unat_sub word_le_nat_alt)
  also have "\<dots> = Suc z" using k(2) by (auto simp: z_def mod_if)
  finally have pl: "unat padLen = Suc z" .
  have z: "z < 64" by (simp add: z_def)
  then have p: "take (unat padLen) md5_PADDING = pad"
    by (simp add: pl md5_PADDING_def pad_def min_def)
  obtain m1 where m1: "md5_update pad m = Some (Inr m1)" "md5_ok (bs @ pad) m1"
    using md5_update_ok [OF assms, of pad] z by (auto simp: pad_def)
  obtain m2 where m2: "md5_update (md5_encode [md5_count0 m, md5_count1 m]) m1 = Some (Inr m2)"
      "md5_ok ((bs @ pad) @ md5_encode [md5_count0 m, md5_count1 m]) m2"
    using md5_update_ok [OF m1(2), of "md5_encode [md5_count0 m, md5_count1 m]"] by auto
  have "(bs @ pad) @ md5_encode [md5_count0 m, md5_count1 m] = md5_pad bs"
    unfolding c md5_pad_def pad_def z_def k_def by simp
  then have "md5_state m2 = fold md5_transform (md5_blocks (md5_pad bs)) md5_init_state"
    using m2(2) by (simp only: md5_ok_def)
  moreover have "md5_final m = Some (Inr (m2\<lparr>md5_digest := md5_encode (md5_regs_list (md5_state m2)),
      md5_state := md5_state m, md5_count0 := md5_count0 m, md5_count1 := md5_count1 m\<rparr>))"
    using m1(1) m2(1) p by (simp add: md5_final_def Let_def padLen_def)
  ultimately show ?thesis by simp
qed

lemma md5_toString_ok:
  assumes "md5_ok (bytes_of s) m" "\<not> md5_finished m"
  shows "\<exists>m'. md5_toString m = Some (Inr (md5_ref s, m'))"
proof -
  have "md5_ok (bytes_of s) (m\<lparr>md5_finished := True\<rparr>)" using assms(1) by (simp add: md5_ok_def)
  from md5_final_ok [OF this] assms(2) show ?thesis
    by (auto simp: md5_toString_def md5_get_digest_def md5_ref_def md5_transform_ref)
qed

text \<open>Feeding a new object with strings, one call of \<^verbatim>\<open>update\<close> for each.\<close>

primrec md5_feed :: "string list \<Rightarrow> MD5 \<Rightarrow> MD5 res option" where
  "md5_feed [] m = Some (Inr m)"
| "md5_feed (x # xs) m = md5_then (md5_update (bytes_of x) m) (md5_feed xs)"

lemma md5_feed_ok:
  assumes "md5_ok bs m" "\<not> md5_finished m" "\<forall>x\<in>set xs. length x + 64 \<le> 2 ^ 32"
  shows "\<exists>m'. md5_feed xs m = Some (Inr m') \<and> md5_ok (bs @ bytes_of (concat xs)) m' \<and> \<not> md5_finished m'"
  using assms
proof (induction xs arbitrary: bs m)
  case Nil
  then show ?case by (simp add: bytes_of_def)
next
  case (Cons x xs)
  obtain m1 where "md5_update (bytes_of x) m = Some (Inr m1)" "md5_ok (bs @ bytes_of x) m1" "\<not> md5_finished m1"
    using md5_update_ok [OF Cons.prems(1), of "bytes_of x"] Cons.prems(3) by (auto simp: bytes_of_def)
  with Cons.IH [of "bs @ bytes_of x" m1] Cons.prems(3) show ?case by (simp add: bytes_of_def)
qed

lemma md5_reset_ok: "length (md5_buffer junk) = 64 \<Longrightarrow> md5_ok [] (md5_reset junk)"
  by (simp add: md5_ok_def md5_reset_def md5_rest_def)

definition md5_raw :: MD5 where
  "md5_raw = \<lparr>md5_state = (0, 0, 0, 0), md5_count0 = 0, md5_count1 = 0, md5_buffer = replicate 64 0,
     md5_digest = replicate 16 0, md5_finished = False\<rparr>"

text \<open>
  C35: the MD5 class computes the digest of RFC 1321. Whatever the object held before
  \<^verbatim>\<open>reset\<close> and however the text is cut into calls of \<^verbatim>\<open>update\<close> (each shorter than
  \<open>2 ^ 32 - 64\<close> bytes, so that the 32-bit loop variable does not wrap), all calls return
  without leaving the buffer, and \<^verbatim>\<open>toString\<close> gives the hexadecimal digest of the whole text.
\<close>

theorem md5_is_rfc1321:
  assumes "length (md5_buffer junk) = 64" "\<forall>x\<in>set xs. length x + 64 \<le> 2 ^ 32"
  shows "\<exists>m m'. md5_feed xs (md5_reset junk) = Some (Inr m)
           \<and> md5_toString m = Some (Inr (md5_ref (concat xs), m'))"
proof -
  have "\<not> md5_finished (md5_reset junk)" by (simp add: md5_reset_def)
  from md5_feed_ok [OF md5_reset_ok [OF assms(1)] this assms(2)] obtain m where
    m: "md5_feed xs (md5_reset junk) = Some (Inr m)" "md5_ok (bytes_of (concat xs)) m" "\<not> md5_finished m"
    by auto
  with md5_toString_ok [OF m(2,3)] show ?thesis by blast
qed

theorem md5_is_rfc1321_witness:
  "\<exists>m m'. md5_feed [''a'', [], ''bc''] (md5_reset md5_raw) = Some (Inr m)
      \<and> md5_toString m = Some (Inr (''900150983cd24fb0d6963f7d28e17f72'', m'))"
proof -
  have pad: "md5_pad (bytes_of ''abc'') = [97, 98, 99, 128] @ replicate 52 0 @ [24, 0, 0, 0, 0, 0, 0, 0]"
    by (simp add: md5_pad_def md5_encode_def bytes_of_def byte_of_def)
  have "md5_ref ''abc'' = ''900150983cd24fb0d6963f7d28e17f72''"
    unfolding md5_ref_def md5_transform_ref [symmetric] pad by code_simp
  moreover have "length (md5_buffer md5_raw) = 64" "concat [''a'', [], ''bc''] = ''abc''"
    "\<forall>x\<in>set [''a'', [], ''bc'']. length x + 64 \<le> 2 ^ 32"
    by (simp_all add: md5_raw_def)
  ultimately show ?thesis
    using md5_is_rfc1321 [of md5_raw "[''a'', [], ''bc'']"] by (simp only: simp_thms)
qed

text \<open>
  What \<^verbatim>\<open>MD5 md5(s); md5.toString()\<close> gives. For texts of \<open>2 ^ 32 - 64\<close> bytes and more
  the class does not return a digest; this is the empty text here.
\<close>

definition MD5_hex :: "string \<Rightarrow> string" where
  "MD5_hex s = (case md5_then (newMD5 md5_raw s) md5_toString of Some (Inr (h, _)) \<Rightarrow> h | _ \<Rightarrow> [])"

lemma MD5_hex_ref:
  assumes "length s + 64 \<le> 2 ^ 32"
  shows "MD5_hex s = md5_ref s"
proof -
  have "\<not> md5_finished (md5_reset md5_raw)" "md5_ok [] (md5_reset md5_raw)"
    using md5_reset_ok [of md5_raw] by (simp_all add: md5_reset_def md5_raw_def)
  then obtain m where "newMD5 md5_raw s = Some (Inr m)" "md5_ok (bytes_of s) m" "\<not> md5_finished m"
    using md5_update_ok [of "[]" "md5_reset md5_raw" "bytes_of s"] assms by (auto simp: newMD5_def bytes_of_def)
  with md5_toString_ok [of s m] show ?thesis by (auto simp: MD5_hex_def)
qed

lemma bytesToHexString_digits: "set (bytesToHexString bs) \<subseteq> set md5_HEX"
proof -
  have len: "length md5_HEX = 16" by (simp add: md5_HEX_def)
  have "md5_HEX ! (unat b div 16) \<in> set md5_HEX \<and> md5_HEX ! (unat b mod 16) \<in> set md5_HEX" for b :: byte
    using less_mult_imp_div_less [of "unat b" 16 16] by (intro conjI nth_mem) (simp_all add: len)
  then show ?thesis by (auto simp: bytesToHexString_def)
qed

lemma MD5_hex_no_nul: "CHR 0x00 \<notin> set (MD5_hex s)"
proof -
  have "CHR 0x00 \<notin> set md5_HEX" by (simp add: md5_HEX_def)
  then have "CHR 0x00 \<notin> set (bytesToHexString bs)" for bs using bytesToHexString_digits by blast
  then show ?thesis
    by (auto simp: MD5_hex_def md5_toString_def md5_then_def split: option.splits sum.splits prod.splits)
qed

text \<open>
  Asking a second time gives another digest: \<^verbatim>\<open>final\<close> restores the state and the
  counter but not the buffer, which the padding has overwritten when the last block
  had 56 bytes or more, and it also resets the flag that would prevent the second run.
\<close>

definition md5_asked :: MD5 where
  "md5_asked = \<lparr>md5_state = md5_init_state, md5_count0 = 448, md5_count1 = 0,
     md5_buffer = replicate 56 0 @ [192, 1, 0, 0, 0, 0, 0, 0],
     md5_digest = [59, 12, 138, 199, 3, 248, 40, 176, 76, 108, 25, 112, 6, 209, 114, 24],
     md5_finished = False\<rparr>"

lemma md5_first_digest:
  "md5_then (newMD5 md5_raw (replicate 56 CHR ''a'')) md5_toString
     = Some (Inr (''3b0c8ac703f828b04c6c197006d17218'', md5_asked))"
  by code_simp

lemma md5_second_digest:
  "md5_then (md5_toString md5_asked) (\<lambda>(d, m). Some (Inr (d = ''3b0c8ac703f828b04c6c197006d17218''))) = Some (Inr False)"
  by code_simp

lemma md5_digest_twice:
  "\<exists>m m1 m2 d1 d2. newMD5 md5_raw (replicate 56 CHR ''a'') = Some (Inr m)
     \<and> md5_toString m = Some (Inr (d1, m1)) \<and> md5_toString m1 = Some (Inr (d2, m2)) \<and> d1 \<noteq> d2"
  using md5_first_digest md5_second_digest
  by (auto simp: md5_then_def split: option.splits sum.splits prod.splits)

end
