(* ===== verification/AuthApi.thy ===== *)
theory AuthApi
  imports RoomService LogicClient Md5
begin

text \<open>
  The account API of the logic server, \<^verbatim>\<open>logic/api/api_common.cc\<close>,
  \<^verbatim>\<open>api_login.cc\<close>, \<^verbatim>\<open>api_register.cc\<close> and \<^verbatim>\<open>api_auth.cc\<close>: registering, logging in,
  session cookies in Redis, and checking a cookie. \<^verbatim>\<open>rand\<close> and the UUID
  library are parameters. Shown: a login succeeds only for an enabled user with the
  right password, the cookie it returns then identifies that user, and the answer to
  a verification is read by the comet server as it was meant.
\<close>

section \<open>Common functions\<close>

datatype api_error_id = bad_request | login_failed | email_exists | username_exists

fun ApiErrorIdToString :: "api_error_id \<Rightarrow> string" where
  "ApiErrorIdToString login_failed = ''LOGIN_FAILED''"
| "ApiErrorIdToString username_exists = ''USERNAME_EXISTS''"
| "ApiErrorIdToString email_exists = ''EMAIL_EXISTS''"
| "ApiErrorIdToString bad_request = []"

text \<open>\<^verbatim>\<open>FormatString\<close> with \<^verbatim>\<open>%s\<close> conversions.\<close>

fun FormatString :: "string \<Rightarrow> string list \<Rightarrow> string" where
  "FormatString (p # c # fmt) (a # args) =
     (if p = CHR ''%'' \<and> c = CHR ''s'' then c_str a @ FormatString fmt args
      else p # FormatString (c # fmt) (a # args))"
| "FormatString fmt args = fmt"

text \<open>\<open>rnd i\<close> is the \<open>i\<close>-th value of \<^verbatim>\<open>rand()\<close>.\<close>

definition RandomString :: "(nat \<Rightarrow> nat) \<Rightarrow> nat \<Rightarrow> string" where
  "RandomString rnd len = map (\<lambda>i. char_of (97 + rnd i mod 26)) [0..<len]"

text \<open>The state: the token connection handed out, Redis, and MySQL.\<close>

type_synonym ('s, 'm) world = "(CacheConn option \<times> 's) \<times> 'm"

definition ApiSetCookie ::
    "'s redis \<Rightarrow> u64 \<Rightarrow> string \<Rightarrow> string \<Rightarrow> string \<Rightarrow> CacheConn option \<times> 's
       \<Rightarrow> (int \<times> string) \<times> CacheConn option \<times> 's" where
  "ApiSetCookie R now uuid em cookie = (\<lambda>(conn, s).
     case conn of
       None \<Rightarrow> ((- 1, cookie), conn, s)
     | Some c \<Rightarrow>
         let (ret, c, s) = SetEx R now uuid 86400 em (c, s)
         in ((if ret \<noteq> [] then 0 else - 1, uuid), Some c, s))"

definition user_sql :: "string \<Rightarrow> string" where
  "user_sql em = FormatString
     (''select user_id, username from user_infos where email='' @ [CHR 0x27] @ ''%s'' @ [CHR 0x27]) [em]"

text \<open>\<open>conn\<close>: whether the pool gave a connection; it is used without a test.\<close>

definition GetUserNameAndUseridByEmail ::
    "'m mysql \<Rightarrow> bool \<Rightarrow> string \<Rightarrow> 'm \<Rightarrow> (string \<times> string) option res \<times> 'm" where
  "GetUserNameAndUseridByEmail M conn em m =
     (if \<not> conn then (Inl BadOptional, m)
      else case ExecuteQuery M (user_sql em) m of
        (None, m) \<Rightarrow> (Inr None, m)
      | (Some (rs, _), m) \<Rightarrow>
          (let (more, rs) = Next rs in
           if \<not> more then Inr None
           else and_then (get_col rs ''username'') (\<lambda>uname.
                and_then (get_col rs ''user_id'') (\<lambda>uid. Inr (Some (uname, uid)))), m))"

text \<open>The user found for a cookie: name, id and email.\<close>

definition ApiGetUsernameAndUseridByCookie ::
    "'s redis \<Rightarrow> 'm mysql \<Rightarrow> u64 \<Rightarrow> bool \<Rightarrow> string \<Rightarrow> ('s, 'm) world
       \<Rightarrow> (string \<times> string \<times> string) option res \<times> ('s, 'm) world" where
  "ApiGetUsernameAndUseridByCookie R M now slave cookie = (\<lambda>((conn, s), m).
     case conn of
       None \<Rightarrow> (Inr None, (conn, s), m)
     | Some c \<Rightarrow>
         let (em, c, s) = Get R now cookie (c, s) in
         if em = [] then (Inr None, (Some c, s), m)
         else
           let (r, m) = GetUserNameAndUseridByEmail M slave em m in
           (and_then r (\<lambda>u. Inr (map_option (\<lambda>(uname, uid). (uname, uid, em)) u)), (Some c, s), m))"

section \<open>Login\<close>

definition DecodeLoginJson :: "'v json_api \<Rightarrow> string \<Rightarrow> (string \<times> string) option res" where
  "DecodeLoginJson J str_json =
     (case jparse J str_json of
        None \<Rightarrow> Inr None
      | Some root \<Rightarrow>
          and_then (jget_null J root ''email'') (\<lambda>n.
            if n then Inr None
            else and_then (jget_string J root ''email'') (\<lambda>em.
              and_then (jget_null J root ''password'') (\<lambda>n.
                if n then Inr None
                else and_then (jget_string J root ''password'') (\<lambda>pw. Inr (Some (em, pw)))))))"

definition EncodeLoginJson :: "'v json_api \<Rightarrow> api_error_id \<Rightarrow> string \<Rightarrow> string" where
  "EncodeLoginJson J input msg =
     jwrite J (jobject J [(''id'', jstr J (ApiErrorIdToString input)), (''message'', jstr J msg)])"

definition auth_sql :: "string \<Rightarrow> string" where
  "auth_sql em = FormatString
     (''select is_enabled from authorized_users where email='' @ [CHR 0x27] @ ''%s'' @ [CHR 0x27]) [em]"

definition CheckUserAuthorization :: "'m mysql \<Rightarrow> string \<Rightarrow> 'm \<Rightarrow> int res \<times> 'm" where
  "CheckUserAuthorization M em m =
     (case ExecuteQuery M (auth_sql em) m of
        (None, m) \<Rightarrow> (Inr (- 1), m)
      | (Some (rs, _), m) \<Rightarrow>
          (let (more, rs) = Next rs in
           if \<not> more then Inr (- 1)
           else and_then (GetInt rs ''is_enabled'') (\<lambda>e. Inr (if e = 1 then 0 else - 1)), m))"

definition password_sql :: "string \<Rightarrow> string" where
  "password_sql em = FormatString
     (''select user_id, username, password_hash, salt from user_infos where email='' @ [CHR 0x27]
      @ ''%s'' @ [CHR 0x27]) [em]"

definition VerifyUserPassword ::
    "'m mysql \<Rightarrow> bool \<Rightarrow> string \<Rightarrow> string \<Rightarrow> 'm \<Rightarrow> int res \<times> 'm" where
  "VerifyUserPassword M slave em pw m =
     (if \<not> slave then (Inr (- 1), m)
      else case CheckUserAuthorization M em m of
        (Inl e, m) \<Rightarrow> (Inl e, m)
      | (Inr a, m) \<Rightarrow>
          if a \<noteq> 0 then (Inr (- 1), m)
          else case ExecuteQuery M (password_sql em) m of
            (None, m) \<Rightarrow> (Inr (- 1), m)
          | (Some (rs, _), m) \<Rightarrow>
              (let (more, rs) = Next rs in
               if \<not> more then Inr (- 1)
               else
                 and_then (get_col rs ''username'') (\<lambda>uname.
                 and_then (get_col rs ''password_hash'') (\<lambda>hash.
                 and_then (get_col rs ''salt'') (\<lambda>salt.
                   Inr (if hash = MD5_hex (pw @ salt) then 0 else - 1)))), m))"

definition ApiLoginUser ::
    "'v json_api \<Rightarrow> 's redis \<Rightarrow> 'm mysql \<Rightarrow> u64 \<Rightarrow> string \<Rightarrow> bool \<Rightarrow> string
       \<Rightarrow> ('s, 'm) world \<Rightarrow> (int \<times> string) res \<times> ('s, 'm) world" where
  "ApiLoginUser J R M now uuid slave post_data = (\<lambda>(cs, m).
     case DecodeLoginJson J post_data of
       Inl e \<Rightarrow> (Inl e, cs, m)
     | Inr None \<Rightarrow>
         (Inr (- 1, EncodeLoginJson J bad_request ''email or password no fill''), cs, m)
     | Inr (Some (em, pw)) \<Rightarrow>
         (case VerifyUserPassword M slave em pw m of
            (Inl e, m) \<Rightarrow> (Inl e, cs, m)
          | (Inr ret, m) \<Rightarrow>
              if ret = 0 then
                let ((_, cookie), cs) = ApiSetCookie R now uuid em [] cs
                in (Inr (0, cookie), cs, m)
              else (Inr (ret, EncodeLoginJson J login_failed ''email password no match''), cs, m)))"

section \<open>Registration\<close>

definition DecodeRegisterJson ::
    "'v json_api \<Rightarrow> string \<Rightarrow> (string \<times> string \<times> string) option res" where
  "DecodeRegisterJson J str_json =
     (case jparse J str_json of
        None \<Rightarrow> Inr None
      | Some root \<Rightarrow>
          and_then (jget_null J root ''username'') (\<lambda>n. if n then Inr None else
          and_then (jget_string J root ''username'') (\<lambda>uname.
          and_then (jget_null J root ''email'') (\<lambda>n. if n then Inr None else
          and_then (jget_string J root ''email'') (\<lambda>em.
          and_then (jget_null J root ''password'') (\<lambda>n. if n then Inr None else
          and_then (jget_string J root ''password'') (\<lambda>pw. Inr (Some (uname, em, pw)))))))))"

definition EncodeRegisterJson :: "'v json_api \<Rightarrow> api_error_id \<Rightarrow> string \<Rightarrow> string" where
  "EncodeRegisterJson J input msg =
     jwrite J (jobject J [(''id'', jstr J (ApiErrorIdToString input)), (''message'', jstr J msg)])"

definition exists_sql :: "string \<Rightarrow> string \<Rightarrow> string" where
  "exists_sql uname em = FormatString
     (''select id, username, email from user_infos where username='' @ [CHR 0x27] @ ''%s'' @ [CHR 0x27]
      @ '' or email = '' @ [CHR 0x27] @ ''%s'' @ [CHR 0x27] @ '' '') [uname, em]"

definition register_sql :: string where
  "register_sql =
     ''insert into user_infos(`user_id`, `username`, `email`, `password_hash`, `salt`) values(?,?,?,?,?)''"

text \<open>The first branch: which of name and email is taken.\<close>

definition taken_error :: "CResultSet \<Rightarrow> string \<Rightarrow> string \<Rightarrow> api_error_id \<Rightarrow> api_error_id res" where
  "taken_error rs uname em err =
     and_then (get_col rs ''username'') (\<lambda>u.
     and_then (get_col rs ''email'') (\<lambda>e.
       Inr (if e = em then email_exists else if u = uname then username_exists else err)))"

definition RegisterUser ::
    "'m mysql \<Rightarrow> (nat \<Rightarrow> nat) \<Rightarrow> string \<Rightarrow> bool \<Rightarrow> string \<Rightarrow> string \<Rightarrow> string
       \<Rightarrow> api_error_id \<Rightarrow> 'm \<Rightarrow> (int \<times> api_error_id) res \<times> 'm" where
  "RegisterUser M rnd uuid master uname em pw err m =
     (if \<not> master then (Inr (- 1, err), m)
      else
        let (r, m) = ExecuteQuery M (exists_sql uname em) m;
            row = (case r of None \<Rightarrow> None
                   | Some (rs, _) \<Rightarrow> let (more, rs) = Next rs in if more then Some rs else None) in
        case row of
          Some rs \<Rightarrow> (and_then (taken_error rs uname em err) (\<lambda>e. Inr (- 1, e)), m)
        | None \<Rightarrow>
            let salt = RandomString rnd 16;
                hash = MD5_hex (pw @ salt);
                (ok, st, m) = stmt_Init M register_sql (newCPrepareStatement, m) in
            if \<not> ok then (Inr (- 1, err), m)
            else
              let (done_ok, m) =
                    stmt_ExecuteUpdate M (set_params 0 [uuid, uname, em, hash, salt] st, m)
              in (Inr (if done_ok then 0 else 1, err), m))"

definition ApiRegisterUser ::
    "'v json_api \<Rightarrow> 's redis \<Rightarrow> 'm mysql \<Rightarrow> (nat \<Rightarrow> nat) \<Rightarrow> u64 \<Rightarrow> string \<Rightarrow> string
       \<Rightarrow> bool \<Rightarrow> string \<Rightarrow> ('s, 'm) world \<Rightarrow> (int \<times> string) res \<times> ('s, 'm) world" where
  "ApiRegisterUser J R M rnd now uuid cookie_uuid master post_data = (\<lambda>(cs, m).
     case DecodeRegisterJson J post_data of
       Inl e \<Rightarrow> (Inl e, cs, m)
     | Inr None \<Rightarrow>
         (Inr (- 1, EncodeRegisterJson J bad_request ''the parameter of request is not enough''), cs, m)
     | Inr (Some (uname, em, pw)) \<Rightarrow>
         (case RegisterUser M rnd uuid master uname em pw bad_request m of
            (Inl e, m) \<Rightarrow> (Inl e, cs, m)
          | (Inr (ret, err), m) \<Rightarrow>
              if ret = 0 then
                let ((_, cookie), cs) = ApiSetCookie R now cookie_uuid em [] cs
                in (Inr (0, cookie), cs, m)
              else (Inr (ret, EncodeRegisterJson J err (ApiErrorIdToString err)), cs, m)))"

section \<open>Verification of a cookie\<close>

text \<open>\<^verbatim>\<open>AuthResult\<close> has the members of the comet server's \<^verbatim>\<open>LogicAuthResult\<close>.\<close>

definition ApiVerifyUserByCookie ::
    "'s redis \<Rightarrow> 'm mysql \<Rightarrow> u64 \<Rightarrow> bool \<Rightarrow> string \<Rightarrow> ('s, 'm) world
       \<Rightarrow> LogicAuthResult res \<times> ('s, 'm) world" where
  "ApiVerifyUserByCookie R M now slave cookie w =
     (if cookie = [] then (Inr (auth_failed ''Cookie is empty''), w)
      else
        let (r, w) = ApiGetUsernameAndUseridByCookie R M now slave cookie w in
        (and_then r (\<lambda>u. case u of
            None \<Rightarrow> Inr (auth_failed ''Invalid cookie or user not found'')
          | Some (uname, uid, em) \<Rightarrow>
              Inr \<lparr>success = True, user_id = uid, username = uname, email = em,
                   error_message = []\<rparr>), w))"

definition EncodeAuthResultJson :: "'v json_api \<Rightarrow> LogicAuthResult \<Rightarrow> string" where
  "EncodeAuthResultJson J r =
     jwrite J (jobject J
       ((''success'', jbool J (success r)) #
        (if success r
         then [(''user_id'', jstr J (user_id r)), (''username'', jstr J (username r)),
               (''email'', jstr J (email r))]
         else [(''error'', jstr J (error_message r))])))"

definition DecodeAuthRequestJson :: "'v json_api \<Rightarrow> string \<Rightarrow> string option res" where
  "DecodeAuthRequestJson J json_str =
     (case jparse J json_str of
        None \<Rightarrow> Inr None
      | Some root \<Rightarrow>
          and_then (jget_null J root ''cookie'') (\<lambda>n.
            if n then Inr None
            else and_then (jget_string J root ''cookie'') (\<lambda>c. Inr (Some c))))"

definition ApiVerifyAuth ::
    "'v json_api \<Rightarrow> 's redis \<Rightarrow> 'm mysql \<Rightarrow> u64 \<Rightarrow> bool \<Rightarrow> string \<Rightarrow> ('s, 'm) world
       \<Rightarrow> (int \<times> string) res \<times> ('s, 'm) world" where
  "ApiVerifyAuth J R M now slave post_data w =
     (case DecodeAuthRequestJson J post_data of
        Inl e \<Rightarrow> (Inl e, w)
      | Inr None \<Rightarrow> (Inr (- 1, EncodeAuthResultJson J (auth_failed ''Invalid request format'')), w)
      | Inr (Some cookie) \<Rightarrow>
          let (r, w) = ApiVerifyUserByCookie R M now slave cookie w in
          (and_then r (\<lambda>r. Inr (if success r then 0 else - 1, EncodeAuthResultJson J r)), w))"

section \<open>Lemmas\<close>

lemma FormatString_end: "CHR ''%'' \<notin> set fmt \<Longrightarrow> FormatString fmt args = fmt"
proof (induction fmt args rule: FormatString.induct)
  case (1 p c fmt a args)
  then show ?case by auto
qed auto

lemma FormatString_arg:
  "CHR ''%'' \<notin> set pre \<Longrightarrow>
     FormatString (pre @ CHR ''%'' # CHR ''s'' # fmt) (a # args) = pre @ c_str a @ FormatString fmt args"
proof (induction pre)
  case (Cons x pre)
  then show ?case by (cases pre) auto
qed simp

lemma auth_sql_eq:
  "auth_sql em = ''select is_enabled from authorized_users where email='' @ [CHR 0x27] @ c_str em @ [CHR 0x27]"
  unfolding auth_sql_def
  using FormatString_arg [of "''select is_enabled from authorized_users where email='' @ [CHR 0x27]"
      "[CHR 0x27]" em "[]"]
  by (simp add: FormatString_end)

lemma password_sql_eq:
  "password_sql em = ''select user_id, username, password_hash, salt from user_infos where email=''
     @ [CHR 0x27] @ c_str em @ [CHR 0x27]"
  unfolding password_sql_def
  using FormatString_arg [of "''select user_id, username, password_hash, salt from user_infos where email=''
      @ [CHR 0x27]" "[CHR 0x27]" em "[]"]
  by (simp add: FormatString_end)

definition one_row :: "(string \<times> string) list \<Rightarrow> CResultSet" where
  "one_row kvs = newCResultSet \<lparr>res_fields = map fst kvs, res_rows = [map (Some \<circ> snd) kvs]\<rparr>"

lemma one_row_next: "fst (Next (one_row kvs))"
  by (simp add: one_row_def newCResultSet_def Next_def)

lemma one_row_col:
  assumes "distinct (map fst kvs)" "(k, v) \<in> set kvs" "CHR 0x00 \<notin> set v"
  shows "get_col (snd (Next (one_row kvs))) k = Inr v"
proof -
  obtain i where i: "i < length kvs" "kvs ! i = (k, v)" using assms(2) by (metis in_set_conv_nth)
  have "map_of (zip (map fst kvs) [0..<length (map fst kvs)]) (map fst kvs ! i) = Some i"
    using map_of_zip_range [OF assms(1), of i] i(1) by simp
  then have "GetIndex (snd (Next (one_row kvs))) k = Some i"
    using i by (simp add: GetIndex_def one_row_def newCResultSet_def Next_def)
  then show ?thesis
    using i assms(3)
    by (simp add: get_col_def GetString_def column_def one_row_def newCResultSet_def Next_def c_str_id)
qed

text \<open>Authorization is granted on a row that says enabled.\<close>

lemma enabled_row:
  assumes "CheckUserAuthorization M em m = (Inr 0, m1)"
  shows "\<exists>rs n. ExecuteQuery M (auth_sql em) m = (Some (rs, n), m1) \<and> fst (Next rs)
    \<and> GetInt (snd (Next rs)) ''is_enabled'' = Inr 1"
  using assms
  by (auto simp: CheckUserAuthorization_def and_then_eq_Inr split: option.splits prod.splits if_splits)

section \<open>Properties\<close>

text \<open>
  C34: a login succeeds only if the request has an email and a password, the query for the email in
  the list of authorized users returns a row in which \<^verbatim>\<open>is_enabled\<close> is 1, and the query for
  the email in the user table returns a row whose stored hash is the MD5 digest of the
  password followed by the stored salt.
\<close>

theorem login_sound:
  assumes "ApiLoginUser J R M now uuid slave post (cs, m) = (Inr (0, cookie), w')"
  shows "\<exists>em pw ars an m1 rs n m2 salt. DecodeLoginJson J post = Inr (Some (em, pw))
    \<and> ExecuteQuery M (auth_sql em) m = (Some (ars, an), m1) \<and> fst (Next ars)
    \<and> GetInt (snd (Next ars)) ''is_enabled'' = Inr 1
    \<and> ExecuteQuery M (password_sql em) m1 = (Some (rs, n), m2) \<and> fst (Next rs)
    \<and> get_col (snd (Next rs)) ''salt'' = Inr salt
    \<and> get_col (snd (Next rs)) ''password_hash'' = Inr (MD5_hex (pw @ salt))"
proof -
  from assms obtain em pw m' where d: "DecodeLoginJson J post = Inr (Some (em, pw))"
    and v: "VerifyUserPassword M slave em pw m = (Inr 0, m')"
    by (auto simp: ApiLoginUser_def split: sum.splits option.splits prod.splits if_splits)
  from v obtain m1 where a: "CheckUserAuthorization M em m = (Inr 0, m1)"
    by (auto simp: VerifyUserPassword_def split: sum.splits prod.splits if_splits)
  obtain ars an where q: "ExecuteQuery M (auth_sql em) m = (Some (ars, an), m1)" "fst (Next ars)"
    "GetInt (snd (Next ars)) ''is_enabled'' = Inr 1"
    using enabled_row [OF a] by blast
  from a v obtain rs n m2 salt where "ExecuteQuery M (password_sql em) m1 = (Some (rs, n), m2)" "fst (Next rs)"
    "get_col (snd (Next rs)) ''salt'' = Inr salt" "get_col (snd (Next rs)) ''password_hash'' = Inr (MD5_hex (pw @ salt))"
    by (auto simp: VerifyUserPassword_def and_then_eq_Inr split: option.splits prod.splits if_splits)
  with d q show ?thesis by blast
qed

definition sample_db :: "string list mysql" where
  "sample_db = working_mysql\<lparr>mysql_store_result := (\<lambda>m.
     (if m = [c_str (auth_sql ''a@b'')]
      then Some \<lparr>res_fields = [''is_enabled''], res_rows = [[Some ''1'']]\<rparr>
      else Some \<lparr>res_fields = [''username'', ''password_hash'', ''salt''],
                 res_rows = [[Some ''ann'', Some (MD5_hex ''pwxyz''), Some ''xyz'']]\<rparr>, m))\<rparr>"

lemma takeWhile_hex: "takeWhile (\<lambda>c. c \<noteq> CHR 0x00) (MD5_hex s) = MD5_hex s"
  using MD5_hex_no_nul [of s] by (auto simp: takeWhile_eq_all_conv)

lemma sample_login:
  "ApiLoginUser jv_api dead_redis sample_db 9 ''uuid'' True
     (enc_jv (JObj [(''email'', JStr ''a@b''), (''password'', JStr ''pw'')])) ((None, 0), [])
   = (Inr (0, []), (None, 0), [c_str (auth_sql ''a@b''), c_str (password_sql ''a@b'')])"
proof -
  have ai: "atoi ''1'' = Inr 1" by code_simp
  show ?thesis
    by (simp add: ApiLoginUser_def DecodeLoginJson_def jget_null_def jget_string_def
        VerifyUserPassword_def CheckUserAuthorization_def ExecuteQuery_def CheckAndReconnect_def
        sample_db_def working_mysql_def newCResultSet_def Next_def GetInt_def GetIndex_def column_def
        get_col_def GetString_def c_str_def takeWhile_hex ai ApiSetCookie_def)
qed

theorem login_sound_witness:
  "\<exists>em pw rs n m1. ExecuteQuery sample_db (auth_sql em) [] = (Some (rs, n), m1)
     \<and> GetInt (snd (Next rs)) ''is_enabled'' = Inr 1
     \<and> DecodeLoginJson jv_api (enc_jv (JObj [(''email'', JStr ''a@b''), (''password'', JStr ''pw'')]))
         = Inr (Some (em, pw))"
  using login_sound [OF sample_login] by blast

text \<open>
  The cookie of a session identifies its user. After a cookie has been stored
  for an email, verifying that cookie, as long as Redis still returns the stored
  value and the user table has the row, gives exactly this user.
\<close>

theorem cookie_identifies_user:
  assumes "ApiSetCookie R now uuid em [] (Some c, s) = ((0, cookie), conn', s')" "context_open c"
    and "c_str uuid = uuid" "uuid \<noteq> []" "em \<noteq> []"
    and "command R [''GET'', uuid] s' = (Some (RString em), s2)"
    and "ExecuteQuery M (user_sql em) m = (Some (one_row [(''user_id'', uid), (''username'', uname)], n), m')"
    and "CHR 0x00 \<notin> set uid" "CHR 0x00 \<notin> set uname"
  shows "cookie = uuid \<and> (\<exists>conn''. ApiVerifyUserByCookie R M later True cookie ((conn', s'), m)
    = (Inr \<lparr>success = True, user_id = uid, username = uname, email = em, error_message = []\<rparr>,
       (conn'', s2), m'))"
proof -
  obtain c' where c': "conn' = Some c'" "cookie = uuid" "context_open c'"
    using assms(1,2)
    by (auto simp: ApiSetCookie_def SetEx_def exec_open DeInit_def
        split: prod.splits option.splits if_splits)
  have col: "get_col (snd (Next (one_row [(''user_id'', uid), (''username'', uname)]))) ''username'' = Inr uname"
    "get_col (snd (Next (one_row [(''user_id'', uid), (''username'', uname)]))) ''user_id'' = Inr uid"
    using assms(8,9) by (auto intro!: one_row_col)
  show ?thesis
    using c' assms(3-7) col one_row_next [of "[(''user_id'', uid), (''username'', uname)]"]
    by (simp add: ApiVerifyUserByCookie_def ApiGetUsernameAndUseridByCookie_def Get_def exec_open
        GetUserNameAndUseridByEmail_def split_beta)
qed

definition token_redis :: "string redis" where
  "token_redis = \<lparr>connect = (\<lambda>s. (True, s)),
     command = (\<lambda>argv s. case argv of
        [c, k, t, v] \<Rightarrow> (Some (RStatus ''OK''), v)
      | [c, k] \<Rightarrow> (Some (RString s), s)
      | _ \<Rightarrow> (None, s))\<rparr>"

definition user_db :: "string list mysql" where
  "user_db = working_mysql\<lparr>mysql_store_result := (\<lambda>m.
     (Some \<lparr>res_fields = [''user_id'', ''username''], res_rows = [[Some ''u1'', Some ''ann'']]\<rparr>, m))\<rparr>"

theorem cookie_identifies_user_witness:
  "\<exists>conn''. ApiVerifyUserByCookie token_redis user_db 9 True ''uuid'' ((Some sample_conn, ''a@b''), [])
    = (Inr \<lparr>success = True, user_id = ''u1'', username = ''ann'', email = ''a@b'', error_message = []\<rparr>,
       (conn'', ''a@b''), [c_str (user_sql ''a@b'')])"
proof -
  have run: "ApiSetCookie token_redis 9 ''uuid'' ''a@b'' [] (Some sample_conn, [])
      = ((0, ''uuid''), Some sample_conn, ''a@b'')"
    by (simp add: ApiSetCookie_def SetEx_def exec_open sample_conn_def token_redis_def reply_text_def
        c_str_def)
  have q: "ExecuteQuery user_db (user_sql ''a@b'') []
      = (Some (one_row [(''user_id'', ''u1''), (''username'', ''ann'')], 1), [c_str (user_sql ''a@b'')])"
    by (simp add: ExecuteQuery_def CheckAndReconnect_def user_db_def working_mysql_def one_row_def)
  show ?thesis
    using cookie_identifies_user [OF run, of "''a@b''" user_db "[]" "''u1''" "''ann''" 1
        "[c_str (user_sql ''a@b'')]" 9] q
    by (simp add: sample_conn_def token_redis_def c_str_def)
qed

text \<open>
  What the logic server answers to a verification request, the comet server
  reads as it was meant: an accepted user with the same id, name and email, a refusal
  as a refusal with its message.
\<close>

theorem auth_answer_roundtrip:
  assumes "json_laws J"
  shows "parseAuthResponse J (EncodeAuthResultJson J r) =
    Inr (if success r then r\<lparr>error_message := []\<rparr> else auth_failed (error_message r))"
  using assms
  by (cases r) (simp add: parseAuthResponse_def EncodeAuthResultJson_def json_simps jget_string_def)

theorem auth_answer_roundtrip_witness:
  "parseAuthResponse jv_api (EncodeAuthResultJson jv_api sample_auth) = Inr sample_auth"
  using auth_answer_roundtrip [OF json_laws_jv, of sample_auth] by (simp add: sample_auth_def)

text \<open>
  A login counts as successful even when the session could not be stored:
  without a Redis connection the user gets an empty cookie and status 0.
\<close>

theorem login_without_session:
  assumes "DecodeLoginJson J post = Inr (Some (em, pw))"
    and "VerifyUserPassword M slave em pw m = (Inr 0, m')"
  shows "ApiLoginUser J R M now uuid slave post ((None, s), m) = (Inr (0, []), (None, s), m')"
  using assms by (simp add: ApiLoginUser_def ApiSetCookie_def)

lemma sample_verify_password:
  "VerifyUserPassword sample_db True ''a@b'' ''pw'' []
     = (Inr 0, [c_str (auth_sql ''a@b''), c_str (password_sql ''a@b'')])"
proof -
  have ai: "atoi ''1'' = Inr 1" by code_simp
  show ?thesis
    by (simp add: VerifyUserPassword_def CheckUserAuthorization_def ExecuteQuery_def
        CheckAndReconnect_def sample_db_def working_mysql_def newCResultSet_def Next_def GetInt_def
        GetIndex_def column_def get_col_def GetString_def c_str_def takeWhile_hex ai)
qed

theorem login_without_session_witness:
  "ApiLoginUser jv_api dead_redis sample_db 9 ''uuid'' True
     (enc_jv (JObj [(''email'', JStr ''a@b''), (''password'', JStr ''pw'')])) ((None, 3), [])
   = (Inr (0, []), (None, 3), [c_str (auth_sql ''a@b''), c_str (password_sql ''a@b'')])"
  by (rule login_without_session [OF _ sample_verify_password])
    (simp add: DecodeLoginJson_def jget_null_def jget_string_def)

text \<open>
  The email of a login request is pasted into the SQL text. An email of the
  form \<^verbatim>\<open>x' or '1'='1\<close> turns both queries of the login into queries whose condition
  holds for every row.
\<close>

theorem login_sql_injection:
  assumes "CHR 0x00 \<notin> set x"
  shows "auth_sql (x @ [CHR 0x27] @ '' or '' @ [CHR 0x27] @ ''1'' @ [CHR 0x27] @ ''='' @ [CHR 0x27] @ ''1'')
      = ''select is_enabled from authorized_users where email='' @ [CHR 0x27] @ x @ [CHR 0x27]
        @ '' or '' @ [CHR 0x27] @ ''1'' @ [CHR 0x27] @ ''='' @ [CHR 0x27] @ ''1'' @ [CHR 0x27]"
  using assms by (simp add: auth_sql_eq c_str_id)

theorem login_sql_injection_witness:
  "auth_sql (''x'' @ [CHR 0x27] @ '' or '' @ [CHR 0x27] @ ''1'' @ [CHR 0x27] @ ''='' @ [CHR 0x27] @ ''1'')
      = ''select is_enabled from authorized_users where email='' @ [CHR 0x27] @ ''x'' @ [CHR 0x27]
        @ '' or '' @ [CHR 0x27] @ ''1'' @ [CHR 0x27] @ ''='' @ [CHR 0x27] @ ''1'' @ [CHR 0x27]"
  by (rule login_sql_injection) simp

end
