(* ===== verification/Kafka.thy ===== *)
theory Kafka
  imports ChatPrelude
begin

text \<open>
  The two ends of the message bus: \<^verbatim>\<open>logic/service/kafka_producer.cpp\<close> and
  \<^verbatim>\<open>job/service/kafka_consumer.cc\<close>, with the message type \<^verbatim>\<open>ChatRoom::Job::PushMsg\<close>.
  librdkafka is a parameter: a record of the calls the sources make, over an
  unknown state of broker and client library. \<^verbatim>\<open>close\<close> waits for the queue of the
  client to drain, which may take for ever; it is a partial function, and shown to
  return when every poll delivers something.
\<close>

section \<open>librdkafka\<close>

datatype kafka_err = ERR_NO_ERROR | ERR_TIMED_OUT | ERR_PARTITION_EOF | ERR_OTHER

record 'k rdkafka =
  conf_set :: "string \<Rightarrow> string \<Rightarrow> bool"           \<comment> \<open>answers \<^verbatim>\<open>CONF_OK\<close>\<close>
  create_producer :: bool
  create_topic :: "string \<Rightarrow> bool"
  produce :: "string \<Rightarrow> string \<Rightarrow> 'k \<Rightarrow> bool \<times> 'k"  \<comment> \<open>topic and payload; answers \<^verbatim>\<open>ERR_NO_ERROR\<close>\<close>
  outq_len :: "'k \<Rightarrow> nat"
  poll :: "nat \<Rightarrow> 'k \<Rightarrow> 'k"
  create_consumer :: bool
  rk_subscribe :: "string \<Rightarrow> 'k \<Rightarrow> bool \<times> 'k"
  rk_consume :: "nat \<Rightarrow> 'k \<Rightarrow> (kafka_err \<times> string option) \<times> 'k"

section \<open>The producer\<close>

record KafkaProducer =
  topic_name :: string
  has_producer :: bool
  has_topic :: bool
  is_initialized :: bool

definition newKafkaProducer :: KafkaProducer where
  "newKafkaProducer =
     \<lparr>topic_name = [], has_producer = False, has_topic = False, is_initialized = False\<rparr>"

definition producer_init :: "'k rdkafka \<Rightarrow> string \<Rightarrow> string \<Rightarrow> KafkaProducer \<Rightarrow> bool \<times> KafkaProducer" where
  "producer_init K brokers topic p =
     (if is_initialized p then (True, p)
      else if \<not> conf_set K ''bootstrap.servers'' brokers then (False, p)
      else if \<not> create_producer K then (False, p\<lparr>has_producer := False\<rparr>)
      else if \<not> create_topic K topic then (False, p\<lparr>has_topic := False, has_producer := False\<rparr>)
      else (True, p\<lparr>has_producer := True, has_topic := True, topic_name := topic,
                    is_initialized := True\<rparr>))"

definition sendMessage :: "'k rdkafka \<Rightarrow> KafkaProducer \<Rightarrow> string \<Rightarrow> 'k \<Rightarrow> bool \<times> 'k" where
  "sendMessage K p message k =
     (if \<not> is_initialized p then (False, k)
      else let (ok, k) = produce K (topic_name p) message k in
           if \<not> ok then (False, k) else (True, poll K 0 k))"

text \<open>The loop that waits for the queue; \<open>None\<close> when it never empties.\<close>

partial_function (option) drain :: "'k rdkafka \<Rightarrow> 'k \<Rightarrow> 'k option" where
  "drain K k = (if outq_len K k > 0 then drain K (poll K 100 k) else Some k)"

definition producer_close :: "'k rdkafka \<Rightarrow> KafkaProducer \<Rightarrow> 'k \<Rightarrow> (KafkaProducer \<times> 'k) option" where
  "producer_close K p k =
     map_option (\<lambda>k. (p\<lparr>has_topic := False, has_producer := False, is_initialized := False\<rparr>, k))
       (if has_producer p then drain K k else Some k)"

section \<open>The consumer\<close>

record KafkaConsumer =
  brokers :: string
  topic :: string
  group_id :: string
  initialized :: bool

definition newKafkaConsumer :: "string \<Rightarrow> string \<Rightarrow> KafkaConsumer" where
  "newKafkaConsumer b t =
     \<lparr>brokers = b, topic = t, group_id = ''my_consumer_group'', initialized = False\<rparr>"

definition consumer_init :: "'k rdkafka \<Rightarrow> KafkaConsumer \<Rightarrow> bool \<times> KafkaConsumer" where
  "consumer_init K c =
     (if initialized c then (True, c)
      else if \<not> conf_set K ''bootstrap.servers'' (brokers c)
              \<or> \<not> conf_set K ''group.id'' (group_id c)
              \<or> \<not> conf_set K ''auto.offset.reset'' ''earliest'' then (False, c)
      else if \<not> create_consumer K then (False, c)
      else (True, c\<lparr>initialized := True\<rparr>))"

definition subscribe :: "'k rdkafka \<Rightarrow> KafkaConsumer \<Rightarrow> 'k \<Rightarrow> bool \<times> 'k" where
  "subscribe K c k = (if \<not> initialized c then (False, k) else rk_subscribe K (topic c) k)"

definition consume :: "'k rdkafka \<Rightarrow> nat \<Rightarrow> 'k \<Rightarrow> string \<times> 'k" where
  "consume K timeout_ms k =
     (let ((err, payload), k) = rk_consume K timeout_ms k in
      (case err of
         ERR_NO_ERROR \<Rightarrow> (case payload of None \<Rightarrow> [] | Some p \<Rightarrow> p)
       | ERR_TIMED_OUT \<Rightarrow> []
       | ERR_PARTITION_EOF \<Rightarrow> []
       | ERR_OTHER \<Rightarrow> [], k))"

section \<open>The message\<close>

datatype push_type = PUSH | ROOM | BROADCAST

record PushMsg =
  pm_type :: push_type
  pm_operation :: int
  pm_room :: string
  pm_msg :: string

section \<open>Lemmas\<close>

lemma sendMessage_init:
  assumes "producer_init K b t p = (True, p')" "\<not> is_initialized p"
  shows "is_initialized p' \<and> topic_name p' = t"
  using assms by (auto simp: producer_init_def split: if_splits)

lemma drain_returns:
  assumes step: "\<And>k. outq_len K k > 0 \<Longrightarrow> outq_len K (poll K 100 k) < outq_len K k"
  shows "\<exists>k'. drain K k = Some k' \<and> outq_len K k' = 0 \<and> (\<exists>n. k' = (poll K 100 ^^ n) k)"
proof (induction "outq_len K k" arbitrary: k rule: less_induct)
  case less
  show ?case
  proof (cases "outq_len K k > 0")
    case True
    from less [OF step [OF True]] obtain k' n where
      *: "drain K (poll K 100 k) = Some k'" "outq_len K k' = 0" "k' = (poll K 100 ^^ n) (poll K 100 k)"
      by blast
    then have "k' = (poll K 100 ^^ Suc n) k" by (simp add: funpow_swap1)
    moreover have "drain K k = Some k'" using True * by (subst drain.simps) simp
    ultimately show ?thesis using *(2) by blast
  next
    case False
    then show ?thesis by (subst drain.simps) (auto intro: exI [of _ 0])
  qed
qed

section \<open>Properties\<close>

text \<open>
  When every poll of a client with queued messages delivers at least one of
  them, closing an initialised producer returns, with the queue of the client
  empty; afterwards the producer refuses messages, and initialising it again
  makes it ready for the new topic.
\<close>

theorem producer_close_drains:
  assumes "\<And>k. outq_len K k > 0 \<Longrightarrow> outq_len K (poll K 100 k) < outq_len K k"
    and "has_producer p"
  shows "\<exists>p' k'. producer_close K p k = Some (p', k') \<and> outq_len K k' = 0
      \<and> (\<forall>m k. sendMessage K p' m k = (False, k))
      \<and> (\<forall>b t. fst (producer_init K b t p') \<longrightarrow> topic_name (snd (producer_init K b t p')) = t)"
proof -
  from drain_returns [OF assms(1), of k] obtain k' where "drain K k = Some k'" "outq_len K k' = 0"
    by blast
  then show ?thesis using assms(2)
    by (auto simp: producer_close_def sendMessage_def producer_init_def)
qed

definition queue_kafka :: "(string list \<times> string list) rdkafka" where
  "queue_kafka = \<lparr>conf_set = (\<lambda>_ _. True), create_producer = True, create_topic = (\<lambda>_. True),
     produce = (\<lambda>_ m (q, d). (True, q @ [m], d)), outq_len = (\<lambda>(q, d). length q),
     poll = (\<lambda>_ (q, d). (drop 1 q, d @ take 1 q)), create_consumer = True,
     rk_subscribe = (\<lambda>_ k. (True, k)),
     rk_consume = (\<lambda>_ (q, d). case d of [] \<Rightarrow> ((ERR_TIMED_OUT, None), (q, d))
                              | m # d \<Rightarrow> ((ERR_NO_ERROR, Some m), (q, d)))\<rparr>"

theorem producer_close_drains_witness:
  "\<exists>p' k'. producer_close queue_kafka (snd (producer_init queue_kafka ''b'' ''t'' newKafkaProducer))
      ([''m1'', ''m2''], []) = Some (p', k') \<and> outq_len queue_kafka k' = 0"
  using producer_close_drains [of queue_kafka "snd (producer_init queue_kafka ''b'' ''t'' newKafkaProducer)"
      "([''m1'', ''m2''], [])"]
  by (auto simp: queue_kafka_def producer_init_def newKafkaProducer_def)

end
