(* ===== verification/LogicServer.thy ===== *)
theory LogicServer
  imports AuthApi Kafka
begin

text \<open>
  The HTTP server of \<^verbatim>\<open>logic/main.cc\<close>: the dispatch of \<^verbatim>\<open>onMessage\<close>, the eight
  handlers and \<^verbatim>\<open>service/http_parser.h\<close>. A request is handled as one step on the
  server's state: the room list, the connections to Redis and MySQL, the Kafka
  producer, and the bytes sent back to the client. Protobuf serialisation is a
  parameter, and so are the clocks and UUIDs read during the request.
\<close>

section \<open>HTTP\<close>

definition parseHttpRequest :: "string \<Rightarrow> (string \<times> string \<times> string) option" where
  "parseHttpRequest request =
     (case str_find '' '' request of
        None \<Rightarrow> None
      | Some methodEnd \<Rightarrow>
          (case str_find_from '' '' request (methodEnd + 1) of
             None \<Rightarrow> None
           | Some pathEnd \<Rightarrow>
               Some (take methodEnd request,
                     take (pathEnd - methodEnd - 1) (drop (methodEnd + 1) request),
                     case str_find (CRLF @ CRLF) request of
                       None \<Rightarrow> [] | Some bodyStart \<Rightarrow> drop (bodyStart + 4) request)))"

definition parseJsonBody :: "'v json_api \<Rightarrow> string \<Rightarrow> 'v option" where
  "parseJsonBody J body = jparse J body"

definition wrapJsonInHttpResponse :: "string \<Rightarrow> string" where
  "wrapJsonInHttpResponse jsonContent =
     ''HTTP/1.1 200 OK'' @ CRLF @ ''Content-Type: application/json'' @ CRLF
     @ ''Content-Length: '' @ dec (length jsonContent) @ CRLF @ CRLF @ jsonContent"

text \<open>The response most handlers build; \<open>extra\<close> is the cookie line, if any.\<close>

definition json_response :: "string \<Rightarrow> string \<Rightarrow> string \<Rightarrow> string" where
  "json_response status extra body =
     ''HTTP/1.1 '' @ status @ CRLF @ ''Content-Type: application/json'' @ CRLF @ extra
     @ ''Content-Length: '' @ dec (length body) @ CRLF
     @ ''Access-Control-Allow-Origin: *'' @ CRLF @ CRLF @ body"

definition set_cookie :: "string \<Rightarrow> string" where
  "set_cookie sid = ''Set-Cookie: sid='' @ sid @ ''; HttpOnly; Max-Age=86400; SameSite=Strict'' @ CRLF"

definition sendErrorResponse :: "nat \<Rightarrow> string \<Rightarrow> string" where
  "sendErrorResponse code msg =
     ''HTTP/1.1 '' @ dec code @ '' '' @ msg @ CRLF @ ''Content-Type: application/json'' @ CRLF
     @ ''Content-Length: 0'' @ CRLF @ ''Access-Control-Allow-Origin: *'' @ CRLF @ CRLF"

definition not_found_response :: string where
  "not_found_response = ''HTTP/1.1 404 Not Found'' @ CRLF @ ''Content-Length: 0'' @ CRLF @ CRLF"

text \<open>The literal response of \<^verbatim>\<open>handleSend\<close> when Kafka refuses.\<close>

definition send_failed_response :: string where
  "send_failed_response =
     ''HTTP/1.1 500 Internal Server Error'' @ CRLF @ ''Content-Type: application/json'' @ CRLF
     @ ''Content-Length: 31'' @ CRLF @ CRLF
     @ ''{'' @ [CHR 0x22] @ ''status'' @ [CHR 0x22] @ '': '' @ [CHR 0x22] @ ''send failed'' @ [CHR 0x22]
     @ ''}'' @ CRLF"

definition success_json :: string where
  "success_json = ''{'' @ [CHR 0x22] @ ''status'' @ [CHR 0x22] @ '': '' @ [CHR 0x22] @ ''success''
     @ [CHR 0x22] @ ''}''"

section \<open>The server\<close>

record ('v, 's, 'm, 'k) logic_env =
  env_json :: "'v json_api"
  env_redis :: "'s redis"
  env_mysql :: "'m mysql"
  env_rand :: "nat \<Rightarrow> nat"
  env_now :: u64                       \<comment> \<open>\<^verbatim>\<open>time(NULL)\<close> during the request\<close>
  env_clock :: "nat \<Rightarrow> u64"             \<comment> \<open>the milliseconds when message \<open>i\<close> is handled\<close>
  env_uuid :: "nat \<Rightarrow> string"           \<comment> \<open>the UUIDs generated during the request\<close>
  env_master :: bool                   \<comment> \<open>the pools hand out a connection\<close>
  env_slave :: bool
  env_inited :: bool
  env_serialize :: "PushMsg \<Rightarrow> string option"
  env_kafka :: "'k rdkafka"

record ('s, 'm, 'k) logic_state =
  room_cache :: room_list
  token_conn :: "CacheConn option"
  msg_conn :: "CacheConn option"
  redis_state :: 's
  mysql_state :: 'm
  producer :: KafkaProducer
  kafka_state :: 'k
  sent :: "string list"

definition respond :: "string \<Rightarrow> ('s, 'm, 'k) logic_state \<Rightarrow> ('s, 'm, 'k) logic_state" where
  "respond r st = st\<lparr>sent := sent st @ [r]\<rparr>"

text \<open>Running an account API on the token connection.\<close>

definition with_world ::
    "(('s, 'm) world \<Rightarrow> 'a res \<times> ('s, 'm) world) \<Rightarrow> ('s, 'm, 'k) logic_state
       \<Rightarrow> 'a res \<times> ('s, 'm, 'k) logic_state" where
  "with_world f st =
     (let (r, (conn, s), m) = f ((token_conn st, redis_state st), mysql_state st) in
      (r, st\<lparr>token_conn := conn, redis_state := s, mysql_state := m\<rparr>))"

definition handleLogin ::
    "('v, 's, 'm, 'k) logic_env \<Rightarrow> string \<Rightarrow> ('s, 'm, 'k) logic_state \<Rightarrow> unit res \<times> ('s, 'm, 'k) logic_state" where
  "handleLogin E request st =
     (case parseHttpRequest request of
        None \<Rightarrow> (Inr (), respond (sendErrorResponse 400 ''Bad Request'') st)
      | Some (_, _, body) \<Rightarrow>
          (case with_world (ApiLoginUser (env_json E) (env_redis E) (env_mysql E)
                  (env_now E) (env_uuid E 0) (env_slave E) body) st of
             (Inl e, st) \<Rightarrow> (Inl e, st)
           | (Inr (ret, data), st) \<Rightarrow>
               (Inr (), respond (if ret = 0 then json_response ''200 OK'' (set_cookie data) data
                                 else json_response ''400 Bad Request'' [] data) st)))"

definition handleRegister ::
    "('v, 's, 'm, 'k) logic_env \<Rightarrow> string \<Rightarrow> ('s, 'm, 'k) logic_state \<Rightarrow> unit res \<times> ('s, 'm, 'k) logic_state" where
  "handleRegister E request st =
     (case parseHttpRequest request of
        None \<Rightarrow> (Inr (), respond (sendErrorResponse 400 ''Bad Request'') st)
      | Some (_, _, body) \<Rightarrow>
          (case with_world (ApiRegisterUser (env_json E) (env_redis E) (env_mysql E)
                  (env_rand E) (env_now E) (env_uuid E 0) (env_uuid E 1) (env_master E) body) st of
             (Inl e, st) \<Rightarrow> (Inl e, st)
           | (Inr (ret, data), st) \<Rightarrow>
               (Inr (), respond (if ret = 0 then json_response ''200 OK'' (set_cookie data) data
                                 else json_response ''400 Bad Request'' [] data) st)))"

definition handleVerifyAuth ::
    "('v, 's, 'm, 'k) logic_env \<Rightarrow> string \<Rightarrow> ('s, 'm, 'k) logic_state \<Rightarrow> unit res \<times> ('s, 'm, 'k) logic_state" where
  "handleVerifyAuth E request st =
     (case parseHttpRequest request of
        None \<Rightarrow> (Inr (), respond (sendErrorResponse 400 ''Bad Request'') st)
      | Some (_, _, body) \<Rightarrow>
          (case with_world (ApiVerifyAuth (env_json E) (env_redis E) (env_mysql E)
                  (env_now E) (env_slave E) body) st of
             (Inl e, st) \<Rightarrow> (Inl e, st)
           | (Inr (ret, data), st) \<Rightarrow>
               (Inr (), respond (json_response (if ret = 0 then ''200 OK'' else ''401 Unauthorized'')
                                   [] data) st)))"

section \<open>Hello and the room list\<close>

definition history_of ::
    "('v, 's, 'm, 'k) logic_env \<Rightarrow> Room \<Rightarrow> int \<Rightarrow> ('s, 'm, 'k) logic_state
       \<Rightarrow> (int \<times> Room \<times> MessageBatch) res \<times> ('s, 'm, 'k) logic_state" where
  "history_of E room cnt st =
     (let (r, conn, s) = getRoomHistory (env_json E) (env_redis E) (env_now E) (env_inited E) room
                           \<lparr>messages = [], has_more = False\<rparr> cnt (msg_conn st, redis_state st)
      in (r, st\<lparr>msg_conn := conn, redis_state := s\<rparr>))"

definition message_json :: "'v json_api \<Rightarrow> Message \<Rightarrow> 'v" where
  "message_json J m =
     jobject J [(''id'', jstr J (msg_id m)), (''content'', jstr J (msg_content m)),
       (''user'', jobject J [(''id'', jstr J (msg_user_id m)), (''username'', jstr J (msg_username m))]),
       (''timestamp'', jint J (int (unat (msg_timestamp m))))]"

definition hello_room :: "'v json_api \<Rightarrow> Room \<Rightarrow> MessageBatch \<Rightarrow> 'v" where
  "hello_room J room batch =
     jobject J [(''id'', jstr J (r_room_id room)), (''name'', jstr J (r_room_name room)),
       (''creator_id'', jstr J (r_creator_id room)), (''hasMoreMessages'', jbool J (has_more batch)),
       (''messages'', if messages batch \<noteq> [] then jindexed J (map (message_json J) (messages batch))
                      else jarray J)]"

text \<open>The loop over the rooms; a room whose history cannot be read is left out.\<close>

fun hello_loop :: "('v, 's, 'm, 'k) logic_env \<Rightarrow> Room list \<Rightarrow> 'v list \<Rightarrow> ('s, 'm, 'k) logic_state
    \<Rightarrow> 'v list res \<times> ('s, 'm, 'k) logic_state" where
  "hello_loop E [] acc st = (Inr acc, st)"
| "hello_loop E (room # rooms) acc st =
     (case history_of E room k_message_batch_size st of
        (Inl e, st) \<Rightarrow> (Inl e, st)
      | (Inr (ret, _, batch), st) \<Rightarrow>
          hello_loop E rooms (if ret < 0 then acc else acc @ [hello_room (env_json E) room batch]) st)"

definition hello_json :: "'v json_api \<Rightarrow> string \<Rightarrow> string \<Rightarrow> 'v list \<Rightarrow> string" where
  "hello_json J uid uname rooms =
     jwrite J (jobject J
       [(''type'', jstr J ''hello''),
        (''payload'', jobject J
           [(''me'', jobject J [(''id'', jstr J uid), (''username'', jstr J uname)]),
            (''rooms'', jindexed J rooms)])])"

definition handleHello ::
    "('v, 's, 'm, 'k) logic_env \<Rightarrow> string \<Rightarrow> ('s, 'm, 'k) logic_state \<Rightarrow> unit res \<times> ('s, 'm, 'k) logic_state" where
  "handleHello E request st =
     (let J = env_json E in
      case parseHttpRequest request of
        None \<Rightarrow> (Inr (), respond (sendErrorResponse 400 ''Bad Request'') st)
      | Some (_, _, body) \<Rightarrow>
          (case parseJsonBody J body of
             None \<Rightarrow> (Inr (), respond (sendErrorResponse 400 ''Invalid JSON'') st)
           | Some json \<Rightarrow>
               (case jmissing J json [''userId'', ''username''] of
                  Inl e \<Rightarrow> (Inl e, st)
                | Inr True \<Rightarrow> (Inr (), respond (sendErrorResponse 400 ''Missing user info'') st)
                | Inr False \<Rightarrow>
                    (case and_then (jget_string J json ''userId'') (\<lambda>uid.
                            and_then (jget_string J json ''username'') (\<lambda>uname. Inr (uid, uname))) of
                       Inl e \<Rightarrow> (Inl e, st)
                     | Inr (uid, uname) \<Rightarrow>
                         (case hello_loop E (getRoomList (room_cache st)) [] st of
                            (Inl e, st) \<Rightarrow> (Inl e, st)
                          | (Inr rooms, st) \<Rightarrow>
                              (Inr (), respond (json_response ''200 OK'' []
                                          (hello_json J uid uname rooms)) st))))))"

definition room_json :: "'v json_api \<Rightarrow> Room \<Rightarrow> 'v" where
  "room_json J room =
     jobject J [(''id'', jstr J (r_room_id room)), (''name'', jstr J (r_room_name room)),
       (''creator_id'', jstr J (r_creator_id room)), (''create_time'', jstr J (r_create_time room)),
       (''update_time'', jstr J (r_update_time room))]"

definition all_rooms_json :: "'v json_api \<Rightarrow> Room list \<Rightarrow> string" where
  "all_rooms_json J rooms =
     jwrite J (jobject J [(''rooms'', jlist J (map (room_json J) rooms)), (''status'', jstr J ''success'')])"

definition handleGetAllRooms ::
    "('v, 's, 'm, 'k) logic_env \<Rightarrow> string \<Rightarrow> ('s, 'm, 'k) logic_state \<Rightarrow> unit res \<times> ('s, 'm, 'k) logic_state" where
  "handleGetAllRooms E request st =
     (case parseHttpRequest request of
        None \<Rightarrow> (Inr (), respond (sendErrorResponse 400 ''Bad Request'') st)
      | Some _ \<Rightarrow>
          (Inr (), respond (json_response ''200 OK'' []
                      (all_rooms_json (env_json E) (getRoomList (room_cache st)))) st))"


section \<open>Sending messages\<close>

text \<open>
  The loop over \<^verbatim>\<open>json["messages"]\<close>: the JSON objects for the push and the messages to
  store. An element without \<^verbatim>\<open>content\<close> is skipped; \<open>i\<close> is \<^verbatim>\<open>messageIndex\<close>.
\<close>

definition send_message_id :: "u64 \<Rightarrow> nat \<Rightarrow> string" where
  "send_message_id timestamp i = dec (unat timestamp) @ ''-'' @ dec i"

fun send_loop :: "('v, 's, 'm, 'k) logic_env \<Rightarrow> 'v \<Rightarrow> 'v list \<Rightarrow> nat \<Rightarrow> Message list res" where
  "send_loop E json [] i = Inr []"
| "send_loop E json (message # ms) i =
     (let J = env_json E in
      and_then (jmember J message ''content'') (\<lambda>has.
        if \<not> has then send_loop E json ms i
        else
          and_then (jget_string J message ''content'') (\<lambda>content.
          and_then (jget_string J json ''userId'') (\<lambda>uid.
          and_then (jget_string J json ''username'') (\<lambda>uname.
          and_then (send_loop E json ms (Suc i)) (\<lambda>rest.
            Inr (\<lparr>msg_id = send_message_id (env_clock E i) i, msg_username = uname, msg_content = content,
                  msg_timestamp = env_clock E i, msg_user_id = uid\<rparr> # rest)))))))"

definition server_messages :: "'v json_api \<Rightarrow> string \<Rightarrow> Message list \<Rightarrow> string" where
  "server_messages J rid ms =
     jwrite J (jobject J
       [(''type'', jstr J ''serverMessages''),
        (''payload'', jobject J
           [(''roomId'', jstr J rid), (''messages'', jlist J (map (message_json J) ms))])])"

text \<open>Storing: the cache gives each message the id of its stream entry, then the database insert.\<close>

definition store_all ::
    "('v, 's, 'm, 'k) logic_env \<Rightarrow> string \<Rightarrow> Message list \<Rightarrow> ('s, 'm, 'k) logic_state
       \<Rightarrow> unit res \<times> ('s, 'm, 'k) logic_state" where
  "store_all E rid ms st =
     (if ms = [] then (Inr (), st)
      else
        let (r, conn, s) = storeMessagesToCache (env_json E) (env_redis E) (env_now E) (env_inited E)
                             rid ms (msg_conn st, redis_state st);
            st = st\<lparr>msg_conn := conn, redis_state := s\<rparr>
        in case r of
             Inl e \<Rightarrow> (Inl e, st)
           | Inr (_, ms) \<Rightarrow>
               let (_, m) = storeMessagesToDB (env_mysql E) (env_inited E) (env_master E) (env_uuid E)
                              rid ms (mysql_state st)
               in (Inr (), st\<lparr>mysql_state := m\<rparr>))"

definition publish ::
    "('v, 's, 'm, 'k) logic_env \<Rightarrow> PushMsg \<Rightarrow> ('s, 'm, 'k) logic_state \<Rightarrow> bool \<times> ('s, 'm, 'k) logic_state" where
  "publish E pushMsg st =
     (case env_serialize E pushMsg of
        None \<Rightarrow> (False, st)
      | Some serialized_msg \<Rightarrow>
          let (ok, k) = sendMessage (env_kafka E) (producer st) serialized_msg (kafka_state st)
          in (ok, st\<lparr>kafka_state := k\<rparr>))"

definition srv_handleSend ::
    "('v, 's, 'm, 'k) logic_env \<Rightarrow> string \<Rightarrow> ('s, 'm, 'k) logic_state
       \<Rightarrow> unit res \<times> ('s, 'm, 'k) logic_state" where
  "srv_handleSend E request st =
     (let J = env_json E in
      case parseHttpRequest request of
        None \<Rightarrow> (Inr (), st)
      | Some (_, _, body) \<Rightarrow>
          (case parseJsonBody J body of
             None \<Rightarrow> (Inr (), st)
           | Some json \<Rightarrow>
               (case jmissing J json [''roomId'', ''userId'', ''username'', ''messages''] of
                  Inl e \<Rightarrow> (Inl e, st)
                | Inr True \<Rightarrow> (Inr (), st)
                | Inr False \<Rightarrow>
                    (case and_then (jget_string J json ''roomId'') (\<lambda>rid.
                            and_then (jget J json ''messages'') (\<lambda>messages.
                              and_then (send_loop E json (jelems J messages) 0) (\<lambda>ms. Inr (rid, ms)))) of
                       Inl e \<Rightarrow> (Inl e, st)
                     | Inr (rid, ms) \<Rightarrow>
                         (case store_all E rid ms st of
                            (Inl e, st) \<Rightarrow> (Inl e, st)
                          | (Inr _, st) \<Rightarrow>
                              let pushMsg = \<lparr>pm_type = PUSH, pm_operation = 4, pm_room = rid,
                                             pm_msg = server_messages J rid ms\<rparr>;
                                  (ok, st) = publish E pushMsg st
                              in (Inr (), respond (if ok then wrapJsonInHttpResponse success_json
                                                   else send_failed_response) st))))))"

section \<open>Room history\<close>

definition history_message_json :: "'v json_api \<Rightarrow> Message \<Rightarrow> 'v" where
  "history_message_json J m =
     jobject J [(''id'', jstr J (msg_id m)), (''content'', jstr J (msg_content m)),
       (''timestamp'', jint J (int (unat (msg_timestamp m)))),
       (''user'', jobject J [(''id'', jstr J (msg_user_id m)), (''username'', jstr J (msg_username m))])]"

definition room_history_json :: "'v json_api \<Rightarrow> string \<Rightarrow> MessageBatch \<Rightarrow> string" where
  "room_history_json J rid batch =
     jwrite J (jobject J
       [(''type'', jstr J ''serverRoomHistory''),
        (''payload'', jobject J
           [(''roomId'', jstr J rid), (''name'', jstr J []), (''hasMoreMessages'', jbool J (has_more batch)),
            (''messages'', jlist J (map (history_message_json J) (messages batch)))])])"

text \<open>The envelope of a WebSocket request: its type and its payload.\<close>

definition envelope :: "'v json_api \<Rightarrow> 'v \<Rightarrow> (string \<times> 'v) res" where
  "envelope J json =
     and_then (jget_string J json ''type'') (\<lambda>t. and_then (jget J json ''payload'') (\<lambda>p. Inr (t, p)))"

text \<open>The fields of the payload in the order they are read.\<close>

definition history_fields :: "'v json_api \<Rightarrow> 'v \<Rightarrow> (string \<times> string \<times> int) res" where
  "history_fields J payload =
     and_then (jget_string J payload ''roomId'') (\<lambda>rid.
     and_then (jget_default J payload ''firstMessageId'' (jstr J [])) (\<lambda>f.
     and_then (jas_string J f) (\<lambda>first_id.
     and_then (jget_default J payload ''count'' (jint J 10)) (\<lambda>c.
     and_then (jas_int J c) (\<lambda>cnt.
     and_then (jget_string J payload ''userId'') (\<lambda>_.
     and_then (jget_string J payload ''username'') (\<lambda>_. Inr (rid, first_id, cnt))))))))"

definition history_payload ::
    "('v, 's, 'm, 'k) logic_env \<Rightarrow> 'v \<Rightarrow> ('s, 'm, 'k) logic_state \<Rightarrow> unit res \<times> ('s, 'm, 'k) logic_state" where
  "history_payload E payload st =
     (let J = env_json E in
      case jmissing J payload [''roomId'', ''userId'', ''username''] of
        Inl e \<Rightarrow> (Inl e, st)
      | Inr True \<Rightarrow> (Inr (), respond (sendErrorResponse 400 ''Missing required fields'') st)
      | Inr False \<Rightarrow>
          (case history_fields J payload of
             Inl e \<Rightarrow> (Inl e, st)
           | Inr (rid, first_id, cnt) \<Rightarrow>
               let room = \<lparr>r_room_id = rid, r_room_name = [], r_creator_id = [], r_create_time = [],
                           r_update_time = [], r_history_last_message_id = first_id\<rparr>
               in (case history_of E room cnt st of
                     (Inl e, st) \<Rightarrow> (Inl e, st)
                   | (Inr (ret, _, batch), st) \<Rightarrow>
                       (Inr (), respond
                          (if ret = 0 then json_response ''200 OK'' [] (room_history_json J rid batch)
                           else sendErrorResponse 500 ''Failed to get room history'') st))))"

definition srv_handleRoomHistory ::
    "('v, 's, 'm, 'k) logic_env \<Rightarrow> string \<Rightarrow> ('s, 'm, 'k) logic_state
       \<Rightarrow> unit res \<times> ('s, 'm, 'k) logic_state" where
  "srv_handleRoomHistory E request st =
     (let J = env_json E in
      case parseHttpRequest request of
        None \<Rightarrow> (Inr (), respond (sendErrorResponse 400 ''Bad Request'') st)
      | Some (_, _, body) \<Rightarrow>
          (case parseJsonBody J body of
             None \<Rightarrow> (Inr (), respond (sendErrorResponse 400 ''Invalid JSON'') st)
           | Some json \<Rightarrow>
               (case jmissing J json [''type'', ''payload''] of
                  Inl e \<Rightarrow> (Inl e, st)
                | Inr True \<Rightarrow> (Inr (), respond (sendErrorResponse 400 ''Missing required fields'') st)
                | Inr False \<Rightarrow>
                    (case envelope J json of
                       Inl e \<Rightarrow> (Inl e, st)
                     | Inr (type, payload) \<Rightarrow>
                         if type = ''requestRoomHistory'' then history_payload E payload st
                         else (Inr (), respond (sendErrorResponse 400 ''Unsupported message type'') st)))))"

section \<open>Creating a room\<close>

definition create_room_json :: "'v json_api \<Rightarrow> string \<Rightarrow> string \<Rightarrow> string \<Rightarrow> string \<Rightarrow> string" where
  "create_room_json J rid name creator creator_username =
     jwrite J (jobject J
       [(''type'', jstr J ''serverCreateRoom''),
        (''payload'', jobject J
           [(''roomId'', jstr J rid), (''roomName'', jstr J name), (''creatorId'', jstr J creator),
            (''creatorUsername'', jstr J creator_username)])])"

definition create_payload ::
    "('v, 's, 'm, 'k) logic_env \<Rightarrow> 'v \<Rightarrow> ('s, 'm, 'k) logic_state \<Rightarrow> unit res \<times> ('s, 'm, 'k) logic_state" where
  "create_payload E payload st =
     (let J = env_json E in
      case and_then (jget_string J payload ''roomName'') (\<lambda>name.
             and_then (jget_string J payload ''creatorId'') (\<lambda>creator.
               and_then (jget_string J payload ''creatorUsername'') (\<lambda>uname. Inr (name, creator, uname)))) of
        Inl e \<Rightarrow> (Inl e, st)
      | Inr (name, creator, uname) \<Rightarrow>
          if roomExistByName name (room_cache st)
          then (Inr (), respond (json_response ''200 OK'' [] (create_room_json J [] [] [] [])) st)
          else
            let ((ret, rid, error_msg), l, m) =
                  createRoom (env_mysql E) (env_master E) (env_uuid E 0) name creator uname
                    (room_cache st, mysql_state st);
                st = st\<lparr>room_cache := l, mysql_state := m\<rparr>
            in if ret = 0 then
                 let json = create_room_json J rid name creator uname;
                     st = respond (json_response ''200 OK'' [] json) st
                 in (Inr (), snd (publish E \<lparr>pm_type = BROADCAST, pm_operation = 5,
                                             pm_room = ''global'', pm_msg = json\<rparr> st))
               else (Inr (), respond (sendErrorResponse 500 (''Failed to create room: '' @ error_msg)) st))"

definition srv_handleCreateRoom ::
    "('v, 's, 'm, 'k) logic_env \<Rightarrow> string \<Rightarrow> ('s, 'm, 'k) logic_state
       \<Rightarrow> unit res \<times> ('s, 'm, 'k) logic_state" where
  "srv_handleCreateRoom E request st =
     (let J = env_json E in
      case parseHttpRequest request of
        None \<Rightarrow> (Inr (), respond (sendErrorResponse 400 ''Bad Request'') st)
      | Some (_, _, body) \<Rightarrow>
          (case parseJsonBody J body of
             None \<Rightarrow> (Inr (), respond (sendErrorResponse 400 ''Invalid JSON'') st)
           | Some json \<Rightarrow>
               (case jmissing J json [''type'', ''payload''] of
                  Inl e \<Rightarrow> (Inl e, st)
                | Inr True \<Rightarrow> (Inr (), respond (sendErrorResponse 400 ''Missing required fields'') st)
                | Inr False \<Rightarrow>
                    (case envelope J json of
                       Inl e \<Rightarrow> (Inl e, st)
                     | Inr (type, payload) \<Rightarrow>
                         if type \<noteq> ''clientCreateRoom''
                         then (Inr (), respond (sendErrorResponse 400 ''Unsupported message type'') st)
                         else case jmissing J payload [''roomName''] of
                           Inl e \<Rightarrow> (Inl e, st)
                         | Inr True \<Rightarrow> (Inr (), respond (sendErrorResponse 400 ''Missing roomName field'') st)
                         | Inr False \<Rightarrow>
                             (case jmissing J payload [''creatorId'', ''creatorUsername''] of
                                Inl e \<Rightarrow> (Inl e, st)
                              | Inr True \<Rightarrow>
                                  (Inr (), respond (sendErrorResponse 400 ''Missing creator information'') st)
                              | Inr False \<Rightarrow> create_payload E payload st)))))"

section \<open>Dispatch\<close>

datatype route = Login | Register | Verify | Hello | Send | RoomHistory | CreateRoom | Rooms | NotFound

text \<open>The chain of \<^verbatim>\<open>find\<close> tests: each looks for its text anywhere in the received bytes.\<close>

definition routes :: "(string \<times> route) list" where
  "routes = [(''POST /logic/login'', Login), (''POST /logic/register'', Register),
     (''POST /logic/verify'', Verify), (''POST /logic/hello'', Hello), (''POST /logic/send'', Send),
     (''POST /logic/room_history'', RoomHistory), (''POST /logic/room/create'', CreateRoom),
     (''POST /logic/rooms'', Rooms)]"

definition route_of :: "string \<Rightarrow> route" where
  "route_of msg =
     (case List.find (\<lambda>(text, r). str_find text msg \<noteq> None) routes of
        None \<Rightarrow> NotFound | Some (_, r) \<Rightarrow> r)"

definition onMessage ::
    "('v, 's, 'm, 'k) logic_env \<Rightarrow> string \<Rightarrow> ('s, 'm, 'k) logic_state
       \<Rightarrow> unit res \<times> ('s, 'm, 'k) logic_state" where
  "onMessage E msg st =
     (case route_of msg of
        Login \<Rightarrow> handleLogin E msg st
      | Register \<Rightarrow> handleRegister E msg st
      | Verify \<Rightarrow> handleVerifyAuth E msg st
      | Hello \<Rightarrow> handleHello E msg st
      | Send \<Rightarrow> srv_handleSend E msg st
      | RoomHistory \<Rightarrow> srv_handleRoomHistory E msg st
      | CreateRoom \<Rightarrow> srv_handleCreateRoom E msg st
      | Rooms \<Rightarrow> handleGetAllRooms E msg st
      | NotFound \<Rightarrow> (Inr (), respond not_found_response st))"


section \<open>Lemmas\<close>

lemma respond_simps [simp]:
  "sent (respond r st) = sent st @ [r]" "kafka_state (respond r st) = kafka_state st"
  "redis_state (respond r st) = redis_state st" "room_cache (respond r st) = room_cache st"
  "mysql_state (respond r st) = mysql_state st" "producer (respond r st) = producer st"
  by (simp_all add: respond_def)

text \<open>The messages a request with the texts \<open>cs\<close> makes.\<close>

fun sent_messages :: "(nat \<Rightarrow> u64) \<Rightarrow> string \<Rightarrow> string \<Rightarrow> nat \<Rightarrow> string list \<Rightarrow> Message list" where
  "sent_messages clock uid uname i [] = []"
| "sent_messages clock uid uname i (c # cs) =
     \<lparr>msg_id = send_message_id (clock i) i, msg_username = uname, msg_content = c,
      msg_timestamp = clock i, msg_user_id = uid\<rparr> # sent_messages clock uid uname (Suc i) cs"

definition has_content :: "'v json_api \<Rightarrow> 'v \<Rightarrow> string \<Rightarrow> bool" where
  "has_content J message c \<longleftrightarrow>
     jmember J message ''content'' = Inr True \<and> jget_string J message ''content'' = Inr c"

definition push_for :: "'v json_api \<Rightarrow> string \<Rightarrow> Message list \<Rightarrow> PushMsg" where
  "push_for J rid ms =
     \<lparr>pm_type = PUSH, pm_operation = 4, pm_room = rid, pm_msg = server_messages J rid ms\<rparr>"

lemma send_loop_ok:
  assumes "jget_string (env_json E) json ''userId'' = Inr uid"
    and "jget_string (env_json E) json ''username'' = Inr uname"
  shows "list_all2 (has_content (env_json E)) elems cs \<Longrightarrow>
     send_loop E json elems i = Inr (sent_messages (env_clock E) uid uname i cs)"
proof (induction elems arbitrary: i cs)
  case (Cons x xs)
  then show ?case using assms by (auto simp: list_all2_Cons1 has_content_def)
qed simp

lemma send_body_fields:
  assumes "json_laws J"
  shows "\<exists>json. parseJsonBody J (send_post_data J rid uid uname arr) = Some json
    \<and> jmissing J json [''roomId'', ''userId'', ''username'', ''messages''] = Inr False
    \<and> jget_string J json ''roomId'' = Inr rid \<and> jget_string J json ''userId'' = Inr uid
    \<and> jget_string J json ''username'' = Inr uname \<and> jget J json ''messages'' = Inr arr"
  by (simp add: parseJsonBody_def send_post_data_def jget_string_def json_simps [OF assms])

lemma Xadd_total:
  assumes "stream_laws R V"
  shows "\<exists>ok xid. fst (Xadd R now key ''*'' [(''payload'', p)] cs) = Inr (ok, xid)"
proof -
  obtain r c s where i: "Init R now cs = (r, c, s)" by (cases "Init R now cs") auto
  obtain rep s' where r: "command R [''XADD'', key, ''*'', ''payload'', p] s = (rep, s')" by fastforce
  show ?thesis
  proof (cases rep)
    case (Some x)
    then show ?thesis
    proof (cases "\<exists>e. x = RError e")
      case False
      with stream_xadd [OF assms, of key p s x s'] r Some obtain xid where "x = RString xid" by auto
      with i r Some show ?thesis by (cases "r = 0") (auto simp: Xadd_def exec_def reply_cstr_def)
    qed (use i r Some in \<open>auto simp: Xadd_def exec_def\<close>)
  qed (use i r in \<open>auto simp: Xadd_def exec_def\<close>)
qed

lemma store_loop_total:
  assumes "stream_laws R V"
  shows "\<exists>ok msgs'. fst (store_loop J R now rid msgs (c, s)) = Inr (ok, msgs')"
proof (induction msgs arbitrary: c s)
  case (Cons m msgs)
  obtain ok xid c1 s1 where
    "Xadd R now rid ''*'' [(''payload'', serializeMessageToJson J m)] (c, s) = (Inr (ok, xid), c1, s1)"
    using Xadd_total [OF assms] by (metis prod.collapse)
  moreover obtain ok' ms' c' s' where "store_loop J R now rid msgs (c1, s1) = (Inr (ok', ms'), c', s')"
    using Cons.IH [of c1 s1] by (metis prod.collapse)
  ultimately show ?case by (cases ok) auto
qed auto

lemma storeMessagesToCache_total:
  assumes "stream_laws R V"
  shows "\<exists>ret msgs'. fst (storeMessagesToCache J R now inited rid msgs (conn, s)) = Inr (ret, msgs')"
proof (cases conn)
  case (Some c)
  obtain ok ms' c' s' where "store_loop J R now rid msgs (c, s) = (Inr (ok, ms'), c', s')"
    using store_loop_total [OF assms] by (metis prod.collapse)
  then show ?thesis using Some by (simp add: storeMessagesToCache_def)
qed (simp add: storeMessagesToCache_def)

text \<open>What storing leaves alone.\<close>

lemma store_all_total:
  assumes "stream_laws (env_redis E) V"
  shows "\<exists>st'. store_all E rid ms st = (Inr (), st') \<and> kafka_state st' = kafka_state st
    \<and> producer st' = producer st \<and> sent st' = sent st \<and> room_cache st' = room_cache st"
proof -
  obtain ret ms' conn s where "storeMessagesToCache (env_json E) (env_redis E) (env_now E) (env_inited E)
      rid ms (msg_conn st, redis_state st) = (Inr (ret, ms'), conn, s)"
    using storeMessagesToCache_total [OF assms] by (metis prod.collapse)
  then show ?thesis by (simp add: store_all_def Let_def split: prod.splits)
qed

text \<open>The key of the room is free or holds a stream, so that \<^verbatim>\<open>XADD\<close> on it succeeds.\<close>

definition accepts_xadd :: "'s redis \<Rightarrow> string \<Rightarrow> bool" where
  "accepts_xadd R key \<longleftrightarrow>
     (\<forall>p s. \<exists>xid s'. command R [''XADD'', key, ''*'', ''payload'', p] s = (Some (RString xid), s'))"

lemma store_loop_accepted:
  assumes "accepts_xadd R rid"
  shows "context_open c \<Longrightarrow> \<exists>msgs' s'. store_loop J R now rid msgs (c, s) = (Inr (True, msgs'), c, s')"
proof (induction msgs arbitrary: s)
  case (Cons m msgs)
  obtain xid s1 where
    "command R [''XADD'', rid, ''*'', ''payload'', serializeMessageToJson J m] s = (Some (RString xid), s1)"
    using assms unfolding accepts_xadd_def by blast
  with Cons.prems have "Xadd R now rid ''*'' [(''payload'', serializeMessageToJson J m)] (c, s)
      = (Inr (True, c_str xid), c, s1)"
    by (simp add: Xadd_def exec_open reply_cstr_def)
  with Cons.IH [OF Cons.prems, of s1] show ?case by auto
qed simp

lemma store_all_appends:
  assumes laws: "stream_laws (env_redis E) V" "accepts_xadd (env_redis E) rid"
    and conn: "env_inited E" "msg_conn st = Some c" "context_open c"
  shows "\<exists>ms'. V (redis_state (snd (store_all E rid ms st)))
        = (V (redis_state st))(rid := V (redis_state st) rid @ stored (env_json E) ms')
      \<and> map (\<lambda>m. m\<lparr>msg_id := []\<rparr>) ms' = map (\<lambda>m. m\<lparr>msg_id := []\<rparr>) ms"
proof -
  obtain ms' s' where l: "store_loop (env_json E) (env_redis E) (env_now E) rid ms (c, redis_state st)
      = (Inr (True, ms'), c, s')"
    using store_loop_accepted [OF laws(2) conn(3)] by blast
  from store_loop_ok [OF laws(1) conn(3) l] have
    "V s' = (V (redis_state st))(rid := V (redis_state st) rid @ stored (env_json E) ms')"
    "map (\<lambda>m. m\<lparr>msg_id := []\<rparr>) ms' = map (\<lambda>m. m\<lparr>msg_id := []\<rparr>) ms" by blast+
  moreover have "ms = [] \<Longrightarrow> ms' = []" using calculation(2) by simp
  ultimately show ?thesis using conn l
    by (cases "ms = []")
      (auto simp: store_all_def storeMessagesToCache_def Let_def stored_def fun_upd_idem split: prod.splits)
qed

text \<open>The effect of a well-formed send request.\<close>

lemma srv_handleSend_effect:
  assumes laws: "json_laws (env_json E)" "stream_laws (env_redis E) V"
    and req: "parseHttpRequest request
        = Some (meth, path, send_post_data (env_json E) rid uid uname arr)"
    and texts: "list_all2 (has_content (env_json E)) (jelems (env_json E) arr) cs"
  defines "ms \<equiv> sent_messages (env_clock E) uid uname 0 cs"
  shows "\<exists>st1. store_all E rid ms st = (Inr (), st1) \<and>
     srv_handleSend E request st =
       (Inr (), respond (if fst (publish E (push_for (env_json E) rid ms) st1)
                         then wrapJsonInHttpResponse success_json else send_failed_response)
                  (snd (publish E (push_for (env_json E) rid ms) st1)))
     \<and> kafka_state st1 = kafka_state st \<and> producer st1 = producer st \<and> sent st1 = sent st
     \<and> room_cache st1 = room_cache st"
proof -
  from store_all_total [OF laws(2)] obtain st1 where
    st1: "store_all E rid ms st = (Inr (), st1)" "kafka_state st1 = kafka_state st"
      "producer st1 = producer st" "sent st1 = sent st" "room_cache st1 = room_cache st" by blast
  obtain json where json: "parseJsonBody (env_json E) (send_post_data (env_json E) rid uid uname arr) = Some json"
    "jmissing (env_json E) json [''roomId'', ''userId'', ''username'', ''messages''] = Inr False"
    "jget_string (env_json E) json ''roomId'' = Inr rid" "jget_string (env_json E) json ''userId'' = Inr uid"
    "jget_string (env_json E) json ''username'' = Inr uname" "jget (env_json E) json ''messages'' = Inr arr"
    using send_body_fields [OF laws(1)] by blast
  have loop: "send_loop E json (jelems (env_json E) arr) 0 = Inr ms"
    unfolding ms_def using json(4,5) texts by (rule send_loop_ok)
  show ?thesis
    by (intro exI [of _ st1] conjI st1)
      (simp add: srv_handleSend_def req json loop st1 push_for_def Let_def split_beta del: jmissing.simps)
qed

lemma publish_eq:
  assumes "env_serialize E P = Some w"
  shows "publish E P st =
     (let (ok, k) = sendMessage (env_kafka E) (producer st) w (kafka_state st)
      in (ok, st\<lparr>kafka_state := k\<rparr>))"
  using assms by (simp add: publish_def)


text \<open>
  A framed response announces the number of body bytes it has.
\<close>

definition framed :: "string \<Rightarrow> bool" where
  "framed r \<longleftrightarrow> (\<exists>head tail body. r = head @ ''Content-Length: '' @ dec (length body) @ CRLF @ tail
     @ CRLF @ body \<and> (tail = [] \<or> tail = ''Access-Control-Allow-Origin: *'' @ CRLF))"

definition answered :: "('s, 'm, 'k) logic_state \<Rightarrow> ('s, 'm, 'k) logic_state \<Rightarrow> bool" where
  "answered st st' \<longleftrightarrow> (\<exists>r. sent st' = sent st @ [r] \<and> framed r)"

lemma framed_responses [simp]:
  "framed (json_response status extra body)" "framed (sendErrorResponse code msg)"
  "framed not_found_response" "framed (wrapJsonInHttpResponse body)"
proof -
  have z: "dec (length []) = ''0''" by code_simp
  show "framed (json_response status extra body)" unfolding framed_def json_response_def
    by (rule exI [of _ "''HTTP/1.1 '' @ status @ CRLF @ ''Content-Type: application/json'' @ CRLF @ extra"],
        rule exI [of _ "''Access-Control-Allow-Origin: *'' @ CRLF"], rule exI [of _ body]) simp
  show "framed (sendErrorResponse code msg)" unfolding framed_def sendErrorResponse_def
    by (rule exI [of _ "''HTTP/1.1 '' @ dec code @ '' '' @ msg @ CRLF @ ''Content-Type: application/json'' @ CRLF"],
        rule exI [of _ "''Access-Control-Allow-Origin: *'' @ CRLF"], rule exI [of _ "[]"])
      (use z in simp)
  show "framed not_found_response" unfolding framed_def not_found_response_def
    by (rule exI [of _ "''HTTP/1.1 404 Not Found'' @ CRLF"], rule exI [of _ "[]"], rule exI [of _ "[]"])
      (use z in simp)
  show "framed (wrapJsonInHttpResponse body)" unfolding framed_def wrapJsonInHttpResponse_def
    by (rule exI [of _ "''HTTP/1.1 200 OK'' @ CRLF @ ''Content-Type: application/json'' @ CRLF"],
        rule exI [of _ "[]"], rule exI [of _ body]) simp
qed

lemma answered_respond [simp]: "sent st' = sent st \<Longrightarrow> framed r \<Longrightarrow> answered st (respond r st')"
  by (simp add: answered_def)

lemma with_world_sent: "with_world f st = (r, st') \<Longrightarrow> sent st' = sent st"
  by (auto simp: with_world_def split: prod.splits)

lemma history_of_sent: "history_of E room n st = (r, st') \<Longrightarrow> sent st' = sent st"
  by (auto simp: history_of_def split: prod.splits)

lemma hello_loop_sent: "hello_loop E rooms acc st = (r, st') \<Longrightarrow> sent st' = sent st"
proof (induction rooms arbitrary: acc st)
  case (Cons room rooms)
  then show ?case by (auto split: prod.splits sum.splits dest!: history_of_sent)
qed simp

lemma publish_sent: "publish E P st = (ok, st') \<Longrightarrow> sent st' = sent st"
  by (auto simp: publish_def split: option.splits prod.splits)

lemma store_all_sent: "store_all E rid ms st = (r, st') \<Longrightarrow> sent st' = sent st"
  by (auto simp: store_all_def Let_def split: if_splits prod.splits sum.splits)

lemmas sent_frame = with_world_sent history_of_sent hello_loop_sent publish_sent store_all_sent

lemma account_handlers_answer:
  "handleLogin E q st = (Inr (), st') \<Longrightarrow> answered st st'"
  "handleRegister E q st = (Inr (), st') \<Longrightarrow> answered st st'"
  "handleVerifyAuth E q st = (Inr (), st') \<Longrightarrow> answered st st'"
  by (auto simp: handleLogin_def handleRegister_def handleVerifyAuth_def
      split: option.splits prod.splits sum.splits dest: sent_frame)

lemma room_handlers_answer:
  "handleHello E q st = (Inr (), st') \<Longrightarrow> answered st st'"
  "handleGetAllRooms E q st = (Inr (), st') \<Longrightarrow> answered st st'"
  by (auto simp: handleHello_def handleGetAllRooms_def Let_def
      split: option.splits prod.splits sum.splits bool.splits dest: sent_frame)

lemma history_payload_answers: "history_payload E p st = (Inr (), st') \<Longrightarrow> answered st st'"
  by (auto simp: history_payload_def Let_def simp del: jmissing.simps
      split: option.splits prod.splits sum.splits bool.splits dest: sent_frame)

lemma srv_handleRoomHistory_answers: "srv_handleRoomHistory E q st = (Inr (), st') \<Longrightarrow> answered st st'"
  by (auto simp: srv_handleRoomHistory_def Let_def simp del: jmissing.simps
      split: option.splits prod.splits sum.splits bool.splits if_splits dest: history_payload_answers)

lemma create_payload_answers: "create_payload E p st = (Inr (), st') \<Longrightarrow> answered st st'"
proof -
  have *: "answered st (snd (publish E P (respond r st1)))" if "sent st1 = sent st" "framed r" for P r st1
    using publish_sent [of E P "respond r st1"] that
    by (cases "publish E P (respond r st1)") (simp add: answered_def)
  show "create_payload E p st = (Inr (), st') \<Longrightarrow> answered st st'"
    by (auto simp: create_payload_def Let_def * split: prod.splits sum.splits if_splits)
qed

lemma srv_handleCreateRoom_answers: "srv_handleCreateRoom E q st = (Inr (), st') \<Longrightarrow> answered st st'"
  by (auto simp: srv_handleCreateRoom_def Let_def simp del: jmissing.simps
      split: option.splits prod.splits sum.splits bool.splits if_splits dest: create_payload_answers)

lemma srv_handleSend_answers:
  "srv_handleSend E q st = (Inr (), st') \<Longrightarrow>
     answered st st' \<or> sent st' = sent st @ [send_failed_response] \<or> st' = st"
  by (auto simp: srv_handleSend_def Let_def simp del: jmissing.simps
      split: option.splits prod.splits sum.splits bool.splits if_splits dest!: sent_frame)


lemma str_find_skip:
  assumes "x \<notin> set s"
  shows "str_find (x # pat) (s @ t) = map_option (\<lambda>i. length s + i) (str_find (x # pat) t)"
  using assms
  by (cases "str_find (x # pat) t"; induction s) (auto simp: starts_with_def)

lemma str_find_here: "str_find (x # pat) ((x # pat) @ t) = Some 0"
  using starts_with_append [of "x # pat" t] by simp

text \<open>An HTTP request as a client writes it: request line, header lines, body.\<close>

definition http_request :: "string \<Rightarrow> string \<Rightarrow> string list \<Rightarrow> string \<Rightarrow> string" where
  "http_request meth path headers body =
     meth @ '' '' @ path @ '' HTTP/1.1'' @ concat (map (\<lambda>h. CRLF @ h) headers) @ CRLF @ CRLF @ body"

definition header_line :: "string \<Rightarrow> bool" where
  "header_line h \<longleftrightarrow> h \<noteq> [] \<and> CHR 0x0D \<notin> set h"

definition request_word :: "string \<Rightarrow> bool" where
  "request_word w \<longleftrightarrow> CHR 0x20 \<notin> set w \<and> CHR 0x0D \<notin> set w"

lemma find_blank_line:
  assumes "list_all header_line headers"
  shows "str_find (CRLF @ CRLF) (concat (map (\<lambda>h. CRLF @ h) headers) @ CRLF @ CRLF @ body)
       = Some (length (concat (map (\<lambda>h. CRLF @ h) headers)))"
  using assms
proof (induction headers)
  case Nil
  then show ?case by (simp add: CRLF_def starts_with_def)
next
  case (Cons h hs)
  then obtain c h' where h: "h = c # h'" "c \<noteq> CHR 0x0D" "CHR 0x0D \<notin> set h'"
    by (cases h) (auto simp: header_line_def)
  let ?t = "concat (map (\<lambda>h. CRLF @ h) hs) @ CRLF @ CRLF @ body"
  have "str_find (CRLF @ CRLF) (h @ ?t) = map_option (\<lambda>i. length h + i) (str_find (CRLF @ CRLF) ?t)"
    using Cons.prems str_find_skip [of "CHR 0x0D" h "[CHR 0x0A, CHR 0x0D, CHR 0x0A]" ?t]
    by (auto simp: CRLF_def header_line_def)
  moreover have "str_find (CRLF @ CRLF) (CRLF @ h @ ?t)
      = map_option (\<lambda>i. 2 + i) (str_find (CRLF @ CRLF) (h @ ?t))"
    using h by (simp add: CRLF_def starts_with_def option.map_comp o_def)
  ultimately show ?case using Cons by (simp add: CRLF_def)
qed

lemma parse_http_request:
  assumes "request_word meth" "request_word path" "list_all header_line headers"
  shows "parseHttpRequest (http_request meth path headers body) = Some (meth, path, body)"
proof -
  let ?hs = "concat (map (\<lambda>h. CRLF @ h) headers)"
  let ?tail = "?hs @ CRLF @ CRLF @ body"
  let ?line = "meth @ '' '' @ path @ '' HTTP/1.1''"
  have r: "http_request meth path headers body = ?line @ ?tail" by (simp add: http_request_def)
  have sp: "str_find '' '' (meth @ '' '' @ t) = Some (length meth)" for t
    using str_find_skip [of "CHR 0x20" meth "[]" "'' '' @ t"] str_find_here [of "CHR 0x20" "[]" t] assms(1)
    by (auto simp: request_word_def)
  have sp2: "str_find '' '' (path @ '' '' @ t) = Some (length path)" for t
    using str_find_skip [of "CHR 0x20" path "[]" "'' '' @ t"] str_find_here [of "CHR 0x20" "[]" t] assms(2)
    by (auto simp: request_word_def)
  let ?r = "?line @ ?tail"
  have blank: "str_find (CRLF @ CRLF) ?r = Some (length (?line @ ?hs))"
    using str_find_skip [of "CHR 0x0D" ?line "[CHR 0x0A, CHR 0x0D, CHR 0x0A]" ?tail]
      find_blank_line [OF assms(3), of body] assms(1,2)
    by (auto simp: CRLF_def request_word_def)
  have f1: "str_find '' '' ?r = Some (length meth)"
    using sp [of "path @ '' HTTP/1.1'' @ ?tail"] by simp
  have f2: "str_find_from '' '' ?r (length meth + 1) = Some (length meth + 1 + length path)"
    using sp2 [of "''HTTP/1.1'' @ ?tail"] by (simp add: str_find_from_def)
  have "?r = (?line @ ?hs @ CRLF @ CRLF) @ body" by simp
  moreover have "length (?line @ ?hs) + 4 = length (?line @ ?hs @ CRLF @ CRLF)" by (simp add: CRLF_def)
  ultimately have f3: "drop (length (?line @ ?hs) + 4) ?r = body" by (metis append_eq_conv_conj)
  show ?thesis
    unfolding parseHttpRequest_def r f1 f2 blank option.case f3 by simp
qed

lemma str_find_occurs: "str_find pat (pre @ pat @ post) \<noteq> None"
  using str_find_None [of pat "pre @ pat @ post"]
  by (metis append_eq_conv_conj le_add1 length_append starts_with_append)

lemma sent_message_ids:
  "map msg_id (sent_messages clock uid uname i cs)
     = map (\<lambda>j. send_message_id (clock j) j) [i..<i + length cs]"
  by (induction cs arbitrary: i) (simp_all add: upt_rec)

lemma send_message_id_inj: "send_message_id t i = send_message_id u j \<longleftrightarrow> t = u \<and> i = j"
proof
  assume eq: "send_message_id t i = send_message_id u j"
  have nd: "CHR ''-'' \<notin> set (dec n)" for n by (rule dec_no_char) (simp add: is_digit_def)
  have "takeWhile (\<lambda>c. c \<noteq> CHR ''-'') (dec n @ ''-'' @ r) = dec n" for n r
    using nd [of n] by (subst takeWhile_append2) auto
  with eq have "dec (unat t) = dec (unat u)" unfolding send_message_id_def by metis
  then have "t = u" by (simp add: word_unat_eq_iff)
  with eq show "t = u \<and> i = j" by (simp add: send_message_id_def)
qed simp

section \<open>Properties\<close>

text \<open>
  C9: a chat message accepted by the logic server is stored and published. A
  request to \<^verbatim>\<open>/logic/send\<close> with the document the comet server writes appends the
  texts to the room's Redis stream, in order and with sender and time, and to no
  other stream; hands Kafka exactly one message, for that room, with
  all the texts; and answers with success when Kafka took it and with an error
  otherwise. Storing in the database may fail without consequences.
\<close>

theorem send_stored_and_published:
  assumes "json_laws (env_json E)" "stream_laws (env_redis E) V" "accepts_xadd (env_redis E) rid"
    and "env_inited E" "msg_conn st = Some c" "context_open c"
    and "route_of request = Send"
    and "parseHttpRequest request
          = Some (meth, path, send_post_data (env_json E) rid uid uname arr)"
    and "list_all2 (has_content (env_json E)) (jelems (env_json E) arr) cs"
    and "env_serialize E (push_for (env_json E) rid (sent_messages (env_clock E) uid uname 0 cs)) = Some w"
  shows "\<exists>st' ms'. onMessage E request st = (Inr (), st')
     \<and> V (redis_state st') = (V (redis_state st))(rid := V (redis_state st) rid @ stored (env_json E) ms')
     \<and> map (\<lambda>m. m\<lparr>msg_id := []\<rparr>) ms'
         = map (\<lambda>m. m\<lparr>msg_id := []\<rparr>) (sent_messages (env_clock E) uid uname 0 cs)
     \<and> (let (ok, k) = sendMessage (env_kafka E) (producer st) w (kafka_state st) in
         kafka_state st' = k \<and> sent st' = sent st @ [if ok then wrapJsonInHttpResponse success_json
                                                  else send_failed_response])"
proof -
  let ?ms = "sent_messages (env_clock E) uid uname 0 cs"
  let ?P = "push_for (env_json E) rid ?ms"
  from srv_handleSend_effect [OF assms(1,2,8,9), of st] obtain st1 where
    st1: "store_all E rid ?ms st = (Inr (), st1)"
      "srv_handleSend E request st =
        (Inr (), respond (if fst (publish E ?P st1) then wrapJsonInHttpResponse success_json
                          else send_failed_response) (snd (publish E ?P st1)))"
      "kafka_state st1 = kafka_state st" "producer st1 = producer st" "sent st1 = sent st" by blast
  obtain ms' where "V (redis_state st1)
        = (V (redis_state st))(rid := V (redis_state st) rid @ stored (env_json E) ms')"
      "map (\<lambda>m. m\<lparr>msg_id := []\<rparr>) ms' = map (\<lambda>m. m\<lparr>msg_id := []\<rparr>) ?ms"
    using store_all_appends [OF assms(2-6), of ?ms] st1(1) by auto
  then show ?thesis
    using st1(2-5) assms(7,10)
    by (intro exI [of _ "snd (srv_handleSend E request st)"] exI [of _ ms'])
      (auto simp: onMessage_def publish_eq split_beta)
qed

definition sample_env :: "(jv, streams, (string option list) list, string list \<times> string list) logic_env" where
  "sample_env = \<lparr>env_json = jv_api, env_redis = stream_redis, env_mysql = counting_mysql,
     env_rand = (\<lambda>i. i), env_now = 9, env_clock = (\<lambda>_. 1700), env_uuid = (\<lambda>_. ''g''),
     env_master = True, env_slave = True, env_inited = True, env_serialize = (\<lambda>P. Some (pm_msg P)),
     env_kafka = queue_kafka\<rparr>"

definition sample_logic :: "(streams, (string option list) list, string list \<times> string list) logic_state" where
  "sample_logic = \<lparr>room_cache = [], token_conn = Some sample_conn, msg_conn = Some sample_conn,
     redis_state = (\<lambda>_. []), mysql_state = [],
     producer = snd (producer_init queue_kafka ''b'' ''t'' newKafkaProducer), kafka_state = ([], []),
     sent = []\<rparr>"

definition sample_body :: string where
  "sample_body = send_post_data jv_api ''r1'' ''u1'' ''ann'' (JArr [JObj [(''content'', JStr ''hi'')]])"

definition sample_send :: string where
  "sample_send = http_request ''POST'' ''/logic/send'' [''Host: h''] sample_body"

lemma sample_send_route: "route_of sample_send = Send"
  by code_simp

lemma sample_send_parse: "parseHttpRequest sample_send = Some (''POST'', ''/logic/send'', sample_body)"
  unfolding sample_send_def by (rule parse_http_request) (simp_all add: request_word_def header_line_def)

lemma stream_redis_accepts: "accepts_xadd stream_redis rid"
  by (simp add: accepts_xadd_def stream_redis_def)

lemma sample_conn_open: "context_open sample_conn"
  by (simp add: sample_conn_def)

lemma sample_env_simps:
  "env_json sample_env = jv_api" "env_redis sample_env = stream_redis" "env_inited sample_env"
  "env_kafka sample_env = queue_kafka" "env_serialize sample_env P = Some (pm_msg P)"
  "msg_conn sample_logic = Some sample_conn"
  by (simp_all add: sample_env_def sample_logic_def)

lemma sample_texts: "has_content jv_api (JObj [(''content'', JStr c)]) c"
  by (simp add: has_content_def jget_string_def)

theorem send_stored_and_published_witness:
  "\<exists>st'. onMessage sample_env sample_send sample_logic = (Inr (), st')
     \<and> sent st' = [wrapJsonInHttpResponse success_json] \<and> length (redis_state st' ''r1'') = 1"
proof -
  let ?ms = "sent_messages (env_clock sample_env) ''u1'' ''ann'' 0 [''hi'']"
  have "\<exists>st' ms'. onMessage sample_env sample_send sample_logic = (Inr (), st')
     \<and> redis_state st' = (redis_state sample_logic)(''r1'' := redis_state sample_logic ''r1''
           @ stored (env_json sample_env) ms')
     \<and> map (\<lambda>m. m\<lparr>msg_id := []\<rparr>) ms' = map (\<lambda>m. m\<lparr>msg_id := []\<rparr>) ?ms
     \<and> (let (ok, k) = sendMessage (env_kafka sample_env) (producer sample_logic)
                         (pm_msg (push_for jv_api ''r1'' ?ms)) (kafka_state sample_logic) in
         kafka_state st' = k \<and> sent st' = sent sample_logic
           @ [if ok then wrapJsonInHttpResponse success_json else send_failed_response])"
    by (rule send_stored_and_published [where V = "\<lambda>s. s" and c = sample_conn
          and meth = "''POST''" and path = "''/logic/send''" and uid = "''u1''" and uname = "''ann''"
          and arr = "JArr [JObj [(''content'', JStr ''hi'')]]" and cs = "[''hi'']"])
      (simp_all add: sample_env_simps json_laws_jv stream_laws_instance stream_redis_accepts
        sample_conn_open sample_send_route sample_send_parse sample_body_def sample_texts)
  moreover have "length ms' = 1" if "map (\<lambda>m. m\<lparr>msg_id := []\<rparr>) ms' = map (\<lambda>m. m\<lparr>msg_id := []\<rparr>) ?ms"
    for ms' :: "Message list"
    using that by (metis length_map sent_messages.simps One_nat_def length_Cons list.size(3))
  ultimately show ?thesis
    by (auto simp: sample_env_simps sample_logic_def sendMessage_def queue_kafka_def producer_init_def
        newKafkaProducer_def stored_simps)
qed

text \<open>
  C37: every request that does not throw is answered by exactly one
  response whose \<^verbatim>\<open>Content-Length\<close> is the length of its body, with two exceptions,
  both of \<^verbatim>\<open>/logic/send\<close>: the literal answer for a failed send, and no answer at all
  (with nothing else changed) for a malformed request.
\<close>

theorem onMessage_one_response:
  assumes "onMessage E msg st = (Inr (), st')"
  shows "(\<exists>r. sent st' = sent st @ [r] \<and> framed r)
    \<or> route_of msg = Send \<and> (sent st' = sent st @ [send_failed_response] \<or> st' = st)"
  using assms account_handlers_answer room_handlers_answer srv_handleRoomHistory_answers
    srv_handleCreateRoom_answers srv_handleSend_answers
  unfolding onMessage_def answered_def [symmetric]
  by (cases "route_of msg") fastforce+

theorem onMessage_one_response_witness:
  "\<exists>r. sent (snd (onMessage sample_env ''GET / HTTP/1.1'' sample_logic)) = [r] \<and> framed r"
proof -
  have r: "route_of ''GET / HTTP/1.1'' = NotFound" by code_simp
  then have "onMessage sample_env ''GET / HTTP/1.1'' sample_logic
      = (Inr (), respond not_found_response sample_logic)" by (simp add: onMessage_def)
  from onMessage_one_response [OF this] this r show ?thesis by (auto simp: sample_logic_def)
qed

text \<open>
  The literal answer for a failed send announces 31 bytes and has 27.
\<close>

theorem send_failed_length_wrong:
  "\<exists>i. str_find (CRLF @ CRLF) send_failed_response = Some i
     \<and> drop (i - 2) (take i send_failed_response) = ''31''
     \<and> length (drop (i + 4) send_failed_response) = 27"
proof -
  have "str_find (CRLF @ CRLF) send_failed_response = Some 86
     \<and> drop 84 (take 86 send_failed_response) = ''31''
     \<and> length (drop 90 send_failed_response) = 27" by code_simp
  then show ?thesis by (intro exI [of _ 86]) simp
qed

text \<open>
  The routes are looked for anywhere in the received bytes, and the first one
  of the list that occurs decides: a chat message whose text contains
  \<^verbatim>\<open>POST /logic/login\<close> is handled as a login, whatever its request line says.
\<close>

theorem dispatch_by_occurrence:
  "onMessage E (before @ ''POST /logic/login'' @ rest) st
     = handleLogin E (before @ ''POST /logic/login'' @ rest) st"
  using str_find_occurs [of "''POST /logic/login''" before rest]
  by (simp add: onMessage_def route_of_def routes_def)

text \<open>
  The ids made for the messages of one request are distinct, even when the
  clock does not advance; two requests handled in the same millisecond give
  their messages the same ids.
\<close>

theorem send_ids:
  "distinct (map msg_id (sent_messages clock uid uname 0 cs))
   \<and> map msg_id (sent_messages (\<lambda>_. t) uid uname 0 cs)
       = take (length cs) (map msg_id (sent_messages (\<lambda>_. t) uid' uname' 0 (cs @ cs')))"
proof
  show "distinct (map msg_id (sent_messages clock uid uname 0 cs))"
    by (simp add: sent_message_ids distinct_map inj_on_def send_message_id_inj)
  show "map msg_id (sent_messages (\<lambda>_. t) uid uname 0 cs)
       = take (length cs) (map msg_id (sent_messages (\<lambda>_. t) uid' uname' 0 (cs @ cs')))"
    by (simp add: sent_message_ids take_map)
qed

text \<open>
  A request of a client is read back as written: method, path and body, for
  any header lines and any body.
\<close>

theorem http_request_roundtrip:
  assumes "request_word meth" "request_word path" "list_all header_line headers"
  shows "parseHttpRequest (http_request meth path headers body) = Some (meth, path, body)"
  using assms by (rule parse_http_request)

theorem http_request_roundtrip_witness:
  "parseHttpRequest (http_request ''POST'' ''/logic/send'' [''Host: h'', ''Content-Length: 2''] ''{}'')
     = Some (''POST'', ''/logic/send'', ''{}'')"
  by (rule http_request_roundtrip) (simp_all add: request_word_def header_line_def)

end
