(* ===== verification/Base64.thy ===== *)
theory Base64
  imports ChatPrelude
begin

text \<open>
  The Base64 encoder of \<^verbatim>\<open>base/base64.cpp\<close>, used for the \<^verbatim>\<open>Sec-WebSocket-Accept\<close>
  header of the handshake. The loop of the source is kept: it collects bytes in
  \<^verbatim>\<open>char_array_3\<close>, emits four characters when three bytes are there, and flushes
  the remainder with padding. The reference is a decoder of RFC 4648.
\<close>

section \<open>The encoder\<close>

definition base64_chars :: string where
  "base64_chars =
     ''ABCDEFGHIJKLMNOPQRSTUVWXYZabcdefghijklmnopqrstuvwxyz0123456789+/''"

text \<open>The four values of \<^verbatim>\<open>char_array_4\<close>, from the three bytes collected.\<close>

fun char_array_4 :: "byte list \<Rightarrow> byte list" where
  "char_array_4 [a0, a1, a2] =
     [drop_bit 2 (a0 AND 0xfc),
      push_bit 4 (a0 AND 0x03) + drop_bit 4 (a1 AND 0xf0),
      push_bit 2 (a1 AND 0x0f) + drop_bit 6 (a2 AND 0xc0),
      a2 AND 0x3f]"
| "char_array_4 _ = []"

record b64_state =
  b64_i :: nat
  char_array_3 :: "byte list"
  b64_encoded :: string

definition b64_step :: "byte \<Rightarrow> b64_state \<Rightarrow> b64_state" where
  "b64_step b s =
     (let a3 = (char_array_3 s)[b64_i s := b]; i = Suc (b64_i s) in
      if i = 3
      then s\<lparr>b64_i := 0, char_array_3 := a3,
             b64_encoded := b64_encoded s @ map (\<lambda>v. base64_chars ! unat v) (char_array_4 a3)\<rparr>
      else s\<lparr>b64_i := i, char_array_3 := a3\<rparr>)"

definition b64_flush :: "b64_state \<Rightarrow> string" where
  "b64_flush s =
     (let i = b64_i s in
      if i > 0
      then let a3 = take i (char_array_3 s) @ replicate (3 - i) 0
           in b64_encoded s
                @ map (\<lambda>v. base64_chars ! unat v) (take (i + 1) (char_array_4 a3))
                @ replicate (3 - i) CHR ''=''
      else b64_encoded s)"

text \<open>
  The overload for a vector, and the overload for a pointer and a size. \<open>junk\<close>
  is what the uninitialised array \<^verbatim>\<open>char_array_3\<close> happens to hold.
\<close>

definition base64_encode :: "byte list \<Rightarrow> byte list \<Rightarrow> string" where
  "base64_encode junk data =
     b64_flush (fold b64_step data \<lparr>b64_i = 0, char_array_3 = junk, b64_encoded = []\<rparr>)"

definition base64_encode_ptr :: "byte list \<Rightarrow> byte list \<Rightarrow> int \<Rightarrow> string res" where
  "base64_encode_ptr junk data sz =
     (if sz \<le> int (length data)
      then Inr (b64_flush (fold b64_step (take (nat sz) data)
                  \<lparr>b64_i = 0, char_array_3 = junk, b64_encoded = []\<rparr>))
      else Inl OutOfBounds)"

section \<open>The reference decoder\<close>

definition b64_val :: "char \<Rightarrow> nat option" where
  "b64_val c = find_char (\<lambda>d. d = c) base64_chars"

definition b64_byte0 :: "nat \<Rightarrow> nat \<Rightarrow> byte" where
  "b64_byte0 v0 v1 = word_of_nat (v0 * 4 + v1 div 16)"

definition b64_byte1 :: "nat \<Rightarrow> nat \<Rightarrow> byte" where
  "b64_byte1 v1 v2 = word_of_nat (v1 mod 16 * 16 + v2 div 4)"

definition b64_byte2 :: "nat \<Rightarrow> nat \<Rightarrow> byte" where
  "b64_byte2 v2 v3 = word_of_nat (v2 mod 4 * 64 + v3)"

fun b64_decode :: "string \<Rightarrow> byte list option" where
  "b64_decode [] = Some []"
| "b64_decode [c0, c1, c2, c3] =
     (if c2 = CHR ''='' \<and> c3 = CHR ''=''
      then (case (b64_val c0, b64_val c1) of
              (Some v0, Some v1) \<Rightarrow> Some [b64_byte0 v0 v1]
            | _ \<Rightarrow> None)
      else if c3 = CHR ''=''
      then (case (b64_val c0, b64_val c1, b64_val c2) of
              (Some v0, Some v1, Some v2) \<Rightarrow>
                Some [b64_byte0 v0 v1,
                      b64_byte1 v1 v2]
            | _ \<Rightarrow> None)
      else (case (b64_val c0, b64_val c1, b64_val c2, b64_val c3) of
              (Some v0, Some v1, Some v2, Some v3) \<Rightarrow>
                Some [b64_byte0 v0 v1,
                      b64_byte1 v1 v2,
                      b64_byte2 v2 v3]
            | _ \<Rightarrow> None))"
| "b64_decode (c0 # c1 # c2 # c3 # cs) =
     (case (b64_val c0, b64_val c1, b64_val c2, b64_val c3) of
        (Some v0, Some v1, Some v2, Some v3) \<Rightarrow>
          map_option (\<lambda>bs. b64_byte0 v0 v1
                         # b64_byte1 v1 v2
                         # b64_byte2 v2 v3 # bs) (b64_decode cs)
      | _ \<Rightarrow> None)"
| "b64_decode _ = None"

section \<open>Bit fields of a byte\<close>

lemma unat_b64_fields [unat_bits]:
  fixes a :: byte
  shows "unat (drop_bit 2 (a AND 0xfc)) = unat a div 4"
    and "unat (push_bit 4 (a AND 3)) = unat a mod 4 * 16"
    and "unat (drop_bit 4 (a AND 0xf0)) = unat a div 16"
    and "unat (push_bit 2 (a AND 15)) = unat a mod 16 * 4"
    and "unat (drop_bit 6 (a AND 0xc0)) = unat a div 64"
    and "unat (a AND 63) = unat a mod 64"
proof -
  have "unat a div 4 < 64" "unat a div 16 < 16" "unat a div 64 < 4"
    "unat a mod 4 * 16 < 256" "unat a mod 16 * 4 < 256"
    using unat_byte_less [of a] by arith+
  note less = this
  have "drop_bit 2 (a AND 0xfc) = drop_bit 2 a AND mask 6"
    "drop_bit 4 (a AND 0xf0) = drop_bit 4 a AND mask 4"
    "drop_bit 6 (a AND 0xc0) = drop_bit 6 a AND mask 2"
    "push_bit 4 (a AND 3) = push_bit 4 (a AND mask 2)"
    "push_bit 2 (a AND 15) = push_bit 2 (a AND mask 4)"
    "a AND 63 = a AND mask 6"
    by (simp_all add: mask_eq_exp_minus_1)
  note masks = this
  show "unat (drop_bit 2 (a AND 0xfc)) = unat a div 4"
    "unat (drop_bit 4 (a AND 0xf0)) = unat a div 16"
    "unat (drop_bit 6 (a AND 0xc0)) = unat a div 64"
    "unat (push_bit 4 (a AND 3)) = unat a mod 4 * 16"
    "unat (push_bit 2 (a AND 15)) = unat a mod 16 * 4"
    "unat (a AND 63) = unat a mod 64"
    unfolding masks unat_and_mask unat_drop_bit unat_push_bit using less by simp_all
qed

lemma unat_char_array_4:
  "map unat (char_array_4 [a0, a1, a2]) =
     [unat a0 div 4, unat a0 mod 4 * 16 + unat a1 div 16,
      unat a1 mod 16 * 4 + unat a2 div 64, unat a2 mod 64]"
proof -
  have "unat a0 mod 4 * 16 + unat a1 div 16 < 256" "unat a1 mod 16 * 4 + unat a2 div 64 < 256"
    using unat_byte_less [of a1] unat_byte_less [of a2] by arith+
  then show ?thesis
    unfolding char_array_4.simps list.map
    by (subst unat_add_small, simp only: unat_bits, simp)+ (simp only: unat_bits)
qed

declare char_array_4.simps [simp del]

lemma length_base64_chars [simp]: "length base64_chars = 64"
  by (simp add: base64_chars_def)

lemma b64_val_nth: "n < 64 \<Longrightarrow> b64_val (base64_chars ! n) = Some n"
proof -
  have "\<forall>n\<in>set [0..<64]. b64_val (base64_chars ! n) = Some n" by code_simp
  then show "n < 64 \<Longrightarrow> ?thesis" by simp
qed

lemma b64_val_pad [simp]: "b64_val CHR ''='' = None"
  by code_simp

lemma b64_nth_not_pad: "n < 64 \<Longrightarrow> base64_chars ! n \<noteq> CHR ''=''"
  using b64_val_nth [of n] b64_val_pad by fastforce

section \<open>The loop as a recursion over three-byte groups\<close>

fun b64_groups :: "byte list \<Rightarrow> string" where
  "b64_groups (a0 # a1 # a2 # bs) =
     map (\<lambda>v. base64_chars ! unat v) (char_array_4 [a0, a1, a2]) @ b64_groups bs"
| "b64_groups [] = []"
| "b64_groups [a0] =
     map (\<lambda>v. base64_chars ! unat v) (take 2 (char_array_4 [a0, 0, 0])) @ ''==''"
| "b64_groups [a0, a1] =
     map (\<lambda>v. base64_chars ! unat v) (take 3 (char_array_4 [a0, a1, 0])) @ ''=''"

lemma length_3_conv: "length xs = 3 \<longleftrightarrow> (\<exists>a b c. xs = [a, b, c])"
  by (auto simp: numeral_3_eq_3 length_Suc_conv)

lemma fold_b64_groups:
  assumes "length junk = 3"
  shows "b64_flush (fold b64_step data \<lparr>b64_i = 0, char_array_3 = junk, b64_encoded = enc\<rparr>)
         = enc @ b64_groups data"
  using assms
proof (induction data arbitrary: junk enc rule: b64_groups.induct)
  case (1 a0 a1 a2 bs)
  then obtain x y z where junk: "junk = [x, y, z]" by (auto simp: length_3_conv)
  have "fold b64_step (a0 # a1 # a2 # bs) \<lparr>b64_i = 0, char_array_3 = junk, b64_encoded = enc\<rparr>
      = fold b64_step bs \<lparr>b64_i = 0, char_array_3 = [a0, a1, a2],
          b64_encoded = enc @ map (\<lambda>v. base64_chars ! unat v) (char_array_4 [a0, a1, a2])\<rparr>"
    by (simp add: junk b64_step_def Let_def)
  with 1 show ?case by simp
next
  case (3 a0)
  then obtain x y z where "junk = [x, y, z]" by (auto simp: length_3_conv)
  then show ?case by (simp add: b64_flush_def b64_step_def Let_def numeral_2_eq_2)
next
  case (4 a0 a1)
  then obtain x y z where "junk = [x, y, z]" by (auto simp: length_3_conv)
  then show ?case by (simp add: b64_flush_def b64_step_def Let_def numeral_3_eq_3)
qed (simp add: b64_flush_def)

lemma base64_encode_groups: "base64_encode [x, y, z] data = b64_groups data"
  using fold_b64_groups [of "[x, y, z]" data "[]"] by (simp add: base64_encode_def)

lemma base64_encode_ptr_vec:
  "base64_encode_ptr junk data (int (length data)) = Inr (base64_encode junk data)"
  by (simp add: base64_encode_ptr_def base64_encode_def)

section \<open>Correctness\<close>

lemma b64_group_chars:
  "map (\<lambda>v. base64_chars ! unat v) (char_array_4 [a0, a1, a2]) =
     [base64_chars ! (unat a0 div 4),
      base64_chars ! (unat a0 mod 4 * 16 + unat a1 div 16),
      base64_chars ! (unat a1 mod 16 * 4 + unat a2 div 64),
      base64_chars ! (unat a2 mod 64)]"
proof -
  have "map (\<lambda>v. base64_chars ! unat v) (char_array_4 [a0, a1, a2]) =
        map (\<lambda>n. base64_chars ! n) (map unat (char_array_4 [a0, a1, a2]))"
    by simp
  then show ?thesis by (simp add: unat_char_array_4)
qed

lemma b64_sextets_less:
  fixes a0 a1 a2 :: byte
  shows "unat a0 div 4 < 64"
    and "unat a0 mod 4 * 16 + unat a1 div 16 < 64"
    and "unat a1 mod 16 * 4 + unat a2 div 64 < 64"
    and "unat a2 mod 64 < 64"
  using unat_byte_less [of a0] unat_byte_less [of a1] unat_byte_less [of a2] by arith+

lemma word_of_nat_byte: "n = unat (a :: byte) \<Longrightarrow> word_of_nat n = a"
  by simp

lemma b64_split_low: "y < 16 \<Longrightarrow> (x * 16 + y) div 16 = x \<and> (x * 16 + y) mod 16 = (y :: nat)"
  and b64_split_high: "y < 4 \<Longrightarrow> (x * 4 + y) div 4 = x \<and> (x * 4 + y) mod 4 = (y :: nat)"
  by simp_all

lemma b64_bytes_back:
  fixes a0 a1 a2 :: byte
  shows "b64_byte0 (unat a0 div 4) (unat a0 mod 4 * 16 + unat a1 div 16) = a0"
    and "b64_byte1 (unat a0 mod 4 * 16 + unat a1 div 16) (unat a1 mod 16 * 4 + unat a2 div 64) = a1"
    and "b64_byte2 (unat a1 mod 16 * 4 + unat a2 div 64) (unat a2 mod 64) = a2"
proof -
  have less: "unat a1 div 16 < 16" "unat a2 div 64 < 4"
    using unat_byte_less [of a1] unat_byte_less [of a2] by arith+
  note splits = b64_split_low [OF less(1), of "unat a0 mod 4"]
    b64_split_high [OF less(2), of "unat a1 mod 16"]
  show "b64_byte0 (unat a0 div 4) (unat a0 mod 4 * 16 + unat a1 div 16) = a0"
    unfolding b64_byte0_def by (rule word_of_nat_byte) (simp add: splits)
  show "b64_byte1 (unat a0 mod 4 * 16 + unat a1 div 16) (unat a1 mod 16 * 4 + unat a2 div 64) = a1"
    unfolding b64_byte1_def by (rule word_of_nat_byte) (simp add: splits less)
  show "b64_byte2 (unat a1 mod 16 * 4 + unat a2 div 64) (unat a2 mod 64) = a2"
    unfolding b64_byte2_def by (rule word_of_nat_byte) (simp add: splits less)
qed

lemma b64_groups_take:
  "map (\<lambda>v. base64_chars ! unat v) (take n (char_array_4 [a0, a1, a2])) =
     take n [base64_chars ! (unat a0 div 4),
      base64_chars ! (unat a0 mod 4 * 16 + unat a1 div 16),
      base64_chars ! (unat a1 mod 16 * 4 + unat a2 div 64),
      base64_chars ! (unat a2 mod 64)]"
  by (simp only: take_map [symmetric] b64_group_chars)

lemma b64_decode_groups: "b64_decode (b64_groups data) = Some data"
proof (induction data rule: b64_groups.induct)
  case (1 a0 a1 a2 bs)
  show ?case
  proof (cases "b64_groups bs")
    case Nil
    with 1 have "bs = []" by simp
    with Nil show ?thesis
      by (simp add: b64_group_chars b64_val_nth b64_sextets_less b64_nth_not_pad b64_bytes_back)
  next
    case (Cons c cs)
    with 1 show ?thesis
      by (simp add: b64_group_chars b64_val_nth b64_sextets_less b64_bytes_back)
  qed
next
  case (3 a0)
  have "unat a0 mod 4 * 16 < 64" by arith
  with b64_bytes_back(1) [of a0 0] show ?case
    by (simp add: b64_groups_take b64_val_nth b64_sextets_less b64_nth_not_pad)
next
  case (4 a0 a1)
  have "unat a1 mod 16 * 4 < 64" by arith
  with b64_bytes_back(1) [of a0 a1] b64_bytes_back(2) [of a0 a1 0] show ?case
    by (simp add: b64_groups_take b64_val_nth b64_sextets_less b64_nth_not_pad)
qed simp

lemma length_b64_groups: "length (b64_groups data) = 4 * ((length data + 2) div 3)"
proof (induction data rule: b64_groups.induct)
  case (1 a0 a1 a2 bs)
  have "(length bs + 5) div 3 = Suc ((length bs + 2) div 3)" by presburger
  with 1 show ?case by (simp add: b64_group_chars add.commute)
qed (auto simp: b64_groups_take)

text \<open>
  The Base64 encoder loses nothing: whatever the uninitialised work array
  held, the RFC 4648 decoder applied to the output of either overload gives back
  exactly the bytes that were encoded, and the output has the padded length
  \<open>4 * ceil(n / 3)\<close>.
\<close>

theorem base64_encode_roundtrip:
  "b64_decode (base64_encode [x, y, z] data) = Some data \<and>
   length (base64_encode [x, y, z] data) = 4 * ((length data + 2) div 3) \<and>
   base64_encode_ptr [x, y, z] data (int (length data)) = Inr (base64_encode [x, y, z] data)"
  by (simp add: base64_encode_groups b64_decode_groups length_b64_groups base64_encode_ptr_vec)

end
