(* ===== verification/WebSocketFrame.thy ===== *)
theory WebSocketFrame
  imports Base64
begin

text \<open>
  The WebSocket framing of \<^verbatim>\<open>chat-room/service/websocket_conn.cc\<close>: the frame
  builder for server messages, the frame parser, and the loop of
  \<^verbatim>\<open>CWebSocketConn::OnRead\<close> that cuts complete frames out of the receive buffer.
  Lengths are 64-bit words, as \<^verbatim>\<open>size_t\<close> and \<^verbatim>\<open>uint64_t\<close> are; the loop may fail
  to end (\<^theory_text>\<open>partial_function (option)\<close>, \<open>None\<close> when it does not return).
\<close>

section \<open>Frames\<close>

record WebSocketFrame =
  fin :: bool
  opcode :: byte
  mask_flag :: bool
  payload_length :: u64
  masking_key :: "byte list option"  \<comment> \<open>\<open>None\<close>: left uninitialised\<close>
  payload_data :: "byte list"

text \<open>\<^verbatim>\<open>static_cast<uint8_t>((payload_length >> (8 * i)) & 0xFF)\<close>.\<close>

definition len_byte :: "u64 \<Rightarrow> nat \<Rightarrow> byte" where
  "len_byte n i = ucast (drop_bit (8 * i) n AND 0xFF)"

definition BuildWebSocketFrame :: "byte list \<Rightarrow> byte \<Rightarrow> byte list" where
  "BuildWebSocketFrame payload op =
     (let payload_length = (word_of_nat (length payload) :: u64) in
      [0x80 OR (op AND 0x0F)]
      @ (if payload_length \<le> 125 then [ucast payload_length]
         else if payload_length \<le> 65535
         then [126, len_byte payload_length 1, len_byte payload_length 0]
         else 127 # map (len_byte payload_length) [7, 6, 5, 4, 3, 2, 1, 0])
      @ payload)"

text \<open>
  \<^verbatim>\<open>bytes[i]\<close> on \<^verbatim>\<open>data.data()\<close>: the byte after the last one is the terminating
  zero of \<^verbatim>\<open>std::string\<close>, anything further is outside the array.
\<close>

definition str_byte :: "byte list \<Rightarrow> nat \<Rightarrow> byte res" where
  "str_byte data i =
     (if i < length data then Inr (data ! i)
      else if i = length data then Inr 0
      else Inl OutOfBounds)"

definition be16 :: "byte \<Rightarrow> byte \<Rightarrow> u64" where
  "be16 b2 b3 = push_bit 8 (ucast b2) OR ucast b3"

definition be64 :: "byte \<Rightarrow> byte \<Rightarrow> byte \<Rightarrow> byte \<Rightarrow> byte \<Rightarrow> byte \<Rightarrow> byte \<Rightarrow> byte \<Rightarrow> u64" where
  "be64 b2 b3 b4 b5 b6 b7 b8 b9 =
     push_bit 56 (ucast b2) OR push_bit 48 (ucast b3) OR push_bit 40 (ucast b4)
     OR push_bit 32 (ucast b5) OR push_bit 24 (ucast b6) OR push_bit 16 (ucast b7)
     OR push_bit 8 (ucast b8) OR ucast b9"

definition str_bytes :: "byte list \<Rightarrow> nat \<Rightarrow> nat \<Rightarrow> byte list res" where
  "str_bytes data pos n =
     (if pos + n \<le> Suc (length data) then Inr (take n (drop pos (data @ [0])))
      else Inl OutOfBounds)"

fun be_value :: "byte list \<Rightarrow> u64" where
  "be_value [b2, b3] = be16 b2 b3"
| "be_value [b2, b3, b4, b5, b6, b7, b8, b9] = be64 b2 b3 b4 b5 b6 b7 b8 b9"
| "be_value _ = 0"

definition unmask :: "byte list \<Rightarrow> byte list \<Rightarrow> byte list" where
  "unmask key data = map (\<lambda>i. data ! i XOR key ! (i mod 4)) [0..<length data]"

definition ParseWebSocketFrame :: "byte list \<Rightarrow> WebSocketFrame res" where
  "ParseWebSocketFrame data =
     and_then (str_byte data 0) (\<lambda>b0. and_then (str_byte data 1) (\<lambda>b1.
       let has_mask = (b1 AND 0x80 \<noteq> 0); len7 = (ucast (b1 AND 0x7F) :: u64) in
       and_then
         (if len7 = 126 then and_then (str_bytes data 2 2) (\<lambda>bs. Inr (be_value bs, 4))
          else if len7 = 127 then and_then (str_bytes data 2 8) (\<lambda>bs. Inr (be_value bs, 10))
          else Inr (len7, 2))
         (\<lambda>(len, offset).
            and_then
              (if has_mask
               then and_then (str_bytes data offset 4) (\<lambda>key. Inr (Some key, offset + 4))
               else Inr (None, offset))
              (\<lambda>(key, offset).
                 if offset \<le> length data
                 then Inr \<lparr>fin = (b0 AND 0x80 \<noteq> 0), opcode = b0 AND 0x0F,
                           mask_flag = has_mask, payload_length = len, masking_key = key,
                           payload_data =
                             (case key of None \<Rightarrow> drop offset data
                              | Some k \<Rightarrow> unmask k (drop offset data))\<rparr>
                 else Inl OutOfBounds))))"

section \<open>Cutting frames out of the receive buffer\<close>

text \<open>
  The length computation at the head of the loop: the header length (the mask
  key included) and the payload length, \<open>None\<close> when the header is incomplete.
\<close>

definition frame_header :: "byte list \<Rightarrow> (u64 \<times> u64) option" where
  "frame_header buf =
     (if length buf < 2 then None
      else let len7 = (ucast (buf ! 1 AND 0x7F) :: u64);
               mask_len = (if buf ! 1 AND 0x80 \<noteq> 0 then 4 else 0 :: u64) in
        if len7 = 126 then
          (if length buf < 4 then None
           else Some (4 + mask_len, be16 (buf ! 2) (buf ! 3)))
        else if len7 = 127 then
          (if length buf < 10 then None
           else Some (10 + mask_len, be64 (buf ! 2) (buf ! 3) (buf ! 4) (buf ! 5)
                                          (buf ! 6) (buf ! 7) (buf ! 8) (buf ! 9)))
        else Some (2 + mask_len, len7))"

text \<open>One round of the loop: the frame cut off and the buffer left, or \<open>None\<close>: wait.\<close>

definition next_frame :: "byte list \<Rightarrow> (byte list \<times> byte list) option" where
  "next_frame buf =
     (case frame_header buf of
        None \<Rightarrow> None
      | Some (header_length, payload_len) \<Rightarrow>
          let total_frame_length = header_length + payload_len in
          if length buf < unat total_frame_length then None
          else Some (take (unat total_frame_length) buf, drop (unat total_frame_length) buf))"

text \<open>The whole loop: the frames handed to the thread pool, and the buffer left.\<close>

partial_function (option) drain_frames ::
    "byte list \<Rightarrow> byte list list \<Rightarrow> (byte list list \<times> byte list) option" where
  "drain_frames buf tasks =
     (if buf = [] then Some (tasks, buf)
      else (case next_frame buf of
              None \<Rightarrow> Some (tasks, buf)
            | Some (frame_data, rest) \<Rightarrow> drain_frames rest (tasks @ [frame_data])))"

text \<open>A loop of the source with an input that arrives in two reads.\<close>

definition feed_frames ::
    "byte list \<Rightarrow> byte list \<Rightarrow> (byte list list \<times> byte list) option" where
  "feed_frames incomplete_frame_buffer input =
     drain_frames (incomplete_frame_buffer @ input) []"

section \<open>The sid of a cookie, the handshake\<close>

definition ExtractSid :: "string \<Rightarrow> string" where
  "ExtractSid input =
     (case str_find ''sid='' input of
        None \<Rightarrow> []
      | Some i \<Rightarrow>
          let sid_start = i + 4;
              sid_end = (case find_first_of '' &;'' input sid_start of
                           None \<Rightarrow> length input | Some e \<Rightarrow> e)
          in take (sid_end - sid_start) (drop sid_start input))"

text \<open>\<open>SHA1\<close> is OpenSSL's digest; \<open>junk\<close> the encoder's uninitialised array.\<close>

definition GenerateWebSocketHandshakeResponse ::
    "(byte list \<Rightarrow> byte list) \<Rightarrow> byte list \<Rightarrow> string \<Rightarrow> string res" where
  "GenerateWebSocketHandshakeResponse SHA1 junk key =
     (let accept_key = key @ ''258EAFA5-E914-47DA-95CA-C5AB0DC85B11'' in
      and_then (base64_encode_ptr junk (SHA1 (bytes_of accept_key)) 20) (\<lambda>accept.
        Inr (''HTTP/1.1 101 Switching Protocols'' @ CRLF
             @ ''Upgrade: websocket'' @ CRLF
             @ ''Connection: Upgrade'' @ CRLF
             @ ''Sec-WebSocket-Accept: '' @ accept @ CRLF @ CRLF)))"

section \<open>Big-endian lengths\<close>

lemma len_byte_mask: "len_byte n i = ucast (drop_bit (8 * i) n)"
proof -
  have "drop_bit (8 * i) n AND 0xFF = take_bit 8 (drop_bit (8 * i) n)"
    by (simp add: take_bit_eq_mask mask_eq_exp_minus_1)
  then show ?thesis
    unfolding len_byte_def by (intro bit_word_eqI) (auto simp: bit_simps)
qed

lemma bit_len_byte: "bit (len_byte n i) k \<longleftrightarrow> k < 8 \<and> bit n (8 * i + k)"
  by (auto simp: len_byte_mask bit_simps)

lemma be64_len_bytes:
  "be64 (len_byte n 7) (len_byte n 6) (len_byte n 5) (len_byte n 4)
        (len_byte n 3) (len_byte n 2) (len_byte n 1) (len_byte n 0) = n"
proof (rule bit_word_eqI)
  fix k assume "k < LENGTH(64)"
  then have "k < 64" by simp
  then consider "k < 8" | "8 \<le> k \<and> k < 16" | "16 \<le> k \<and> k < 24" | "24 \<le> k \<and> k < 32"
    | "32 \<le> k \<and> k < 40" | "40 \<le> k \<and> k < 48" | "48 \<le> k \<and> k < 56" | "56 \<le> k \<and> k < 64"
    by arith
  then show "bit (be64 (len_byte n 7) (len_byte n 6) (len_byte n 5) (len_byte n 4)
        (len_byte n 3) (len_byte n 2) (len_byte n 1) (len_byte n 0)) k = bit n k"
    by cases (auto simp: be64_def bit_simps bit_len_byte)
qed

lemma be16_len_bytes:
  assumes "n \<le> 65535"
  shows "be16 (len_byte n 1) (len_byte n 0) = n"
proof (rule bit_word_eqI)
  fix k assume "k < LENGTH(64)"
  then have k: "k < 64" by simp
  have high: "\<not> bit n k" if "16 \<le> k"
  proof -
    have "unat n < 2 ^ 16" using assms by (simp add: word_le_nat_alt)
    then have "unat (take_bit 16 n) = unat n"
      by (simp add: unsigned_take_bit_eq take_bit_nat_eq_self)
    then have "take_bit 16 n = n" by (simp only: unsigned_word_eqI)
    then show ?thesis using that by (metis bit_take_bit_iff not_less)
  qed
  consider "k < 8" | "8 \<le> k \<and> k < 16" | "16 \<le> k" by arith
  then show "bit (be16 (len_byte n 1) (len_byte n 0)) k = bit n k"
    by cases (use k high in \<open>auto simp: be16_def bit_simps bit_len_byte\<close>)
qed

section \<open>The wire format of RFC 6455\<close>

text \<open>
  The reference encoder: final flag, opcode, an optional four-byte mask key and
  the payload. A client's frames carry a key, a server's do not.
\<close>

definition ws_length_field :: "bool \<Rightarrow> u64 \<Rightarrow> byte list" where
  "ws_length_field m n =
     (let mb = (if m then 0x80 else 0) in
      if n \<le> 125 then [mb OR ucast n]
      else if n \<le> 65535 then [mb OR 126, len_byte n 1, len_byte n 0]
      else (mb OR 127) # map (len_byte n) [7, 6, 5, 4, 3, 2, 1, 0])"

fun ws_mask :: "byte list \<Rightarrow> byte list \<Rightarrow> byte list" where
  "ws_mask key [] = []"
| "ws_mask key (b # bs) = (b XOR hd key) # ws_mask (rotate1 key) bs"

definition ws_body :: "byte list option \<Rightarrow> byte list \<Rightarrow> byte list" where
  "ws_body key payload =
     (case key of None \<Rightarrow> payload | Some k \<Rightarrow> k @ ws_mask k payload)"

definition wire_frame :: "bool \<Rightarrow> byte \<Rightarrow> byte list option \<Rightarrow> byte list \<Rightarrow> byte list" where
  "wire_frame f op key payload =
     [(if f then 0x80 else 0) OR (op AND 0x0F)]
     @ ws_length_field (key \<noteq> None) (word_of_nat (length payload))
     @ ws_body key payload"

definition ws_key_ok :: "byte list option \<Rightarrow> bool" where
  "ws_key_ok key = (case key of None \<Rightarrow> True | Some k \<Rightarrow> length k = 4)"

definition ws_mask_len :: "byte list option \<Rightarrow> nat" where
  "ws_mask_len key = (case key of None \<Rightarrow> 0 | Some k \<Rightarrow> 4)"

definition ws_hdr_len :: "byte list option \<Rightarrow> nat \<Rightarrow> nat" where
  "ws_hdr_len key n = (if n \<le> 125 then 2 else if n \<le> 65535 then 4 else 10) + ws_mask_len key"

lemma byte_0x80: "(0x80 :: byte) = NOT (mask 7)" and byte_0x7F: "(0x7F :: byte) = mask 7"
  by (simp_all add: mask_eq_exp_minus_1)

lemma byte_low7: "b \<le> 0x7F \<Longrightarrow> b AND mask 7 = (b :: byte)"
proof -
  assume "b \<le> 0x7F"
  then have "unat b < 2 ^ 7" by (simp add: word_le_nat_alt)
  then have "unat (b AND mask 7) = unat b" by (simp add: unat_and_mask)
  then show ?thesis by (simp only: unsigned_word_eqI)
qed

lemma len_byte_fields:
  fixes b :: byte
  assumes "b \<le> 0x7F"
  shows "((if m then 0x80 else 0) OR b) AND 0x7F = b"
    and "((if m then 0x80 else 0) OR b) AND 0x80 \<noteq> 0 \<longleftrightarrow> m"
proof -
  note low = byte_low7 [OF assms]
  have clear: "b AND NOT (mask 7) = 0"
    by (subst low [symmetric]) (simp add: and.assoc)
  show "((if m then 0x80 else 0) OR b) AND 0x7F = b"
    unfolding byte_0x80 byte_0x7F by (simp add: low bit.conj_disj_distrib2)
  have "NOT (mask 7) \<noteq> (0 :: byte)" by (simp add: mask_eq_exp_minus_1)
  then show "((if m then 0x80 else 0) OR b) AND 0x80 \<noteq> 0 \<longleftrightarrow> m"
    unfolding byte_0x80 by (simp add: clear bit.conj_disj_distrib2)
qed

lemma opcode_fields:
  fixes op :: byte
  shows "((if f then 0x80 else 0) OR (op AND 0x0F)) AND 0x0F = op AND 0x0F"
    and "((if f then 0x80 else 0) OR (op AND 0x0F)) AND 0x80 \<noteq> 0 \<longleftrightarrow> f"
  by (simp_all add: bit.conj_disj_distrib2 and.assoc)

lemma ucast_small_u64:
  assumes "(n :: u64) \<le> 125"
  shows "(ucast (ucast n :: byte) :: u64) = n" and "(ucast n :: byte) \<le> 0x7F"
proof -
  have n: "unat n \<le> 125" using assms by (simp add: word_le_nat_alt)
  then have u: "unat (ucast n :: byte) = unat n" by (simp add: unsigned_ucast_eq take_bit_eq_mod)
  have "unat (ucast b :: u64) = unat b" for b :: byte
  proof -
    have "unat b < 2 ^ 64" by (rule less_le_trans [OF unat_byte_less]) simp
    then show ?thesis by (simp add: unsigned_ucast_eq take_bit_eq_mod)
  qed
  with u have "unat (ucast (ucast n :: byte) :: u64) = unat n" by (simp only:)
  then show "(ucast (ucast n :: byte) :: u64) = n" by (simp only: unsigned_word_eqI)
  show "(ucast n :: byte) \<le> 0x7F" using n u by (simp add: word_le_nat_alt)
qed

lemma length_ws_mask [simp]: "length (ws_mask k xs) = length xs"
  by (induction xs arbitrary: k) simp_all

lemma ws_mask_nth:
  "k \<noteq> [] \<Longrightarrow> i < length xs \<Longrightarrow> ws_mask k xs ! i = xs ! i XOR k ! (i mod length k)"
proof (induction xs arbitrary: k i)
  case (Cons b bs)
  show ?case
  proof (cases i)
    case 0
    with Cons.prems show ?thesis by (simp add: hd_conv_nth)
  next
    case (Suc j)
    with Cons.prems have "ws_mask (rotate1 k) bs ! j = bs ! j XOR rotate1 k ! (j mod length k)"
      using Cons.IH [of "rotate1 k" j] by simp
    moreover have "rotate1 k ! (j mod length k) = k ! (Suc j mod length k)"
      using Cons.prems(1) nth_rotate1 [of "j mod length k" k] by (simp add: mod_Suc_eq)
    ultimately show ?thesis using Suc by simp
  qed
qed simp

lemma unmask_ws_mask:
  assumes "length k = 4"
  shows "unmask k (ws_mask k xs) = xs"
proof -
  have "k \<noteq> []" using assms by auto
  then show ?thesis
    by (intro nth_equalityI) (simp_all add: unmask_def ws_mask_nth assms xor.assoc)
qed

lemma length_unmask [simp]: "length (unmask k xs) = length xs"
  by (simp add: unmask_def)

lemma Build_is_wire: "BuildWebSocketFrame payload op = wire_frame True op None payload"
  by (simp add: BuildWebSocketFrame_def wire_frame_def ws_length_field_def ws_body_def Let_def)

lemma payload_len_le:
  "n < 2 ^ 64 \<Longrightarrow> (word_of_nat n :: u64) \<le> 125 \<longleftrightarrow> n \<le> 125"
  "n < 2 ^ 64 \<Longrightarrow> (word_of_nat n :: u64) \<le> 65535 \<longleftrightarrow> n \<le> 65535"
  by (simp_all add: word_le_nat_alt unat_of_nat)

text \<open>The three shapes of the length field, for a payload of \<open>n\<close> bytes.\<close>

lemma length_field_cases:
  assumes "n < 2 ^ 64"
  obtains (short) "n \<le> 125"
      "ws_length_field m (word_of_nat n) = [(if m then 0x80 else 0) OR ucast (word_of_nat n :: u64)]"
  | (medium) "125 < n" "n \<le> 65535"
      "ws_length_field m (word_of_nat n) =
         [(if m then 0x80 else 0) OR 126, len_byte (word_of_nat n) 1, len_byte (word_of_nat n) 0]"
  | (long) "65535 < n"
      "ws_length_field m (word_of_nat n) =
         ((if m then 0x80 else 0) OR 127) # map (len_byte (word_of_nat n)) [7, 6, 5, 4, 3, 2, 1, 0]"
  using assms payload_len_le [of n]
  by (cases "n \<le> 125"; cases "n \<le> 65535") (auto simp: ws_length_field_def Let_def)

lemma short_len_neq:
  assumes "(n :: u64) \<le> 125"
  shows "n \<noteq> 126" and "n \<noteq> 127"
  using assms by (auto simp: word_le_nat_alt)

lemma length_wire_frame:
  assumes "length payload < 2 ^ 64" and "ws_key_ok key"
  shows "length (wire_frame f op key payload) = ws_hdr_len key (length payload) + length payload"
proof -
  have body: "length (ws_body key payload) = ws_mask_len key + length payload"
    using assms(2) by (auto simp: ws_body_def ws_mask_len_def ws_key_ok_def split: option.splits)
  from assms(1) show ?thesis
    by (cases rule: length_field_cases [where m = "key \<noteq> None"])
      (simp_all add: body wire_frame_def ws_hdr_len_def)
qed

lemma frame_header_wire:
  assumes "length payload < 2 ^ 64"
  shows "frame_header (wire_frame f op key payload @ rest) =
     Some (word_of_nat (ws_hdr_len key (length payload)), word_of_nat (length payload))"
  using assms
proof (cases rule: length_field_cases [where m = "key \<noteq> None"])
  case short
  have le: "(word_of_nat (length payload) :: u64) \<le> 125"
    using short(1) payload_len_le [OF assms] by simp
  note fields = len_byte_fields [OF ucast_small_u64(2) [OF le], of "key \<noteq> None"]
  show ?thesis using short fields ucast_small_u64(1) [OF le] short_len_neq [OF le]
    by (auto simp: frame_header_def wire_frame_def Let_def ws_hdr_len_def ws_mask_len_def
             split: option.splits)
next
  case medium
  have le: "(word_of_nat (length payload) :: u64) \<le> 65535"
    using medium(2) payload_len_le [OF assms] by simp
  note fields = len_byte_fields [of 126 "key \<noteq> None"]
  show ?thesis using medium fields be16_len_bytes [OF le]
    by (auto simp: frame_header_def wire_frame_def Let_def ws_hdr_len_def ws_mask_len_def
             split: option.splits)
next
  case long
  note fields = len_byte_fields [of 127 "key \<noteq> None"]
  show ?thesis using long fields be64_len_bytes [of "word_of_nat (length payload)"]
    by (auto simp: frame_header_def wire_frame_def Let_def ws_hdr_len_def ws_mask_len_def
             split: option.splits)
qed

lemma ws_hdr_len_le: "ws_hdr_len key n \<le> 14" and ws_hdr_len_ge: "2 \<le> ws_hdr_len key n"
  by (auto simp: ws_hdr_len_def ws_mask_len_def split: option.splits)

lemma next_frame_wire:
  assumes "length payload + 14 < 2 ^ 64" and "ws_key_ok key"
  shows "next_frame (wire_frame f op key payload @ rest) = Some (wire_frame f op key payload, rest)"
proof -
  let ?n = "length payload" let ?h = "ws_hdr_len key ?n"
  have n: "?n < 2 ^ 64" using assms(1) by simp
  have h: "?h \<le> 14" by (rule ws_hdr_len_le)
  have "unat (word_of_nat ?h :: u64) = ?h" "unat (word_of_nat ?n :: u64) = ?n"
    using h n by (simp_all add: unat_of_nat)
  then have "unat (word_of_nat ?h + word_of_nat ?n :: u64) = ?h + ?n"
    using h assms(1) by (simp add: unat_add_small)
  with frame_header_wire [OF n] length_wire_frame [OF n assms(2), of f op] show ?thesis
    by (simp add: next_frame_def Let_def)
qed

lemma str_bytes_append [simp]:
  "length xs = pos \<Longrightarrow> length ys = n \<Longrightarrow> str_bytes (xs @ ys @ zs) pos n = Inr ys"
  by (simp add: str_bytes_def)

definition parsed_frame :: "bool \<Rightarrow> byte \<Rightarrow> byte list option \<Rightarrow> byte list \<Rightarrow> WebSocketFrame" where
  "parsed_frame f op key payload =
     \<lparr>fin = f, opcode = op AND 0x0F, mask_flag = (key \<noteq> None),
      payload_length = word_of_nat (length payload), masking_key = key, payload_data = payload\<rparr>"

text \<open>
  The part of the parser after the length field: from \<open>offset\<close> on, \<open>data\<close> holds
  the key (if any) and the payload.
\<close>

definition parse_tail ::
    "byte list \<Rightarrow> byte \<Rightarrow> bool \<Rightarrow> u64 \<times> nat \<Rightarrow> WebSocketFrame res" where
  "parse_tail data b0 has_mask lo =
     (case lo of (len, offset) \<Rightarrow>
       and_then
         (if has_mask
          then and_then (str_bytes data offset 4) (\<lambda>key. Inr (Some key, offset + 4))
          else Inr (None, offset))
         (\<lambda>(key, offset).
            if offset \<le> length data
            then Inr \<lparr>fin = (b0 AND 0x80 \<noteq> 0), opcode = b0 AND 0x0F,
                      mask_flag = has_mask, payload_length = len, masking_key = key,
                      payload_data =
                        (case key of None \<Rightarrow> drop offset data
                         | Some k \<Rightarrow> unmask k (drop offset data))\<rparr>
            else Inl OutOfBounds))"

lemma Parse_tail:
  "ParseWebSocketFrame data =
     and_then (str_byte data 0) (\<lambda>b0. and_then (str_byte data 1) (\<lambda>b1.
       let len7 = (ucast (b1 AND 0x7F) :: u64) in
       and_then
         (if len7 = 126 then and_then (str_bytes data 2 2) (\<lambda>bs. Inr (be_value bs, 4))
          else if len7 = 127 then and_then (str_bytes data 2 8) (\<lambda>bs. Inr (be_value bs, 10))
          else Inr (len7, 2))
         (parse_tail data b0 (b1 AND 0x80 \<noteq> 0))))"
  by (simp add: ParseWebSocketFrame_def parse_tail_def [abs_def] Let_def)

lemma parse_tail_wire:
  assumes "ws_key_ok key" and "length hdr = offset"
    and "b0 AND 0x0F = op AND 0x0F" and "(b0 AND 0x80 \<noteq> 0) = f"
  shows "parse_tail (hdr @ ws_body key payload) b0 (key \<noteq> None) (word_of_nat (length payload), offset)
         = Inr (parsed_frame f op key payload)"
proof (cases key)
  case None
  with assms show ?thesis
    by (simp add: parse_tail_def ws_body_def parsed_frame_def)
next
  case (Some k)
  with assms have k: "length k = 4" by (simp add: ws_key_ok_def)
  with Some assms show ?thesis
    by (simp add: parse_tail_def ws_body_def parsed_frame_def unmask_ws_mask)
qed

text \<open>Parsing data whose extended length field is \<open>ext\<close>.\<close>

lemma Parse_from_fields:
  fixes n :: u64
  assumes data: "data = ([b0, b1] @ ext) @ ws_body key payload"
    and key: "ws_key_ok key" "(b1 AND 0x80 \<noteq> 0) = (key \<noteq> None)"
    and op: "b0 AND 0x0F = op AND 0x0F" "(b0 AND 0x80 \<noteq> 0) = f"
    and len7: "(ucast (b1 AND 0x7F) :: u64) = len7"
    and ext: "len7 = 126 \<and> length ext = 2 \<and> be_value ext = n
      \<or> len7 = 127 \<and> length ext = 8 \<and> be_value ext = n
      \<or> len7 \<noteq> 126 \<and> len7 \<noteq> 127 \<and> ext = [] \<and> len7 = n"
    and n: "n = word_of_nat (length payload)"
  shows "ParseWebSocketFrame data = Inr (parsed_frame f op key payload)"
proof -
  have b: "str_byte data 0 = Inr b0" "str_byte data 1 = Inr b1"
    by (simp_all add: data str_byte_def)
  have bs: "str_bytes data 2 (length ext) = Inr ext"
    unfolding data append_assoc by (rule str_bytes_append) simp_all
  have tail: "parse_tail data b0 (b1 AND 0x80 \<noteq> 0) (n, off) = Inr (parsed_frame f op key payload)"
    if "2 + length ext = off" for off
    unfolding data key(2) n by (rule parse_tail_wire) (simp_all add: key op flip: that)
  from ext show ?thesis
    using b bs tail [of 2] tail [of 4] tail [of 10] len7 by (auto simp: Parse_tail Let_def)
qed

lemma ParseWebSocketFrame_wire:
  assumes "length payload < 2 ^ 64" and "ws_key_ok key"
  shows "ParseWebSocketFrame (wire_frame f op key payload) = Inr (parsed_frame f op key payload)"
  using assms(1)
proof (cases rule: length_field_cases [where m = "key \<noteq> None"])
  case short
  have le: "(word_of_nat (length payload) :: u64) \<le> 125"
    using short(1) payload_len_le [OF assms(1)] by simp
  note fields = len_byte_fields [OF ucast_small_u64(2) [OF le], of "key \<noteq> None"]
  show ?thesis
    by (rule Parse_from_fields [OF _ assms(2) fields(2) opcode_fields refl _ refl, where ext = "[]"])
      (simp_all only: wire_frame_def short append.simps fields ucast_small_u64 [OF le]
         short_len_neq [OF le] simp_thms)
next
  case medium
  have le: "(word_of_nat (length payload) :: u64) \<le> 65535"
    using medium(2) payload_len_le [OF assms(1)] by simp
  note fields = len_byte_fields [of 126 "key \<noteq> None"]
  show ?thesis
    by (rule Parse_from_fields [OF _ assms(2) fields(2) opcode_fields refl _ refl,
          where ext = "[len_byte (word_of_nat (length payload)) 1, len_byte (word_of_nat (length payload)) 0]"])
      (simp_all only: wire_frame_def medium, simp_all add: fields(1) be16_len_bytes [OF le, simplified])
next
  case long
  note fields = len_byte_fields [of 127 "key \<noteq> None"]
  show ?thesis
    by (rule Parse_from_fields [OF _ assms(2) fields(2) opcode_fields refl _ refl,
          where ext = "map (len_byte (word_of_nat (length payload))) [7, 6, 5, 4, 3, 2, 1, 0]"])
      (simp_all only: wire_frame_def long, simp_all add: fields(1) be64_len_bytes [simplified])
qed

section \<open>The loop\<close>

lemma frame_header_append:
  "frame_header a = Some x \<Longrightarrow> frame_header (a @ b) = Some x"
  by (auto simp: frame_header_def Let_def nth_append split: if_splits)

lemma next_frame_append:
  "next_frame a = Some (f, r) \<Longrightarrow> next_frame (a @ b) = Some (f, r @ b)"
  by (auto simp: next_frame_def Let_def frame_header_append split: option.splits prod.splits if_splits)

lemma next_frame_split: "next_frame buf = Some (f, r) \<Longrightarrow> buf = f @ r"
  by (auto simp: next_frame_def Let_def split: option.splits prod.splits if_splits)

lemma next_frame_nonempty: "next_frame buf = Some (f, r) \<Longrightarrow> buf \<noteq> []"
  by (auto simp: next_frame_def frame_header_def)

lemma drain_frames_stop:
  "buf = [] \<or> next_frame buf = None \<Longrightarrow> drain_frames buf tasks = Some (tasks, buf)"
  by (subst drain_frames.simps) auto

lemma drain_frames_step:
  "next_frame buf = Some (f, r) \<Longrightarrow> drain_frames buf tasks = drain_frames r (tasks @ [f])"
  by (subst drain_frames.simps) (simp add: next_frame_nonempty)

text \<open>
  What the loop computes, as a relation: the frames cut off in order, and a rest
  from which no further frame can be cut.
\<close>

inductive cuts :: "byte list \<Rightarrow> byte list list \<Rightarrow> byte list \<Rightarrow> bool" where
  stop: "buf = [] \<or> next_frame buf = None \<Longrightarrow> cuts buf [] buf"
| step: "next_frame buf = Some (f, r) \<Longrightarrow> cuts r fs rest \<Longrightarrow> cuts buf (f # fs) rest"

inductive_cases cuts_elim: "cuts buf fs rest"

lemma cuts_drain: "cuts buf fs rest \<Longrightarrow> drain_frames buf tasks = Some (tasks @ fs, rest)"
  by (induction arbitrary: tasks rule: cuts.induct) (simp_all add: drain_frames_stop drain_frames_step)

lemma drain_cuts:
  assumes "drain_frames buf tasks = Some r"
  shows "\<exists>fs. fst r = tasks @ fs \<and> cuts buf fs (snd r)"
proof (rule drain_frames.raw_induct
    [where P = "\<lambda>buf tasks r. \<exists>fs. fst r = tasks @ fs \<and> cuts buf fs (snd r)", OF _ assms])
  fix f :: "byte list \<Rightarrow> byte list list \<Rightarrow> (byte list list \<times> byte list) option" and buf tasks r
  assume IH: "\<And>buf tasks r. f buf tasks = Some r \<Longrightarrow> \<exists>fs. fst r = tasks @ fs \<and> cuts buf fs (snd r)"
    and eq: "(if buf = [] then Some (tasks, buf)
      else case next_frame buf of None \<Rightarrow> Some (tasks, buf)
           | Some (frame_data, rest) \<Rightarrow> f rest (tasks @ [frame_data])) = Some r"
  show "\<exists>fs. fst r = tasks @ fs \<and> cuts buf fs (snd r)"
  proof (cases "buf = [] \<or> next_frame buf = None")
    case True
    with eq have "r = (tasks, buf)" by (auto split: if_splits)
    with True show ?thesis by (auto intro: cuts.stop)
  next
    case False
    then obtain g q where g: "next_frame buf = Some (g, q)" by auto
    with False eq have "f q (tasks @ [g]) = Some r" by simp
    from IH [OF this] obtain fs where "fst r = tasks @ [g] @ fs" "cuts q fs (snd r)" by auto
    with g show ?thesis by (auto intro: cuts.step)
  qed
qed

lemma drain_iff: "drain_frames buf [] = Some (fs, rest) \<longleftrightarrow> cuts buf fs rest"
  using drain_cuts [of buf "[]"] cuts_drain [of buf fs rest "[]"] by auto

lemma cuts_concat: "cuts buf fs rest \<Longrightarrow> buf = concat fs @ rest"
  by (induction rule: cuts.induct) (auto dest: next_frame_split)

lemma cuts_rest: "cuts buf fs rest \<Longrightarrow> rest = [] \<or> next_frame rest = None"
  by (induction rule: cuts.induct) auto

lemma cuts_append: "cuts a fs r \<Longrightarrow> cuts (r @ b) gs r' \<Longrightarrow> cuts (a @ b) (fs @ gs) r'"
proof (induction rule: cuts.induct)
  case (step buf f r fs rest)
  then show ?case by (auto intro: cuts.step dest: next_frame_append)
qed simp

lemma cuts_ex:
  assumes "\<And>k. next_frame (drop k buf) \<noteq> Some ([], drop k buf)"
  shows "\<exists>fs rest. cuts buf fs rest"
  using assms
proof (induction buf rule: length_induct)
  case (1 buf)
  show ?case
  proof (cases "buf = [] \<or> next_frame buf = None")
    case True
    then show ?thesis by (auto intro: cuts.stop)
  next
    case False
    then obtain f r where fr: "next_frame buf = Some (f, r)" by auto
    then have split: "buf = f @ r" by (rule next_frame_split)
    with fr 1(2) [of 0] have "f \<noteq> []" by auto
    with split have "length r < length buf" by simp
    moreover have "next_frame (drop k r) \<noteq> Some ([], drop k r)" for k
      using 1(2) [of "length f + k"] by (simp add: split)
    ultimately obtain fs rest where "cuts r fs rest" using 1(1) by blast
    with fr show ?thesis by (auto intro: cuts.step)
  qed
qed

lemma parse_tail_ok:
  assumes "offset + (if m then 4 else 0) + n = length data"
  shows "\<exists>fr. parse_tail data b0 m (len, offset) = Inr fr \<and> payload_length fr = len
              \<and> length (payload_data fr) = n"
  using assms by (auto simp: parse_tail_def str_bytes_def)

lemma str_byte_nth: "i < length data \<Longrightarrow> str_byte data i = Inr (data ! i)"
  by (simp add: str_byte_def)

lemma str_bytes_2: "4 \<le> length data \<Longrightarrow> str_bytes data 2 2 = Inr [data ! 2, data ! 3]"
  by (auto simp: str_bytes_def nth_append intro!: nth_equalityI simp: less_Suc_eq numeral_eq_Suc)

lemma str_bytes_8:
  "10 \<le> length data \<Longrightarrow> str_bytes data 2 8 =
     Inr [data ! 2, data ! 3, data ! 4, data ! 5, data ! 6, data ! 7, data ! 8, data ! 9]"
  by (auto simp: str_bytes_def nth_append intro!: nth_equalityI simp: less_Suc_eq numeral_eq_Suc)

lemma unat_header_lengths [simp]:
  "unat (2 + (if m then 4 else 0) :: u64) = 2 + (if m then 4 else 0)"
  "unat (4 + (if m then 4 else 0) :: u64) = 4 + (if m then 4 else 0)"
  "unat (10 + (if m then 4 else 0) :: u64) = 10 + (if m then 4 else 0)"
  by simp_all

lemma Parse_ok:
  assumes hd: "frame_header data = Some (hl, pl)" and len: "length data = unat hl + unat pl"
  shows "\<exists>fr. ParseWebSocketFrame data = Inr fr \<and> payload_length fr = pl
              \<and> length (payload_data fr) = unat pl"
proof -
  let ?m = "data ! 1 AND 0x80 \<noteq> 0" and ?len7 = "ucast (data ! 1 AND 0x7F) :: u64"
  have two: "2 \<le> length data" using hd by (auto simp: frame_header_def split: if_splits)
  have b: "str_byte data 0 = Inr (data ! 0)" "str_byte data 1 = Inr (data ! 1)"
    using two by (auto intro!: str_byte_nth)
  consider (medium) "?len7 = 126" "4 \<le> length data" "hl = 4 + (if ?m then 4 else 0)"
        "pl = be16 (data ! 2) (data ! 3)"
    | (long) "?len7 = 127" "10 \<le> length data" "hl = 10 + (if ?m then 4 else 0)"
        "pl = be64 (data ! 2) (data ! 3) (data ! 4) (data ! 5) (data ! 6) (data ! 7) (data ! 8) (data ! 9)"
    | (short) "?len7 \<noteq> 126" "?len7 \<noteq> 127" "hl = 2 + (if ?m then 4 else 0)" "pl = ?len7"
    using hd two by (auto simp: frame_header_def Let_def split: if_splits)
  then show ?thesis
  proof cases
    case medium
    with parse_tail_ok [of 4 ?m "unat pl" data] len show ?thesis
      by (simp only: Parse_tail b str_bytes_2 and_then_simps be_value.simps Let_def unat_header_lengths) simp
  next
    case long
    with parse_tail_ok [of 10 ?m "unat pl" data] len show ?thesis
      by (simp only: Parse_tail b str_bytes_8 and_then_simps be_value.simps Let_def unat_header_lengths) simp
  next
    case short
    with parse_tail_ok [of 2 ?m "unat pl" data] len show ?thesis
      by (simp only: Parse_tail b and_then_simps Let_def if_False unat_header_lengths)
  qed
qed

lemma frame_header_length: "frame_header buf = Some (hl, pl) \<Longrightarrow> unat hl \<le> 14"
  by (auto simp: frame_header_def Let_def split: if_splits)

lemma frame_header_prefix:
  assumes "frame_header (f @ r) = Some (hl, pl)" and "unat hl \<le> length f"
  shows "frame_header f = Some (hl, pl)"
proof -
  have "2 \<le> length f" using assms by (auto simp: frame_header_def Let_def split: if_splits)
  then show ?thesis
    using assms by (auto simp: frame_header_def Let_def nth_append split: if_splits)
qed

lemma hang_not_cuts: "cuts buf fs rest \<Longrightarrow> next_frame buf \<noteq> Some ([], buf)"
  by (induction rule: cuts.induct) (auto dest: next_frame_nonempty)

section \<open>Properties\<close>

lemma server_frame_parses:
  assumes "length payload < 2 ^ 64"
  shows "ParseWebSocketFrame (BuildWebSocketFrame payload op) =
           Inr \<lparr>fin = True, opcode = op AND 0x0F, mask_flag = False,
                payload_length = word_of_nat (length payload), masking_key = None,
                payload_data = payload\<rparr>"
  using ParseWebSocketFrame_wire [OF assms, of None True op]
  by (simp add: Build_is_wire parsed_frame_def ws_key_ok_def)

text \<open>
  C8: What the server sends is what a peer reads: for every payload the machine
  can hold, parsing the frame built by \<^verbatim>\<open>BuildWebSocketFrame\<close> succeeds and gives
  a final, unmasked frame with the low four bits of the opcode, the payload's
  length in the field and the payload itself, through all three length encodings.
\<close>

theorem ws_server_frame_roundtrip:
  assumes "length payload < 2 ^ 64"
  shows "ParseWebSocketFrame (BuildWebSocketFrame payload op) =
           Inr \<lparr>fin = True, opcode = op AND 0x0F, mask_flag = False,
                payload_length = word_of_nat (length payload), masking_key = None,
                payload_data = payload\<rparr>"
  using assms by (rule server_frame_parses)

theorem ws_server_frame_roundtrip_witness:
  "ParseWebSocketFrame (BuildWebSocketFrame [104, 105] 1) =
     Inr \<lparr>fin = True, opcode = 1, mask_flag = False, payload_length = 2,
          masking_key = None, payload_data = [104, 105]\<rparr>"
  using ws_server_frame_roundtrip [of "[104, 105]" 1] by simp

definition client_frame_ok :: "bool \<times> byte \<times> byte list \<times> byte list \<Rightarrow> bool" where
  "client_frame_ok m = (case m of (f, op, key, payload) \<Rightarrow>
     length key = 4 \<and> length payload + 14 < 2 ^ 64)"

definition client_frame :: "bool \<times> byte \<times> byte list \<times> byte list \<Rightarrow> byte list" where
  "client_frame m = (case m of (f, op, key, payload) \<Rightarrow> wire_frame f op (Some key) payload)"

definition client_parsed :: "bool \<times> byte \<times> byte list \<times> byte list \<Rightarrow> WebSocketFrame" where
  "client_parsed m = (case m of (f, op, key, payload) \<Rightarrow>
     \<lparr>fin = f, opcode = op AND 0x0F, mask_flag = True,
      payload_length = word_of_nat (length payload), masking_key = Some key,
      payload_data = payload\<rparr>)"

lemma client_frame_cuts: "list_all client_frame_ok ms \<Longrightarrow> cuts (concat (map client_frame ms)) (map client_frame ms) []"
proof (induction ms)
  case Nil
  then show ?case by (auto intro: cuts.stop)
next
  case (Cons m ms)
  obtain f op key payload where m: "m = (f, op, key, payload)" by (cases m) auto
  have "next_frame (client_frame m @ concat (map client_frame ms)) =
          Some (client_frame m, concat (map client_frame ms))"
    using Cons.prems next_frame_wire [of payload "Some key" f op]
    by (simp add: m client_frame_def client_frame_ok_def ws_key_ok_def)
  with Cons show ?case by (auto intro: cuts.step)
qed

lemma client_frame_parses:
  assumes "client_frame_ok m"
  shows "ParseWebSocketFrame (client_frame m) = Inr (client_parsed m)"
proof -
  obtain f op key payload where m: "m = (f, op, key, payload)" by (cases m) auto
  with assms have "ws_key_ok (Some key)" "length payload < 2 ^ 64"
    by (auto simp: client_frame_ok_def ws_key_ok_def)
  then show ?thesis
    by (simp add: m client_frame_def client_parsed_def ParseWebSocketFrame_wire parsed_frame_def)
qed

text \<open>
  C4: Decoding of a pipelined stream of client frames. Whatever final flags,
  opcodes, mask keys and payloads the client uses, the receive loop cuts the
  concatenation of its RFC 6455 frames back into exactly those frames, in
  order and with nothing left over, and each of them parses to its unmasked
  payload.
\<close>

theorem ws_client_stream_decoded:
  assumes "list_all client_frame_ok ms"
  shows "drain_frames (concat (map client_frame ms)) [] = Some (map client_frame ms, []) \<and>
         map ParseWebSocketFrame (map client_frame ms) = map (\<lambda>m. Inr (client_parsed m)) ms"
  using assms client_frame_cuts [OF assms]
  by (simp add: drain_iff client_frame_parses list_all_iff)

theorem ws_client_stream_decoded_witness:
  "drain_frames (client_frame (True, 1, [1, 2, 3, 4], [7, 8, 9, 10, 11])
                 @ client_frame (True, 8, [9, 9, 9, 9], [])) [] =
     Some ([client_frame (True, 1, [1, 2, 3, 4], [7, 8, 9, 10, 11]),
            client_frame (True, 8, [9, 9, 9, 9], [])], [])"
  using ws_client_stream_decoded
    [of "[(True, 1, [1, 2, 3, 4], [7, 8, 9, 10, 11]), (True, 8, [9, 9, 9, 9], [])]"]
  by (simp add: client_frame_ok_def)

text \<open>
  C5: The loop does not depend on how TCP cut the stream. If the loop handles a
  first read and then a second one with the buffer the first left behind, it
  hands out the same frames and keeps the same rest as if both reads had arrived
  as one, for arbitrary (also malformed) bytes.
\<close>

theorem ws_reads_compose:
  assumes "feed_frames buf a = Some (fs, r)" and "feed_frames r b = Some (gs, r')"
  shows "feed_frames buf (a @ b) = Some (fs @ gs, r')"
proof -
  have "cuts (buf @ a) fs r" "cuts (r @ b) gs r'"
    using assms by (simp_all add: feed_frames_def drain_iff)
  then have "cuts ((buf @ a) @ b) (fs @ gs) r'" by (rule cuts_append)
  then show ?thesis by (simp add: feed_frames_def drain_iff)
qed

lemma feed_example:
  "feed_frames [] [0x81, 0x82, 1] = Some ([], [0x81, 0x82, 1])"
  "feed_frames [0x81, 0x82, 1] [2, 3, 4, 5, 6] = Some ([[0x81, 0x82, 1, 2, 3, 4, 5, 6]], [])"
  by (simp_all add: feed_frames_def drain_iff)
     (auto intro!: cuts.stop cuts.step simp: next_frame_def frame_header_def)

theorem ws_reads_compose_witness:
  "feed_frames [] ([0x81, 0x82, 1] @ [2, 3, 4, 5, 6]) = Some ([] @ [[0x81, 0x82, 1, 2, 3, 4, 5, 6]], [])"
  by (rule ws_reads_compose [OF feed_example(1) feed_example(2)])

text \<open>
  C6: Total correctness of the loop. On every buffer in which no position starts
  a frame of total length zero, the loop returns; the frames it hands out and
  the rest it keeps are, in order, exactly the bytes of the buffer; and no
  complete frame is left in the rest.
\<close>

theorem ws_loop_returns:
  assumes "\<And>k. next_frame (drop k buf) \<noteq> Some ([], drop k buf)"
  shows "\<exists>fs rest. drain_frames buf [] = Some (fs, rest) \<and> concat fs @ rest = buf \<and>
           (rest = [] \<or> next_frame rest = None)"
  using cuts_ex [OF assms] cuts_concat cuts_rest drain_iff by metis

theorem ws_loop_returns_witness:
  "\<exists>fs rest. drain_frames [0x81, 0x01, 65, 0x89] [] = Some (fs, rest) \<and>
     concat fs @ rest = [0x81, 0x01, 65, 0x89] \<and> (rest = [] \<or> next_frame rest = None)"
proof (rule ws_loop_returns)
  fix k :: nat
  consider "k = 0" | "k = 1" | "k = 2" | "k = 3" | "4 \<le> k" by arith
  then show "next_frame (drop k [0x81, 0x01, 65, 0x89]) \<noteq> Some ([], drop k [0x81, 0x01, 65, 0x89])"
    by cases (simp_all add: next_frame_def frame_header_def)
qed

definition wrap_frame :: "byte list" where
  "wrap_frame = [0x81, 0xFF, 0xFF, 0xFF, 0xFF, 0xFF, 0xFF, 0xFF, 0xFF, 0xF2]"

lemma wrap_frame_zero: "next_frame (wrap_frame @ further) = Some ([], wrap_frame @ further)"
  by (simp add: wrap_frame_def next_frame_def frame_header_def be64_def)

text \<open>
  The total frame length is computed in 64 bits and wraps: a frame whose
  length field makes header and payload add up to zero modulo \<open>2 ^ 64\<close> is cut off
  as the empty string and the buffer is left as it was, so the loop never
  returns. Ten bytes from a client are enough (\<open>81 FF FF FF FF FF FF FF FF F2\<close>).
\<close>

theorem ws_loop_hangs_on_wrap:
  "drain_frames (wrap_frame @ further) tasks = None"
proof (rule ccontr)
  assume "drain_frames (wrap_frame @ further) tasks \<noteq> None"
  then obtain fs rest where "cuts (wrap_frame @ further) fs rest" by (auto dest: drain_cuts)
  then show False using hang_not_cuts wrap_frame_zero by blast
qed

text \<open>
  C7: Memory safety of the parser on what the loop hands out. When header and
  payload length of the frame at the front of the buffer do not wrap, the frame
  cut off is read by \<^verbatim>\<open>ParseWebSocketFrame\<close> without any access outside the
  string, and the parsed payload has exactly the length of the length field.
\<close>

theorem ws_cut_frame_parses:
  assumes "next_frame buf = Some (f, r)" and "frame_header buf = Some (hl, pl)"
    and "unat hl + unat pl < 2 ^ 64"
  shows "\<exists>fr. ParseWebSocketFrame f = Inr fr \<and> payload_length fr = pl \<and>
              length (payload_data fr) = unat pl"
proof -
  have total: "unat (hl + pl) = unat hl + unat pl" using assms(3) by (simp add: unat_add_small)
  with assms(1,2) have len: "length f = unat hl + unat pl"
    by (auto simp: next_frame_def Let_def split: if_splits)
  have "frame_header f = Some (hl, pl)"
    using assms(2) next_frame_split [OF assms(1)] len by (auto intro: frame_header_prefix)
  then show ?thesis using len by (rule Parse_ok)
qed

theorem ws_cut_frame_parses_witness:
  "\<exists>fr. ParseWebSocketFrame [0x81, 0x01, 65] = Inr fr \<and> payload_length fr = 1 \<and>
        length (payload_data fr) = 1"
  using ws_cut_frame_parses [of "[0x81, 0x01, 65, 0x89]" "[0x81, 0x01, 65]" "[0x89]" 2 1]
  by (simp add: next_frame_def frame_header_def)

end
