(* ===== verification/CometHttp.thy ===== *)
theory CometHttp
  imports LogicClient
begin

text \<open>
  The HTTP side of the comet server: \<^verbatim>\<open>ConnectionManager\<close> of \<^verbatim>\<open>chat-room/main.cc\<close>, the
  header parser and the choice of protocol in \<^verbatim>\<open>service/http_handler.h\<close>, and the
  account requests of \<^verbatim>\<open>service/http_conn.cc\<close>.
\<close>

section \<open>Connection ids\<close>

record 'h ConnectionManager =
  m_next_id :: u32
  m_connections :: "(u32 \<times> 'h) list"

definition newConnectionManager :: "'h ConnectionManager" where
  "newConnectionManager = \<lparr>m_next_id = 1, m_connections = []\<rparr>"

definition AddConnection :: "'h \<Rightarrow> 'h ConnectionManager \<Rightarrow> u32 \<times> 'h ConnectionManager" where
  "AddConnection h cm =
     (m_next_id cm,
      cm\<lparr>m_next_id := m_next_id cm + 1,
         m_connections := AList.update (m_next_id cm) h (m_connections cm)\<rparr>)"

definition RemoveConnection :: "u32 \<Rightarrow> 'h ConnectionManager \<Rightarrow> 'h ConnectionManager" where
  "RemoveConnection cid cm = cm\<lparr>m_connections := AList.delete cid (m_connections cm)\<rparr>"

definition GetConnection :: "u32 \<Rightarrow> 'h ConnectionManager \<Rightarrow> 'h option" where
  "GetConnection cid cm = map_of (m_connections cm) cid"

definition GetConnectionCount :: "'h ConnectionManager \<Rightarrow> nat" where
  "GetConnectionCount cm = length (m_connections cm)"

section \<open>Headers and the choice of protocol\<close>

text \<open>Repeated \<^verbatim>\<open>std::getline\<close>: the pieces between newlines, without an empty last one.\<close>

fun getlines :: "string \<Rightarrow> string list" where
  "getlines [] = []"
| "getlines (c # cs) =
     (if c = CHR 0x0A then [] # getlines cs
      else case getlines cs of
             [] \<Rightarrow> [[c]]
           | l # ls \<Rightarrow> (c # l) # ls)"

type_synonym headers = "string \<rightharpoonup> string"

definition header_kv :: "string \<Rightarrow> (string \<times> string) option res" where
  "header_kv line =
     (case str_find '':'' line of
        None \<Rightarrow> Inr None
      | Some colon \<Rightarrow>
          and_then (substr line (colon + 2) (size_sub (size_sub (length line) colon) 3))
            (\<lambda>v. Inr (Some (take colon line, v))))"

fun header_lines :: "string list \<Rightarrow> headers \<Rightarrow> headers res" where
  "header_lines [] h = Inr h"
| "header_lines (line # ls) h =
     (if line = [CHR 0x0D] then Inr h
      else and_then (header_kv line) (\<lambda>kv.
             header_lines ls (case kv of None \<Rightarrow> h | Some (k, v) \<Rightarrow> h(k \<mapsto> v))))"

definition parseHttpHeaders :: "string \<Rightarrow> headers res" where
  "parseHttpHeaders request = header_lines (getlines request) Map.empty"

definition to_lower :: "char \<Rightarrow> char" where
  "to_lower c = (let n = (of_char c :: nat) in if 65 \<le> n \<and> n \<le> 90 then char_of (n + 32) else c)"

definition isWebSocketRequest :: "headers \<Rightarrow> bool" where
  "isWebSocketRequest h =
     (case (h ''Upgrade'', h ''Connection'') of
        (Some upgrade, Some connection) \<Rightarrow>
          map to_lower upgrade = ''websocket'' \<and> str_find ''upgrade'' (map to_lower connection) \<noteq> None
      | _ \<Rightarrow> False)"

datatype RequestType = UNKNOWN | HTTP | WEBSOCKET

text \<open>The first read of a connection decides; the headers of that read are kept.\<close>

record HttpHandler =
  request_type :: RequestType
  req_headers :: headers

definition newHttpHandler :: HttpHandler where
  "newHttpHandler = \<lparr>request_type = UNKNOWN, req_headers = Map.empty\<rparr>"

definition HttpHandler_classify :: "string \<Rightarrow> HttpHandler \<Rightarrow> HttpHandler res" where
  "HttpHandler_classify buf h =
     (if request_type h = UNKNOWN
      then and_then (parseHttpHeaders buf) (\<lambda>hs.
             Inr \<lparr>request_type = (if isWebSocketRequest hs then WEBSOCKET else HTTP), req_headers = hs\<rparr>)
      else Inr h)"

section \<open>Account requests\<close>

definition HTTP_RESPONSE_JSON_MAX :: nat where "HTTP_RESPONSE_JSON_MAX = 4096"

definition http_with_code :: "nat \<Rightarrow> string \<Rightarrow> nat \<Rightarrow> string \<Rightarrow> string" where
  "http_with_code code msg len body =
     ''HTTP/1.1 '' @ dec code @ '' '' @ msg @ CRLF @ ''Connection:close'' @ CRLF
     @ ''Content-Length:'' @ dec len @ CRLF
     @ ''Content-Type:application/json;charset=utf-8'' @ CRLF @ CRLF @ body"

definition http_with_cookie :: "nat \<Rightarrow> string \<Rightarrow> string \<Rightarrow> nat \<Rightarrow> string \<Rightarrow> string" where
  "http_with_cookie code msg sid len body =
     ''HTTP/1.1 '' @ dec code @ '' '' @ msg @ CRLF @ ''Connection:close'' @ CRLF
     @ ''set-cookie: sid='' @ sid @ ''; HttpOnly; Max-Age=86400; SameSite=Strict'' @ CRLF
     @ ''Content-Length:'' @ dec len @ CRLF
     @ ''Content-Type:application/json;charset=utf-8'' @ CRLF @ CRLF @ body"

text \<open>\<^verbatim>\<open>snprintf\<close> into a buffer of \<open>n\<close> bytes, then \<^verbatim>\<open>send\<close> of the C string.\<close>

definition snprintf :: "nat \<Rightarrow> string \<Rightarrow> string" where
  "snprintf n s = c_str (take (n - 1) s)"

definition HandleRegisterRequest :: "http \<Rightarrow> string \<Rightarrow> string \<Rightarrow> string" where
  "HandleRegisterRequest http logic_server_addr post_data =
     (let (ret, response_json) = registerUser http logic_server_addr post_data [] in
      snprintf HTTP_RESPONSE_JSON_MAX
        (if ret = 0 then http_with_cookie 204 ''No content'' (c_str response_json) 0 []
         else http_with_code 400 ''Bad Request'' (length response_json) (c_str response_json)))"

definition HandleLoginRequest :: "http \<Rightarrow> string \<Rightarrow> string \<Rightarrow> string" where
  "HandleLoginRequest http logic_server_addr post_data =
     (let (ret, response_json) = loginUser http logic_server_addr post_data [] in
      snprintf HTTP_RESPONSE_JSON_MAX
        (if ret = 0 then http_with_cookie 204 ''No Content'' (c_str response_json) 0 []
         else http_with_code 400 ''Bad Request'' (length response_json) (c_str response_json)))"

definition unknown_url_response :: string where
  "unknown_url_response =
     (let json = ''{'' @ [CHR 0x22] @ ''code'' @ [CHR 0x22] @ '': 1}'' in
      snprintf 256
        (''HTTP/1.1 404 OK'' @ CRLF @ ''Connection:close'' @ CRLF
         @ ''Content-Length:'' @ dec (length json) @ CRLF
         @ ''Content-Type:application/json;charset=utf-8'' @ CRLF @ CRLF @ json))"

section \<open>Lemmas\<close>

lemma getlines_line:
  assumes "CHR 0x0A \<notin> set l"
  shows "getlines (l @ CHR 0x0A # rest) = l # getlines rest"
  using assms by (induction l) auto

lemma str_find_colon:
  assumes "CHR '':'' \<notin> set k"
  shows "str_find '':'' (k @ '':'' @ t) = Some (length k)"
  using assms by (induction k) (auto simp: starts_with_def)

lemma header_kv_line:
  assumes "CHR '':'' \<notin> set k" "length v < 2 ^ 63" "length k < 2 ^ 63"
  shows "header_kv (k @ '': '' @ v @ [CHR 0x0D]) = Inr (Some (k, v))"
  using str_find_colon [OF assms(1), of "'' '' @ v @ [CHR 0x0D]"] assms(2,3)
  by (simp add: header_kv_def substr_def size_sub_def)

lemma header_kv_none: "CHR '':'' \<notin> set l \<Longrightarrow> header_kv l = Inr None"
proof -
  assume "CHR '':'' \<notin> set l"
  then have "str_find '':'' l = None" by (induction l) (auto simp: starts_with_def)
  then show ?thesis by (simp add: header_kv_def)
qed

text \<open>The header block of a request.\<close>

definition header_text :: "(string \<times> string) list \<Rightarrow> string" where
  "header_text kvs = concat (map (\<lambda>(k, v). k @ '': '' @ v @ CRLF) kvs)"

definition header_ok :: "string \<times> string \<Rightarrow> bool" where
  "header_ok kv \<longleftrightarrow> CHR '':'' \<notin> set (fst kv) \<and> CHR 0x0A \<notin> set (fst kv) \<and> CHR 0x0A \<notin> set (snd kv)
     \<and> length (fst kv) < 2 ^ 63 \<and> length (snd kv) < 2 ^ 63"

lemma header_lines_text:
  "list_all header_ok kvs \<Longrightarrow>
     header_lines (getlines (header_text kvs @ CRLF @ rest)) h = Inr (h ++ map_of (rev kvs))"
proof (induction kvs arbitrary: h)
  case Nil
  then show ?case using getlines_line [of "[CHR 0x0D]" rest] by (simp add: header_text_def CRLF_def)
next
  case (Cons kv kvs)
  obtain k v where kv: "kv = (k, v)" by (cases kv)
  let ?l = "k @ '': '' @ v @ [CHR 0x0D]"
  have ok: "CHR '':'' \<notin> set k" "CHR 0x0A \<notin> set ?l" "length v < 2 ^ 63" "length k < 2 ^ 63"
    using Cons.prems kv by (auto simp: header_ok_def)
  have "getlines (header_text (kv # kvs) @ CRLF @ rest) = ?l # getlines (header_text kvs @ CRLF @ rest)"
    using getlines_line [OF ok(2), of "header_text kvs @ CRLF @ rest"]
    by (simp add: header_text_def kv CRLF_def)
  moreover have "?l \<noteq> [CHR 0x0D]" by (cases k) auto
  ultimately show ?case
    using Cons header_kv_line [OF ok(1,3,4)] kv
    by (simp add: map_add_upd_left map_add_def fun_eq_iff split: option.splits)
qed

definition ids_below :: "'h ConnectionManager \<Rightarrow> bool" where
  "ids_below cm \<longleftrightarrow> distinct (map fst (m_connections cm))
     \<and> (\<forall>cid\<in>fst ` set (m_connections cm). unat cid < unat (m_next_id cm))"

lemma update_new: "k \<notin> fst ` set m \<Longrightarrow> AList.update k v m = m @ [(k, v)]"
  by (induction m) auto

lemma connection_ids_step:
  assumes "ids_below cm" "unat (m_next_id cm) < 2 ^ 32 - 1" "AddConnection h cm = (cid, cm')"
  shows "ids_below cm' \<and> GetConnectionCount cm' = Suc (GetConnectionCount cm)
    \<and> GetConnection cid cm = None
    \<and> (\<forall>k. GetConnection k cm' = (if k = cid then Some h else GetConnection k cm))
    \<and> ids_below (RemoveConnection k cm)"
proof -
  have new: "m_next_id cm \<notin> fst ` set (m_connections cm)" using assms(1) by (auto simp: ids_below_def)
  have nx: "unat (m_next_id cm + 1) = Suc (unat (m_next_id cm))"
    using assms(2) by (subst unat_add_small) simp_all
  have "set (map fst (AList.delete k (m_connections cm))) \<subseteq> set (map fst (m_connections cm))"
    "distinct (map fst (m_connections cm)) \<Longrightarrow> distinct (map fst (AList.delete k (m_connections cm)))"
    unfolding delete_keys by (auto simp: distinct_removeAll)
  then have sub: "fst ` set (m_connections (RemoveConnection k cm)) \<subseteq> fst ` set (m_connections cm)"
    and dst: "distinct (map fst (m_connections cm)) \<Longrightarrow> distinct (map fst (m_connections (RemoveConnection k cm)))"
    and nxt: "m_next_id (RemoveConnection k cm) = m_next_id cm" by (simp_all add: RemoveConnection_def)
  have del: "ids_below (RemoveConnection k cm)"
    unfolding ids_below_def nxt
  proof (intro conjI ballI)
    show "distinct (map fst (m_connections (RemoveConnection k cm)))"
      using assms(1) by (intro dst) (simp only: ids_below_def)
    show "unat j < unat (m_next_id cm)" if "j \<in> fst ` set (m_connections (RemoveConnection k cm))" for j
      using subsetD [OF sub that] assms(1) unfolding ids_below_def by blast
  qed
  have cm': "cid = m_next_id cm" "m_next_id cm' = m_next_id cm + 1"
    "m_connections cm' = m_connections cm @ [(m_next_id cm, h)]"
    using assms(3) update_new [OF new] by (auto simp: AddConnection_def)
  have "map_of (m_connections cm) (m_next_id cm) = None" using new by (simp add: map_of_eq_None_iff)
  moreover have "ids_below cm'"
    using assms(1) new nx by (auto simp: ids_below_def cm' less_Suc_eq)
  ultimately show ?thesis
    using del by (auto simp: cm' GetConnectionCount_def GetConnection_def map_add_def split: option.splits)
qed

section \<open>Properties\<close>

text \<open>
  The header parser reads back the headers of a request: for any request
  line without a colon, any headers and any bytes after the empty line, each
  name has the value of its last header line, and no other name has one.
\<close>

theorem headers_roundtrip:
  assumes "CHR '':'' \<notin> set line" "CHR 0x0A \<notin> set line" "line \<noteq> []" "list_all header_ok kvs"
  shows "parseHttpHeaders (line @ CRLF @ header_text kvs @ CRLF @ rest) = Inr (map_of (rev kvs))"
proof -
  have "getlines (line @ CRLF @ header_text kvs @ CRLF @ rest)
      = (line @ [CHR 0x0D]) # getlines (header_text kvs @ CRLF @ rest)"
    using getlines_line [of "line @ [CHR 0x0D]" "header_text kvs @ CRLF @ rest"] assms(2)
    by (simp add: CRLF_def)
  moreover have "header_kv (line @ [CHR 0x0D]) = Inr None"
    using assms(1) by (intro header_kv_none) simp
  ultimately show ?thesis
    using header_lines_text [OF assms(4), of rest Map.empty] assms(3)
    by (simp add: parseHttpHeaders_def)
qed

theorem headers_roundtrip_witness:
  "parseHttpHeaders (''GET / HTTP/1.1'' @ CRLF
      @ header_text [(''Upgrade'', ''websocket''), (''Connection'', ''Upgrade'')] @ CRLF)
     = Inr (map_of [(''Connection'', ''Upgrade''), (''Upgrade'', ''websocket'')])"
  using headers_roundtrip [of "''GET / HTTP/1.1''"
      "[(''Upgrade'', ''websocket''), (''Connection'', ''Upgrade'')]" "[]"]
  by (simp add: header_ok_def)

text \<open>
  As long as fewer than \<open>2 ^ 32\<close> connections have been accepted, a new one
  gets an id that no live connection has: it is found under its id, every other
  connection is found as before, and the count grows by one.
\<close>

theorem connection_ids_fresh:
  assumes "ids_below cm" "unat (m_next_id cm) < 2 ^ 32 - 1" "AddConnection h cm = (cid, cm')"
  shows "ids_below cm' \<and> GetConnectionCount cm' = Suc (GetConnectionCount cm)
    \<and> GetConnection cid cm = None
    \<and> (\<forall>k. GetConnection k cm' = (if k = cid then Some h else GetConnection k cm))"
  using connection_ids_step [OF assms] by blast

theorem connection_ids_fresh_witness:
  "GetConnection 1 (snd (AddConnection ''h'' newConnectionManager)) = Some ''h''"
  using connection_ids_fresh [of newConnectionManager "''h''" 1 "snd (AddConnection ''h'' newConnectionManager)"]
  by (simp add: ids_below_def newConnectionManager_def AddConnection_def)

end
