(* ===== verification/Comet.thy ===== *)
theory Comet
  imports WebSocketFrame PubSub CometHttp
begin

text \<open>
  The comet server: \<^verbatim>\<open>CWebSocketConn\<close> of \<^verbatim>\<open>chat-room/service/websocket_conn.cc\<close> (handshake,
  authentication, client frames, disconnect), the gRPC service of
  \<^verbatim>\<open>rpc/comet_service.cc\<close> and the room initialisation of \<^verbatim>\<open>main.cc\<close>. The state holds the
  objects the threads share: the connections, \<^verbatim>\<open>s_user_ws_conn_map\<close>, the
  \<^verbatim>\<open>PubSubService\<close>, the queue of the thread pool, and the bytes sent to each TCP connection.
  Every callback, pool task and RPC is one step; \<open>comet_reach\<close> lets them happen in
  any order, so that tasks of the pool overtake each other as they do with several threads.
\<close>

section \<open>State\<close>

type_synonym conn_id = u32

record CWebSocketConn =
  c_user_id :: string
  c_username :: string
  handshake_completed :: bool
  rooms_map :: "string \<rightharpoonup> Room"
  incomplete_frame_buffer :: "byte list"
  stats_total_messages :: u64
  stats_total_bytes :: u64
  c_headers :: headers

definition newCWebSocketConn :: "headers \<Rightarrow> CWebSocketConn" where
  "newCWebSocketConn h =
     \<lparr>c_user_id = [], c_username = [], handshake_completed = False, rooms_map = Map.empty,
      incomplete_frame_buffer = [], stats_total_messages = 0, stats_total_bytes = 0, c_headers = h\<rparr>"

record comet =
  conns :: "conn_id \<rightharpoonup> CWebSocketConn"
  s_user_ws_conn_map :: "(string \<times> conn_id) list"
  pubsub :: PubSubService
  pool_tasks :: "(conn_id \<times> byte list) list"
  tcp_open :: "conn_id \<Rightarrow> bool"
  outbox :: "(conn_id \<times> byte list) list"

record 'v comet_env =
  ce_json :: "'v json_api"
  ce_http :: http
  ce_url :: string                         \<comment> \<open>\<^verbatim>\<open>LogicConfig::getLogicServerUrl()\<close>\<close>
  ce_sha1 :: "byte list \<Rightarrow> byte list"
  ce_junk :: "byte list"                   \<comment> \<open>the uninitialised array of the base64 encoder\<close>

definition new_comet :: comet where
  "new_comet = \<lparr>conns = Map.empty, s_user_ws_conn_map = [], pubsub = newPubSubService, pool_tasks = [],
     tcp_open = (\<lambda>_. False), outbox = []\<rparr>"

text \<open>\<^verbatim>\<open>TcpConnection::send\<close> drops the data unless the connection is open.\<close>

definition tcp_send :: "conn_id \<Rightarrow> byte list \<Rightarrow> comet \<Rightarrow> comet" where
  "tcp_send cid data st =
     (if tcp_open st cid then st\<lparr>outbox := outbox st @ [(cid, data)]\<rparr> else st)"

definition tcp_shutdown :: "conn_id \<Rightarrow> comet \<Rightarrow> comet" where
  "tcp_shutdown cid st = st\<lparr>tcp_open := (tcp_open st)(cid := False)\<rparr>"

definition set_conn :: "conn_id \<Rightarrow> CWebSocketConn \<Rightarrow> comet \<Rightarrow> comet" where
  "set_conn cid c st = st\<lparr>conns := (conns st)(cid \<mapsto> c)\<rparr>"

section \<open>Leaving\<close>

definition close_payload :: "u16 \<Rightarrow> string \<Rightarrow> byte list" where
  "close_payload code reason =
     [ucast (drop_bit 8 code AND 0xFF), ucast (code AND 0xFF)] @ bytes_of reason"

definition SendCloseFrame :: "conn_id \<Rightarrow> u16 \<Rightarrow> string \<Rightarrow> comet \<Rightarrow> comet" where
  "SendCloseFrame cid code reason st = tcp_send cid (close_payload code reason) st"

definition Disconnect :: "conn_id \<Rightarrow> CWebSocketConn \<Rightarrow> comet \<Rightarrow> comet" where
  "Disconnect cid c st =
     (let st = tcp_shutdown cid (SendCloseFrame cid 1000 ''Normal closure'' st) in
      st\<lparr>s_user_ws_conn_map := AList.delete (c_user_id c) (s_user_ws_conn_map st)\<rparr>)"

section \<open>Hello\<close>

text \<open>\<^verbatim>\<open>for (i = 0; i < v.size(); ++i) v[i]\<close>: an index into an object throws.\<close>

definition jindex_elems :: "'v json_api \<Rightarrow> 'v \<Rightarrow> 'v list res" where
  "jindex_elems J v =
     (if jisobject J v \<and> jelems J v \<noteq> [] then Inl JsonError else Inr (jelems J v))"

definition local_room :: "string \<Rightarrow> string \<Rightarrow> Room" where
  "local_room rid name = \<lparr>r_room_id = rid, r_room_name = name, r_creator_id = [], r_create_time = [],
     r_update_time = [], r_history_last_message_id = []\<rparr>"

text \<open>The loop that joins the user to the rooms of the answer.\<close>

fun join_rooms :: "'v json_api \<Rightarrow> 'v list \<Rightarrow> CWebSocketConn \<times> PubSubService
    \<Rightarrow> unit res \<times> CWebSocketConn \<times> PubSubService" where
  "join_rooms J [] (c, ps) = (Inr (), c, ps)"
| "join_rooms J (room # rooms) (c, ps) =
     (case jmember J room ''id'' of
        Inl e \<Rightarrow> (Inl e, c, ps)
      | Inr False \<Rightarrow> join_rooms J rooms (c, ps)
      | Inr True \<Rightarrow>
          (case and_then (jget_string J room ''id'') (\<lambda>rid.
                  and_then (jget_default J room ''name'' (jstr J [])) (\<lambda>n.
                    and_then (jas_string J n) (\<lambda>name. Inr (rid, name)))) of
             Inl e \<Rightarrow> (Inl e, c, ps)
           | Inr (rid, name) \<Rightarrow>
               join_rooms J rooms
                 (c\<lparr>rooms_map := (rooms_map c)(rid \<mapsto> local_room rid name)\<rparr>,
                  snd (AddSubscriber rid (c_user_id c) ps))))"

definition hello_post_data :: "'v json_api \<Rightarrow> string \<Rightarrow> string \<Rightarrow> string" where
  "hello_post_data J uid uname =
     jwrite J (jobject J [(''userId'', jstr J uid), (''username'', jstr J uname)])"

text \<open>The rooms of the answer; none when the members are missing.\<close>

definition hello_rooms :: "'v json_api \<Rightarrow> 'v \<Rightarrow> 'v list res" where
  "hello_rooms J logic_response =
     and_then (jmember J logic_response ''payload'') (\<lambda>b.
       if \<not> b then Inr []
       else and_then (jget J logic_response ''payload'') (\<lambda>payload.
         and_then (jmember J payload ''rooms'') (\<lambda>b.
           if \<not> b then Inr []
           else and_then (jget J payload ''rooms'') (jindex_elems J))))"

definition SendHelloMessage :: "'v comet_env \<Rightarrow> conn_id \<Rightarrow> CWebSocketConn \<Rightarrow> comet \<Rightarrow> int res \<times> comet" where
  "SendHelloMessage E cid c st =
     (let J = ce_json E;
          (ok, response_json) = sendHttpRequest (ce_http E) (ce_url E @ ''/logic/hello'')
                                  (hello_post_data J (c_user_id c) (c_username c)) []
      in if \<not> ok then (Inr (- 1), st)
         else case jparse J response_json of
           None \<Rightarrow> (Inr (- 1), st)
         | Some logic_response \<Rightarrow>
             (case hello_rooms J logic_response of
                Inl e \<Rightarrow> (Inl e, st)
              | Inr rooms \<Rightarrow>
                  let (r, c, ps) = join_rooms J rooms (c, pubsub st);
                      st = set_conn cid c (st\<lparr>pubsub := ps\<rparr>)
                  in case r of
                       Inl e \<Rightarrow> (Inl e, st)
                     | Inr _ \<Rightarrow>
                         (Inr 0, tcp_send cid (BuildWebSocketFrame (bytes_of response_json) 0x01) st)))"

section \<open>The handshake\<close>

definition handshake_key :: "string \<Rightarrow> string option" where
  "handshake_key request =
     (case str_find ''Sec-WebSocket-Key: '' request of
        None \<Rightarrow> None
      | Some i \<Rightarrow>
          let key_start = i + 19 in
          Some (case str_find_from CRLF request key_start of
                  None \<Rightarrow> drop key_start request
                | Some key_end \<Rightarrow> take (key_end - key_start) (drop key_start request)))"

definition add_user :: "string \<Rightarrow> conn_id \<Rightarrow> (string \<times> conn_id) list \<Rightarrow> (string \<times> conn_id) list" where
  "add_user uid cid m = AList.update uid cid (AList.delete uid m)"

definition insert_rooms :: "Room list \<Rightarrow> (string \<rightharpoonup> Room) \<Rightarrow> (string \<rightharpoonup> Room)" where
  "insert_rooms rooms m =
     foldl (\<lambda>m r. if m (r_room_id r) = None then m(r_room_id r \<mapsto> r) else m) m rooms"

text \<open>The session id of the request and what the logic server says about it.\<close>

definition cookie_of :: "CWebSocketConn \<Rightarrow> string" where
  "cookie_of c = (case c_headers c ''Cookie'' of None \<Rightarrow> [] | Some v \<Rightarrow> v)"

definition sid_of :: "CWebSocketConn \<Rightarrow> string" where
  "sid_of c = (if cookie_of c \<noteq> [] then ExtractSid (cookie_of c) else [])"

definition auth_of :: "'v comet_env \<Rightarrow> CWebSocketConn \<Rightarrow> LogicAuthResult res" where
  "auth_of E c = verifyUserAuth (ce_json E) (ce_http E) (ce_url E) (sid_of c)"

text \<open>The connection after the handshake response, and after a successful login.\<close>

definition shaken :: "conn_id \<Rightarrow> CWebSocketConn \<Rightarrow> string \<Rightarrow> comet \<Rightarrow> comet" where
  "shaken cid c response st =
     set_conn cid (c\<lparr>handshake_completed := True\<rparr>) (tcp_send cid (bytes_of response) st)"

definition logged_in :: "LogicAuthResult \<Rightarrow> comet \<Rightarrow> CWebSocketConn \<Rightarrow> CWebSocketConn" where
  "logged_in a st c = c\<lparr>handshake_completed := True, c_user_id := user_id a, c_username := username a,
     rooms_map := insert_rooms (GetRoomList (pubsub st)) (rooms_map c)\<rparr>"

definition OnRead_handshake :: "'v comet_env \<Rightarrow> conn_id \<Rightarrow> CWebSocketConn \<Rightarrow> string \<Rightarrow> comet
    \<Rightarrow> unit res \<times> comet" where
  "OnRead_handshake E cid c request st =
     (case handshake_key request of None \<Rightarrow> (Inr (), st)
      | Some key \<Rightarrow>
          (case GenerateWebSocketHandshakeResponse (ce_sha1 E) (ce_junk E) key of
             Inl e \<Rightarrow> (Inl e, st)
           | Inr response \<Rightarrow>
               (case auth_of E c of
                  Inl e \<Rightarrow> (Inl e, shaken cid c response st)
                | Inr a \<Rightarrow>
                    if cookie_of c = [] \<or> \<not> success a
                    then (Inr (), SendCloseFrame cid 1008
                            (if error_message a = [] then ''Cookie validation failed'' else error_message a)
                            (shaken cid c response st))
                    else
                      let c' = logged_in a st c;
                          st1 = set_conn cid c' (shaken cid c response st
                                  \<lparr>s_user_ws_conn_map := add_user (user_id a) cid (s_user_ws_conn_map st)\<rparr>)
                      in (and_then (fst (SendHelloMessage E cid c' st1)) (\<lambda>_. Inr ()),
                          snd (SendHelloMessage E cid c' st1)))))"

section \<open>Client frames\<close>

definition HandleClientMessages :: "'v comet_env \<Rightarrow> CWebSocketConn \<Rightarrow> 'v \<Rightarrow> int res" where
  "HandleClientMessages E c root =
     and_then (handleSend (ce_json E) (ce_http E) (ce_url E) root (c_user_id c) (c_username c) [])
       (\<lambda>(ret, _). Inr ret)"

definition HandleRequestRoomHistory ::
    "'v comet_env \<Rightarrow> conn_id \<Rightarrow> CWebSocketConn \<Rightarrow> 'v \<Rightarrow> comet \<Rightarrow> int res \<times> comet" where
  "HandleRequestRoomHistory E cid c root st =
     (case handleRoomHistory (ce_json E) (ce_http E) (ce_url E) root (c_user_id c) (c_username c) [] of
        Inl e \<Rightarrow> (Inl e, st)
      | Inr (ret, response_json) \<Rightarrow>
          (Inr ret, if ret = 0 then tcp_send cid (BuildWebSocketFrame (bytes_of response_json) 0x01) st
                    else st))"

text \<open>What the answer of the logic server says about the room: \<open>None\<close> when its form is unexpected.\<close>

definition created_room :: "'v json_api \<Rightarrow> string \<Rightarrow> (string \<times> string) option res" where
  "created_room J response_json =
     (case jparse J response_json of
        None \<Rightarrow> Inr None
      | Some response_root \<Rightarrow>
          and_then (jmember J response_root ''type'') (\<lambda>b. if \<not> b then Inr None else
          and_then (jget_string J response_root ''type'') (\<lambda>t. if t \<noteq> ''serverCreateRoom'' then Inr None else
          and_then (jlacks J response_root ''payload'') (\<lambda>b. if b then Inr None else
          and_then (jget J response_root ''payload'') (\<lambda>payload.
          and_then (jmissing J payload [''roomId'', ''roomName'']) (\<lambda>b. if b then Inr None else
          and_then (jget_string J payload ''roomId'') (\<lambda>rid.
          and_then (jget_string J payload ''roomName'') (\<lambda>name. Inr (Some (rid, name))))))))))"

definition duplicate_room_json :: "'v json_api \<Rightarrow> string \<Rightarrow> string \<Rightarrow> string" where
  "duplicate_room_json J name uid =
     jwrite J (jobject J
       [(''type'', jstr J ''serverCreateRoom''),
        (''payload'', jobject J
           [(''roomId'', jstr J []), (''roomName'', jstr J name), (''creatorId'', jstr J uid)])])"

definition HandleClientCreateRoom ::
    "'v comet_env \<Rightarrow> conn_id \<Rightarrow> CWebSocketConn \<Rightarrow> 'v \<Rightarrow> comet \<Rightarrow> int res \<times> comet" where
  "HandleClientCreateRoom E cid c root st =
     (let J = ce_json E in
      case and_then (handleCreateRoom J (ce_http E) (ce_url E) root (c_user_id c) (c_username c) [])
             (\<lambda>(ret, response_json). if ret \<noteq> 0 then Inr None else created_room J response_json) of
        Inl e \<Rightarrow> (Inl e, st)
      | Inr None \<Rightarrow> (Inr (- 1), st)
      | Inr (Some (rid, name)) \<Rightarrow>
          (Inr 0, if rid = []
                  then tcp_send cid (BuildWebSocketFrame (bytes_of (duplicate_room_json J name (c_user_id c))) 0x01) st
                  else st))"

text \<open>The text frame: dispatch on the \<^verbatim>\<open>type\<close> member.\<close>

definition handle_text :: "'v comet_env \<Rightarrow> conn_id \<Rightarrow> CWebSocketConn \<Rightarrow> string \<Rightarrow> comet \<Rightarrow> unit res \<times> comet" where
  "handle_text E cid c payload st =
     (let J = ce_json E in
      case jparse J payload of
        None \<Rightarrow> (Inr (), st)
      | Some root \<Rightarrow>
          if \<not> jisobject J root then (Inr (), st)
          else case jget_null J root ''type'' of
            Inl e \<Rightarrow> (Inl e, st)
          | Inr True \<Rightarrow> (Inr (), st)
          | Inr False \<Rightarrow>
              (case jget_string J root ''type'' of
                 Inl e \<Rightarrow> (Inl e, st)
               | Inr type \<Rightarrow>
                   if type = ''clientMessages''
                   then (and_then (HandleClientMessages E c root) (\<lambda>_. Inr ()), st)
                   else if type = ''requestRoomHistory''
                   then let (r, st) = HandleRequestRoomHistory E cid c root st
                        in (and_then r (\<lambda>_. Inr ()), st)
                   else if type = ''clientCreateRoom''
                   then let (r, st) = HandleClientCreateRoom E cid c root st
                        in (and_then r (\<lambda>_. Inr ()), st)
                   else (Inr (), st)))"

text \<open>A task of the thread pool: one frame.\<close>

definition run_frame :: "'v comet_env \<Rightarrow> conn_id \<Rightarrow> CWebSocketConn \<Rightarrow> byte list \<Rightarrow> comet \<Rightarrow> unit res \<times> comet" where
  "run_frame E cid c frame_data st =
     (case ParseWebSocketFrame frame_data of
        Inl e \<Rightarrow> (Inl e, st)
      | Inr frame \<Rightarrow>
          let c = c\<lparr>stats_total_messages := stats_total_messages c + 1,
                    stats_total_bytes := stats_total_bytes c + word_of_nat (length (payload_data frame))\<rparr>;
              st = set_conn cid c st
          in if opcode frame = 0x01 then handle_text E cid c (string_of (payload_data frame)) st
             else if opcode frame = 0x08 then (Inr (), Disconnect cid c st)
             else (Inr (), st))"

text \<open>
  \<^verbatim>\<open>CWebSocketConn::OnRead\<close>. The frames that are complete become tasks of the pool;
  the result is \<open>None\<close> when the loop does not return.
\<close>

definition OnRead :: "'v comet_env \<Rightarrow> conn_id \<Rightarrow> CWebSocketConn \<Rightarrow> byte list \<Rightarrow> comet
    \<Rightarrow> (unit res \<times> comet) option" where
  "OnRead E cid c input st =
     (if \<not> handshake_completed c then Some (OnRead_handshake E cid c (string_of input) st)
      else map_option (\<lambda>(frames, rest).
             (Inr (), set_conn cid (c\<lparr>incomplete_frame_buffer := rest\<rparr>)
                        (st\<lparr>pool_tasks := pool_tasks st @ map (Pair cid) frames\<rparr>)))
             (feed_frames (incomplete_frame_buffer c) input))"

section \<open>The gRPC service\<close>

definition CometService_PushMsg :: "string list \<Rightarrow> string \<Rightarrow> comet \<Rightarrow> comet" where
  "CometService_PushMsg keys body st = st"

text \<open>The callback of \<^verbatim>\<open>BroadcastRoom\<close>.\<close>

definition send_to_users :: "byte list \<Rightarrow> string list \<Rightarrow> comet \<Rightarrow> comet" where
  "send_to_users ws_frame uids st =
     foldl (\<lambda>st uid. case map_of (s_user_ws_conn_map st) uid of
                       None \<Rightarrow> st | Some cid \<Rightarrow> tcp_send cid ws_frame st) st uids"

definition BroadcastRoom :: "string \<Rightarrow> string \<Rightarrow> comet \<Rightarrow> comet" where
  "BroadcastRoom rid body st =
     PubSubMessage rid (send_to_users (BuildWebSocketFrame (bytes_of body) 0x01)) (pubsub st) st"

text \<open>The room announced by a creation message; \<open>None\<close> when the message is not one.\<close>

definition announced_room :: "'v json_api \<Rightarrow> string \<Rightarrow> (string \<times> string \<times> string) option res" where
  "announced_room J message_json =
     (case jparse J message_json of
        None \<Rightarrow> Inr None
      | Some root \<Rightarrow>
          and_then (jget_string J root ''type'') (\<lambda>t.
          if t \<noteq> ''serverCreateRoom'' then Inr None else
          and_then (jget_null J root ''payload'') (\<lambda>b.
          if b then Inr None else
          and_then (jget J root ''payload'') (\<lambda>payload.
          and_then (jget_string J payload ''roomId'') (\<lambda>rid.
          and_then (jget_string J payload ''roomName'') (\<lambda>name.
          and_then (jget_string J payload ''creatorId'') (\<lambda>creator.
          and_then (jget_string J payload ''creatorUsername'') (\<lambda>_. Inr (Some (rid, name, creator))))))))))"

definition subscribe_all :: "string \<Rightarrow> string list \<Rightarrow> PubSubService \<Rightarrow> PubSubService" where
  "subscribe_all rid uids ps = foldl (\<lambda>ps uid. snd (AddSubscriber rid uid ps)) ps uids"

definition open_room :: "string \<times> string \<times> string \<Rightarrow> comet \<Rightarrow> comet" where
  "open_room room st =
     (let (rid, name, creator) = room;
          ps = snd (AddRoomTopic rid name creator (pubsub st));
          ps = subscribe_all rid (map fst (s_user_ws_conn_map st)) ps;
          ps = snd (AddRoom ((local_room rid name)\<lparr>r_creator_id := creator\<rparr>) ps)
      in st\<lparr>pubsub := ps\<rparr>)"

definition send_to_all :: "byte list \<Rightarrow> comet \<Rightarrow> comet" where
  "send_to_all ws_frame st = foldl (\<lambda>st (uid, cid). tcp_send cid ws_frame st) st (s_user_ws_conn_map st)"

definition Broadcast :: "'v json_api \<Rightarrow> int \<Rightarrow> string \<Rightarrow> comet \<Rightarrow> unit res \<times> comet" where
  "Broadcast J operation message_json st =
     (case (if operation = 5 then announced_room J message_json else Inr None) of
        Inl e \<Rightarrow> (Inl e, st)
      | Inr room \<Rightarrow>
          (Inr (), send_to_all (BuildWebSocketFrame (bytes_of message_json) 0x01)
                     (case room of None \<Rightarrow> st | Some r \<Rightarrow> open_room r st)))"

section \<open>Start-up\<close>

fun add_topics :: "'v json_api \<Rightarrow> 'v list \<Rightarrow> PubSubService \<Rightarrow> unit res \<times> PubSubService" where
  "add_topics J [] ps = (Inr (), ps)"
| "add_topics J (room # rooms) ps =
     (case jmissing J room [''id'', ''name''] of
        Inl e \<Rightarrow> (Inl e, ps)
      | Inr True \<Rightarrow> add_topics J rooms ps
      | Inr False \<Rightarrow>
          (case and_then (jget_string J room ''id'') (\<lambda>rid.
                  and_then (jget_string J room ''name'') (\<lambda>name. Inr (rid, name))) of
             Inl e \<Rightarrow> (Inl e, ps)
           | Inr (rid, name) \<Rightarrow> add_topics J rooms (snd (AddRoomTopic rid name ''1'' ps))))"

definition answered_rooms :: "'v json_api \<Rightarrow> 'v \<Rightarrow> 'v list option res" where
  "answered_rooms J logic_response =
     and_then (jmissing J logic_response [''rooms'', ''status'']) (\<lambda>b.
       if b then Inr None
       else and_then (jget_string J logic_response ''status'') (\<lambda>status.
         if status \<noteq> ''success'' then Inr None
         else and_then (jget J logic_response ''rooms'') (\<lambda>rooms.
           and_then (jindex_elems J rooms) (\<lambda>rs. Inr (Some rs)))))"

definition InitializeRoomSubscriptions :: "'v comet_env \<Rightarrow> PubSubService \<Rightarrow> int res \<times> PubSubService" where
  "InitializeRoomSubscriptions E ps =
     (let J = ce_json E;
          (ok, response_json) = sendHttpRequest (ce_http E) (ce_url E @ ''/logic/rooms'')
                                  (jwrite J (jobject J [(''type'', jstr J ''getAllRooms'')])) []
      in if \<not> ok then (Inr (- 1), ps)
         else case jparse J response_json of
           None \<Rightarrow> (Inr (- 1), ps)
         | Some logic_response \<Rightarrow>
             (case answered_rooms J logic_response of
                Inl e \<Rightarrow> (Inl e, ps)
              | Inr None \<Rightarrow> (Inr (- 1), ps)
              | Inr (Some rooms) \<Rightarrow>
                  let (r, ps) = add_topics J rooms ps in (and_then r (\<lambda>_. Inr 0), ps)))"

end
