(* ===== verification/CometReach.thy ===== *)
theory CometReach
  imports Comet
begin

text \<open>
  The comet server as a transition system: TCP connections are accepted and
  closed, bytes arrive, tasks of the thread pool run in any order, RPCs come in.
  Shown: which connections a user id can be attached to (only authenticated
  ones), what a room broadcast puts on which connection, that the handshake joins the user
  to the rooms it was told about, and what goes wrong after a refused
  authentication and on a stale disconnect.
\<close>

section \<open>Steps\<close>

inductive comet_step :: "'v comet_env \<Rightarrow> comet \<Rightarrow> comet \<Rightarrow> bool" for E where
  accept: "conns st cid = None \<Longrightarrow>
     comet_step E st (st\<lparr>conns := (conns st)(cid \<mapsto> newCWebSocketConn h),
                         tcp_open := (tcp_open st)(cid := True)\<rparr>)"
| read: "conns st cid = Some c \<Longrightarrow> OnRead E cid c input st = Some (r, st') \<Longrightarrow> comet_step E st st'"
| task: "pool_tasks st = before @ (cid, f) # rest \<Longrightarrow> conns st cid = Some c \<Longrightarrow>
     run_frame E cid c f (st\<lparr>pool_tasks := before @ rest\<rparr>) = (r, st') \<Longrightarrow> comet_step E st st'"
| room_rpc: "comet_step E st (BroadcastRoom rid body st)"
| all_rpc: "Broadcast (ce_json E) op body st = (r, st') \<Longrightarrow> comet_step E st st'"
| closed: "comet_step E st (tcp_shutdown cid st)"

inductive_cases comet_stepE: "comet_step E st st'"

inductive comet_reach :: "'v comet_env \<Rightarrow> comet \<Rightarrow> bool" for E where
  boot: "InitializeRoomSubscriptions E newPubSubService = (Inr 0, ps) \<Longrightarrow>
           comet_reach E (new_comet\<lparr>pubsub := ps\<rparr>)"
| step: "comet_reach E st \<Longrightarrow> comet_step E st st' \<Longrightarrow> comet_reach E st'"

section \<open>What the steps leave alone\<close>

definition authenticated :: "'v comet_env \<Rightarrow> string \<Rightarrow> bool" where
  "authenticated E uid \<longleftrightarrow> (\<exists>sid r. verifyUserAuth (ce_json E) (ce_http E) (ce_url E) sid = Inr r
     \<and> success r \<and> user_id r = uid)"

definition who :: "comet \<Rightarrow> conn_id \<rightharpoonup> bool \<times> string" where
  "who st cid = map_option (\<lambda>c. (handshake_completed c, c_user_id c)) (conns st cid)"

text \<open>Nobody changes identity and the user map stays.\<close>

definition same_users :: "comet \<Rightarrow> comet \<Rightarrow> bool" where
  "same_users st st' \<longleftrightarrow> who st' = who st \<and> s_user_ws_conn_map st' = s_user_ws_conn_map st"

lemma same_users_refl [simp, intro]: "same_users st st"
  by (simp add: same_users_def)

lemma same_users_trans: "same_users a b \<Longrightarrow> same_users b c \<Longrightarrow> same_users a c"
  by (simp add: same_users_def)

lemma tcp_send_simps [simp]:
  "conns (tcp_send cid d st) = conns st" "s_user_ws_conn_map (tcp_send cid d st) = s_user_ws_conn_map st"
  "pubsub (tcp_send cid d st) = pubsub st" "tcp_open (tcp_send cid d st) = tcp_open st"
  "pool_tasks (tcp_send cid d st) = pool_tasks st"
  by (simp_all add: tcp_send_def)

lemma tcp_shutdown_simps [simp]:
  "conns (tcp_shutdown cid st) = conns st"
  "s_user_ws_conn_map (tcp_shutdown cid st) = s_user_ws_conn_map st"
  "pubsub (tcp_shutdown cid st) = pubsub st"
  by (simp_all add: tcp_shutdown_def)

lemma set_conn_simps [simp]:
  "conns (set_conn cid c st) = (conns st)(cid \<mapsto> c)"
  "s_user_ws_conn_map (set_conn cid c st) = s_user_ws_conn_map st"
  "pubsub (set_conn cid c st) = pubsub st" "tcp_open (set_conn cid c st) = tcp_open st"
  "outbox (set_conn cid c st) = outbox st"
  by (simp_all add: set_conn_def)

lemma same_users_tcp [simp]: "same_users st (tcp_send cid d st)" "same_users st (tcp_shutdown cid st)"
  by (simp_all add: same_users_def who_def fun_eq_iff)

lemma same_users_set_conn:
  "conns st cid = Some c \<Longrightarrow> handshake_completed c' = handshake_completed c \<Longrightarrow>
     c_user_id c' = c_user_id c \<Longrightarrow> same_users st (set_conn cid c' st)"
  by (auto simp: same_users_def who_def fun_eq_iff)

lemma send_to_users_simps [simp]:
  "conns (send_to_users f us st) = conns st"
  "s_user_ws_conn_map (send_to_users f us st) = s_user_ws_conn_map st"
  "pubsub (send_to_users f us st) = pubsub st" "tcp_open (send_to_users f us st) = tcp_open st"
  by (induction us arbitrary: st) (simp_all add: send_to_users_def split: option.splits)

lemma BroadcastRoom_frame:
  "same_users st (BroadcastRoom rid body st) \<and> pubsub (BroadcastRoom rid body st) = pubsub st"
  by (simp add: BroadcastRoom_def PubSubMessage_def same_users_def who_def fun_eq_iff split: option.splits)

lemma send_to_all_simps:
  "conns (foldl (\<lambda>st (uid, cid). tcp_send cid f st) st m) = conns st"
  "s_user_ws_conn_map (foldl (\<lambda>st (uid, cid). tcp_send cid f st) st m) = s_user_ws_conn_map st"
  "pubsub (foldl (\<lambda>st (uid, cid). tcp_send cid f st) st m) = pubsub st"
  by (induction m arbitrary: st) (simp_all add: split_beta)

lemma subscribe_all_inv: "pubsub_inv ps \<Longrightarrow> pubsub_inv (subscribe_all rid uids ps)"
  by (induction uids arbitrary: ps) (simp_all add: subscribe_all_def AddSubscriber_inv)

lemma open_room_frame:
  "conns (open_room r st) = conns st" "s_user_ws_conn_map (open_room r st) = s_user_ws_conn_map st"
  "pubsub_inv (pubsub st) \<Longrightarrow> pubsub_inv (pubsub (open_room r st))"
  by (auto simp: open_room_def Let_def AddRoom_inv AddRoomTopic_inv subscribe_all_inv split: prod.split)

lemma Broadcast_frame:
  assumes "Broadcast J op body st = (r, st')"
  shows "same_users st st' \<and> (pubsub_inv (pubsub st) \<longrightarrow> pubsub_inv (pubsub st'))"
  using assms
  by (auto simp: Broadcast_def send_to_all_def send_to_all_simps open_room_frame same_users_def who_def fun_eq_iff
      split: sum.splits option.splits if_splits)

lemma join_rooms_frame:
  assumes "join_rooms J rooms (c, ps) = (r, c', ps')"
  shows "c_user_id c' = c_user_id c \<and> handshake_completed c' = handshake_completed c
    \<and> (pubsub_inv ps \<longrightarrow> pubsub_inv ps')"
  using assms
  by (induction rooms arbitrary: c ps)
    (force simp: AddSubscriber_inv split: sum.splits bool.splits prod.splits)+

text \<open>Hello either changes nothing or joins rooms, and then perhaps sends.\<close>

lemma SendHelloMessage_cases:
  "snd (SendHelloMessage E cid c st) = st
   \<or> (\<exists>rooms r' c' ps'. join_rooms (ce_json E) rooms (c, pubsub st) = (r', c', ps')
       \<and> (snd (SendHelloMessage E cid c st) = set_conn cid c' (st\<lparr>pubsub := ps'\<rparr>)
          \<or> (\<exists>d. snd (SendHelloMessage E cid c st) = tcp_send cid d (set_conn cid c' (st\<lparr>pubsub := ps'\<rparr>)))))"
proof -
  obtain ok resp where h: "sendHttpRequest (ce_http E) (ce_url E @ ''/logic/hello'')
      (hello_post_data (ce_json E) (c_user_id c) (c_username c)) [] = (ok, resp)" by fastforce
  show ?thesis
  proof (cases "\<exists>v rooms. ok \<and> jparse (ce_json E) resp = Some v \<and> hello_rooms (ce_json E) v = Inr rooms")
    case True
    then obtain v rooms where v: "ok" "jparse (ce_json E) resp = Some v" "hello_rooms (ce_json E) v = Inr rooms"
      by blast
    obtain r' c' ps' where j: "join_rooms (ce_json E) rooms (c, pubsub st) = (r', c', ps')"
      by (metis prod_cases3)
    then have "snd (SendHelloMessage E cid c st) = set_conn cid c' (st\<lparr>pubsub := ps'\<rparr>)
        \<or> (\<exists>d. snd (SendHelloMessage E cid c st) = tcp_send cid d (set_conn cid c' (st\<lparr>pubsub := ps'\<rparr>)))"
      using h v by (cases r') (auto simp: SendHelloMessage_def)
    with j show ?thesis by blast
  next
    case False
    then have "snd (SendHelloMessage E cid c st) = st" using h
      by (auto simp: SendHelloMessage_def Let_def split: option.splits sum.splits)
    then show ?thesis ..
  qed
qed

lemma SendHelloMessage_frame:
  assumes "SendHelloMessage E cid c st = (r, st')" "conns st cid = Some c"
  shows "same_users st st' \<and> (pubsub_inv (pubsub st) \<longrightarrow> pubsub_inv (pubsub st'))"
  using SendHelloMessage_cases [of E cid c st]
proof (elim disjE exE conjE)
  fix rooms r' c' ps'
  assume j: "join_rooms (ce_json E) rooms (c, pubsub st) = (r', c', ps')"
  note fr = join_rooms_frame [OF j]
  {
    assume "snd (SendHelloMessage E cid c st) = set_conn cid c' (st\<lparr>pubsub := ps'\<rparr>)"
    then show ?thesis using fr assms by (auto simp: same_users_def who_def fun_eq_iff)
  next
    fix d
    assume "snd (SendHelloMessage E cid c st) = tcp_send cid d (set_conn cid c' (st\<lparr>pubsub := ps'\<rparr>))"
    then show ?thesis using fr assms by (auto simp: same_users_def who_def fun_eq_iff)
  }
qed (use assms in simp)

lemma handle_text_frame:
  assumes "handle_text E cid c p st = (r, st')"
  shows "same_users st st' \<and> pubsub st' = pubsub st"
  using assms
  by (auto simp: handle_text_def HandleRequestRoomHistory_def HandleClientCreateRoom_def Let_def
      split: option.splits if_splits sum.splits bool.splits prod.splits)


lemma Disconnect_users:
  "who (Disconnect cid c st) = who st" "pubsub (Disconnect cid c st) = pubsub st"
  "s_user_ws_conn_map (Disconnect cid c st) = AList.delete (c_user_id c) (s_user_ws_conn_map st)"
  by (simp_all add: Disconnect_def SendCloseFrame_def who_def fun_eq_iff)

lemma run_frame_users:
  assumes "run_frame E cid c f st = (r, st')" "conns st cid = Some c"
  shows "who st' = who st \<and> pubsub st' = pubsub st
    \<and> (s_user_ws_conn_map st' = s_user_ws_conn_map st
       \<or> s_user_ws_conn_map st' = AList.delete (c_user_id c) (s_user_ws_conn_map st))"
proof (cases "ParseWebSocketFrame f")
  case (Inr frame)
  define c1 where "c1 = c\<lparr>stats_total_messages := stats_total_messages c + 1,
    stats_total_bytes := stats_total_bytes c + word_of_nat (length (payload_data frame))\<rparr>"
  have w: "who (set_conn cid c1 st) = who st" using assms(2) by (auto simp: who_def c1_def fun_eq_iff)
  have i: "c_user_id c1 = c_user_id c" by (simp add: c1_def)
  show ?thesis
    using assms(1) w Disconnect_users [of cid c1 "set_conn cid c1 st"] handle_text_frame i
    by (auto simp: run_frame_def Inr Let_def same_users_def simp flip: c1_def split: if_splits dest!: handle_text_frame)
qed (use assms in \<open>simp add: run_frame_def\<close>)

section \<open>The invariant\<close>

definition users_ok :: "'v comet_env \<Rightarrow> (conn_id \<rightharpoonup> bool \<times> string) \<Rightarrow> (string \<times> conn_id) list \<Rightarrow> bool" where
  "users_ok E w m \<longleftrightarrow> distinct (map fst m)
     \<and> (\<forall>(uid, cid)\<in>set m. w cid = Some (True, uid) \<and> authenticated E uid)
     \<and> (\<forall>cid uid. w cid = Some (False, uid) \<longrightarrow> uid = [])
     \<and> (\<forall>cid uid. w cid = Some (True, uid) \<longrightarrow> uid = [] \<or> authenticated E uid)"

definition comet_inv :: "'v comet_env \<Rightarrow> comet \<Rightarrow> bool" where
  "comet_inv E st \<longleftrightarrow> pubsub_inv (pubsub st) \<and> users_ok E (who st) (s_user_ws_conn_map st)"

lemma users_ok_delete:
  assumes "users_ok E w m"
  shows "users_ok E w (AList.delete uid m)"
proof -
  have "set (AList.delete uid m) \<subseteq> set m" by (induction m) auto
  then show ?thesis using assms distinct_delete [of m uid] unfolding users_ok_def by blast
qed

lemma users_ok_handshake:
  assumes "users_ok E w m" "w cid = Some (False, u)"
  shows "users_ok E (w(cid \<mapsto> (True, []))) m"
proof -
  have "cid' \<noteq> cid" if "(uid, cid') \<in> set m" for uid cid' using assms that by (fastforce simp: users_ok_def)
  then show ?thesis using assms(1) unfolding users_ok_def by (auto split: if_splits)
qed

lemma users_ok_login:
  assumes "users_ok E w m" "w cid = Some (False, u)" "authenticated E uid"
  shows "users_ok E (w(cid \<mapsto> (True, uid))) (add_user uid cid m)"
proof -
  have del: "users_ok E w (AList.delete uid m)" by (rule users_ok_delete [OF assms(1)])
  have new: "uid \<notin> fst ` set (AList.delete uid m)" by (induction m) auto
  have old: "cid' \<noteq> cid" if "(uid', cid') \<in> set (AList.delete uid m)" for uid' cid'
    using del assms(2) that by (fastforce simp: users_ok_def)
  have "add_user uid cid m = AList.delete uid m @ [(uid, cid)]"
    unfolding add_user_def by (rule update_new [OF new])
  then show ?thesis
    using del new old assms(3) unfolding users_ok_def by (auto split: if_splits)
qed

lemma shaken_simps [simp]:
  "s_user_ws_conn_map (shaken cid c resp st) = s_user_ws_conn_map st" "pubsub (shaken cid c resp st) = pubsub st"
  "who (shaken cid c resp st) = (who st)(cid \<mapsto> (True, c_user_id c))"
  "tcp_open (shaken cid c resp st) = tcp_open st"
  "conns (shaken cid c resp st) = (conns st)(cid \<mapsto> c\<lparr>handshake_completed := True\<rparr>)"
  by (simp_all add: shaken_def who_def fun_eq_iff)

lemma SendCloseFrame_simps [simp]:
  "s_user_ws_conn_map (SendCloseFrame cid code rs st) = s_user_ws_conn_map st"
  "pubsub (SendCloseFrame cid code rs st) = pubsub st" "who (SendCloseFrame cid code rs st) = who st"
  "conns (SendCloseFrame cid code rs st) = conns st" "tcp_open (SendCloseFrame cid code rs st) = tcp_open st"
  by (simp_all add: SendCloseFrame_def who_def fun_eq_iff)

lemma login_inv:
  assumes "comet_inv E st" "conns st cid = Some c" "\<not> handshake_completed c" "auth_of E c = Inr a" "success a"
    and "st1 = set_conn cid (logged_in a st c) (shaken cid c resp st
            \<lparr>s_user_ws_conn_map := add_user (user_id a) cid (s_user_ws_conn_map st)\<rparr>)"
  shows "comet_inv E (snd (SendHelloMessage E cid (logged_in a st c) st1))"
proof -
  have "authenticated E (user_id a)" using assms(4,5) unfolding authenticated_def auth_of_def by blast
  moreover have "who st cid = Some (False, c_user_id c)" using assms(2,3) by (simp add: who_def)
  ultimately have "users_ok E ((who st)(cid \<mapsto> (True, user_id a))) (add_user (user_id a) cid (s_user_ws_conn_map st))"
    using assms(1) by (intro users_ok_login) (auto simp: comet_inv_def)
  moreover have "who st1 = (who st)(cid \<mapsto> (True, user_id a))"
    by (auto simp: assms(6) who_def logged_in_def fun_eq_iff)
  ultimately have "comet_inv E st1" using assms(1) by (simp add: comet_inv_def assms(6))
  moreover have "conns st1 cid = Some (logged_in a st c)" by (simp add: assms(6))
  ultimately show ?thesis
    using SendHelloMessage_frame [of E cid "logged_in a st c" st1]
    by (cases "SendHelloMessage E cid (logged_in a st c) st1") (auto simp: comet_inv_def same_users_def)
qed

lemma OnRead_handshake_inv:
  assumes "comet_inv E st" "conns st cid = Some c" "\<not> handshake_completed c"
  shows "comet_inv E (snd (OnRead_handshake E cid c request st))"
proof -
  have w: "who st cid = Some (False, c_user_id c)" using assms(2,3) by (simp add: who_def)
  then have "c_user_id c = []" using assms(1) by (auto simp: comet_inv_def users_ok_def)
  then have sh: "comet_inv E (shaken cid c resp st)" for resp
    using assms(1) users_ok_handshake [of E "who st" "s_user_ws_conn_map st", OF _ w] by (simp add: comet_inv_def)
  have cl: "comet_inv E (SendCloseFrame cid code rs (shaken cid c resp st))" for code rs resp
    using sh [of resp] by (simp add: comet_inv_def)
  show ?thesis
    using assms(1) sh cl login_inv [OF assms]
    by (simp add: OnRead_handshake_def Let_def split: option.split sum.split)
qed

lemma OnRead_inv:
  assumes "comet_inv E st" "conns st cid = Some c" "OnRead E cid c input st = Some (r, st')"
  shows "comet_inv E st'"
proof (cases "handshake_completed c")
  case True
  with assms(3) obtain rest tasks where
    "st' = set_conn cid (c\<lparr>incomplete_frame_buffer := rest\<rparr>) (st\<lparr>pool_tasks := tasks\<rparr>)"
    by (auto simp: OnRead_def)
  moreover from this have "who st' = who st" using assms(2) by (auto simp: who_def fun_eq_iff)
  ultimately show ?thesis using assms(1) by (simp add: comet_inv_def)
next
  case False
  with assms(3) have "st' = snd (OnRead_handshake E cid c (string_of input) st)"
    by (auto simp: OnRead_def)
  with OnRead_handshake_inv [OF assms(1,2) False] show ?thesis by simp
qed

lemma users_ok_accept:
  assumes "users_ok E w m" "w cid = None"
  shows "users_ok E (w(cid \<mapsto> (False, []))) m"
proof -
  have "cid' \<noteq> cid" if "(uid, cid') \<in> set m" for uid cid' using assms that by (fastforce simp: users_ok_def)
  then show ?thesis using assms(1) unfolding users_ok_def by (auto split: if_splits)
qed

lemma comet_step_inv:
  assumes "comet_step E st st'" "comet_inv E st"
  shows "comet_inv E st'"
  using assms(1)
proof cases
  case (accept cid h)
  then have "who st' = (who st)(cid \<mapsto> (False, []))" "who st cid = None"
    by (auto simp: who_def newCWebSocketConn_def fun_eq_iff)
  with accept users_ok_accept assms(2) show ?thesis by (auto simp: comet_inv_def)
next
  case (read cid c input r)
  with OnRead_inv assms(2) show ?thesis by blast
next
  case (task before cid f rest c r)
  let ?st = "st\<lparr>pool_tasks := before @ rest\<rparr>"
  have "who ?st = who st" by (simp add: who_def fun_eq_iff)
  with run_frame_users [OF task(3)] task(2) assms(2) show ?thesis
    by (auto simp: comet_inv_def users_ok_delete)
next
  case (room_rpc rid body)
  with BroadcastRoom_frame [of st rid body] assms(2) show ?thesis
    by (auto simp: comet_inv_def same_users_def)
next
  case (all_rpc op body r)
  with Broadcast_frame [OF all_rpc] assms(2) show ?thesis by (auto simp: comet_inv_def same_users_def)
next
  case (closed cid)
  with same_users_tcp(2) [of st cid] assms(2) show ?thesis by (auto simp: comet_inv_def same_users_def)
qed

lemma add_topics_inv: "add_topics J rooms ps = (r, ps') \<Longrightarrow> pubsub_inv ps \<Longrightarrow> pubsub_inv ps'"
  by (induction rooms arbitrary: ps)
    (auto simp: AddRoomTopic_inv simp del: jmissing.simps split: sum.splits bool.splits prod.splits)

lemma boot_inv:
  assumes "InitializeRoomSubscriptions E newPubSubService = (Inr 0, ps)"
  shows "comet_inv E (new_comet\<lparr>pubsub := ps\<rparr>)"
proof -
  have "pubsub_inv ps" using assms ps.inv_start add_topics_inv
    by (auto simp: InitializeRoomSubscriptions_def Let_def split: prod.splits if_splits option.splits sum.splits)
  then show ?thesis by (simp add: comet_inv_def users_ok_def new_comet_def who_def)
qed

lemma comet_reach_inv: "comet_reach E st \<Longrightarrow> comet_inv E st"
  by (induction rule: comet_reach.induct) (auto intro: boot_inv comet_step_inv)

section \<open>Broadcasts\<close>

text \<open>The connection on which a user is reached now, if any.\<close>

definition online :: "comet \<Rightarrow> string \<Rightarrow> conn_id option" where
  "online st uid = (case map_of (s_user_ws_conn_map st) uid of
     None \<Rightarrow> None | Some cid \<Rightarrow> if tcp_open st cid then Some cid else None)"

lemma send_to_users_outbox:
  "outbox (send_to_users f us st)
     = outbox st @ List.map_filter (\<lambda>uid. map_option (\<lambda>cid. (cid, f)) (online st uid)) us"
proof (induction us arbitrary: st)
  case (Cons u us)
  have on: "online (tcp_send cid f st) = online st" for cid
    by (simp add: online_def fun_eq_iff cong: option.case_cong)
  show ?case
  proof (cases "map_of (s_user_ws_conn_map st) u")
    case None
    then show ?thesis using Cons [of st]
      by (simp add: send_to_users_def online_def map_filter_simps)
  next
    case (Some cid)
    then have "send_to_users f (u # us) st = send_to_users f us (tcp_send cid f st)"
      by (simp add: send_to_users_def)
    with Cons [of "tcp_send cid f st"] Some show ?thesis
      by (simp add: on map_filter_simps) (simp add: online_def tcp_send_def)
  qed
qed (simp add: send_to_users_def map_filter_simps)

lemma online_who:
  assumes "comet_inv E st" "online st uid = Some cid"
  shows "who st cid = Some (True, uid)"
  using assms
  by (auto simp: online_def comet_inv_def users_ok_def split: option.splits if_splits dest!: map_of_SomeD)

lemma map_filter_distinct:
  assumes "distinct us" "\<And>u v x. u \<in> set us \<Longrightarrow> v \<in> set us \<Longrightarrow> g u = Some x \<Longrightarrow> g v = Some x \<Longrightarrow> u = v"
  shows "distinct (List.map_filter g us)"
  using assms
proof (induction us)
  case (Cons u us)
  then show ?case
    by (cases "g u") (auto simp: map_filter_simps map_filter_def, blast)
qed (simp add: map_filter_simps)

lemma set_map_filter: "set (List.map_filter g us) = {x. \<exists>u\<in>set us. g u = Some x}"
  by (force simp: map_filter_def)

lemma BroadcastRoom_outbox:
  assumes inv: "comet_inv E st" and subs: "subscribers (pubsub st) rid = Some U"
  shows "\<exists>new. outbox (BroadcastRoom rid body st) = outbox st @ new \<and> distinct new
     \<and> set new = {(cid, BuildWebSocketFrame (bytes_of body) 1) | cid uid. uid \<in> U \<and> online st uid = Some cid}"
proof -
  let ?f = "BuildWebSocketFrame (bytes_of body) 1"
  let ?g = "\<lambda>uid. map_option (\<lambda>cid. (cid, ?f)) (online st uid)"
  obtain t where t: "room_topic_map (pubsub st) rid = Some t" "set (user_ids t) = U"
    using subs by (auto simp: subscribers_def)
  have d: "distinct (user_ids t)" using inv t(1) by (auto simp: comet_inv_def pubsub_inv_def)
  have "outbox (BroadcastRoom rid body st) = outbox st @ List.map_filter ?g (user_ids t)"
    using t(1) by (simp add: BroadcastRoom_def PubSubMessage_def GetSubscribers_def send_to_users_outbox)
  moreover have "distinct (List.map_filter ?g (user_ids t))"
  proof (rule map_filter_distinct [OF d])
    fix u v x
    assume "?g u = Some x" "?g v = Some x"
    then obtain cid where "online st u = Some cid" "online st v = Some cid" by auto
    from online_who [OF inv this(1)] online_who [OF inv this(2)] show "u = v" by simp
  qed
  moreover have "set (List.map_filter ?g (user_ids t)) = {(cid, ?f) | cid uid. uid \<in> U \<and> online st uid = Some cid}"
    using t(2) by (auto simp: set_map_filter)
  ultimately show ?thesis by blast
qed

section \<open>Joining rooms\<close>

context subscription
begin

lemma join_many_users:
  "inv s \<Longrightarrow> inv (foldl (\<lambda>s u. snd (join r u s)) s us)
     \<and> subs (foldl (\<lambda>s u. snd (join r u s)) s us) = (subs s)(r := map_option (\<lambda>U. U \<union> set us) (subs s r))"
proof (induction us arbitrary: s)
  case (Cons u us)
  have "subs (snd (join r u s)) = (subs s)(r := map_option (insert u) (subs s r))"
    using join_law [OF Cons.prems, of r u] by (cases "join r u s") simp
  with Cons.IH [OF inv_join [OF Cons.prems]] show ?case
    by (simp add: fun_eq_iff option.map_comp o_def Un_insert_left)
qed (simp add: option.map_ident)

lemma join_many_rooms:
  "inv s \<Longrightarrow> inv (foldl (\<lambda>s r. snd (join r u s)) s rs)
     \<and> subs (foldl (\<lambda>s r. snd (join r u s)) s rs)
         = (\<lambda>r. if r \<in> set rs then map_option (insert u) (subs s r) else subs s r)"
proof (induction rs arbitrary: s)
  case (Cons r rs)
  have "subs (snd (join r u s)) = (subs s)(r := map_option (insert u) (subs s r))"
    using join_law [OF Cons.prems, of r u] by (cases "join r u s") simp
  with Cons.IH [OF inv_join [OF Cons.prems]] show ?case
    by (auto simp: fun_eq_iff option.map_comp o_def)
qed simp

end

text \<open>A room as the logic server lists it.\<close>

definition lists_room :: "'v json_api \<Rightarrow> 'v \<Rightarrow> string \<Rightarrow> bool" where
  "lists_room J room rid \<longleftrightarrow> jmember J room ''id'' = Inr True \<and> jget_string J room ''id'' = Inr rid
     \<and> (\<exists>n name. jget_default J room ''name'' (jstr J []) = Inr n \<and> jas_string J n = Inr name)"

lemma join_rooms_fold:
  assumes "list_all2 (lists_room J) rooms rids"
  shows "\<exists>c'. join_rooms J rooms (c, ps)
    = (Inr (), c', foldl (\<lambda>ps rid. snd (AddSubscriber rid (c_user_id c) ps)) ps rids)"
  using assms
proof (induction rooms arbitrary: rids c ps)
  case (Cons room rooms)
  then obtain rid rs where r: "rids = rid # rs" "lists_room J room rid" "list_all2 (lists_room J) rooms rs"
    by (auto simp: list_all2_Cons1)
  then obtain n name where n: "jget_default J room ''name'' (jstr J []) = Inr n" "jas_string J n = Inr name"
    by (auto simp: lists_room_def)
  let ?c = "c\<lparr>rooms_map := (rooms_map c)(rid \<mapsto> local_room rid name)\<rparr>"
  have "join_rooms J (room # rooms) (c, ps) = join_rooms J rooms (?c, snd (AddSubscriber rid (c_user_id c) ps))"
    using r(2) n by (simp add: lists_room_def)
  with Cons.IH [OF r(3), of ?c "snd (AddSubscriber rid (c_user_id c) ps)"] r(1) show ?case by auto
qed simp

lemma hello_effect:
  assumes http: "ce_http E (ce_url E @ ''/logic/hello'') (hello_post_data (ce_json E) (c_user_id c) (c_username c))
        = (Some 200, resp)"
    and resp: "jparse (ce_json E) resp = Some v" "hello_rooms (ce_json E) v = Inr rooms"
    and rooms: "list_all2 (lists_room (ce_json E)) rooms rids" and inv: "pubsub_inv (pubsub st)"
  shows "\<exists>st'. SendHelloMessage E cid c st = (Inr 0, st')
     \<and> subscribers (pubsub st') = (\<lambda>r. if r \<in> set rids then map_option (insert (c_user_id c)) (subscribers (pubsub st) r)
                                       else subscribers (pubsub st) r)
     \<and> outbox st' = outbox st @ (if tcp_open st cid then [(cid, BuildWebSocketFrame (bytes_of resp) 1)] else [])"
proof -
  obtain c' where "join_rooms (ce_json E) rooms (c, pubsub st)
      = (Inr (), c', foldl (\<lambda>ps rid. snd (AddSubscriber rid (c_user_id c) ps)) (pubsub st) rids)"
    using join_rooms_fold [OF rooms] by blast
  then show ?thesis
    using http resp ps.join_many_rooms [OF inv, of "c_user_id c" rids]
    by (simp add: SendHelloMessage_def sendHttpRequest_eq tcp_send_def)
qed

lemma open_room_subscribes:
  assumes "pubsub_inv (pubsub st)"
  shows "subscribers (pubsub (open_room (rid, name, creator) st))
    = (subscribers (pubsub st))(rid \<mapsto> fst ` set (s_user_ws_conn_map st)
         \<union> (case subscribers (pubsub st) rid of None \<Rightarrow> {} | Some U \<Rightarrow> U))"
proof -
  let ?ps = "snd (AddRoomTopic rid name creator (pubsub st))"
  have inv: "pubsub_inv ?ps" by (rule AddRoomTopic_inv [OF assms])
  have s1: "subscribers ?ps = (if subscribers (pubsub st) rid = None then (subscribers (pubsub st))(rid \<mapsto> {})
      else subscribers (pubsub st))"
    using ps.open_law [OF assms, of rid name creator] by (cases "AddRoomTopic rid name creator (pubsub st)") auto
  have "subscribers (subscribe_all rid uids ?ps)
      = (subscribers ?ps)(rid := map_option (\<lambda>U. U \<union> set uids) (subscribers ?ps rid))" for uids
    using ps.join_many_users [OF inv, of rid uids] by (simp add: subscribe_all_def)
  moreover have "subscribers (snd (AddRoom r ps)) = subscribers ps" for r ps
    by (simp add: subscribers_def AddRoom_def fun_eq_iff)
  ultimately show ?thesis
    by (auto simp: open_room_def Let_def s1 fun_eq_iff split: option.splits)
qed

lemma send_to_all_outbox:
  "outbox (foldl (\<lambda>st (uid, cid). tcp_send cid f st) st m)
     = outbox st @ map (\<lambda>(uid, cid). (cid, f)) (filter (\<lambda>(uid, cid). tcp_open st cid) m)"
  by (induction m arbitrary: st) (auto simp: tcp_send_def)

section \<open>A small run\<close>

text \<open>A logic server that knows one user and one room, and a client that connects.\<close>

definition sample_rooms_answer :: jv where
  "sample_rooms_answer = JObj [(''rooms'', JArr [JObj [(''id'', JStr ''r1''), (''name'', JStr ''n'')]]),
     (''status'', JStr ''success'')]"

definition sample_hello_answer :: jv where
  "sample_hello_answer = JObj [(''payload'', JObj [(''rooms'', JArr [JObj [(''id'', JStr ''r1'')]])])]"

definition sample_comet_http :: http where
  "sample_comet_http url post =
     (if url = ''h/logic/verify'' then sample_verify_http url post
      else (Some 200, enc_jv (if url = ''h/logic/hello'' then sample_hello_answer else sample_rooms_answer)))"

definition sample_cenv :: "jv comet_env" where
  "sample_cenv = \<lparr>ce_json = jv_api, ce_http = sample_comet_http, ce_url = ''h'',
     ce_sha1 = (\<lambda>_. replicate 20 0), ce_junk = [0, 0, 0]\<rparr>"

definition sample_headers :: headers where
  "sample_headers = [''Cookie'' \<mapsto> ''sid=c'']"

definition sample_request :: string where
  "sample_request = ''Sec-WebSocket-Key: k'' @ CRLF"

definition sample_boot :: comet where
  "sample_boot = new_comet\<lparr>pubsub := snd (AddRoomTopic ''r1'' ''n'' ''1'' newPubSubService)\<rparr>"

definition sample_accepted :: comet where
  "sample_accepted = sample_boot\<lparr>conns := [1 \<mapsto> newCWebSocketConn sample_headers],
     tcp_open := (\<lambda>_. False)(1 := True)\<rparr>"

definition sample_online :: comet where
  "sample_online = snd (OnRead_handshake sample_cenv 1 (newCWebSocketConn sample_headers) sample_request sample_accepted)"

lemma sample_reach_accepted: "comet_reach sample_cenv sample_accepted"
proof -
  have "InitializeRoomSubscriptions sample_cenv newPubSubService
      = (Inr 0, snd (AddRoomTopic ''r1'' ''n'' ''1'' newPubSubService))"
    by (simp add: InitializeRoomSubscriptions_def sendHttpRequest_eq sample_cenv_def sample_comet_http_def
        sample_rooms_answer_def answered_rooms_def jindex_elems_def jget_string_def jobject_def)
  from comet_reach.boot [OF this] have "comet_reach sample_cenv sample_boot" by (simp add: sample_boot_def)
  moreover have "comet_step sample_cenv sample_boot sample_accepted"
    using comet_step.accept [of sample_boot 1 sample_cenv sample_headers]
    by (simp add: sample_accepted_def sample_boot_def new_comet_def)
  ultimately show ?thesis by (rule comet_reach.step)
qed


lemma sample_online_eq:
  "s_user_ws_conn_map sample_online = [(''u1'', 1)] \<and> tcp_open sample_online 1
   \<and> subscribers (pubsub sample_online) ''r1'' = Some {''u1''}"
proof -
  have k: "handshake_key sample_request = Some ''k''" by code_simp
  have g: "\<exists>r. GenerateWebSocketHandshakeResponse (ce_sha1 sample_cenv) (ce_junk sample_cenv) ''k'' = Inr r"
    by (simp add: GenerateWebSocketHandshakeResponse_def sample_cenv_def base64_encode_ptr_def)
  have e: "cookie_of (newCWebSocketConn sample_headers) = ''sid=c''"
    by (simp add: cookie_of_def newCWebSocketConn_def sample_headers_def)
  have "ExtractSid ''sid=c'' = ''c''" by code_simp
  with e have a: "auth_of sample_cenv (newCWebSocketConn sample_headers) = Inr sample_auth"
    using sample_verify
    by (simp add: auth_of_def sid_of_def sample_cenv_def sample_comet_http_def verifyUserAuth_def sendHttpRequest_eq)
  from g obtain r where "GenerateWebSocketHandshakeResponse (ce_sha1 sample_cenv) (ce_junk sample_cenv) ''k'' = Inr r" ..
  with k e a show ?thesis
    by (simp add: sample_online_def OnRead_handshake_def sample_auth_def SendHelloMessage_def
        sendHttpRequest_eq logged_in_def)
       (simp add: sample_cenv_def sample_comet_http_def sample_hello_answer_def hello_rooms_def jindex_elems_def
        jget_string_def jget_default_def add_user_def sample_accepted_def sample_boot_def new_comet_def
        subscribers_def pubsub_ops newPubSubService_def newCWebSocketConn_def)
qed

section \<open>Properties\<close>

text \<open>
  C3: in every reachable state, whatever the order of reads, pool tasks,
  RPCs and closes: the user map has one entry per user; the connection of an entry
  has completed the handshake as that user; the logic server has confirmed that user for
  some session id; and no connection belongs to two users.
\<close>

theorem comet_users_authenticated:
  assumes "comet_reach E st" "(uid, cid) \<in> set (s_user_ws_conn_map st)"
  shows "distinct (map fst (s_user_ws_conn_map st))
    \<and> (\<exists>c. conns st cid = Some c \<and> handshake_completed c \<and> c_user_id c = uid)
    \<and> (\<exists>sid r. verifyUserAuth (ce_json E) (ce_http E) (ce_url E) sid = Inr r \<and> success r \<and> user_id r = uid)
    \<and> (\<forall>uid'. (uid', cid) \<in> set (s_user_ws_conn_map st) \<longrightarrow> uid' = uid)"
proof -
  have ok: "users_ok E (who st) (s_user_ws_conn_map st)"
    using comet_reach_inv [OF assms(1)] by (simp add: comet_inv_def)
  then have w: "who st cid = Some (True, u)" "authenticated E u" if "(u, cid) \<in> set (s_user_ws_conn_map st)" for u
    using that by (auto simp: users_ok_def)
  have "\<exists>c. conns st cid = Some c \<and> handshake_completed c \<and> c_user_id c = uid"
    using w(1) [OF assms(2)] by (auto simp: who_def)
  moreover have "uid' = uid" if "(uid', cid) \<in> set (s_user_ws_conn_map st)" for uid'
    using w(1) [OF assms(2)] w(1) [OF that] by simp
  ultimately show ?thesis
    using ok w(2) [OF assms(2)] unfolding users_ok_def authenticated_def by blast
qed

lemma sample_reach: "comet_reach sample_cenv sample_online"
proof (rule comet_reach.step [OF sample_reach_accepted])
  let ?c = "newCWebSocketConn sample_headers"
  have "OnRead sample_cenv 1 ?c (bytes_of sample_request) sample_accepted
      = Some (fst (OnRead_handshake sample_cenv 1 ?c sample_request sample_accepted), sample_online)"
    by (simp add: OnRead_def sample_online_def newCWebSocketConn_def)
  then show "comet_step sample_cenv sample_accepted sample_online"
    by (intro comet_step.read) (simp_all add: sample_accepted_def)
qed

theorem comet_users_authenticated_witness:
  "\<exists>c. conns sample_online 1 = Some c \<and> handshake_completed c \<and> c_user_id c = ''u1''"
  using comet_users_authenticated [OF sample_reach, of "''u1''" 1] sample_online_eq by simp

text \<open>
  A message broadcast to a room is put on the connection of every
  subscriber who is online, exactly once, and on no other connection; for an
  unknown room nothing is sent. The frame is the server frame of the message text.
\<close>

theorem broadcast_room_exact:
  assumes "comet_reach E st"
  shows "case subscribers (pubsub st) rid of
     None \<Rightarrow> BroadcastRoom rid body st = st
   | Some U \<Rightarrow> \<exists>new. outbox (BroadcastRoom rid body st) = outbox st @ new \<and> distinct new
       \<and> set new = {(cid, BuildWebSocketFrame (bytes_of body) 1) | cid uid.
                       uid \<in> U \<and> map_of (s_user_ws_conn_map st) uid = Some cid \<and> tcp_open st cid}"
proof (cases "subscribers (pubsub st) rid")
  case None
  then show ?thesis by (simp add: subscribers_def BroadcastRoom_def PubSubMessage_def)
next
  case (Some U)
  have "online st uid = Some cid \<longleftrightarrow> map_of (s_user_ws_conn_map st) uid = Some cid \<and> tcp_open st cid" for uid cid
    by (auto simp: online_def split: option.splits)
  then show ?thesis
    using BroadcastRoom_outbox [OF comet_reach_inv [OF assms] Some, of body] Some by simp
qed

theorem broadcast_room_exact_witness:
  "\<exists>new. outbox (BroadcastRoom ''r1'' ''hi'' sample_online) = outbox sample_online @ new \<and> distinct new
     \<and> set new = {(1, BuildWebSocketFrame (bytes_of ''hi'') 1)}"
  using broadcast_room_exact [OF sample_reach, of "''r1''" "''hi''"] sample_online_eq by simp

text \<open>
  When the logic server answers the hello request with a list of rooms, the
  user is subscribed to exactly those of them that exist, keeps every other
  subscription, and gets the answer as a text frame.
\<close>

theorem hello_joins_rooms:
  assumes "ce_http E (ce_url E @ ''/logic/hello'') (hello_post_data (ce_json E) (c_user_id c) (c_username c))
        = (Some 200, resp)"
    and "jparse (ce_json E) resp = Some v" "hello_rooms (ce_json E) v = Inr rooms"
    and "list_all2 (lists_room (ce_json E)) rooms rids" "pubsub_inv (pubsub st)" "tcp_open st cid"
  shows "\<exists>st'. SendHelloMessage E cid c st = (Inr 0, st')
     \<and> (\<forall>r. subscribers (pubsub st') r
           = (if r \<in> set rids then map_option (insert (c_user_id c)) (subscribers (pubsub st) r)
              else subscribers (pubsub st) r))
     \<and> outbox st' = outbox st @ [(cid, BuildWebSocketFrame (bytes_of resp) 1)]"
  using hello_effect [OF assms(1-5), of cid] assms(6) by auto

definition sample_conn_state :: CWebSocketConn where
  "sample_conn_state = (newCWebSocketConn sample_headers)\<lparr>c_user_id := ''u1'', handshake_completed := True\<rparr>"

theorem hello_joins_rooms_witness:
  "\<exists>st'. SendHelloMessage sample_cenv 1 sample_conn_state sample_accepted = (Inr 0, st')
     \<and> subscribers (pubsub st') ''r1'' = Some {''u1''}"
proof -
  have "\<exists>st'. SendHelloMessage sample_cenv 1 sample_conn_state sample_accepted = (Inr 0, st')
     \<and> (\<forall>r. subscribers (pubsub st') r = (if r \<in> set [''r1'']
            then map_option (insert (c_user_id sample_conn_state)) (subscribers (pubsub sample_accepted) r)
            else subscribers (pubsub sample_accepted) r))
     \<and> outbox st' = outbox sample_accepted @ [(1, BuildWebSocketFrame (bytes_of (enc_jv sample_hello_answer)) 1)]"
  proof (rule hello_joins_rooms [where v = sample_hello_answer and rooms = "[JObj [(''id'', JStr ''r1'')]]"])
    show "pubsub_inv (pubsub sample_accepted)"
      using comet_reach_inv [OF sample_reach_accepted] by (simp add: comet_inv_def)
  qed (simp_all add: sample_cenv_def sample_comet_http_def hello_rooms_def sample_hello_answer_def jindex_elems_def
        lists_room_def jget_string_def jget_default_def sample_accepted_def)
  moreover have "subscribers (pubsub sample_accepted) ''r1'' = Some {}" "c_user_id sample_conn_state = ''u1''"
    by (simp_all add: sample_accepted_def sample_boot_def subscribers_def pubsub_ops newPubSubService_def
        sample_conn_state_def)
  ultimately show ?thesis by auto
qed

text \<open>
  A client whose authentication is refused keeps a usable connection: the
  handshake counts as completed, the connection stays open, and the frames it
  sends afterwards become tasks as for any other client, with the empty user id.
\<close>

theorem refused_client_stays:
  assumes "conns st cid = Some c" "\<not> handshake_completed c" "c_user_id c = []" "tcp_open st cid"
    and "handshake_key (string_of input) = Some key"
    and "GenerateWebSocketHandshakeResponse (ce_sha1 E) (ce_junk E) key = Inr response"
    and "auth_of E c = Inr a" "\<not> success a"
    and "feed_frames (incomplete_frame_buffer c) more_input = Some (frames, rest)"
  shows "\<exists>st1 c1 st2. OnRead E cid c input st = Some (Inr (), st1) \<and> conns st1 cid = Some c1
     \<and> tcp_open st1 cid \<and> c_user_id c1 = []
     \<and> OnRead E cid c1 more_input st1 = Some (Inr (), st2)
     \<and> pool_tasks st2 = pool_tasks st1 @ map (Pair cid) frames"
  using assms by (simp add: OnRead_def OnRead_handshake_def set_conn_def)

definition bare_conn :: CWebSocketConn where
  "bare_conn = newCWebSocketConn Map.empty"

definition bare_comet :: comet where
  "bare_comet = sample_boot\<lparr>conns := [1 \<mapsto> bare_conn], tcp_open := (\<lambda>_. True)\<rparr>"

theorem refused_client_stays_witness:
  "\<exists>st1 c1 st2. OnRead sample_cenv 1 bare_conn (bytes_of sample_request) bare_comet = Some (Inr (), st1)
     \<and> conns st1 1 = Some c1 \<and> tcp_open st1 1 \<and> c_user_id c1 = []
     \<and> OnRead sample_cenv 1 c1 [0x81, 0x82, 1] st1 = Some (Inr (), st2)
     \<and> pool_tasks st2 = pool_tasks st1 @ map (Pair 1) []"
proof (rule refused_client_stays)
  show "handshake_key (string_of (bytes_of sample_request)) = Some ''k''" by simp code_simp
  show "GenerateWebSocketHandshakeResponse (ce_sha1 sample_cenv) (ce_junk sample_cenv) ''k''
      = Inr (projr (GenerateWebSocketHandshakeResponse (ce_sha1 sample_cenv) (ce_junk sample_cenv) ''k''))"
    by (simp add: GenerateWebSocketHandshakeResponse_def sample_cenv_def base64_encode_ptr_def)
  show "auth_of sample_cenv bare_conn = Inr (auth_failed ''Cookie is empty'')"
    by (simp add: auth_of_def sid_of_def cookie_of_def bare_conn_def newCWebSocketConn_def verifyUserAuth_def)
  show "feed_frames (incomplete_frame_buffer bare_conn) [0x81, 0x82, 1] = Some ([], [0x81, 0x82, 1])"
    using feed_example(1) by (simp add: bare_conn_def newCWebSocketConn_def)
qed (simp_all add: bare_conn_def bare_comet_def newCWebSocketConn_def auth_failed_def)

text \<open>
  A connection that closes removes its user from the map even when the user
  has meanwhile connected again: afterwards the user is not reached by broadcasts,
  although the newer connection is open.
\<close>

theorem stale_disconnect_removes_user:
  assumes "map_of (s_user_ws_conn_map st) uid = Some new_cid" "c_user_id c = uid" "new_cid \<noteq> old_cid"
    and "tcp_open st new_cid" "ParseWebSocketFrame f = Inr frame" "opcode frame = 8"
  shows "\<exists>st'. run_frame E old_cid c f st = (Inr (), st') \<and> tcp_open st' new_cid
     \<and> map_of (s_user_ws_conn_map st') uid = None"
proof -
  have "map_of (AList.delete uid m) uid = None" for m :: "(string \<times> conn_id) list"
    by (simp add: delete_conv')
  then show ?thesis
    using assms
    by (simp add: run_frame_def Disconnect_def SendCloseFrame_def tcp_shutdown_def Let_def)
qed

theorem stale_disconnect_removes_user_witness:
  "\<exists>st'. run_frame sample_cenv 2 sample_conn_state [0x88, 0] sample_online = (Inr (), st') \<and> tcp_open st' 1
     \<and> map_of (s_user_ws_conn_map st') ''u1'' = None"
proof (rule stale_disconnect_removes_user)
  show "ParseWebSocketFrame [0x88, 0] = Inr (projr (ParseWebSocketFrame [0x88, 0]))"
    "opcode (projr (ParseWebSocketFrame [0x88, 0])) = 8" by code_simp+
qed (use sample_online_eq in \<open>simp_all add: sample_conn_state_def\<close>)

end
