(* ===== verification/ServerConfigs.thy ===== *)
theory ServerConfigs
  imports ConfigFile
begin

text \<open>
  What the three servers read from their configuration files: \<^verbatim>\<open>ServerConfig\<close> of
  \<^verbatim>\<open>logic/main.cc\<close> and of \<^verbatim>\<open>chat-room/main.cc\<close>, \<^verbatim>\<open>LogicConfig\<close> of
  \<^verbatim>\<open>chat-room/service/logic_config.cc\<close>, and the settings of \<^verbatim>\<open>job/main.cc\<close>. A setting that
  is missing keeps its default; ports are cut to 16 bits.
\<close>

section \<open>Reading a setting\<close>

definition cfg_str :: "CConfigFileReader \<Rightarrow> string \<Rightarrow> string \<Rightarrow> string" where
  "cfg_str r name d = (case GetConfigName r name of None \<Rightarrow> d | Some v \<Rightarrow> v)"

definition cfg_int :: "CConfigFileReader \<Rightarrow> string \<Rightarrow> int \<Rightarrow> int res" where
  "cfg_int r name d = (case GetConfigName r name of None \<Rightarrow> Inr d | Some v \<Rightarrow> atoi v)"

definition cfg_port :: "CConfigFileReader \<Rightarrow> string \<Rightarrow> u16 \<Rightarrow> u16 res" where
  "cfg_port r name d =
     (case GetConfigName r name of None \<Rightarrow> Inr d
      | Some v \<Rightarrow> and_then (atoi v) (\<lambda>i. Inr (word_of_int i)))"

section \<open>The logic server\<close>

record LogicServerConfig =
  lc_bind_ip :: string
  lc_http_port :: u16
  lc_num_event_loops :: int
  lc_num_threads :: int
  lc_timeout_ms :: int
  lc_log_level :: int
  lc_kafka_brokers :: string
  lc_kafka_topic :: string

definition default_logic_config :: LogicServerConfig where
  "default_logic_config = \<lparr>lc_bind_ip = ''0.0.0.0'', lc_http_port = 8090, lc_num_event_loops = 1,
     lc_num_threads = 0, lc_timeout_ms = 1000, lc_log_level = 2, lc_kafka_brokers = ''localhost:9092'',
     lc_kafka_topic = ''my-topic''\<rparr>"

definition logic_loadFromFile :: "CConfigFileReader \<Rightarrow> LogicServerConfig \<Rightarrow> LogicServerConfig res" where
  "logic_loadFromFile r c =
     and_then (cfg_port r ''http_bind_port'' (lc_http_port c)) (\<lambda>port.
     and_then (cfg_int r ''num_event_loops'' (lc_num_event_loops c)) (\<lambda>loops.
     and_then (cfg_int r ''num_threads'' (lc_num_threads c)) (\<lambda>threads.
     and_then (cfg_int r ''timeout_ms'' (lc_timeout_ms c)) (\<lambda>timeout.
     and_then (cfg_int r ''log_level'' (lc_log_level c)) (\<lambda>level.
       Inr \<lparr>lc_bind_ip = cfg_str r ''http_bind_ip'' (lc_bind_ip c), lc_http_port = port,
            lc_num_event_loops = loops, lc_num_threads = threads, lc_timeout_ms = timeout,
            lc_log_level = level, lc_kafka_brokers = cfg_str r ''kafka_brokers'' (lc_kafka_brokers c),
            lc_kafka_topic = cfg_str r ''kafka_topic'' (lc_kafka_topic c)\<rparr>)))))"

section \<open>The comet server\<close>

record CometServerConfig =
  cc_bind_ip :: string
  cc_http_port :: u16
  cc_grpc_bind_ip :: string
  cc_grpc_port :: u16
  cc_num_event_loops :: int
  cc_num_threads :: int
  cc_timeout_ms :: int
  cc_log_level :: int

definition default_comet_config :: CometServerConfig where
  "default_comet_config = \<lparr>cc_bind_ip = ''0.0.0.0'', cc_http_port = 8080, cc_grpc_bind_ip = ''0.0.0.0'',
     cc_grpc_port = 50051, cc_num_event_loops = 0, cc_num_threads = 4, cc_timeout_ms = 1000,
     cc_log_level = 2\<rparr>"

text \<open>The bind address is not read.\<close>

definition comet_loadFromFile :: "CConfigFileReader \<Rightarrow> CometServerConfig \<Rightarrow> CometServerConfig res" where
  "comet_loadFromFile r c =
     and_then (cfg_int r ''log_level'' (cc_log_level c)) (\<lambda>level.
     and_then (cfg_int r ''num_event_loops'' (cc_num_event_loops c)) (\<lambda>loops.
     and_then (cfg_int r ''num_threads'' (cc_num_threads c)) (\<lambda>threads.
     and_then (cfg_port r ''http_bind_port'' (cc_http_port c)) (\<lambda>port.
     and_then (cfg_port r ''grpc_bind_port'' (cc_grpc_port c)) (\<lambda>grpc.
     and_then (cfg_int r ''timeout_ms'' (cc_timeout_ms c)) (\<lambda>timeout.
       Inr (c\<lparr>cc_http_port := port, cc_grpc_bind_ip := cfg_str r ''grpc_bind_ip'' (cc_grpc_bind_ip c),
              cc_grpc_port := grpc, cc_num_event_loops := loops, cc_num_threads := threads,
              cc_timeout_ms := timeout, cc_log_level := level\<rparr>)))))))"

record LogicConfig =
  logic_server_url :: string
  connect_timeout :: int
  request_timeout :: int

definition default_LogicConfig :: LogicConfig where
  "default_LogicConfig = \<lparr>logic_server_url = ''http://localhost:8090'', connect_timeout = 3,
     request_timeout = 5\<rparr>"

definition LogicConfig_init :: "CConfigFileReader \<Rightarrow> LogicConfig \<Rightarrow> LogicConfig res" where
  "LogicConfig_init r c =
     (let url = (case (GetConfigName r ''logic_server_host'', GetConfigName r ''logic_server_port'') of
                   (Some host, Some port) \<Rightarrow> ''http://'' @ host @ '':'' @ port
                 | _ \<Rightarrow> logic_server_url c) in
      and_then (cfg_int r ''logic_connect_timeout'' (connect_timeout c)) (\<lambda>ct.
      and_then (cfg_int r ''logic_request_timeout'' (request_timeout c)) (\<lambda>rt.
        Inr \<lparr>logic_server_url = url, connect_timeout = ct, request_timeout = rt\<rparr>)))"

section \<open>The job server\<close>

definition job_comet_server :: "CConfigFileReader \<Rightarrow> string" where
  "job_comet_server r = cfg_str r ''comet_server'' ''chatroom-app:50051''"

definition job_kafka :: "CConfigFileReader \<Rightarrow> string \<times> string" where
  "job_kafka r = (cfg_str r ''kafka_brokers'' ''localhost:9092'', cfg_str r ''kafka_topic'' ''my-topic'')"

section \<open>Lemmas\<close>

text \<open>
  A port written in the file is the port that is used, as long as it fits 16
  bits; a file that cannot be opened leaves every default.
\<close>

lemma cfg_port_dec:
  assumes "GetConfigName r name = Some (dec p)" "p < 2 ^ 16"
  shows "\<exists>w. cfg_port r name d = Inr w \<and> unat w = p"
proof -
  have "atoi (dec p) = Inr (int p)" using assms(2) by (simp add: atoi_dec)
  then show ?thesis
    using assms by (intro exI [of _ "word_of_nat p"]) (simp add: cfg_port_def unat_word_of_nat)
qed

lemma config_defaults:
  assumes "\<not> load_ok r"
  shows "logic_loadFromFile r c = Inr c" "comet_loadFromFile r c' = Inr c'"
    "LogicConfig_init r lc = Inr lc"
  using assms
  by (simp_all add: logic_loadFromFile_def comet_loadFromFile_def LogicConfig_init_def cfg_str_def
      cfg_int_def cfg_port_def GetConfigName_def)

end
