(* ===== verification/JobServer.thy ===== *)
theory JobServer
  imports Kafka ServerConfigs
begin

text \<open>
  The job server of \<^verbatim>\<open>job/main.cc\<close>: a loop that takes messages from Kafka and hands
  them to the comet server by gRPC, with up to three attempts each. The gRPC stub is a
  parameter over an unknown state: a call gives a status, and a lost channel is
  created again. Protobuf parsing is a parameter too.
\<close>

section \<open>The gRPC client\<close>

datatype grpc_status = GRPC_OK | UNAVAILABLE | CANCELLED | GRPC_ERROR

record 'g comet_stub =
  stub_BroadcastRoom :: "string \<Rightarrow> int \<Rightarrow> string \<Rightarrow> 'g \<Rightarrow> grpc_status \<times> 'g"  \<comment> \<open>room, operation, body\<close>
  stub_Broadcast :: "int \<Rightarrow> string \<Rightarrow> 'g \<Rightarrow> grpc_status \<times> 'g"
  recreateConnection :: "'g \<Rightarrow> 'g"

definition MAX_RETRIES :: nat where "MAX_RETRIES = 3"

text \<open>What happens between two attempts: a new channel after a connection problem.\<close>

definition after_failure :: "'g comet_stub \<Rightarrow> grpc_status \<Rightarrow> 'g \<Rightarrow> 'g" where
  "after_failure S status g =
     (if status = UNAVAILABLE \<or> status = CANCELLED then recreateConnection S g else g)"

fun attempt :: "'g comet_stub \<Rightarrow> ('g \<Rightarrow> grpc_status \<times> 'g) \<Rightarrow> nat \<Rightarrow> 'g \<Rightarrow> bool \<times> 'g" where
  "attempt S call 0 g = (False, g)"
| "attempt S call (Suc n) g =
     (let (status, g) = call g in
      if status = GRPC_OK then (True, g) else attempt S call n (after_failure S status g))"

definition broadcastRoom :: "'g comet_stub \<Rightarrow> string \<Rightarrow> string \<Rightarrow> 'g \<Rightarrow> bool \<times> 'g" where
  "broadcastRoom S roomId msgContent g =
     attempt S (stub_BroadcastRoom S roomId 4 msgContent) MAX_RETRIES g"

definition broadcast :: "'g comet_stub \<Rightarrow> string \<Rightarrow> 'g \<Rightarrow> bool \<times> 'g" where
  "broadcast S msgContent g = attempt S (stub_Broadcast S 5 msgContent) MAX_RETRIES g"

section \<open>The consumer loop\<close>

definition deliver :: "'g comet_stub \<Rightarrow> PushMsg \<Rightarrow> 'g \<Rightarrow> bool \<times> 'g" where
  "deliver S pushMsg g =
     (case pm_type pushMsg of
        BROADCAST \<Rightarrow> broadcast S (pm_msg pushMsg) g
      | PUSH \<Rightarrow> broadcastRoom S (pm_room pushMsg) (pm_msg pushMsg) g
      | ROOM \<Rightarrow> broadcastRoom S (pm_room pushMsg) (pm_msg pushMsg) g)"

definition job_step ::
    "'k rdkafka \<Rightarrow> 'g comet_stub \<Rightarrow> (string \<Rightarrow> PushMsg option) \<Rightarrow> 'k \<times> 'g \<Rightarrow> 'k \<times> 'g" where
  "job_step K S parse = (\<lambda>(k, g).
     let (message, k) = consume K 1000 k in
     if message = [] then (k, g)
     else case parse message of
       None \<Rightarrow> (k, g)
     | Some pushMsg \<Rightarrow> (k, snd (deliver S pushMsg g)))"

text \<open>The loop has no end; \<open>n\<close> rounds of it.\<close>

definition job_run ::
    "'k rdkafka \<Rightarrow> 'g comet_stub \<Rightarrow> (string \<Rightarrow> PushMsg option) \<Rightarrow> nat \<Rightarrow> 'k \<times> 'g \<Rightarrow> 'k \<times> 'g" where
  "job_run K S parse n = job_step K S parse ^^ n"

text \<open>The start: \<open>None\<close> when the consumer cannot be set up.\<close>

definition job_start :: "'k rdkafka \<Rightarrow> CConfigFileReader \<Rightarrow> 'k \<Rightarrow> (KafkaConsumer \<times> 'k) option" where
  "job_start K r k =
     (let (kafka_brokers, kafka_topic) = job_kafka r;
          (ok, c) = consumer_init K (newKafkaConsumer kafka_brokers kafka_topic) in
      if \<not> ok then None
      else let (ok, k) = subscribe K c k in if \<not> ok then None else Some (c, k))"

section \<open>Lemmas\<close>

text \<open>The state before the \<open>i\<close>-th attempt when all earlier ones failed.\<close>

primrec before_attempt :: "'g comet_stub \<Rightarrow> ('g \<Rightarrow> grpc_status \<times> 'g) \<Rightarrow> nat \<Rightarrow> 'g \<Rightarrow> 'g" where
  "before_attempt S call 0 g = g"
| "before_attempt S call (Suc i) g =
     before_attempt S call i (after_failure S (fst (call g)) (snd (call g)))"

lemma attempt_spec:
  "(\<exists>i<n. fst (call (before_attempt S call i g)) = GRPC_OK
      \<and> (\<forall>j<i. fst (call (before_attempt S call j g)) \<noteq> GRPC_OK)
      \<and> attempt S call n g = (True, snd (call (before_attempt S call i g))))
   \<or> (\<forall>j<n. fst (call (before_attempt S call j g)) \<noteq> GRPC_OK)
      \<and> attempt S call n g = (False, before_attempt S call n g)"
proof (induction n arbitrary: g)
  case (Suc n)
  show ?case
  proof (cases "fst (call g) = GRPC_OK")
    case True
    then show ?thesis by (intro disjI1 exI [of _ 0]) (simp add: split_beta)
  next
    case False
    let ?g = "after_failure S (fst (call g)) (snd (call g))"
    have step: "attempt S call (Suc n) g = attempt S call n ?g" using False by (simp add: split_beta)
    from Suc [of ?g] show ?thesis
    proof (elim disjE exE conjE)
      fix i
      assume i: "i < n" "fst (call (before_attempt S call i ?g)) = GRPC_OK"
        "\<forall>j<i. fst (call (before_attempt S call j ?g)) \<noteq> GRPC_OK"
        "attempt S call n ?g = (True, snd (call (before_attempt S call i ?g)))"
      have "\<forall>j<Suc i. fst (call (before_attempt S call j g)) \<noteq> GRPC_OK"
        using i(3) False by (auto simp: less_Suc_eq_0_disj)
      with i step show ?thesis by (intro disjI1 exI [of _ "Suc i"]) simp
    next
      assume "\<forall>j<n. fst (call (before_attempt S call j ?g)) \<noteq> GRPC_OK"
        "attempt S call n ?g = (False, before_attempt S call n ?g)"
      with step False show ?thesis by (intro disjI2) (auto simp: less_Suc_eq_0_disj)
    qed
  qed
qed simp

lemma job_step_eq:
  assumes "rk_consume K 1000 k = ((ERR_NO_ERROR, Some w), k')" "w \<noteq> []" "parse w = Some P"
  shows "job_step K S parse (k, g) = (k', snd (deliver S P g))"
  using assms by (simp add: job_step_def consume_def)

lemma broadcastRoom_first:
  assumes "stub_BroadcastRoom S rid 4 body g = (GRPC_OK, g')"
  shows "broadcastRoom S rid body g = (True, g')"
  using assms by (simp add: broadcastRoom_def MAX_RETRIES_def eval_nat_numeral)

lemma broadcast_first:
  assumes "stub_Broadcast S 5 body g = (GRPC_OK, g')"
  shows "broadcast S body g = (True, g')"
  using assms by (simp add: broadcast_def MAX_RETRIES_def eval_nat_numeral)

section \<open>Properties\<close>

text \<open>
  A room message taken from Kafka is delivered by at most three calls of
  \<^verbatim>\<open>BroadcastRoom\<close>, all with the room and text of the message: the calls stop at the
  first that succeeds, whose state is the result, or all three fail and the
  message is dropped. Either way it is taken from Kafka exactly once.
\<close>

theorem job_room_delivery:
  fixes S :: "'g comet_stub"
  assumes "rk_consume K 1000 k = ((ERR_NO_ERROR, Some w), k')" "w \<noteq> []" "parse w = Some P"
    and "pm_type P = PUSH \<or> pm_type P = ROOM"
  defines "call \<equiv> stub_BroadcastRoom S (pm_room P) 4 (pm_msg P)"
  shows "\<exists>g'. job_step K S parse (k, g) = (k', g')
    \<and> ((\<exists>i<3. fst (call (before_attempt S call i g)) = GRPC_OK
          \<and> (\<forall>j<i. fst (call (before_attempt S call j g)) \<noteq> GRPC_OK)
          \<and> g' = snd (call (before_attempt S call i g)))
       \<or> (\<forall>j<3. fst (call (before_attempt S call j g)) \<noteq> GRPC_OK) \<and> g' = before_attempt S call 3 g)"
proof -
  have "snd (deliver S P g) = snd (attempt S call 3 g)"
    using assms(4) by (auto simp: deliver_def broadcastRoom_def MAX_RETRIES_def call_def)
  with job_step_eq [of K k w k' parse P S g] assms(1-3)
  have "job_step K S parse (k, g) = (k', snd (attempt S call 3 g))" by simp
  then show ?thesis using attempt_spec [of 3 call S g] by (metis snd_conv)
qed

definition flaky_stub :: "nat comet_stub" where
  "flaky_stub = \<lparr>stub_BroadcastRoom = (\<lambda>_ _ _ g. (if g = 2 then GRPC_OK else UNAVAILABLE, g)),
     stub_Broadcast = (\<lambda>_ _ g. (GRPC_OK, g)), recreateConnection = Suc\<rparr>"

definition sample_push :: PushMsg where
  "sample_push = \<lparr>pm_type = PUSH, pm_operation = 4, pm_room = ''r1'', pm_msg = ''hi''\<rparr>"

theorem job_room_delivery_witness:
  "\<exists>g'. job_step queue_kafka flaky_stub (\<lambda>_. Some sample_push) (([], [''m'']), 0) = (([], []), g')
     \<and> g' \<in> {2, 3}"
  using job_room_delivery [of queue_kafka "([], [''m''])" "''m''" "([], [])" "\<lambda>_. Some sample_push" sample_push
      flaky_stub 0]
  by (auto simp: queue_kafka_def sample_push_def flaky_stub_def after_failure_def numeral_3_eq_3
      less_Suc_eq split: if_splits)

end
