(* ===== verification/HttpParser.thy ===== *)
theory HttpParser
  imports ChatPrelude
begin

text \<open>
  The HTTP parser of the comet server, \<^verbatim>\<open>chat-room/service/http_parser.cc\<close>, compiled in strict mode as
  \<^verbatim>\<open>http_parser.h\<close> sets it. One definition per block of the \<^verbatim>\<open>switch\<close> over the parser's state; a jump to
  \<^verbatim>\<open>reexecute_byte\<close> continues with the block of the state set before it. Data callbacks get the bytes from the
  mark on and a length; marks are positions in the data. Callbacks may fail but do not change the
  parser. A violated assertion or an index outside a table is \<open>Inl\<close>.
\<close>

section \<open>Types\<close>

datatype (plugins only: code) http_method =
    HTTP_DELETE | HTTP_GET | HTTP_HEAD | HTTP_POST | HTTP_PUT | HTTP_CONNECT | HTTP_OPTIONS | HTTP_TRACE
  | HTTP_COPY | HTTP_LOCK | HTTP_MKCOL | HTTP_MOVE | HTTP_PROPFIND | HTTP_PROPPATCH | HTTP_SEARCH | HTTP_UNLOCK
  | HTTP_REPORT | HTTP_MKACTIVITY | HTTP_CHECKOUT | HTTP_MERGE | HTTP_MSEARCH | HTTP_NOTIFY | HTTP_SUBSCRIBE
  | HTTP_UNSUBSCRIBE | HTTP_PATCH | HTTP_PURGE

text \<open>The preprocessor turns the argument \<^verbatim>\<open>M - SEARCH\<close> into a string with blanks.\<close>

fun method_string :: "http_method \<Rightarrow> string" where
  "method_string HTTP_DELETE = ''DELETE''"
| "method_string HTTP_GET = ''GET''"
| "method_string HTTP_HEAD = ''HEAD''"
| "method_string HTTP_POST = ''POST''"
| "method_string HTTP_PUT = ''PUT''"
| "method_string HTTP_CONNECT = ''CONNECT''"
| "method_string HTTP_OPTIONS = ''OPTIONS''"
| "method_string HTTP_TRACE = ''TRACE''"
| "method_string HTTP_COPY = ''COPY''"
| "method_string HTTP_LOCK = ''LOCK''"
| "method_string HTTP_MKCOL = ''MKCOL''"
| "method_string HTTP_MOVE = ''MOVE''"
| "method_string HTTP_PROPFIND = ''PROPFIND''"
| "method_string HTTP_PROPPATCH = ''PROPPATCH''"
| "method_string HTTP_SEARCH = ''SEARCH''"
| "method_string HTTP_UNLOCK = ''UNLOCK''"
| "method_string HTTP_REPORT = ''REPORT''"
| "method_string HTTP_MKACTIVITY = ''MKACTIVITY''"
| "method_string HTTP_CHECKOUT = ''CHECKOUT''"
| "method_string HTTP_MERGE = ''MERGE''"
| "method_string HTTP_MSEARCH = ''M - SEARCH''"
| "method_string HTTP_NOTIFY = ''NOTIFY''"
| "method_string HTTP_SUBSCRIBE = ''SUBSCRIBE''"
| "method_string HTTP_UNSUBSCRIBE = ''UNSUBSCRIBE''"
| "method_string HTTP_PATCH = ''PATCH''"
| "method_string HTTP_PURGE = ''PURGE''"

datatype http_parser_type = HTTP_REQUEST | HTTP_RESPONSE | HTTP_BOTH

datatype (plugins only: code) pstate =
    s_dead | s_start_req_or_res | s_res_or_resp_H | s_start_res | s_res_H | s_res_HT | s_res_HTT | s_res_HTTP
  | s_res_first_http_major | s_res_http_major | s_res_first_http_minor | s_res_http_minor | s_res_first_status_code
  | s_res_status_code | s_res_status | s_res_line_almost_done | s_start_req | s_req_method | s_req_spaces_before_url
  | s_req_schema | s_req_schema_slash | s_req_schema_slash_slash | s_req_server_start | s_req_server
  | s_req_server_with_at | s_req_path | s_req_query_string_start | s_req_query_string | s_req_fragment_start
  | s_req_fragment | s_req_http_start | s_req_http_H | s_req_http_HT | s_req_http_HTT | s_req_http_HTTP
  | s_req_first_http_major | s_req_http_major | s_req_first_http_minor | s_req_http_minor | s_req_line_almost_done
  | s_header_field_start | s_header_field | s_header_value_start | s_header_value | s_header_value_lws
  | s_header_almost_done | s_chunk_size_start | s_chunk_size | s_chunk_parameters | s_chunk_size_almost_done
  | s_headers_almost_done | s_headers_done | s_chunk_data | s_chunk_data_almost_done | s_chunk_data_done
  | s_body_identity | s_body_identity_eof | s_message_done

definition parsing_header :: "pstate \<Rightarrow> bool" where
  "parsing_header s \<longleftrightarrow> s \<notin> {s_chunk_data, s_chunk_data_almost_done, s_chunk_data_done, s_body_identity,
     s_body_identity_eof, s_message_done}"

datatype (plugins only: code) header_states =
    h_general | h_C | h_CO | h_CON | h_matching_connection | h_matching_proxy_connection
  | h_matching_content_length | h_matching_transfer_encoding | h_matching_upgrade | h_connection | h_content_length
  | h_transfer_encoding | h_upgrade | h_matching_transfer_encoding_chunked | h_matching_connection_keep_alive
  | h_matching_connection_close | h_transfer_encoding_chunked | h_connection_keep_alive | h_connection_close

datatype data_cb = CB_url | CB_header_field | CB_header_value | CB_body

datatype notify_cb = CB_message_begin | CB_status_complete | CB_headers_complete | CB_message_complete

datatype http_errno =
    HPE_OK | HPE_CB_notify notify_cb | HPE_CB_data data_cb | HPE_INVALID_EOF_STATE | HPE_HEADER_OVERFLOW
  | HPE_CLOSED_CONNECTION | HPE_INVALID_VERSION | HPE_INVALID_STATUS | HPE_INVALID_METHOD | HPE_INVALID_URL
  | HPE_LF_EXPECTED | HPE_INVALID_HEADER_TOKEN | HPE_INVALID_CONTENT_LENGTH | HPE_INVALID_CHUNK_SIZE
  | HPE_INVALID_CONSTANT | HPE_STRICT | HPE_PAUSED | HPE_UNKNOWN

record http_flags =
  F_CHUNKED :: bool
  F_CONNECTION_KEEP_ALIVE :: bool
  F_CONNECTION_CLOSE :: bool
  F_TRAILING :: bool
  F_UPGRADE :: bool
  F_SKIPBODY :: bool

definition no_flags :: http_flags where
  "no_flags = \<lparr>F_CHUNKED = False, F_CONNECTION_KEEP_ALIVE = False, F_CONNECTION_CLOSE = False, F_TRAILING = False,
     F_UPGRADE = False, F_SKIPBODY = False\<rparr>"

record http_parser =
  hp_type :: http_parser_type
  hp_flags :: http_flags
  hp_state :: pstate
  hp_header_state :: header_states
  hp_index :: nat
  hp_nread :: nat
  hp_content_length :: u64
  hp_http_major :: nat
  hp_http_minor :: nat
  hp_status_code :: nat
  hp_method :: http_method
  hp_errno :: http_errno
  hp_upgrade :: bool

definition http_parser_init :: "http_parser_type \<Rightarrow> http_parser" where
  "http_parser_init t =
     \<lparr>hp_type = t, hp_flags = no_flags,
      hp_state = (case t of HTTP_REQUEST \<Rightarrow> s_start_req | HTTP_RESPONSE \<Rightarrow> s_start_res | HTTP_BOTH \<Rightarrow> s_start_req_or_res),
      hp_header_state = h_general, hp_index = 0, hp_nread = 0, hp_content_length = 0, hp_http_major = 0,
      hp_http_minor = 0, hp_status_code = 0, hp_method = HTTP_DELETE, hp_errno = HPE_OK, hp_upgrade = False\<rparr>"

text \<open>
  A data callback gets the parser, the bytes from the mark to the end of the data and the length. A
  callback that is not set is \<open>None\<close>.
\<close>

record 'o http_parser_settings =
  on_data :: "data_cb \<Rightarrow> (http_parser \<Rightarrow> string \<Rightarrow> nat \<Rightarrow> 'o \<Rightarrow> (int \<times> 'o) res) option"
  on_notify :: "notify_cb \<Rightarrow> (http_parser \<Rightarrow> 'o \<Rightarrow> (int \<times> 'o) res) option"

section \<open>Characters\<close>

text \<open>\<^verbatim>\<open>c | 0x20\<close>.\<close>

fun LOWER :: "char \<Rightarrow> char" where
  "LOWER (Char b0 b1 b2 b3 b4 b5 b6 b7) = Char b0 b1 b2 b3 b4 True b6 b7"

definition IS_ALPHA :: "char \<Rightarrow> bool" where
  "IS_ALPHA c \<longleftrightarrow> 97 \<le> (of_char (LOWER c) :: nat) \<and> (of_char (LOWER c) :: nat) \<le> 122"

definition IS_ALPHANUM :: "char \<Rightarrow> bool" where
  "IS_ALPHANUM c \<longleftrightarrow> IS_ALPHA c \<or> is_digit c"

definition IS_HEX :: "char \<Rightarrow> bool" where
  "IS_HEX c \<longleftrightarrow> is_digit c \<or> 97 \<le> (of_char (LOWER c) :: nat) \<and> (of_char (LOWER c) :: nat) \<le> 102"

definition IS_MARK :: "char \<Rightarrow> bool" where
  "IS_MARK c \<longleftrightarrow> c \<in> set (''-_.!~*()'' @ [CHR 0x27])"

definition IS_USERINFO_CHAR :: "char \<Rightarrow> bool" where
  "IS_USERINFO_CHAR c \<longleftrightarrow> IS_ALPHANUM c \<or> IS_MARK c \<or> c \<in> set ''%;:&=+$,''"

definition IS_HOST_CHAR :: "char \<Rightarrow> bool" where
  "IS_HOST_CHAR c \<longleftrightarrow> IS_ALPHANUM c \<or> c = CHR ''.'' \<or> c = CHR ''-''"

text \<open>The table of tokens, in lower case; the second half of the table is zero.\<close>

definition tokens :: "nat list" where
  "tokens =
     [0, 0, 0, 0, 0, 0, 0, 0,
      0, 0, 0, 0, 0, 0, 0, 0,
      0, 0, 0, 0, 0, 0, 0, 0,
      0, 0, 0, 0, 0, 0, 0, 0,
      0, 33, 0, 35, 36, 37, 38, 39,
      0, 0, 42, 43, 0, 45, 46, 0,
      48, 49, 50, 51, 52, 53, 54, 55,
      56, 57, 0, 0, 0, 0, 0, 0,
      0, 97, 98, 99, 100, 101, 102, 103,
      104, 105, 106, 107, 108, 109, 110, 111,
      112, 113, 114, 115, 116, 117, 118, 119,
      120, 121, 122, 0, 0, 0, 94, 95,
      96, 97, 98, 99, 100, 101, 102, 103,
      104, 105, 106, 107, 108, 109, 110, 111,
      112, 113, 114, 115, 116, 117, 118, 119,
      120, 121, 122, 0, 124, 0, 126, 0] @ replicate 128 0"

definition TOKEN :: "char \<Rightarrow> char" where
  "TOKEN c = char_of (tokens ! of_char c)"

text \<open>The table of hexadecimal digits; only its first half is written down, the rest is zero.\<close>

definition unhex :: "int list" where
  "unhex = replicate 48 (- 1) @ [0, 1, 2, 3, 4, 5, 6, 7, 8, 9] @ replicate 7 (- 1) @ [10, 11, 12, 13, 14, 15]
     @ replicate 26 (- 1) @ [10, 11, 12, 13, 14, 15] @ replicate 25 (- 1) @ replicate 128 0"

definition normal_url_char :: "nat list" where
  "normal_url_char =
     [0, 0, 0, 0, 2 + 4 + 16 + 32 + 64 + 128, 255, 255, 127,
      255, 255, 255, 255, 255, 255, 255, 127] @ replicate 16 0"

definition IS_URL_CHAR :: "char \<Rightarrow> bool" where
  "IS_URL_CHAR c \<longleftrightarrow> bit (normal_url_char ! (of_char c div 8)) (of_char c mod 8)"

definition CR :: char where "CR = CHR 0x0D"
definition LF :: char where "LF = CHR 0x0A"

section \<open>URLs\<close>

definition parse_url_char :: "pstate \<Rightarrow> char \<Rightarrow> pstate" where
  "parse_url_char s ch =
     (if ch = CHR '' '' \<or> ch = CR \<or> ch = LF then s_dead
      else if ch = CHR 0x09 \<or> ch = CHR 0x0C then s_dead
      else case s of
        s_req_spaces_before_url \<Rightarrow>
          if ch = CHR ''/'' \<or> ch = CHR ''*'' then s_req_path else if IS_ALPHA ch then s_req_schema else s_dead
      | s_req_schema \<Rightarrow> if IS_ALPHA ch then s else if ch = CHR '':'' then s_req_schema_slash else s_dead
      | s_req_schema_slash \<Rightarrow> if ch = CHR ''/'' then s_req_schema_slash_slash else s_dead
      | s_req_schema_slash_slash \<Rightarrow> if ch = CHR ''/'' then s_req_server_start else s_dead
      | s_req_path \<Rightarrow>
          if IS_URL_CHAR ch then s
          else if ch = CHR ''?'' then s_req_query_string_start else if ch = CHR ''#'' then s_req_fragment_start else s_dead
      | s_req_fragment_start \<Rightarrow>
          if IS_URL_CHAR ch \<or> ch = CHR ''?'' then s_req_fragment else if ch = CHR ''#'' then s else s_dead
      | s_req_fragment \<Rightarrow> if IS_URL_CHAR ch \<or> ch = CHR ''?'' \<or> ch = CHR ''#'' then s else s_dead
      | _ \<Rightarrow>
          if s = s_req_query_string_start \<or> s = s_req_query_string then
            if IS_URL_CHAR ch \<or> ch = CHR ''?'' then s_req_query_string
            else if ch = CHR ''#'' then s_req_fragment_start else s_dead
          else if s = s_req_server_with_at \<and> ch = CHR ''@'' then s_dead
          else if s = s_req_server_with_at \<or> s = s_req_server_start \<or> s = s_req_server then
            if ch = CHR ''/'' then s_req_path
            else if ch = CHR ''?'' then s_req_query_string_start
            else if ch = CHR ''@'' then s_req_server_with_at
            else if IS_USERINFO_CHAR ch \<or> ch = CHR ''['' \<or> ch = CHR '']'' then s_req_server
            else s_dead
          else s_dead)"

section \<open>The state of a run\<close>

record 'o run =
  prs :: http_parser
  marks :: "data_cb \<Rightarrow> nat option"
  robject :: 'o

text \<open>How the block for a byte ends: the loop goes on behind position \<open>n\<close>, the function returns, or it jumps to \<^verbatim>\<open>error\<close>.\<close>

datatype 'o outcome = Go nat "'o run" | Return nat "'o run" | Goto_error nat "'o run"

definition upd :: "(http_parser \<Rightarrow> http_parser) \<Rightarrow> 'o run \<Rightarrow> 'o run" where
  "upd f r = r\<lparr>prs := f (prs r)\<rparr>"

definition set_state :: "pstate \<Rightarrow> 'o run \<Rightarrow> 'o run" where
  "set_state s = upd (\<lambda>q. q\<lparr>hp_state := s\<rparr>)"

definition set_errno :: "http_errno \<Rightarrow> 'o run \<Rightarrow> 'o run" where
  "set_errno e = upd (\<lambda>q. q\<lparr>hp_errno := e\<rparr>)"

definition fail :: "http_errno \<Rightarrow> nat \<Rightarrow> 'o run \<Rightarrow> 'o outcome res" where
  "fail e p r = Inr (Goto_error p (set_errno e r))"

definition strict_check :: "bool \<Rightarrow> nat \<Rightarrow> 'o run \<Rightarrow> 'o outcome res \<Rightarrow> 'o outcome res" where
  "strict_check bad p r k = (if bad then fail HPE_STRICT p r else k)"

definition MARK :: "data_cb \<Rightarrow> nat \<Rightarrow> 'o run \<Rightarrow> 'o run" where
  "MARK k p r = (if marks r k = None then r\<lparr>marks := (marks r)(k := Some p)\<rparr> else r)"

text \<open>
  \<^verbatim>\<open>CALLBACK_DATA_\<close>: \<open>en\<close> is the end of the reported bytes and \<open>er\<close> what is returned when the callback fails.
\<close>

definition callback_data :: "'o http_parser_settings \<Rightarrow> string \<Rightarrow> data_cb \<Rightarrow> nat \<Rightarrow> nat \<Rightarrow> 'o run
    \<Rightarrow> ('o run \<Rightarrow> 'o outcome res) \<Rightarrow> 'o outcome res" where
  "callback_data S data k en er r cont =
     cpp_assert (hp_errno (prs r) = HPE_OK)
       (case marks r k of
          None \<Rightarrow> cont r
        | Some m \<Rightarrow>
            let r' = r\<lparr>marks := (marks r)(k := None)\<rparr> in
            (case on_data S k of
               None \<Rightarrow> cont r'
             | Some f \<Rightarrow>
                 and_then (f (prs r) (drop m data) (en - m) (robject r)) (\<lambda>(res, ob).
                   if res \<noteq> 0 then Inr (Return er (set_errno (HPE_CB_data k) (r\<lparr>robject := ob\<rparr>)))
                   else cont (r'\<lparr>robject := ob\<rparr>))))"

text \<open>\<^verbatim>\<open>CALLBACK_NOTIFY_\<close>.\<close>

definition callback_notify :: "'o http_parser_settings \<Rightarrow> notify_cb \<Rightarrow> nat \<Rightarrow> 'o run
    \<Rightarrow> ('o run \<Rightarrow> 'o outcome res) \<Rightarrow> 'o outcome res" where
  "callback_notify S k er r cont =
     cpp_assert (hp_errno (prs r) = HPE_OK)
       (case on_notify S k of
          None \<Rightarrow> cont r
        | Some f \<Rightarrow>
            and_then (f (prs r) (robject r)) (\<lambda>(res, ob).
              if res \<noteq> 0 then Inr (Return er (set_errno (HPE_CB_notify k) (r\<lparr>robject := ob\<rparr>)))
              else cont (r\<lparr>robject := ob\<rparr>)))"

definition http_message_needs_eof :: "http_parser \<Rightarrow> bool" where
  "http_message_needs_eof q \<longleftrightarrow>
     \<not> (hp_type q = HTTP_REQUEST
        \<or> hp_status_code q div 100 = 1 \<or> hp_status_code q = 204 \<or> hp_status_code q = 304 \<or> F_SKIPBODY (hp_flags q)
        \<or> F_CHUNKED (hp_flags q) \<or> hp_content_length q \<noteq> - 1)"

definition http_should_keep_alive :: "http_parser \<Rightarrow> bool" where
  "http_should_keep_alive q \<longleftrightarrow>
     (if 0 < hp_http_major q \<and> 0 < hp_http_minor q then \<not> F_CONNECTION_CLOSE (hp_flags q)
      else F_CONNECTION_KEEP_ALIVE (hp_flags q))
     \<and> \<not> http_message_needs_eof q"

definition NEW_MESSAGE :: "http_parser \<Rightarrow> pstate" where
  "NEW_MESSAGE q =
     (if http_should_keep_alive q then if hp_type q = HTTP_REQUEST then s_start_req else s_start_res else s_dead)"

text \<open>The message is complete: \<^verbatim>\<open>parser->state = NEW_MESSAGE(); CALLBACK_NOTIFY(message_complete);\<close>\<close>

definition complete :: "'o http_parser_settings \<Rightarrow> nat \<Rightarrow> 'o run \<Rightarrow> ('o run \<Rightarrow> 'o outcome res) \<Rightarrow> 'o outcome res" where
  "complete S p r cont =
     callback_notify S CB_message_complete (p + 1) (set_state (NEW_MESSAGE (prs r)) r) cont"

section \<open>The start line\<close>

definition start_line :: "'o run \<Rightarrow> 'o run" where
  "start_line = upd (\<lambda>q. q\<lparr>hp_flags := no_flags, hp_content_length := - 1\<rparr>)"

definition step_dead :: "char \<Rightarrow> nat \<Rightarrow> 'o run \<Rightarrow> 'o outcome res" where
  "step_dead ch p r = (if ch = CR \<or> ch = LF then Inr (Go p r) else fail HPE_CLOSED_CONNECTION p r)"

fun first_method :: "char \<Rightarrow> http_method option" where
  "first_method ch =
     (if ch = CHR ''C'' then Some HTTP_CONNECT
      else if ch = CHR ''D'' then Some HTTP_DELETE
      else if ch = CHR ''G'' then Some HTTP_GET
      else if ch = CHR ''H'' then Some HTTP_HEAD
      else if ch = CHR ''L'' then Some HTTP_LOCK
      else if ch = CHR ''M'' then Some HTTP_MKCOL
      else if ch = CHR ''N'' then Some HTTP_NOTIFY
      else if ch = CHR ''O'' then Some HTTP_OPTIONS
      else if ch = CHR ''P'' then Some HTTP_POST
      else if ch = CHR ''R'' then Some HTTP_REPORT
      else if ch = CHR ''S'' then Some HTTP_SUBSCRIBE
      else if ch = CHR ''T'' then Some HTTP_TRACE
      else if ch = CHR ''U'' then Some HTTP_UNLOCK
      else None)"

definition step_start_req :: "'o http_parser_settings \<Rightarrow> char \<Rightarrow> nat \<Rightarrow> 'o run \<Rightarrow> 'o outcome res" where
  "step_start_req S ch p r =
     (if ch = CR \<or> ch = LF then Inr (Go p r)
      else let r = start_line r in
        if \<not> IS_ALPHA ch then fail HPE_INVALID_METHOD p r
        else case first_method ch of
          None \<Rightarrow> fail HPE_INVALID_METHOD p (upd (\<lambda>q. q\<lparr>hp_method := HTTP_DELETE, hp_index := 1\<rparr>) r)
        | Some m \<Rightarrow>
            callback_notify S CB_message_begin (p + 1)
              (set_state s_req_method (upd (\<lambda>q. q\<lparr>hp_method := m, hp_index := 1\<rparr>) r)) (\<lambda>r. Inr (Go p r)))"

definition step_start_req_or_res :: "'o http_parser_settings \<Rightarrow> char \<Rightarrow> nat \<Rightarrow> 'o run \<Rightarrow> 'o outcome res" where
  "step_start_req_or_res S ch p r =
     (if ch = CR \<or> ch = LF then Inr (Go p r)
      else let r = start_line r in
        if ch = CHR ''H'' then
          callback_notify S CB_message_begin (p + 1) (set_state s_res_or_resp_H r) (\<lambda>r. Inr (Go p r))
        else step_start_req S ch p (set_state s_start_req (upd (\<lambda>q. q\<lparr>hp_type := HTTP_REQUEST\<rparr>) r)))"

definition step_res_or_resp_H :: "char \<Rightarrow> nat \<Rightarrow> 'o run \<Rightarrow> 'o outcome res" where
  "step_res_or_resp_H ch p r =
     (if ch = CHR ''T'' then Inr (Go p (set_state s_res_HT (upd (\<lambda>q. q\<lparr>hp_type := HTTP_RESPONSE\<rparr>) r)))
      else if ch \<noteq> CHR ''E'' then fail HPE_INVALID_CONSTANT p r
      else Inr (Go p (set_state s_req_method
             (upd (\<lambda>q. q\<lparr>hp_type := HTTP_REQUEST, hp_method := HTTP_HEAD, hp_index := 2\<rparr>) r))))"

definition step_start_res :: "'o http_parser_settings \<Rightarrow> char \<Rightarrow> nat \<Rightarrow> 'o run \<Rightarrow> 'o outcome res" where
  "step_start_res S ch p r =
     (let r = start_line r in
      if ch = CHR ''H'' then callback_notify S CB_message_begin (p + 1) (set_state s_res_H r) (\<lambda>r. Inr (Go p r))
      else if ch = CR \<or> ch = LF then callback_notify S CB_message_begin (p + 1) r (\<lambda>r. Inr (Go p r))
      else fail HPE_INVALID_CONSTANT p r)"

text \<open>A state in which one character is expected.\<close>

definition step_expect :: "char \<Rightarrow> pstate \<Rightarrow> char \<Rightarrow> nat \<Rightarrow> 'o run \<Rightarrow> 'o outcome res" where
  "step_expect want next ch p r = strict_check (ch \<noteq> want) p r (Inr (Go p (set_state next r)))"

text \<open>The digits of the version; \<open>low\<close> is the smallest first digit.\<close>

definition step_first_major :: "nat \<Rightarrow> pstate \<Rightarrow> char \<Rightarrow> nat \<Rightarrow> 'o run \<Rightarrow> 'o outcome res" where
  "step_first_major low next ch p r =
     (if \<not> is_digit ch \<or> digit_val ch < low then fail HPE_INVALID_VERSION p r
      else Inr (Go p (set_state next (upd (\<lambda>q. q\<lparr>hp_http_major := digit_val ch\<rparr>) r))))"

definition step_major :: "pstate \<Rightarrow> char \<Rightarrow> nat \<Rightarrow> 'o run \<Rightarrow> 'o outcome res" where
  "step_major next ch p r =
     (if ch = CHR ''.'' then Inr (Go p (set_state next r))
      else if \<not> is_digit ch then fail HPE_INVALID_VERSION p r
      else let r = upd (\<lambda>q. q\<lparr>hp_http_major := hp_http_major q * 10 + digit_val ch\<rparr>) r in
        if 999 < hp_http_major (prs r) then fail HPE_INVALID_VERSION p r else Inr (Go p r))"

definition step_first_minor :: "pstate \<Rightarrow> char \<Rightarrow> nat \<Rightarrow> 'o run \<Rightarrow> 'o outcome res" where
  "step_first_minor next ch p r =
     (if \<not> is_digit ch then fail HPE_INVALID_VERSION p r
      else Inr (Go p (set_state next (upd (\<lambda>q. q\<lparr>hp_http_minor := digit_val ch\<rparr>) r))))"

definition step_minor_digit :: "char \<Rightarrow> nat \<Rightarrow> 'o run \<Rightarrow> 'o outcome res" where
  "step_minor_digit ch p r =
     (if \<not> is_digit ch then fail HPE_INVALID_VERSION p r
      else let r = upd (\<lambda>q. q\<lparr>hp_http_minor := hp_http_minor q * 10 + digit_val ch\<rparr>) r in
        if 999 < hp_http_minor (prs r) then fail HPE_INVALID_VERSION p r else Inr (Go p r))"

definition step_res_http_minor :: "char \<Rightarrow> nat \<Rightarrow> 'o run \<Rightarrow> 'o outcome res" where
  "step_res_http_minor ch p r =
     (if ch = CHR '' '' then Inr (Go p (set_state s_res_first_status_code r)) else step_minor_digit ch p r)"

definition step_res_first_status_code :: "char \<Rightarrow> nat \<Rightarrow> 'o run \<Rightarrow> 'o outcome res" where
  "step_res_first_status_code ch p r =
     (if \<not> is_digit ch then if ch = CHR '' '' then Inr (Go p r) else fail HPE_INVALID_STATUS p r
      else Inr (Go p (set_state s_res_status_code (upd (\<lambda>q. q\<lparr>hp_status_code := digit_val ch\<rparr>) r))))"

definition step_res_status_code :: "char \<Rightarrow> nat \<Rightarrow> 'o run \<Rightarrow> 'o outcome res" where
  "step_res_status_code ch p r =
     (if \<not> is_digit ch then
        if ch = CHR '' '' then Inr (Go p (set_state s_res_status r))
        else if ch = CR then Inr (Go p (set_state s_res_line_almost_done r))
        else if ch = LF then Inr (Go p (set_state s_header_field_start r))
        else fail HPE_INVALID_STATUS p r
      else let r = upd (\<lambda>q. q\<lparr>hp_status_code := hp_status_code q * 10 + digit_val ch\<rparr>) r in
        if 999 < hp_status_code (prs r) then fail HPE_INVALID_STATUS p r else Inr (Go p r))"

definition step_res_status :: "char \<Rightarrow> nat \<Rightarrow> 'o run \<Rightarrow> 'o outcome res" where
  "step_res_status ch p r =
     (if ch = CR then Inr (Go p (set_state s_res_line_almost_done r))
      else if ch = LF then Inr (Go p (set_state s_header_field_start r)) else Inr (Go p r))"

definition step_res_line_almost_done :: "'o http_parser_settings \<Rightarrow> char \<Rightarrow> nat \<Rightarrow> 'o run \<Rightarrow> 'o outcome res" where
  "step_res_line_almost_done S ch p r =
     strict_check (ch \<noteq> LF) p r
       (callback_notify S CB_status_complete (p + 1) (set_state s_header_field_start r) (\<lambda>r. Inr (Go p r)))"

text \<open>A C string at an index: the terminating null is at its length.\<close>

definition c_at :: "string \<Rightarrow> nat \<Rightarrow> char" where
  "c_at s i = (if i < length s then s ! i else CHR 0x00)"

text \<open>\<^verbatim>\<open>++parser->index\<close> on an \<^verbatim>\<open>unsigned char\<close>.\<close>

definition inc8 :: "nat \<Rightarrow> nat" where
  "inc8 i = (i + 1) mod 256"

text \<open>The method that is meant when a character does not match the method assumed so far.\<close>

definition other_method :: "http_method \<Rightarrow> nat \<Rightarrow> char \<Rightarrow> http_method option" where
  "other_method m i ch =
     (if m = HTTP_CONNECT then
        if i = 1 \<and> ch = CHR ''H'' then Some HTTP_CHECKOUT
        else if i = 2 \<and> ch = CHR ''P'' then Some HTTP_COPY else None
      else if m = HTTP_MKCOL then
        if i = 1 \<and> ch = CHR ''O'' then Some HTTP_MOVE
        else if i = 1 \<and> ch = CHR ''E'' then Some HTTP_MERGE
        else if i = 1 \<and> ch = CHR ''-'' then Some HTTP_MSEARCH
        else if i = 2 \<and> ch = CHR ''A'' then Some HTTP_MKACTIVITY else None
      else if m = HTTP_SUBSCRIBE then if i = 1 \<and> ch = CHR ''E'' then Some HTTP_SEARCH else None
      else if i = 1 \<and> m = HTTP_POST then
        if ch = CHR ''R'' then Some HTTP_PROPFIND
        else if ch = CHR ''U'' then Some HTTP_PUT
        else if ch = CHR ''A'' then Some HTTP_PATCH else None
      else if i = 2 then
        if m = HTTP_PUT then if ch = CHR ''R'' then Some HTTP_PURGE else None
        else if m = HTTP_UNLOCK then if ch = CHR ''S'' then Some HTTP_UNSUBSCRIBE else None
        else None
      else if i = 4 \<and> m = HTTP_PROPFIND \<and> ch = CHR ''P'' then Some HTTP_PROPPATCH
      else None)"

definition step_req_method :: "char \<Rightarrow> nat \<Rightarrow> 'o run \<Rightarrow> 'o outcome res" where
  "step_req_method ch p r =
     (if ch = CHR 0x00 then fail HPE_INVALID_METHOD p r
      else
        let m = hp_method (prs r); i = hp_index (prs r); matcher = method_string m in
        if length matcher < i then Inl OutOfBounds
        else
          let next = upd (\<lambda>q. q\<lparr>hp_index := inc8 i\<rparr>) in
          if ch = CHR '' '' \<and> c_at matcher i = CHR 0x00 then Inr (Go p (next (set_state s_req_spaces_before_url r)))
          else if ch = c_at matcher i then Inr (Go p (next r))
          else case other_method m i ch of
            None \<Rightarrow> fail HPE_INVALID_METHOD p r
          | Some m' \<Rightarrow> Inr (Go p (next (upd (\<lambda>q. q\<lparr>hp_method := m'\<rparr>) r))))"

definition url_step :: "char \<Rightarrow> nat \<Rightarrow> 'o run \<Rightarrow> 'o outcome res" where
  "url_step ch p r =
     (let s = parse_url_char (hp_state (prs r)) ch; r = set_state s r in
      if s = s_dead then fail HPE_INVALID_URL p r else Inr (Go p r))"

definition step_req_spaces_before_url :: "char \<Rightarrow> nat \<Rightarrow> 'o run \<Rightarrow> 'o outcome res" where
  "step_req_spaces_before_url ch p r =
     (if ch = CHR '' '' then Inr (Go p r)
      else let r = MARK CB_url p r in
        url_step ch p (if hp_method (prs r) = HTTP_CONNECT then set_state s_req_server_start r else r))"

definition step_req_url_start :: "char \<Rightarrow> nat \<Rightarrow> 'o run \<Rightarrow> 'o outcome res" where
  "step_req_url_start ch p r =
     (if ch = CHR '' '' \<or> ch = CR \<or> ch = LF then fail HPE_INVALID_URL p r else url_step ch p r)"

definition step_req_url :: "'o http_parser_settings \<Rightarrow> string \<Rightarrow> char \<Rightarrow> nat \<Rightarrow> 'o run \<Rightarrow> 'o outcome res" where
  "step_req_url S data ch p r =
     (if ch = CHR '' '' then
        callback_data S data CB_url p (p + 1) (set_state s_req_http_start r) (\<lambda>r. Inr (Go p r))
      else if ch = CR \<or> ch = LF then
        callback_data S data CB_url p (p + 1)
          (upd (\<lambda>q. q\<lparr>hp_http_major := 0, hp_http_minor := 9,
             hp_state := (if ch = CR then s_req_line_almost_done else s_header_field_start)\<rparr>) r) (\<lambda>r. Inr (Go p r))
      else url_step ch p r)"

definition step_req_http_start :: "char \<Rightarrow> nat \<Rightarrow> 'o run \<Rightarrow> 'o outcome res" where
  "step_req_http_start ch p r =
     (if ch = CHR ''H'' then Inr (Go p (set_state s_req_http_H r))
      else if ch = CHR '' '' then Inr (Go p r) else fail HPE_INVALID_CONSTANT p r)"

definition step_req_http_minor :: "char \<Rightarrow> nat \<Rightarrow> 'o run \<Rightarrow> 'o outcome res" where
  "step_req_http_minor ch p r =
     (if ch = CR then Inr (Go p (set_state s_req_line_almost_done r))
      else if ch = LF then Inr (Go p (set_state s_header_field_start r)) else step_minor_digit ch p r)"

definition step_req_line_almost_done :: "char \<Rightarrow> nat \<Rightarrow> 'o run \<Rightarrow> 'o outcome res" where
  "step_req_line_almost_done ch p r =
     (if ch \<noteq> LF then fail HPE_LF_EXPECTED p r else Inr (Go p (set_state s_header_field_start r)))"

section \<open>The end of the headers and the body\<close>

definition step_message_done :: "'o http_parser_settings \<Rightarrow> nat \<Rightarrow> 'o run \<Rightarrow> 'o outcome res" where
  "step_message_done S p r = complete S p r (\<lambda>r. Inr (Go p r))"

definition step_headers_done :: "'o http_parser_settings \<Rightarrow> char \<Rightarrow> nat \<Rightarrow> 'o run \<Rightarrow> 'o outcome res" where
  "step_headers_done S ch p r =
     strict_check (ch \<noteq> LF) p r
       (let r = upd (\<lambda>q. q\<lparr>hp_nread := 0\<rparr>) r; q = prs r in
        if hp_upgrade q then complete S p r (\<lambda>r. Inr (Return (p + 1) r))
        else if F_SKIPBODY (hp_flags q) then complete S p r (\<lambda>r. Inr (Go p r))
        else if F_CHUNKED (hp_flags q) then Inr (Go p (set_state s_chunk_size_start r))
        else if hp_content_length q = 0 then complete S p r (\<lambda>r. Inr (Go p r))
        else if hp_content_length q \<noteq> - 1 then Inr (Go p (set_state s_body_identity r))
        else if hp_type q = HTTP_REQUEST \<or> \<not> http_message_needs_eof q then complete S p r (\<lambda>r. Inr (Go p r))
        else Inr (Go p (set_state s_body_identity_eof r)))"

text \<open>The callback for the end of the headers may return 1 to say that there is no body.\<close>

definition step_headers_almost_done :: "'o http_parser_settings \<Rightarrow> char \<Rightarrow> nat \<Rightarrow> 'o run \<Rightarrow> 'o outcome res" where
  "step_headers_almost_done S ch p r =
     strict_check (ch \<noteq> LF) p r
       (if F_TRAILING (hp_flags (prs r)) then complete S p r (\<lambda>r. Inr (Go p r))
        else
          let r = upd (\<lambda>q. q\<lparr>hp_state := s_headers_done,
                hp_upgrade := (F_UPGRADE (hp_flags q) \<or> hp_method q = HTTP_CONNECT)\<rparr>) r in
          (case on_notify S CB_headers_complete of
             None \<Rightarrow> step_headers_done S ch p r
           | Some f \<Rightarrow>
               and_then (f (prs r) (robject r)) (\<lambda>(res, ob).
                 let r = r\<lparr>robject := ob\<rparr> in
                 if res = 0 then step_headers_done S ch p r
                 else if res = 1 then
                   step_headers_done S ch p (upd (\<lambda>q. q\<lparr>hp_flags := (hp_flags q)\<lparr>F_SKIPBODY := True\<rparr>\<rparr>) r)
                 else Inr (Return p (set_errno (HPE_CB_notify CB_headers_complete) r)))))"

definition to_read :: "string \<Rightarrow> nat \<Rightarrow> 'o run \<Rightarrow> nat" where
  "to_read data p r = min (unat (hp_content_length (prs r))) (length data - p)"

definition take_body :: "nat \<Rightarrow> nat \<Rightarrow> 'o run \<Rightarrow> 'o run" where
  "take_body n p r = upd (\<lambda>q. q\<lparr>hp_content_length := hp_content_length q - word_of_nat n\<rparr>) (MARK CB_body p r)"

definition step_body_identity :: "'o http_parser_settings \<Rightarrow> string \<Rightarrow> nat \<Rightarrow> 'o run \<Rightarrow> 'o outcome res" where
  "step_body_identity S data p r =
     (let n = to_read data p r in
      cpp_assert (hp_content_length (prs r) \<noteq> 0 \<and> hp_content_length (prs r) \<noteq> - 1)
        (let r = take_body n p r; p = p + n - 1 in
         if hp_content_length (prs r) = 0 then
           callback_data S data CB_body (p + 1) p (set_state s_message_done r) (\<lambda>r. step_message_done S p r)
         else Inr (Go p r)))"

definition step_body_identity_eof :: "string \<Rightarrow> nat \<Rightarrow> 'o run \<Rightarrow> 'o outcome res" where
  "step_body_identity_eof data p r = Inr (Go (length data - 1) (MARK CB_body p r))"

section \<open>Chunks\<close>

definition unhex_at :: "char \<Rightarrow> int" where
  "unhex_at ch = unhex ! of_char ch"

definition step_chunk_size_start :: "char \<Rightarrow> nat \<Rightarrow> 'o run \<Rightarrow> 'o outcome res" where
  "step_chunk_size_start ch p r =
     cpp_assert (hp_nread (prs r) = 1) (cpp_assert (F_CHUNKED (hp_flags (prs r)))
       (if unhex_at ch = - 1 then fail HPE_INVALID_CHUNK_SIZE p r
        else Inr (Go p (set_state s_chunk_size (upd (\<lambda>q. q\<lparr>hp_content_length := word_of_int (unhex_at ch)\<rparr>) r)))))"

definition step_chunk_size :: "char \<Rightarrow> nat \<Rightarrow> 'o run \<Rightarrow> 'o outcome res" where
  "step_chunk_size ch p r =
     cpp_assert (F_CHUNKED (hp_flags (prs r)))
       (if ch = CR then Inr (Go p (set_state s_chunk_size_almost_done r))
        else if unhex_at ch = - 1 then
          if ch = CHR '';'' \<or> ch = CHR '' '' then Inr (Go p (set_state s_chunk_parameters r))
          else fail HPE_INVALID_CHUNK_SIZE p r
        else
          let t = hp_content_length (prs r) * 16 + word_of_int (unhex_at ch) in
          if t < hp_content_length (prs r) \<or> t = - 1 then fail HPE_INVALID_CONTENT_LENGTH p r
          else Inr (Go p (upd (\<lambda>q. q\<lparr>hp_content_length := t\<rparr>) r)))"

definition step_chunk_parameters :: "char \<Rightarrow> nat \<Rightarrow> 'o run \<Rightarrow> 'o outcome res" where
  "step_chunk_parameters ch p r =
     cpp_assert (F_CHUNKED (hp_flags (prs r)))
       (Inr (Go p (if ch = CR then set_state s_chunk_size_almost_done r else r)))"

definition step_chunk_size_almost_done :: "char \<Rightarrow> nat \<Rightarrow> 'o run \<Rightarrow> 'o outcome res" where
  "step_chunk_size_almost_done ch p r =
     cpp_assert (F_CHUNKED (hp_flags (prs r)))
       (strict_check (ch \<noteq> LF) p r
         (let r = upd (\<lambda>q. q\<lparr>hp_nread := 0\<rparr>) r in
          if hp_content_length (prs r) = 0 then
            Inr (Go p (set_state s_header_field_start (upd (\<lambda>q. q\<lparr>hp_flags := (hp_flags q)\<lparr>F_TRAILING := True\<rparr>\<rparr>) r)))
          else Inr (Go p (set_state s_chunk_data r))))"

definition step_chunk_data :: "string \<Rightarrow> nat \<Rightarrow> 'o run \<Rightarrow> 'o outcome res" where
  "step_chunk_data data p r =
     (let n = to_read data p r in
      cpp_assert (F_CHUNKED (hp_flags (prs r)))
        (cpp_assert (hp_content_length (prs r) \<noteq> 0 \<and> hp_content_length (prs r) \<noteq> - 1)
          (let r = take_body n p r; p = p + n - 1 in
           Inr (Go p (if hp_content_length (prs r) = 0 then set_state s_chunk_data_almost_done r else r)))))"

definition step_chunk_data_almost_done :: "'o http_parser_settings \<Rightarrow> string \<Rightarrow> char \<Rightarrow> nat \<Rightarrow> 'o run \<Rightarrow> 'o outcome res" where
  "step_chunk_data_almost_done S data ch p r =
     cpp_assert (F_CHUNKED (hp_flags (prs r)))
       (cpp_assert (hp_content_length (prs r) = 0)
         (strict_check (ch \<noteq> CR) p r
           (callback_data S data CB_body p (p + 1) (set_state s_chunk_data_done r) (\<lambda>r. Inr (Go p r)))))"

definition step_chunk_data_done :: "char \<Rightarrow> nat \<Rightarrow> 'o run \<Rightarrow> 'o outcome res" where
  "step_chunk_data_done ch p r =
     cpp_assert (F_CHUNKED (hp_flags (prs r)))
       (strict_check (ch \<noteq> LF) p r
         (Inr (Go p (set_state s_chunk_size_start (upd (\<lambda>q. q\<lparr>hp_nread := 0\<rparr>) r)))))"

section \<open>Header lines\<close>

definition first_header_state :: "char \<Rightarrow> header_states" where
  "first_header_state c =
     (if c = CHR ''c'' then h_C
      else if c = CHR ''p'' then h_matching_proxy_connection
      else if c = CHR ''t'' then h_matching_transfer_encoding
      else if c = CHR ''u'' then h_matching_upgrade
      else h_general)"

definition step_header_field_start :: "'o http_parser_settings \<Rightarrow> char \<Rightarrow> nat \<Rightarrow> 'o run \<Rightarrow> 'o outcome res" where
  "step_header_field_start S ch p r =
     (if ch = CR then Inr (Go p (set_state s_headers_almost_done r))
      else if ch = LF then step_headers_almost_done S ch p (set_state s_headers_almost_done r)
      else if TOKEN ch = CHR 0x00 then fail HPE_INVALID_HEADER_TOKEN p r
      else Inr (Go p (upd (\<lambda>q. q\<lparr>hp_index := 0, hp_state := s_header_field,
             hp_header_state := first_header_state (TOKEN ch)\<rparr>) (MARK CB_header_field p r))))"

text \<open>One more character of a word that is being matched; \<open>found\<close> when it is the last one.\<close>

definition match_word :: "string \<Rightarrow> header_states \<Rightarrow> header_states \<Rightarrow> nat \<Rightarrow> char \<Rightarrow> header_states" where
  "match_word w hs found i c =
     (if length w < i \<or> c \<noteq> c_at w i then h_general else if i = length w - 1 then found else hs)"

text \<open>The header state and the index after one more character of a header name.\<close>

definition name_char :: "char \<Rightarrow> char \<Rightarrow> header_states \<times> nat \<Rightarrow> (header_states \<times> nat) res" where
  "name_char ch c = (\<lambda>(hs, i).
     let i' = inc8 i in
     case hs of
       h_general \<Rightarrow> Inr (h_general, i)
     | h_C \<Rightarrow> Inr (if c = CHR ''o'' then h_CO else h_general, i')
     | h_CO \<Rightarrow> Inr (if c = CHR ''n'' then h_CON else h_general, i')
     | h_CON \<Rightarrow> Inr (if c = CHR ''n'' then h_matching_connection
                     else if c = CHR ''t'' then h_matching_content_length else h_general, i')
     | h_matching_connection \<Rightarrow> Inr (match_word ''connection'' hs h_connection i' c, i')
     | h_matching_proxy_connection \<Rightarrow> Inr (match_word ''proxy-connection'' hs h_connection i' c, i')
     | h_matching_content_length \<Rightarrow> Inr (match_word ''content-length'' hs h_content_length i' c, i')
     | h_matching_transfer_encoding \<Rightarrow> Inr (match_word ''transfer-encoding'' hs h_transfer_encoding i' c, i')
     | h_matching_upgrade \<Rightarrow> Inr (match_word ''upgrade'' hs h_upgrade i' c, i')
     | h_connection \<Rightarrow> Inr (if ch \<noteq> CHR '' '' then h_general else hs, i)
     | h_content_length \<Rightarrow> Inr (if ch \<noteq> CHR '' '' then h_general else hs, i)
     | h_transfer_encoding \<Rightarrow> Inr (if ch \<noteq> CHR '' '' then h_general else hs, i)
     | h_upgrade \<Rightarrow> Inr (if ch \<noteq> CHR '' '' then h_general else hs, i)
     | _ \<Rightarrow> Inl AssertFailed)"

definition set_header :: "header_states \<times> nat \<Rightarrow> 'o run \<Rightarrow> 'o run" where
  "set_header = (\<lambda>(hs, i). upd (\<lambda>q. q\<lparr>hp_header_state := hs, hp_index := i\<rparr>))"

definition step_header_field :: "'o http_parser_settings \<Rightarrow> string \<Rightarrow> char \<Rightarrow> nat \<Rightarrow> 'o run \<Rightarrow> 'o outcome res" where
  "step_header_field S data ch p r =
     (if TOKEN ch \<noteq> CHR 0x00 then
        and_then (name_char ch (TOKEN ch) (hp_header_state (prs r), hp_index (prs r))) (\<lambda>h. Inr (Go p (set_header h r)))
      else if ch = CHR '':'' then
        callback_data S data CB_header_field p (p + 1) (set_state s_header_value_start r) (\<lambda>r. Inr (Go p r))
      else if ch = CR then
        callback_data S data CB_header_field p (p + 1) (set_state s_header_almost_done r) (\<lambda>r. Inr (Go p r))
      else if ch = LF then
        callback_data S data CB_header_field p (p + 1) (set_state s_header_field_start r) (\<lambda>r. Inr (Go p r))
      else fail HPE_INVALID_HEADER_TOKEN p r)"

text \<open>The first character of a value: the result is an error, or header state, content length and the upgrade flag.\<close>

definition value_first :: "char \<Rightarrow> http_parser \<Rightarrow> http_parser option" where
  "value_first ch q =
     (case hp_header_state q of
        h_upgrade \<Rightarrow> Some (q\<lparr>hp_flags := (hp_flags q)\<lparr>F_UPGRADE := True\<rparr>, hp_header_state := h_general\<rparr>)
      | h_transfer_encoding \<Rightarrow>
          Some (q\<lparr>hp_header_state := (if LOWER ch = CHR ''c'' then h_matching_transfer_encoding_chunked else h_general)\<rparr>)
      | h_content_length \<Rightarrow> if is_digit ch then Some (q\<lparr>hp_content_length := word_of_nat (digit_val ch)\<rparr>) else None
      | h_connection \<Rightarrow>
          Some (q\<lparr>hp_header_state := (if LOWER ch = CHR ''k'' then h_matching_connection_keep_alive
                 else if LOWER ch = CHR ''c'' then h_matching_connection_close else h_general)\<rparr>)
      | _ \<Rightarrow> Some (q\<lparr>hp_header_state := h_general\<rparr>))"

definition step_header_value_start :: "'o http_parser_settings \<Rightarrow> string \<Rightarrow> char \<Rightarrow> nat \<Rightarrow> 'o run \<Rightarrow> 'o outcome res" where
  "step_header_value_start S data ch p r =
     (if ch = CHR '' '' \<or> ch = CHR 0x09 then Inr (Go p r)
      else
        let r = upd (\<lambda>q. q\<lparr>hp_state := s_header_value, hp_index := 0\<rparr>) (MARK CB_header_value p r) in
        if ch = CR then
          callback_data S data CB_header_value p (p + 1)
            (upd (\<lambda>q. q\<lparr>hp_header_state := h_general, hp_state := s_header_almost_done\<rparr>) r) (\<lambda>r. Inr (Go p r))
        else if ch = LF then
          callback_data S data CB_header_value p (p + 1) (set_state s_header_field_start r) (\<lambda>r. Inr (Go p r))
        else case value_first ch (prs r) of
            None \<Rightarrow> fail HPE_INVALID_CONTENT_LENGTH p r
          | Some q \<Rightarrow> Inr (Go p (r\<lparr>prs := q\<rparr>)))"

definition step_header_almost_done :: "char \<Rightarrow> nat \<Rightarrow> 'o run \<Rightarrow> 'o outcome res" where
  "step_header_almost_done ch p r =
     strict_check (ch \<noteq> LF) p r
       (Inr (Go p (set_state s_header_value_lws (upd (\<lambda>q. q\<lparr>hp_flags :=
          (case hp_header_state q of
             h_connection_keep_alive \<Rightarrow> (hp_flags q)\<lparr>F_CONNECTION_KEEP_ALIVE := True\<rparr>
           | h_connection_close \<Rightarrow> (hp_flags q)\<lparr>F_CONNECTION_CLOSE := True\<rparr>
           | h_transfer_encoding_chunked \<Rightarrow> (hp_flags q)\<lparr>F_CHUNKED := True\<rparr>
           | _ \<Rightarrow> hp_flags q)\<rparr>) r))))"

text \<open>A further character of a value.\<close>

definition value_char :: "char \<Rightarrow> http_parser \<Rightarrow> http_parser option res" where
  "value_char ch q =
     (let i' = inc8 (hp_index q); m = (\<lambda>w found. Inr (Some (q\<lparr>hp_index := i',
            hp_header_state := match_word w (hp_header_state q) found i' (LOWER ch)\<rparr>))) in
      case hp_header_state q of
        h_general \<Rightarrow> Inr (Some q)
      | h_connection \<Rightarrow> Inl AssertFailed
      | h_transfer_encoding \<Rightarrow> Inl AssertFailed
      | h_content_length \<Rightarrow>
          if ch = CHR '' '' then Inr (Some q)
          else if \<not> is_digit ch then Inr None
          else let t = hp_content_length q * 10 + word_of_nat (digit_val ch) in
            if t < hp_content_length q \<or> t = - 1 then Inr None else Inr (Some (q\<lparr>hp_content_length := t\<rparr>))
      | h_matching_transfer_encoding_chunked \<Rightarrow> m ''chunked'' h_transfer_encoding_chunked
      | h_matching_connection_keep_alive \<Rightarrow> m ''keep-alive'' h_connection_keep_alive
      | h_matching_connection_close \<Rightarrow> m ''close'' h_connection_close
      | h_transfer_encoding_chunked \<Rightarrow> Inr (Some (if ch \<noteq> CHR '' '' then q\<lparr>hp_header_state := h_general\<rparr> else q))
      | h_connection_keep_alive \<Rightarrow> Inr (Some (if ch \<noteq> CHR '' '' then q\<lparr>hp_header_state := h_general\<rparr> else q))
      | h_connection_close \<Rightarrow> Inr (Some (if ch \<noteq> CHR '' '' then q\<lparr>hp_header_state := h_general\<rparr> else q))
      | _ \<Rightarrow> Inr (Some (q\<lparr>hp_state := s_header_value, hp_header_state := h_general\<rparr>)))"

definition step_header_value :: "'o http_parser_settings \<Rightarrow> string \<Rightarrow> char \<Rightarrow> nat \<Rightarrow> 'o run \<Rightarrow> 'o outcome res" where
  "step_header_value S data ch p r =
     (if ch = CR then
        callback_data S data CB_header_value p (p + 1) (set_state s_header_almost_done r) (\<lambda>r. Inr (Go p r))
      else if ch = LF then
        callback_data S data CB_header_value p p (set_state s_header_almost_done r) (\<lambda>r. step_header_almost_done ch p r)
      else
        and_then (value_char ch (prs r)) (\<lambda>v. case v of
            None \<Rightarrow> fail HPE_INVALID_CONTENT_LENGTH p r
          | Some q \<Rightarrow> Inr (Go p (r\<lparr>prs := q\<rparr>))))"

definition step_header_value_lws :: "'o http_parser_settings \<Rightarrow> char \<Rightarrow> nat \<Rightarrow> 'o run \<Rightarrow> 'o outcome res" where
  "step_header_value_lws S ch p r =
     (if ch = CHR '' '' \<or> ch = CHR 0x09 then Inr (Go p (set_state s_header_value_start r))
      else step_header_field_start S ch p (set_state s_header_field_start r))"

section \<open>The loop over the bytes\<close>

definition exec_byte :: "'o http_parser_settings \<Rightarrow> string \<Rightarrow> nat \<Rightarrow> 'o run \<Rightarrow> 'o outcome res" where
  "exec_byte S data p r =
     (let ch = data ! p in
      case hp_state (prs r) of
        s_dead \<Rightarrow> step_dead ch p r
      | s_start_req_or_res \<Rightarrow> step_start_req_or_res S ch p r
      | s_res_or_resp_H \<Rightarrow> step_res_or_resp_H ch p r
      | s_start_res \<Rightarrow> step_start_res S ch p r
      | s_res_H \<Rightarrow> step_expect (CHR ''T'') s_res_HT ch p r
      | s_res_HT \<Rightarrow> step_expect (CHR ''T'') s_res_HTT ch p r
      | s_res_HTT \<Rightarrow> step_expect (CHR ''P'') s_res_HTTP ch p r
      | s_res_HTTP \<Rightarrow> step_expect (CHR ''/'') s_res_first_http_major ch p r
      | s_res_first_http_major \<Rightarrow> step_first_major 0 s_res_http_major ch p r
      | s_res_http_major \<Rightarrow> step_major s_res_first_http_minor ch p r
      | s_res_first_http_minor \<Rightarrow> step_first_minor s_res_http_minor ch p r
      | s_res_http_minor \<Rightarrow> step_res_http_minor ch p r
      | s_res_first_status_code \<Rightarrow> step_res_first_status_code ch p r
      | s_res_status_code \<Rightarrow> step_res_status_code ch p r
      | s_res_status \<Rightarrow> step_res_status ch p r
      | s_res_line_almost_done \<Rightarrow> step_res_line_almost_done S ch p r
      | s_start_req \<Rightarrow> step_start_req S ch p r
      | s_req_method \<Rightarrow> step_req_method ch p r
      | s_req_spaces_before_url \<Rightarrow> step_req_spaces_before_url ch p r
      | s_req_schema \<Rightarrow> step_req_url_start ch p r
      | s_req_schema_slash \<Rightarrow> step_req_url_start ch p r
      | s_req_schema_slash_slash \<Rightarrow> step_req_url_start ch p r
      | s_req_server_start \<Rightarrow> step_req_url_start ch p r
      | s_req_server \<Rightarrow> step_req_url S data ch p r
      | s_req_server_with_at \<Rightarrow> step_req_url S data ch p r
      | s_req_path \<Rightarrow> step_req_url S data ch p r
      | s_req_query_string_start \<Rightarrow> step_req_url S data ch p r
      | s_req_query_string \<Rightarrow> step_req_url S data ch p r
      | s_req_fragment_start \<Rightarrow> step_req_url S data ch p r
      | s_req_fragment \<Rightarrow> step_req_url S data ch p r
      | s_req_http_start \<Rightarrow> step_req_http_start ch p r
      | s_req_http_H \<Rightarrow> step_expect (CHR ''T'') s_req_http_HT ch p r
      | s_req_http_HT \<Rightarrow> step_expect (CHR ''T'') s_req_http_HTT ch p r
      | s_req_http_HTT \<Rightarrow> step_expect (CHR ''P'') s_req_http_HTTP ch p r
      | s_req_http_HTTP \<Rightarrow> step_expect (CHR ''/'') s_req_first_http_major ch p r
      | s_req_first_http_major \<Rightarrow> step_first_major 1 s_req_http_major ch p r
      | s_req_http_major \<Rightarrow> step_major s_req_first_http_minor ch p r
      | s_req_first_http_minor \<Rightarrow> step_first_minor s_req_http_minor ch p r
      | s_req_http_minor \<Rightarrow> step_req_http_minor ch p r
      | s_req_line_almost_done \<Rightarrow> step_req_line_almost_done ch p r
      | s_header_field_start \<Rightarrow> step_header_field_start S ch p r
      | s_header_field \<Rightarrow> step_header_field S data ch p r
      | s_header_value_start \<Rightarrow> step_header_value_start S data ch p r
      | s_header_value \<Rightarrow> step_header_value S data ch p r
      | s_header_value_lws \<Rightarrow> step_header_value_lws S ch p r
      | s_header_almost_done \<Rightarrow> step_header_almost_done ch p r
      | s_chunk_size_start \<Rightarrow> step_chunk_size_start ch p r
      | s_chunk_size \<Rightarrow> step_chunk_size ch p r
      | s_chunk_parameters \<Rightarrow> step_chunk_parameters ch p r
      | s_chunk_size_almost_done \<Rightarrow> step_chunk_size_almost_done ch p r
      | s_headers_almost_done \<Rightarrow> step_headers_almost_done S ch p r
      | s_headers_done \<Rightarrow> step_headers_done S ch p r
      | s_chunk_data \<Rightarrow> step_chunk_data data p r
      | s_chunk_data_almost_done \<Rightarrow> step_chunk_data_almost_done S data ch p r
      | s_chunk_data_done \<Rightarrow> step_chunk_data_done ch p r
      | s_body_identity \<Rightarrow> step_body_identity S data p r
      | s_body_identity_eof \<Rightarrow> step_body_identity_eof data p r
      | s_message_done \<Rightarrow> step_message_done S p r)"

text \<open>The loop never goes back.\<close>

definition ahead :: "nat \<Rightarrow> 'o outcome res \<Rightarrow> bool" where
  "ahead p m \<longleftrightarrow> (case m of Inr (Go q r) \<Rightarrow> p \<le> q | _ \<Rightarrow> True)"

lemma ahead_simps [simp]:
  "ahead p (Inl e)" "ahead p (Inr (Go q r)) \<longleftrightarrow> p \<le> q" "ahead p (Inr (Return n r))" "ahead p (Inr (Goto_error n r))"
  "ahead p (fail err n r)"
  by (simp_all add: ahead_def fail_def)

lemma ahead_if [simp]: "ahead p (if b then m else m') \<longleftrightarrow> (if b then ahead p m else ahead p m')"
  by simp

lemma ahead_assert [simp]: "ahead p (cpp_assert b k) \<longleftrightarrow> (b \<longrightarrow> ahead p k)"
  by (simp add: cpp_assert_def)

lemma ahead_strict [simp]: "ahead p (strict_check b n r k) \<longleftrightarrow> (\<not> b \<longrightarrow> ahead p k)"
  by (simp add: strict_check_def)

lemma ahead_and_then [simp]: "(\<And>a. m = Inr a \<Longrightarrow> ahead p (f a)) \<Longrightarrow> ahead p (and_then m f)"
  by (cases m) simp_all

lemma ahead_callback_data [simp]: "(\<And>r. ahead p (cont r)) \<Longrightarrow> ahead p (callback_data S data k en er r cont)"
  by (auto simp: callback_data_def Let_def intro!: ahead_and_then split: option.splits prod.splits)

lemma ahead_callback_notify [simp]: "(\<And>r. ahead p (cont r)) \<Longrightarrow> ahead p (callback_notify S k er r cont)"
  by (auto simp: callback_notify_def intro!: ahead_and_then split: option.splits prod.splits)

lemma ahead_complete [simp]: "(\<And>r. ahead p (cont r)) \<Longrightarrow> ahead p (complete S n r cont)"
  by (simp add: complete_def ahead_callback_notify)

lemmas ahead_intros = ahead_and_then ahead_callback_data ahead_callback_notify ahead_complete

lemmas start_steps = step_dead_def step_start_req_or_res_def step_res_or_resp_H_def step_start_res_def step_expect_def
  step_first_major_def step_major_def step_first_minor_def step_minor_digit_def step_res_http_minor_def
  step_res_first_status_code_def step_res_status_code_def step_res_status_def step_res_line_almost_done_def
  step_start_req_def step_req_method_def url_step_def step_req_spaces_before_url_def step_req_url_start_def
  step_req_url_def step_req_http_start_def step_req_http_minor_def step_req_line_almost_done_def

lemmas header_steps = step_header_field_start_def step_header_field_def step_header_value_start_def
  step_header_value_def step_header_value_lws_def step_header_almost_done_def step_headers_almost_done_def
  step_headers_done_def

lemmas body_steps = step_message_done_def step_body_identity_eof_def
  step_chunk_size_start_def step_chunk_size_def step_chunk_parameters_def step_chunk_size_almost_done_def
  step_chunk_data_almost_done_def step_chunk_data_done_def

lemma to_read_pos: "p < length data \<Longrightarrow> hp_content_length (prs r) \<noteq> 0 \<Longrightarrow> 0 < to_read data p r"
  by (auto simp: to_read_def unat_gt_0)

lemma ahead_body:
  assumes "p < length data"
  shows "ahead p (step_body_identity S data p r)" "ahead p (step_chunk_data data p r)"
  using to_read_pos [OF assms, of r]
  by (auto simp: step_body_identity_def step_chunk_data_def step_message_done_def Let_def intro!: ahead_intros)

lemma ahead_steps [simp]:
  "ahead p (step_dead ch p r)" "ahead p (step_start_req S ch p r)" "ahead p (step_start_req_or_res S ch p r)"
  "ahead p (step_res_or_resp_H ch p r)" "ahead p (step_start_res S ch p r)" "ahead p (step_expect c s ch p r)"
  "ahead p (step_first_major l s ch p r)" "ahead p (step_major s ch p r)" "ahead p (step_first_minor s ch p r)"
  "ahead p (step_minor_digit ch p r)" "ahead p (step_res_http_minor ch p r)" "ahead p (step_res_first_status_code ch p r)"
  "ahead p (step_res_status_code ch p r)" "ahead p (step_res_status ch p r)" "ahead p (step_res_line_almost_done S ch p r)"
  "ahead p (step_req_method ch p r)" "ahead p (url_step ch p r)" "ahead p (step_req_spaces_before_url ch p r)"
  "ahead p (step_req_url_start ch p r)" "ahead p (step_req_url S data ch p r)" "ahead p (step_req_http_start ch p r)"
  "ahead p (step_req_http_minor ch p r)" "ahead p (step_req_line_almost_done ch p r)"
  by (simp_all add: start_steps Let_def split: option.split)

lemma ahead_header_steps [simp]:
  "ahead p (step_headers_done S ch p r)" "ahead p (step_headers_almost_done S ch p r)"
  "ahead p (step_header_field_start S ch p r)" "ahead p (step_header_field S data ch p r)"
  "ahead p (step_header_value_start S data ch p r)" "ahead p (step_header_value S data ch p r)"
  "ahead p (step_header_value_lws S ch p r)" "ahead p (step_header_almost_done ch p r)"
  by (simp_all add: header_steps Let_def split: option.split prod.split)

lemma ahead_body_steps [simp]:
  "ahead p (step_message_done S p r)" "ahead p (step_chunk_size_start ch p r)" "ahead p (step_chunk_size ch p r)"
  "ahead p (step_chunk_parameters ch p r)" "ahead p (step_chunk_size_almost_done ch p r)"
  "ahead p (step_chunk_data_almost_done S data ch p r)" "ahead p (step_chunk_data_done ch p r)"
  by (simp_all add: body_steps Let_def)

lemma ahead_eof: "p < length data \<Longrightarrow> ahead p (step_body_identity_eof data p r)"
  by (simp add: step_body_identity_eof_def)

lemma exec_byte_ahead:
  assumes "p < length data"
  shows "ahead p (exec_byte S data p r)"
  using ahead_body [OF assms] ahead_eof [OF assms] unfolding exec_byte_def Let_def
  by (cases "hp_state (prs r)") simp_all

definition HTTP_MAX_HEADER_SIZE :: nat where
  "HTTP_MAX_HEADER_SIZE = 80 * 1024"

definition count_byte :: "'o run \<Rightarrow> 'o run" where
  "count_byte r = (if parsing_header (hp_state (prs r)) then upd (\<lambda>q. q\<lparr>hp_nread := hp_nread q + 1\<rparr>) r else r)"

function exec_loop :: "'o http_parser_settings \<Rightarrow> string \<Rightarrow> nat \<Rightarrow> 'o run \<Rightarrow> 'o outcome res" where
  "exec_loop S data p r =
     (if p < length data then
        let r' = count_byte r in
        if parsing_header (hp_state (prs r)) \<and> HTTP_MAX_HEADER_SIZE < hp_nread (prs r')
        then fail HPE_HEADER_OVERFLOW p r'
        else case exec_byte S data p r' of
            Inr (Go q r'') \<Rightarrow> exec_loop S data (q + 1) r''
          | m \<Rightarrow> m
      else Inr (Go p r))"
  by pat_completeness auto
termination
  using exec_byte_ahead
  by (relation "measure (\<lambda>(S, data, p, r). length data - p)") (fastforce simp: ahead_def split: sum.splits outcome.splits)+

declare exec_loop.simps [simp del]

text \<open>The marks a run starts with.\<close>

definition start_marks :: "pstate \<Rightarrow> data_cb \<Rightarrow> nat option" where
  "start_marks s k =
     (case k of
        CB_header_field \<Rightarrow> if s = s_header_field then Some 0 else None
      | CB_header_value \<Rightarrow> if s = s_header_value then Some 0 else None
      | CB_url \<Rightarrow>
          if s \<in> {s_req_path, s_req_schema, s_req_schema_slash, s_req_schema_slash_slash, s_req_server_start,
            s_req_server, s_req_server_with_at, s_req_query_string_start, s_req_query_string,
            s_req_fragment_start, s_req_fragment} then Some 0 else None
      | CB_body \<Rightarrow> None)"

definition marks_left :: "'o run \<Rightarrow> nat" where
  "marks_left r = length (filter (\<lambda>k. marks r k \<noteq> None) [CB_header_field, CB_header_value, CB_url, CB_body])"

text \<open>After the last byte the callbacks for what is still marked are run.\<close>

definition leftover :: "'o http_parser_settings \<Rightarrow> string \<Rightarrow> 'o run \<Rightarrow> 'o outcome res" where
  "leftover S data r =
     (let n = length data in
      cpp_assert (marks_left r \<le> 1)
        (callback_data S data CB_header_field n n r (\<lambda>r.
           callback_data S data CB_header_value n n r (\<lambda>r.
             callback_data S data CB_url n n r (\<lambda>r.
               callback_data S data CB_body n n r (\<lambda>r. Inr (Return n r)))))))"

text \<open>The result: how many bytes were parsed, the parser and the object of the callbacks.\<close>

fun ended :: "'o outcome \<Rightarrow> nat \<times> http_parser \<times> 'o" where
  "ended (Go n r) = (n, prs r, robject r)"
| "ended (Return n r) = (n, prs r, robject r)"
| "ended (Goto_error n r) =
     (n, (if hp_errno (prs r) = HPE_OK then (prs r)\<lparr>hp_errno := HPE_UNKNOWN\<rparr> else prs r), robject r)"

definition http_parser_execute :: "'o http_parser_settings \<Rightarrow> string \<Rightarrow> http_parser \<Rightarrow> 'o
    \<Rightarrow> (nat \<times> http_parser \<times> 'o) res" where
  "http_parser_execute S data q ob =
     (if hp_errno q \<noteq> HPE_OK then Inr (0, q, ob)
      else
        let r = \<lparr>prs = q, marks = start_marks (hp_state q), robject = ob\<rparr> in
        if data = [] then
          (if hp_state q = s_body_identity_eof then
             and_then (callback_notify S CB_message_complete 0 r (\<lambda>r. Inr (Return 0 r))) (\<lambda>oc. Inr (ended oc))
           else if hp_state q \<in> {s_dead, s_start_req_or_res, s_start_res, s_start_req} then Inr (0, q, ob)
           else Inr (1, q\<lparr>hp_errno := HPE_INVALID_EOF_STATE\<rparr>, ob))
        else
          and_then (exec_loop S data 0 r) (\<lambda>oc.
            case oc of
              Go n r \<Rightarrow> and_then (leftover S data r) (\<lambda>oc. Inr (ended oc))
            | _ \<Rightarrow> Inr (ended oc)))"

definition http_parser_pause :: "bool \<Rightarrow> http_parser \<Rightarrow> http_parser res" where
  "http_parser_pause paused q =
     (if hp_errno q = HPE_OK \<or> hp_errno q = HPE_PAUSED
      then Inr (q\<lparr>hp_errno := (if paused then HPE_PAUSED else HPE_OK)\<rparr>) else Inl AssertFailed)"

definition http_body_is_final :: "http_parser \<Rightarrow> bool" where
  "http_body_is_final q \<longleftrightarrow> hp_state q = s_message_done"

end
