(* ===== verification/HttpRequests.thy ===== *)
theory HttpRequests
  imports HttpParser
begin

text \<open>
  What the HTTP parser makes of a request: the recognition of methods and header names, and the run over a whole
  request for any callbacks that keep the contract \<open>request_callbacks\<close>.
\<close>

section \<open>Methods\<close>

text \<open>The method and the index after one more byte of a method, as \<^verbatim>\<open>s_req_method\<close> computes them.\<close>

definition method_next :: "(http_method \<times> nat) option \<Rightarrow> char \<Rightarrow> (http_method \<times> nat) option" where
  "method_next a ch =
     (case a of
        None \<Rightarrow> None
      | Some (m, i) \<Rightarrow>
          if ch = CHR 0x00 then None
          else if ch = c_at (method_string m) i then Some (m, i + 1)
          else map_option (\<lambda>m'. (m', i + 1)) (other_method m i ch))"

definition method_start :: "char \<Rightarrow> (http_method \<times> nat) option" where
  "method_start ch = map_option (\<lambda>m. (m, 1)) (first_method ch)"

fun recognise :: "string \<Rightarrow> http_method option" where
  "recognise [] = None"
| "recognise (c # w) =
     (case foldl method_next (method_start c) w of
        Some (m, i) \<Rightarrow> if i = length (method_string m) then Some m else None
      | None \<Rightarrow> None)"

text \<open>What was read so far is the start of the method's name, up to the quirk of \<^verbatim>\<open>M-SEARCH\<close>.\<close>

definition read_name :: "http_method \<Rightarrow> string" where
  "read_name m = (if m = HTTP_MSEARCH then ''M-- SEARCH'' else method_string m)"

lemma method_start_read: "method_start ch = Some (m, i) \<Longrightarrow> i = 1 \<and> take 1 (read_name m) = [ch] \<and> m \<noteq> HTTP_MSEARCH"
  by (auto simp: method_start_def read_name_def split: if_splits)

lemma c_at_Some: "c_at s i = c \<Longrightarrow> c \<noteq> CHR 0x00 \<Longrightarrow> i < length s \<and> s ! i = c"
  by (auto simp: c_at_def split: if_splits)

lemma other_method_read:
  assumes "other_method m i ch = Some m'"
  shows "take (i + 1) (read_name m') = take i (read_name m) @ [ch] \<and> (m = HTTP_MSEARCH \<longrightarrow> 2 \<le> i)
    \<and> (m' = HTTP_MSEARCH \<longrightarrow> 2 \<le> i + 1)"
  using assms by (auto simp: other_method_def read_name_def split: if_splits)

lemma method_next_read:
  assumes "method_next (Some (m, i)) ch = Some (m', i')" "m = HTTP_MSEARCH \<longrightarrow> 2 \<le> i"
  shows "i' = i + 1 \<and> take i' (read_name m') = take i (read_name m) @ [ch] \<and> (m' = HTTP_MSEARCH \<longrightarrow> 2 \<le> i')"
proof (cases "ch = c_at (method_string m) i")
  case True
  then have at: "i < length (method_string m)" "method_string m ! i = ch" "m' = m" "i' = i + 1"
    using assms(1) c_at_Some [of "method_string m" i ch] by (auto simp: method_next_def split: if_splits)
  have "i < length (read_name m) \<and> read_name m ! i = ch"
  proof (cases "m = HTTP_MSEARCH")
    case True
    then have "i \<in> {2, 3, 4, 5, 6, 7, 8, 9}" using at(1) assms(2) by auto
    then show ?thesis using True at(2) by (auto simp: read_name_def)
  qed (use at in \<open>simp add: read_name_def\<close>)
  then show ?thesis using at(3,4) assms(2) by (auto simp: take_Suc_conv_app_nth)
next
  case False
  then have "other_method m i ch = Some m'" "i' = i + 1" using assms(1) by (auto simp: method_next_def split: if_splits)
  then show ?thesis using other_method_read by fastforce
qed

lemma foldl_None: "foldl method_next None w = None"
  by (induction w) (simp_all add: method_next_def)

lemma foldl_read:
  assumes "foldl method_next (Some (m, i)) w = Some (m', i')" "m = HTTP_MSEARCH \<longrightarrow> 2 \<le> i"
  shows "i' = i + length w \<and> take i' (read_name m') = take i (read_name m) @ w"
  using assms
proof (induction w arbitrary: m i)
  case (Cons c w)
  obtain m1 i1 where nx: "method_next (Some (m, i)) c = Some (m1, i1)"
    using Cons.prems(1) by (cases "method_next (Some (m, i)) c") (auto simp: foldl_None)
  note step = method_next_read [OF nx Cons.prems(2)]
  from Cons.IH [of m1 i1] Cons.prems(1) nx step show ?case by auto
qed simp

lemma recognise_sound: "recognise w = Some m \<Longrightarrow> w = read_name m"
proof (cases w)
  case (Cons c v)
  assume "recognise w = Some m"
  then obtain i where f: "foldl method_next (method_start c) v = Some (m, i)" "i = length (method_string m)"
    using Cons by (auto split: option.splits prod.splits if_splits)
  then obtain m0 where s: "method_start c = Some (m0, 1)"
    using method_start_read by (cases "method_start c") (auto simp: foldl_None)
  note r = method_start_read [OF s] foldl_read [OF f(1) [unfolded s]]
  have "length (read_name m) = length (method_string m)" by (simp add: read_name_def)
  then show ?thesis using r f(2) Cons by simp
qed simp

lemma recognise_complete: "recognise (read_name m) = Some m"
  by (cases m) (simp_all add: read_name_def method_start_def method_next_def c_at_def other_method_def)

section \<open>Runs\<close>

text \<open>Where a run over a request stands: state, bytes of the header, method, content length, marks and object.\<close>

definition reading :: "pstate \<Rightarrow> nat \<Rightarrow> http_method \<Rightarrow> u64 \<Rightarrow> (data_cb \<Rightarrow> nat option) \<Rightarrow> 'o \<Rightarrow> 'o run \<Rightarrow> bool" where
  "reading s n m cl mk ob r \<longleftrightarrow> hp_state (prs r) = s \<and> hp_nread (prs r) = n \<and> hp_method (prs r) = m
     \<and> hp_content_length (prs r) = cl \<and> marks r = mk \<and> robject r = ob \<and> hp_type (prs r) = HTTP_REQUEST
     \<and> hp_errno (prs r) = HPE_OK \<and> \<not> F_CHUNKED (hp_flags (prs r)) \<and> \<not> F_UPGRADE (hp_flags (prs r))
     \<and> \<not> F_TRAILING (hp_flags (prs r)) \<and> \<not> F_SKIPBODY (hp_flags (prs r))"

lemma drop_cons: "drop p data = c # rest \<Longrightarrow> p < length data \<and> data ! p = c \<and> drop (Suc p) data = rest"
  by (metis drop_eq_Nil2 drop_Suc list.distinct(1) list.sel(3) not_le nth_via_drop tl_drop)

lemma loop_byte:
  assumes "drop p data = c # rest" "parsing_header (hp_state (prs r)) \<longrightarrow> hp_nread (prs r) < HTTP_MAX_HEADER_SIZE"
    "exec_byte S data p (count_byte r) = Inr (Go q r')"
  shows "exec_loop S data p r = exec_loop S data (Suc q) r'"
  using assms drop_cons [OF assms(1)]
  by (subst exec_loop.simps) (auto simp: Let_def count_byte_def upd_def)

lemma loop_error:
  assumes "drop p data = c # rest" "exec_byte S data p (count_byte r) = Inr (Goto_error q r')" "hp_errno (prs r') \<noteq> HPE_OK"
  shows "\<exists>q r'. exec_loop S data p r = Inr (Goto_error q r') \<and> hp_errno (prs r') \<noteq> HPE_OK"
  using assms drop_cons [OF assms(1)]
  by (subst exec_loop.simps) (auto simp: Let_def fail_def set_errno_def upd_def)

lemma method_index:
  assumes "method_next (Some (m, i)) c = Some (m', i')" "i \<le> length (method_string m)"
  shows "i' = Suc i \<and> i' \<le> length (method_string m')"
  using assms by (auto simp: method_next_def other_method_def c_at_def split: if_splits)

lemma method_len: "length (method_string m) \<le> 11"
  by (cases m) simp_all

lemma method_byte:
  assumes "reading s_req_method n m cl mk ob r" "hp_index (prs r) = i" "i \<le> length (method_string m)" "c \<noteq> CHR '' ''"
  shows "case method_next (Some (m, i)) c of
      None \<Rightarrow> \<exists>r'. step_req_method c p r = Inr (Goto_error p r') \<and> hp_errno (prs r') \<noteq> HPE_OK
    | Some (m', i') \<Rightarrow> \<exists>r'. step_req_method c p r = Inr (Go p r') \<and> reading s_req_method n m' cl mk ob r' \<and> hp_index (prs r') = i'"
proof -
  have "inc8 i = Suc i" using assms(3) method_len [of m] by (simp add: inc8_def)
  then show ?thesis using assms
    by (auto simp: method_next_def step_req_method_def reading_def Let_def fail_def set_errno_def upd_def split: option.split)
qed

lemma exec_method: "hp_state (prs r) = s_req_method \<Longrightarrow> exec_byte S data p (count_byte r) = step_req_method (data ! p) p (count_byte r)"
  by (simp add: exec_byte_def Let_def count_byte_def upd_def)

lemma reading_count:
  "parsing_header s \<Longrightarrow> reading s n m cl mk ob r \<Longrightarrow> reading s (Suc n) m cl mk ob (count_byte r)"
  by (simp add: reading_def count_byte_def upd_def)

lemma count_frame [simp]:
  "hp_index (prs (count_byte r)) = hp_index (prs r)" "hp_header_state (prs (count_byte r)) = hp_header_state (prs r)"
  "hp_state (prs (count_byte r)) = hp_state (prs r)"
  by (simp_all add: count_byte_def upd_def)

lemma method_loop:
  assumes "drop p data = w @ rest" "CHR '' '' \<notin> set w" "reading s_req_method i m cl mk ob r" "hp_index (prs r) = i"
    "i \<le> length (method_string m)"
  shows "case foldl method_next (Some (m, i)) w of
      None \<Rightarrow> \<exists>q r'. exec_loop S data p r = Inr (Goto_error q r') \<and> hp_errno (prs r') \<noteq> HPE_OK
    | Some (m', i') \<Rightarrow> \<exists>r'. exec_loop S data p r = exec_loop S data (p + length w) r'
        \<and> reading s_req_method i' m' cl mk ob r' \<and> hp_index (prs r') = i' \<and> i' \<le> length (method_string m')"
  using assms
proof (induction w arbitrary: p r m i)
  case (Cons c w)
  have d: "drop p data = c # w @ rest" "p < length data" "data ! p = c" "drop (Suc p) data = w @ rest"
    using Cons.prems(1) drop_cons [of p data c "w @ rest"] by simp_all
  have st: "hp_state (prs r) = s_req_method" "hp_nread (prs r) = i" using Cons.prems(3) by (simp_all add: reading_def)
  have ph: "parsing_header s_req_method" by (simp add: parsing_header_def)
  note byte = method_byte [OF reading_count [OF ph Cons.prems(3)], unfolded count_frame, OF Cons.prems(4,5), of c p]
  have ex: "exec_byte S data p (count_byte r) = step_req_method c p (count_byte r)" using exec_method [OF st(1)] d(3) by simp
  show ?case
  proof (cases "method_next (Some (m, i)) c")
    case None
    then obtain r' where "step_req_method c p (count_byte r) = Inr (Goto_error p r')" "hp_errno (prs r') \<noteq> HPE_OK"
      using byte Cons.prems(2) by auto
    with None show ?thesis using loop_error [OF d(1)] ex by (simp add: foldl_None)
  next
    case (Some mi)
    obtain m1 i1 where mi: "mi = (m1, i1)" by (cases mi)
    from byte Some mi Cons.prems(2) obtain r1 where r1: "step_req_method c p (count_byte r) = Inr (Go p r1)"
      "reading s_req_method (Suc i) m1 cl mk ob r1" "hp_index (prs r1) = i1" by auto
    have i1: "i1 = Suc i" "i1 \<le> length (method_string m1)" using method_index [of m i c m1 i1] Some mi Cons.prems(5) by auto
    have "hp_nread (prs r) < HTTP_MAX_HEADER_SIZE"
      using st(2) Cons.prems(5) method_len [of m] by (simp add: HTTP_MAX_HEADER_SIZE_def)
    then have loop: "exec_loop S data p r = exec_loop S data (Suc p) r1" using loop_byte [OF d(1), of r S p r1] ex r1(1) by simp
    show ?thesis using Cons.IH [OF d(4) _ r1(2) [folded i1(1)] r1(3) i1(2)] Cons.prems(2) Some mi loop by (auto split: option.splits)
  qed
qed auto

definition start_run :: "'o \<Rightarrow> 'o run" where
  "start_run ob = \<lparr>prs = http_parser_init HTTP_REQUEST, marks = (\<lambda>k. None), robject = ob\<rparr>"

lemma execute_start:
  "data \<noteq> [] \<Longrightarrow> http_parser_execute S data (http_parser_init HTTP_REQUEST) ob =
     and_then (exec_loop S data 0 (start_run ob)) (\<lambda>oc.
       case oc of Go n r \<Rightarrow> and_then (leftover S data r) (\<lambda>oc. Inr (ended oc)) | _ \<Rightarrow> Inr (ended oc))"
proof -
  have "start_marks (hp_state (http_parser_init HTTP_REQUEST)) = (\<lambda>k. None)"
    by (auto simp: start_marks_def http_parser_init_def split: data_cb.split)
  then show "data \<noteq> [] \<Longrightarrow> ?thesis" by (simp add: http_parser_execute_def start_run_def http_parser_init_def)
qed

text \<open>The first byte of a method.\<close>

lemma first_alpha: "first_method c = Some m \<Longrightarrow> IS_ALPHA c \<and> c \<noteq> CR \<and> c \<noteq> LF \<and> 1 \<le> length (method_string m)"
  by (auto simp: IS_ALPHA_def CR_def LF_def split: if_splits)

lemma first_byte:
  assumes "on_notify S CB_message_begin = None" "data = c # w" "c \<noteq> CR" "c \<noteq> LF"
  shows "case first_method c of
      None \<Rightarrow> \<exists>q r'. exec_loop S data 0 (start_run ob) = Inr (Goto_error q r') \<and> hp_errno (prs r') \<noteq> HPE_OK
    | Some m \<Rightarrow> \<exists>r'. exec_loop S data 0 (start_run ob) = exec_loop S data 1 r'
        \<and> reading s_req_method 1 m (- 1) (\<lambda>k. None) ob r' \<and> hp_index (prs r') = 1"
proof -
  have d: "drop 0 data = c # w" using assms(2) by simp
  have ex: "exec_byte S data 0 (count_byte (start_run ob)) = step_start_req S c 0 (count_byte (start_run ob))"
    by (simp add: exec_byte_def assms(2) start_run_def http_parser_init_def count_byte_def upd_def)
  have n: "parsing_header (hp_state (prs (start_run ob))) \<longrightarrow> hp_nread (prs (start_run ob)) < HTTP_MAX_HEADER_SIZE"
    by (simp add: start_run_def http_parser_init_def HTTP_MAX_HEADER_SIZE_def)
  show ?thesis
  proof (cases "first_method c")
    case None
    then have "\<exists>r'. step_start_req S c 0 (count_byte (start_run ob)) = Inr (Goto_error 0 r') \<and> hp_errno (prs r') \<noteq> HPE_OK"
      using assms(3,4) by (auto simp: step_start_req_def Let_def fail_def set_errno_def upd_def simp del: first_method.simps)
    then show ?thesis using None loop_error [OF d] ex by (auto simp del: first_method.simps)
  next
    case (Some m)
    obtain r' where "step_start_req S c 0 (count_byte (start_run ob)) = Inr (Go 0 r')"
        "reading s_req_method 1 m (- 1) (\<lambda>k. None) ob r'" "hp_index (prs r') = 1"
      using first_alpha [OF Some] Some assms(1)
      by (auto simp: step_start_req_def start_line_def callback_notify_def start_run_def http_parser_init_def count_byte_def
          upd_def set_state_def reading_def no_flags_def parsing_header_def simp del: first_method.simps)
    then show ?thesis using loop_byte [OF d n] ex Some by (auto simp del: first_method.simps)
  qed
qed

text \<open>The blank behind a method.\<close>

lemma method_no_null: "c_at (method_string m) i = CHR 0x00 \<longleftrightarrow> length (method_string m) \<le> i"
proof -
  have "CHR 0x00 \<notin> set (method_string m)" by (cases m) simp_all
  then show ?thesis by (metis c_at_def nth_mem not_le)
qed

lemma method_blank:
  assumes "drop p data = CHR '' '' # rest" "reading s_req_method i m cl mk ob r" "hp_index (prs r) = i"
    "i = length (method_string m)"
  shows "\<exists>r'. exec_loop S data p r = exec_loop S data (Suc p) r' \<and> reading s_req_spaces_before_url (Suc i) m cl mk ob r'"
proof -
  have st: "hp_state (prs r) = s_req_method" "hp_nread (prs r) = i" using assms(2) by (simp_all add: reading_def)
  have null: "c_at (method_string m) i = CHR 0x00" using assms(4) by (simp add: method_no_null)
  have "\<exists>r'. step_req_method (CHR '' '') p (count_byte r) = Inr (Go p r') \<and> reading s_req_spaces_before_url (Suc i) m cl mk ob r'"
    using assms(2,3,4) null
    by (simp add: step_req_method_def reading_def count_byte_def upd_def set_state_def Let_def parsing_header_def)
  moreover have "hp_nread (prs r) < HTTP_MAX_HEADER_SIZE"
    using st(2) assms(4) method_len [of m] by (simp add: HTTP_MAX_HEADER_SIZE_def)
  ultimately show ?thesis
    using loop_byte [OF assms(1)] exec_method [OF st(1)] drop_cons [OF assms(1)] by metis
qed

lemma method_blank_other:
  assumes "drop p data = [CHR '' '']" "reading s_req_method i m cl mk ob r" "hp_index (prs r) = i"
    "i < length (method_string m)"
  shows "(\<exists>q r'. exec_loop S data p r = Inr (Goto_error q r') \<and> hp_errno (prs r') \<noteq> HPE_OK)
    \<or> (\<exists>r'. exec_loop S data p r = Inr (Go (Suc p) r') \<and> reading s_req_method (Suc i) m cl mk ob r')"
proof -
  have st: "hp_state (prs r) = s_req_method" "hp_nread (prs r) = i" using assms(2) by (simp_all add: reading_def)
  have ex: "exec_byte S data p (count_byte r) = step_req_method (CHR '' '') p (count_byte r)"
    using exec_method [OF st(1)] drop_cons [OF assms(1)] by simp
  have fin: "exec_loop S data (Suc p) r' = Inr (Go (Suc p) r')" for r'
    using drop_cons [OF assms(1)] by (subst exec_loop.simps) simp
  have n: "hp_nread (prs r) < HTTP_MAX_HEADER_SIZE"
    using st(2) assms(4) method_len [of m] by (simp add: HTTP_MAX_HEADER_SIZE_def)
  have not_null: "c_at (method_string m) i \<noteq> CHR 0x00" using assms(4) by (simp add: method_no_null)
  show ?thesis
  proof (cases "c_at (method_string m) i = CHR '' ''")
    case True
    have "\<exists>r'. step_req_method (CHR '' '') p (count_byte r) = Inr (Go p r') \<and> reading s_req_method (Suc i) m cl mk ob r'"
      using assms(2,3,4) True
      by (simp add: step_req_method_def reading_def count_byte_def upd_def set_state_def Let_def parsing_header_def)
    then show ?thesis using loop_byte [OF assms(1)] ex fin n by metis
  next
    case False
    have "other_method m i (CHR '' '') = None" by (simp add: other_method_def)
    then have "\<exists>r'. step_req_method (CHR '' '') p (count_byte r) = Inr (Goto_error p r') \<and> hp_errno (prs r') \<noteq> HPE_OK"
      using assms(2,3,4) False not_null
      by (auto simp: step_req_method_def reading_def count_byte_def upd_def fail_def set_errno_def Let_def parsing_header_def)
    then show ?thesis using loop_error [OF assms(1)] ex by metis
  qed
qed

lemma no_marks_leftover: "marks r = (\<lambda>k. None) \<Longrightarrow> hp_errno (prs r) = HPE_OK \<Longrightarrow> leftover S data r = Inr (Return (length data) r)"
  by (simp add: leftover_def callback_data_def marks_left_def)

lemma recognise_run:
  assumes "on_notify S CB_message_begin = None" "w \<noteq> []" "CHR '' '' \<notin> set w" "hd w \<noteq> CR" "hd w \<noteq> LF"
  shows "\<exists>n q ob'. http_parser_execute S (w @ '' '') (http_parser_init HTTP_REQUEST) ob = Inr (n, q, ob')
    \<and> (hp_errno q = HPE_OK \<and> hp_state q = s_req_spaces_before_url \<and> hp_method q = m \<longleftrightarrow> recognise w = Some m)"
proof -
  obtain c v where w: "w = c # v" using assms(2) by (cases w) auto
  let ?data = "w @ '' ''"
  let ?run = "exec_loop S ?data 0 (start_run ob)"
  have err: ?thesis if "\<exists>q r'. ?run = Inr (Goto_error q r') \<and> hp_errno (prs r') \<noteq> HPE_OK" "recognise w = None"
    using that execute_start [of ?data S ob] by auto
  show ?thesis
  proof (cases "first_method c")
    case None
    then show ?thesis
      using first_byte [OF assms(1), of ?data c "v @ '' ''" ob] w assms(4,5)
      by (intro err) (auto simp: method_start_def foldl_None simp del: first_method.simps)
  next
    case (Some m0)
    then obtain r1 where r1: "?run = exec_loop S ?data 1 r1" "reading s_req_method 1 m0 (- 1) (\<lambda>k. None) ob r1" "hp_index (prs r1) = 1"
      using first_byte [OF assms(1), of ?data c "v @ '' ''" ob] w assms(4,5) by (auto simp del: first_method.simps)
    have start: "method_start c = Some (m0, 1)" using Some by (simp add: method_start_def del: first_method.simps)
    have d: "drop 1 ?data = v @ '' ''" using w by simp
    note loop = method_loop [OF d _ r1(2,3), of S] 
    have v: "CHR '' '' \<notin> set v" "1 \<le> length (method_string m0)" using assms(3) w first_alpha [OF Some] by auto
    show ?thesis
    proof (cases "foldl method_next (Some (m0, 1)) v")
      case None
      then show ?thesis using loop [OF v] r1(1) start w by (intro err) (simp_all del: first_method.simps)
    next
      case (Some mi)
      obtain m1 i1 where mi: "mi = (m1, i1)" by (cases mi)
      then obtain r2 where r2: "?run = exec_loop S ?data (1 + length v) r2" "reading s_req_method i1 m1 (- 1) (\<lambda>k. None) ob r2"
          "hp_index (prs r2) = i1" "i1 \<le> length (method_string m1)"
        using loop [OF v] r1(1) Some by auto
      have d2: "drop (1 + length v) ?data = [CHR '' '']" using w by simp
      show ?thesis
      proof (cases "i1 = length (method_string m1)")
        case True
        obtain r3 where r3: "?run = exec_loop S ?data (Suc (1 + length v)) r3"
            "reading s_req_spaces_before_url (Suc i1) m1 (- 1) (\<lambda>k. None) ob r3"
          using method_blank [OF d2 r2(2,3) True, of S] r2(1) by auto
        have "exec_loop S ?data (Suc (1 + length v)) r3 = Inr (Go (Suc (1 + length v)) r3)"
          using w by (subst exec_loop.simps) simp
        then show ?thesis
          using execute_start [of ?data S ob] r3 Some mi True start w no_marks_leftover [of r3 S ?data] by (auto simp: reading_def)
      next
        case False
        then have "recognise w = None" using Some mi start w by simp
        moreover have "i1 < length (method_string m1)" using False r2(4) by simp
        ultimately show ?thesis
          using method_blank_other [OF d2 r2(2,3), of S] r2(1) err execute_start [of ?data S ob] no_marks_leftover [of _ S ?data]
          by (auto simp: reading_def)
      qed
    qed
  qed
qed

text \<open>
  The parser recognises the methods of its table and no others: a word without blanks, followed by a blank, is
  accepted as the method \<open>m\<close> exactly when it is the name of \<open>m\<close> in the table; only \<^verbatim>\<open>M-SEARCH\<close>, whose entry is wrong,
  is never accepted.
\<close>

theorem methods_exact:
  assumes "on_notify S CB_message_begin = None" "w \<noteq> []" "CHR '' '' \<notin> set w" "hd w \<noteq> CR" "hd w \<noteq> LF"
  shows "\<exists>n q ob'. http_parser_execute S (w @ '' '') (http_parser_init HTTP_REQUEST) ob = Inr (n, q, ob')
    \<and> (hp_errno q = HPE_OK \<and> hp_state q = s_req_spaces_before_url \<and> hp_method q = m
       \<longleftrightarrow> m \<noteq> HTTP_MSEARCH \<and> w = method_string m)"
proof -
  have "recognise w = Some m \<longleftrightarrow> m \<noteq> HTTP_MSEARCH \<and> w = method_string m"
    using recognise_sound [of w m] recognise_complete [of m] assms(3) by (auto simp: read_name_def split: if_splits)
  then show ?thesis using recognise_run [OF assms, of ob m] by simp
qed

theorem methods_exact_witness:
  "(\<exists>n q ob'. http_parser_execute \<lparr>on_data = (\<lambda>k. None), on_notify = (\<lambda>k. None)\<rparr> ''GET '' (http_parser_init HTTP_REQUEST) () = Inr (n, q, ob')
      \<and> hp_errno q = HPE_OK \<and> hp_state q = s_req_spaces_before_url \<and> hp_method q = HTTP_GET)
   \<and> (\<exists>n q ob'. http_parser_execute \<lparr>on_data = (\<lambda>k. None), on_notify = (\<lambda>k. None)\<rparr> ''M-SEARCH '' (http_parser_init HTTP_REQUEST) () = Inr (n, q, ob')
      \<and> \<not> (hp_errno q = HPE_OK \<and> hp_state q = s_req_spaces_before_url \<and> hp_method q = HTTP_MSEARCH))"
  using methods_exact [of "\<lparr>on_data = (\<lambda>k. None), on_notify = (\<lambda>k. None)\<rparr>" "''GET''" "()" HTTP_GET]
    methods_exact [of "\<lparr>on_data = (\<lambda>k. None), on_notify = (\<lambda>k. None)\<rparr>" "''M-SEARCH''" "()" HTTP_MSEARCH]
  by (simp add: CR_def LF_def)

end
