(* ===== verification/HttpParserSafe.thy ===== *)
theory HttpParserSafe
  imports HttpParser
begin

text \<open>
  Safety of the HTTP parser: on arbitrary bytes in arbitrary portions no assertion of
  \<^verbatim>\<open>http_parser_execute\<close> fails, no table is read outside its bounds and at most one mark is left over.
\<close>

section \<open>The invariant\<close>

text \<open>The only mark that can be set in a state.\<close>

definition mark_of :: "pstate \<Rightarrow> data_cb option" where
  "mark_of s =
     (case s of
        s_header_field \<Rightarrow> Some CB_header_field
      | s_header_value \<Rightarrow> Some CB_header_value
      | s_req_path \<Rightarrow> Some CB_url | s_req_schema \<Rightarrow> Some CB_url | s_req_schema_slash \<Rightarrow> Some CB_url
      | s_req_schema_slash_slash \<Rightarrow> Some CB_url | s_req_server_start \<Rightarrow> Some CB_url | s_req_server \<Rightarrow> Some CB_url
      | s_req_server_with_at \<Rightarrow> Some CB_url | s_req_query_string_start \<Rightarrow> Some CB_url | s_req_query_string \<Rightarrow> Some CB_url
      | s_req_fragment_start \<Rightarrow> Some CB_url | s_req_fragment \<Rightarrow> Some CB_url
      | s_body_identity \<Rightarrow> Some CB_body | s_body_identity_eof \<Rightarrow> Some CB_body | s_chunk_data \<Rightarrow> Some CB_body
      | s_chunk_data_almost_done \<Rightarrow> Some CB_body
      | _ \<Rightarrow> None)"

text \<open>The header states while a name is read.\<close>

definition name_state :: "header_states \<Rightarrow> bool" where
  "name_state hs \<longleftrightarrow> hs \<in> {h_general, h_C, h_CO, h_CON, h_matching_connection, h_matching_proxy_connection,
     h_matching_content_length, h_matching_transfer_encoding, h_matching_upgrade, h_connection, h_content_length,
     h_transfer_encoding, h_upgrade}"

text \<open>What holds of the fields in a state; \<open>n\<close> is the number of header bytes counted when a chunk starts.\<close>

definition good :: "nat \<Rightarrow> http_parser \<Rightarrow> bool" where
  "good n q =
     (case hp_state q of
        s_req_method \<Rightarrow> hp_index q \<le> length (method_string (hp_method q))
      | s_header_field \<Rightarrow> name_state (hp_header_state q)
      | s_header_value \<Rightarrow> hp_header_state q \<notin> {h_connection, h_transfer_encoding}
      | s_body_identity \<Rightarrow> hp_content_length q \<noteq> 0 \<and> hp_content_length q \<noteq> - 1
      | s_chunk_size_start \<Rightarrow> F_CHUNKED (hp_flags q) \<and> hp_nread q = n
      | s_chunk_size \<Rightarrow> F_CHUNKED (hp_flags q) \<and> hp_content_length q \<noteq> - 1
      | s_chunk_parameters \<Rightarrow> F_CHUNKED (hp_flags q) \<and> hp_content_length q \<noteq> - 1
      | s_chunk_size_almost_done \<Rightarrow> F_CHUNKED (hp_flags q) \<and> hp_content_length q \<noteq> - 1
      | s_chunk_data \<Rightarrow> F_CHUNKED (hp_flags q) \<and> hp_content_length q \<noteq> 0 \<and> hp_content_length q \<noteq> - 1
      | s_chunk_data_almost_done \<Rightarrow> F_CHUNKED (hp_flags q) \<and> hp_content_length q = 0
      | s_chunk_data_done \<Rightarrow> F_CHUNKED (hp_flags q)
      | _ \<Rightarrow> True)"

definition run_ok :: "nat \<Rightarrow> nat \<Rightarrow> 'o run \<Rightarrow> bool" where
  "run_ok n p r \<longleftrightarrow> hp_errno (prs r) = HPE_OK \<and> good n (prs r)
     \<and> (\<forall>k m. marks r k = Some m \<longrightarrow> mark_of (hp_state (prs r)) = Some k \<and> m \<le> p)"

definition parser_inv :: "http_parser \<Rightarrow> bool" where
  "parser_inv q \<longleftrightarrow> (hp_errno q = HPE_OK \<or> hp_errno q = HPE_PAUSED \<longrightarrow> good 0 q)"

definition settings_ok :: "'o http_parser_settings \<Rightarrow> bool" where
  "settings_ok S \<longleftrightarrow> (\<forall>k f q s n ob. on_data S k = Some f \<longrightarrow> (\<exists>x. f q s n ob = Inr x))
     \<and> (\<forall>k f q ob. on_notify S k = Some f \<longrightarrow> (\<exists>x. f q ob = Inr x))"

definition safe_out :: "'o outcome res \<Rightarrow> bool" where
  "safe_out m =
     (case m of
        Inl e \<Rightarrow> False
      | Inr (Go p r) \<Rightarrow> run_ok 0 (p + 1) r
      | Inr (Return p r) \<Rightarrow> parser_inv (prs r)
      | Inr (Goto_error p r) \<Rightarrow> parser_inv (prs r) \<and> hp_errno (prs r) \<noteq> HPE_OK)"

lemma safe_out_simps [simp]:
  "safe_out (Inr (Go p r)) = run_ok 0 (p + 1) r"
  "safe_out (Inr (Return p r)) = parser_inv (prs r)"
  "e \<noteq> HPE_OK \<Longrightarrow> e \<noteq> HPE_PAUSED \<Longrightarrow> safe_out (fail e p r)"
  by (simp_all add: safe_out_def fail_def set_errno_def upd_def parser_inv_def)

lemma safe_assert [simp]: "safe_out (cpp_assert b k) \<longleftrightarrow> b \<and> safe_out k"
  by (simp add: cpp_assert_def safe_out_def)

lemma safe_strict [simp]: "safe_out (strict_check b p r k) \<longleftrightarrow> b \<or> safe_out k"
  by (simp add: strict_check_def)

lemma safe_callback_data:
  assumes "settings_ok S" "hp_errno (prs r) = HPE_OK" "\<And>ob. safe_out (cont (r\<lparr>marks := (marks r)(k := None), robject := ob\<rparr>))"
  shows "safe_out (callback_data S data k en er r cont)"
proof (cases "marks r k")
  case None
  then have "r\<lparr>marks := (marks r)(k := None), robject := robject r\<rparr> = r" by (simp add: fun_upd_idem)
  then show ?thesis using assms(2) assms(3) [of "robject r"] None by (simp add: callback_data_def)
next
  case (Some m)
  show ?thesis
  proof (cases "on_data S k")
    case None
    then show ?thesis using Some assms(2) assms(3) [of "robject r"] by (simp add: callback_data_def)
  next
    case f: (Some f)
    then obtain res ob where "f (prs r) (drop m data) (en - m) (robject r) = Inr (res, ob)"
      using assms(1) unfolding settings_ok_def by (metis surj_pair)
    then show ?thesis using Some f assms(2,3) by (simp add: callback_data_def set_errno_def upd_def parser_inv_def)
  qed
qed

lemma safe_callback_notify:
  assumes "settings_ok S" "hp_errno (prs r) = HPE_OK" "\<And>ob. safe_out (cont (r\<lparr>robject := ob\<rparr>))"
  shows "safe_out (callback_notify S k er r cont)"
proof (cases "on_notify S k")
  case None
  then show ?thesis using assms(2) assms(3) [of "robject r"] by (simp add: callback_notify_def)
next
  case (Some f)
  then obtain res ob where "f (prs r) (robject r) = Inr (res, ob)"
    using assms(1) unfolding settings_ok_def by (metis surj_pair)
  then show ?thesis using Some assms(2,3) by (simp add: callback_notify_def set_errno_def upd_def parser_inv_def)
qed

lemma good_new_message [simp]: "good n (q\<lparr>hp_state := NEW_MESSAGE q'\<rparr>)" "mark_of (NEW_MESSAGE q') = None"
  by (simp_all add: good_def NEW_MESSAGE_def mark_of_def)

text \<open>A run without marks is fine in every state whose demands are met.\<close>

lemma run_ok_no_marks: "marks r = (\<lambda>k. None) \<Longrightarrow> run_ok n p r \<longleftrightarrow> hp_errno (prs r) = HPE_OK \<and> good n (prs r)"
  by (simp add: run_ok_def)

lemma run_ok_marks:
  assumes "run_ok n p r" "mark_of (hp_state (prs r)) = None"
  shows "marks r = (\<lambda>k. None)"
proof
  fix k show "marks r k = None" using assms by (cases "marks r k") (auto simp: run_ok_def)
qed

lemma run_ok_mark_at:
  assumes "run_ok n p r" "mark_of (hp_state (prs r)) = Some k"
  shows "(marks r)(k := None) = (\<lambda>k. None)"
proof
  fix k' show "((marks r)(k := None)) k' = None" using assms by (cases "marks r k'") (auto simp: run_ok_def)
qed

lemma run_ok_errno: "run_ok n p r \<Longrightarrow> hp_errno (prs r) = HPE_OK"
  by (simp add: run_ok_def)

lemma safe_complete:
  assumes "settings_ok S" "hp_errno (prs r) = HPE_OK" "marks r = (\<lambda>k. None)"
  shows "safe_out (complete S p r (\<lambda>r. Inr (Go p r)))" "safe_out (complete S p r (\<lambda>r. Inr (Return n r)))"
  unfolding complete_def using assms
  by (auto intro!: safe_callback_notify simp: set_state_def upd_def run_ok_no_marks parser_inv_def)

lemma url_state:
  assumes "parse_url_char s ch \<noteq> s_dead"
  shows "mark_of (parse_url_char s ch) = Some CB_url" "good n (q\<lparr>hp_state := parse_url_char s ch\<rparr>)"
proof -
  have "parse_url_char s ch \<in> {s_req_path, s_req_schema, s_req_schema_slash, s_req_schema_slash_slash, s_req_server_start,
      s_req_server, s_req_server_with_at, s_req_query_string_start, s_req_query_string, s_req_fragment_start, s_req_fragment}"
    using assms by (cases s) (auto simp: parse_url_char_def split: if_splits)
  then show "mark_of (parse_url_char s ch) = Some CB_url" "good n (q\<lparr>hp_state := parse_url_char s ch\<rparr>)"
    by (auto simp: mark_of_def good_def)
qed

section \<open>The steps keep it\<close>

text \<open>Steps in states without a mark.\<close>

lemmas unmarked = set_state_def upd_def start_line_def run_ok_no_marks good_def Let_def

lemma safe_start_req:
  assumes "settings_ok S" "hp_errno (prs r) = HPE_OK" "marks r = (\<lambda>k. None)" "hp_state (prs r) = s_start_req"
  shows "safe_out (step_start_req S ch p r)"
proof -
  have m: "first_method ch = Some m \<Longrightarrow> 1 \<le> length (method_string m)" for m by (cases m) simp_all
  show ?thesis using assms m
    by (auto simp: step_start_req_def unmarked simp del: first_method.simps intro!: safe_callback_notify split: option.split)
qed

lemma safe_start_line:
  assumes "settings_ok S" "hp_errno (prs r) = HPE_OK" "marks r = (\<lambda>k. None)" "good 1 (prs r)"
  shows "hp_state (prs r) = s_dead \<Longrightarrow> safe_out (step_dead ch p r)"
    and "hp_state (prs r) = s_start_req_or_res \<Longrightarrow> safe_out (step_start_req_or_res S ch p r)"
    and "hp_state (prs r) = s_res_or_resp_H \<Longrightarrow> safe_out (step_res_or_resp_H ch p r)"
    and "hp_state (prs r) = s_start_res \<Longrightarrow> safe_out (step_start_res S ch p r)"
    and "hp_state (prs r) = s_res_line_almost_done \<Longrightarrow> safe_out (step_res_line_almost_done S ch p r)"
proof -
  show "hp_state (prs r) = s_dead \<Longrightarrow> safe_out (step_dead ch p r)"
    using assms by (simp add: step_dead_def unmarked)
  show "hp_state (prs r) = s_start_req_or_res \<Longrightarrow> safe_out (step_start_req_or_res S ch p r)"
    using assms by (auto simp: step_start_req_or_res_def unmarked intro!: safe_callback_notify safe_start_req)
  show "hp_state (prs r) = s_res_or_resp_H \<Longrightarrow> safe_out (step_res_or_resp_H ch p r)"
    using assms by (simp add: step_res_or_resp_H_def unmarked)
  show "hp_state (prs r) = s_start_res \<Longrightarrow> safe_out (step_start_res S ch p r)"
    using assms by (auto simp: step_start_res_def unmarked intro!: safe_callback_notify)
  show "hp_state (prs r) = s_res_line_almost_done \<Longrightarrow> safe_out (step_res_line_almost_done S ch p r)"
    using assms by (auto simp: step_res_line_almost_done_def unmarked intro!: safe_callback_notify)
qed

text \<open>The states of the version and the status: every state they lead to is one without demands.\<close>

definition plain :: "pstate \<Rightarrow> bool" where
  "plain s \<longleftrightarrow> (\<forall>n q. good n (q\<lparr>hp_state := s\<rparr>)) \<and> mark_of s = None"

lemma plain_states:
  "plain s_res_HT" "plain s_res_HTT" "plain s_res_HTTP" "plain s_res_first_http_major" "plain s_res_http_major"
  "plain s_res_first_http_minor" "plain s_res_http_minor" "plain s_req_http_HT" "plain s_req_http_HTT" "plain s_req_http_HTTP"
  "plain s_req_first_http_major" "plain s_req_http_major" "plain s_req_first_http_minor" "plain s_req_http_minor"
  "plain s_res_first_status_code" "plain s_res_status_code" "plain s_res_status" "plain s_res_line_almost_done"
  "plain s_header_field_start" "plain s_req_http_start" "plain s_req_http_H" "plain s_req_line_almost_done"
  by (simp_all add: plain_def good_def mark_of_def)

lemma good_plain: "plain (hp_state q) \<Longrightarrow> good n q"
  by (metis plain_def http_parser.surjective http_parser.update_convs(3) old.unit.exhaust)

lemma safe_version:
  assumes "hp_errno (prs r) = HPE_OK" "marks r = (\<lambda>k. None)" "plain (hp_state (prs r))"
  shows "plain s \<Longrightarrow> safe_out (step_expect c s ch p r)" "plain s \<Longrightarrow> safe_out (step_first_major l s ch p r)"
    "plain s \<Longrightarrow> safe_out (step_major s ch p r)" "plain s \<Longrightarrow> safe_out (step_first_minor s ch p r)"
    "safe_out (step_minor_digit ch p r)" "safe_out (step_res_http_minor ch p r)" "safe_out (step_res_first_status_code ch p r)"
    "safe_out (step_res_status_code ch p r)" "safe_out (step_res_status ch p r)" "safe_out (step_req_http_start ch p r)"
    "safe_out (step_req_http_minor ch p r)" "safe_out (step_req_line_almost_done ch p r)"
  using assms by (simp_all add: start_steps set_state_def upd_def run_ok_no_marks Let_def good_plain plain_states)

lemma safe_method:
  assumes "hp_errno (prs r) = HPE_OK" "marks r = (\<lambda>k. None)" "good 1 (prs r)" "hp_state (prs r) = s_req_method"
  shows "safe_out (step_req_method ch p r)"
proof -
  let ?m = "hp_method (prs r)" and ?i = "hp_index (prs r)"
  have i: "?i \<le> length (method_string ?m)" using assms(3,4) by (simp add: good_def)
  have len: "length (method_string m) \<le> 11" for m by (cases m) simp_all
  have inc: "inc8 ?i = Suc ?i" using i len [of ?m] by (simp add: inc8_def)
  have other: "Suc ?i \<le> length (method_string m')" if "other_method ?m ?i ch = Some m'" for m'
    using that by (auto simp: other_method_def split: if_splits)
  have same: "Suc ?i \<le> length (method_string ?m)" if "ch = c_at (method_string ?m) ?i" "ch \<noteq> CHR 0x00"
    using that by (simp add: c_at_def split: if_splits)
  show ?thesis using assms i inc other same
    by (auto simp: step_req_method_def unmarked split: option.split)
qed

lemma safe_url_step:
  assumes "hp_errno (prs r) = HPE_OK" "\<forall>k m. marks r k = Some m \<longrightarrow> k = CB_url \<and> m \<le> p"
  shows "safe_out (url_step ch p r)"
  using assms url_state(1) [of "hp_state (prs r)" ch] url_state(2) [of "hp_state (prs r)" ch 0 "prs r"]
  by (fastforce simp: url_step_def Let_def set_state_def upd_def run_ok_def)

lemma safe_url:
  assumes "settings_ok S" "run_ok 1 p r"
  shows "hp_state (prs r) = s_req_spaces_before_url \<Longrightarrow> safe_out (step_req_spaces_before_url ch p r)"
    and "mark_of (hp_state (prs r)) = Some CB_url \<Longrightarrow> safe_out (step_req_url_start ch p r)"
    and "mark_of (hp_state (prs r)) = Some CB_url \<Longrightarrow> safe_out (step_req_url S data ch p r)"
proof -
  have err: "hp_errno (prs r) = HPE_OK" using assms(2) by (rule run_ok_errno)
  show "hp_state (prs r) = s_req_spaces_before_url \<Longrightarrow> safe_out (step_req_spaces_before_url ch p r)"
    using run_ok_marks [OF assms(2)] err
    by (auto simp: step_req_spaces_before_url_def mark_of_def MARK_def unmarked intro!: safe_url_step split: if_splits)
  have url: "\<forall>k m. marks r k = Some m \<longrightarrow> k = CB_url \<and> m \<le> p" if "mark_of (hp_state (prs r)) = Some CB_url"
    using assms(2) that by (auto simp: run_ok_def)
  show "mark_of (hp_state (prs r)) = Some CB_url \<Longrightarrow> safe_out (step_req_url_start ch p r)"
    using safe_url_step [OF err url] by (simp add: step_req_url_start_def)
  show "safe_out (step_req_url S data ch p r)" if "mark_of (hp_state (prs r)) = Some CB_url"
    using safe_url_step [OF err url [OF that]] err run_ok_mark_at [OF assms(2) that]
    by (auto simp: step_req_url_def unmarked intro!: safe_callback_data [OF assms(1)])
qed

lemma safe_headers_done:
  assumes "settings_ok S" "hp_errno (prs r) = HPE_OK" "marks r = (\<lambda>k. None)" "hp_state (prs r) = s_headers_done"
  shows "safe_out (step_headers_done S ch p r)"
  using assms by (auto simp: step_headers_done_def unmarked intro!: safe_complete)

lemma safe_headers_almost_done:
  assumes "settings_ok S" "hp_errno (prs r) = HPE_OK" "marks r = (\<lambda>k. None)" "hp_state (prs r) = s_headers_almost_done"
  shows "safe_out (step_headers_almost_done S ch p r)"
proof (cases "on_notify S CB_headers_complete")
  case None
  then show ?thesis using assms
    by (auto simp: step_headers_almost_done_def upd_def Let_def intro!: safe_complete safe_headers_done)
next
  case (Some f)
  let ?q = "(prs r)\<lparr>hp_state := s_headers_done, hp_upgrade := (F_UPGRADE (hp_flags (prs r)) \<or> hp_method (prs r) = HTTP_CONNECT)\<rparr>"
  obtain res ob where "f ?q (robject r) = Inr (res, ob)"
    using Some assms(1) unfolding settings_ok_def by (metis surj_pair)
  then show ?thesis using assms Some
    by (auto simp: step_headers_almost_done_def upd_def set_errno_def parser_inv_def Let_def intro!: safe_complete safe_headers_done)
qed

lemma safe_header_field_start:
  assumes "settings_ok S" "hp_errno (prs r) = HPE_OK" "marks r = (\<lambda>k. None)" "hp_state (prs r) = s_header_field_start"
  shows "safe_out (step_header_field_start S ch p r)"
proof -
  have "name_state (first_header_state c)" for c by (simp add: first_header_state_def name_state_def)
  then show ?thesis using assms
    by (fastforce simp: step_header_field_start_def set_state_def upd_def MARK_def run_ok_def good_def mark_of_def
        intro!: safe_headers_almost_done split: if_splits)
qed

lemma name_state_match: "name_state hs \<Longrightarrow> name_state found \<Longrightarrow> name_state (match_word w hs found i c)"
  by (simp add: match_word_def name_state_def)

lemma name_state_simps [simp]:
  "name_state h_general" "name_state h_C" "name_state h_CO" "name_state h_CON" "name_state h_matching_connection"
  "name_state h_matching_proxy_connection" "name_state h_matching_content_length" "name_state h_matching_transfer_encoding"
  "name_state h_matching_upgrade" "name_state h_connection" "name_state h_content_length" "name_state h_transfer_encoding"
  "name_state h_upgrade"
  by (simp_all add: name_state_def)

lemma name_char_safe:
  assumes "name_state hs"
  shows "\<exists>hs' i'. name_char ch c (hs, i) = Inr (hs', i') \<and> name_state hs'"
  using assms by (cases hs) (auto simp: name_char_def Let_def name_state_match, simp_all add: name_state_def)

lemma safe_header_field:
  assumes "settings_ok S" "run_ok 1 p r" "hp_state (prs r) = s_header_field"
  shows "safe_out (step_header_field S data ch p r)"
proof -
  have err: "hp_errno (prs r) = HPE_OK" using assms(2) by (rule run_ok_errno)
  have none: "(marks r)(CB_header_field := None) = (\<lambda>k. None)" using run_ok_mark_at [OF assms(2)] assms(3) by (simp add: mark_of_def)
  obtain hs i where h: "name_char ch (TOKEN ch) (hp_header_state (prs r), hp_index (prs r)) = Inr (hs, i)"
      "good 0 ((prs r)\<lparr>hp_header_state := hs, hp_index := i\<rparr>)"
    using name_char_safe [of "hp_header_state (prs r)" ch "TOKEN ch" "hp_index (prs r)"] assms(2,3)
    by (auto simp: run_ok_def good_def)
  have "run_ok 0 (p + 1) (set_header (hs, i) r)"
    using assms(2,3) h(2) by (auto simp: set_header_def upd_def run_ok_def) (meson le_SucI)
  then show ?thesis using h(1) err none
    by (auto simp: step_header_field_def unmarked intro!: safe_callback_data [OF assms(1)])
qed

lemma value_first_ok:
  assumes "value_first ch q = Some q'" "hp_state q = s_header_value"
  shows "good 0 q' \<and> hp_state q' = s_header_value \<and> hp_errno q' = hp_errno q"
  using assms by (auto simp: value_first_def good_def split: header_states.splits if_splits)

lemma safe_header_value_start:
  assumes "settings_ok S" "hp_errno (prs r) = HPE_OK" "marks r = (\<lambda>k. None)" "hp_state (prs r) = s_header_value_start"
  shows "safe_out (step_header_value_start S data ch p r)"
proof -
  let ?q = "(prs r)\<lparr>hp_state := s_header_value, hp_index := 0\<rparr>"
  show ?thesis
  proof (cases "value_first ch ?q")
    case None
    then show ?thesis using assms
      by (auto simp: step_header_value_start_def unmarked MARK_def mark_of_def intro!: safe_callback_data [OF assms(1)])
  next
    case (Some q')
    then show ?thesis using assms value_first_ok [OF Some]
      by (auto simp: step_header_value_start_def unmarked MARK_def mark_of_def run_ok_def intro!: safe_callback_data [OF assms(1)]
          split: if_splits)
  qed
qed

lemma safe_header_almost_done:
  assumes "hp_errno (prs r) = HPE_OK" "marks r = (\<lambda>k. None)"
  shows "safe_out (step_header_almost_done ch p r)"
  using assms by (simp add: step_header_almost_done_def unmarked)

lemma value_char_ok:
  assumes "good n q" "hp_state q = s_header_value"
  shows "\<exists>v. value_char ch q = Inr v \<and> (\<forall>q'. v = Some q' \<longrightarrow> good 0 q' \<and> hp_state q' = s_header_value \<and> hp_errno q' = hp_errno q)"
  using assms by (cases "hp_header_state q") (auto simp: value_char_def good_def match_word_def Let_def)

lemma safe_header_value:
  assumes "settings_ok S" "run_ok 1 p r" "hp_state (prs r) = s_header_value"
  shows "safe_out (step_header_value S data ch p r)"
proof -
  have err: "hp_errno (prs r) = HPE_OK" using assms(2) by (rule run_ok_errno)
  have none: "(marks r)(CB_header_value := None) = (\<lambda>k. None)" using run_ok_mark_at [OF assms(2)] assms(3) by (simp add: mark_of_def)
  obtain v where v: "value_char ch (prs r) = Inr v"
      "\<And>q'. v = Some q' \<Longrightarrow> good 0 q' \<and> hp_state q' = s_header_value \<and> hp_errno q' = HPE_OK"
    using value_char_ok [of 1 "prs r" ch] assms(2,3) err by (auto simp: run_ok_def)
  have "run_ok 0 (p + 1) (r\<lparr>prs := q'\<rparr>)" if "v = Some q'" for q'
    using v(2) [OF that] assms(2,3) by (auto simp: run_ok_def) (meson le_SucI)
  then show ?thesis using v(1) err none
    by (auto simp: step_header_value_def unmarked intro!: safe_callback_data [OF assms(1)] safe_header_almost_done split: option.split)
qed

lemma safe_header_value_lws:
  assumes "settings_ok S" "hp_errno (prs r) = HPE_OK" "marks r = (\<lambda>k. None)"
  shows "safe_out (step_header_value_lws S ch p r)"
  using assms by (auto simp: step_header_value_lws_def unmarked intro!: safe_header_field_start)

lemma unat_max: "unat (- 1 :: u64) = 2 ^ 64 - 1"
  by (simp add: unsigned_minus_1_eq_mask mask_eq_exp_minus_1)

lemma unat_minus_nat:
  assumes "n \<le> unat (a :: u64)"
  shows "unat (a - word_of_nat n) = unat a - n"
proof -
  have "unat (word_of_nat n :: u64) = n" using assms unsigned_less [of a, where ?'a = nat] by (intro unat_word_of_nat) simp
  then show ?thesis using assms by (simp add: unat_sub word_le_nat_alt)
qed

lemma taken:
  assumes "p < length data" "hp_content_length (prs r) \<noteq> 0" "hp_content_length (prs r) \<noteq> - 1"
  shows "hp_content_length (prs (take_body (to_read data p r) p r)) \<noteq> - 1"
proof
  let ?n = "to_read data p r" and ?a = "hp_content_length (prs r)"
  assume eq: "hp_content_length (prs (take_body ?n p r)) = - 1"
  have n: "0 < ?n" "?n \<le> unat ?a" using to_read_pos [OF assms(1,2)] by (simp_all add: to_read_def)
  have "?a - word_of_nat ?n = - 1" using eq by (simp add: take_body_def upd_def MARK_def split: if_splits)
  then have "unat (- 1 :: u64) = unat ?a - ?n" using unat_minus_nat [OF n(2)] by simp
  then show False using n(1) unsigned_less [of ?a, where ?'a = nat] by (simp add: unat_max)
qed

lemma take_body_frame [simp]:
  "hp_state (prs (take_body n p r)) = hp_state (prs r)" "hp_errno (prs (take_body n p r)) = hp_errno (prs r)"
  "hp_flags (prs (take_body n p r)) = hp_flags (prs r)" "marks (take_body n p r) = marks (MARK CB_body p r)"
  by (simp_all add: take_body_def upd_def MARK_def)

lemma body_marks:
  assumes "run_ok 1 p r" "mark_of (hp_state (prs r)) = Some CB_body"
  shows "\<forall>k m. marks (MARK CB_body p r) k = Some m \<longrightarrow> k = CB_body \<and> m \<le> p" "(marks (MARK CB_body p r))(CB_body := None) = (\<lambda>k. None)"
proof -
  have "k = CB_body \<and> m \<le> p" if "marks (MARK CB_body p r) k = Some m" for k m
    using assms that by (cases "marks r k") (auto simp: run_ok_def MARK_def split: if_splits)
  then show "\<forall>k m. marks (MARK CB_body p r) k = Some m \<longrightarrow> k = CB_body \<and> m \<le> p" by blast
  show "(marks (MARK CB_body p r))(CB_body := None) = (\<lambda>k. None)" using run_ok_mark_at [OF assms] by (simp add: MARK_def)
qed

lemma safe_message_done:
  assumes "settings_ok S" "hp_errno (prs r) = HPE_OK" "marks r = (\<lambda>k. None)"
  shows "safe_out (step_message_done S p r)"
  using safe_complete(1) [OF assms] by (simp add: step_message_done_def)

lemma safe_body_identity:
  assumes "settings_ok S" "run_ok 1 p r" "hp_state (prs r) = s_body_identity" "p < length data"
  shows "safe_out (step_body_identity S data p r)"
proof -
  let ?n = "to_read data p r" let ?r = "take_body ?n p r"
  have cl: "hp_content_length (prs r) \<noteq> 0" "hp_content_length (prs r) \<noteq> - 1" "hp_errno (prs r) = HPE_OK"
    using assms(2,3) by (simp_all add: run_ok_def good_def)
  note marks = body_marks [OF assms(2)]
  have n: "p \<le> p + ?n - 1" using to_read_pos [OF assms(4) cl(1)] by simp
  have "safe_out (callback_data S data CB_body (p + ?n) (p + ?n - 1) (set_state s_message_done ?r)
      (\<lambda>r. step_message_done S (p + ?n - 1) r))"
    using cl(3) marks(2) assms(3)
    by (auto simp: set_state_def upd_def mark_of_def intro!: safe_callback_data [OF assms(1)] safe_message_done [OF assms(1)])
  moreover have "hp_content_length (prs ?r) \<noteq> 0 \<Longrightarrow> run_ok 0 (p + ?n - 1 + 1) ?r"
    using taken [OF assms(4) cl(1,2)] cl(3) marks(1) assms(3) n by (fastforce simp: run_ok_def good_def mark_of_def)
  moreover have "p + ?n - 1 + 1 = p + ?n" using to_read_pos [OF assms(4) cl(1)] by simp
  ultimately show ?thesis using cl by (simp add: step_body_identity_def Let_def)
qed

lemma safe_chunk_data:
  assumes "run_ok 1 p r" "hp_state (prs r) = s_chunk_data" "p < length data"
  shows "safe_out (step_chunk_data data p r)"
proof -
  let ?n = "to_read data p r" let ?r = "take_body ?n p r"
  have cl: "hp_content_length (prs r) \<noteq> 0" "hp_content_length (prs r) \<noteq> - 1" "hp_errno (prs r) = HPE_OK" "F_CHUNKED (hp_flags (prs r))"
    using assms(1,2) by (simp_all add: run_ok_def good_def)
  have marks: "\<forall>k m. marks (MARK CB_body p r) k = Some m \<longrightarrow> k = CB_body \<and> m \<le> p"
    using body_marks(1) [OF assms(1)] assms(2) by (simp add: mark_of_def)
  have n: "p \<le> Suc (p + ?n - 1)" using to_read_pos [OF assms(3) cl(1)] by simp
  have more: "hp_content_length (prs ?r) \<noteq> 0 \<Longrightarrow> run_ok 0 (p + ?n - 1 + 1) ?r"
    using taken [OF assms(3) cl(1,2)] cl(3,4) marks assms(2) n by (fastforce simp: run_ok_def good_def mark_of_def)
  have ends: "hp_content_length (prs ?r) = 0 \<Longrightarrow> run_ok 0 (p + ?n - 1 + 1) (set_state s_chunk_data_almost_done ?r)"
    using cl(3,4) marks n by (fastforce simp: run_ok_def good_def mark_of_def set_state_def upd_def)
  show ?thesis using cl more ends by (simp add: step_chunk_data_def Let_def)
qed

lemma safe_body_eof:
  assumes "run_ok 1 p r" "hp_state (prs r) = s_body_identity_eof" "p < length data"
  shows "safe_out (step_body_identity_eof data p r)"
proof -
  have "\<forall>k m. marks (MARK CB_body p r) k = Some m \<longrightarrow> k = CB_body \<and> m \<le> p"
    using body_marks(1) [OF assms(1)] assms(2) by (simp add: mark_of_def)
  moreover have "prs (MARK CB_body p r) = prs r" by (simp add: MARK_def)
  moreover have "mark_of s_body_identity_eof = Some CB_body" by (simp add: mark_of_def)
  ultimately show ?thesis
    using assms(2,3) run_ok_errno [OF assms(1)]
    by (auto simp: step_body_identity_eof_def run_ok_def good_def) (metis Suc_leI Suc_pred le_trans less_imp_le_nat zero_less_Suc length_pos_if_in_set less_nat_zero_code neq0_conv)
qed

lemma unhex_small: "unhex_at ch = - 1 \<or> 0 \<le> unhex_at ch \<and> unhex_at ch < 16"
proof -
  have "\<forall>x\<in>set unhex. x = - 1 \<or> 0 \<le> x \<and> x < 16" by (simp add: unhex_def)
  moreover have "length unhex = 256" by (simp add: unhex_def)
  ultimately show ?thesis using nat_of_char_less_256 [of ch] by (simp add: unhex_at_def)
qed

lemma safe_chunks:
  assumes "settings_ok S" "run_ok 1 p r"
  shows "hp_state (prs r) = s_chunk_size_start \<Longrightarrow> safe_out (step_chunk_size_start ch p r)"
    and "hp_state (prs r) = s_chunk_size \<Longrightarrow> safe_out (step_chunk_size ch p r)"
    and "hp_state (prs r) = s_chunk_parameters \<Longrightarrow> safe_out (step_chunk_parameters ch p r)"
    and "hp_state (prs r) = s_chunk_size_almost_done \<Longrightarrow> safe_out (step_chunk_size_almost_done ch p r)"
    and "hp_state (prs r) = s_chunk_data_almost_done \<Longrightarrow> safe_out (step_chunk_data_almost_done S data ch p r)"
    and "hp_state (prs r) = s_chunk_data_done \<Longrightarrow> safe_out (step_chunk_data_done ch p r)"
proof -
  have err: "hp_errno (prs r) = HPE_OK" "good 1 (prs r)" using assms(2) by (simp_all add: run_ok_def)
  note none = run_ok_marks [OF assms(2)]
  have hex: "(word_of_int (unhex_at ch) :: u64) \<noteq> - 1" if "unhex_at ch \<noteq> - 1"
  proof -
    have "0 \<le> unhex_at ch \<and> unhex_at ch < 16" using unhex_small [of ch] that by simp
    then have "unat (word_of_int (unhex_at ch) :: u64) < 16" by (simp add: unat_eq_nat_uint uint_word_of_int nat_less_iff)
    then show ?thesis using unat_max by auto
  qed
  show "hp_state (prs r) = s_chunk_size_start \<Longrightarrow> safe_out (step_chunk_size_start ch p r)"
    using err none hex by (simp add: step_chunk_size_start_def unmarked mark_of_def)
  show "hp_state (prs r) = s_chunk_size \<Longrightarrow> safe_out (step_chunk_size ch p r)"
    using err none by (simp add: step_chunk_size_def unmarked mark_of_def)
  show "hp_state (prs r) = s_chunk_parameters \<Longrightarrow> safe_out (step_chunk_parameters ch p r)"
    using err none by (simp add: step_chunk_parameters_def unmarked mark_of_def)
  show "hp_state (prs r) = s_chunk_size_almost_done \<Longrightarrow> safe_out (step_chunk_size_almost_done ch p r)"
    using err none by (simp add: step_chunk_size_almost_done_def unmarked mark_of_def)
  show "safe_out (step_chunk_data_almost_done S data ch p r)" if "hp_state (prs r) = s_chunk_data_almost_done"
    using err that run_ok_mark_at [OF assms(2)]
    by (auto simp: step_chunk_data_almost_done_def unmarked mark_of_def intro!: safe_callback_data [OF assms(1)])
  show "hp_state (prs r) = s_chunk_data_done \<Longrightarrow> safe_out (step_chunk_data_done ch p r)"
    using err none by (simp add: step_chunk_data_done_def unmarked mark_of_def)
qed

section \<open>Whole runs\<close>

lemma safe_byte:
  assumes "settings_ok S" "run_ok 1 p r" "p < length data"
  shows "safe_out (exec_byte S data p r)"
proof -
  have err: "hp_errno (prs r) = HPE_OK" "good 1 (prs r)" using assms(2) by (simp_all add: run_ok_def)
  note none = run_ok_marks [OF assms(2)]
  note steps = safe_start_line [OF assms(1) err(1) _ err(2)] safe_start_req [OF assms(1) err(1)] safe_version [OF err(1)]
    safe_method [OF err(1) _ err(2)] safe_url [OF assms(1,2)] safe_headers_done [OF assms(1) err(1)]
    safe_headers_almost_done [OF assms(1) err(1)] safe_header_field_start [OF assms(1) err(1)]
    safe_header_field [OF assms(1,2)] safe_header_value_start [OF assms(1) err(1)] safe_header_value [OF assms(1,2)]
    safe_header_value_lws [OF assms(1) err(1)] safe_header_almost_done [OF err(1)] safe_chunks [OF assms(1,2)]
    safe_body_identity [OF assms(1,2) _ assms(3)] safe_chunk_data [OF assms(2) _ assms(3)] safe_body_eof [OF assms(2) _ assms(3)]
    safe_message_done [OF assms(1) err(1)]
  show ?thesis
    by (cases "hp_state (prs r)") (simp_all add: exec_byte_def Let_def steps none mark_of_def plain_states plain_def good_def)
qed

lemma run_ok_count: "run_ok 0 p r \<Longrightarrow> run_ok 1 p (count_byte r)"
  by (cases "hp_state (prs r)") (simp_all add: run_ok_def count_byte_def upd_def good_def parsing_header_def mark_of_def)

lemma safe_loop:
  assumes "settings_ok S" "run_ok 0 p r"
  shows "case exec_loop S data p r of Inl e \<Rightarrow> False | Inr (Go n r') \<Rightarrow> run_ok 0 n r' | m \<Rightarrow> safe_out m"
  using assms
proof (induction S data p r rule: exec_loop.induct)
  case (1 S data p r)
  let ?r = "count_byte r"
  show ?case
  proof (cases "p < length data")
    case p: True
    show ?thesis
    proof (cases "parsing_header (hp_state (prs r)) \<and> HTTP_MAX_HEADER_SIZE < hp_nread (prs ?r)")
      case True
      then have "exec_loop S data p r = fail HPE_HEADER_OVERFLOW p ?r" using p by (simp add: exec_loop.simps [of S data p r] Let_def)
      moreover have "safe_out (fail HPE_HEADER_OVERFLOW p ?r)" by simp
      ultimately show ?thesis by (simp add: fail_def)
    next
      case False
      have safe: "safe_out (exec_byte S data p ?r)" using safe_byte [OF 1(2) run_ok_count [OF 1(3)] p] .
      then obtain oc where oc: "exec_byte S data p ?r = Inr oc" by (cases "exec_byte S data p ?r") (auto simp: safe_out_def)
      have run: "exec_loop S data p r = (case oc of Go q r' \<Rightarrow> exec_loop S data (q + 1) r' | _ \<Rightarrow> Inr oc)"
        unfolding exec_loop.simps [of S data p r] Let_def if_P [OF p] if_not_P [OF False] oc by (cases oc) simp_all
      show ?thesis
      proof (cases oc)
        case (Go q r')
        then have "run_ok 0 (q + 1) r'" using safe oc by simp
        from 1(1) [OF p refl False oc [unfolded Go] refl 1(2) this] show ?thesis using run Go by simp
      qed (use run oc safe in simp_all)
    qed
  next
    case False
    then show ?thesis using 1(3) by (simp add: exec_loop.simps [of S data p r])
  qed
qed

lemma marks_left_one: "run_ok n p r \<Longrightarrow> marks_left r \<le> 1"
proof -
  assume "run_ok n p r"
  then have "marks r k = None" if "mark_of (hp_state (prs r)) \<noteq> Some k" for k
    using that by (cases "marks r k") (auto simp: run_ok_def)
  then show ?thesis
    by (cases "mark_of (hp_state (prs r))"; cases "the (mark_of (hp_state (prs r)))") (simp_all add: marks_left_def)
qed

lemma leftover_safe:
  assumes "settings_ok S" "run_ok 0 p r"
  shows "safe_out (leftover S data r)"
proof -
  have inv: "parser_inv (prs r)" "hp_errno (prs r) = HPE_OK" using assms(2) by (simp_all add: run_ok_def parser_inv_def)
  then show ?thesis unfolding leftover_def Let_def safe_assert
    by (intro conjI marks_left_one [OF assms(2)] safe_callback_data [OF assms(1)]) simp_all
qed

lemma start_marks_of: "start_marks s k = Some m \<Longrightarrow> mark_of s = Some k \<and> m = 0"
  by (cases k) (auto simp: start_marks_def mark_of_def split: if_splits)

lemma ended_inv: "safe_out m \<Longrightarrow> \<exists>n q ob. and_then m (\<lambda>oc. Inr (ended oc)) = Inr (n, q, ob) \<and> parser_inv q"
  by (cases m; cases "projr m") (auto simp: safe_out_def run_ok_def parser_inv_def)

lemma execute_safe:
  assumes "settings_ok S" "parser_inv q"
  shows "\<exists>n q' ob'. http_parser_execute S data q ob = Inr (n, q', ob') \<and> parser_inv q'"
proof (cases "hp_errno q = HPE_OK")
  case False
  then show ?thesis using assms(2) by (simp add: http_parser_execute_def)
next
  case True
  let ?r = "\<lparr>prs = q, marks = start_marks (hp_state q), robject = ob\<rparr>"
  have ok: "run_ok 0 0 ?r" using True assms(2) start_marks_of by (auto simp: run_ok_def parser_inv_def)
  show ?thesis
  proof (cases "data = []")
    case data: True
    have "safe_out (callback_notify S CB_message_complete 0 ?r (\<lambda>r. Inr (Return 0 r)))"
      using assms True by (intro safe_callback_notify) simp_all
    from ended_inv [OF this] show ?thesis using data True assms(2) by (auto simp: http_parser_execute_def parser_inv_def)
  next
    case data: False
    have "case exec_loop S data 0 ?r of Inl e \<Rightarrow> False | Inr (Go n r') \<Rightarrow> run_ok 0 n r' | m \<Rightarrow> safe_out m"
      by (rule safe_loop [OF assms(1) ok])
    then obtain oc where oc: "exec_loop S data 0 ?r = Inr oc" "case oc of Go n r' \<Rightarrow> run_ok 0 n r' | _ \<Rightarrow> safe_out (Inr oc)"
      by (cases "exec_loop S data 0 ?r") (auto split: outcome.splits)
    show ?thesis
    proof (cases oc)
      case (Go n r')
      then have "safe_out (leftover S data r')" using leftover_safe [OF assms(1)] oc(2) by simp
      from ended_inv [OF this] show ?thesis using Go oc(1) data True by (simp add: http_parser_execute_def)
    qed (use oc data True ended_inv [of "Inr oc"] in \<open>auto simp: http_parser_execute_def\<close>)
  qed
qed


section \<open>Reachable parsers\<close>

text \<open>A parser in use: initialised, then run over portions of the input, paused and resumed.\<close>

inductive reachable_parser :: "'o http_parser_settings \<Rightarrow> http_parser \<Rightarrow> bool" for S where
  rp_init: "reachable_parser S (http_parser_init t)"
| rp_execute: "reachable_parser S q \<Longrightarrow> http_parser_execute S data q ob = Inr (n, q', ob') \<Longrightarrow> reachable_parser S q'"
| rp_pause: "reachable_parser S q \<Longrightarrow> http_parser_pause b q = Inr q' \<Longrightarrow> reachable_parser S q'"

lemma good_errno: "good n (q\<lparr>hp_errno := e\<rparr>) = good n q"
  by (cases "hp_state q") (simp_all add: good_def)

lemma reachable_parser_inv: "reachable_parser S q \<Longrightarrow> settings_ok S \<Longrightarrow> parser_inv q"
proof (induction rule: reachable_parser.induct)
  case (rp_init t)
  then show ?case by (cases t) (simp_all add: parser_inv_def http_parser_init_def good_def)
next
  case (rp_execute q data ob n q' ob')
  then show ?case using execute_safe [of S q data ob] by auto
next
  case (rp_pause q b q')
  then have "good 0 q" "q' = q\<lparr>hp_errno := hp_errno q'\<rparr>"
    by (auto simp: http_parser_pause_def parser_inv_def split: if_splits)
  then show ?case using good_errno [of 0 "hp_errno q'" q] by (simp add: parser_inv_def)
qed

text \<open>
  C40: whatever bytes arrive in whatever portions, \<^verbatim>\<open>http_parser_execute\<close> returns: none of its assertions fails, no
  string or table is read outside its bounds, and at most one mark is left at the end. The callbacks are the
  caller's; they are assumed to return.
\<close>

theorem http_parser_safe:
  assumes "reachable_parser S q" "settings_ok S"
  shows "\<exists>n q' ob'. http_parser_execute S data q ob = Inr (n, q', ob') \<and> reachable_parser S q'"
  using execute_safe [OF assms(2) reachable_parser_inv [OF assms], of data ob] rp_execute [OF assms(1)] by blast

text \<open>Callbacks that count their calls and refuse the fourth.\<close>

definition counting_settings :: "nat http_parser_settings" where
  "counting_settings =
     \<lparr>on_data = (\<lambda>k. Some (\<lambda>q at n ob. Inr (if ob < 3 then 0 else 1, ob + 1))), on_notify = (\<lambda>k. Some (\<lambda>q ob. Inr (0, ob + 1)))\<rparr>"

theorem http_parser_safe_witness:
  "\<forall>data. \<exists>n q' ob'. http_parser_execute counting_settings data (http_parser_init HTTP_BOTH) 0 = Inr (n, q', ob')
     \<and> reachable_parser counting_settings q'"
  using http_parser_safe [OF rp_init [of counting_settings HTTP_BOTH]] by (simp add: settings_ok_def counting_settings_def)

end
