(* ===== verification/HttpRequestRun.thy ===== *)
theory HttpRequestRun
  imports HttpRequests HttpParserSafe
begin

text \<open>
  The run of the HTTP parser over a whole request, for any callbacks that keep the contract
  \<open>request_callbacks\<close>: the request line, the header lines, the end of the headers and the body.
\<close>

section \<open>Names of headers\<close>

definition name_step :: "header_states \<times> nat \<Rightarrow> char \<Rightarrow> header_states \<times> nat" where
  "name_step a ch = projr (name_char ch (TOKEN ch) a)"

fun header_of :: "string \<Rightarrow> header_states \<times> nat" where
  "header_of [] = (h_general, 0)"
| "header_of (c # k) = foldl name_step (first_header_state (TOKEN c), 0) k"

definition is_name :: "string \<Rightarrow> bool" where
  "is_name k \<longleftrightarrow> k \<noteq> [] \<and> (\<forall>c\<in>set k. TOKEN c \<noteq> CHR 0x00)"

text \<open>What a header state says about the name read so far, in lower case.\<close>

definition matching :: "string \<Rightarrow> nat \<Rightarrow> string \<Rightarrow> bool" where
  "matching w i k \<longleftrightarrow> Suc i < length w \<and> k = take (Suc i) w"

definition name_rel :: "string \<Rightarrow> header_states \<times> nat \<Rightarrow> bool" where
  "name_rel k = (\<lambda>(hs, i). case hs of
       h_general \<Rightarrow> True
     | h_C \<Rightarrow> k = ''c'' \<and> i = 0
     | h_CO \<Rightarrow> k = ''co'' \<and> i = 1
     | h_CON \<Rightarrow> k = ''con'' \<and> i = 2
     | h_matching_connection \<Rightarrow> matching ''connection'' i k
     | h_matching_proxy_connection \<Rightarrow> matching ''proxy-connection'' i k
     | h_matching_content_length \<Rightarrow> matching ''content-length'' i k
     | h_matching_transfer_encoding \<Rightarrow> matching ''transfer-encoding'' i k
     | h_matching_upgrade \<Rightarrow> matching ''upgrade'' i k
     | h_connection \<Rightarrow> k \<in> {''connection'', ''proxy-connection''}
     | h_content_length \<Rightarrow> k = ''content-length''
     | h_transfer_encoding \<Rightarrow> k = ''transfer-encoding''
     | h_upgrade \<Rightarrow> k = ''upgrade''
     | _ \<Rightarrow> False)"

lemma blank_no_token: "TOKEN (CHR '' '') = CHR 0x00" "TOKEN (CHR 0x09) = CHR 0x00" "TOKEN CR = CHR 0x00" "TOKEN LF = CHR 0x00"
  "TOKEN (CHR '':'') = CHR 0x00"
  by code_simp+

lemma match_word_rel:
  assumes "matching w i k" "length w < 100" "c \<noteq> CHR 0x00"
  shows "match_word w hs found (inc8 i) c = h_general
    \<or> match_word w hs found (inc8 i) c = hs \<and> matching w (inc8 i) (k @ [c])
    \<or> match_word w hs found (inc8 i) c = found \<and> k @ [c] = w"
proof (cases "c = c_at w (Suc i)")
  case True
  then have i: "Suc i < length w" "w ! Suc i = c" using assms(3) by (auto simp: c_at_def split: if_splits)
  then have "k @ [c] = take (Suc (Suc i)) w" using assms(1) by (simp add: matching_def take_Suc_conv_app_nth)
  moreover have "inc8 i = Suc i" using i(1) assms(2) by (simp add: inc8_def)
  ultimately show ?thesis using i True by (auto simp: match_word_def matching_def)
next
  case False
  moreover have "inc8 i = Suc i" using assms(1,2) by (simp add: inc8_def matching_def)
  ultimately show ?thesis by (simp add: match_word_def)
qed

lemma name_char_rel:
  assumes "name_rel k (hs, i)" "TOKEN ch \<noteq> CHR 0x00"
  shows "\<exists>a. name_char ch (TOKEN ch) (hs, i) = Inr a \<and> name_rel (k @ [TOKEN ch]) a"
proof -
  have ch: "ch \<noteq> CHR '' ''" using assms(2) blank_no_token(1) by auto
  note mw = match_word_rel [OF _ _ assms(2)]
  show ?thesis
  proof (cases hs)
    case h_matching_connection
    then show ?thesis using assms mw [of "''connection''" i k hs h_connection]
      by (auto simp: name_char_def Let_def name_rel_def)
  next
    case h_matching_proxy_connection
    then show ?thesis using assms mw [of "''proxy-connection''" i k hs h_connection]
      by (auto simp: name_char_def Let_def name_rel_def)
  next
    case h_matching_content_length
    then show ?thesis using assms mw [of "''content-length''" i k hs h_content_length]
      by (auto simp: name_char_def Let_def name_rel_def)
  next
    case h_matching_transfer_encoding
    then show ?thesis using assms mw [of "''transfer-encoding''" i k hs h_transfer_encoding]
      by (auto simp: name_char_def Let_def name_rel_def)
  next
    case h_matching_upgrade
    then show ?thesis using assms mw [of "''upgrade''" i k hs h_upgrade]
      by (auto simp: name_char_def Let_def name_rel_def)
  qed (use assms ch in \<open>simp_all add: name_char_def Let_def name_rel_def matching_def inc8_def\<close>)
qed

lemma name_char_step:
  "name_rel k a \<Longrightarrow> TOKEN ch \<noteq> CHR 0x00 \<Longrightarrow>
     name_char ch (TOKEN ch) a = Inr (name_step a ch) \<and> name_rel (k @ [TOKEN ch]) (name_step a ch)"
  using name_char_rel [of k "fst a" "snd a" ch] by (auto simp: name_step_def)

lemma first_header_rel: "c \<noteq> CHR 0x00 \<Longrightarrow> name_rel [c] (first_header_state c, 0)"
  by (simp add: first_header_state_def name_rel_def matching_def)

lemma header_of_snoc: "k \<noteq> [] \<Longrightarrow> header_of (k @ [c]) = name_step (header_of k) c"
  by (cases k) simp_all

lemma header_of_rel: "is_name k \<Longrightarrow> name_rel (map TOKEN k) (header_of k)"
proof (induction k rule: rev_induct)
  case (snoc c k)
  show ?case
  proof (cases "k = []")
    case True
    then show ?thesis using snoc.prems first_header_rel by (simp add: is_name_def)
  next
    case False
    then have "name_rel (map TOKEN k) (header_of k)" "TOKEN c \<noteq> CHR 0x00" using snoc by (auto simp: is_name_def)
    then show ?thesis using name_char_step False by (simp add: header_of_snoc)
  qed
qed (simp add: is_name_def)

text \<open>The words are found when they are there.\<close>

definition found_by :: "string \<Rightarrow> header_states" where
  "found_by k =
     (if k = ''connection'' \<or> k = ''proxy-connection'' then h_connection
      else if k = ''content-length'' then h_content_length
      else if k = ''transfer-encoding'' then h_transfer_encoding
      else if k = ''upgrade'' then h_upgrade else h_general)"

lemma header_of_tokens:
  assumes "map TOKEN k = map TOKEN k'" "is_name k"
  shows "header_of k = header_of k'"
proof -
  have step: "name_step a c = name_step a c'" if "TOKEN c = TOKEN c'" "TOKEN c \<noteq> CHR 0x00" for a c c'
  proof -
    have "c \<noteq> CHR '' ''" "c' \<noteq> CHR '' ''" using that blank_no_token(1) by auto
    then show ?thesis using that by (cases a; cases "fst a") (simp_all add: name_step_def name_char_def Let_def)
  qed
  have fold: "foldl name_step a k = foldl name_step a k'"
    if "map TOKEN k = map TOKEN k'" "\<forall>c\<in>set k. TOKEN c \<noteq> CHR 0x00" for a k k'
    using that
  proof (induction k arbitrary: a k')
    case (Cons c k)
    then obtain c' k2 where "k' = c' # k2" by (cases k') auto
    with Cons show ?case using step [of c c' a] by simp
  qed simp
  obtain c v where k: "k = c # v" using assms(2) by (cases k) (auto simp: is_name_def)
  obtain c' v' where k': "k' = c' # v'" using assms(1) k by (cases k') auto
  show ?thesis using assms k k' fold [of v v' "(first_header_state (TOKEN c), 0)"] by (simp add: is_name_def)
qed

lemma header_of_words:
  "fst (header_of ''connection'') = h_connection" "fst (header_of ''proxy-connection'') = h_connection"
  "fst (header_of ''content-length'') = h_content_length" "fst (header_of ''transfer-encoding'') = h_transfer_encoding"
  "fst (header_of ''upgrade'') = h_upgrade"
  by (code_simp)+

lemma word_tokens:
  "map TOKEN ''connection'' = ''connection''" "map TOKEN ''proxy-connection'' = ''proxy-connection''"
  "map TOKEN ''content-length'' = ''content-length''" "map TOKEN ''transfer-encoding'' = ''transfer-encoding''"
  "map TOKEN ''upgrade'' = ''upgrade''"
  by (code_simp)+

text \<open>A header name is taken for one of the special names exactly when it is that name, in any case of letters.\<close>

lemma header_of_found:
  assumes "is_name k"
  shows "fst (header_of k) = found_by (map TOKEN k) \<or> found_by (map TOKEN k) = h_general
    \<and> fst (header_of k) \<notin> {h_connection, h_content_length, h_transfer_encoding, h_upgrade}"
proof (cases "map TOKEN k \<in> {''connection'', ''proxy-connection'', ''content-length'', ''transfer-encoding'', ''upgrade''}")
  case True
  then have "header_of k = header_of (map TOKEN k)" using word_tokens assms by (intro header_of_tokens) auto
  then show ?thesis using True header_of_words by (auto simp: found_by_def)
next
  case False
  then have "found_by (map TOKEN k) = h_general" by (simp add: found_by_def)
  moreover have "fst (header_of k) \<notin> {h_connection, h_content_length, h_transfer_encoding, h_upgrade}"
    using header_of_rel [OF assms] False by (auto simp: name_rel_def split: prod.splits)
  ultimately show ?thesis by simp
qed

section \<open>Segments\<close>

text \<open>A stretch of bytes over which every step goes on to the next byte.\<close>

lemma loop_segment:
  assumes "drop p data = w @ rest" "P 0 r"
    and step: "\<And>j r. j < length w \<Longrightarrow> P j r \<Longrightarrow> hp_nread (prs r) < HTTP_MAX_HEADER_SIZE
      \<and> (\<exists>r'. exec_byte S data (p + j) (count_byte r) = Inr (Go (p + j) r') \<and> P (Suc j) r')"
  shows "\<exists>r'. exec_loop S data p r = exec_loop S data (p + length w) r' \<and> P (length w) r'"
proof -
  have "\<exists>r'. exec_loop S data p r = exec_loop S data (p + j) r' \<and> P j r'" if "j \<le> length w" for j
    using that
  proof (induction j)
    case 0
    then show ?case using assms(2) by auto
  next
    case (Suc j)
    then obtain r1 where r1: "exec_loop S data p r = exec_loop S data (p + j) r1" "P j r1" by auto
    have "drop (p + j) data = w ! j # drop (Suc j) w @ rest"
      using assms(1) Suc.prems by (metis Cons_nth_drop_Suc Suc_le_lessD add.commute append_Cons drop_append drop_drop
          diff_is_0_eq' drop0 less_or_eq_imp_le)
    then show ?case using loop_byte r1 step [of j r1] Suc.prems by (metis Suc_le_lessD add_Suc_right)
  qed
  then show ?thesis by blast
qed

lemma segment_byte: "drop p data = w @ rest \<Longrightarrow> j < length w \<Longrightarrow> data ! (p + j) = w ! j"
  by (metis nth_append nth_drop drop_eq_Nil append_is_Nil_conv less_nat_zero_code list.size(3) nle_le)

lemma reading_nread: "reading s n m cl mk ob r \<Longrightarrow> hp_nread (prs r) = n"
  by (simp add: reading_def)

text \<open>A single byte.\<close>

lemma loop_one:
  assumes "drop p data = c # rest" "reading s n m cl mk ob r" "n < HTTP_MAX_HEADER_SIZE" "parsing_header s"
    "\<And>r. reading s (Suc n) m cl mk ob r \<Longrightarrow> \<exists>r'. exec_byte S data p r = Inr (Go p r') \<and> Q r'"
  shows "\<exists>r'. exec_loop S data p r = exec_loop S data (Suc p) r' \<and> Q r'"
  using loop_byte [OF assms(1)] assms(5) [OF reading_count [OF assms(4,2)]] reading_nread [OF assms(2)] assms(3) by metis

section \<open>The request line\<close>

abbreviation unmarked_run :: "data_cb \<Rightarrow> nat option" where
  "unmarked_run \<equiv> \<lambda>k. None"

definition marked :: "data_cb \<Rightarrow> nat \<Rightarrow> data_cb \<Rightarrow> nat option" where
  "marked k p = (\<lambda>k. None)(k := Some p)"

text \<open>The state after a URL, from the table of \<^verbatim>\<open>parse_url_char\<close>; the last byte must leave a state in which a URL may end.\<close>

definition url_ok :: "string \<Rightarrow> bool" where
  "url_ok u \<longleftrightarrow> u \<noteq> [] \<and> foldl parse_url_char s_req_spaces_before_url u
     \<in> {s_req_server, s_req_server_with_at, s_req_path, s_req_query_string_start, s_req_query_string, s_req_fragment_start,
        s_req_fragment}"

lemma url_dead: "foldl parse_url_char s_dead u = s_dead"
  by (induction u) (simp_all add: parse_url_char_def)

lemma url_alive:
  assumes "url_ok u" "j \<le> length u"
  shows "foldl parse_url_char s_req_spaces_before_url (take j u) \<noteq> s_dead"
proof
  assume "foldl parse_url_char s_req_spaces_before_url (take j u) = s_dead"
  then have "foldl parse_url_char s_req_spaces_before_url (take j u @ drop j u) = s_dead" unfolding foldl_append by (simp add: url_dead)
  then show False using assms(1) by (auto simp: url_ok_def)
qed

lemma url_char_plain: "parse_url_char s c \<noteq> s_dead \<Longrightarrow> c \<noteq> CHR '' '' \<and> c \<noteq> CR \<and> c \<noteq> LF"
  by (auto simp: parse_url_char_def)

lemma exec_url_byte:
  assumes "mark_of (hp_state (prs r)) = Some CB_url" "data ! p \<noteq> CHR '' ''" "data ! p \<noteq> CR" "data ! p \<noteq> LF"
  shows "exec_byte S data p r = url_step (data ! p) p r"
  using assms by (cases "hp_state (prs r)") (simp_all add: mark_of_def exec_byte_def Let_def step_req_url_start_def step_req_url_def)

lemma url_phase:
  assumes "drop p data = u @ rest" "url_ok u" "reading s_req_spaces_before_url n m cl unmarked_run ob r" "m \<noteq> HTTP_CONNECT"
    "n + length u \<le> HTTP_MAX_HEADER_SIZE"
  shows "\<exists>r'. exec_loop S data p r = exec_loop S data (p + length u) r'
    \<and> reading (foldl parse_url_char s_req_spaces_before_url u) (n + length u) m cl (marked CB_url p) ob r'"
proof -
  let ?s = "\<lambda>j. foldl parse_url_char s_req_spaces_before_url (take j u)"
  let ?P = "\<lambda>j r. reading (?s j) (n + j) m cl (if j = 0 then unmarked_run else marked CB_url p) ob r"
  have "\<exists>r'. exec_loop S data p r = exec_loop S data (p + length u) r' \<and> ?P (length u) r'"
  proof (rule loop_segment [OF assms(1)])
    show "?P 0 r" using assms(3) by simp
  next
    fix j r assume j: "j < length u" and P: "?P j r"
    have nx: "?s (Suc j) = parse_url_char (?s j) (u ! j)" using j by (simp add: take_Suc_conv_app_nth)
    have alive: "parse_url_char (?s j) (u ! j) \<noteq> s_dead" using url_alive [OF assms(2), of "Suc j"] j nx by simp
    note plain = url_char_plain [OF alive]
    have at: "data ! (p + j) = u ! j" by (rule segment_byte [OF assms(1) j])
    have st: "hp_state (prs r) = ?s j" using P by (simp add: reading_def)
    have ph: "parsing_header (?s j)"
    proof (cases j)
      case (Suc i)
      then have "?s j = parse_url_char (?s i) (u ! i)" using j by (simp add: take_Suc_conv_app_nth)
      then have "mark_of (?s j) = Some CB_url" using url_state(1) url_alive [OF assms(2), of j] j by simp
      then show ?thesis by (auto simp: parsing_header_def mark_of_def)
    qed (simp add: parsing_header_def)
    note cnt = reading_count [OF ph P]
    have "\<exists>r'. exec_byte S data (p + j) (count_byte r) = Inr (Go (p + j) r') \<and> ?P (Suc j) r'"
    proof (cases j)
      case 0
      then have "exec_byte S data (p + j) (count_byte r) = url_step (u ! 0) p (MARK CB_url p (count_byte r))"
        using cnt at plain assms(4) by (simp add: exec_byte_def reading_def step_req_spaces_before_url_def Let_def MARK_def)
      then show ?thesis using cnt alive nx 0
        by (auto simp: url_step_def Let_def reading_def MARK_def set_state_def upd_def marked_def)
    next
      case (Suc i)
      then have "?s j = parse_url_char (?s i) (u ! i)" using j by (simp add: take_Suc_conv_app_nth)
      then have "mark_of (?s j) = Some CB_url" using url_state(1) url_alive [OF assms(2), of j] j by simp
      then have "exec_byte S data (p + j) (count_byte r) = url_step (u ! j) (p + j) (count_byte r)"
        using exec_url_byte [of "count_byte r" data "p + j" S] st at plain by simp
      then show ?thesis using cnt alive nx Suc by (auto simp: url_step_def Let_def reading_def set_state_def upd_def)
    qed
    moreover have "hp_nread (prs r) < HTTP_MAX_HEADER_SIZE" using reading_nread [OF P] j assms(5) by simp
    ultimately show "hp_nread (prs r) < HTTP_MAX_HEADER_SIZE \<and> (\<exists>r'. exec_byte S data (p + j) (count_byte r) = Inr (Go (p + j) r') \<and> ?P (Suc j) r')"
      by blast
  qed
  moreover have "u \<noteq> []" using assms(2) by (simp add: url_ok_def)
  ultimately show ?thesis by simp
qed

definition version_states :: "pstate list" where
  "version_states = [s_req_http_start, s_req_http_H, s_req_http_HT, s_req_http_HTT, s_req_http_HTTP, s_req_first_http_major,
     s_req_http_major, s_req_first_http_minor, s_req_http_minor, s_req_line_almost_done, s_header_field_start]"

lemma version_phase:
  assumes "drop p data = (''HTTP/1.1'' @ CRLF) @ rest" "reading s_req_http_start n m cl mk ob r" "n + 10 \<le> HTTP_MAX_HEADER_SIZE"
  shows "\<exists>r'. exec_loop S data p r = exec_loop S data (p + 10) r' \<and> reading s_header_field_start (n + 10) m cl mk ob r'"
proof -
  let ?w = "''HTTP/1.1'' @ CRLF"
  let ?P = "\<lambda>j r. reading (version_states ! j) (n + j) m cl mk ob r"
  have "\<exists>r'. exec_loop S data p r = exec_loop S data (p + length ?w) r' \<and> ?P (length ?w) r'"
  proof (rule loop_segment [OF assms(1)])
    show "?P 0 r" using assms(2) by (simp add: version_states_def)
  next
    fix j r assume j: "j < length ?w" and P: "?P j r"
    have at: "data ! (p + j) = ?w ! j" by (rule segment_byte [OF assms(1) j])
    have jj: "j \<in> {0, 1, 2, 3, 4, 5, 6, 7, 8, 9}" using j by (auto simp: CRLF_def)
    have "parsing_header (version_states ! j)" using jj by (auto simp: version_states_def parsing_header_def)
    note cnt = reading_count [OF this P]
    have "\<exists>r'. exec_byte S data (p + j) (count_byte r) = Inr (Go (p + j) r') \<and> ?P (Suc j) r'"
      using jj cnt at
      by (auto simp: version_states_def exec_byte_def Let_def reading_def step_req_http_start_def step_expect_def strict_check_def
          step_first_major_def step_major_def step_first_minor_def step_req_http_minor_def step_req_line_almost_done_def
          is_digit_def digit_val_def CRLF_def CR_def LF_def set_state_def upd_def)
    then show "hp_nread (prs r) < HTTP_MAX_HEADER_SIZE \<and> (\<exists>r'. exec_byte S data (p + j) (count_byte r) = Inr (Go (p + j) r') \<and> ?P (Suc j) r')"
      using reading_nread [OF P] j assms(3) by (simp add: CRLF_def)
  qed
  moreover have "length ?w = 10" by (simp add: CRLF_def)
  ultimately show ?thesis by (simp only: version_states_def) simp
qed

end
