(* ===== verification/HttpMessages.thy ===== *)
theory HttpMessages
  imports HttpRequestRun
begin

text \<open>
  The contract between the HTTP parser and its callbacks, and what the parser does with a whole request under
  this contract: it reports the URL and the body and completes the message.
\<close>

section \<open>Calls\<close>

definition call_data :: "'o http_parser_settings \<Rightarrow> data_cb \<Rightarrow> http_parser \<Rightarrow> string \<Rightarrow> nat \<Rightarrow> 'o \<Rightarrow> (int \<times> 'o) res" where
  "call_data S k q at n ob = (case on_data S k of None \<Rightarrow> Inr (0, ob) | Some f \<Rightarrow> f q at n ob)"

definition call_notify :: "'o http_parser_settings \<Rightarrow> notify_cb \<Rightarrow> http_parser \<Rightarrow> 'o \<Rightarrow> (int \<times> 'o) res" where
  "call_notify S k q ob = (case on_notify S k of None \<Rightarrow> Inr (0, ob) | Some f \<Rightarrow> f q ob)"

lemma callback_data_call:
  assumes "hp_errno (prs r) = HPE_OK" "marks r k = Some p"
    "call_data S k (prs r) (drop p data) (en - p) (robject r) = Inr (0, ob')"
  shows "callback_data S data k en er r cont = cont (r\<lparr>marks := (marks r)(k := None), robject := ob'\<rparr>)"
proof (cases "on_data S k")
  case None
  then have "r\<lparr>robject := ob'\<rparr> = r" using assms(3) by (simp add: call_data_def)
  then have "r\<lparr>marks := (marks r)(k := None), robject := ob'\<rparr> = r\<lparr>marks := (marks r)(k := None)\<rparr>"
    by (metis run.update_convs(2,3) run.surjective)
  then show ?thesis using assms None by (simp add: callback_data_def)
next
  case (Some f)
  then show ?thesis using assms by (simp add: callback_data_def call_data_def Let_def)
qed

lemma callback_notify_call:
  assumes "hp_errno (prs r) = HPE_OK" "call_notify S k (prs r) (robject r) = Inr (0, ob')"
  shows "callback_notify S k er r cont = cont (r\<lparr>robject := ob'\<rparr>)"
proof (cases "on_notify S k")
  case None
  then have "r\<lparr>robject := ob'\<rparr> = r" using assms(2) by (simp add: call_notify_def)
  then show ?thesis using assms None by (simp add: callback_notify_def)
next
  case (Some f)
  then show ?thesis using assms by (simp add: callback_notify_def call_notify_def)
qed

lemma drop_behind: "drop p data = w @ rest \<Longrightarrow> drop (p + length w) data = rest"
  by (metis add.commute append_eq_conv_conj drop_drop)

section \<open>Header lines\<close>

text \<open>A header whose bytes are those of a header line; names of their own meaning only as far as a plain body allows.\<close>

definition header_value_ok :: "string \<Rightarrow> bool" where
  "header_value_ok v \<longleftrightarrow> v \<noteq> [] \<and> hd v \<noteq> CHR '' '' \<and> hd v \<noteq> CHR 0x09 \<and> CR \<notin> set v \<and> LF \<notin> set v"

definition header_line_ok :: "string \<times> string \<Rightarrow> bool" where
  "header_line_ok = (\<lambda>(k, v). is_name k \<and> header_value_ok v \<and> map TOKEN k \<noteq> ''transfer-encoding'' \<and> map TOKEN k \<noteq> ''upgrade''
     \<and> (map TOKEN k = ''content-length'' \<longrightarrow> (\<exists>n < 2 ^ 64 - 1. v = dec n)))"

definition head_line :: "string \<times> string \<Rightarrow> string" where
  "head_line = (\<lambda>(k, v). k @ '': '' @ v @ CRLF)"

text \<open>The content length after a header.\<close>

definition length_after :: "u64 \<Rightarrow> string \<times> string \<Rightarrow> u64" where
  "length_after cl = (\<lambda>(k, v). if map TOKEN k = ''content-length'' then word_of_nat (dec_val v) else cl)"

definition line_start :: "pstate \<Rightarrow> bool" where
  "line_start s \<longleftrightarrow> s = s_header_field_start \<or> s = s_header_value_lws"

lemma name_phase:
  assumes "drop p data = k @ rest" "is_name k" "line_start s" "reading s n m cl unmarked_run ob r"
    "n + length k \<le> HTTP_MAX_HEADER_SIZE"
  shows "\<exists>r'. exec_loop S data p r = exec_loop S data (p + length k) r'
    \<and> reading s_header_field (n + length k) m cl (marked CB_header_field p) ob r'
    \<and> (hp_header_state (prs r'), hp_index (prs r')) = header_of k"
proof -
  let ?P = "\<lambda>j r. if j = 0 then reading s n m cl unmarked_run ob r
      else reading s_header_field (n + j) m cl (marked CB_header_field p) ob r
        \<and> (hp_header_state (prs r), hp_index (prs r)) = header_of (take j k)"
  have "\<exists>r'. exec_loop S data p r = exec_loop S data (p + length k) r' \<and> ?P (length k) r'"
  proof (rule loop_segment [OF assms(1)])
    show "?P 0 r" using assms(4) by simp
  next
    fix j r assume j: "j < length k" and P: "?P j r"
    have at: "data ! (p + j) = k ! j" by (rule segment_byte [OF assms(1) j])
    have tok: "TOKEN (k ! j) \<noteq> CHR 0x00" using assms(2) j by (simp add: is_name_def)
    have ch: "k ! j \<noteq> CHR '' ''" "k ! j \<noteq> CHR 0x09" "k ! j \<noteq> CR" "k ! j \<noteq> LF" using tok blank_no_token by metis+
    have "\<exists>r'. exec_byte S data (p + j) (count_byte r) = Inr (Go (p + j) r') \<and> ?P (Suc j) r'"
    proof (cases j)
      case 0
      have "parsing_header s" using assms(3) by (auto simp: line_start_def parsing_header_def)
      from reading_count [OF this, of n m cl unmarked_run ob r] P 0
      have cnt: "reading s (Suc n) m cl unmarked_run ob (count_byte r)" by simp
      have "take 1 k = [k ! 0]" using assms(2) by (cases k) (simp_all add: is_name_def)
      then show ?thesis using cnt assms(3) at ch tok 0
        by (auto simp: line_start_def exec_byte_def Let_def reading_def step_header_value_lws_def step_header_field_start_def
            set_state_def upd_def MARK_def marked_def)
    next
      case (Suc i)
      then have P': "reading s_header_field (n + j) m cl (marked CB_header_field p) ob r"
          and hs: "(hp_header_state (prs r), hp_index (prs r)) = header_of (take j k)" using P by simp_all
      have cnt: "reading s_header_field (Suc (n + j)) m cl (marked CB_header_field p) ob (count_byte r)"
        by (rule reading_count [OF _ P']) (simp add: parsing_header_def)
      have "is_name (take j k)" using assms(2) Suc j by (auto simp: is_name_def dest: in_set_takeD)
      then have "name_char (k ! j) (TOKEN (k ! j)) (header_of (take j k)) = Inr (header_of (take (Suc j) k))"
        using name_char_step [OF header_of_rel tok] header_of_snoc [of "take j k" "k ! j"] j
        by (simp add: take_Suc_conv_app_nth is_name_def)
      then show ?thesis using cnt at tok hs Suc
        by (auto simp: exec_byte_def Let_def reading_def step_header_field_def set_header_def upd_def split: prod.splits)
    qed
    moreover have "hp_nread (prs r) = n + j" using P by (cases "j = 0") (auto dest: reading_nread)
    ultimately show "hp_nread (prs r) < HTTP_MAX_HEADER_SIZE
        \<and> (\<exists>r'. exec_byte S data (p + j) (count_byte r) = Inr (Go (p + j) r') \<and> ?P (Suc j) r')"
      using j assms(5) by simp
  qed
  then show ?thesis using assms(2) by (auto simp: is_name_def)
qed

text \<open>Values: the content length is summed up, \<^verbatim>\<open>Connection\<close> is matched against its two words, all else is skipped.\<close>

definition value_rel :: "bool \<Rightarrow> header_states \<Rightarrow> bool" where
  "value_rel is_length hs \<longleftrightarrow> (if is_length then hs = h_content_length
     else hs \<in> {h_general, h_matching_connection_keep_alive, h_matching_connection_close, h_connection_keep_alive,
       h_connection_close})"

lemma dec_val_take: "dec_val (take j v) \<le> dec_val v"
proof -
  have mono: "a \<le> foldl (\<lambda>n c. 10 * n + digit_val c) a w" for a w
  proof (induction w arbitrary: a)
    case (Cons c w)
    from Cons [of "10 * a + digit_val c"] show ?case by simp
  qed simp
  show ?thesis unfolding dec_val_def using mono [of _ "drop j v"] by (metis append_take_drop_id foldl_append)
qed

lemma length_digit:
  assumes "10 * a + d < 2 ^ 64 - 1"
  shows "(word_of_nat a * 10 + word_of_nat d :: u64) = word_of_nat (10 * a + d)"
    "\<not> (word_of_nat (10 * a + d) :: u64) < word_of_nat a" "(word_of_nat (10 * a + d) :: u64) \<noteq> - 1"
proof -
  show "(word_of_nat a * 10 + word_of_nat d :: u64) = word_of_nat (10 * a + d)" by (simp add: mult.commute)
  have un: "unat (word_of_nat (10 * a + d) :: u64) = 10 * a + d" "unat (word_of_nat a :: u64) = a"
    by (rule unat_word_of_nat, use assms in simp)+
  then show "\<not> (word_of_nat (10 * a + d) :: u64) < word_of_nat a" by (simp add: word_less_nat_alt)
  show "(word_of_nat (10 * a + d) :: u64) \<noteq> - 1" using un(1) unat_max assms by auto
qed

text \<open>One byte of a value behind the first.\<close>

lemma value_char_other:
  assumes "value_rel False (hp_header_state q)" "hp_state q = s_header_value"
  shows "\<exists>i hs. value_char ch q = Inr (Some (q\<lparr>hp_index := i, hp_header_state := hs\<rparr>)) \<and> value_rel False hs"
proof -
  have same: "q\<lparr>hp_index := hp_index q, hp_header_state := hs\<rparr> = q\<lparr>hp_header_state := hs\<rparr>"
    "q\<lparr>hp_index := i, hp_header_state := hp_header_state q\<rparr> = q\<lparr>hp_index := i\<rparr>"
    "q\<lparr>hp_index := hp_index q, hp_header_state := hp_header_state q\<rparr> = q" for hs i by simp_all
  have mw: "match_word w hs found i c \<in> {h_general, hs, found}" for w hs found i c by (simp add: match_word_def)
  consider "hp_header_state q = h_general" | "hp_header_state q = h_matching_connection_keep_alive"
    | "hp_header_state q = h_matching_connection_close" | "hp_header_state q = h_connection_keep_alive"
    | "hp_header_state q = h_connection_close" using assms(1) by (auto simp: value_rel_def)
  then show ?thesis
  proof cases
    case 1
    then show ?thesis using same(3) assms(1) by (intro exI [of _ "hp_index q"] exI [of _ "hp_header_state q"]) (simp add: value_char_def Let_def)
  next
    case 2
    then show ?thesis using mw [of "''keep-alive''" "hp_header_state q" h_connection_keep_alive]
      by (intro exI [of _ "inc8 (hp_index q)"] exI) (auto simp: value_char_def Let_def value_rel_def)
  next
    case 3
    then show ?thesis using mw [of "''close''" "hp_header_state q" h_connection_close]
      by (intro exI [of _ "inc8 (hp_index q)"] exI) (auto simp: value_char_def Let_def value_rel_def)
  next
    case 4
    then show ?thesis
      by (intro exI [of _ "hp_index q"] exI [of _ "if ch \<noteq> CHR '' '' then h_general else hp_header_state q"])
        (simp add: value_char_def Let_def value_rel_def)
  next
    case 5
    then show ?thesis
      by (intro exI [of _ "hp_index q"] exI [of _ "if ch \<noteq> CHR '' '' then h_general else hp_header_state q"])
        (simp add: value_char_def Let_def value_rel_def)
  qed
qed

lemma digit_plain: "is_digit c \<Longrightarrow> c \<noteq> CHR '' '' \<and> c \<noteq> CHR 0x09 \<and> c \<noteq> CR \<and> c \<noteq> LF"
  by (auto simp: is_digit_def CR_def LF_def)

lemma value_char_length:
  assumes "hp_header_state q = h_content_length" "hp_content_length q = word_of_nat a" "is_digit ch"
    "10 * a + digit_val ch < 2 ^ 64 - 1"
  shows "value_char ch q = Inr (Some (q\<lparr>hp_content_length := word_of_nat (10 * a + digit_val ch)\<rparr>))"
  using assms(1,2,3) digit_plain [OF assms(3)] length_digit [OF assms(4)]
  by (simp add: value_char_def Let_def mult.commute)

text \<open>The first byte.\<close>

lemma value_first_run:
  assumes "is_name k" "header_line_ok (k, v)" "hp_header_state q = fst (header_of k)"
  shows "\<exists>hs. value_first (hd v) q = Some (q\<lparr>hp_header_state := hs, hp_content_length :=
        (if map TOKEN k = ''content-length'' then word_of_nat (dec_val (take 1 v)) else hp_content_length q)\<rparr>)
    \<and> value_rel (map TOKEN k = ''content-length'') hs"
proof (cases "map TOKEN k = ''content-length''")
  case True
  then have hs: "hp_header_state q = h_content_length" using header_of_found [OF assms(1)] assms(3) by (simp add: found_by_def)
  obtain n where "v = dec n" using assms(2) True by (auto simp: header_line_ok_def)
  then have "list_all is_digit v" "v \<noteq> []" using dec_digits [of n] dec_nonempty [of n] by simp_all
  then have "is_digit (hd v)" "take 1 v = [hd v]" by (cases v; simp)+
  then have "value_first (hd v) q = Some (q\<lparr>hp_content_length := word_of_nat (dec_val (take 1 v))\<rparr>)"
    using hs by (simp add: value_first_def dec_val_def)
  moreover have "q\<lparr>hp_header_state := h_content_length\<rparr> = q" using hs by (cases q) simp
  ultimately show ?thesis unfolding if_P [OF True] by (intro exI [of _ h_content_length]) (simp add: value_rel_def True)
next
  case False
  have "fst (header_of k) \<notin> {h_content_length, h_transfer_encoding, h_upgrade}"
    using header_of_found [OF assms(1)] False assms(2) by (auto simp: found_by_def header_line_ok_def split: if_splits)
  then have "\<exists>hs. value_first (hd v) q = Some (q\<lparr>hp_header_state := hs\<rparr>) \<and> value_rel False hs"
    unfolding assms(3) [symmetric]
    by (intro exI [of _ "if hp_header_state q = h_connection then if LOWER (hd v) = CHR ''k'' then h_matching_connection_keep_alive
          else if LOWER (hd v) = CHR ''c'' then h_matching_connection_close else h_general else h_general"];
        cases "hp_header_state q"; simp add: value_first_def value_rel_def)
  moreover have "q\<lparr>hp_header_state := hs, hp_content_length := hp_content_length q\<rparr> = q\<lparr>hp_header_state := hs\<rparr>" for hs by simp
  ultimately show ?thesis unfolding if_not_P [OF False] using False by simp
qed

lemma value_phase:
  assumes "drop p data = v @ rest" "header_line_ok (k, v)" "reading s_header_value_start n m cl unmarked_run ob r"
    "hp_header_state (prs r) = fst (header_of k)" "n + length v \<le> HTTP_MAX_HEADER_SIZE"
  shows "\<exists>r'. exec_loop S data p r = exec_loop S data (p + length v) r'
    \<and> reading s_header_value (n + length v) m (length_after cl (k, v)) (marked CB_header_value p) ob r'
    \<and> value_rel (map TOKEN k = ''content-length'') (hp_header_state (prs r'))"
proof -
  let ?L = "map TOKEN k = ''content-length''"
  let ?P = "\<lambda>j r. if j = 0 then reading s_header_value_start n m cl unmarked_run ob r \<and> hp_header_state (prs r) = fst (header_of k)
      else reading s_header_value (n + j) m (length_after cl (k, take j v)) (marked CB_header_value p) ob r
        \<and> value_rel ?L (hp_header_state (prs r))"
  have ok: "is_name k" "header_value_ok v" using assms(2) by (simp_all add: header_line_ok_def)
  have "\<exists>r'. exec_loop S data p r = exec_loop S data (p + length v) r' \<and> ?P (length v) r'"
  proof (rule loop_segment [OF assms(1)])
    show "?P 0 r" using assms(3,4) by simp
  next
    fix j r assume j: "j < length v" and P: "?P j r"
    have at: "data ! (p + j) = v ! j" by (rule segment_byte [OF assms(1) j])
    have ch: "v ! j \<noteq> CR" "v ! j \<noteq> LF" using ok(2) j unfolding header_value_ok_def by (metis nth_mem)+
    have "\<exists>r'. exec_byte S data (p + j) (count_byte r) = Inr (Go (p + j) r') \<and> ?P (Suc j) r'"
    proof (cases j)
      case 0
      then have P': "reading s_header_value_start n m cl unmarked_run ob r" "hp_header_state (prs r) = fst (header_of k)" using P by simp_all
      have cnt: "reading s_header_value_start (Suc n) m cl unmarked_run ob (count_byte r)"
        by (rule reading_count [OF _ P'(1)]) (simp add: parsing_header_def)
      let ?r = "upd (\<lambda>q. q\<lparr>hp_state := s_header_value, hp_index := 0\<rparr>) (MARK CB_header_value p (count_byte r))"
      have hd: "v ! 0 = hd v" "hd v \<noteq> CHR '' ''" "hd v \<noteq> CHR 0x09" using ok(2) unfolding header_value_ok_def by (auto simp: hd_conv_nth)
      have "hp_header_state (prs ?r) = fst (header_of k)" using P'(2) by (simp add: upd_def MARK_def)
      from value_first_run [OF ok(1) assms(2) this] obtain hs where hs:
        "value_first (hd v) (prs ?r) = Some ((prs ?r)\<lparr>hp_header_state := hs, hp_content_length :=
           (if ?L then word_of_nat (dec_val (take 1 v)) else hp_content_length (prs ?r))\<rparr>)" "value_rel ?L hs" by auto
      have "exec_byte S data (p + j) (count_byte r) = Inr (Go (p + j) (?r\<lparr>prs := (prs ?r)\<lparr>hp_header_state := hs, hp_content_length :=
           (if ?L then word_of_nat (dec_val (take 1 v)) else hp_content_length (prs ?r))\<rparr>\<rparr>))"
        using cnt at ch hd hs(1) 0 by (simp add: exec_byte_def reading_def step_header_value_start_def Let_def)
      then show ?thesis using cnt hs(2) 0 by (auto simp: reading_def upd_def MARK_def marked_def length_after_def)
    next
      case (Suc i)
      then have P': "reading s_header_value (n + j) m (length_after cl (k, take j v)) (marked CB_header_value p) ob r"
        "value_rel ?L (hp_header_state (prs r))" using P by simp_all
      have cnt: "reading s_header_value (Suc (n + j)) m (length_after cl (k, take j v)) (marked CB_header_value p) ob (count_byte r)"
        by (rule reading_count [OF _ P'(1)]) (simp add: parsing_header_def)
      have ex: "exec_byte S data (p + j) (count_byte r) = Inr (Go (p + j) ((count_byte r)\<lparr>prs := q\<rparr>))"
        if "value_char (v ! j) (prs (count_byte r)) = Inr (Some q)" for q
        using cnt at ch that by (simp add: exec_byte_def reading_def step_header_value_def)
      show ?thesis
      proof (cases ?L)
        case True
        obtain N where N: "v = dec N" "N < 2 ^ 64 - 1" using assms(2) True by (auto simp: header_line_ok_def)
        have dig: "is_digit (v ! j)" using dec_digits [of N] N(1) j by (simp add: list_all_length)
        have snoc: "dec_val (take (Suc j) v) = 10 * dec_val (take j v) + digit_val (v ! j)"
          using j by (simp add: take_Suc_conv_app_nth dec_val_snoc)
        have "dec_val (take (Suc j) v) \<le> N" using dec_val_take [of "Suc j" v] N(1) by simp
        then have "10 * dec_val (take j v) + digit_val (v ! j) < 2 ^ 64 - 1" using N(2) snoc by linarith
        from value_char_length [OF _ _ dig this, of "prs (count_byte r)"] P'(2) cnt True
        have "value_char (v ! j) (prs (count_byte r)) = Inr (Some ((prs (count_byte r))\<lparr>hp_content_length := word_of_nat (dec_val (take (Suc j) v))\<rparr>))"
          unfolding snoc by (simp add: value_rel_def reading_def length_after_def del: of_nat_add of_nat_mult)
        from ex [OF this] show ?thesis using cnt P'(2) True Suc by (auto simp: reading_def length_after_def)
      next
        case False
        have "hp_state (prs (count_byte r)) = s_header_value" "value_rel False (hp_header_state (prs (count_byte r)))"
          using cnt P'(2) False by (simp_all add: reading_def)
        from value_char_other [OF this(2,1), of "v ! j"] obtain i' hs where
          v: "value_char (v ! j) (prs (count_byte r)) = Inr (Some ((prs (count_byte r))\<lparr>hp_index := i', hp_header_state := hs\<rparr>))"
          "value_rel False hs" by auto
        from ex [OF v(1)] show ?thesis using cnt v(2) False Suc by (auto simp: reading_def length_after_def)
      qed
    qed
    moreover have "hp_nread (prs r) = n + j" using P by (cases "j = 0") (auto dest: reading_nread)
    ultimately show "hp_nread (prs r) < HTTP_MAX_HEADER_SIZE
        \<and> (\<exists>r'. exec_byte S data (p + j) (count_byte r) = Inr (Go (p + j) r') \<and> ?P (Suc j) r')"
      using j assms(5) by simp
  qed
  then show ?thesis using ok(2) by (auto simp: header_value_ok_def)
qed

lemma almost_done_byte:
  assumes "drop p data = LF # rest" "reading s_header_almost_done n m cl mk ob r" "value_rel b (hp_header_state (prs r))"
    "n < HTTP_MAX_HEADER_SIZE"
  shows "\<exists>r'. exec_loop S data p r = exec_loop S data (Suc p) r' \<and> reading s_header_value_lws (Suc n) m cl mk ob r'"
proof -
  have cnt: "reading s_header_almost_done (Suc n) m cl mk ob (count_byte r)"
    by (rule reading_count [OF _ assms(2)]) (simp add: parsing_header_def)
  have "\<exists>r'. exec_byte S data p (count_byte r) = Inr (Go p r') \<and> reading s_header_value_lws (Suc n) m cl mk ob r'"
    using cnt drop_cons [OF assms(1)] assms(3)
    by (auto simp: exec_byte_def reading_def step_header_almost_done_def strict_check_def value_rel_def set_state_def upd_def split: if_splits)
  then show ?thesis using loop_byte [OF assms(1)] reading_nread [OF assms(2)] assms(4) by metis
qed

section \<open>Requests\<close>

definition request_head :: "http_method \<Rightarrow> string \<Rightarrow> (string \<times> string) list \<Rightarrow> string" where
  "request_head m u hs = method_string m @ '' '' @ u @ '' '' @ (''HTTP/1.1'' @ CRLF) @ concat (map head_line hs) @ CRLF"

definition request_ok :: "http_method \<Rightarrow> string \<Rightarrow> (string \<times> string) list \<Rightarrow> bool" where
  "request_ok m u hs \<longleftrightarrow> m \<noteq> HTTP_MSEARCH \<and> m \<noteq> HTTP_CONNECT \<and> url_ok u \<and> list_all header_line_ok hs
     \<and> length (request_head m u hs) \<le> HTTP_MAX_HEADER_SIZE"

text \<open>How long the body is, from the last \<^verbatim>\<open>Content-Length\<close>; without one there is none.\<close>

definition body_length :: "(string \<times> string) list \<Rightarrow> nat" where
  "body_length hs = (let cl = foldl length_after (- 1) hs in if cl = - 1 then 0 else unat cl)"

section \<open>The contract of the callbacks\<close>

text \<open>
  \<open>obs\<close> is what the callbacks have collected: the URL, the body and whether the message is complete. \<open>idle\<close> holds of the
  object between header lines, \<open>pend k\<close> while the value of the header \<open>k\<close> is awaited, and \<open>value_ok\<close> says which values
  the object can take.
\<close>

locale request_callbacks =
  fixes S :: "'o http_parser_settings"
    and idle :: "'o \<Rightarrow> bool"
    and pend :: "string \<Rightarrow> 'o \<Rightarrow> bool"
    and value_ok :: "string \<Rightarrow> string \<Rightarrow> bool"
    and obs :: "'o \<Rightarrow> string \<times> string \<times> bool"
  assumes no_begin: "on_notify S CB_message_begin = None"
    and url_call: "idle ob \<Longrightarrow> obs ob = (u, b, e) \<Longrightarrow>
      \<exists>ob'. call_data S CB_url q at n ob = Inr (0, ob') \<and> idle ob' \<and> obs ob' = (u @ take n at, b, e)"
    and field_call: "idle ob \<Longrightarrow> CHR '':'' \<notin> set k \<Longrightarrow>
      \<exists>ob'. call_data S CB_header_field q (k @ CHR '':'' # t) (length k) ob = Inr (0, ob') \<and> pend k ob' \<and> obs ob' = obs ob"
    and value_call: "pend k ob \<Longrightarrow> value_ok k v \<Longrightarrow>
      \<exists>ob'. call_data S CB_header_value q (v @ t) (length v) ob = Inr (0, ob') \<and> idle ob' \<and> obs ob' = obs ob"
    and headers_call: "idle ob \<Longrightarrow>
      \<exists>ob'. call_notify S CB_headers_complete q ob = Inr (0, ob') \<and> idle ob' \<and> obs ob' = obs ob"
    and body_call: "idle ob \<Longrightarrow> obs ob = (u, b, e) \<Longrightarrow>
      \<exists>ob'. call_data S CB_body q at n ob = Inr (0, ob') \<and> idle ob' \<and> obs ob' = (u, b @ take n at, e)"
    and complete_call: "idle ob \<Longrightarrow> obs ob = (u, b, e) \<Longrightarrow>
      \<exists>ob'. call_notify S CB_message_complete q ob = Inr (0, ob') \<and> idle ob' \<and> obs ob' = (u, b, True)"
begin

lemma colon_byte:
  assumes "drop p data = CHR '':'' # rest" "drop p0 data = k @ CHR '':'' # rest" "p = p0 + length k" "CHR '':'' \<notin> set k" "idle ob"
    "reading s_header_field n m cl (marked CB_header_field p0) ob r" "n < HTTP_MAX_HEADER_SIZE"
  shows "\<exists>r' ob'. exec_loop S data p r = exec_loop S data (Suc p) r' \<and> reading s_header_value_start (Suc n) m cl unmarked_run ob' r'
    \<and> pend k ob' \<and> obs ob' = obs ob \<and> hp_header_state (prs r') = hp_header_state (prs r)"
proof -
  let ?r = "set_state s_header_value_start (count_byte r)"
  have cnt: "reading s_header_field (Suc n) m cl (marked CB_header_field p0) ob (count_byte r)"
    by (rule reading_count [OF _ assms(6)]) (simp add: parsing_header_def)
  obtain ob' where ob': "call_data S CB_header_field (prs ?r) (k @ CHR '':'' # rest) (length k) ob = Inr (0, ob')" "pend k ob'" "obs ob' = obs ob"
    using field_call [OF assms(5,4)] by blast
  have "callback_data S data CB_header_field p (Suc p) ?r (\<lambda>r. Inr (Go p r))
      = Inr (Go p (?r\<lparr>marks := (marks ?r)(CB_header_field := None), robject := ob'\<rparr>))"
    by (rule callback_data_call [where p = p0])
      (use cnt ob'(1) assms(2,3) in \<open>simp_all add: reading_def set_state_def upd_def marked_def\<close>)
  then have "exec_byte S data p (count_byte r) = Inr (Go p (?r\<lparr>marks := (marks ?r)(CB_header_field := None), robject := ob'\<rparr>))"
    using cnt drop_cons [OF assms(1)] blank_no_token(5) by (simp add: exec_byte_def reading_def step_header_field_def)
  from loop_byte [OF assms(1) _ this] have "exec_loop S data p r
      = exec_loop S data (Suc p) (?r\<lparr>marks := (marks ?r)(CB_header_field := None), robject := ob'\<rparr>)"
    using reading_nread [OF assms(6)] assms(7) by simp
  then show ?thesis using cnt ob'(2,3)
    by (intro exI [of _ "?r\<lparr>marks := (marks ?r)(CB_header_field := None), robject := ob'\<rparr>"] exI [of _ ob'])
      (auto simp: reading_def set_state_def upd_def marked_def)
qed

lemma blank_byte:
  assumes "drop p data = CHR '' '' # rest" "reading s_header_value_start n m cl mk ob r" "n < HTTP_MAX_HEADER_SIZE"
  shows "\<exists>r'. exec_loop S data p r = exec_loop S data (Suc p) r' \<and> reading s_header_value_start (Suc n) m cl mk ob r'
    \<and> hp_header_state (prs r') = hp_header_state (prs r)"
proof -
  have cnt: "reading s_header_value_start (Suc n) m cl mk ob (count_byte r)"
    by (rule reading_count [OF _ assms(2)]) (simp add: parsing_header_def)
  have "exec_byte S data p (count_byte r) = Inr (Go p (count_byte r))"
    using cnt drop_cons [OF assms(1)] by (simp add: exec_byte_def reading_def step_header_value_start_def)
  then show ?thesis using loop_byte [OF assms(1)] reading_nread [OF assms(2)] assms(3) cnt by (metis count_frame(2))
qed

lemma value_end:
  assumes "drop p data = CR # LF # rest" "drop p0 data = v @ CR # LF # rest" "p = p0 + length v" "pend k ob" "value_ok k v"
    "reading s_header_value n m cl (marked CB_header_value p0) ob r" "value_rel b (hp_header_state (prs r))" "n + 2 \<le> HTTP_MAX_HEADER_SIZE"
  shows "\<exists>r' ob'. exec_loop S data p r = exec_loop S data (p + 2) r' \<and> reading s_header_value_lws (n + 2) m cl unmarked_run ob' r'
    \<and> idle ob' \<and> obs ob' = obs ob"
proof -
  let ?r = "set_state s_header_almost_done (count_byte r)"
  have cnt: "reading s_header_value (Suc n) m cl (marked CB_header_value p0) ob (count_byte r)"
    by (rule reading_count [OF _ assms(6)]) (simp add: parsing_header_def)
  obtain ob' where ob': "call_data S CB_header_value (prs ?r) (v @ CR # LF # rest) (length v) ob = Inr (0, ob')" "idle ob'" "obs ob' = obs ob"
    using value_call [OF assms(4,5)] by blast
  let ?r1 = "?r\<lparr>marks := (marks ?r)(CB_header_value := None), robject := ob'\<rparr>"
  have "callback_data S data CB_header_value p (Suc p) ?r (\<lambda>r. Inr (Go p r)) = Inr (Go p ?r1)"
    by (rule callback_data_call [where p = p0])
      (use cnt ob'(1) assms(2,3) in \<open>simp_all add: reading_def set_state_def upd_def marked_def\<close>)
  then have "exec_byte S data p (count_byte r) = Inr (Go p ?r1)"
    using cnt drop_cons [OF assms(1)] by (simp add: exec_byte_def reading_def step_header_value_def)
  from loop_byte [OF assms(1) _ this] have l1: "exec_loop S data p r = exec_loop S data (Suc p) ?r1"
    using reading_nread [OF assms(6)] assms(8) by simp
  have r1: "reading s_header_almost_done (Suc n) m cl unmarked_run ob' ?r1" "value_rel b (hp_header_state (prs ?r1))"
    using cnt assms(7) by (auto simp: reading_def set_state_def upd_def marked_def)
  have d: "drop (Suc p) data = LF # rest" using drop_cons [OF assms(1)] by simp
  from almost_done_byte [OF d r1, of S] obtain r2 where "exec_loop S data (Suc p) ?r1 = exec_loop S data (Suc (Suc p)) r2"
    "reading s_header_value_lws (Suc (Suc n)) m cl unmarked_run ob' r2" using assms(8) by auto
  then show ?thesis using l1 ob'(2,3) by auto
qed

lemma header_line_run:
  assumes "drop p data = head_line (k, v) @ rest" "header_line_ok (k, v)" "value_ok k v" "line_start s"
    "reading s n m cl unmarked_run ob r" "idle ob" "n + length (head_line (k, v)) \<le> HTTP_MAX_HEADER_SIZE"
  shows "\<exists>r' ob'. exec_loop S data p r = exec_loop S data (p + length (head_line (k, v))) r'
    \<and> reading s_header_value_lws (n + length (head_line (k, v))) m (length_after cl (k, v)) unmarked_run ob' r'
    \<and> idle ob' \<and> obs ob' = obs ob"
proof -
  have ok: "is_name k" using assms(2) by (simp add: header_line_ok_def)
  then have nc: "CHR '':'' \<notin> set k" using blank_no_token(5) by (auto simp: is_name_def)
  have crlf: "CRLF = [CR, LF]" by (simp add: CRLF_def CR_def LF_def)
  have len: "length (head_line (k, v)) = length k + length v + 4" by (simp add: head_line_def CRLF_def)
  have d0: "drop p data = k @ CHR '':'' # CHR '' '' # v @ CR # LF # rest" using assms(1) by (simp add: head_line_def crlf)
  have d1: "drop (p + length k) data = CHR '':'' # CHR '' '' # v @ CR # LF # rest" by (rule drop_behind [OF d0])
  have d2: "drop (Suc (p + length k)) data = CHR '' '' # v @ CR # LF # rest" using drop_cons [OF d1] by simp
  have d3: "drop (Suc (Suc (p + length k))) data = v @ CR # LF # rest" using drop_cons [OF d2] by simp
  have d4: "drop (Suc (Suc (p + length k)) + length v) data = CR # LF # rest" by (rule drop_behind [OF d3])
  obtain r1 where r1: "exec_loop S data p r = exec_loop S data (p + length k) r1"
      "reading s_header_field (n + length k) m cl (marked CB_header_field p) ob r1" "hp_header_state (prs r1) = fst (header_of k)"
    using name_phase [OF d0 ok assms(4,5), of S] assms(7) len by (metis (no_types, lifting) add_leD1 fst_conv add.assoc)
  obtain r2 ob2 where r2: "exec_loop S data (p + length k) r1 = exec_loop S data (Suc (p + length k)) r2"
      "reading s_header_value_start (Suc (n + length k)) m cl unmarked_run ob2 r2" "pend k ob2" "obs ob2 = obs ob"
      "hp_header_state (prs r2) = fst (header_of k)"
    using colon_byte [OF d1 d0 refl nc assms(6) r1(2)] r1(3) assms(7) len by auto
  obtain r3 where r3: "exec_loop S data (Suc (p + length k)) r2 = exec_loop S data (Suc (Suc (p + length k))) r3"
      "reading s_header_value_start (Suc (Suc (n + length k))) m cl unmarked_run ob2 r3" "hp_header_state (prs r3) = fst (header_of k)"
    using blank_byte [OF d2 r2(2)] r2(5) assms(7) len by auto
  obtain r4 where r4: "exec_loop S data (Suc (Suc (p + length k))) r3 = exec_loop S data (Suc (Suc (p + length k)) + length v) r4"
      "reading s_header_value (Suc (Suc (n + length k)) + length v) m (length_after cl (k, v))
         (marked CB_header_value (Suc (Suc (p + length k)))) ob2 r4"
      "value_rel (map TOKEN k = ''content-length'') (hp_header_state (prs r4))"
    using value_phase [OF d3 assms(2) r3(2,3), of S] assms(7) len by auto
  obtain r5 ob5 where "exec_loop S data (Suc (Suc (p + length k)) + length v) r4 = exec_loop S data (Suc (Suc (p + length k)) + length v + 2) r5"
      "reading s_header_value_lws (Suc (Suc (n + length k)) + length v + 2) m (length_after cl (k, v)) unmarked_run ob5 r5"
      "idle ob5" "obs ob5 = obs ob2"
    using value_end [OF d4 d3 refl r2(3) assms(3) r4(2,3)] assms(7) len by auto
  moreover have "Suc (Suc (p + length k)) + length v + 2 = p + length (head_line (k, v))"
    "Suc (Suc (n + length k)) + length v + 2 = n + length (head_line (k, v))" using len by simp_all
  ultimately show ?thesis using r1(1) r2(1,4) r3(1) r4(1) by metis
qed

lemma header_lines_run:
  assumes "drop p data = concat (map head_line hs) @ rest" "list_all header_line_ok hs" "list_all (\<lambda>(k, v). value_ok k v) hs"
    "line_start s" "reading s n m cl unmarked_run ob r" "idle ob"
    "n + length (concat (map head_line hs)) \<le> HTTP_MAX_HEADER_SIZE"
  shows "\<exists>r' ob' s'. exec_loop S data p r = exec_loop S data (p + length (concat (map head_line hs))) r'
    \<and> reading s' (n + length (concat (map head_line hs))) m (foldl length_after cl hs) unmarked_run ob' r' \<and> line_start s'
    \<and> idle ob' \<and> obs ob' = obs ob"
  using assms
proof (induction hs arbitrary: p s n cl ob r)
  case Nil
  then show ?case by auto
next
  case (Cons h hs)
  obtain k v where h: "h = (k, v)" by (cases h)
  let ?l = "length (head_line (k, v))"
  have d: "drop p data = head_line (k, v) @ concat (map head_line hs) @ rest" using Cons.prems(1) h by simp
  then have d': "drop (p + ?l) data = concat (map head_line hs) @ rest" by (rule drop_behind)
  have ok: "header_line_ok (k, v)" "value_ok k v" "n + ?l \<le> HTTP_MAX_HEADER_SIZE" using Cons.prems(2,3,7) h by simp_all
  obtain r1 ob1 where r1: "exec_loop S data p r = exec_loop S data (p + ?l) r1"
      "reading s_header_value_lws (n + ?l) m (length_after cl (k, v)) unmarked_run ob1 r1" "idle ob1" "obs ob1 = obs ob"
    using header_line_run [OF d ok(1,2) Cons.prems(4,5,6) ok(3)] by auto
  have "line_start s_header_value_lws" by (simp add: line_start_def)
  from Cons.IH [OF d' _ _ this r1(2,3)] Cons.prems(2,3,7) r1(1,4) h show ?case by (simp add: add.assoc)
qed

text \<open>The empty line: the message is complete, or its body is awaited.\<close>

lemma complete_run:
  assumes "hp_errno (prs r) = HPE_OK" "marks r = unmarked_run" "idle (robject r)" "obs (robject r) = (u, b, e)"
  shows "\<exists>r'. complete S p r (\<lambda>r. Inr (Go p r)) = Inr (Go p r') \<and> hp_errno (prs r') = HPE_OK \<and> marks r' = unmarked_run
    \<and> idle (robject r') \<and> obs (robject r') = (u, b, True)"
proof -
  let ?r = "set_state (NEW_MESSAGE (prs r)) r"
  obtain ob' where ob': "call_notify S CB_message_complete (prs ?r) (robject ?r) = Inr (0, ob')" "idle ob'" "obs ob' = (u, b, True)"
    using complete_call [of "robject ?r" u b e "prs ?r"] assms(3,4) by (auto simp: set_state_def upd_def)
  have "complete S p r (\<lambda>r. Inr (Go p r)) = Inr (Go p (?r\<lparr>robject := ob'\<rparr>))"
    unfolding complete_def by (rule callback_notify_call [OF _ ob'(1)]) (simp add: assms(1) set_state_def upd_def)
  then show ?thesis using assms ob'(2,3) by (auto simp: set_state_def upd_def)
qed

lemma empty_line_run:
  assumes "drop p data = CR # LF # rest" "line_start s" "reading s n m cl unmarked_run ob r" "idle ob" "obs ob = (u, b, e)"
    "m \<noteq> HTTP_CONNECT" "n + 2 \<le> HTTP_MAX_HEADER_SIZE"
  shows "\<exists>r'. exec_loop S data p r = exec_loop S data (p + 2) r' \<and> hp_errno (prs r') = HPE_OK \<and> marks r' = unmarked_run
    \<and> idle (robject r')
    \<and> (if cl = 0 \<or> cl = - 1 then obs (robject r') = (u, b, True)
       else hp_state (prs r') = s_body_identity \<and> hp_content_length (prs r') = cl \<and> obs (robject r') = (u, b, e))"
proof -
  have ph: "parsing_header s" using assms(2) by (auto simp: line_start_def parsing_header_def)
  have d: "drop (Suc p) data = LF # rest" using drop_cons [OF assms(1)] by simp
  have "\<exists>r'. exec_loop S data p r = exec_loop S data (Suc p) r' \<and> reading s_headers_almost_done (Suc n) m cl unmarked_run ob r'"
  proof (rule loop_one [OF assms(1,3) _ ph])
    fix r assume "reading s (Suc n) m cl unmarked_run ob r"
    then show "\<exists>r'. exec_byte S data p r = Inr (Go p r') \<and> reading s_headers_almost_done (Suc n) m cl unmarked_run ob r'"
      using drop_cons [OF assms(1)] assms(2)
      by (auto simp: exec_byte_def line_start_def reading_def step_header_value_lws_def step_header_field_start_def set_state_def
          upd_def CR_def LF_def)
  qed (use assms(7) in simp)
  then obtain r1 where r1: "exec_loop S data p r = exec_loop S data (Suc p) r1" "reading s_headers_almost_done (Suc n) m cl unmarked_run ob r1"
    by blast
  let ?Q = "\<lambda>r'. hp_errno (prs r') = HPE_OK \<and> marks r' = unmarked_run \<and> idle (robject r')
    \<and> (if cl = 0 \<or> cl = - 1 then obs (robject r') = (u, b, True)
       else hp_state (prs r') = s_body_identity \<and> hp_content_length (prs r') = cl \<and> obs (robject r') = (u, b, e))"
  have "\<exists>r'. exec_loop S data (Suc p) r1 = exec_loop S data (Suc (Suc p)) r' \<and> ?Q r'"
  proof (rule loop_one [OF d r1(2)])
    fix r assume rd: "reading s_headers_almost_done (Suc (Suc n)) m cl unmarked_run ob r"
    let ?r = "upd (\<lambda>q. q\<lparr>hp_state := s_headers_done, hp_upgrade := (F_UPGRADE (hp_flags q) \<or> hp_method q = HTTP_CONNECT)\<rparr>) r"
    obtain ob' where ob': "call_notify S CB_headers_complete (prs ?r) ob = Inr (0, ob')" "idle ob'" "obs ob' = (u, b, e)"
      using headers_call [OF assms(4), of "prs ?r"] assms(5) by auto
    let ?r2 = "upd (\<lambda>q. q\<lparr>hp_nread := 0\<rparr>) (?r\<lparr>robject := ob'\<rparr>)"
    have "step_headers_almost_done S LF (Suc p) r = step_headers_done S LF (Suc p) (?r\<lparr>robject := ob'\<rparr>)"
    proof (cases "on_notify S CB_headers_complete")
      case None
      then have "?r\<lparr>robject := ob'\<rparr> = ?r" using ob'(1) rd by (simp add: call_notify_def reading_def upd_def)
      then show ?thesis using None rd by (simp add: step_headers_almost_done_def strict_check_def reading_def Let_def)
    next
      case (Some f)
      then show ?thesis using rd ob'(1)
        by (simp add: step_headers_almost_done_def strict_check_def reading_def Let_def call_notify_def upd_def)
    qed
    also have "\<dots> = (if cl = 0 \<or> cl = - 1 then complete S (Suc p) ?r2 (\<lambda>r. Inr (Go (Suc p) r))
        else Inr (Go (Suc p) (set_state s_body_identity ?r2)))"
      using rd assms(6) by (simp add: step_headers_done_def strict_check_def reading_def Let_def upd_def)
    finally have ex: "exec_byte S data (Suc p) r = (if cl = 0 \<or> cl = - 1 then complete S (Suc p) ?r2 (\<lambda>r. Inr (Go (Suc p) r))
        else Inr (Go (Suc p) (set_state s_body_identity ?r2)))"
      using rd drop_cons [OF d] by (simp add: exec_byte_def reading_def)
    have r2: "hp_errno (prs ?r2) = HPE_OK" "marks ?r2 = unmarked_run" "robject ?r2 = ob'" "hp_content_length (prs ?r2) = cl"
      using rd by (simp_all add: reading_def upd_def)
    show "\<exists>r'. exec_byte S data (Suc p) r = Inr (Go (Suc p) r') \<and> ?Q r'"
    proof (cases "cl = 0 \<or> cl = - 1")
      case True
      then show ?thesis using complete_run [OF r2(1,2), of u b e "Suc p"] r2(3) ob'(2,3) ex by auto
    next
      case False
      then show ?thesis using ex r2 ob'(2,3) by (auto simp: set_state_def upd_def)
    qed
  qed (use assms(7) in \<open>simp_all add: parsing_header_def\<close>)
  then show ?thesis using r1(1) by auto
qed

text \<open>The body.\<close>

lemma loop_end: "length data \<le> p \<Longrightarrow> exec_loop S data p r = Inr (Go p r)"
  by (subst exec_loop.simps) simp

lemma body_byte:
  assumes "p < length data" "hp_state (prs r) = s_body_identity"
  shows "exec_loop S data p r = (case step_body_identity S data p r of Inr (Go q r') \<Rightarrow> exec_loop S data (q + 1) r' | x \<Rightarrow> x)"
  using assms by (subst exec_loop.simps) (simp add: count_byte_def parsing_header_def exec_byte_def)

lemma body_run:
  assumes "drop p data = body" "hp_state (prs r) = s_body_identity" "hp_content_length (prs r) = cl" "cl \<noteq> 0" "cl \<noteq> - 1"
    "length body = unat cl" "hp_errno (prs r) = HPE_OK" "marks r = unmarked_run" "idle (robject r)" "obs (robject r) = (u, b, e)"
  shows "\<exists>r'. exec_loop S data p r = Inr (Go (length data) r') \<and> hp_errno (prs r') = HPE_OK \<and> marks r' = unmarked_run
    \<and> obs (robject r') = (u, b @ body, True)"
proof -
  let ?n = "length body" let ?q = "p + ?n - 1" let ?r = "set_state s_message_done (take_body ?n p r)"
  have "0 < unat cl" using assms(4) by (simp add: unat_gt_0)
  then have n: "?n = length data - p" "?n \<noteq> 0" "p < length data" "Suc ?q = length data" using assms(1,6) by auto
  have read: "to_read data p r = ?n" using n(1) assms(3,6) by (simp add: to_read_def)
  have zero: "hp_content_length (prs (take_body ?n p r)) = 0"
    using assms(3,6,8) by (simp add: take_body_def upd_def MARK_def)
  have r: "hp_errno (prs ?r) = HPE_OK" "marks ?r CB_body = Some p" "robject ?r = robject r" "(marks ?r)(CB_body := None) = unmarked_run"
    using assms(7,8) by (auto simp: set_state_def upd_def take_body_def MARK_def)
  obtain ob' where ob': "call_data S CB_body (prs ?r) (drop p data) (Suc ?q - p) (robject ?r) = Inr (0, ob')" "idle ob'" "obs ob' = (u, b @ body, e)"
    using body_call [OF assms(9,10), of "prs ?r" "drop p data" "Suc ?q - p"] n assms(1) r(3) by auto
  let ?r1 = "?r\<lparr>marks := (marks ?r)(CB_body := None), robject := ob'\<rparr>"
  have "callback_data S data CB_body (Suc ?q) ?q ?r (\<lambda>r. step_message_done S ?q r) = step_message_done S ?q ?r1"
    by (rule callback_data_call [OF r(1,2) ob'(1)])
  then have step: "step_body_identity S data p r = step_message_done S ?q ?r1"
    using read zero assms(3,4,5) by (simp add: step_body_identity_def Let_def)
  obtain r' where r': "step_message_done S ?q ?r1 = Inr (Go ?q r')" "hp_errno (prs r') = HPE_OK" "marks r' = unmarked_run"
      "obs (robject r') = (u, b @ body, True)"
    using complete_run [of ?r1 u "b @ body" e ?q] r(1,4) ob'(2,3) unfolding step_message_done_def by auto
  have "exec_loop S data p r = exec_loop S data (Suc ?q) r'" using body_byte [OF n(3) assms(2)] step r'(1) by simp
  then show ?thesis using loop_end [of data "Suc ?q" r'] n(4) r'(2,3,4) by auto
qed

lemma body_part_run:
  assumes "drop p data = body" "p \<le> length data" "hp_state (prs r) = s_body_identity" "hp_content_length (prs r) = cl" "cl \<noteq> - 1"
    "length body < unat cl" "hp_errno (prs r) = HPE_OK" "marks r = unmarked_run" "idle (robject r)" "obs (robject r) = (u, b, e)"
  shows "\<exists>r' r2. exec_loop S data p r = Inr (Go (length data) r') \<and> leftover S data r' = Inr (Return (length data) r2)
    \<and> hp_errno (prs r2) = HPE_OK \<and> obs (robject r2) = (u, b @ body, e)"
proof (cases "body = []")
  case True
  then show ?thesis using assms loop_end [of data p r] no_marks_leftover [of r S data] by auto
next
  case False
  let ?n = "length body" let ?q = "p + ?n - 1" let ?r = "take_body ?n p r"
  have n: "?n = length data - p" "?n \<noteq> 0" "p < length data" "Suc ?q = length data" using assms(1) False by auto
  have read: "to_read data p r = ?n" using n(1) assms(4,6) by (simp add: to_read_def)
  have "unat (cl - word_of_nat ?n) = unat cl - ?n" using unat_minus_nat [of ?n cl] assms(6) by simp
  then have "cl - word_of_nat ?n \<noteq> 0" using assms(6) by (metis unat_0 zero_less_diff less_numeral_extra(3))
  then have more: "hp_content_length (prs ?r) \<noteq> 0" using assms(4,8) by (simp add: take_body_def upd_def MARK_def)
  have "cl \<noteq> 0" using assms(6) by auto
  then have "step_body_identity S data p r = Inr (Go ?q ?r)"
    using read more assms(4,5) by (simp add: step_body_identity_def Let_def)
  then have loop: "exec_loop S data p r = Inr (Go (length data) ?r)"
    using body_byte [OF n(3) assms(3)] loop_end [of data "Suc ?q" ?r] n(4) by simp
  have r: "hp_errno (prs ?r) = HPE_OK" "marks ?r = marked CB_body p" "robject ?r = robject r"
    using assms(7,8) by (auto simp: upd_def take_body_def MARK_def marked_def)
  obtain ob' where ob': "call_data S CB_body (prs ?r) (drop p data) (length data - p) (robject ?r) = Inr (0, ob')" "obs ob' = (u, b @ body, e)"
    using body_call [OF assms(9,10), of "prs ?r" "drop p data" "length data - p"] n assms(1) r(3) by auto
  let ?r2 = "?r\<lparr>marks := (marks ?r)(CB_body := None), robject := ob'\<rparr>"
  have "callback_data S data CB_body (length data) (length data) ?r (\<lambda>r. Inr (Return (length data) r)) = Inr (Return (length data) ?r2)"
    by (rule callback_data_call [OF r(1) _ ob'(1)]) (simp add: r(2) marked_def del: take_body_frame)
  moreover have "callback_data S data k (length data) (length data) ?r cont = cont ?r" if "k \<noteq> CB_body" for k cont
    using that r(1,2) by (simp add: callback_data_def marked_def del: take_body_frame)
  moreover have "marks_left ?r = 1" using r(2) by (simp add: marks_left_def marked_def del: take_body_frame)
  ultimately have "leftover S data ?r = Inr (Return (length data) ?r2)" by (simp add: leftover_def Let_def)
  then show ?thesis using loop r(1) ob'(2) by auto
qed

text \<open>From the first byte to the empty line.\<close>

lemma url_end:
  assumes "drop p data = CHR '' '' # rest" "drop p0 data = u @ CHR '' '' # rest" "p = p0 + length u" "url_ok u" "idle ob" "obs ob = (u0, b, e)"
    "reading (foldl parse_url_char s_req_spaces_before_url u) n m cl (marked CB_url p0) ob r" "n < HTTP_MAX_HEADER_SIZE"
  shows "\<exists>r' ob'. exec_loop S data p r = exec_loop S data (Suc p) r' \<and> reading s_req_http_start (Suc n) m cl unmarked_run ob' r'
    \<and> idle ob' \<and> obs ob' = (u0 @ u, b, e)"
proof -
  let ?s = "foldl parse_url_char s_req_spaces_before_url u" let ?r = "set_state s_req_http_start (count_byte r)"
  have ph: "parsing_header ?s" using assms(4) by (auto simp: url_ok_def parsing_header_def)
  have cnt: "reading ?s (Suc n) m cl (marked CB_url p0) ob (count_byte r)" by (rule reading_count [OF ph assms(7)])
  obtain ob' where ob': "call_data S CB_url (prs ?r) (drop p0 data) (p - p0) ob = Inr (0, ob')" "idle ob'" "obs ob' = (u0 @ u, b, e)"
    using url_call [OF assms(5,6), of "prs ?r" "drop p0 data" "p - p0"] assms(2,3) by auto
  let ?r1 = "?r\<lparr>marks := (marks ?r)(CB_url := None), robject := ob'\<rparr>"
  have "callback_data S data CB_url p (Suc p) ?r (\<lambda>r. Inr (Go p r)) = Inr (Go p ?r1)"
    by (rule callback_data_call [where p = p0])
      (use cnt ob'(1) in \<open>simp_all add: reading_def set_state_def upd_def marked_def\<close>)
  then have "exec_byte S data p (count_byte r) = Inr (Go p ?r1)"
    using cnt drop_cons [OF assms(1)] assms(4) by (auto simp: exec_byte_def reading_def step_req_url_def url_ok_def)
  from loop_byte [OF assms(1) _ this] have "exec_loop S data p r = exec_loop S data (Suc p) ?r1"
    using reading_nread [OF assms(7)] assms(8) by simp
  then show ?thesis using cnt ob'(2,3)
    by (intro exI [of _ ?r1] exI [of _ ob']) (auto simp: reading_def set_state_def upd_def marked_def)
qed

lemma method_run:
  assumes "data = method_string m @ CHR '' '' # rest" "m \<noteq> HTTP_MSEARCH"
  shows "\<exists>r'. exec_loop S data 0 (start_run ob) = exec_loop S data (Suc (length (method_string m))) r'
    \<and> reading s_req_spaces_before_url (Suc (length (method_string m))) m (- 1) unmarked_run ob r'"
proof -
  obtain c w where cw: "method_string m = c # w" by (cases m) simp_all
  have name: "CHR '' '' \<notin> set (method_string m)" using assms(2) by (cases m) simp_all
  have rec: "recognise (c # w) = Some m" using recognise_complete [of m] assms(2) cw by (simp add: read_name_def)
  then obtain m0 where m0: "first_method c = Some m0" "foldl method_next (Some (m0, 1)) w = Some (m, length (method_string m))"
    by (cases "first_method c") (auto simp: method_start_def foldl_None simp del: first_method.simps split: option.splits if_splits)
  obtain r1 where r1: "exec_loop S data 0 (start_run ob) = exec_loop S data 1 r1" "reading s_req_method 1 m0 (- 1) unmarked_run ob r1"
      "hp_index (prs r1) = 1"
    using first_byte [OF no_begin, of data c "w @ CHR '' '' # rest" ob] first_alpha [OF m0(1)] m0(1) assms(1) cw
    by (auto simp del: first_method.simps)
  have d: "drop 1 data = w @ CHR '' '' # rest" using assms(1) cw by simp
  obtain r2 where r2: "exec_loop S data 1 r1 = exec_loop S data (1 + length w) r2"
      "reading s_req_method (length (method_string m)) m (- 1) unmarked_run ob r2" "hp_index (prs r2) = length (method_string m)"
    using method_loop [OF d _ r1(2,3), of S] name cw first_alpha [OF m0(1)] m0(2) by auto
  have "drop (1 + length w) data = CHR '' '' # rest" by (rule drop_behind [OF d])
  from method_blank [OF this r2(2,3) refl, of S] show ?thesis using r1(1) r2(1) cw by auto
qed

lemma head_run:
  assumes "data = request_head m u hs @ rest" "request_ok m u hs" "list_all (\<lambda>(k, v). value_ok k v) hs" "idle ob" "obs ob = (u0, b, e)"
  shows "\<exists>r'. exec_loop S data 0 (start_run ob) = exec_loop S data (length (request_head m u hs)) r' \<and> hp_errno (prs r') = HPE_OK
    \<and> marks r' = unmarked_run \<and> idle (robject r')
    \<and> (let cl = foldl length_after (- 1) hs in if cl = 0 \<or> cl = - 1 then obs (robject r') = (u0 @ u, b, True)
       else hp_state (prs r') = s_body_identity \<and> hp_content_length (prs r') = cl \<and> obs (robject r') = (u0 @ u, b, e))"
proof -
  let ?m = "length (method_string m)" and ?h = "concat (map head_line hs)" and ?cl = "foldl length_after (- 1) hs"
  have crlf: "CRLF = [CR, LF]" by (simp add: CRLF_def CR_def LF_def)
  have ok: "m \<noteq> HTTP_MSEARCH" "m \<noteq> HTTP_CONNECT" "url_ok u" "list_all header_line_ok hs"
      and len: "?m + length u + length ?h + 14 \<le> HTTP_MAX_HEADER_SIZE" "length (request_head m u hs) = ?m + length u + length ?h + 14"
    using assms(2) by (auto simp: request_ok_def request_head_def crlf)
  have data: "data = method_string m @ CHR '' '' # u @ CHR '' '' # (''HTTP/1.1'' @ CRLF) @ ?h @ CR # LF # rest"
    using assms(1) by (simp add: request_head_def crlf)
  then have d1: "drop (Suc ?m) data = u @ CHR '' '' # (''HTTP/1.1'' @ CRLF) @ ?h @ CR # LF # rest" by simp
  have d2: "drop (Suc ?m + length u) data = CHR '' '' # (''HTTP/1.1'' @ CRLF) @ ?h @ CR # LF # rest" by (rule drop_behind [OF d1])
  have d3: "drop (Suc (Suc ?m + length u)) data = (''HTTP/1.1'' @ CRLF) @ ?h @ CR # LF # rest" using drop_cons [OF d2] by simp
  have d4: "drop (Suc (Suc ?m + length u) + 10) data = ?h @ CR # LF # rest" 
  proof -
    have "length (''HTTP/1.1'' @ CRLF) = 10" by (simp add: crlf)
    then show ?thesis using drop_behind [OF d3] by simp
  qed
  have d5: "drop (Suc (Suc ?m + length u) + 10 + length ?h) data = CR # LF # rest" by (rule drop_behind [OF d4])
  obtain r1 where r1: "exec_loop S data 0 (start_run ob) = exec_loop S data (Suc ?m) r1"
      "reading s_req_spaces_before_url (Suc ?m) m (- 1) unmarked_run ob r1"
    using method_run [OF data ok(1), of ob] by auto
  obtain r2 where r2: "exec_loop S data (Suc ?m) r1 = exec_loop S data (Suc ?m + length u) r2"
      "reading (foldl parse_url_char s_req_spaces_before_url u) (Suc ?m + length u) m (- 1) (marked CB_url (Suc ?m)) ob r2"
    using url_phase [OF d1 ok(3) r1(2) ok(2), of S] len by auto
  obtain r3 ob3 where r3: "exec_loop S data (Suc ?m + length u) r2 = exec_loop S data (Suc (Suc ?m + length u)) r3"
      "reading s_req_http_start (Suc (Suc ?m + length u)) m (- 1) unmarked_run ob3 r3" "idle ob3" "obs ob3 = (u0 @ u, b, e)"
    using url_end [OF d2 d1 refl ok(3) assms(4,5) r2(2)] len by auto
  obtain r4 where r4: "exec_loop S data (Suc (Suc ?m + length u)) r3 = exec_loop S data (Suc (Suc ?m + length u) + 10) r4"
      "reading s_header_field_start (Suc (Suc ?m + length u) + 10) m (- 1) unmarked_run ob3 r4"
    using version_phase [OF d3 r3(2), of S] len by auto
  have ls: "line_start s_header_field_start" by (simp add: line_start_def)
  obtain r5 ob5 s5 where r5: "exec_loop S data (Suc (Suc ?m + length u) + 10) r4 = exec_loop S data (Suc (Suc ?m + length u) + 10 + length ?h) r5"
      "reading s5 (Suc (Suc ?m + length u) + 10 + length ?h) m ?cl unmarked_run ob5 r5" "line_start s5" "idle ob5" "obs ob5 = obs ob3"
    using header_lines_run [OF d4 ok(4) assms(3) ls r4(2) r3(3)] len by auto
  have "obs ob5 = (u0 @ u, b, e)" using r5(5) r3(4) by simp
  note last = empty_line_run [OF d5 r5(3,2,4) this ok(2)]
  have "Suc (Suc ?m + length u) + 10 + length ?h + 2 = length (request_head m u hs)" using len by simp
  with last len r1(1) r2(1) r3(1) r4(1) r5(1) show ?thesis by (auto simp: Let_def)
qed

theorem request_read:
  assumes "request_ok m u hs" "list_all (\<lambda>(k, v). value_ok k v) hs" "idle ob" "obs ob = ([], [], False)"
    "length body = body_length hs"
  shows "\<exists>q ob'. http_parser_execute S (request_head m u hs @ body) (http_parser_init HTTP_REQUEST) ob
      = Inr (length (request_head m u hs @ body), q, ob') \<and> hp_errno q = HPE_OK \<and> obs ob' = (u, body, True)"
proof -
  let ?data = "request_head m u hs @ body" and ?cl = "foldl length_after (- 1) hs" and ?n = "length (request_head m u hs)"
  have ne: "?data \<noteq> []" by (simp add: request_head_def)
  obtain r where r: "exec_loop S ?data 0 (start_run ob) = exec_loop S ?data ?n r" "hp_errno (prs r) = HPE_OK"
      "marks r = unmarked_run" "idle (robject r)"
      "if ?cl = 0 \<or> ?cl = - 1 then obs (robject r) = (u, [], True)
       else hp_state (prs r) = s_body_identity \<and> hp_content_length (prs r) = ?cl \<and> obs (robject r) = (u, [], False)"
    using head_run [OF refl assms(1,2,3,4), of body] by (auto simp: Let_def)
  have "\<exists>r'. exec_loop S ?data ?n r = Inr (Go (length ?data) r') \<and> hp_errno (prs r') = HPE_OK \<and> marks r' = unmarked_run
      \<and> obs (robject r') = (u, body, True)"
  proof (cases "?cl = 0 \<or> ?cl = - 1")
    case True
    then have "body = []" using assms(5) by (auto simp: body_length_def)
    then show ?thesis using True r(2,3,5) loop_end [of ?data ?n r] by auto
  next
    case False
    have "length body = unat ?cl" using assms(5) False by (simp add: body_length_def)
    from body_run [OF _ _ _ _ _ this r(2,3,4), of ?n ?data u "[]" False] False r(5) show ?thesis by simp
  qed
  then show ?thesis using execute_start [OF ne, of S ob] r(1) no_marks_leftover [of _ S ?data] by auto
qed

theorem request_part:
  assumes "request_ok m u hs" "list_all (\<lambda>(k, v). value_ok k v) hs" "idle ob" "obs ob = ([], [], False)"
    "length body < body_length hs"
  shows "\<exists>q ob'. http_parser_execute S (request_head m u hs @ body) (http_parser_init HTTP_REQUEST) ob
      = Inr (length (request_head m u hs @ body), q, ob') \<and> hp_errno q = HPE_OK \<and> obs ob' = (u, body, False)"
proof -
  let ?data = "request_head m u hs @ body" and ?cl = "foldl length_after (- 1) hs" and ?n = "length (request_head m u hs)"
  have ne: "?data \<noteq> []" by (simp add: request_head_def)
  have cl: "?cl \<noteq> 0" "?cl \<noteq> - 1" "length body < unat ?cl" using assms(5) by (auto simp: body_length_def Let_def split: if_splits)
  obtain r where r: "exec_loop S ?data 0 (start_run ob) = exec_loop S ?data ?n r" "hp_errno (prs r) = HPE_OK"
      "marks r = unmarked_run" "idle (robject r)" "hp_state (prs r) = s_body_identity" "hp_content_length (prs r) = ?cl"
      "obs (robject r) = (u, [], False)"
    using head_run [OF refl assms(1,2,3,4), of body] cl by (auto simp: Let_def)
  from body_part_run [OF _ _ r(5,6) cl(2,3) r(2,3,4,7), of ?n ?data] obtain r' r2 where
    "exec_loop S ?data ?n r = Inr (Go (length ?data) r')" "leftover S ?data r' = Inr (Return (length ?data) r2)"
    "hp_errno (prs r2) = HPE_OK" "obs (robject r2) = (u, body, False)" by auto
  then show ?thesis using execute_start [OF ne, of S ob] r(1) by auto
qed

end

end
