(* ===== verification/HttpWrapper.thy ===== *)
theory HttpWrapper
  imports HttpParser
begin

text \<open>
  \<^verbatim>\<open>CHttpParserWrapper\<close>: the callbacks with which the comet server runs the HTTP parser, and
  \<^verbatim>\<open>ParseHttpContent\<close>. The setters of the class are record updates. The callback for header names compares up to
  fifteen bytes from the start of the name, however long the name is; \<open>after\<close> is the memory behind the data,
  and a comparison that runs past it is \<open>Inl OutOfBounds\<close>.
\<close>

section \<open>The class\<close>

record CHttpParserWrapper =
  w_http_parser :: http_parser
  w_read_all :: bool
  w_read_referer :: bool
  w_read_forward_ip :: bool
  w_read_user_agent :: bool
  w_read_content_type :: bool
  w_read_content_len :: bool
  w_read_host :: bool
  w_total_length :: u32
  w_url :: string
  w_body_content :: string
  w_referer :: string
  w_forward_ip :: string
  w_user_agent :: string
  w_content_type :: string
  w_content_len :: u32
  w_host :: string

definition MAX_REFERER_LEN :: nat where
  "MAX_REFERER_LEN = 32"

text \<open>\<^verbatim>\<open>tolower\<close> in the C locale.\<close>

definition tolower :: "char \<Rightarrow> char" where
  "tolower c = (if 65 \<le> (of_char c :: nat) \<and> (of_char c :: nat) \<le> 90 then char_of (of_char c + 32 :: nat) else c)"

text \<open>\<^verbatim>\<open>strncasecmp(at, w, strlen(w)) == 0\<close>: reads \<open>at\<close> up to the first difference.\<close>

fun strncasecmp_eq :: "string \<Rightarrow> string \<Rightarrow> bool res" where
  "strncasecmp_eq at [] = Inr True"
| "strncasecmp_eq [] (x # w) = Inl OutOfBounds"
| "strncasecmp_eq (c # at) (x # w) = (if tolower c = tolower x then strncasecmp_eq at w else Inr False)"

definition OnUrl :: "http_parser \<Rightarrow> string \<Rightarrow> nat \<Rightarrow> CHttpParserWrapper \<Rightarrow> (int \<times> CHttpParserWrapper) res" where
  "OnUrl parser at len obj = Inr (0, obj\<lparr>w_url := w_url obj @ take len at\<rparr>)"

text \<open>One comparison of \<^verbatim>\<open>OnHeaderField\<close>: the flag is set when the name matches and no value was read yet.\<close>

definition read_field :: "string \<Rightarrow> string \<Rightarrow> bool \<Rightarrow> (CHttpParserWrapper \<Rightarrow> CHttpParserWrapper)
    \<Rightarrow> CHttpParserWrapper \<Rightarrow> CHttpParserWrapper res" where
  "read_field at name has_read set_read obj =
     (if \<not> has_read then and_then (strncasecmp_eq at name) (\<lambda>eq. Inr (if eq then set_read obj else obj)) else Inr obj)"

definition OnHeaderField :: "string \<Rightarrow> http_parser \<Rightarrow> string \<Rightarrow> nat \<Rightarrow> CHttpParserWrapper
    \<Rightarrow> (int \<times> CHttpParserWrapper) res" where
  "OnHeaderField after parser at len obj =
     (let at = at @ after in
      and_then (read_field at ''Referer'' (w_referer obj \<noteq> []) (\<lambda>x. x\<lparr>w_read_referer := True\<rparr>) obj) (\<lambda>obj.
      and_then (read_field at ''X-Forwarded-For'' (w_forward_ip obj \<noteq> []) (\<lambda>x. x\<lparr>w_read_forward_ip := True\<rparr>) obj) (\<lambda>obj.
      and_then (read_field at ''User-Agent'' (w_user_agent obj \<noteq> []) (\<lambda>x. x\<lparr>w_read_user_agent := True\<rparr>) obj) (\<lambda>obj.
      and_then (read_field at ''Content-Type'' (w_content_type obj \<noteq> []) (\<lambda>x. x\<lparr>w_read_content_type := True\<rparr>) obj) (\<lambda>obj.
      and_then (read_field at ''Content-Length'' (w_content_len obj \<noteq> 0) (\<lambda>x. x\<lparr>w_read_content_len := True\<rparr>) obj) (\<lambda>obj.
      and_then (read_field at ''Host'' (w_host obj \<noteq> []) (\<lambda>x. x\<lparr>w_read_host := True\<rparr>) obj) (\<lambda>obj.
      Inr (0, obj))))))))"

definition value_referer :: "string \<Rightarrow> CHttpParserWrapper \<Rightarrow> CHttpParserWrapper" where
  "value_referer v obj =
     (if w_read_referer obj
      then obj\<lparr>w_referer := w_referer obj @ take MAX_REFERER_LEN v, w_read_referer := False\<rparr> else obj)"

definition value_forward_ip :: "string \<Rightarrow> CHttpParserWrapper \<Rightarrow> CHttpParserWrapper" where
  "value_forward_ip v obj =
     (if w_read_forward_ip obj then obj\<lparr>w_forward_ip := w_forward_ip obj @ v, w_read_forward_ip := False\<rparr> else obj)"

definition value_user_agent :: "string \<Rightarrow> CHttpParserWrapper \<Rightarrow> CHttpParserWrapper" where
  "value_user_agent v obj =
     (if w_read_user_agent obj then obj\<lparr>w_user_agent := w_user_agent obj @ v, w_read_user_agent := False\<rparr> else obj)"

definition value_content_type :: "string \<Rightarrow> CHttpParserWrapper \<Rightarrow> CHttpParserWrapper" where
  "value_content_type v obj =
     (if w_read_content_type obj
      then obj\<lparr>w_content_type := w_content_type obj @ v, w_read_content_type := False\<rparr> else obj)"

definition value_content_len :: "string \<Rightarrow> CHttpParserWrapper \<Rightarrow> CHttpParserWrapper res" where
  "value_content_len v obj =
     (if w_read_content_len obj
      then and_then (atoi (takeWhile (\<lambda>c. c \<noteq> CHR 0x00) v)) (\<lambda>n.
        Inr (obj\<lparr>w_content_len := word_of_int n, w_read_content_len := False\<rparr>))
      else Inr obj)"

definition value_host :: "string \<Rightarrow> CHttpParserWrapper \<Rightarrow> CHttpParserWrapper" where
  "value_host v obj =
     (if w_read_host obj then obj\<lparr>w_host := w_host obj @ v, w_read_host := False\<rparr> else obj)"

definition OnHeaderValue :: "http_parser \<Rightarrow> string \<Rightarrow> nat \<Rightarrow> CHttpParserWrapper \<Rightarrow> (int \<times> CHttpParserWrapper) res" where
  "OnHeaderValue parser at len obj =
     (let v = take len at in
      and_then (value_content_len v (value_content_type v (value_user_agent v (value_forward_ip v (value_referer v obj)))))
        (\<lambda>obj. Inr (0, value_host v obj)))"

definition OnHeadersComplete :: "http_parser \<Rightarrow> CHttpParserWrapper \<Rightarrow> (int \<times> CHttpParserWrapper) res" where
  "OnHeadersComplete parser obj =
     Inr (0, obj\<lparr>w_total_length := word_of_nat (hp_nread parser) + ucast (hp_content_length parser)\<rparr>)"

definition OnBody :: "http_parser \<Rightarrow> string \<Rightarrow> nat \<Rightarrow> CHttpParserWrapper \<Rightarrow> (int \<times> CHttpParserWrapper) res" where
  "OnBody parser at len obj = Inr (0, obj\<lparr>w_body_content := w_body_content obj @ take len at\<rparr>)"

definition OnMessageComplete :: "http_parser \<Rightarrow> CHttpParserWrapper \<Rightarrow> (int \<times> CHttpParserWrapper) res" where
  "OnMessageComplete parser obj = Inr (0, obj\<lparr>w_read_all := True\<rparr>)"

definition wrapper_settings :: "string \<Rightarrow> CHttpParserWrapper http_parser_settings" where
  "wrapper_settings after =
     \<lparr>on_data = (\<lambda>k. Some (case k of CB_url \<Rightarrow> OnUrl | CB_header_field \<Rightarrow> OnHeaderField after
          | CB_header_value \<Rightarrow> OnHeaderValue | CB_body \<Rightarrow> OnBody)),
      on_notify = (\<lambda>k. case k of CB_message_begin \<Rightarrow> None | CB_status_complete \<Rightarrow> None
          | CB_headers_complete \<Rightarrow> Some OnHeadersComplete | CB_message_complete \<Rightarrow> Some OnMessageComplete)\<rparr>"

definition cleared_wrapper :: CHttpParserWrapper where
  "cleared_wrapper =
     \<lparr>w_http_parser = http_parser_init HTTP_REQUEST, w_read_all = False, w_read_referer = False, w_read_forward_ip = False,
      w_read_user_agent = False, w_read_content_type = False, w_read_content_len = False, w_read_host = False,
      w_total_length = 0, w_url = [], w_body_content = [], w_referer = [], w_forward_ip = [], w_user_agent = [],
      w_content_type = [], w_content_len = 0, w_host = []\<rparr>"

text \<open>All members are set before the parser runs, so nothing of an earlier call is left.\<close>

definition ParseHttpContent :: "string \<Rightarrow> string \<Rightarrow> CHttpParserWrapper res" where
  "ParseHttpContent after buf =
     and_then (http_parser_execute (wrapper_settings after) buf (http_parser_init HTTP_REQUEST) cleared_wrapper)
       (\<lambda>(n, q, obj). Inr (obj\<lparr>w_http_parser := q\<rparr>))"

end
