(* ===== verification/HttpFront.thy ===== *)
theory HttpFront
  imports HttpMessages HttpWrapper
begin

text \<open>
  The HTTP parser and its wrapper together: \<^verbatim>\<open>CHttpParserWrapper\<close> keeps the contract of the callbacks, so
  \<^verbatim>\<open>ParseHttpContent\<close> reads a request back; and what it does with numbers that are too large, with names cut off and
  with a second request.
\<close>

section \<open>The wrapper keeps the contract of the callbacks\<close>

definition length_name :: "string \<Rightarrow> bool" where
  "length_name k \<longleftrightarrow> map tolower (take 14 k) = ''content-length''"

definition wr_idle :: "CHttpParserWrapper \<Rightarrow> bool" where
  "wr_idle w \<longleftrightarrow> \<not> w_read_content_len w"

definition wr_pend :: "string \<Rightarrow> CHttpParserWrapper \<Rightarrow> bool" where
  "wr_pend k w \<longleftrightarrow> (w_read_content_len w \<longrightarrow> length_name k)"

definition wr_value_ok :: "string \<Rightarrow> string \<Rightarrow> bool" where
  "wr_value_ok k v \<longleftrightarrow> (length_name k \<longrightarrow> \<not> isl (atoi (takeWhile (\<lambda>c. c \<noteq> CHR 0x00) v)))"

definition wr_obs :: "CHttpParserWrapper \<Rightarrow> string \<times> string \<times> bool" where
  "wr_obs w = (w_url w, w_body_content w, w_read_all w)"

lemma tolower_colon: "tolower c = CHR '':'' \<longleftrightarrow> c = CHR '':''"
proof -
  have "(of_char (tolower c) :: nat) = 58 \<longleftrightarrow> (of_char c :: nat) = 58"
    by (simp add: tolower_def of_char_of) 
  moreover have "(of_char (CHR '':'') :: nat) = 58" by simp
  ultimately show ?thesis by (metis of_char_eq_iff)
qed

lemma strncasecmp_colon:
  "CHR '':'' \<notin> set w \<Longrightarrow> strncasecmp_eq (k @ CHR '':'' # t) w = Inr (map tolower (take (length w) k) = map tolower w)"
proof (induction w arbitrary: k)
  case (Cons x w)
  have x: "tolower (CHR '':'') \<noteq> tolower x" using Cons.prems tolower_colon [of x] tolower_colon [of "CHR '':''"] by auto
  show ?case using Cons x by (cases k) auto
qed simp

lemma read_field_colon:
  assumes "CHR '':'' \<notin> set name"
  shows "read_field (k @ CHR '':'' # t) name has f w
    = Inr (if \<not> has \<and> map tolower (take (length name) k) = map tolower name then f w else w)"
  using strncasecmp_colon [OF assms, of k t] by (simp add: read_field_def)

text \<open>A comparison that sets another flag.\<close>

lemma read_field_other:
  assumes "CHR '':'' \<notin> set name" "\<And>w. wr_obs (f w) = wr_obs w \<and> w_read_content_len (f w) = w_read_content_len w"
  shows "\<exists>w'. read_field (k @ CHR '':'' # t) name has f w = Inr w' \<and> wr_obs w' = wr_obs w
    \<and> w_read_content_len w' = w_read_content_len w"
  using assms by (simp add: read_field_colon)

lemma OnHeaderField_ok:
  assumes "wr_idle w" "CHR '':'' \<notin> set k"
  shows "\<exists>w'. OnHeaderField after q (k @ CHR '':'' # t) (length k) w = Inr (0, w') \<and> wr_pend k w' \<and> wr_obs w' = wr_obs w"
proof -
  let ?at = "k @ CHR '':'' # (t @ after)"
  note other = read_field_other [of _ _ k "t @ after"]
  obtain w1 where w1: "read_field ?at ''Referer'' (w_referer w \<noteq> []) (\<lambda>x. x\<lparr>w_read_referer := True\<rparr>) w = Inr w1"
      "wr_obs w1 = wr_obs w" "\<not> w_read_content_len w1"
    using other [of "''Referer''" "\<lambda>x. x\<lparr>w_read_referer := True\<rparr>" "w_referer w \<noteq> []" w] assms(1) by (auto simp: wr_obs_def wr_idle_def)
  obtain w2 where w2: "read_field ?at ''X-Forwarded-For'' (w_forward_ip w1 \<noteq> []) (\<lambda>x. x\<lparr>w_read_forward_ip := True\<rparr>) w1 = Inr w2"
      "wr_obs w2 = wr_obs w" "\<not> w_read_content_len w2"
    using other [of "''X-Forwarded-For''" "\<lambda>x. x\<lparr>w_read_forward_ip := True\<rparr>" "w_forward_ip w1 \<noteq> []" w1] w1 by (auto simp: wr_obs_def)
  obtain w3 where w3: "read_field ?at ''User-Agent'' (w_user_agent w2 \<noteq> []) (\<lambda>x. x\<lparr>w_read_user_agent := True\<rparr>) w2 = Inr w3"
      "wr_obs w3 = wr_obs w" "\<not> w_read_content_len w3"
    using other [of "''User-Agent''" "\<lambda>x. x\<lparr>w_read_user_agent := True\<rparr>" "w_user_agent w2 \<noteq> []" w2] w2 by (auto simp: wr_obs_def)
  obtain w4 where w4: "read_field ?at ''Content-Type'' (w_content_type w3 \<noteq> []) (\<lambda>x. x\<lparr>w_read_content_type := True\<rparr>) w3 = Inr w4"
      "wr_obs w4 = wr_obs w" "\<not> w_read_content_len w4"
    using other [of "''Content-Type''" "\<lambda>x. x\<lparr>w_read_content_type := True\<rparr>" "w_content_type w3 \<noteq> []" w3] w3 by (auto simp: wr_obs_def)
  have cl: "map tolower ''Content-Length'' = ''content-length''" "length ''Content-Length'' = 14" by code_simp+
  have "read_field ?at ''Content-Length'' (w_content_len w4 \<noteq> 0) (\<lambda>x. x\<lparr>w_read_content_len := True\<rparr>) w4
      = Inr (if \<not> w_content_len w4 \<noteq> 0 \<and> map tolower (take (length ''Content-Length'') k) = map tolower ''Content-Length''
          then w4\<lparr>w_read_content_len := True\<rparr> else w4)" by (rule read_field_colon) simp
  then obtain w5 where w5: "read_field ?at ''Content-Length'' (w_content_len w4 \<noteq> 0) (\<lambda>x. x\<lparr>w_read_content_len := True\<rparr>) w4 = Inr w5"
      "wr_obs w5 = wr_obs w" "w_read_content_len w5 \<longrightarrow> length_name k"
    using w4(2,3) unfolding cl length_name_def [symmetric]
    by (cases "\<not> w_content_len w4 \<noteq> 0 \<and> length_name k") (auto simp: wr_obs_def)
  obtain w6 where w6: "read_field ?at ''Host'' (w_host w5 \<noteq> []) (\<lambda>x. x\<lparr>w_read_host := True\<rparr>) w5 = Inr w6"
      "wr_obs w6 = wr_obs w" "w_read_content_len w6 = w_read_content_len w5"
    using other [of "''Host''" "\<lambda>x. x\<lparr>w_read_host := True\<rparr>" "w_host w5 \<noteq> []" w5] w5 by (auto simp: wr_obs_def)
  show ?thesis using w1 w2 w3 w4 w5 w6 by (simp add: OnHeaderField_def Let_def wr_pend_def)
qed

lemma OnHeaderValue_ok:
  assumes "wr_pend k w" "wr_value_ok k v"
  shows "\<exists>w'. OnHeaderValue q (v @ t) (length v) w = Inr (0, w') \<and> wr_idle w' \<and> wr_obs w' = wr_obs w"
proof -
  let ?w = "value_content_type v (value_user_agent v (value_forward_ip v (value_referer v w)))"
  have same: "wr_obs ?w = wr_obs w" "w_read_content_len ?w = w_read_content_len w"
    by (simp_all add: value_content_type_def value_user_agent_def value_forward_ip_def value_referer_def wr_obs_def)
  have "\<exists>w1. value_content_len v ?w = Inr w1 \<and> wr_idle w1 \<and> wr_obs w1 = wr_obs w"
  proof (cases "w_read_content_len w")
    case True
    then obtain i where "atoi (takeWhile (\<lambda>c. c \<noteq> CHR 0x00) v) = Inr i"
      using assms by (cases "atoi (takeWhile (\<lambda>c. c \<noteq> CHR 0x00) v)") (auto simp: wr_pend_def wr_value_ok_def)
    then show ?thesis using same True by (simp add: value_content_len_def wr_idle_def wr_obs_def)
  qed (use same in \<open>simp add: value_content_len_def wr_idle_def\<close>)
  then obtain w1 where "value_content_len v ?w = Inr w1" "wr_idle w1" "wr_obs w1 = wr_obs w" by auto
  then show ?thesis by (simp add: OnHeaderValue_def Let_def value_host_def wr_idle_def wr_obs_def)
qed

interpretation wr: request_callbacks "wrapper_settings after" wr_idle wr_pend wr_value_ok wr_obs for after
proof
  show "on_notify (wrapper_settings after) CB_message_begin = None" by (simp add: wrapper_settings_def)
qed (use OnHeaderField_ok OnHeaderValue_ok in
    \<open>simp_all add: wrapper_settings_def call_data_def call_notify_def OnUrl_def OnBody_def OnHeadersComplete_def OnMessageComplete_def
      wr_idle_def wr_obs_def\<close>)

section \<open>Requests through the wrapper\<close>

lemma wr_start: "wr_idle cleared_wrapper" "wr_obs cleared_wrapper = ([], [], False)"
  by (simp_all add: wr_idle_def wr_obs_def cleared_wrapper_def)

lemma parse_whole:
  assumes "request_ok m u hs" "list_all (\<lambda>(k, v). wr_value_ok k v) hs" "length body = body_length hs"
  shows "\<exists>w. ParseHttpContent after (request_head m u hs @ body) = Inr w \<and> w_read_all w \<and> w_url w = u \<and> w_body_content w = body"
  using wr.request_read [OF assms(1,2) wr_start assms(3), of after] by (auto simp: ParseHttpContent_def wr_obs_def)

lemma parse_part:
  assumes "request_ok m u hs" "list_all (\<lambda>(k, v). wr_value_ok k v) hs" "length body < body_length hs"
  shows "\<exists>w. ParseHttpContent after (request_head m u hs @ body) = Inr w \<and> \<not> w_read_all w"
  using wr.request_part [OF assms(1,2) wr_start assms(3), of after] by (auto simp: ParseHttpContent_def wr_obs_def)

text \<open>A request as a browser sends it.\<close>

definition login_headers :: "(string \<times> string) list" where
  "login_headers = [(''Host'', ''127.0.0.1:8080''), (''Connection'', ''keep-alive''), (''Content-Length'', ''2'')]"

lemma login_request:
  "request_ok HTTP_POST ''/api/login'' login_headers" "list_all (\<lambda>(k, v). wr_value_ok k v) login_headers"
  "body_length login_headers = 2"
proof -
  have "''2'' = dec 2" by code_simp
  then have "\<exists>n < 2 ^ 64 - 1. ''2'' = dec n" by (intro exI [of _ 2]) simp
  moreover have "map TOKEN ''Host'' = ''host''" "map TOKEN ''Connection'' = ''connection''" "map TOKEN ''Content-Length'' = ''content-length''"
    by code_simp+
  moreover have "is_name ''Host''" "is_name ''Connection''" "is_name ''Content-Length''" by code_simp+
  ultimately have "list_all header_line_ok login_headers"
    by (simp add: login_headers_def header_line_ok_def header_value_ok_def CR_def LF_def del: map_eq_Cons_conv list.map)
  moreover have "url_ok ''/api/login''" by code_simp
  moreover have "length (request_head HTTP_POST ''/api/login'' login_headers) \<le> HTTP_MAX_HEADER_SIZE" 
    by (simp add: request_head_def login_headers_def head_line_def CRLF_def HTTP_MAX_HEADER_SIZE_def)
  ultimately show "request_ok HTTP_POST ''/api/login'' login_headers" by (simp add: request_ok_def)
  show "list_all (\<lambda>(k, v). wr_value_ok k v) login_headers" by code_simp
  show "body_length login_headers = 2" by code_simp
qed

text \<open>
  \<^verbatim>\<open>ParseHttpContent\<close> reads a request back. Whatever method of the table (but \<^verbatim>\<open>M-SEARCH\<close> and \<^verbatim>\<open>CONNECT\<close>), URL,
  header lines and body of the announced length a request has, and whatever lies behind it in memory, the parser
  accepts it, finds it complete, and reports exactly its URL and its body.
\<close>

theorem parse_request:
  assumes "request_ok m u hs" "list_all (\<lambda>(k, v). wr_value_ok k v) hs" "length body = body_length hs"
  shows "\<exists>w. ParseHttpContent after (request_head m u hs @ body) = Inr w \<and> w_read_all w \<and> w_url w = u \<and> w_body_content w = body"
  by (rule parse_whole [OF assms])

theorem parse_request_witness:
  "\<exists>w. ParseHttpContent [] (request_head HTTP_POST ''/api/login'' login_headers @ ''{}'') = Inr w \<and> w_read_all w
     \<and> w_url w = ''/api/login'' \<and> w_body_content w = ''{}''"
  using parse_request [OF login_request(1,2), of "''{}''" "[]"] login_request(3) by simp

section \<open>Where the code falls short\<close>

text \<open>For evaluation the bound on the header is compared as an integer.\<close>

lemma exec_loop_code [code]:
  "exec_loop S data p r =
     (if p < length data then
        let r' = count_byte r in
        if parsing_header (hp_state (prs r)) \<and> (81920 :: int) < int (hp_nread (prs r'))
        then fail HPE_HEADER_OVERFLOW p r'
        else case exec_byte S data p r' of
            Inr (Go q r'') \<Rightarrow> exec_loop S data (q + 1) r''
          | m \<Rightarrow> m
      else Inr (Go p r))"
  by (subst exec_loop.simps) (simp add: HTTP_MAX_HEADER_SIZE_def)


text \<open>
  A second request in the buffer: its URL is appended to that of the first, so neither is served.
\<close>

theorem second_request_appended:
  "map_sum id w_url (ParseHttpContent [] (request_head HTTP_GET ''/a'' [] @ request_head HTTP_GET ''/b'' [])) = Inr ''/a/b''"
  by code_simp

text \<open>The overflow check on \<^verbatim>\<open>Content-Length\<close> does not see every overflow: 30000000000000000000 is accepted, as a smaller number.\<close>

theorem content_length_wraps:
  assumes "hp_header_state q = h_content_length" "hp_content_length q = 3000000000000000000"
  shows "value_char (CHR ''0'') q = Inr (Some (q\<lparr>hp_content_length := 11553255926290448384\<rparr>))"
proof -
  have "is_digit (CHR ''0'')" "digit_val (CHR ''0'') = 0" by code_simp+
  moreover have "(3000000000000000000 * 10 :: u64) = 11553255926290448384" "\<not> (11553255926290448384 :: u64) < 3000000000000000000"
    "(11553255926290448384 :: u64) \<noteq> - 1" by simp_all
  ultimately show ?thesis using assms by (simp add: value_char_def Let_def)
qed

text \<open>The callback for header names reads behind the data when a name is cut off.\<close>

theorem cut_name_over_read: "ParseHttpContent [] (''GET / HTTP/1.1'' @ CRLF @ ''Hos'') = Inl OutOfBounds"
  by code_simp

text \<open>A \<^verbatim>\<open>Content-Length\<close> above \<^verbatim>\<open>INT_MAX\<close> is given to \<^verbatim>\<open>atoi\<close>, which is undefined there.\<close>

theorem large_length_undefined: "w_read_content_len w \<Longrightarrow> value_content_len ''4294967296'' w = Inl Overflow"
  by (simp add: value_content_len_def atoi_def strtol_def is_space_def is_digit_def dec_val_def digit_val_def int_range_def Let_def)

text \<open>The table of hexadecimal digits is only half written: a byte above 0x7F is the digit 0 of a chunk size.\<close>

theorem high_bytes_are_hex: "unhex_at (CHR 0xC3) = 0"
  by code_simp

end
