(* ===== verification/HttpConn.thy ===== *)
theory HttpConn
  imports CometHttp HttpFront
begin

text \<open>
  \<^verbatim>\<open>CHttpConn::OnRead\<close>: what the comet server does with the bytes of an HTTP connection, from the buffer through
  the parser to the response of the account handlers.
\<close>

text \<open>
  The length is passed as 32 bits. The buffer is only looked at, never emptied, so every call parses all bytes
  that have arrived; \<open>after\<close> is the memory behind them. The result is the response, if any.
\<close>

definition CHttpConn_OnRead :: "http \<Rightarrow> string \<Rightarrow> string \<Rightarrow> string \<Rightarrow> string option res" where
  "CHttpConn_OnRead http logic_server_addr after buf =
     (let len = length buf mod 2 ^ 32 in
      and_then (ParseHttpContent (drop len buf @ after) (take len buf)) (\<lambda>w.
        Inr (if \<not> w_read_all w then None
             else let url = w_url w; content = w_body_content w in
               if take 10 (c_str url) = ''/api/login'' then Some (HandleLoginRequest http logic_server_addr content)
               else if take 18 (c_str url) = ''/api/create-accoun''
               then Some (HandleRegisterRequest http logic_server_addr content)
               else Some unknown_url_response)))"

lemma OnRead_short:
  "length buf < 2 ^ 32 \<Longrightarrow> CHttpConn_OnRead http addr after buf =
     and_then (ParseHttpContent after buf) (\<lambda>w.
       Inr (if \<not> w_read_all w then None
            else if take 10 (c_str (w_url w)) = ''/api/login'' then Some (HandleLoginRequest http addr (w_body_content w))
            else if take 18 (c_str (w_url w)) = ''/api/create-accoun'' then Some (HandleRegisterRequest http addr (w_body_content w))
            else Some unknown_url_response))"
  unfolding CHttpConn_OnRead_def Let_def by simp

text \<open>While the body is incomplete nothing is answered.\<close>

lemma OnRead_part:
  assumes "request_ok m u hs" "list_all (\<lambda>(k, v). wr_value_ok k v) hs" "length body < body_length hs"
    "length (request_head m u hs @ body) < 2 ^ 32"
  shows "CHttpConn_OnRead http addr after (request_head m u hs @ body) = Inr None"
  using parse_part [OF assms(1,2,3), of after] unfolding OnRead_short [OF assms(4)] by auto

text \<open>
  C39: a login request is served from its bytes. However its body is cut into segments, the connection waits as long as
  part of the body is missing, and with the last byte it answers with what the login handler makes of exactly the
  body that was sent.
\<close>

theorem login_served:
  assumes "request_ok m (''/api/login'' @ t) hs" "list_all (\<lambda>(k, v). wr_value_ok k v) hs" "length body = body_length hs"
    "length (request_head m (''/api/login'' @ t) hs @ body) < 2 ^ 32"
  shows "(\<forall>n < length body. CHttpConn_OnRead http addr after (request_head m (''/api/login'' @ t) hs @ take n body) = Inr None)
    \<and> CHttpConn_OnRead http addr after (request_head m (''/api/login'' @ t) hs @ body) = Inr (Some (HandleLoginRequest http addr body))"
proof (intro conjI allI impI)
  fix n assume "n < length body"
  then show "CHttpConn_OnRead http addr after (request_head m (''/api/login'' @ t) hs @ take n body) = Inr None"
    using assms(3,4) by (intro OnRead_part [OF assms(1,2)]) simp_all
next
  have "take 10 (c_str (''/api/login'' @ t)) = ''/api/login''" by (simp add: c_str_def)
  then show "CHttpConn_OnRead http addr after (request_head m (''/api/login'' @ t) hs @ body) = Inr (Some (HandleLoginRequest http addr body))"
    using parse_whole [OF assms(1,2,3), of after] unfolding OnRead_short [OF assms(4)] by auto
qed

theorem login_served_witness:
  "CHttpConn_OnRead (\<lambda>url body. (None, [])) ''logic'' [] (request_head HTTP_POST ''/api/login'' login_headers) = Inr None
    \<and> CHttpConn_OnRead (\<lambda>url body. (None, [])) ''logic'' [] (request_head HTTP_POST ''/api/login'' login_headers @ ''{'') = Inr None
    \<and> CHttpConn_OnRead (\<lambda>url body. (None, [])) ''logic'' [] (request_head HTTP_POST ''/api/login'' login_headers @ ''{}'')
       = Inr (Some (HandleLoginRequest (\<lambda>url body. (None, [])) ''logic'' ''{}''))"
proof -
  have "length (request_head HTTP_POST ''/api/login'' login_headers @ ''{}'') < 2 ^ 32"
    by (simp add: request_head_def login_headers_def head_line_def CRLF_def)
  with login_served [of HTTP_POST "[]" login_headers "''{}''" "\<lambda>url body. (None, [])" "''logic''" "[]"] login_request
  have s: "(\<forall>n < 2. CHttpConn_OnRead (\<lambda>url body. (None, [])) ''logic'' [] (request_head HTTP_POST ''/api/login'' login_headers @ take n ''{}'') = Inr None)
    \<and> CHttpConn_OnRead (\<lambda>url body. (None, [])) ''logic'' [] (request_head HTTP_POST ''/api/login'' login_headers @ ''{}'')
       = Inr (Some (HandleLoginRequest (\<lambda>url body. (None, [])) ''logic'' ''{}''))" by simp
  show ?thesis using conjunct1 [OF s, THEN spec [of _ 0]] conjunct1 [OF s, THEN spec [of _ 1]] conjunct2 [OF s] by simp
qed

end
