(* ===== verification/Spec2Isabelle.thy ===== *)
theory Spec2Isabelle
  imports RedisOverWire TcpServer TimerQueue EventLoop EpollPoller WorkerPool LogicServer CometReach JobServer HttpConn
begin

text \<open>
  A verification of the distributed chat room under \<^verbatim>\<open>src/server/application\<close>. Paths
  below are relative to that directory.

  \<^bold>\<open>The program.\<close> Three servers. The \<^emph>\<open>comet\<close> server (\<^verbatim>\<open>chat-room/\<close>) holds the browsers'
  WebSocket connections: it authenticates a handshake by asking the logic server, keeps the map
  from user ids to connections and the rooms with their subscribers, forwards requests of its
  clients to the logic server over HTTP, and sends out what it is told over gRPC. The
  \<^emph>\<open>logic\<close> server (\<^verbatim>\<open>logic/\<close>) answers HTTP requests: accounts and sessions, rooms, history, and
  messages, which it stores in a Redis stream per room and publishes to Kafka. The \<^emph>\<open>job\<close>
  server (\<^verbatim>\<open>job/\<close>) takes messages from Kafka and calls the comet server. All stand on
  a copy of the muduo network library.

  \<^bold>\<open>Shared vocabulary.\<close> \<^verbatim>\<open>ChatPrelude\<close>: bytes, machine sizes, exceptions and failed assertions as
  values of \<^verbatim>\<open>res\<close>, the members of \<^verbatim>\<open>std::string\<close> the sources use, with their lemmas.
  \<^verbatim>\<open>JsonApi\<close>: jsoncpp as a record of operations and the laws of its
  documentation (\<^verbatim>\<open>json_laws\<close>), shown to be satisfiable by a concrete instance.

  \<^bold>\<open>Library layer.\<close>
  \<^item> \<^verbatim>\<open>Base64\<close> (\<^verbatim>\<open>base/base64.cpp\<close>): both encoders agree, have the padded length and are
    inverted by an RFC 4648 decoder.
  \<^item> \<^verbatim>\<open>Util\<close> (\<^verbatim>\<open>base/util.cc\<close>): splitting, replacing, number and URL coding, memory search;
    round trips, and the two cases in which the helpers go wrong.
  \<^item> \<^verbatim>\<open>ConfigFile\<close> (\<^verbatim>\<open>base/config_file_reader.cc\<close>), \<^verbatim>\<open>ServerConfigs\<close> (the \<^verbatim>\<open>ServerConfig\<close> structures of
    the three \<^verbatim>\<open>main.cc\<close> and \<^verbatim>\<open>logic_config.cc\<close>): what is read, written back and read again.
  \<^item> \<^verbatim>\<open>Md5\<close> (\<^verbatim>\<open>muduo/base/md5.cc\<close>): the class equals RFC 1321; \<^verbatim>\<open>md5_ref\<close> is written from
    the RFC, the model from the code.
  \<^item> \<^verbatim>\<open>NetBuffer\<close> (\<^verbatim>\<open>muduo/net/Buffer.h\<close>, \<^verbatim>\<open>Buffer.cc\<close>): every operation with its assertions; the locale
    \<^verbatim>\<open>byte_queue\<close> states the queue interface for any interleaving of operations, the buffer interprets it.
  \<^item> \<^verbatim>\<open>TcpConn\<close> (\<^verbatim>\<open>muduo/net/TcpConnection.cc\<close>, parts of \<^verbatim>\<open>EventLoop.cc\<close> and \<^verbatim>\<open>Channel.h\<close>): connection
    states, direct and buffered writes, functors queued by other threads, closing. Bytes leave in
    order, shutdown is graceful, output drains, no assertion fails as long as \<^verbatim>\<open>startRead\<close> is called in the loop of a
    connection that is up.
  \<^item> \<^verbatim>\<open>TcpServer\<close> (\<^verbatim>\<open>muduo/net/TcpServer.cc\<close>, \<^verbatim>\<open>EventLoopThreadPool.cc\<close>): a server, its loops with their queues, and the connections of
    \<^verbatim>\<open>TcpConn\<close> from accepting to destruction; a handler of a connection is a step with whatever it returns. No assertion fails in any order, no destroyed connection is used, every connection
    object stays in a state \<^verbatim>\<open>TcpConn\<close> reaches, so that its theorems hold for it.
  \<^item> \<^verbatim>\<open>EventLoop\<close> (\<^verbatim>\<open>muduo/net/EventLoop.cc\<close>): the loop's thread and others that queue functors and quit; functors run in order,
    no wake-up is lost but for functors its own thread queues before \<^verbatim>\<open>loop\<close>. \<^verbatim>\<open>EpollPoller\<close> (\<^verbatim>\<open>Channel.cc\<close>, \<^verbatim>\<open>poller/EPollPoller.cc\<close>): channels at addresses the kernel holds; the interest list
    agrees with the channels, none is used after its destruction, reported events reach the handlers.
  \<^item> \<^verbatim>\<open>TimerQueue\<close> (\<^verbatim>\<open>muduo/net/TimerQueue.cc\<close>, \<^verbatim>\<open>Timer.cc\<close>): timers at heap addresses, the two sets of the queue, alarms,
    callbacks and functors as events. No freed timer is used, timers run when they are due, cancelled ones stop.
  \<^item> \<^verbatim>\<open>WorkerPool\<close> (\<^verbatim>\<open>muduo/base/ThreadPool.cc\<close>): critical sections as functions; workers, callers and
    condition variables as a transition relation. First in, first out; no lost wake-up.

  \<^bold>\<open>Comet server.\<close>
  \<^item> \<^verbatim>\<open>WebSocketFrame\<close> (\<^verbatim>\<open>service/websocket_conn.cc\<close>, framing): building, parsing, and the
    receive loop that cuts frames out of the byte stream, compared with frames written from RFC 6455.
  \<^item> \<^verbatim>\<open>PubSub\<close> (\<^verbatim>\<open>service/pub_sub_service.h\<close>, \<^verbatim>\<open>.cc\<close>): locale \<^verbatim>\<open>subscription\<close>; refinement of a map
    from rooms to sets of users.
  \<^item> \<^verbatim>\<open>LogicClient\<close> (\<^verbatim>\<open>service/logic_client.cc\<close>), \<^verbatim>\<open>CometHttp\<close> (\<^verbatim>\<open>main.cc\<close>, \<^verbatim>\<open>service/http_handler.h\<close>,
    \<^verbatim>\<open>service/http_conn.cc\<close>): requests to the logic server, the connection table, the HTTP front end.
  \<^item> \<^verbatim>\<open>HttpParser\<close> (\<^verbatim>\<open>service/http_parser.cc\<close>, \<^verbatim>\<open>.h\<close>): the parser as a step per byte, one definition per block of the
    \<^verbatim>\<open>switch\<close>, with marks, callbacks and assertions. \<^verbatim>\<open>HttpParserSafe\<close>: an invariant of the states, by which no assertion
    fails on any input. \<^verbatim>\<open>HttpRequests\<close>, \<^verbatim>\<open>HttpRequestRun\<close>: methods and header names are recognised exactly; runs over stretches
    of bytes. \<^verbatim>\<open>HttpMessages\<close>: the locale \<^verbatim>\<open>request_callbacks\<close> is the contract between the parser and its callbacks, under
    which a request is read completely. \<^verbatim>\<open>HttpWrapper\<close>, \<^verbatim>\<open>HttpFront\<close> (\<^verbatim>\<open>service/http_parser_wrapper.cc\<close>): the callbacks of the
    comet server interpret it. \<^verbatim>\<open>HttpConn\<close> (\<^verbatim>\<open>CHttpConn::OnRead\<close>): from the bytes of a connection to the response.
  \<^item> \<^verbatim>\<open>Comet\<close> (\<^verbatim>\<open>service/websocket_conn.cc\<close>, \<^verbatim>\<open>rpc/comet_service.cc\<close>, \<^verbatim>\<open>main.cc\<close>): the record \<^verbatim>\<open>comet\<close> holds the
    connections, the user map, the pending tasks and what was written to each connection;
    one definition per handler. \<^verbatim>\<open>CometReach\<close>: accepts, reads, tasks in any order, RPCs and closes as a
    step relation; the invariant of the user map and exact delivery of broadcasts.

  \<^bold>\<open>Logic server.\<close>
  \<^item> \<^verbatim>\<open>ConnPool\<close> (\<^verbatim>\<open>mysql/db_pool.cc\<close>, \<^verbatim>\<open>redis/cache_pool.cc\<close>, pools): the locale \<^verbatim>\<open>conn_pool\<close> proves
    exclusion, the limit and wake-ups for all interleavings once; both pools interpret it.
  \<^item> \<^verbatim>\<open>HiredisReader\<close>, \<^verbatim>\<open>HiredisReplies\<close> (\<^verbatim>\<open>redis/read.c\<close> and the reply objects of \<^verbatim>\<open>redis/hiredis.c\<close>): the reply
    parser with its task stack; safe on arbitrary input, independent of how bytes arrive, and exact on
    every reply written from the Redis protocol (\<^verbatim>\<open>resp_enc\<close>).
  \<^item> \<^verbatim>\<open>HiredisClient\<close>, \<^verbatim>\<open>HiredisWire\<close> (\<^verbatim>\<open>redis/hiredis.c\<close>): formats and commands, the context with its output
    buffer, the exchange of a command for its reply over any socket, and over a byte stream to a
    server that splits, interrupts and hangs up as it likes.
  \<^item> \<^verbatim>\<open>CacheConn\<close> (\<^verbatim>\<open>redis/cache_pool.cc\<close>, commands), \<^verbatim>\<open>DbConn\<close> (\<^verbatim>\<open>mysql/db_pool.cc\<close>, statements).
    \<^verbatim>\<open>RedisOverWire\<close>: a table of what each method promises and the protocol of a connection as an abstract specification, which the class
    over the hiredis client and a byte stream implements; the locale \<^verbatim>\<open>redis_sim\<close> relates two implementations of the interface that
    \<^verbatim>\<open>CacheConn\<close> uses; the hiredis client over a byte stream and the server itself interpret it.
  \<^item> \<^verbatim>\<open>MessageService\<close> (\<^verbatim>\<open>service/message_service.cc\<close>), \<^verbatim>\<open>RoomService\<close> (\<^verbatim>\<open>service/room_service.cc\<close>): batches
    stored in order, complete paging, rooms.
  \<^item> \<^verbatim>\<open>AuthApi\<close> (\<^verbatim>\<open>api/*.cc\<close>): login, registration, session cookies.
  \<^item> \<^verbatim>\<open>Kafka\<close> (\<^verbatim>\<open>service/kafka_producer.cpp\<close>, and \<^verbatim>\<open>job/service/kafka_consumer.cc\<close>).
  \<^item> \<^verbatim>\<open>LogicServer\<close> (\<^verbatim>\<open>main.cc\<close>): dispatch and the eight handlers on every branch.

  \<^bold>\<open>Job server.\<close> \<^verbatim>\<open>JobServer\<close> (\<^verbatim>\<open>job/main.cc\<close>): a round of the consuming loop with its retries.

  \<^bold>\<open>This theory\<close> joins the three: the comet server's model is the gRPC stub of the job server, and a
  send or create request is followed from the HTTP request of the client to the frames on the
  connections of the other clients.

  \<^bold>\<open>Parameters.\<close> Code outside the repository is an argument: jsoncpp, the Redis server (a function from
  commands to replies; for the streams the laws of XADD and XREVRANGE), libmysqlclient,
  libcurl, librdkafka, gRPC, protobuf's parsing, OpenSSL's SHA1, UUIDs, random numbers and clocks, and what
  \<^verbatim>\<open>write\<close>, \<^verbatim>\<open>read\<close>, \<^verbatim>\<open>readv\<close> and \<^verbatim>\<open>vsnprintf\<close> return, and \<^verbatim>\<open>epoll_ctl\<close> with its laws. The memory behind a request is an argument of
  \<^verbatim>\<open>ParseHttpContent\<close>. Every hypothesis on a parameter is met by a concrete function in a witness.

  \<^bold>\<open>Loops.\<close> Loops that may not end are partial functions whose value \<^verbatim>\<open>None\<close> means that they do not
  return: the receive loop \<^verbatim>\<open>drain_frames\<close> (it hangs when the 64-bit frame length wraps to 0, and
  returns otherwise), \<^verbatim>\<open>md5_loop\<close>, the loops of \<^verbatim>\<open>redisGetReply\<close>, which end when the stream makes progress, and the
  producer's \<^verbatim>\<open>drain\<close>, which ends when polls do. Paging
  through a history uses as many pages as there are messages and one more, which is enough because
  every page but the last has a message.

  \<^bold>\<open>Not modelled.\<close> The rest of muduo (the poller for \<^verbatim>\<open>poll\<close>, acceptor, logging, thread creation): its effect is the order
  of events, over which the step relations quantify. hiredis outside the blocking client (sds memory management, socket
  set-up, the asynchronous API, which nothing calls), generated protobuf and gRPC code, the
  URL splitter of the HTTP parser, which nothing calls. Start-up code of the three \<^verbatim>\<open>main\<close> functions,
  signal handling, and helpers nothing calls (\<^verbatim>\<open>_HandleHtml\<close>, \<^verbatim>\<open>_HandleMemHtml\<close>,
  \<^verbatim>\<open>getSubdirectoryFromHttpRequest\<close>, \<^verbatim>\<open>parseRoomHistoryParams\<close>, MD5 of a file stream). The initialisation of
  \<^verbatim>\<open>MessageStorageManager\<close> and its helpers that borrow a pooled connection appear as flags and
  connections passed in. Clock, pid-file and file-size helpers of \<^verbatim>\<open>base/util.cc\<close>. The copies of \<^verbatim>\<open>base/\<close>
  and muduo in the other servers, which are compiled from the same text. The web client.
\<close>

section \<open>The three servers together\<close>

text \<open>The comet server seen through gRPC by the job server.\<close>

definition comet_as_stub :: "'v json_api \<Rightarrow> comet comet_stub" where
  "comet_as_stub J = \<lparr>
     stub_BroadcastRoom = (\<lambda>rid op body st. (GRPC_OK, BroadcastRoom rid body st)),
     stub_Broadcast = (\<lambda>op body st.
        case Broadcast J op body st of
          (Inr _, st') \<Rightarrow> (GRPC_OK, st') | (Inl _, st') \<Rightarrow> (GRPC_ERROR, st')),
     recreateConnection = (\<lambda>st. st)\<rparr>"

lemma deliver_room:
  assumes "pm_type P = PUSH"
  shows "deliver (comet_as_stub J) P st = (True, BroadcastRoom (pm_room P) (pm_msg P) st)"
  using assms broadcastRoom_first [of "comet_as_stub J"]
  by (simp add: deliver_def comet_as_stub_def)

lemma deliver_all:
  assumes "pm_type P = BROADCAST" "Broadcast J 5 (pm_msg P) st = (Inr (), st')"
  shows "deliver (comet_as_stub J) P st = (True, st')"
  using assms broadcast_first [of "comet_as_stub J"]
  by (simp add: deliver_def comet_as_stub_def)

text \<open>What a client reads in a document of messages.\<close>

definition texts_of :: "'v json_api \<Rightarrow> string \<Rightarrow> (string \<times> string res list) option" where
  "texts_of J text =
     (case jparse J text of
        None \<Rightarrow> None
      | Some doc \<Rightarrow>
          (case jget J doc ''payload'' of
             Inl _ \<Rightarrow> None
           | Inr payload \<Rightarrow>
               (case (jget_string J payload ''roomId'', jget J payload ''messages'') of
                  (Inr rid, Inr arr) \<Rightarrow> Some (rid, map (\<lambda>m. jget_string J m ''content'') (jelems J arr))
                | _ \<Rightarrow> None)))"

lemma texts_of_server_messages:
  assumes "json_laws J"
  shows "texts_of J (server_messages J rid ms) = Some (rid, map (\<lambda>m. Inr (msg_content m)) ms)"
  by (simp add: texts_of_def server_messages_def message_json_def jget_string_def json_simps [OF assms] o_def)

lemma sent_messages_texts:
  "map (\<lambda>m. Inr (msg_content m)) (sent_messages clock uid uname i cs) = map Inr cs"
  by (induction cs arbitrary: i) simp_all

lemma announced_created:
  assumes "json_laws J"
  shows "announced_room J (create_room_json J rid name uid uname) = Inr (Some (rid, name, uid))"
  by (simp add: announced_room_def create_room_json_def jget_string_def jget_null_def json_simps [OF assms])

lemma create_body_fields:
  assumes "json_laws J"
  shows "\<exists>json payload. parseJsonBody J (create_post_data J name uid uname) = Some json
    \<and> jmissing J json [''type'', ''payload''] = Inr False \<and> envelope J json = Inr (''clientCreateRoom'', payload)
    \<and> jmissing J payload [''roomName''] = Inr False
    \<and> jmissing J payload [''creatorId'', ''creatorUsername''] = Inr False
    \<and> jget_string J payload ''roomName'' = Inr name \<and> jget_string J payload ''creatorId'' = Inr uid
    \<and> jget_string J payload ''creatorUsername'' = Inr uname"
  by (simp add: parseJsonBody_def create_post_data_def envelope_def jget_string_def json_simps [OF assms])

lemma create_request:
  assumes "json_laws (env_json E)" "route_of request = CreateRoom"
    and "parseHttpRequest request = Some (meth, path, create_post_data (env_json E) name uid uname)"
    and "\<not> roomExistByName name (room_cache st)"
    and "createRoom (env_mysql E) (env_master E) (env_uuid E 0) name uid uname (room_cache st, mysql_state st)
          = ((0, rid, err), l, m)"
  defines "json \<equiv> create_room_json (env_json E) rid name uid uname"
  shows "onMessage E request st = (Inr (),
     snd (publish E \<lparr>pm_type = BROADCAST, pm_operation = 5, pm_room = ''global'', pm_msg = json\<rparr>
       (respond (json_response ''200 OK'' [] json) (st\<lparr>room_cache := l, mysql_state := m\<rparr>))))"
proof -
  obtain j payload where j: "parseJsonBody (env_json E) (create_post_data (env_json E) name uid uname) = Some j"
    "jmissing (env_json E) j [''type'', ''payload''] = Inr False"
    "envelope (env_json E) j = Inr (''clientCreateRoom'', payload)"
    "jmissing (env_json E) payload [''roomName''] = Inr False"
    "jmissing (env_json E) payload [''creatorId'', ''creatorUsername''] = Inr False"
    "jget_string (env_json E) payload ''roomName'' = Inr name" "jget_string (env_json E) payload ''creatorId'' = Inr uid"
    "jget_string (env_json E) payload ''creatorUsername'' = Inr uname"
    using create_body_fields [OF assms(1)] by blast
  have "create_payload E payload st = (Inr (),
     snd (publish E \<lparr>pm_type = BROADCAST, pm_operation = 5, pm_room = ''global'', pm_msg = json\<rparr>
       (respond (json_response ''200 OK'' [] json) (st\<lparr>room_cache := l, mysql_state := m\<rparr>))))"
    using assms(4,5) j(6-8) by (simp add: create_payload_def json_def Let_def)
  then show ?thesis
    using assms(2,3) j(1-5) by (simp add: onMessage_def srv_handleCreateRoom_def Let_def del: jmissing.simps)
qed

section \<open>Properties that span the servers\<close>

text \<open>
  C1: a chat message reaches the room. A send request the logic server accepts is
  published; when Kafka hands the published bytes to the job server, the job
  server's next round makes the comet server put one text frame on the connection
  of every online subscriber of the room, and on no other; and each of these frames
  decodes to a document for that room with exactly the texts that were sent, in order.
\<close>

theorem chat_message_reaches_room:
  fixes E :: "('v, 's, 'm, 'k) logic_env" and CE :: "'v comet_env"
  assumes laws: "json_laws (env_json E)" "stream_laws (env_redis E) V"
    and req: "route_of request = Send"
      "parseHttpRequest request = Some (meth, path, send_post_data (env_json E) rid uid uname arr)"
      "list_all2 (has_content (env_json E)) (jelems (env_json E) arr) cs"
  defines "P \<equiv> push_for (env_json E) rid (sent_messages (env_clock E) uid uname 0 cs)"
  assumes bus: "env_serialize E P = Some w" "parse w = Some P" "w \<noteq> []"
      "sendMessage (env_kafka E) (producer lst) w (kafka_state lst) = (True, k)"
      "rk_consume (env_kafka E) 1000 k = ((ERR_NO_ERROR, Some w), k')"
    and comet: "comet_reach CE cst" "subscribers (pubsub cst) rid = Some U"
    and len: "length (pm_msg P) < 2 ^ 64"
  shows "\<exists>lst' cst' new. onMessage E request lst = (Inr (), lst')
     \<and> sent lst' = sent lst @ [wrapJsonInHttpResponse success_json]
     \<and> job_step (env_kafka E) (comet_as_stub (env_json E)) parse (kafka_state lst', cst) = (k', cst')
     \<and> outbox cst' = outbox cst @ new \<and> distinct (map fst new)
     \<and> fst ` set new = {cid. \<exists>u\<in>U. online cst u = Some cid}
     \<and> (\<forall>(cid, f)\<in>set new. \<exists>fr. ParseWebSocketFrame f = Inr fr \<and> fin fr \<and> opcode fr = 1
          \<and> texts_of (env_json E) (string_of (payload_data fr)) = Some (rid, map Inr cs))"
proof -
  let ?J = "env_json E"
  let ?ms = "sent_messages (env_clock E) uid uname 0 cs"
  from srv_handleSend_effect [OF laws req(2,3), of lst] obtain st1 where
    st1: "srv_handleSend E request lst =
        (Inr (), respond (if fst (publish E P st1) then wrapJsonInHttpResponse success_json
                          else send_failed_response) (snd (publish E P st1)))"
      "kafka_state st1 = kafka_state lst" "producer st1 = producer lst" "sent st1 = sent lst"
    unfolding P_def by blast
  have pub: "publish E P st1 = (True, st1\<lparr>kafka_state := k\<rparr>)"
    using publish_eq [OF bus(1), of st1] bus(4) st1(2,3) by simp
  let ?lst = "respond (wrapJsonInHttpResponse success_json) (st1\<lparr>kafka_state := k\<rparr>)"
  have on: "onMessage E request lst = (Inr (), ?lst)" using req(1) st1(1) pub by (simp add: onMessage_def)
  let ?f = "BuildWebSocketFrame (bytes_of (pm_msg P)) 1"
  obtain new where new: "outbox (BroadcastRoom rid (pm_msg P) cst) = outbox cst @ new" "distinct new"
    "set new = {(cid, ?f) | cid u. u \<in> U \<and> online cst u = Some cid}"
    using BroadcastRoom_outbox [OF comet_reach_inv [OF comet(1)] comet(2), of "pm_msg P"] by blast
  have "pm_type P = PUSH" "pm_room P = rid" "pm_msg P = server_messages ?J rid ?ms"
    by (simp_all add: P_def push_for_def)
  then have job: "job_step (env_kafka E) (comet_as_stub ?J) parse (k, cst) = (k', BroadcastRoom rid (pm_msg P) cst)"
    using job_step_eq [of "env_kafka E" k w k' parse P "comet_as_stub ?J" cst] bus deliver_room [of P ?J cst] by simp
  have "texts_of ?J (pm_msg P) = Some (rid, map Inr cs)"
    using texts_of_server_messages [OF laws(1), of rid ?ms]
    by (simp add: P_def push_for_def sent_messages_texts)
  then have fr: "\<exists>fr. ParseWebSocketFrame ?f = Inr fr \<and> fin fr \<and> opcode fr = 1
      \<and> texts_of ?J (string_of (payload_data fr)) = Some (rid, map Inr cs)"
    using server_frame_parses [of "bytes_of (pm_msg P)" 1] len by simp
  have "distinct (map fst new)"
    using new(2,3) by (auto simp: distinct_map inj_on_def)
  moreover have "fst ` set new = {cid. \<exists>u\<in>U. online cst u = Some cid}"
    unfolding new(3) by force
  ultimately show ?thesis
    using on job new(1,3) fr st1(4)
    by (intro exI [of _ ?lst] exI [of _ "BroadcastRoom rid (pm_msg P) cst"] exI [of _ new]) auto
qed

definition parse_sample :: "string \<Rightarrow> PushMsg option" where
  "parse_sample w = Some \<lparr>pm_type = PUSH, pm_operation = 4, pm_room = ''r1'', pm_msg = w\<rparr>"

theorem chat_message_reaches_room_witness:
  "\<exists>lst' cst' new. onMessage sample_env sample_send sample_logic = (Inr (), lst')
     \<and> job_step queue_kafka (comet_as_stub jv_api) parse_sample (kafka_state lst', sample_online) = (([], []), cst')
     \<and> outbox cst' = outbox sample_online @ new \<and> fst ` set new = {1}"
proof -
  let ?ms = "sent_messages (env_clock sample_env) ''u1'' ''ann'' 0 [''hi'']"
  let ?P = "push_for (env_json sample_env) ''r1'' ?ms"
  have ne: "pm_msg ?P \<noteq> []"
    by (simp add: push_for_def server_messages_def sample_env_simps jobject_def enc_jv.simps)
  have len: "length (pm_msg ?P) < 2 ^ 64"
  proof -
    have "length (pm_msg ?P) \<le> 4000" by code_simp
    then show ?thesis by simp
  qed
  have p: "parse_sample (pm_msg ?P) = Some ?P" by (simp add: parse_sample_def push_for_def)
  have on: "online sample_online ''u1'' = Some 1" using sample_online_eq by (simp add: online_def)
  from chat_message_reaches_room [where E = sample_env and V = "\<lambda>s. s" and request = sample_send
      and meth = "''POST''" and path = "''/logic/send''" and rid = "''r1''" and uid = "''u1''" and uname = "''ann''"
      and arr = "JArr [JObj [(''content'', JStr ''hi'')]]" and cs = "[''hi'']" and w = "pm_msg ?P"
      and parse = parse_sample and lst = sample_logic and k = "([], [pm_msg ?P])" and k' = "([], [])"
      and CE = sample_cenv and cst = sample_online and U = "{''u1''}"] len ne p on
  show ?thesis
    by (auto simp: sample_env_simps json_laws_jv stream_laws_instance sample_send_route sample_send_parse
        sample_body_def sample_texts sample_reach sample_online_eq sample_logic_def sendMessage_def
        queue_kafka_def producer_init_def newKafkaProducer_def)
qed

text \<open>
  C2: a created room reaches everybody. When the name of a create request is free and the database
  accepts the insert under the id generated for it, the logic server lists the room, at the end of its list with
  that id, name and creator, answers 200 and publishes it; and once Kafka hands the published bytes to
  the job server, its next round makes the comet server subscribe every user of its
  map to the new room and put the announcement on every open connection of the map, once.
\<close>

theorem created_room_reaches_everyone:
  fixes E :: "('v, 's, 'm, 'k) logic_env" and CE :: "'v comet_env"
  assumes laws: "json_laws (env_json E)"
    and req: "route_of request = CreateRoom"
      "parseHttpRequest request = Some (meth, path, create_post_data (env_json E) name uid uname)"
      "\<not> roomExistByName name (room_cache lst)"
      "env_master E" "env_uuid E 0 = rid" "rid \<notin> r_room_id ` set (room_cache lst)"
      "ExecuteUpdate (env_mysql E) (create_sql rid name uid) True (mysql_state lst) = (True, m)"
  defines "P \<equiv> \<lparr>pm_type = BROADCAST, pm_operation = 5, pm_room = ''global'',
                pm_msg = create_room_json (env_json E) rid name uid uname\<rparr>"
  assumes bus: "env_serialize E P = Some w" "parse w = Some P" "w \<noteq> []"
      "sendMessage (env_kafka E) (producer lst) w (kafka_state lst) = (True, k)"
      "rk_consume (env_kafka E) 1000 k = ((ERR_NO_ERROR, Some w), k')"
    and comet: "comet_reach CE cst"
  shows "\<exists>lst' cst' U. onMessage E request lst = (Inr (), lst') \<and> mysql_state lst' = m
     \<and> room_cache lst' = room_cache lst @ [\<lparr>r_room_id = rid, r_room_name = name, r_creator_id = uid, r_create_time = [],
                                             r_update_time = [], r_history_last_message_id = []\<rparr>]
     \<and> sent lst' = sent lst @ [json_response ''200 OK'' [] (pm_msg P)]
     \<and> job_step (env_kafka E) (comet_as_stub (env_json E)) parse (kafka_state lst', cst) = (k', cst')
     \<and> subscribers (pubsub cst') rid = Some U \<and> fst ` set (s_user_ws_conn_map cst) \<subseteq> U
     \<and> outbox cst' = outbox cst @ map (\<lambda>(u, cid). (cid, BuildWebSocketFrame (bytes_of (pm_msg P)) 1))
                                   (filter (\<lambda>(u, cid). tcp_open cst cid) (s_user_ws_conn_map cst))"
proof -
  let ?J = "env_json E"
  let ?l = "room_cache lst @ [\<lparr>r_room_id = rid, r_room_name = name, r_creator_id = uid, r_create_time = [],
      r_update_time = [], r_history_last_message_id = []\<rparr>]"
  let ?st = "respond (json_response ''200 OK'' [] (pm_msg P)) (lst\<lparr>room_cache := ?l, mysql_state := m\<rparr>)"
  have created: "createRoom (env_mysql E) (env_master E) (env_uuid E 0) name uid uname (room_cache lst, mysql_state lst)
      = ((0, rid, []), ?l, m)"
    using createRoom_accepted [OF req(7,6), of uname] req(4,5) by simp
  have pub: "publish E P ?st = (True, ?st\<lparr>kafka_state := k\<rparr>)"
    using publish_eq [OF bus(1), of ?st] bus(4) by (simp add: respond_def)
  have on: "onMessage E request lst = (Inr (), ?st\<lparr>kafka_state := k\<rparr>)"
    using create_request [OF laws req(1-3) created] pub by (simp add: P_def)
  let ?room = "(rid, name, uid)"
  let ?f = "BuildWebSocketFrame (bytes_of (pm_msg P)) 1"
  let ?cst = "send_to_all ?f (open_room ?room cst)"
  have "Broadcast ?J 5 (pm_msg P) cst = (Inr (), ?cst)"
    using announced_created [OF laws, of rid name uid uname] by (simp add: Broadcast_def P_def)
  then have "deliver (comet_as_stub ?J) P cst = (True, ?cst)" by (intro deliver_all) (simp_all add: P_def)
  then have job: "job_step (env_kafka E) (comet_as_stub ?J) parse (k, cst) = (k', ?cst)"
    using job_step_eq [of "env_kafka E" k w k' parse P "comet_as_stub ?J" cst] bus by simp
  have inv: "pubsub_inv (pubsub cst)" using comet_reach_inv [OF comet] by (simp add: comet_inv_def)
  have "subscribers (pubsub ?cst) rid = Some (fst ` set (s_user_ws_conn_map cst)
      \<union> (case subscribers (pubsub cst) rid of None \<Rightarrow> {} | Some U \<Rightarrow> U))"
    using open_room_subscribes [OF inv, of rid name uid] by (simp add: send_to_all_def send_to_all_simps)
  moreover have "outbox (open_room ?room cst) = outbox cst" "tcp_open (open_room ?room cst) = tcp_open cst"
    by (simp_all add: open_room_def Let_def)
  ultimately show ?thesis
    using on job
    by (auto simp: send_to_all_def send_to_all_outbox open_room_frame)
qed

definition sample_create :: string where
  "sample_create = http_request ''POST'' ''/logic/room/create'' [''Host: h'']
     (create_post_data jv_api ''dpdk'' ''u1'' ''ann'')"

definition parse_created :: "string \<Rightarrow> PushMsg option" where
  "parse_created w = Some \<lparr>pm_type = BROADCAST, pm_operation = 5, pm_room = ''global'', pm_msg = w\<rparr>"

definition create_env :: "(jv, streams, string list, string list \<times> string list) logic_env" where
  "create_env = \<lparr>env_json = jv_api, env_redis = stream_redis, env_mysql = working_mysql,
     env_rand = (\<lambda>i. i), env_now = 9, env_clock = (\<lambda>_. 1700), env_uuid = (\<lambda>_. ''g''),
     env_master = True, env_slave = True, env_inited = True, env_serialize = (\<lambda>P. Some (pm_msg P)),
     env_kafka = queue_kafka\<rparr>"

definition create_logic :: "(streams, string list, string list \<times> string list) logic_state" where
  "create_logic = \<lparr>room_cache = [], token_conn = None, msg_conn = None,
     redis_state = (\<lambda>_. []), mysql_state = [],
     producer = snd (producer_init queue_kafka ''b'' ''t'' newKafkaProducer), kafka_state = ([], []),
     sent = []\<rparr>"

theorem created_room_reaches_everyone_witness:
  "\<exists>lst' cst' U. onMessage create_env sample_create create_logic = (Inr (), lst')
     \<and> map r_room_name (room_cache lst') = [''dpdk'']
     \<and> job_step queue_kafka (comet_as_stub jv_api) parse_created (kafka_state lst', sample_online) = (([], []), cst')
     \<and> subscribers (pubsub cst') ''g'' = Some U \<and> ''u1'' \<in> U"
proof -
  let ?w = "create_room_json jv_api ''g'' ''dpdk'' ''u1'' ''ann''"
  have c: "ExecuteUpdate working_mysql (create_sql ''g'' ''dpdk'' ''u1'') True []
      = (True, [c_str (create_sql ''g'' ''dpdk'' ''u1'')])"
    by (simp add: ExecuteUpdate_def run_sql_def CheckAndReconnect_def working_mysql_def)
  have r: "route_of sample_create = CreateRoom" by code_simp
  have p: "parseHttpRequest sample_create
      = Some (''POST'', ''/logic/room/create'', create_post_data jv_api ''dpdk'' ''u1'' ''ann'')"
    unfolding sample_create_def by (rule parse_http_request) (simp_all add: request_word_def header_line_def)
  have ne: "?w \<noteq> []" by (simp add: create_room_json_def jobject_def enc_jv.simps)
  from created_room_reaches_everyone [where E = create_env and request = sample_create
      and meth = "''POST''" and path = "''/logic/room/create''" and name = "''dpdk''" and uid = "''u1''"
      and uname = "''ann''" and lst = create_logic and rid = "''g''"
      and m = "[c_str (create_sql ''g'' ''dpdk'' ''u1'')]" and w = ?w and parse = parse_created
      and k = "([], [?w])" and k' = "([], [])" and CE = sample_cenv and cst = sample_online] c r p ne
  show ?thesis
    by (auto simp: create_env_def create_logic_def json_laws_jv roomExistByName_def parse_created_def
        sendMessage_def queue_kafka_def producer_init_def newKafkaProducer_def sample_reach sample_online_eq)
qed

end
